(* ===== verification/Prelude.thy ===== *)
theory Prelude
  imports Main "HOL-Library.Word" "HOL-Library.Signed_Division" "HOL-Library.Multiset"
begin

text \<open>
  The vocabulary the component theories share: Rust's \<open>Result\<close> as a sum type with its
  propagation operator, \<open>std::cmp::Ordering\<close>, panics as values, and the generic lemmas on
  lists, options and words that the component proofs use.
\<close>

named_theorems result_simps \<open>evaluation of result and state-result programs\<close>
named_theorems wf_intros \<open>preservation of the well-formedness invariants\<close>

section \<open>Results\<close>

text \<open>
  Rust's \<open>Result<T, E>\<close> is \<open>'e + 'a\<close>: \<open>Inl\<close> is \<open>Err\<close> and \<open>Inr\<close> is \<open>Ok\<close>.
  The operator \<open>?\<close> is \<open>rbind\<close>: an error leaves the function at once.
\<close>

abbreviation Ok :: "'a \<Rightarrow> 'e + 'a" where "Ok \<equiv> Inr"
abbreviation Err :: "'e \<Rightarrow> 'e + 'a" where "Err \<equiv> Inl"

definition rbind :: "'e + 'a \<Rightarrow> ('a \<Rightarrow> 'e + 'b) \<Rightarrow> 'e + 'b" where
  "rbind m f = (case m of Inl e \<Rightarrow> Inl e | Inr x \<Rightarrow> f x)"

definition rmap :: "('a \<Rightarrow> 'b) \<Rightarrow> 'e + 'a \<Rightarrow> 'e + 'b" where
  "rmap f m = (case m of Inl e \<Rightarrow> Inl e | Inr x \<Rightarrow> Inr (f x))"

definition ok_or :: "'a option \<Rightarrow> 'e \<Rightarrow> 'e + 'a" where
  "ok_or m e = (case m of None \<Rightarrow> Inl e | Some x \<Rightarrow> Inr x)"

text \<open>A failure of the code: an error value with its message, or a panic (an index out of
  range, an arithmetic overflow, a failed \<open>expect\<close>).\<close>

datatype fault = Message string | Panic string

lemma rbind_simps [simp, result_simps]:
  "rbind (Inl e) f = Inl e" "rbind (Inr x) f = f x"
  by (simp_all add: rbind_def)

lemma rmap_simps [simp, result_simps]:
  "rmap g (Inl e) = Inl e" "rmap g (Inr x) = Inr (g x)"
  by (simp_all add: rmap_def)

lemma ok_or_simps [simp, result_simps]:
  "ok_or None e = Inl e" "ok_or (Some x) e = Inr x"
  by (simp_all add: ok_or_def)

lemma rbind_split:
  "P (rbind m f) \<longleftrightarrow> (\<forall>e. m = Inl e \<longrightarrow> P (Inl e)) \<and> (\<forall>x. m = Inr x \<longrightarrow> P (f x))"
  by (cases m) auto

lemma rbind_eq_Inr [simp]: "rbind m f = Inr y \<longleftrightarrow> (\<exists>x. m = Inr x \<and> f x = Inr y)"
  by (cases m) auto

lemma rbind_eq_Inl:
  "rbind m f = Inl e \<longleftrightarrow> m = Inl e \<or> (\<exists>x. m = Inr x \<and> f x = Inl e)"
  by (cases m) auto

lemma rmap_eq_Inr [simp]: "rmap g m = Inr y \<longleftrightarrow> (\<exists>x. m = Inr x \<and> g x = y)"
  by (cases m) auto

lemma rmap_eq_Inl [simp]: "rmap g m = Inl e \<longleftrightarrow> m = Inl e"
  by (cases m) auto

lemma ok_or_eq_Inr [simp]: "ok_or m e = Inr x \<longleftrightarrow> m = Some x"
  by (cases m) auto

lemma ok_or_eq_Inl [simp]: "ok_or m e = Inl e' \<longleftrightarrow> m = None \<and> e = e'"
  by (cases m) auto

section \<open>Orderings\<close>

text \<open>\<open>std::cmp::Ordering\<close> and the comparison of a totally ordered type.\<close>

datatype ordering = Less | Equal | Greater

definition cmp :: "'a::linorder \<Rightarrow> 'a \<Rightarrow> ordering" where
  "cmp x y = (if x < y then Less else if x = y then Equal else Greater)"

lemma cmp_simps [simp]:
  "cmp x y = Less \<longleftrightarrow> x < y"
  "cmp x y = Equal \<longleftrightarrow> x = y"
  "cmp x y = Greater \<longleftrightarrow> y < x"
  by (auto simp: cmp_def)

lemma cmp_refl [simp]: "cmp x x = Equal"
  by (simp add: cmp_def)

definition reverse_ordering :: "ordering \<Rightarrow> ordering" where
  "reverse_ordering r = (case r of Less \<Rightarrow> Greater | Equal \<Rightarrow> Equal | Greater \<Rightarrow> Less)"

lemma reverse_ordering_simps [simp]:
  "reverse_ordering Less = Greater" "reverse_ordering Equal = Equal"
  "reverse_ordering Greater = Less"
  by (simp_all add: reverse_ordering_def)

section \<open>Machine integers\<close>

text \<open>
  The conversion of a mathematical integer to a fixed width, \<open>None\<close> where it does not fit:
  Rust's \<open>try_from\<close> and the last step of every \<open>checked_*\<close> operation.
\<close>

definition s_fits :: "'a::len itself \<Rightarrow> int \<Rightarrow> bool" where
  "s_fits _ x \<longleftrightarrow> - (2 ^ (LENGTH('a) - 1)) \<le> x \<and> x < 2 ^ (LENGTH('a) - 1)"

definition u_fits :: "'a::len itself \<Rightarrow> int \<Rightarrow> bool" where
  "u_fits _ x \<longleftrightarrow> 0 \<le> x \<and> x < 2 ^ LENGTH('a)"

definition s_try :: "int \<Rightarrow> 'a::len word option" where
  "s_try x = (if s_fits TYPE('a) x then Some (word_of_int x) else None)"

definition u_try :: "int \<Rightarrow> 'a::len word option" where
  "u_try x = (if u_fits TYPE('a) x then Some (word_of_int x) else None)"

lemma sint_fits [simp]: "s_fits TYPE('a::len) (sint (w :: 'a word))"
  using sint_ge [of w] sint_lt [of w] by (simp add: s_fits_def)

lemma uint_fits [simp]: "u_fits TYPE('a::len) (uint (w :: 'a word))"
  by (simp add: u_fits_def)

lemma sint_word_of_int_fits:
  assumes "s_fits TYPE('a::len) x"
  shows "sint (word_of_int x :: 'a word) = x"
proof -
  have "signed_take_bit (LENGTH('a) - Suc 0) x = x"
    using assms by (intro signed_take_bit_int_eq_self) (simp_all add: s_fits_def)
  then show ?thesis by (simp add: signed_of_int)
qed

lemma uint_word_of_int_fits:
  assumes "u_fits TYPE('a::len) x"
  shows "uint (word_of_int x :: 'a word) = x"
  using assms by (simp add: u_fits_def uint_word_of_int)

lemma s_try_eq_Some: "s_try x = Some (w :: 'a::len word) \<longleftrightarrow> sint w = x"
  by (auto simp: s_try_def sint_word_of_int_fits)

lemma u_try_eq_Some: "u_try x = Some (w :: 'a::len word) \<longleftrightarrow> uint w = x"
  by (auto simp: u_try_def uint_word_of_int_fits)

lemma s_try_sint [simp]: "s_try (sint (w :: 'a::len word)) = Some w"
  by (simp add: s_try_eq_Some)

lemma u_try_uint [simp]: "u_try (uint (w :: 'a::len word)) = Some w"
  by (simp add: u_try_eq_Some)

end
