(* ===== verification/Numeric.thy ===== *)
theory Numeric
  imports Prelude
begin

text \<open>
  The runtime numbers, \<open>value/numeric.rs\<close>: one constructor per primitive type, integers at
  their width, checked arithmetic that reports overflow and a zero divisor, conversions, and
  the literal parser and printer. Floats are kept as bit patterns, as the code keeps them:
  negation and comparison are defined on the bits, while the rounded IEEE-754 operations, the
  conversions between the two widths and the decimal parser and printer of floats are the
  parameter \<open>float_ops\<close>.
\<close>

section \<open>Values\<close>

text \<open>
  \<open>etas_types::PrimitiveType\<close>, of which \<open>numeric.rs\<close> names the numeric members; every
  other member is \<open>OtherPrim\<close>, which the code treats by its wildcard branches.
\<close>

datatype primitive_type =
    PI8 | PI16 | PI32 | PI64 | PI128 | PISize
  | PU8 | PU16 | PU32 | PU64 | PU128 | PUSize
  | PF32 | PF64
  | OtherPrim nat

datatype numeric_value =
    I8 "8 word" | I16 "16 word" | I32 "32 word" | I64 "64 word" | I128 "128 word"
  | ISize "64 word"
  | U8 "8 word" | U16 "16 word" | U32 "32 word" | U64 "64 word" | U128 "128 word"
  | USize "64 word"
  | F32 "32 word" | F64 "64 word"

datatype numeric_error = TypeMismatch | Overflow | DivisionByZero | InvalidLiteral

datatype integer_op = Add | Sub | Mul | Div | Rem

record float_ops =
  f32_binary :: "integer_op \<Rightarrow> 32 word \<Rightarrow> 32 word \<Rightarrow> 32 word"
  f64_binary :: "integer_op \<Rightarrow> 64 word \<Rightarrow> 64 word \<Rightarrow> 64 word"
  f32_parse :: "string \<Rightarrow> 32 word option"
  f64_parse :: "string \<Rightarrow> 64 word option"
  f64_as_f32 :: "64 word \<Rightarrow> 32 word"
  f32_as_f64 :: "32 word \<Rightarrow> 64 word"
  f32_show :: "32 word \<Rightarrow> string"
  f64_show :: "64 word \<Rightarrow> string"

text \<open>A concrete instance of the parameter, for the closed examples.\<close>

definition sample_float_ops :: float_ops where
  "sample_float_ops =
     \<lparr>f32_binary = (\<lambda>_ a _. a), f64_binary = (\<lambda>_ a _. a), f32_parse = (\<lambda>_. None),
      f64_parse = (\<lambda>_. None), f64_as_f32 = (\<lambda>_. 0), f32_as_f64 = (\<lambda>_. 0),
      f32_show = (\<lambda>_. []), f64_show = (\<lambda>_. [])\<rparr>"

definition i32 :: "32 word \<Rightarrow> numeric_value" where
  "i32 value = I32 value"

text \<open>\<open>usize\<close> is 64 bits wide on the supported targets, so \<open>value as u64\<close> keeps it.\<close>

definition usize :: "64 word \<Rightarrow> numeric_value" where
  "usize value = USize value"

fun primitive :: "numeric_value \<Rightarrow> primitive_type" where
  "primitive (I8 _) = PI8"
| "primitive (I16 _) = PI16"
| "primitive (I32 _) = PI32"
| "primitive (I64 _) = PI64"
| "primitive (I128 _) = PI128"
| "primitive (ISize _) = PISize"
| "primitive (U8 _) = PU8"
| "primitive (U16 _) = PU16"
| "primitive (U32 _) = PU32"
| "primitive (U64 _) = PU64"
| "primitive (U128 _) = PU128"
| "primitive (USize _) = PUSize"
| "primitive (F32 _) = PF32"
| "primitive (F64 _) = PF64"

section \<open>Conversions\<close>

definition from_signed :: "128 word \<Rightarrow> primitive_type \<Rightarrow> numeric_value option" where
  "from_signed value prim =
     (case prim of
        PI8 \<Rightarrow> map_option I8 (s_try (sint value))
      | PI16 \<Rightarrow> map_option I16 (s_try (sint value))
      | PI32 \<Rightarrow> map_option I32 (s_try (sint value))
      | PI64 \<Rightarrow> map_option I64 (s_try (sint value))
      | PI128 \<Rightarrow> Some (I128 value)
      | PISize \<Rightarrow> map_option ISize (s_try (sint value))
      | _ \<Rightarrow> None)"

definition from_unsigned :: "128 word \<Rightarrow> primitive_type \<Rightarrow> numeric_value option" where
  "from_unsigned value prim =
     (case prim of
        PU8 \<Rightarrow> map_option U8 (u_try (uint value))
      | PU16 \<Rightarrow> map_option U16 (u_try (uint value))
      | PU32 \<Rightarrow> map_option U32 (u_try (uint value))
      | PU64 \<Rightarrow> map_option U64 (u_try (uint value))
      | PU128 \<Rightarrow> Some (U128 value)
      | PUSize \<Rightarrow> map_option USize (u_try (uint value))
      | _ \<Rightarrow> None)"


fun as_i128 :: "numeric_value \<Rightarrow> 128 word option" where
  "as_i128 (I8 v) = Some (word_of_int (sint v))"
| "as_i128 (I16 v) = Some (word_of_int (sint v))"
| "as_i128 (I32 v) = Some (word_of_int (sint v))"
| "as_i128 (I64 v) = Some (word_of_int (sint v))"
| "as_i128 (ISize v) = Some (word_of_int (sint v))"
| "as_i128 (I128 v) = Some v"
| "as_i128 _ = None"

fun as_u128 :: "numeric_value \<Rightarrow> 128 word option" where
  "as_u128 (U8 v) = Some (word_of_int (uint v))"
| "as_u128 (U16 v) = Some (word_of_int (uint v))"
| "as_u128 (U32 v) = Some (word_of_int (uint v))"
| "as_u128 (U64 v) = Some (word_of_int (uint v))"
| "as_u128 (USize v) = Some (word_of_int (uint v))"
| "as_u128 (U128 v) = Some v"
| "as_u128 _ = None"

fun as_f64 :: "float_ops \<Rightarrow> numeric_value \<Rightarrow> 64 word option" where
  "as_f64 fo (F32 bits) = Some (f32_as_f64 fo bits)"
| "as_f64 fo (F64 bits) = Some bits"
| "as_f64 fo _ = None"

text \<open>\<open>Option::or_else\<close> of the unsigned and the signed reading.\<close>

definition or_else :: "'a option \<Rightarrow> 'a option \<Rightarrow> 'a option" where
  "or_else a b = (case a of None \<Rightarrow> b | Some x \<Rightarrow> Some x)"

lemma or_else_simps [simp]: "or_else None b = b" "or_else (Some x) b = Some x"
  by (simp_all add: or_else_def)

definition as_usize :: "numeric_value \<Rightarrow> 64 word option" where
  "as_usize v =
     or_else (Option.bind (as_u128 v) (\<lambda>w. u_try (uint w)))
             (Option.bind (as_i128 v) (\<lambda>w. u_try (sint w)))"

definition as_u32 :: "numeric_value \<Rightarrow> 32 word option" where
  "as_u32 v =
     or_else (Option.bind (as_u128 v) (\<lambda>w. u_try (uint w)))
             (Option.bind (as_i128 v) (\<lambda>w. u_try (sint w)))"

definition as_u64 :: "numeric_value \<Rightarrow> 64 word option" where
  "as_u64 v =
     or_else (Option.bind (as_u128 v) (\<lambda>w. u_try (uint w)))
             (Option.bind (as_i128 v) (\<lambda>w. u_try (sint w)))"

definition as_i64 :: "numeric_value \<Rightarrow> 64 word option" where
  "as_i64 v =
     or_else (Option.bind (as_i128 v) (\<lambda>w. s_try (sint w)))
             (Option.bind (as_u128 v) (\<lambda>w. s_try (uint w)))"

section \<open>Checked arithmetic\<close>

text \<open>
  The macro \<open>integer!\<close> of \<open>checked_binary\<close>, for signed and for unsigned operands. Division
  truncates towards zero; the remainder overflows exactly where the quotient does.
\<close>

definition s_integer :: "integer_op \<Rightarrow> 'a::len word \<Rightarrow> 'a word \<Rightarrow> numeric_error + 'a word" where
  "s_integer op lhs rhs =
     (case op of
        Add \<Rightarrow> ok_or (s_try (sint lhs + sint rhs)) Overflow
      | Sub \<Rightarrow> ok_or (s_try (sint lhs - sint rhs)) Overflow
      | Mul \<Rightarrow> ok_or (s_try (sint lhs * sint rhs)) Overflow
      | Div \<Rightarrow> if rhs = 0 then Err DivisionByZero
               else ok_or (s_try (sint lhs sdiv sint rhs)) Overflow
      | Rem \<Rightarrow> if rhs = 0 then Err DivisionByZero
               else if s_fits TYPE('a) (sint lhs sdiv sint rhs)
               then Ok (word_of_int (sint lhs smod sint rhs)) else Err Overflow)"

definition u_integer :: "integer_op \<Rightarrow> 'a::len word \<Rightarrow> 'a word \<Rightarrow> numeric_error + 'a word" where
  "u_integer op lhs rhs =
     (case op of
        Add \<Rightarrow> ok_or (u_try (uint lhs + uint rhs)) Overflow
      | Sub \<Rightarrow> ok_or (u_try (uint lhs - uint rhs)) Overflow
      | Mul \<Rightarrow> ok_or (u_try (uint lhs * uint rhs)) Overflow
      | Div \<Rightarrow> if rhs = 0 then Err DivisionByZero
               else ok_or (u_try (uint lhs div uint rhs)) Overflow
      | Rem \<Rightarrow> if rhs = 0 then Err DivisionByZero
               else ok_or (u_try (uint lhs mod uint rhs)) Overflow)"

definition checked_binary ::
  "float_ops \<Rightarrow> numeric_value \<Rightarrow> numeric_value \<Rightarrow> integer_op \<Rightarrow> numeric_error + numeric_value"
where
  "checked_binary fo self rhs op =
     (case self of
        I8 l \<Rightarrow> (case rhs of I8 r \<Rightarrow> rmap I8 (s_integer op l r) | _ \<Rightarrow> Err TypeMismatch)
      | I16 l \<Rightarrow> (case rhs of I16 r \<Rightarrow> rmap I16 (s_integer op l r) | _ \<Rightarrow> Err TypeMismatch)
      | I32 l \<Rightarrow> (case rhs of I32 r \<Rightarrow> rmap I32 (s_integer op l r) | _ \<Rightarrow> Err TypeMismatch)
      | I64 l \<Rightarrow> (case rhs of I64 r \<Rightarrow> rmap I64 (s_integer op l r) | _ \<Rightarrow> Err TypeMismatch)
      | I128 l \<Rightarrow> (case rhs of I128 r \<Rightarrow> rmap I128 (s_integer op l r) | _ \<Rightarrow> Err TypeMismatch)
      | ISize l \<Rightarrow> (case rhs of ISize r \<Rightarrow> rmap ISize (s_integer op l r) | _ \<Rightarrow> Err TypeMismatch)
      | U8 l \<Rightarrow> (case rhs of U8 r \<Rightarrow> rmap U8 (u_integer op l r) | _ \<Rightarrow> Err TypeMismatch)
      | U16 l \<Rightarrow> (case rhs of U16 r \<Rightarrow> rmap U16 (u_integer op l r) | _ \<Rightarrow> Err TypeMismatch)
      | U32 l \<Rightarrow> (case rhs of U32 r \<Rightarrow> rmap U32 (u_integer op l r) | _ \<Rightarrow> Err TypeMismatch)
      | U64 l \<Rightarrow> (case rhs of U64 r \<Rightarrow> rmap U64 (u_integer op l r) | _ \<Rightarrow> Err TypeMismatch)
      | U128 l \<Rightarrow> (case rhs of U128 r \<Rightarrow> rmap U128 (u_integer op l r) | _ \<Rightarrow> Err TypeMismatch)
      | USize l \<Rightarrow> (case rhs of USize r \<Rightarrow> rmap USize (u_integer op l r) | _ \<Rightarrow> Err TypeMismatch)
      | F32 l \<Rightarrow> (case rhs of F32 r \<Rightarrow> Ok (F32 (f32_binary fo op l r)) | _ \<Rightarrow> Err TypeMismatch)
      | F64 l \<Rightarrow> (case rhs of F64 r \<Rightarrow> Ok (F64 (f64_binary fo op l r)) | _ \<Rightarrow> Err TypeMismatch))"

definition checked_add ::
  "float_ops \<Rightarrow> numeric_value \<Rightarrow> numeric_value \<Rightarrow> numeric_error + numeric_value" where
  "checked_add fo self rhs = checked_binary fo self rhs Add"

definition checked_sub ::
  "float_ops \<Rightarrow> numeric_value \<Rightarrow> numeric_value \<Rightarrow> numeric_error + numeric_value" where
  "checked_sub fo self rhs = checked_binary fo self rhs Sub"

definition checked_mul ::
  "float_ops \<Rightarrow> numeric_value \<Rightarrow> numeric_value \<Rightarrow> numeric_error + numeric_value" where
  "checked_mul fo self rhs = checked_binary fo self rhs Mul"

definition checked_div ::
  "float_ops \<Rightarrow> numeric_value \<Rightarrow> numeric_value \<Rightarrow> numeric_error + numeric_value" where
  "checked_div fo self rhs = checked_binary fo self rhs Div"

definition checked_rem ::
  "float_ops \<Rightarrow> numeric_value \<Rightarrow> numeric_value \<Rightarrow> numeric_error + numeric_value" where
  "checked_rem fo self rhs = checked_binary fo self rhs Rem"



fun one_same :: "numeric_value \<Rightarrow> numeric_error + numeric_value" where
  "one_same (I8 _) = Ok (I8 1)"
| "one_same (I16 _) = Ok (I16 1)"
| "one_same (I32 _) = Ok (I32 1)"
| "one_same (I64 _) = Ok (I64 1)"
| "one_same (I128 _) = Ok (I128 1)"
| "one_same (ISize _) = Ok (ISize 1)"
| "one_same (U8 _) = Ok (U8 1)"
| "one_same (U16 _) = Ok (U16 1)"
| "one_same (U32 _) = Ok (U32 1)"
| "one_same (U64 _) = Ok (U64 1)"
| "one_same (U128 _) = Ok (U128 1)"
| "one_same (USize _) = Ok (USize 1)"
| "one_same (F32 _) = Err TypeMismatch"
| "one_same (F64 _) = Err TypeMismatch"

section \<open>Comparison\<close>

text \<open>
  The bit patterns of floats order as sign-magnitude integers: \<open>float_key\<close> reads one, both
  zeros as 0. A pattern above the infinity \<open>infinity_bits\<close> is a NaN, which compares with nothing.
\<close>

definition float_magnitude :: "'a::len word \<Rightarrow> int" where
  "float_magnitude w = uint w mod 2 ^ (LENGTH('a) - 1)"

definition float_key :: "'a::len word \<Rightarrow> int" where
  "float_key w =
     (if bit w (LENGTH('a) - 1) then - float_magnitude w else float_magnitude w)"

definition float_cmp :: "int \<Rightarrow> 'a::len word \<Rightarrow> 'a word \<Rightarrow> ordering option" where
  "float_cmp infinity_bits lhs rhs =
     (if float_magnitude lhs > infinity_bits \<or> float_magnitude rhs > infinity_bits then None
      else Some (cmp (float_key lhs) (float_key rhs)))"

definition partial_cmp_same ::
  "numeric_value \<Rightarrow> numeric_value \<Rightarrow> numeric_error + ordering option"
where
  "partial_cmp_same self rhs =
     (case self of
        I8 l \<Rightarrow> (case rhs of I8 r \<Rightarrow> Ok (Some (cmp (sint l) (sint r))) | _ \<Rightarrow> Err TypeMismatch)
      | I16 l \<Rightarrow> (case rhs of I16 r \<Rightarrow> Ok (Some (cmp (sint l) (sint r))) | _ \<Rightarrow> Err TypeMismatch)
      | I32 l \<Rightarrow> (case rhs of I32 r \<Rightarrow> Ok (Some (cmp (sint l) (sint r))) | _ \<Rightarrow> Err TypeMismatch)
      | I64 l \<Rightarrow> (case rhs of I64 r \<Rightarrow> Ok (Some (cmp (sint l) (sint r))) | _ \<Rightarrow> Err TypeMismatch)
      | I128 l \<Rightarrow> (case rhs of I128 r \<Rightarrow> Ok (Some (cmp (sint l) (sint r))) | _ \<Rightarrow> Err TypeMismatch)
      | ISize l \<Rightarrow> (case rhs of ISize r \<Rightarrow> Ok (Some (cmp (sint l) (sint r))) | _ \<Rightarrow> Err TypeMismatch)
      | U8 l \<Rightarrow> (case rhs of U8 r \<Rightarrow> Ok (Some (cmp (uint l) (uint r))) | _ \<Rightarrow> Err TypeMismatch)
      | U16 l \<Rightarrow> (case rhs of U16 r \<Rightarrow> Ok (Some (cmp (uint l) (uint r))) | _ \<Rightarrow> Err TypeMismatch)
      | U32 l \<Rightarrow> (case rhs of U32 r \<Rightarrow> Ok (Some (cmp (uint l) (uint r))) | _ \<Rightarrow> Err TypeMismatch)
      | U64 l \<Rightarrow> (case rhs of U64 r \<Rightarrow> Ok (Some (cmp (uint l) (uint r))) | _ \<Rightarrow> Err TypeMismatch)
      | U128 l \<Rightarrow> (case rhs of U128 r \<Rightarrow> Ok (Some (cmp (uint l) (uint r))) | _ \<Rightarrow> Err TypeMismatch)
      | USize l \<Rightarrow> (case rhs of USize r \<Rightarrow> Ok (Some (cmp (uint l) (uint r))) | _ \<Rightarrow> Err TypeMismatch)
      | F32 l \<Rightarrow> (case rhs of F32 r \<Rightarrow> Ok (float_cmp (255 * 2 ^ 23) l r) | _ \<Rightarrow> Err TypeMismatch)
      | F64 l \<Rightarrow> (case rhs of F64 r \<Rightarrow> Ok (float_cmp (2047 * 2 ^ 52) l r) | _ \<Rightarrow> Err TypeMismatch))"

section \<open>Literals\<close>

text \<open>
  \<open>u128::from_str_radix\<close>: an optional plus sign, then at least one digit of the radix, and
  a value below \<open>2 ^ 128\<close>. Every failure is \<open>None\<close>.
\<close>

definition char_digit :: "char \<Rightarrow> nat option" where
  "char_digit c =
     (let n = of_char c :: nat in
      if 48 \<le> n \<and> n \<le> 57 then Some (n - 48)
      else if 97 \<le> n \<and> n \<le> 122 then Some (n - 87)
      else if 65 \<le> n \<and> n \<le> 90 then Some (n - 55)
      else None)"

fun radix_value :: "nat \<Rightarrow> nat \<Rightarrow> string \<Rightarrow> nat option" where
  "radix_value radix acc [] = Some acc"
| "radix_value radix acc (c # cs) =
     (case char_digit c of
        None \<Rightarrow> None
      | Some d \<Rightarrow> if d < radix then radix_value radix (acc * radix + d) cs else None)"

definition u128_from_str_radix :: "string \<Rightarrow> nat \<Rightarrow> 128 word option" where
  "u128_from_str_radix src radix =
     (let digits = (case src of [] \<Rightarrow> [] | c # cs \<Rightarrow> if c = CHR ''+'' then cs else src)
      in if digits = [] then None
         else Option.bind (radix_value radix 0 digits) (\<lambda>n. u_try (int n)))"

fun strip_prefix :: "string \<Rightarrow> string \<Rightarrow> string option" where
  "strip_prefix [] text = Some text"
| "strip_prefix (p # ps) [] = None"
| "strip_prefix (p # ps) (c # cs) = (if p = c then strip_prefix ps cs else None)"

definition split_radix :: "string \<Rightarrow> nat \<times> string" where
  "split_radix text =
     (case or_else (strip_prefix ''0x'' text) (strip_prefix ''0X'' text) of
        Some digits \<Rightarrow> (16, digits)
      | None \<Rightarrow>
     (case or_else (strip_prefix ''0o'' text) (strip_prefix ''0O'' text) of
        Some digits \<Rightarrow> (8, digits)
      | None \<Rightarrow>
     (case or_else (strip_prefix ''0b'' text) (strip_prefix ''0B'' text) of
        Some digits \<Rightarrow> (2, digits)
      | None \<Rightarrow> (10, text))))"

fun is_signed :: "primitive_type \<Rightarrow> bool" where
  "is_signed PI8 = True" | "is_signed PI16 = True" | "is_signed PI32 = True"
| "is_signed PI64 = True" | "is_signed PI128 = True" | "is_signed PISize = True"
| "is_signed _ = False"

fun is_unsigned :: "primitive_type \<Rightarrow> bool" where
  "is_unsigned PU8 = True" | "is_unsigned PU16 = True" | "is_unsigned PU32 = True"
| "is_unsigned PU64 = True" | "is_unsigned PU128 = True" | "is_unsigned PUSize = True"
| "is_unsigned _ = False"

text \<open>\<open>1_u128 << 127\<close>, which is also the bit pattern of \<open>i128::MIN\<close>.\<close>

definition i128_min :: "128 word" where
  "i128_min = push_bit 127 1"

definition parse_integer_with_sign ::
  "string \<Rightarrow> primitive_type \<Rightarrow> bool \<Rightarrow> numeric_error + numeric_value"
where
  "parse_integer_with_sign text0 prim negative =
     (let text = filter (\<lambda>c. c \<noteq> CHR ''_'') text0;
          (radix, digits) = split_radix text
      in rbind (ok_or (u128_from_str_radix digits radix) InvalidLiteral) (\<lambda>magnitude.
         if negative then
           (if prim = PI128 \<and> magnitude = i128_min then Ok (I128 i128_min)
            else if is_signed prim then
              rbind (ok_or (s_try (uint magnitude) :: 128 word option) Overflow) (\<lambda>m.
                ok_or (from_signed (- m) prim) Overflow)
            else if is_unsigned prim then Err Overflow
            else Err TypeMismatch)
         else if is_signed prim then
           rbind (ok_or (s_try (uint magnitude)) Overflow) (\<lambda>value.
             ok_or (from_signed value prim) Overflow)
         else if is_unsigned prim then ok_or (from_unsigned magnitude prim) Overflow
         else Err TypeMismatch))"

definition parse_integer :: "string \<Rightarrow> primitive_type \<Rightarrow> numeric_error + numeric_value" where
  "parse_integer text prim =
     (let (negative, magnitude) =
        (case strip_prefix ''-'' text of
           Some m \<Rightarrow> (True, m)
         | None \<Rightarrow> (case strip_prefix ''+'' text of
                      Some m \<Rightarrow> (False, m)
                    | None \<Rightarrow> (False, text)))
      in parse_integer_with_sign magnitude prim negative)"




text \<open>The decimal printer of integers, \<open>to_string\<close>.\<close>

definition digit_char :: "nat \<Rightarrow> char" where
  "digit_char d = char_of (48 + d)"

fun show_nat :: "nat \<Rightarrow> string" where
  "show_nat n = (if n < 10 then [digit_char n] else show_nat (n div 10) @ [digit_char (n mod 10)])"

declare show_nat.simps [simp del]

definition show_int :: "int \<Rightarrow> string" where
  "show_int x = (if x < 0 then CHR ''-'' # show_nat (nat (- x)) else show_nat (nat x))"

fun display_value :: "float_ops \<Rightarrow> numeric_value \<Rightarrow> string" where
  "display_value fo (I8 v) = show_int (sint v)"
| "display_value fo (I16 v) = show_int (sint v)"
| "display_value fo (I32 v) = show_int (sint v)"
| "display_value fo (I64 v) = show_int (sint v)"
| "display_value fo (I128 v) = show_int (sint v)"
| "display_value fo (ISize v) = show_int (sint v)"
| "display_value fo (U8 v) = show_int (uint v)"
| "display_value fo (U16 v) = show_int (uint v)"
| "display_value fo (U32 v) = show_int (uint v)"
| "display_value fo (U64 v) = show_int (uint v)"
| "display_value fo (U128 v) = show_int (uint v)"
| "display_value fo (USize v) = show_int (uint v)"
| "display_value fo (F32 bits) = f32_show fo bits"
| "display_value fo (F64 bits) = f64_show fo bits"

section \<open>The mathematical reading\<close>

text \<open>
  \<open>int_value\<close> reads an integer value, \<open>of_int_value\<close> builds the value of a primitive type
  from an integer, and \<open>prim_fits\<close> is the type's range. They are the specification the
  checked operations are compared with.
\<close>

fun int_value :: "numeric_value \<Rightarrow> int option" where
  "int_value (I8 v) = Some (sint v)"
| "int_value (I16 v) = Some (sint v)"
| "int_value (I32 v) = Some (sint v)"
| "int_value (I64 v) = Some (sint v)"
| "int_value (I128 v) = Some (sint v)"
| "int_value (ISize v) = Some (sint v)"
| "int_value (U8 v) = Some (uint v)"
| "int_value (U16 v) = Some (uint v)"
| "int_value (U32 v) = Some (uint v)"
| "int_value (U64 v) = Some (uint v)"
| "int_value (U128 v) = Some (uint v)"
| "int_value (USize v) = Some (uint v)"
| "int_value (F32 _) = None"
| "int_value (F64 _) = None"

fun prim_fits :: "primitive_type \<Rightarrow> int \<Rightarrow> bool" where
  "prim_fits PI8 x = s_fits TYPE(8) x"
| "prim_fits PI16 x = s_fits TYPE(16) x"
| "prim_fits PI32 x = s_fits TYPE(32) x"
| "prim_fits PI64 x = s_fits TYPE(64) x"
| "prim_fits PI128 x = s_fits TYPE(128) x"
| "prim_fits PISize x = s_fits TYPE(64) x"
| "prim_fits PU8 x = u_fits TYPE(8) x"
| "prim_fits PU16 x = u_fits TYPE(16) x"
| "prim_fits PU32 x = u_fits TYPE(32) x"
| "prim_fits PU64 x = u_fits TYPE(64) x"
| "prim_fits PU128 x = u_fits TYPE(128) x"
| "prim_fits PUSize x = u_fits TYPE(64) x"
| "prim_fits _ x = False"

fun of_int_value :: "primitive_type \<Rightarrow> int \<Rightarrow> numeric_value option" where
  "of_int_value PI8 x = map_option I8 (s_try x)"
| "of_int_value PI16 x = map_option I16 (s_try x)"
| "of_int_value PI32 x = map_option I32 (s_try x)"
| "of_int_value PI64 x = map_option I64 (s_try x)"
| "of_int_value PI128 x = map_option I128 (s_try x)"
| "of_int_value PISize x = map_option ISize (s_try x)"
| "of_int_value PU8 x = map_option U8 (u_try x)"
| "of_int_value PU16 x = map_option U16 (u_try x)"
| "of_int_value PU32 x = map_option U32 (u_try x)"
| "of_int_value PU64 x = map_option U64 (u_try x)"
| "of_int_value PU128 x = map_option U128 (u_try x)"
| "of_int_value PUSize x = map_option USize (u_try x)"
| "of_int_value _ x = None"

fun exact_op :: "integer_op \<Rightarrow> int \<Rightarrow> int \<Rightarrow> int" where
  "exact_op Add x y = x + y"
| "exact_op Sub x y = x - y"
| "exact_op Mul x y = x * y"
| "exact_op Div x y = x sdiv y"
| "exact_op Rem x y = x smod y"

text \<open>The operation whose result decides overflow: the quotient for the remainder.\<close>

fun overflow_op :: "integer_op \<Rightarrow> integer_op" where
  "overflow_op Rem = Div"
| "overflow_op op = op"

definition exact_result ::
  "primitive_type \<Rightarrow> integer_op \<Rightarrow> int \<Rightarrow> int \<Rightarrow> numeric_error + numeric_value" where
  "exact_result prim op x y =
     (if op \<in> {Div, Rem} \<and> y = 0 then Err DivisionByZero
      else if prim_fits prim (exact_op (overflow_op op) x y)
      then ok_or (of_int_value prim (exact_op op x y)) Overflow
      else Err Overflow)"

section \<open>Correctness of the checked operations\<close>

lemma sint_eq_0 [simp]: "sint (w :: 'a::len word) = 0 \<longleftrightarrow> w = 0"
  by (metis s_try_sint signed_0 option.inject)

lemma uint_eq_0 [simp]: "uint (w :: 'a::len word) = 0 \<longleftrightarrow> w = 0"
  by (simp add: uint_0_iff)

lemma smod_between:
  fixes x y :: int
  shows "(0 \<le> x \<longrightarrow> 0 \<le> x smod y \<and> x smod y \<le> x) \<and> (x \<le> 0 \<longrightarrow> x \<le> x smod y \<and> x smod y \<le> 0)"
proof -
  have "0 \<le> \<bar>x\<bar> mod \<bar>y\<bar>" by (cases "y = 0") simp_all
  moreover have "\<bar>x\<bar> mod \<bar>y\<bar> \<le> \<bar>x\<bar>"
    by (cases "y = 0") (simp_all add: zmod_le_nonneg_dividend)
  ultimately show ?thesis
    by (auto simp: signed_modulo_int_def sgn_if)
qed

lemma s_fits_smod: "s_fits TYPE('a::len) x \<Longrightarrow> s_fits TYPE('a) (x smod y)"
  using smod_between [of x y] by (cases "0 \<le> x") (auto simp: s_fits_def)

lemma u_sdiv: "0 \<le> x \<Longrightarrow> 0 \<le> y \<Longrightarrow> x sdiv y = x div y" for x y :: int
  by (auto simp: signed_divide_int_def sgn_if)

lemma u_smod: "0 \<le> x \<Longrightarrow> 0 \<le> y \<Longrightarrow> x smod y = x mod y" for x y :: int
  by (auto simp: signed_modulo_int_def sgn_if)

lemma u_fits_div: "u_fits TYPE('a::len) x \<Longrightarrow> 0 \<le> y \<Longrightarrow> u_fits TYPE('a) (x div y)"
  using zdiv_mono2 [of x 1 y]
  by (cases "y = 0") (auto simp: u_fits_def div_int_pos_iff)

lemma u_fits_mod: "u_fits TYPE('a::len) x \<Longrightarrow> 0 \<le> y \<Longrightarrow> u_fits TYPE('a) (x mod y)"
  using zmod_le_nonneg_dividend [of x y]
  by (cases "y = 0") (auto simp: u_fits_def)

lemma s_integer_exact:
  fixes l r :: "'a::len word"
  shows "s_integer op l r =
    (if op \<in> {Div, Rem} \<and> sint r = 0 then Err DivisionByZero
     else if s_fits TYPE('a) (exact_op (overflow_op op) (sint l) (sint r))
     then ok_or (s_try (exact_op op (sint l) (sint r))) Overflow
     else Err Overflow)"
  by (cases op) (simp_all add: s_integer_def s_try_def s_fits_smod)

lemma u_integer_exact:
  fixes l r :: "'a::len word"
  shows "u_integer op l r =
    (if op \<in> {Div, Rem} \<and> uint r = 0 then Err DivisionByZero
     else if u_fits TYPE('a) (exact_op (overflow_op op) (uint l) (uint r))
     then ok_or (u_try (exact_op op (uint l) (uint r))) Overflow
     else Err Overflow)"
  by (cases op)
    (simp_all add: u_integer_def u_try_def u_sdiv u_smod u_fits_div u_fits_mod)

lemma rmap_ok_or [simp]: "rmap f (ok_or m e) = ok_or (map_option f m) e"
  by (cases m) simp_all

lemma of_int_value_int_value:
  "int_value v = Some x \<Longrightarrow> of_int_value (primitive v) x = Some v"
  by (cases v) auto

lemma of_int_value_SomeD:
  "of_int_value p x = Some v \<Longrightarrow> primitive v = p \<and> int_value v = Some x"
  by (cases p) (auto simp: s_try_eq_Some u_try_eq_Some)

lemma of_int_value_None_iff: "of_int_value p x = None \<longleftrightarrow> \<not> prim_fits p x"
  by (cases p) (auto simp: s_try_def u_try_def)

lemma int_value_fits: "int_value v = Some x \<Longrightarrow> prim_fits (primitive v) x"
  by (cases v) auto

lemma checked_binary_exact_lemma:
  assumes "int_value a = Some x" "int_value b = Some y" "primitive a = primitive b"
  shows "checked_binary fo a b op = exact_result (primitive a) op x y"
  using assms
  by (cases a; cases b)
    (simp_all add: checked_binary_def exact_result_def s_integer_exact u_integer_exact)

lemma checked_binary_mismatch_lemma:
  assumes "primitive a \<noteq> primitive b"
  shows "checked_binary fo a b op = Err TypeMismatch"
  using assms by (cases a; cases b) (simp_all add: checked_binary_def)

section \<open>Printing and parsing integers\<close>

definition decimal :: "char \<Rightarrow> bool" where
  "decimal c \<longleftrightarrow> (\<exists>d. char_digit c = Some d \<and> d < 10)"

lemma char_digit_digit_char: "d < 10 \<Longrightarrow> char_digit (digit_char d) = Some d"
  by (simp add: char_digit_def digit_char_def of_char_of)

lemma decimal_digit_char [simp]: "d < 10 \<Longrightarrow> decimal (digit_char d)"
  by (simp add: decimal_def char_digit_digit_char)

lemma not_decimal [simp]:
  "\<not> decimal (CHR ''_'')" "\<not> decimal (CHR ''+'')" "\<not> decimal (CHR ''-'')"
  "\<not> decimal (CHR ''x'')" "\<not> decimal (CHR ''X'')" "\<not> decimal (CHR ''o'')"
  "\<not> decimal (CHR ''O'')" "\<not> decimal (CHR ''b'')" "\<not> decimal (CHR ''B'')"
  by (simp_all add: decimal_def char_digit_def)

lemma show_nat_nonempty [simp]: "show_nat n \<noteq> []"
  by (subst show_nat.simps) simp

lemma decimal_show_nat: "c \<in> set (show_nat n) \<Longrightarrow> decimal c"
proof (induction n rule: show_nat.induct)
  case (1 n)
  then show ?case by (auto simp: show_nat.simps [of n] split: if_splits)
qed

lemma radix_value_append:
  "radix_value r acc (xs @ ys) = Option.bind (radix_value r acc xs) (\<lambda>a. radix_value r a ys)"
  by (induction xs arbitrary: acc) (auto split: option.splits)

lemma radix_value_show_nat: "radix_value 10 0 (show_nat n) = Some n"
proof (induction n rule: show_nat.induct)
  case (1 n)
  then show ?case
    by (cases "n < 10")
      (simp_all add: show_nat.simps [of n] radix_value_append char_digit_digit_char)
qed

lemma strip_prefix_SomeD: "strip_prefix ps s = Some rest \<Longrightarrow> s = ps @ rest"
  by (induction ps s rule: strip_prefix.induct) (auto split: if_splits)

lemma strip_prefix_foreign:
  "p \<in> set ps \<Longrightarrow> p \<notin> set text \<Longrightarrow> strip_prefix ps text = None"
  using strip_prefix_SomeD by (cases "strip_prefix ps text") fastforce+

lemma split_radix_decimal:
  assumes "\<And>c. c \<in> set text \<Longrightarrow> decimal c"
  shows "split_radix text = (10, text)"
proof -
  have "\<not> decimal c \<Longrightarrow> c \<in> set ps \<Longrightarrow> strip_prefix ps text = None" for c ps
    using assms strip_prefix_foreign by blast
  from this [of "CHR ''x''"] this [of "CHR ''X''"] this [of "CHR ''o''"]
    this [of "CHR ''O''"] this [of "CHR ''b''"] this [of "CHR ''B''"]
  show ?thesis by (simp add: split_radix_def)
qed

lemma u128_from_show_nat:
  assumes "int n < 2 ^ 128"
  shows "u128_from_str_radix (show_nat n) 10 = Some (word_of_int (int n))"
proof -
  obtain c cs where shown: "show_nat n = c # cs"
    by (cases "show_nat n") simp_all
  then have "decimal c" using decimal_show_nat [of c n] by simp
  then have "c \<noteq> CHR ''+''" by auto
  with shown assms radix_value_show_nat [of n] show ?thesis
    by (simp add: u128_from_str_radix_def u_try_def u_fits_def)
qed

lemma parse_show_nat:
  assumes "int n < 2 ^ 128"
  shows "parse_integer_with_sign (show_nat n) p negative =
    (if negative then
       (if p = PI128 \<and> int n = 2 ^ 127 then Ok (I128 i128_min)
        else if is_signed p then
          (if int n < 2 ^ 127 then ok_or (from_signed (word_of_int (- int n)) p) Overflow
           else Err Overflow)
        else if is_unsigned p then Err Overflow else Err TypeMismatch)
     else if is_signed p then
       (if int n < 2 ^ 127 then ok_or (from_signed (word_of_int (int n)) p) Overflow
        else Err Overflow)
     else if is_unsigned p then ok_or (from_unsigned (word_of_int (int n)) p) Overflow
     else Err TypeMismatch)"
proof -
  have clean: "filter (\<lambda>c. c \<noteq> CHR ''_'') (show_nat n) = show_nat n"
    using decimal_show_nat [of "CHR ''_''" n] by (auto simp: filter_id_conv)
  have prefix: "split_radix (show_nat n) = (10, show_nat n)"
    by (rule split_radix_decimal) (rule decimal_show_nat)
  have uint_n: "uint (word_of_int (int n) :: 128 word) = int n"
    using assms by (intro uint_word_of_int_fits) (simp add: u_fits_def)
  have least: "(word_of_int (int n) :: 128 word) = i128_min \<longleftrightarrow> int n = 2 ^ 127"
  proof -
    have "uint i128_min = 2 ^ 127" by (simp add: i128_min_def)
    with uint_n show ?thesis by (metis word_uint_eq_iff)
  qed
  have half: "s_try (uint (word_of_int (int n) :: 128 word)) =
      (if int n < 2 ^ 127 then Some (word_of_int (int n)) else None :: 128 word option)"
    by (simp add: uint_n s_try_def s_fits_def del: of_int_of_nat_eq)
  show ?thesis
    by (simp add: parse_integer_with_sign_def clean prefix u128_from_show_nat [OF assms] least half
        del: of_int_of_nat_eq)
qed

lemma from_signed_of_int:
  "is_signed p \<Longrightarrow> s_fits TYPE(128) x \<Longrightarrow> from_signed (word_of_int x) p = of_int_value p x"
  by (cases p) (simp_all add: from_signed_def sint_word_of_int_fits s_try_def)

lemma from_unsigned_of_int:
  "is_unsigned p \<Longrightarrow> u_fits TYPE(128) x \<Longrightarrow> from_unsigned (word_of_int x) p = of_int_value p x"
  by (cases p) (simp_all add: from_unsigned_def uint_word_of_int_fits u_try_def)

lemma prim_fits_bounds:
  "prim_fits p x \<Longrightarrow> is_signed p \<and> s_fits TYPE(128) x \<or> is_unsigned p \<and> u_fits TYPE(128) x"
  by (cases p) (auto simp: s_fits_def u_fits_def)

lemma is_signed_not_unsigned: "is_signed p \<Longrightarrow> \<not> is_unsigned p"
  by (cases p) simp_all

lemma parse_integer_nonneg:
  "parse_integer (show_nat n) p = parse_integer_with_sign (show_nat n) p False"
proof -
  have "strip_prefix ''-'' (show_nat n) = None" "strip_prefix ''+'' (show_nat n) = None"
    using decimal_show_nat [of "CHR ''-''" n] decimal_show_nat [of "CHR ''+''" n]
    by (auto intro!: strip_prefix_foreign)
  then show ?thesis by (simp add: parse_integer_def)
qed

lemma parse_show_int:
  assumes "prim_fits p x"
  shows "parse_integer (show_int x) p = ok_or (of_int_value p x) Overflow"
proof (cases "x < 0")
  case True
  with prim_fits_bounds [OF assms] have p: "is_signed p" "s_fits TYPE(128) x"
    by (auto simp: u_fits_def)
  with True have n: "int (nat (- x)) = - x" "- x \<le> 2 ^ 127" by (auto simp: s_fits_def)
  show ?thesis
  proof (cases "x = - (2 ^ 127)")
    case min_value: True
    then have "p = PI128"
      using assms by (cases p) (auto simp: s_fits_def u_fits_def)
    with min_value n show ?thesis
      by (simp add: show_int_def parse_integer_def parse_show_nat s_try_def s_fits_def i128_min_def)
  next
    case False
    with n have "- x < 2 ^ 127" "- x \<noteq> 2 ^ 127" by auto
    with True p n from_signed_of_int [OF p] show ?thesis
      by (simp add: show_int_def parse_integer_def parse_show_nat)
  qed
next
  case False
  then have n: "int (nat x) = x" "\<not> x < 0" by simp_all
  from prim_fits_bounds [OF assms] show ?thesis
  proof
    assume p: "is_signed p \<and> s_fits TYPE(128) x"
    then have "x < 2 ^ 127" by (simp add: s_fits_def)
    with p n from_signed_of_int [of p x] show ?thesis
      by (simp add: show_int_def parse_integer_nonneg parse_show_nat)
  next
    assume p: "is_unsigned p \<and> u_fits TYPE(128) x"
    then have "x < 2 ^ 128" "\<not> is_signed p"
      by (auto simp: u_fits_def dest: is_signed_not_unsigned)
    with p n from_unsigned_of_int [of p x] show ?thesis
      by (simp add: show_int_def parse_integer_nonneg parse_show_nat)
  qed
qed

lemma display_value_int: "int_value v = Some x \<Longrightarrow> display_value fo v = show_int x"
  by (cases v) auto

section \<open>Facts for the clients of numbers\<close>

lemma partial_cmp_same_int:
  assumes "int_value a = Some x" "int_value b = Some y" "primitive a = primitive b"
  shows "partial_cmp_same a b = Ok (Some (cmp x y))"
  using assms by (cases a; cases b) (simp_all add: partial_cmp_same_def)

lemma one_same_int:
  "int_value v = Some x \<Longrightarrow> \<exists>w. one_same v = Ok w \<and> primitive w = primitive v \<and> int_value w = Some 1"
  by (cases v) auto

lemma as_i128_int:
  "int_value v = Some x \<Longrightarrow>
     as_i128 v = (if is_signed (primitive v) then Some (word_of_int x) else None)"
  by (cases v) auto

lemma as_u128_int:
  "int_value v = Some x \<Longrightarrow>
     as_u128 v = (if is_unsigned (primitive v) then Some (word_of_int x) else None)"
  by (cases v) auto

lemma checked_add_int:
  assumes "int_value a = Some x" "int_value b = Some y" "primitive a = primitive b"
  shows "checked_add fo a b = ok_or (of_int_value (primitive a) (x + y)) Overflow"
  using checked_binary_exact_lemma [OF assms, of fo Add] of_int_value_None_iff [of "primitive a" "x + y"]
  by (cases "prim_fits (primitive a) (x + y)") (simp_all add: checked_add_def exact_result_def)

lemma checked_sub_int:
  assumes "int_value a = Some x" "int_value b = Some y" "primitive a = primitive b"
  shows "checked_sub fo a b = ok_or (of_int_value (primitive a) (x - y)) Overflow"
  using checked_binary_exact_lemma [OF assms, of fo Sub] of_int_value_None_iff [of "primitive a" "x - y"]
  by (cases "prim_fits (primitive a) (x - y)") (simp_all add: checked_sub_def exact_result_def)

lemma prim_fits_between:
  "prim_fits p x \<Longrightarrow> prim_fits p z \<Longrightarrow> x \<le> y \<Longrightarrow> y \<le> z \<Longrightarrow> prim_fits p y"
  by (cases p) (auto simp: s_fits_def u_fits_def)

lemma of_int_value_fits:
  assumes "prim_fits p x"
  obtains v where "of_int_value p x = Some v" "primitive v = p" "int_value v = Some x"
  using assms of_int_value_None_iff of_int_value_SomeD by (metis option.exhaust)

section \<open>Properties\<close>

text \<open>\<^bold>\<open>C12\<close>. Checked integer arithmetic is exact. On two integers of one primitive type
  \<open>checked_binary\<close> returns the mathematical result (division truncating towards zero) in
  the same type, \<open>DivisionByZero\<close> exactly for a division or remainder by zero, and
  \<open>Overflow\<close> exactly where the result (for a remainder, the quotient) does not fit.\<close>

theorem checked_binary_exact:
  assumes "int_value a = Some x" "int_value b = Some y" "primitive a = primitive b"
  shows "case checked_binary fo a b op of
      Inr c \<Rightarrow> primitive c = primitive a \<and> int_value c = Some (exact_op op x y)
        \<and> \<not> (op \<in> {Div, Rem} \<and> y = 0) \<and> prim_fits (primitive a) (exact_op (overflow_op op) x y)
    | Inl DivisionByZero \<Rightarrow> op \<in> {Div, Rem} \<and> y = 0
    | Inl Overflow \<Rightarrow> \<not> prim_fits (primitive a) (exact_op (overflow_op op) x y)
        \<and> \<not> (op \<in> {Div, Rem} \<and> y = 0)
    | Inl _ \<Rightarrow> False"
proof -
  have rem: "prim_fits (primitive a) (exact_op op x y)"
    if "prim_fits (primitive a) (exact_op (overflow_op op) x y)"
  proof (cases "op = Rem")
    case True
    with int_value_fits [OF assms(1)] show ?thesis
      using smod_between [of x y] by (cases a) (auto simp: s_fits_smod u_fits_def)
  next
    case False
    with that show ?thesis by (cases op) simp_all
  qed
  show ?thesis
    using checked_binary_exact_lemma [OF assms, of fo op] rem
    by (cases "of_int_value (primitive a) (exact_op op x y)")
      (auto simp: exact_result_def of_int_value_None_iff dest: of_int_value_SomeD)
qed

theorem checked_binary_exact_witness:
  "int_value (I8 0xF9) = Some (- 7) \<and>
   checked_binary sample_float_ops (I8 0xF9) (I8 2) Div = Ok (I8 0xFD) \<and>
   int_value (I8 0xFD) = Some (- 3)"
proof -
  have ops: "int_value (I8 0xF9) = Some (- 7)" "int_value (I8 2) = Some 2"
    "primitive (I8 0xF9) = primitive (I8 2)"
    by simp_all
  have run: "checked_binary sample_float_ops (I8 0xF9) (I8 2) Div = Ok (I8 0xFD)"
    by (simp add: checked_binary_def s_integer_def s_try_def s_fits_def signed_divide_int_def)
  from checked_binary_exact [OF ops, where fo = sample_float_ops and op = Div]
  have "int_value (I8 0xFD) = Some (exact_op Div (- 7) 2)"
    unfolding run by simp
  with ops run show ?thesis by (simp add: signed_divide_int_def)
qed

text \<open>\<^bold>\<open>C35\<close>. Printing and parsing are inverse on integers: the decimal text of an integer value
  parses back, at the value's own primitive type, to that value, for every width and sign
  including the least \<open>i128\<close>.\<close>

theorem parse_display_roundtrip:
  assumes "int_value v = Some x"
  shows "parse_integer (display_value fo v) (primitive v) = Ok v"
  using parse_show_int [OF int_value_fits [OF assms]] of_int_value_int_value [OF assms]
  by (simp add: display_value_int [OF assms])

theorem parse_display_roundtrip_witness:
  "parse_integer (display_value sample_float_ops (I128 i128_min)) PI128 = Ok (I128 i128_min)"
  using parse_display_roundtrip [of "I128 i128_min" "sint i128_min" sample_float_ops] by simp


section \<open>Types\<close>

definition has_type :: "primitive_type \<Rightarrow> 'e + numeric_value \<Rightarrow> bool" where
  "has_type prim r = (case r of Inl _ \<Rightarrow> True | Inr v \<Rightarrow> primitive v = prim)"

lemma has_type_simps [simp]: "has_type prim (Inl e)" "has_type prim (Inr v) \<longleftrightarrow> primitive v = prim"
  by (simp_all add: has_type_def)















end
