(* ===== verification/Comparator.thy ===== *)
theory Comparator
  imports Prelude
begin

text \<open>
  The contract between the ordered collections and the comparators they are given. The ordered
  maps, ordered sets and priority queues ask for comparisons one at a time and rely on the
  answers forming a total preorder; \<open>total_comparator\<close> states that contract and derives what
  the collections use of it. \<open>key_upd\<close> and \<open>key_find\<close> are the abstract specification of an
  ordered map: insertion into and lookup in a list of entries sorted by key.
\<close>

definition key_sorted :: "('k \<Rightarrow> 'k \<Rightarrow> ordering) \<Rightarrow> ('k \<times> 'v) list \<Rightarrow> bool" where
  "key_sorted c xs \<longleftrightarrow> sorted_wrt (\<lambda>a b. c (fst a) (fst b) = Less) xs"

text \<open>Inserting at a key that is already present keeps the stored key and replaces the value.\<close>

fun key_upd :: "('k \<Rightarrow> 'k \<Rightarrow> ordering) \<Rightarrow> 'k \<Rightarrow> 'v \<Rightarrow> ('k \<times> 'v) list \<Rightarrow> ('k \<times> 'v) list" where
  "key_upd c k v [] = [(k, v)]"
| "key_upd c k v (e # es) =
     (case c k (fst e) of
        Less \<Rightarrow> (k, v) # e # es
      | Equal \<Rightarrow> (fst e, v) # es
      | Greater \<Rightarrow> e # key_upd c k v es)"

fun key_find :: "('k \<Rightarrow> 'k \<Rightarrow> ordering) \<Rightarrow> 'k \<Rightarrow> ('k \<times> 'v) list \<Rightarrow> 'v option" where
  "key_find c k [] = None"
| "key_find c k (e # es) = (if c k (fst e) = Equal then Some (snd e) else key_find c k es)"

lemma key_find_None_iff: "key_find c k es = None \<longleftrightarrow> (\<forall>e \<in> set es. c k (fst e) \<noteq> Equal)"
  by (induction es) auto

lemma key_find_append:
  "key_find c k (xs @ ys) = (case key_find c k xs of None \<Rightarrow> key_find c k ys | Some v \<Rightarrow> Some v)"
  by (induction xs) auto

locale total_comparator =
  fixes c :: "'k \<Rightarrow> 'k \<Rightarrow> ordering"
  assumes refl: "c x x = Equal"
    and reverse: "c y x = reverse_ordering (c x y)"
    and less_trans: "c x y = Less \<Longrightarrow> c y z = Less \<Longrightarrow> c x z = Less"
    and equal_less: "c x y = Equal \<Longrightarrow> c y z = Less \<Longrightarrow> c x z = Less"
begin

lemma greater_iff: "c x y = Greater \<longleftrightarrow> c y x = Less"
  using reverse [where x = x and y = y] by (cases "c x y") (simp_all add: reverse_ordering_def)

lemma equal_sym: "c x y = Equal \<longleftrightarrow> c y x = Equal"
  using reverse [where x = x and y = y] by (cases "c x y") (simp_all add: reverse_ordering_def)

lemma less_asym: "c x y = Less \<Longrightarrow> c y x \<noteq> Less"
  using less_trans [of x y x] refl [of x] by auto

lemma less_equal: "c x y = Less \<Longrightarrow> c y z = Equal \<Longrightarrow> c x z = Less"
proof (rule ccontr)
  assume xy: "c x y = Less" and yz: "c y z = Equal" and "c x z \<noteq> Less"
  then consider "c x z = Equal" | "c x z = Greater" by (cases "c x z") auto
  then have "c z y = Less"
    using equal_less [of z x y] less_trans [of z x y] xy greater_iff [of x z] equal_sym [of x z]
    by cases auto
  with yz show False using equal_sym [of y z] by auto
qed

lemma equal_trans: "c x y = Equal \<Longrightarrow> c y z = Equal \<Longrightarrow> c x z = Equal"
proof (rule ccontr)
  assume xy: "c x y = Equal" and yz: "c y z = Equal" and "c x z \<noteq> Equal"
  then consider "c x z = Less" | "c z x = Less"
    using greater_iff [of x z] by (cases "c x z") auto
  then have "c y z = Less \<or> c z y = Less"
    using equal_less [of y x z] less_equal [of z x y] xy equal_sym [of x y] by cases auto
  with yz equal_sym [of y z] show False by auto
qed

lemma key_upd_less:
  assumes "key_sorted c (xs @ e # ys)" "c k (fst e) = Less"
  shows "key_upd c k v (xs @ e # ys) = key_upd c k v xs @ e # ys"
  using assms by (induction xs) (auto simp: key_sorted_def split: ordering.split)

lemma key_upd_greater:
  assumes "key_sorted c (xs @ e # ys)" "c k (fst e) = Greater"
  shows "key_upd c k v (xs @ e # ys) = xs @ e # key_upd c k v ys"
  using assms
proof (induction xs)
  case (Cons x xs)
  have "c (fst x) (fst e) = Less" using Cons.prems by (simp add: key_sorted_def)
  then have "c k (fst x) = Greater"
    using less_trans [of "fst x" "fst e" k] Cons.prems(2) greater_iff by simp
  with Cons show ?case by (simp add: key_sorted_def)
qed simp

lemma key_upd_equal:
  assumes "key_sorted c (xs @ e # ys)" "c k (fst e) = Equal"
  shows "key_upd c k v (xs @ e # ys) = xs @ (fst e, v) # ys"
  using assms
proof (induction xs)
  case (Cons x xs)
  have "c (fst x) (fst e) = Less" using Cons.prems by (simp add: key_sorted_def)
  then have "c k (fst x) = Greater"
    using less_equal [of "fst x" "fst e" k] Cons.prems(2) greater_iff equal_sym by simp
  with Cons show ?case by (simp add: key_sorted_def)
qed simp

lemma key_find_less:
  assumes "key_sorted c (xs @ e # ys)" "c k (fst e) = Less"
  shows "key_find c k (xs @ e # ys) = key_find c k xs"
proof -
  have "c k (fst y) = Less" if "y \<in> set ys" for y
    using assms that less_trans [of k "fst e" "fst y"] by (auto simp: key_sorted_def sorted_wrt_append)
  with assms(2) have "key_find c k (e # ys) = None" by (auto simp: key_find_None_iff)
  then show ?thesis by (simp add: key_find_append split: option.split)
qed

lemma key_find_right:
  assumes "key_sorted c (xs @ e # ys)" "c k (fst e) \<noteq> Less"
  shows "key_find c k (xs @ e # ys) = key_find c k (e # ys)"
proof -
  have "c k (fst x) \<noteq> Equal" if "x \<in> set xs" for x
  proof
    assume "c k (fst x) = Equal"
    moreover have "c (fst x) (fst e) = Less"
      using assms(1) that by (auto simp: key_sorted_def sorted_wrt_append)
    ultimately show False using equal_less assms(2) by blast
  qed
  then have "key_find c k xs = None" by (simp add: key_find_None_iff)
  then show ?thesis by (simp add: key_find_append)
qed

lemma key_upd_mem:
  "e \<in> set (key_upd c k v es) \<Longrightarrow> e = (k, v) \<or> (\<exists>e' \<in> set es. fst e = fst e')"
  by (induction es) (auto split: ordering.splits)

lemma key_sorted_upd: "key_sorted c es \<Longrightarrow> key_sorted c (key_upd c k v es)"
proof (induction es)
  case (Cons e es)
  have head: "c (fst e) (fst x) = Less" if "x \<in> set es" for x
    using Cons.prems that by (simp add: key_sorted_def)
  have sorted: "key_sorted c es" using Cons.prems by (simp add: key_sorted_def)
  show ?case
  proof (cases "c k (fst e)")
    case Less
    with head sorted less_trans show ?thesis by (auto simp: key_sorted_def)
  next
    case Equal
    with head sorted show ?thesis by (auto simp: key_sorted_def)
  next
    case Greater
    have "c (fst e) (fst x) = Less" if "x \<in> set (key_upd c k v es)" for x
      using key_upd_mem [OF that] head Greater greater_iff by auto
    with Greater Cons.IH [OF sorted] show ?thesis by (simp add: key_sorted_def)
  qed
qed (simp add: key_sorted_def)

lemma key_find_upd:
  assumes "key_sorted c es"
  shows "key_find c j (key_upd c k v es) = (if c j k = Equal then Some v else key_find c j es)"
  using assms
proof (induction es)
  case (Cons e es)
  have IH: "key_find c j (key_upd c k v es) = (if c j k = Equal then Some v else key_find c j es)"
    using Cons by (simp add: key_sorted_def)
  show ?case
  proof (cases "c k (fst e)")
    case Equal
    then have "c j (fst e) = Equal \<longleftrightarrow> c j k = Equal"
      using equal_trans equal_sym by blast
    with Equal show ?thesis by simp
  next
    case Less
    then show ?thesis by simp
  next
    case Greater
    have "\<not> (c j (fst e) = Equal \<and> c j k = Equal)"
      using equal_trans [of k j "fst e"] equal_sym [of j k] Greater by auto
    with Greater IH show ?thesis by auto
  qed
qed simp

end

text \<open>The comparison of a totally ordered type is a total comparator.\<close>

text \<open>Comparators built from others: on a projection, and lexicographically.\<close>

lemma total_comparator_on:
  assumes "total_comparator c"
  shows "total_comparator (\<lambda>x y. c (f x) (f y))"
  using assms unfolding total_comparator_def by blast

definition then_cmp ::
  "('a \<Rightarrow> 'a \<Rightarrow> ordering) \<Rightarrow> ('a \<Rightarrow> 'a \<Rightarrow> ordering) \<Rightarrow> 'a \<Rightarrow> 'a \<Rightarrow> ordering"
where
  "then_cmp c d x y = (case c x y of Equal \<Rightarrow> d x y | r \<Rightarrow> r)"

lemma total_comparator_then:
  assumes c: "total_comparator c" and d: "total_comparator d"
  shows "total_comparator (then_cmp c d)"
proof
  fix x y z
  note laws = total_comparator.refl [OF c] total_comparator.refl [OF d]
    total_comparator.reverse [OF c, of y x] total_comparator.reverse [OF d, of y x]
  note steps = total_comparator.less_trans [OF c, of x y z] total_comparator.less_trans [OF d, of x y z]
    total_comparator.equal_less [OF c, of x y z] total_comparator.equal_less [OF d, of x y z]
    total_comparator.less_equal [OF c, of x y z] total_comparator.equal_trans [OF c, of x y z]
  show "then_cmp c d x x = Equal" by (simp add: then_cmp_def laws)
  show "then_cmp c d y x = reverse_ordering (then_cmp c d x y)"
    by (cases "c x y") (simp_all add: then_cmp_def laws)
  show "then_cmp c d x y = Less \<Longrightarrow> then_cmp c d y z = Less \<Longrightarrow> then_cmp c d x z = Less"
    using steps by (cases "c x y"; cases "c y z") (simp_all add: then_cmp_def)
  show "then_cmp c d x y = Equal \<Longrightarrow> then_cmp c d y z = Less \<Longrightarrow> then_cmp c d x z = Less"
    using steps by (cases "c x y"; cases "c y z") (simp_all add: then_cmp_def)
qed

interpretation linorder_cmp: total_comparator "cmp :: 'a::linorder \<Rightarrow> 'a \<Rightarrow> ordering"
  by unfold_locales (auto simp: cmp_def reverse_ordering_def split: if_splits)

end
