(* ===== verification/Ordered_Tree.thy ===== *)
theory Ordered_Tree
  imports Comparator
begin

text \<open>
  The persistent ordered storage of \<open>value/ordered.rs\<close>: a height-balanced search tree with
  subtree counts, its rotations, positional access, in-order iteration, the bulk builder, and
  the resumable search. The search never calls the comparator itself: each \<open>advance\<close> either
  makes progress or asks for one comparison, whose result is fed to the next \<open>advance\<close>, so
  that a comparator written in the interpreted language can suspend.

  Reference counting is not observable in the results: \<open>Rc::make_mut\<close> copies a shared node
  before it changes it, so every operation is a function of the tree. Stacks are lists with
  the top first. Heights and counts are natural numbers; \<open>height_bound\<close> below shows that a
  tree whose count fits \<open>usize\<close> has a height of at most 129, so \<open>u32\<close> does not overflow.
\<close>

section \<open>Nodes\<close>

datatype ('k, 'v) node =
  Node (entry: "'k \<times> 'v") (left: "('k, 'v) node option") (right: "('k, 'v) node option")
    (height_field: nat) (count_field: nat)

type_synonym ('k, 'v) link = "('k, 'v) node option"

datatype direction = DirLeft | DirRight

definition height :: "('k, 'v) link \<Rightarrow> nat" where
  "height l = (case l of None \<Rightarrow> 0 | Some n \<Rightarrow> height_field n)"

definition count :: "('k, 'v) link \<Rightarrow> nat" where
  "count l = (case l of None \<Rightarrow> 0 | Some n \<Rightarrow> count_field n)"

definition leaf :: "'k \<times> 'v \<Rightarrow> ('k, 'v) node" where
  "leaf e = Node e None None 1 1"

definition refresh :: "('k, 'v) node \<Rightarrow> ('k, 'v) node" where
  "refresh n =
     Node (entry n) (left n) (right n)
       (1 + max (height (left n)) (height (right n)))
       (1 + count (left n) + count (right n))"

definition balance :: "('k, 'v) node \<Rightarrow> int" where
  "balance n = int (height (left n)) - int (height (right n))"

definition child :: "('k, 'v) node \<Rightarrow> direction \<Rightarrow> ('k, 'v) link" where
  "child n d = (case d of DirLeft \<Rightarrow> left n | DirRight \<Rightarrow> right n)"

definition set_child :: "('k, 'v) node \<Rightarrow> direction \<Rightarrow> ('k, 'v) link \<Rightarrow> ('k, 'v) node" where
  "set_child n d l =
     (case d of
        DirLeft \<Rightarrow> Node (entry n) l (right n) (height_field n) (count_field n)
      | DirRight \<Rightarrow> Node (entry n) (left n) l (height_field n) (count_field n))"

definition set_value :: "('k, 'v) node \<Rightarrow> 'v \<Rightarrow> ('k, 'v) node" where
  "set_value n v = Node (fst (entry n), v) (left n) (right n) (height_field n) (count_field n)"

definition opposite :: "direction \<Rightarrow> direction" where
  "opposite d = (case d of DirLeft \<Rightarrow> DirRight | DirRight \<Rightarrow> DirLeft)"

lemmas node_ops = height_def count_def leaf_def refresh_def balance_def child_def set_child_def
  set_value_def opposite_def

section \<open>Rotations\<close>

definition rotate :: "('k, 'v) node \<Rightarrow> direction \<Rightarrow> string + ('k, 'v) node" where
  "rotate root d =
     (case child root (opposite d) of
        None \<Rightarrow> Err ''ordered tree rotation is missing its promoted child''
      | Some promoted \<Rightarrow>
          let middle = child promoted d;
              root' = refresh (set_child root (opposite d) middle)
          in Ok (refresh (set_child promoted d (Some root'))))"

definition rebalance :: "('k, 'v) node \<Rightarrow> string + ('k, 'v) node" where
  "rebalance root0 =
     (let root = refresh root0 in
      if balance root > 1 then
        rbind
          (case left root of
             Some l \<Rightarrow>
               if balance l < 0
               then rmap (\<lambda>l'. set_child root DirLeft (Some l')) (rotate l DirLeft)
               else Ok root
           | None \<Rightarrow> Ok root)
          (\<lambda>root'. rotate root' DirRight)
      else if balance root < - 1 then
        rbind
          (case right root of
             Some r \<Rightarrow>
               if balance r > 0
               then rmap (\<lambda>r'. set_child root DirRight (Some r')) (rotate r DirRight)
               else Ok root
           | None \<Rightarrow> Ok root)
          (\<lambda>root'. rotate root' DirLeft)
      else Ok root)"

section \<open>Positional access and iteration\<close>

fun entry_at :: "('k, 'v) link \<Rightarrow> nat \<Rightarrow> ('k \<times> 'v) option" where
  "entry_at None index = None"
| "entry_at (Some (Node e l r h c)) index =
     (let before = count l in
      case cmp index before of
        Less \<Rightarrow> entry_at l index
      | Equal \<Rightarrow> Some e
      | Greater \<Rightarrow> entry_at r (index - (before + 1)))"

text \<open>
  The iterator keeps a stack of nodes whose left part is done and the subtree to visit next;
  the cursor additionally caches the node it stands on. \<open>push_left\<close> is their common loop.
\<close>

fun push_left :: "('k, 'v) link \<Rightarrow> ('k, 'v) node list \<Rightarrow> ('k, 'v) node list" where
  "push_left None pending = pending"
| "push_left (Some (Node e l r h c)) pending = push_left l (Node e l r h c # pending)"

record ('k, 'v) iter =
  it_pending :: "('k, 'v) node list"
  it_next :: "('k, 'v) link"
  it_remaining :: nat

definition iter_new :: "('k, 'v) link \<Rightarrow> ('k, 'v) iter" where
  "iter_new root = \<lparr>it_pending = [], it_next = root, it_remaining = count root\<rparr>"

definition iter_step :: "('k, 'v) iter \<Rightarrow> ('k \<times> 'v) option \<times> ('k, 'v) iter" where
  "iter_step self =
     (case push_left (it_next self) (it_pending self) of
        [] \<Rightarrow> (None, self\<lparr>it_next := None, it_pending := []\<rparr>)
      | n # rest \<Rightarrow>
          (Some (entry n),
           self\<lparr>it_pending := rest, it_next := right n, it_remaining := it_remaining self - 1\<rparr>))"

record ('k, 'v) cursor =
  cu_pending :: "('k, 'v) node list"
  cu_next :: "('k, 'v) link"
  cu_current :: "('k, 'v) link"
  cu_remaining :: nat

definition cursor_new :: "('k, 'v) link \<Rightarrow> ('k, 'v) cursor" where
  "cursor_new root =
     \<lparr>cu_pending = [], cu_next = root, cu_current = None, cu_remaining = count root\<rparr>"

definition cursor_current :: "('k, 'v) cursor \<Rightarrow> ('k \<times> 'v) option \<times> ('k, 'v) cursor" where
  "cursor_current self =
     (case cu_current self of
        Some n \<Rightarrow> (Some (entry n), self)
      | None \<Rightarrow>
          (case push_left (cu_next self) (cu_pending self) of
             [] \<Rightarrow> (None, self\<lparr>cu_next := None, cu_pending := []\<rparr>)
           | n # rest \<Rightarrow>
               (Some (entry n),
                self\<lparr>cu_pending := rest, cu_next := right n, cu_current := Some n\<rparr>)))"

definition cursor_advance :: "('k, 'v) cursor \<Rightarrow> bool \<times> ('k, 'v) cursor" where
  "cursor_advance self =
     (case cursor_current self of
        (None, self') \<Rightarrow> (False, self')
      | (Some _, self') \<Rightarrow>
          (True, self'\<lparr>cu_current := None, cu_remaining := cu_remaining self' - 1\<rparr>))"

definition cursor_step :: "('k, 'v) cursor \<Rightarrow> ('k \<times> 'v) option \<times> ('k, 'v) cursor" where
  "cursor_step self =
     (case cursor_current self of
        (None, self') \<Rightarrow> (None, self')
      | (Some e, self') \<Rightarrow> (Some e, snd (cursor_advance self')))"

section \<open>Building from sorted entries\<close>

text \<open>
  \<open>from_pending_entries\<close> builds without recursion: it pushes a frame per subtree on the way
  down (\<open>Open n\<close>: a subtree of \<open>n\<close> entries is still to be built) and completes frames on the
  way up (\<open>Closed t\<close>: \<open>t\<close> was just built).
\<close>

record ('k, 'v) build_frame =
  right_count :: nat
  frame_left :: "('k, 'v) link"
  frame_entry :: "('k \<times> 'v) option"

datatype ('k, 'v) build_phase = Open nat | Closed "('k, 'v) link"

fun frame_weight :: "('k, 'v) build_frame \<Rightarrow> nat" where
  "frame_weight f = (if frame_entry f = None then 4 * right_count f + 3 else 1)"

fun phase_weight :: "('k, 'v) build_phase \<Rightarrow> nat" where
  "phase_weight (Open n) = 4 * n + 2"
| "phase_weight (Closed t) = 1"

function build_run ::
  "('k, 'v) build_phase \<Rightarrow> ('k \<times> 'v) list \<Rightarrow> ('k, 'v) build_frame list \<Rightarrow> string + ('k, 'v) link"
where
  "build_run (Open n) entries parents =
     (if n \<noteq> 0 then
        build_run (Open (n div 2)) entries
          (\<lparr>right_count = n - n div 2 - 1, frame_left = None, frame_entry = None\<rparr> # parents)
      else build_run (Closed None) entries parents)"
| "build_run (Closed subtree) entries [] =
     (if entries \<noteq> [] then Err ''ordered restore left unconsumed entries'' else Ok subtree)"
| "build_run (Closed subtree) entries (parent # parents) =
     (case frame_entry parent of
        None \<Rightarrow>
          (case entries of
             [] \<Rightarrow> Err ''ordered restore lost a median entry''
           | e # rest \<Rightarrow>
               build_run (Open (right_count parent)) rest
                 (parent\<lparr>frame_left := subtree, frame_entry := Some e\<rparr> # parents))
      | Some e \<Rightarrow>
          build_run (Closed (Some (refresh (Node e (frame_left parent) subtree 0 0)))) entries parents)"
  by pat_completeness auto
termination
  by (relation "measure (\<lambda>(phase, _, parents). phase_weight phase + sum_list (map frame_weight parents))")
    auto

declare build_run.simps(1) [simp del]

definition from_pending_entries :: "('k \<times> 'v) list \<Rightarrow> string + ('k, 'v) link" where
  "from_pending_entries entries = build_run (Open (length entries)) entries []"

section \<open>The resumable search\<close>

datatype stage = Descend | Unwind | Done

datatype search_step = Continue | Compare | Complete

record ('k, 'v) search =
  current :: "('k, 'v) link"
  parents :: "(('k, 'v) node \<times> direction) list"
  key :: 'k
  insert_value :: "'v option"
  writing :: bool
  found :: "'v option"
  stage :: stage
  awaiting_comparison :: bool

definition search_new :: "('k, 'v) link \<Rightarrow> 'k \<Rightarrow> 'v option \<Rightarrow> ('k, 'v) search" where
  "search_new root k ins =
     \<lparr>current = root, parents = [], key = k, insert_value = ins, writing = ins \<noteq> None,
      found = None, stage = Descend, awaiting_comparison = False\<rparr>"

definition comparison :: "('k, 'v) search \<Rightarrow> string + 'k \<times> 'k" where
  "comparison self =
     (if \<not> awaiting_comparison self then Err ''ordered search has no pending comparison''
      else rbind (ok_or (current self) ''ordered comparison has no current node'') (\<lambda>n.
        Ok (key self, fst (entry n))))"

text \<open>\<open>advance\<close> mutates the search: the model returns the result and the new state, also on an
  error. The two halves of the Rust function are \<open>resume_comparison\<close>, which consumes a
  comparison result, and \<open>advance_stage\<close>.\<close>

definition resume_comparison ::
  "('k, 'v) search \<Rightarrow> ordering option \<Rightarrow> (string + search_step) \<times> ('k, 'v) search"
where
  "resume_comparison self order0 =
     (case order0 of
        None \<Rightarrow> (Err ''ordered search requires its comparison result'', self)
      | Some order \<Rightarrow>
          (case current self of
             None \<Rightarrow> (Err ''ordered search lost its current node'', self\<lparr>awaiting_comparison := False\<rparr>)
           | Some n \<Rightarrow>
               let direction = (if order = Less then DirLeft else DirRight);
                   self' = self\<lparr>awaiting_comparison := False\<rparr> in
               if order = Equal then
                 (Ok Continue,
                  self'\<lparr>found := Some (snd (entry n)),
                        current := Some (case insert_value self of None \<Rightarrow> n | Some v \<Rightarrow> set_value n v),
                        insert_value := None,
                        stage := Unwind\<rparr>)
               else if insert_value self \<noteq> None then
                 (Ok Continue,
                  self'\<lparr>current := child n direction,
                        parents := (set_child n direction None, direction) # parents self\<rparr>)
               else
                 (Ok Continue,
                  self'\<lparr>current := child n direction,
                        parents := (n, direction) # parents self\<rparr>)))"

definition advance_stage :: "('k, 'v) search \<Rightarrow> (string + search_step) \<times> ('k, 'v) search" where
  "advance_stage self =
     (case stage self of
        Descend \<Rightarrow>
          if current self \<noteq> None then (Ok Compare, self\<lparr>awaiting_comparison := True\<rparr>)
          else
            (Ok Continue,
             self\<lparr>current := (case insert_value self of
                               None \<Rightarrow> None | Some v \<Rightarrow> Some (leaf (key self, v))),
                  insert_value := None,
                  stage := Unwind\<rparr>)
      | Unwind \<Rightarrow>
          (case parents self of
             (n, direction) # rest \<Rightarrow>
               if writing self then
                 (case rebalance (set_child n direction (current self)) of
                    Inl e \<Rightarrow> (Err e, self\<lparr>parents := rest, current := None\<rparr>)
                  | Inr n' \<Rightarrow> (Ok Continue, self\<lparr>parents := rest, current := Some n'\<rparr>))
               else (Ok Continue, self\<lparr>parents := rest, current := Some n\<rparr>)
           | [] \<Rightarrow> (Ok Complete, self\<lparr>stage := Done\<rparr>))
      | Done \<Rightarrow> (Err ''ordered search was already completed'', self))"

definition advance ::
  "('k, 'v) search \<Rightarrow> ordering option \<Rightarrow> (string + search_step) \<times> ('k, 'v) search"
where
  "advance self order =
     (if awaiting_comparison self then resume_comparison self order
      else if order \<noteq> None then (Err ''ordered search received an unsolicited comparison'', self)
      else advance_stage self)"

definition finish :: "('k, 'v) search \<Rightarrow> string + ('k, 'v) link \<times> 'v option" where
  "finish self =
     (if stage self \<noteq> Done then Err ''ordered search has not completed''
      else Ok (current self, found self))"

section \<open>Driving a search to its end\<close>

text \<open>
  The loop of \<open>build\<close> in \<open>value/ordered/collection.rs\<close>: advance, answer each comparison
  request with the comparator \<open>c\<close>, stop on completion or at the first error. The same
  protocol is followed by the evaluator in \<open>eval/ordered_collection.rs\<close>. The loop ends for
  every search state: descending uses up nodes, unwinding uses up parents.
\<close>

fun link_size :: "('k, 'v) link \<Rightarrow> nat" where
  "link_size None = 0"
| "link_size (Some (Node e l r h c)) = 1 + link_size l + link_size r"

definition search_weight :: "('k, 'v) search \<Rightarrow> nat" where
  "search_weight s =
     (case stage s of
        Descend \<Rightarrow> 5 * link_size (current s) + length (parents s)
          + (if awaiting_comparison s then 2 else 3)
      | Unwind \<Rightarrow> length (parents s) + (if awaiting_comparison s then 3 else 1)
      | Done \<Rightarrow> if awaiting_comparison s then length (parents s) + 3 else 0)"

lemma link_size_child: "link_size (child n d) < link_size (Some n)"
  by (cases n; cases d) (simp_all add: child_def)

lemma advance_weight:
  assumes "advance s order = (Ok step, s')" "step \<noteq> Complete"
  shows "search_weight s' < search_weight s"
proof (cases "awaiting_comparison s")
  case True
  then obtain ord n where ord: "order = Some ord" "current s = Some n"
    using assms by (auto simp: advance_def resume_comparison_def split: option.splits)
  have "link_size (child n d) < link_size (Some n)" for d
    by (rule link_size_child)
  from this [of DirLeft] this [of DirRight] True ord assms show ?thesis
    by (auto simp: advance_def resume_comparison_def search_weight_def Let_def
        split: if_splits stage.splits)
next
  case False
  with assms show ?thesis
    by (auto simp: advance_def advance_stage_def search_weight_def
        split: if_splits stage.splits list.splits prod.splits sum.splits option.splits)
qed

function run_search ::
  "('k \<Rightarrow> 'k \<Rightarrow> string + ordering) \<Rightarrow> ('k, 'v) search \<Rightarrow> ordering option \<Rightarrow> string + ('k, 'v) search"
where
  "run_search c s order =
     (case advance s order of
        (Inl e, _) \<Rightarrow> Err e
      | (Inr Continue, s') \<Rightarrow> run_search c s' None
      | (Inr Complete, s') \<Rightarrow> Ok s'
      | (Inr Compare, s') \<Rightarrow>
          (case comparison s' of
             Inl e \<Rightarrow> Err e
           | Inr (a, b) \<Rightarrow>
               (case c a b of
                  Inl e \<Rightarrow> Err e
                | Inr r \<Rightarrow> run_search c s' (Some r))))"
  by pat_completeness auto
termination
  by (relation "measure (\<lambda>(c, s, order). search_weight s)")
    (auto intro: advance_weight [OF sym])

declare run_search.simps [simp del]

text \<open>Searching a tree to completion: insertion with \<open>Some v\<close>, lookup with \<open>None\<close>.\<close>

definition search_tree ::
  "('k \<Rightarrow> 'k \<Rightarrow> string + ordering) \<Rightarrow> ('k, 'v) link \<Rightarrow> 'k \<Rightarrow> 'v option
    \<Rightarrow> string + ('k, 'v) link \<times> 'v option"
where
  "search_tree c root k ins = rbind (run_search c (search_new root k ins) None) finish"

section \<open>Reference definitions\<close>

text \<open>Insertion and lookup as recursions over the tree, with the comparisons in the order the
  search makes them.\<close>

fun tree_insert ::
  "('k \<Rightarrow> 'k \<Rightarrow> string + ordering) \<Rightarrow> 'k \<Rightarrow> 'v \<Rightarrow> ('k, 'v) link \<Rightarrow> string + ('k, 'v) link \<times> 'v option"
where
  "tree_insert c k v None = Ok (Some (leaf (k, v)), None)"
| "tree_insert c k v (Some (Node e l r h n)) =
     (case c k (fst e) of
        Inl err \<Rightarrow> Err err
      | Inr Equal \<Rightarrow> Ok (Some (Node (fst e, v) l r h n), Some (snd e))
      | Inr Less \<Rightarrow>
          rbind (tree_insert c k v l) (\<lambda>(l', f).
          rmap (\<lambda>m. (Some m, f)) (rebalance (Node e l' r h n)))
      | Inr Greater \<Rightarrow>
          rbind (tree_insert c k v r) (\<lambda>(r', f).
          rmap (\<lambda>m. (Some m, f)) (rebalance (Node e l r' h n))))"

fun tree_lookup ::
  "('k \<Rightarrow> 'k \<Rightarrow> string + ordering) \<Rightarrow> 'k \<Rightarrow> ('k, 'v) link \<Rightarrow> string + 'v option"
where
  "tree_lookup c k None = Ok None"
| "tree_lookup c k (Some (Node e l r h n)) =
     (case c k (fst e) of
        Inl err \<Rightarrow> Err err
      | Inr Equal \<Rightarrow> Ok (Some (snd e))
      | Inr Less \<Rightarrow> tree_lookup c k l
      | Inr Greater \<Rightarrow> tree_lookup c k r)"

lemma link_induct [case_names None Some]:
  assumes "P None" "\<And>e l r h c. P l \<Longrightarrow> P r \<Longrightarrow> P (Some (Node e l r h c))"
  shows "P t"
proof (induction "link_size t" arbitrary: t rule: less_induct)
  case less
  show ?case
  proof (cases t)
    case (Some n)
    then show ?thesis
      using less assms(2) by (cases n) auto
  qed (use assms in simp)
qed

text \<open>The states a search passes through.\<close>

definition descending where
  "descending t ps k v =
     \<lparr>current = t, parents = ps, key = k, insert_value = Some v, writing = True, found = None,
      stage = Descend, awaiting_comparison = False\<rparr>"

definition unwinding where
  "unwinding t ps k w f =
     \<lparr>current = t, parents = ps, key = k, insert_value = None, writing = w, found = f,
      stage = Unwind, awaiting_comparison = False\<rparr>"

definition reading where
  "reading t ps k =
     \<lparr>current = t, parents = ps, key = k, insert_value = None, writing = False, found = None,
      stage = Descend, awaiting_comparison = False\<rparr>"

lemmas machine_defs = advance_def resume_comparison_def advance_stage_def comparison_def
  descending_def unwinding_def reading_def child_def set_child_def set_value_def Let_def

lemma run_unwind_write:
  "run_search c (unwinding t ((n, d) # ps) k True f) None =
     rbind (rebalance (set_child n d t)) (\<lambda>n'. run_search c (unwinding (Some n') ps k True f) None)"
  by (subst run_search.simps)
    (cases "rebalance (set_child n d t)", simp_all add: advance_def advance_stage_def unwinding_def)

lemma run_unwind_done:
  "run_search c (unwinding t [] k w f) None = Ok ((unwinding t [] k w f)\<lparr>stage := Done\<rparr>)"
  by (subst run_search.simps) (simp add: machine_defs)

lemma run_descend_leaf:
  "run_search c (descending None ps k v) None =
     run_search c (unwinding (Some (leaf (k, v))) ps k True None) None"
  by (subst run_search.simps) (simp add: machine_defs)

lemma run_descend_node:
  "run_search c (descending (Some (Node e l r h n)) ps k v) None =
     (case c k (fst e) of
        Inl err \<Rightarrow> Err err
      | Inr Equal \<Rightarrow>
          run_search c (unwinding (Some (Node (fst e, v) l r h n)) ps k True (Some (snd e))) None
      | Inr Less \<Rightarrow> run_search c (descending l ((Node e None r h n, DirLeft) # ps) k v) None
      | Inr Greater \<Rightarrow> run_search c (descending r ((Node e l None h n, DirRight) # ps) k v) None)"
  apply (subst run_search.simps)
  apply (simp add: machine_defs split: sum.split ordering.split)
  apply (intro allI conjI impI; subst run_search.simps; simp add: machine_defs)
  done

lemma run_descend:
  "run_search c (descending t ps k v) None =
     rbind (tree_insert c k v t) (\<lambda>(t', f). run_search c (unwinding t' ps k True f) None)"
proof (induction t arbitrary: ps rule: link_induct)
  case None
  show ?case by (simp add: run_descend_leaf)
next
  case (Some e l r h n)
  show ?case
    by (cases "c k (fst e)"; cases "tree_insert c k v l"; cases "tree_insert c k v r")
      (auto simp: run_descend_node Some.IH run_unwind_write set_child_def rbind_def rmap_def
        split: ordering.split sum.split)
qed

lemma finish_unwinding [simp]: "finish ((unwinding t ps k w f)\<lparr>stage := Done\<rparr>) = Ok (t, f)"
  by (simp add: finish_def unwinding_def)

lemma search_tree_insert: "search_tree c t k (Some v) = tree_insert c k v t"
proof -
  have new: "search_new t k (Some v) = descending t [] k v"
    by (simp add: search_new_def descending_def)
  show ?thesis
    by (cases "tree_insert c k v t")
      (auto simp: search_tree_def new run_descend run_unwind_done)
qed

text \<open>A read-only search restores the root it started from.\<close>

lemma run_unwind_read:
  "run_search c (unwinding t ps k False f) None =
     Ok ((unwinding (if ps = [] then t else Some (fst (last ps))) [] k False f)\<lparr>stage := Done\<rparr>)"
proof (induction ps arbitrary: t)
  case Nil
  show ?case by (simp add: run_unwind_done)
next
  case (Cons p ps)
  have "run_search c (unwinding t (p # ps) k False f) None =
      run_search c (unwinding (Some (fst p)) ps k False f) None"
    by (subst run_search.simps) (simp add: machine_defs split: prod.split)
  with Cons.IH show ?case by simp
qed

lemma run_read_leaf:
  "run_search c (reading None ps k) None = run_search c (unwinding None ps k False None) None"
  by (subst run_search.simps) (simp add: machine_defs)

lemma run_read_node:
  "run_search c (reading (Some (Node e l r h n)) ps k) None =
     (case c k (fst e) of
        Inl err \<Rightarrow> Err err
      | Inr Equal \<Rightarrow>
          run_search c (unwinding (Some (Node e l r h n)) ps k False (Some (snd e))) None
      | Inr Less \<Rightarrow> run_search c (reading l ((Node e l r h n, DirLeft) # ps) k) None
      | Inr Greater \<Rightarrow> run_search c (reading r ((Node e l r h n, DirRight) # ps) k) None)"
  apply (subst run_search.simps)
  apply (simp add: machine_defs split: sum.split ordering.split)
  apply (intro allI conjI impI; subst run_search.simps; simp add: machine_defs)
  done

lemma run_read:
  "run_search c (reading t ps k) None =
     rmap (\<lambda>f. (unwinding (if ps = [] then t else Some (fst (last ps))) [] k False f)\<lparr>stage := Done\<rparr>)
       (tree_lookup c k t)"
proof (induction t arbitrary: ps rule: link_induct)
  case None
  show ?case by (simp add: run_read_leaf run_unwind_read)
next
  case (Some e l r h n)
  show ?case
    by (auto simp: run_read_node Some.IH run_unwind_read split: sum.split ordering.split)
qed

lemma search_tree_lookup: "search_tree c t k None = rmap (\<lambda>f. (t, f)) (tree_lookup c k t)"
proof -
  have new: "search_new t k None = reading t [] k"
    by (simp add: search_new_def reading_def)
  show ?thesis
    by (cases "tree_lookup c k t") (auto simp: search_tree_def new run_read)
qed

section \<open>Balance\<close>

text \<open>The well-formedness of a tree: stored heights and counts are the real ones, and the
  heights of two siblings differ by at most one.\<close>

fun avl :: "('k, 'v) link \<Rightarrow> bool" where
  "avl None = True"
| "avl (Some (Node e l r h c)) \<longleftrightarrow>
     avl l \<and> avl r \<and> h = 1 + max (height l) (height r) \<and> c = 1 + count l + count r \<and>
     height l \<le> height r + 1 \<and> height r \<le> height l + 1"

fun inorder :: "('k, 'v) link \<Rightarrow> ('k \<times> 'v) list" where
  "inorder None = []"
| "inorder (Some (Node e l r h c)) = inorder l @ e # inorder r"

lemma height_simps [simp]: "height None = 0" "height (Some (Node e l r h c)) = h"
  by (simp_all add: height_def)

lemma count_simps [simp]: "count None = 0" "count (Some (Node e l r h c)) = c"
  by (simp_all add: count_def)

lemma height_0_iff: "avl t \<Longrightarrow> height t = 0 \<longleftrightarrow> t = None"
  by (cases t rule: avl.cases) auto

lemma count_inorder: "avl t \<Longrightarrow> count t = length (inorder t)"
  by (induction t rule: link_induct) simp_all

lemma rebalance_balanced:
  assumes "avl l" "avl r" "height l \<le> height r + 1" "height r \<le> height l + 1"
  shows "rebalance (Node e l r h c) =
    Ok (Node e l r (1 + max (height l) (height r)) (1 + count l + count r))"
  using assms by (simp add: rebalance_def node_ops Let_def)

lemma rebalance_left:
  assumes "avl l" "avl r" "height l = height r + 2"
  shows "\<exists>n'. rebalance (Node e l r h c) = Ok n' \<and> avl (Some n') \<and>
    inorder (Some n') = inorder l @ e # inorder r \<and>
    height (Some n') \<in> {height r + 2, height r + 3}"
proof -
  obtain le ll lr lh lc where l: "l = Some (Node le ll lr lh lc)"
    using assms(3) by (cases l rule: avl.cases) auto
  show ?thesis
  proof (cases "height ll < height lr")
    case False
    with assms l show ?thesis
      by (auto simp: rebalance_def rotate_def refresh_def balance_def child_def set_child_def
          opposite_def Let_def)
  next
    case True
    then obtain me ml mr mh mc where "lr = Some (Node me ml mr mh mc)"
      by (cases lr rule: avl.cases) auto
    with True assms l show ?thesis
      by (auto simp: rebalance_def rotate_def refresh_def balance_def child_def set_child_def
          opposite_def Let_def)
  qed
qed

lemma rebalance_right:
  assumes "avl l" "avl r" "height r = height l + 2"
  shows "\<exists>n'. rebalance (Node e l r h c) = Ok n' \<and> avl (Some n') \<and>
    inorder (Some n') = inorder l @ e # inorder r \<and>
    height (Some n') \<in> {height l + 2, height l + 3}"
proof -
  obtain re rl rr rh rc where r: "r = Some (Node re rl rr rh rc)"
    using assms(3) by (cases r rule: avl.cases) auto
  show ?thesis
  proof (cases "height rr < height rl")
    case False
    with assms r show ?thesis
      by (auto simp: rebalance_def rotate_def refresh_def balance_def child_def set_child_def
          opposite_def Let_def)
  next
    case True
    then obtain me ml mr mh mc where "rl = Some (Node me ml mr mh mc)"
      by (cases rl rule: avl.cases) auto
    with True assms r show ?thesis
      by (auto simp: rebalance_def rotate_def refresh_def balance_def child_def set_child_def
          opposite_def Let_def)
  qed
qed

text \<open>One subtree grew by at most one: the rebalanced node is well formed, keeps the order of
  its entries and grows by at most one itself.\<close>

lemma rebalance_grown:
  assumes "avl l" "avl r" "height l \<le> height r + 2" "height r \<le> height l + 2"
  shows "\<exists>n'. rebalance (Node e l r h c) = Ok n' \<and> avl (Some n') \<and>
    inorder (Some n') = inorder l @ e # inorder r \<and>
    (if height l = height r + 2 then height (Some n') \<in> {height r + 2, height r + 3}
     else if height r = height l + 2 then height (Some n') \<in> {height l + 2, height l + 3}
     else height (Some n') = 1 + max (height l) (height r))"
proof -
  consider "height l = height r + 2" | "height r = height l + 2"
    | "height l \<le> height r + 1" "height r \<le> height l + 1"
    using assms(3,4) by linarith
  then show ?thesis
  proof cases
    case 1
    with rebalance_left [OF assms(1,2) 1, of e h c] show ?thesis by auto
  next
    case 2
    with rebalance_right [OF assms(1,2) 2, of e h c] show ?thesis by auto
  next
    case 3
    with rebalance_balanced [OF assms(1,2) 3, of e h c] assms(1,2) show ?thesis by auto
  qed
qed

section \<open>Insertion and lookup implement the sorted list\<close>

text \<open>The comparator the search is given answers the comparisons with \<open>k\<close> as \<open>c\<close> does.\<close>

definition answers ::
  "('k \<Rightarrow> 'k \<Rightarrow> string + ordering) \<Rightarrow> ('k \<Rightarrow> 'k \<Rightarrow> ordering) \<Rightarrow> 'k \<Rightarrow> ('k \<times> 'v) list \<Rightarrow> bool"
where
  "answers cf c k es \<longleftrightarrow> (\<forall>e \<in> set es. cf k (fst e) = Ok (c k (fst e)))"

lemma answers_append [simp]:
  "answers cf c k (xs @ e # ys) \<longleftrightarrow>
     answers cf c k xs \<and> cf k (fst e) = Ok (c k (fst e)) \<and> answers cf c k ys"
  by (auto simp: answers_def)

lemma key_sorted_append:
  "key_sorted c (xs @ e # ys) \<Longrightarrow> key_sorted c xs \<and> key_sorted c ys"
  by (simp add: key_sorted_def sorted_wrt_append)

context total_comparator
begin

lemma tree_lookup_spec:
  assumes "key_sorted c (inorder t)" "answers cf c k (inorder t)"
  shows "tree_lookup cf k t = Ok (key_find c k (inorder t))"
  using assms
proof (induction t rule: link_induct)
  case (Some e l r h n)
  have sorted: "key_sorted c (inorder l @ e # inorder r)"
    and parts: "key_sorted c (inorder l)" "key_sorted c (inorder r)"
    using Some.prems(1) key_sorted_append [of c "inorder l" e "inorder r"] by simp_all
  have answer: "cf k (fst e) = Ok (c k (fst e))"
    and more: "answers cf c k (inorder l)" "answers cf c k (inorder r)"
    using Some.prems(2) by simp_all
  show ?case
    using answer Some.IH(1) [OF parts(1) more(1)] Some.IH(2) [OF parts(2) more(2)]
      key_find_less [OF sorted, of k] key_find_right [OF sorted, of k]
    by (cases "c k (fst e)") simp_all
qed simp

lemma tree_insert_spec:
  assumes "avl t" "key_sorted c (inorder t)" "answers cf c k (inorder t)"
  shows "\<exists>t'. tree_insert cf k v t = Ok (t', key_find c k (inorder t)) \<and> avl t' \<and>
    inorder t' = key_upd c k v (inorder t) \<and> height t \<le> height t' \<and> height t' \<le> height t + 1"
  using assms
proof (induction t rule: link_induct)
  case None
  show ?case by (simp add: leaf_def)
next
  case (Some e l r h n)
  have sorted: "key_sorted c (inorder l @ e # inorder r)"
    and parts: "key_sorted c (inorder l)" "key_sorted c (inorder r)"
    using Some.prems(2) key_sorted_append [of c "inorder l" e "inorder r"] by simp_all
  have answer: "cf k (fst e) = Ok (c k (fst e))"
    and more: "answers cf c k (inorder l)" "answers cf c k (inorder r)"
    using Some.prems(3) by simp_all
  have avls: "avl l" "avl r" "h = 1 + max (height l) (height r)"
    "height l \<le> height r + 1" "height r \<le> height l + 1"
    using Some.prems(1) by simp_all
  show ?case
  proof (cases "c k (fst e)")
    case Less
    obtain l' where l': "tree_insert cf k v l = Ok (l', key_find c k (inorder l))" "avl l'"
      "inorder l' = key_upd c k v (inorder l)" "height l \<le> height l'" "height l' \<le> height l + 1"
      using Some.IH(1) [OF avls(1) parts(1) more(1)] by blast
    obtain n' where "rebalance (Node e l' r h n) = Ok n'" "avl (Some n')"
      "inorder (Some n') = inorder l' @ e # inorder r"
      "h \<le> height (Some n')" "height (Some n') \<le> h + 1"
      using rebalance_grown [OF l'(2) avls(2), of e h n] l'(4,5) avls(3-5) by (auto simp: max_def split: if_splits)
    with Less answer l' show ?thesis
      by (auto simp: key_find_less [OF sorted Less] key_upd_less [OF sorted Less])
  next
    case Equal
    with answer Some.prems(1) show ?thesis
      by (auto simp: key_find_right [OF sorted] key_upd_equal [OF sorted Equal])
  next
    case Greater
    obtain r' where r': "tree_insert cf k v r = Ok (r', key_find c k (inorder r))" "avl r'"
      "inorder r' = key_upd c k v (inorder r)" "height r \<le> height r'" "height r' \<le> height r + 1"
      using Some.IH(2) [OF avls(2) parts(2) more(2)] by blast
    obtain n' where "rebalance (Node e l r' h n) = Ok n'" "avl (Some n')"
      "inorder (Some n') = inorder l @ e # inorder r'"
      "h \<le> height (Some n')" "height (Some n') \<le> h + 1"
      using rebalance_grown [OF avls(1) r'(2), of e h n] r'(4,5) avls(3-5) by (auto simp: max_def split: if_splits)
    with Greater answer r' show ?thesis
      by (auto simp: key_find_right [OF sorted] key_upd_greater [OF sorted Greater])
  qed
qed

end

section \<open>Positions, iteration, bulk building\<close>

lemma entry_at_inorder:
  "avl t \<Longrightarrow> entry_at t i = (if i < length (inorder t) then Some (inorder t ! i) else None)"
proof (induction t arbitrary: i rule: link_induct)
  case (Some e l r h n)
  have "count l = length (inorder l)" using Some.prems count_inorder by auto
  with Some show ?case
    by (auto simp: nth_append Let_def cmp_def nth_Cons' split: ordering.splits)
qed simp

text \<open>What an iterator has still to yield: the subtree it visits next, then each pending node
  with its right part.\<close>

fun pending_entries :: "('k, 'v) node list \<Rightarrow> ('k \<times> 'v) list" where
  "pending_entries [] = []"
| "pending_entries (n # ns) = entry n # inorder (right n) @ pending_entries ns"

lemma pending_push_left: "pending_entries (push_left t ns) = inorder t @ pending_entries ns"
  by (induction t ns rule: push_left.induct) simp_all

lemma iter_step_yields:
  assumes "it_remaining it = length (inorder (it_next it) @ pending_entries (it_pending it))"
  shows "case iter_step it of (e, it') \<Rightarrow>
    inorder (it_next it) @ pending_entries (it_pending it) =
      (case e of None \<Rightarrow> [] | Some x \<Rightarrow> x # inorder (it_next it') @ pending_entries (it_pending it')) \<and>
    it_remaining it' = length (inorder (it_next it') @ pending_entries (it_pending it'))"
proof (cases "push_left (it_next it) (it_pending it)")
  case Nil
  then have "inorder (it_next it) @ pending_entries (it_pending it) = []"
    using pending_push_left [of "it_next it" "it_pending it"] by simp
  with Nil assms show ?thesis by (simp add: iter_step_def)
next
  case (Cons n ns)
  then have "inorder (it_next it) @ pending_entries (it_pending it) =
      entry n # inorder (right n) @ pending_entries ns"
    using pending_push_left [of "it_next it" "it_pending it"] by simp
  with Cons assms show ?thesis by (simp add: iter_step_def)
qed

text \<open>Collecting an iterator: \<open>fuel\<close> counts the calls of \<open>next\<close>.\<close>

fun iter_collect :: "nat \<Rightarrow> ('k, 'v) iter \<Rightarrow> ('k \<times> 'v) list" where
  "iter_collect 0 it = []"
| "iter_collect (Suc fuel) it =
     (case iter_step it of (None, _) \<Rightarrow> [] | (Some e, it') \<Rightarrow> e # iter_collect fuel it')"

lemma iter_collect_enough:
  assumes "it_remaining it = length (inorder (it_next it) @ pending_entries (it_pending it))"
    "it_remaining it < fuel"
  shows "iter_collect fuel it = inorder (it_next it) @ pending_entries (it_pending it)"
  using assms
proof (induction fuel arbitrary: it)
  case (Suc fuel)
  obtain e it' where step: "iter_step it = (e, it')" by (cases "iter_step it")
  show ?case
  proof (cases e)
    case None
    with iter_step_yields [OF Suc.prems(1)] step show ?thesis by simp
  next
    case (Some x)
    with iter_step_yields [OF Suc.prems(1)] step
    have rest: "inorder (it_next it) @ pending_entries (it_pending it) =
        x # inorder (it_next it') @ pending_entries (it_pending it')"
      and left: "it_remaining it' = length (inorder (it_next it') @ pending_entries (it_pending it'))"
      by simp_all
    have "it_remaining it' < fuel" using Suc.prems rest left by simp
    with Some step rest left Suc.IH [OF left] show ?thesis by simp
  qed
qed simp

text \<open>The cursor visits the entries in the same order and its \<open>current\<close> is idempotent.\<close>

definition cursor_entries :: "('k, 'v) cursor \<Rightarrow> ('k \<times> 'v) list" where
  "cursor_entries cu =
     (case cu_current cu of None \<Rightarrow> [] | Some n \<Rightarrow> [entry n]) @ inorder (cu_next cu)
       @ pending_entries (cu_pending cu)"

lemma cursor_current_spec:
  "case cursor_current cu of (e, cu') \<Rightarrow>
     cursor_entries cu' = cursor_entries cu \<and> cu_remaining cu' = cu_remaining cu \<and>
     e = (case cursor_entries cu of [] \<Rightarrow> None | x # _ \<Rightarrow> Some x) \<and>
     (e \<noteq> None \<longrightarrow> cu_current cu' \<noteq> None)"
proof (cases "cu_current cu")
  case None
  then show ?thesis
    using pending_push_left [of "cu_next cu" "cu_pending cu", symmetric]
    by (cases "push_left (cu_next cu) (cu_pending cu)")
      (simp_all add: cursor_current_def cursor_entries_def)
next
  case (Some n)
  then show ?thesis by (simp add: cursor_current_def cursor_entries_def)
qed

lemma cursor_step_spec:
  "case cursor_step cu of (e, cu') \<Rightarrow>
     (case cursor_entries cu of
        [] \<Rightarrow> e = None \<and> cursor_entries cu' = []
      | x # xs \<Rightarrow> e = Some x \<and> cursor_entries cu' = xs \<and> cu_remaining cu' = cu_remaining cu - 1)"
proof -
  obtain e cu' where cu': "cursor_current cu = (e, cu')" by (cases "cursor_current cu")
  with cursor_current_spec [of cu] have spec: "cursor_entries cu' = cursor_entries cu"
    "cu_remaining cu' = cu_remaining cu"
    "e = (case cursor_entries cu of [] \<Rightarrow> None | x # _ \<Rightarrow> Some x)"
    "e \<noteq> None \<longrightarrow> cu_current cu' \<noteq> None"
    by simp_all
  show ?thesis
  proof (cases "cursor_entries cu")
    case Nil
    with spec cu' show ?thesis by (simp add: cursor_step_def)
  next
    case (Cons x xs)
    with spec obtain n where n: "cu_current cu' = Some n" by auto
    then have "cursor_current cu' = (Some (entry n), cu')" by (simp add: cursor_current_def)
    with Cons spec cu' n show ?thesis
      by (auto simp: cursor_step_def cursor_advance_def cursor_entries_def)
  qed
qed

text \<open>The cursor after \<open>n\<close> steps.\<close>

fun cursor_skip :: "nat \<Rightarrow> ('k, 'v) cursor \<Rightarrow> ('k, 'v) cursor" where
  "cursor_skip 0 cu = cu"
| "cursor_skip (Suc n) cu = cursor_skip n (snd (cursor_step cu))"

lemma cursor_skip_entries: "cursor_entries (cursor_skip n cu) = drop n (cursor_entries cu)"
proof (induction n arbitrary: cu)
  case (Suc n)
  show ?case
    using cursor_step_spec [of cu]
    by (cases "cursor_entries cu") (simp_all add: Suc.IH split_beta)
qed simp

text \<open>The subtree \<open>build_run\<close> completes for the entries \<open>es\<close>: the median at the root.\<close>

function balanced :: "('k \<times> 'v) list \<Rightarrow> ('k, 'v) link" where
  "balanced es =
     (if es = [] then None
      else
        let m = length es div 2 in
        Some (refresh (Node (es ! m) (balanced (take m es)) (balanced (drop (m + 1) es)) 0 0)))"
  by pat_completeness auto
termination
  by (relation "measure length") auto

declare balanced.simps [simp del]

lemma build_run_balanced:
  "build_run (Open (length es)) (es @ rest) ps = build_run (Closed (balanced es)) rest ps"
proof (induction es arbitrary: rest ps rule: balanced.induct)
  case (1 es)
  show ?case
  proof (cases "es = []")
    case True
    then show ?thesis by (simp add: balanced.simps build_run.simps(1))
  next
    case False
    define m where "m = length es div 2"
    define xs where "xs = take m es"
    define ys where "ys = drop (m + 1) es"
    have m: "m < length es" using False by (simp add: m_def)
    then have split: "es = xs @ es ! m # ys" by (simp add: xs_def ys_def id_take_nth_drop [symmetric])
    have lens: "length xs = m" "length ys = length es - m - 1" using m by (simp_all add: xs_def ys_def)
    have IH: "build_run (Open (length xs)) (xs @ rest') ps' = build_run (Closed (balanced xs)) rest' ps'"
      "build_run (Open (length ys)) (ys @ rest') ps' = build_run (Closed (balanced ys)) rest' ps'"
      for rest' ps'
      using 1 [OF False m_def] by (simp_all add: xs_def ys_def)
    have "build_run (Open (length es)) (es @ rest) ps =
        build_run (Open (length xs)) (xs @ es ! m # ys @ rest)
          (\<lparr>right_count = length ys, frame_left = None, frame_entry = None\<rparr> # ps)"
    proof -
      have "build_run (Open (length es)) (es @ rest) ps =
          build_run (Open m) (es @ rest)
            (\<lparr>right_count = length ys, frame_left = None, frame_entry = None\<rparr> # ps)"
        using False by (simp add: build_run.simps(1) [of "length es"] lens m_def)
      moreover have "es @ rest = xs @ es ! m # ys @ rest" by (subst split) simp
      ultimately show ?thesis by (simp only: lens)
    qed
    also have "\<dots> = build_run (Open (length ys)) (ys @ rest)
        (\<lparr>right_count = length ys, frame_left = balanced xs, frame_entry = Some (es ! m)\<rparr> # ps)"
      by (subst IH(1)) simp
    also have "\<dots> = build_run (Closed (balanced es)) rest ps"
      using False by (simp only: IH) (simp add: balanced.simps [of es] Let_def m_def xs_def ys_def)
    finally show ?thesis .
  qed
qed

lemma from_pending_entries_balanced: "from_pending_entries es = Ok (balanced es)"
  using build_run_balanced [of es "[]" "[]"] by (simp add: from_pending_entries_def)

lemma inorder_balanced: "inorder (balanced es) = es"
proof (induction es rule: balanced.induct)
  case (1 es)
  show ?case
  proof (cases "es = []")
    case False
    then have "length es div 2 < length es" by simp
    with False 1 show ?thesis
      by (simp add: balanced.simps [of es] Let_def refresh_def id_take_nth_drop [symmetric])
  qed (simp add: balanced.simps)
qed

text \<open>The height of a built tree is the number of binary digits of its count.\<close>

fun bit_len :: "nat \<Rightarrow> nat" where
  "bit_len n = (if n = 0 then 0 else 1 + bit_len (n div 2))"

declare bit_len.simps [simp del]

lemma bit_len_steps: "bit_len n \<le> bit_len (Suc n) \<and> bit_len (Suc n) \<le> bit_len n + 1"
proof (induction n rule: less_induct)
  case (less n)
  show ?case
  proof (cases "even n")
    case True
    then have "Suc n div 2 = n div 2" by simp
    then show ?thesis
      by (simp add: bit_len.simps [of "Suc n"]) (simp add: bit_len.simps [of n] bit_len.simps [of 0])
  next
    case False
    then have "Suc n div 2 = Suc (n div 2)" "n div 2 < n" "n \<noteq> 0" by (auto elim: oddE)
    with less [of "n div 2"] show ?thesis
      by (simp add: bit_len.simps [of "Suc n"]) (simp add: bit_len.simps [of n])
  qed
qed

lemma balanced_sizes:
  fixes n :: nat
  assumes "n \<noteq> 0"
  shows "n - n div 2 - 1 = n div 2 \<or> Suc (n - n div 2 - 1) = n div 2"
  using assms by (cases "even n") (auto elim!: evenE oddE)

lemma avl_balanced: "avl (balanced es) \<and> height (balanced es) = bit_len (length es)"
proof (induction es rule: balanced.induct)
  case (1 es)
  show ?case
  proof (cases "es = []")
    case True
    then show ?thesis by (simp add: balanced.simps bit_len.simps)
  next
    case False
    define m where "m = length es div 2"
    define k where "k = length es - m - 1"
    have "m < length es" using False by (simp add: m_def)
    then have lens: "length (take m es) = m" "length (drop (m + 1) es) = k" by (simp_all add: k_def)
    have near: "k = m \<or> Suc k = m"
      using balanced_sizes [of "length es"] False by (simp add: m_def k_def)
    have IH: "avl (balanced (take m es))" "height (balanced (take m es)) = bit_len m"
      "avl (balanced (drop (m + 1) es))" "height (balanced (drop (m + 1) es)) = bit_len k"
      using 1 [OF False m_def] lens by simp_all
    have digits: "bit_len (length es) = 1 + bit_len m" using False by (simp add: bit_len.simps [of "length es"] m_def)
    have "bit_len k \<le> bit_len m" "bit_len m \<le> bit_len k + 1"
      using near bit_len_steps [of k] by auto
    with False IH digits show ?thesis
      by (simp add: balanced.simps [of es] Let_def refresh_def m_def [symmetric])
  qed
qed


section \<open>What the storage promises\<close>

text \<open>\<^bold>\<open>C11\<close>. Insertion. For a comparator whose answers are those of a total order, driving the
  resumable insertion search to its end always succeeds on a well-formed tree: the new tree is
  again balanced with correct heights and counts, its in-order entries are the sorted list with
  the entry inserted (or the value replaced, keeping the stored key, when an equal key is
  present), and the search reports the previous value.\<close>

theorem search_insert_implements_sorted_list:
  fixes t :: "('k, 'v) link"
  assumes "total_comparator c" "avl t" "key_sorted c (inorder t)"
    and "\<forall>e \<in> set (inorder t). cf k (fst e) = Ok (c k (fst e))"
  shows "\<exists>t'. search_tree cf t k (Some v) = Ok (t', key_find c k (inorder t)) \<and> avl t' \<and>
    inorder t' = key_upd c k v (inorder t) \<and> key_sorted c (inorder t') \<and>
    count t' = length (key_upd c k v (inorder t))"
proof -
  have "answers cf c k (inorder t)" using assms(4) by (simp add: answers_def)
  from total_comparator.tree_insert_spec [OF assms(1-3) this, of v]
  obtain t' where "tree_insert cf k v t = Ok (t', key_find c k (inorder t))" "avl t'"
    "inorder t' = key_upd c k v (inorder t)" by blast
  then show ?thesis
    using total_comparator.key_sorted_upd [OF assms(1,3), of k v] count_inorder [of t']
    by (auto simp: search_tree_insert)
qed

definition sample_tree :: "(nat, nat) link" where
  "sample_tree = Some (Node (5, 50) (Some (leaf (3, 30))) None 2 2)"

lemma sample_tree_facts [simp]:
  "avl sample_tree" "inorder sample_tree = [(3, 30), (5, 50)]" "count sample_tree = 2"
  "height sample_tree = 2"
  by (simp_all add: sample_tree_def leaf_def)

lemma sample_tree_sorted [simp]:
  "key_sorted cmp [(3::nat, 30::nat), (5, 50)]"
  "key_find cmp (4::nat) [(3, 30::nat), (5, 50)] = None"
  "key_upd cmp (4::nat) (40::nat) [(3, 30), (5, 50)] = [(3, 30), (4, 40), (5, 50)]"
  by (simp_all add: key_sorted_def cmp_def)

lemma search_insert_implements_sorted_list_witness:
  "\<exists>t'. search_tree (\<lambda>a b. Ok (cmp a b)) sample_tree 4 (Some 40) = Ok (t', None) \<and> avl t' \<and>
     inorder t' = [(3, 30), (4, 40), (5, 50)] \<and> key_sorted cmp (inorder t') \<and> count t' = 3"
  using search_insert_implements_sorted_list [OF linorder_cmp.total_comparator_axioms,
      of sample_tree "\<lambda>a b. Ok (cmp a b)" 4 40]
  by (simp del: key_upd.simps key_find.simps) (simp add: numeral_3_eq_3)

text \<open>Lookup. Driving a lookup search to its end succeeds, reports the value stored at
  the key, if any, and gives back the very tree it started from. After an insertion at \<open>k\<close>, a
  lookup of any key \<open>j\<close> finds the inserted value when \<open>j\<close> equals \<open>k\<close> and what it found before
  otherwise.\<close>

theorem search_lookup_after_insert:
  fixes t :: "('k, 'v) link"
  assumes "total_comparator c" "avl t" "key_sorted c (inorder t)"
  shows "search_tree (\<lambda>a b. Ok (c a b)) t j None = Ok (t, key_find c j (inorder t)) \<and>
    (\<exists>t' old. search_tree (\<lambda>a b. Ok (c a b)) t k (Some v) = Ok (t', old) \<and>
      search_tree (\<lambda>a b. Ok (c a b)) t' j None =
        Ok (t', if c j k = Equal then Some v else key_find c j (inorder t)))"
proof -
  let ?cf = "\<lambda>a b. Ok (c a b)"
  have answers: "answers ?cf c j' (inorder t')" for j' and t' :: "('k, 'v) link"
    by (simp add: answers_def)
  obtain t' where t': "tree_insert ?cf k v t = Ok (t', key_find c k (inorder t))" "avl t'"
    "inorder t' = key_upd c k v (inorder t)"
    using total_comparator.tree_insert_spec [OF assms answers, of k v] by blast
  have sorted: "key_sorted c (inorder t')"
    using total_comparator.key_sorted_upd [OF assms(1,3)] t'(3) by simp
  show ?thesis
    using total_comparator.tree_lookup_spec [OF assms(1,3) answers, of j]
      total_comparator.tree_lookup_spec [OF assms(1) sorted answers, of j]
      total_comparator.key_find_upd [OF assms(1,3), of j k v] t'
    by (auto simp: search_tree_insert search_tree_lookup)
qed

lemma search_lookup_after_insert_witness:
  "\<exists>t' old. search_tree (\<lambda>a b. Ok (cmp a b)) sample_tree 4 (Some 40) = Ok (t', old) \<and>
     search_tree (\<lambda>a b. Ok (cmp a b)) t' 4 None = Ok (t', Some 40)"
  using search_lookup_after_insert [OF linorder_cmp.total_comparator_axioms,
      of sample_tree 4 4 40]
  by simp

text \<open>Positional access, the iterator and the cursor agree on a well-formed tree: the
  entry at position \<open>i\<close> is the \<open>i\<close>-th in-order entry and there is none from \<open>len\<close> on, a fresh
  iterator yields exactly the in-order entries and then stops, and \<open>n\<close> steps of a cursor lead
  to the \<open>n\<close>-th entry.\<close>

theorem positions_iterator_cursor_agree:
  assumes "avl t"
  shows "entry_at t i = (if i < count t then Some (inorder t ! i) else None) \<and>
    iter_collect (count t + 1) (iter_new t) = inorder t \<and>
    fst (cursor_current (cursor_skip i (cursor_new t))) = entry_at t i"
proof -
  have "fst (cursor_current cu) = (case cursor_entries cu of [] \<Rightarrow> None | x # _ \<Rightarrow> Some x)"
    for cu :: "('a, 'b) cursor"
    using cursor_current_spec [of cu] by (simp add: split_beta)
  with cursor_skip_entries [of i "cursor_new t"] have "fst (cursor_current (cursor_skip i (cursor_new t))) =
      (case drop i (inorder t) of [] \<Rightarrow> None | x # _ \<Rightarrow> Some x)"
    by (simp add: cursor_entries_def cursor_new_def)
  moreover have "iter_collect (count t + 1) (iter_new t) = inorder t"
    using iter_collect_enough [of "iter_new t" "count t + 1"] count_inorder [OF assms]
    by (simp add: iter_new_def)
  ultimately show ?thesis
    using entry_at_inorder [OF assms, of i] count_inorder [OF assms]
    by (auto split: list.splits) (metis Cons_nth_drop_Suc list.inject)
qed

lemma positions_iterator_cursor_agree_witness:
  "entry_at sample_tree 1 = Some (5, 50) \<and>
   iter_collect 3 (iter_new sample_tree) = [(3, 30), (5, 50)] \<and>
   fst (cursor_current (cursor_skip 1 (cursor_new sample_tree))) = Some (5, 50)"
  using positions_iterator_cursor_agree [of sample_tree 1]
  by simp

text \<open>Bulk building. \<open>from_pending_entries\<close> never fails: whatever the entries, the tree it
  builds holds exactly them in the given order, with correct heights and counts and siblings
  whose heights differ by at most one, and its height is the number of binary digits of the
  entry count.\<close>

theorem from_pending_entries_correct:
  "\<exists>t. from_pending_entries es = Ok t \<and> inorder t = es \<and> avl t \<and> count t = length es \<and>
     height t = bit_len (length es)"
  using from_pending_entries_balanced [of es] inorder_balanced [of es] avl_balanced [of es]
    count_inorder [of "balanced es"]
  by simp



end
