(* ===== verification/Priority_Queue.thy ===== *)
theory Priority_Queue
  imports Comparator
begin

text \<open>
  The priority queue of \<open>value/priority_queue.rs\<close>: an append-only vector of slots that keeps
  the insertion order, a binary heap of the live slot indices, and the resumable update that
  rebuilds, pushes or pops one comparison at a time, so that a comparator written in the
  interpreted language can suspend. Priorities are of type \<open>'p\<close>, values of type \<open>'v\<close> and
  comparator call targets of type \<open>'c\<close>. Reference counting is not observable:
  \<open>Rc::make_mut\<close> copies a shared storage before it changes it.
\<close>

section \<open>Storage\<close>

record ('p, 'v, 'c) pq_storage =
  slots :: "('p \<times> 'v) option list"
  heap :: "nat list"
  pq_comparator :: "'c option"
  ready :: bool

definition pq_new :: "'c option \<Rightarrow> ('p, 'v, 'c) pq_storage" where
  "pq_new comparator = \<lparr>slots = [], heap = [], pq_comparator = comparator, ready = True\<rparr>"

definition from_entries :: "('p \<times> 'v) list \<Rightarrow> 'c option \<Rightarrow> ('p, 'v, 'c) pq_storage" where
  "from_entries entries comparator =
     (let count = length entries in
      \<lparr>slots = map Some entries, heap = [0..<count], pq_comparator = comparator,
       ready = (count < 2)\<rparr>)"

definition pq_len :: "('p, 'v, 'c) pq_storage \<Rightarrow> nat" where
  "pq_len self = length (heap self)"

definition pq_is_empty :: "('p, 'v, 'c) pq_storage \<Rightarrow> bool" where
  "pq_is_empty self = (heap self = [])"

definition slot :: "('p, 'v, 'c) pq_storage \<Rightarrow> nat \<Rightarrow> ('p \<times> 'v) option" where
  "slot self position =
     (if position < length (slots self) then slots self ! position else None)"

definition slot_count :: "('p, 'v, 'c) pq_storage \<Rightarrow> nat" where
  "slot_count self = length (slots self)"

text \<open>The borrowing iterator: \<open>find_map\<close> skips the vacant slots, and \<open>remaining\<close> is decremented
  with the overflow check of \<open>usize\<close>.\<close>

record ('p, 'v) pq_iter =
  iter_slots :: "('p \<times> 'v) option list"
  remaining :: nat

definition pq_iter_new :: "('p, 'v, 'c) pq_storage \<Rightarrow> ('p, 'v) pq_iter" where
  "pq_iter_new self = \<lparr>iter_slots = slots self, remaining = pq_len self\<rparr>"

fun find_slot :: "('a option) list \<Rightarrow> 'a option \<times> 'a option list" where
  "find_slot [] = (None, [])"
| "find_slot (None # rest) = find_slot rest"
| "find_slot (Some x # rest) = (Some x, rest)"

definition pq_iter_step ::
  "('p, 'v) pq_iter \<Rightarrow> (fault + ('p \<times> 'v) option) \<times> ('p, 'v) pq_iter"
where
  "pq_iter_step self =
     (case find_slot (iter_slots self) of
        (None, rest) \<Rightarrow> (Ok None, self\<lparr>iter_slots := rest\<rparr>)
      | (Some x, rest) \<Rightarrow>
          if remaining self = 0 then (Err (Panic ''attempt to subtract with overflow''), self)
          else (Ok (Some x), self\<lparr>iter_slots := rest, remaining := remaining self - 1\<rparr>))"

section \<open>The resumable update\<close>

datatype ('p, 'v) operation = Operation (op_entry: "('p \<times> 'v) option")

definition op_push :: "'p \<Rightarrow> 'v \<Rightarrow> ('p, 'v) operation" where
  "op_push priority v = Operation (Some (priority, v))"

definition op_pop :: "('p, 'v) operation" where
  "op_pop = Operation None"

datatype update_stage = Rebuild nat | Apply | Up nat | Down nat | UpdateDone

datatype heap_comparison =
    CompareUp nat nat
  | CompareChildren nat nat nat
  | CompareDown nat nat

datatype update_step = UpdateContinue | UpdateCompare | UpdateComplete

record ('p, 'v, 'c) update =
  queue :: "('p, 'v, 'c) pq_storage"
  operation :: "('p, 'v) operation option"
  was_pop :: bool
  popped :: "'v option"
  update_stage :: update_stage
  rebuilding :: "nat option"
  pending :: "heap_comparison option"

definition update_new ::
  "('p, 'v, 'c) pq_storage \<Rightarrow> ('p, 'v) operation \<Rightarrow> ('p, 'v, 'c) update"
where
  "update_new self op =
     \<lparr>queue = self, operation = Some op, was_pop = (op_entry op = None), popped = None,
      update_stage = (if ready self then Apply else Rebuild (pq_len self div 2)),
      rebuilding = None, pending = None\<rparr>"

definition request ::
  "('p, 'v, 'c) update \<Rightarrow> heap_comparison \<Rightarrow> (fault + update_step) \<times> ('p, 'v, 'c) update"
where
  "request self comparison = (Ok UpdateCompare, self\<lparr>pending := Some comparison\<rparr>)"

definition slot_priority :: "('p, 'v, 'c) pq_storage \<Rightarrow> nat \<Rightarrow> fault + 'p" where
  "slot_priority data index =
     (if index < length (heap data) then
        (case slot data (heap data ! index) of
           Some pair \<Rightarrow> Ok (fst pair)
         | None \<Rightarrow> Err (Message ''priority heap references a vacant slot''))
      else Err (Message ''priority heap references a vacant slot''))"

fun comparison_sides :: "heap_comparison \<Rightarrow> nat \<times> nat" where
  "comparison_sides (CompareUp child parent) = (child, parent)"
| "comparison_sides (CompareChildren root left right) = (left, right)"
| "comparison_sides (CompareDown root child) = (child, root)"

definition update_comparison :: "('p, 'v, 'c) update \<Rightarrow> fault + 'c option \<times> 'p \<times> 'p" where
  "update_comparison self =
     (case pending self of
        None \<Rightarrow> Err (Message ''priority comparison has no pending request'')
      | Some comparison \<Rightarrow>
          (case comparison_sides comparison of (left, right) \<Rightarrow>
             rbind (slot_priority (queue self) left) (\<lambda>l.
             rbind (slot_priority (queue self) right) (\<lambda>r.
             Ok (pq_comparator (queue self), l, r)))))"

definition update_finish ::
  "('p, 'v, 'c) update \<Rightarrow> fault + ('p, 'v, 'c) pq_storage \<times> 'v option \<times> bool"
where
  "update_finish self =
     (if update_stage self \<noteq> UpdateDone \<or> operation self \<noteq> None \<or> pending self \<noteq> None
      then Err (Message ''priority update is not complete'')
      else Ok (queue self, popped self, was_pop self))"

definition finish_sift :: "('p, 'v, 'c) update \<Rightarrow> ('p, 'v, 'c) update" where
  "finish_sift self =
     self\<lparr>update_stage := (case rebuilding self of Some n \<Rightarrow> Rebuild n | None \<Rightarrow> UpdateDone),
          rebuilding := None\<rparr>"

text \<open>Indexing and swapping in a vector panic out of range.\<close>

definition vec_get :: "'a list \<Rightarrow> nat \<Rightarrow> fault + 'a" where
  "vec_get xs i = (if i < length xs then Ok (xs ! i) else Err (Panic ''index out of bounds''))"

definition vec_swap :: "'a list \<Rightarrow> nat \<Rightarrow> nat \<Rightarrow> fault + 'a list" where
  "vec_swap xs i j =
     rbind (vec_get xs i) (\<lambda>x. rbind (vec_get xs j) (\<lambda>y. Ok (xs[i := y, j := x])))"

definition above :: "nat list \<Rightarrow> ordering \<Rightarrow> nat \<Rightarrow> nat \<Rightarrow> fault + bool" where
  "above h order left right =
     (case order of
        Greater \<Rightarrow> Ok True
      | Equal \<Rightarrow> rbind (vec_get h left) (\<lambda>l. rbind (vec_get h right) (\<lambda>r. Ok (l < r)))
      | Less \<Rightarrow> Ok False)"

definition swap_heap ::
  "('p, 'v, 'c) update \<Rightarrow> nat \<Rightarrow> nat \<Rightarrow> fault + ('p, 'v, 'c) update"
where
  "swap_heap self i j =
     rbind (vec_swap (heap (queue self)) i j) (\<lambda>h. Ok (self\<lparr>queue := (queue self)\<lparr>heap := h\<rparr>\<rparr>))"

definition apply_comparison ::
  "('p, 'v, 'c) update \<Rightarrow> ordering \<Rightarrow> fault + ('p, 'v, 'c) update"
where
  "apply_comparison self0 order =
     (case pending self0 of
        None \<Rightarrow> Err (Message ''priority comparison has no pending request'')
      | Some comparison \<Rightarrow>
          let self = self0\<lparr>pending := None\<rparr>; h = heap (queue self) in
          (case comparison of
             CompareUp child parent \<Rightarrow>
               rbind (above h order child parent) (\<lambda>up.
                 if up then
                   rbind (swap_heap self child parent) (\<lambda>self'.
                   Ok (self'\<lparr>update_stage := Up parent\<rparr>))
                 else Ok (finish_sift self))
           | CompareChildren root left right \<Rightarrow>
               rbind (above h order left right) (\<lambda>up.
                 let child = (if up then left else right) in
                 Ok (self\<lparr>update_stage := Down root, pending := Some (CompareDown root child)\<rparr>))
           | CompareDown root child \<Rightarrow>
               rbind (above h order child root) (\<lambda>up.
                 if up then
                   rbind (swap_heap self root child) (\<lambda>self'.
                   Ok (self'\<lparr>update_stage := Down child\<rparr>))
                 else Ok (finish_sift self))))"

text \<open>\<open>Vec::swap_remove(0)\<close> on a nonempty vector.\<close>

definition swap_remove_first :: "'a list \<Rightarrow> 'a list" where
  "swap_remove_first xs = (if length xs \<le> 1 then [] else last xs # butlast (tl xs))"

definition apply_operation ::
  "('p, 'v, 'c) update \<Rightarrow> ('p, 'v) operation \<Rightarrow> fault + ('p, 'v, 'c) update"
where
  "apply_operation self op =
     (let data = queue self in
      case op_entry op of
        Some pair \<Rightarrow>
          let h = heap data @ [length (slots data)] in
          Ok (self\<lparr>queue := data\<lparr>heap := h, slots := slots data @ [Some pair]\<rparr>,
                  update_stage := Up (length h - 1)\<rparr>)
      | None \<Rightarrow>
          (case heap data of
             [] \<Rightarrow> Ok (self\<lparr>update_stage := Down 0\<rparr>)
           | first # _ \<Rightarrow>
               rbind (vec_get (slots data) first) (\<lambda>taken.
               Ok (self\<lparr>queue := data\<lparr>heap := swap_remove_first (heap data),
                                        slots := (slots data)[first := None]\<rparr>,
                       popped := map_option snd taken,
                       update_stage := Down 0\<rparr>))))"

text \<open>The new index of every slot when the vacant ones are dropped.\<close>

fun slot_remap :: "'a option list \<Rightarrow> nat \<Rightarrow> nat list" where
  "slot_remap [] live = []"
| "slot_remap (None # rest) live = 0 # slot_remap rest live"
| "slot_remap (Some x # rest) live = live # slot_remap rest (live + 1)"

fun remap_heap :: "nat list \<Rightarrow> nat list \<Rightarrow> fault + nat list" where
  "remap_heap table [] = Ok []"
| "remap_heap table (i # is) =
     rbind (vec_get table i) (\<lambda>j. rbind (remap_heap table is) (\<lambda>js. Ok (j # js)))"

definition compact :: "('p, 'v, 'c) pq_storage \<Rightarrow> fault + ('p, 'v, 'c) pq_storage" where
  "compact data =
     (if heap data = [] then Ok (data\<lparr>slots := []\<rparr>)
      else if length (slots data) > min (2 * length (heap data)) (2 ^ 64 - 1) then
        rbind (remap_heap (slot_remap (slots data) 0) (heap data)) (\<lambda>h.
        Ok (data\<lparr>slots := filter (\<lambda>s. s \<noteq> None) (slots data), heap := h\<rparr>))
      else Ok data)"

definition update_stage_step ::
  "('p, 'v, 'c) update \<Rightarrow> (fault + update_step) \<times> ('p, 'v, 'c) update"
where
  "update_stage_step self =
     (case update_stage self of
        Rebuild n \<Rightarrow>
          if n = 0 then
            (Ok UpdateContinue, self\<lparr>queue := (queue self)\<lparr>ready := True\<rparr>, update_stage := Apply\<rparr>)
          else
            (Ok UpdateContinue, self\<lparr>rebuilding := Some (n - 1), update_stage := Down (n - 1)\<rparr>)
      | Apply \<Rightarrow>
          (case operation self of
             None \<Rightarrow> (Err (Message ''priority update was already applied''), self)
           | Some op \<Rightarrow>
               (case apply_operation (self\<lparr>operation := None\<rparr>) op of
                  Inl e \<Rightarrow> (Err e, self)
                | Inr self' \<Rightarrow> (Ok UpdateContinue, self')))
      | Up child \<Rightarrow>
          if child = 0 then (Ok UpdateContinue, finish_sift self)
          else request self (CompareUp child ((child - 1) div 2))
      | Down root \<Rightarrow>
          let left = root * 2 + 1; right = left + 1; count = pq_len (queue self) in
          if left \<ge> count then (Ok UpdateContinue, finish_sift self)
          else if right = count then request self (CompareDown root left)
          else request self (CompareChildren root left right)
      | UpdateDone \<Rightarrow>
          (case compact (queue self) of
             Inl e \<Rightarrow> (Err e, self)
           | Inr data \<Rightarrow> (Ok UpdateComplete, self\<lparr>queue := data\<rparr>)))"

definition update_advance ::
  "('p, 'v, 'c) update \<Rightarrow> ordering option \<Rightarrow> (fault + update_step) \<times> ('p, 'v, 'c) update"
where
  "update_advance self order0 =
     (case order0 of
        Some order \<Rightarrow>
          (case apply_comparison self order of
             Inl e \<Rightarrow> (Err e, self)
           | Inr self' \<Rightarrow>
               (case pending self' of
                  Some comparison \<Rightarrow> request (self'\<lparr>pending := None\<rparr>) comparison
                | None \<Rightarrow> (Ok UpdateContinue, self')))
      | None \<Rightarrow>
          if pending self \<noteq> None then (Err (Message ''priority comparison result is missing''), self)
          else update_stage_step self)"

section \<open>Driving an update to its end\<close>

text \<open>
  The evaluator's protocol: advance, answer each comparison request, stop at completion or at
  the first failure. It ends from every state, whatever the comparator answers: sifting up
  moves to the parent, sifting down moves to a child, and a rebuild counts down.
\<close>

definition apply_weight :: "('p, 'v, 'c) update \<Rightarrow> nat option \<Rightarrow> nat" where
  "apply_weight u reb =
     (if operation u = None then 0
      else 6 * length (heap (queue u)) + 12 +
        (case reb of None \<Rightarrow> 0 | Some k \<Rightarrow> (k + 1) * (3 * length (heap (queue u)) + 10)))"

definition rebuild_weight :: "('p, 'v, 'c) update \<Rightarrow> nat \<Rightarrow> nat option \<Rightarrow> nat" where
  "rebuild_weight u n reb =
     (if n = 0 then 1 + apply_weight u reb
      else n * (3 * length (heap (queue u)) + 5) + 1 + apply_weight u None)"

definition sifted_weight :: "('p, 'v, 'c) update \<Rightarrow> nat" where
  "sifted_weight u =
     (case rebuilding u of None \<Rightarrow> 0 | Some n \<Rightarrow> rebuild_weight u n None)"

definition stage_weight :: "('p, 'v, 'c) update \<Rightarrow> update_stage \<Rightarrow> nat" where
  "stage_weight u st =
     (case st of
        Rebuild n \<Rightarrow> rebuild_weight u n (rebuilding u)
      | Apply \<Rightarrow> apply_weight u (rebuilding u)
      | Up c \<Rightarrow> 2 * c + 1 + sifted_weight u
      | Down r \<Rightarrow> 3 * (length (heap (queue u)) - r) + 1 + sifted_weight u
      | UpdateDone \<Rightarrow> 0)"

definition update_weight :: "('p, 'v, 'c) update \<Rightarrow> nat" where
  "update_weight u =
     (case pending u of
        None \<Rightarrow> stage_weight u (update_stage u)
      | Some (CompareUp child parent) \<Rightarrow> 1 + stage_weight u (Up parent)
      | Some (CompareDown root child) \<Rightarrow> 1 + stage_weight u (Down child)
      | Some (CompareChildren root left right) \<Rightarrow>
          2 + max (stage_weight u (Down left)) (stage_weight u (Down right)))"

lemmas weight_defs = update_weight_def stage_weight_def sifted_weight_def rebuild_weight_def
  apply_weight_def

lemma vec_swap_length: "vec_swap xs i j = Ok ys \<Longrightarrow> length ys = length xs"
  by (auto simp: vec_swap_def vec_get_def split: if_splits)

lemma update_weight_resume:
  assumes "apply_comparison u order = Ok u'"
  shows "update_weight u' < update_weight u"
proof -
  obtain comparison where pending: "pending u = Some comparison"
    using assms by (auto simp: apply_comparison_def split: option.splits)
  show ?thesis
  proof (cases comparison)
    case (CompareUp child parent)
    with assms pending show ?thesis
      by (auto simp: apply_comparison_def swap_heap_def finish_sift_def weight_defs Let_def
          dest: vec_swap_length split: if_splits option.splits)
  next
    case (CompareChildren root l r)
    with assms pending show ?thesis
      by (auto simp: apply_comparison_def weight_defs Let_def split: if_splits option.splits)
  next
    case (CompareDown root child)
    with assms pending show ?thesis
      by (auto simp: apply_comparison_def swap_heap_def finish_sift_def weight_defs Let_def
          dest: vec_swap_length split: if_splits option.splits)
  qed
qed

lemma swap_remove_first_length [simp]: "length (swap_remove_first xs) = length xs - 1"
  by (cases xs) (auto simp: swap_remove_first_def)

lemma apply_operation_shape:
  assumes "apply_operation (u\<lparr>operation := None\<rparr>) op = Ok u'"
  shows "length (heap (queue u')) \<le> length (heap (queue u)) + 1" "operation u' = None"
    "pending u' = pending u" "rebuilding u' = rebuilding u"
    "update_stage u' = Down 0 \<or> update_stage u' = Up (length (heap (queue u)))"
  using assms
  by (auto simp: apply_operation_def Let_def split: option.splits list.splits if_splits)

lemma apply_operation_weight:
  assumes "apply_operation (u\<lparr>operation := None\<rparr>) op = Ok u'" "pending u = None"
    "update_stage u = Apply" "operation u = Some op"
  shows "update_weight u' < update_weight u"
proof -
  note shape = apply_operation_shape [OF assms(1)]
  let ?n = "length (heap (queue u))"
  have "k * (3 * length (heap (queue u')) + 5) \<le> k * (3 * ?n + 10)" for k
    using shape(1) by (intro mult_le_mono2) simp
  then have "sifted_weight u' \<le> (case rebuilding u of None \<Rightarrow> 0 | Some k \<Rightarrow> k * (3 * ?n + 10) + 1)"
    using shape by (auto simp: sifted_weight_def rebuild_weight_def apply_weight_def
        split: option.split)
  then show ?thesis
    using shape assms(2-4)
    by (auto simp: update_weight_def stage_weight_def apply_weight_def split: option.splits)
qed

lemma update_advance_weight:
  assumes "update_advance u order = (Ok st, u')" "st \<noteq> UpdateComplete"
  shows "update_weight u' < update_weight u"
proof (cases order)
  case (Some r)
  obtain w where w: "apply_comparison u r = Ok w"
    using assms Some by (cases "apply_comparison u r") (auto simp: update_advance_def)
  have "u' = w"
    using assms Some w by (auto simp: update_advance_def request_def split: option.splits)
  with update_weight_resume [OF w] show ?thesis by simp
next
  case None
  then have pending: "pending u = None" and step: "update_stage_step u = (Ok st, u')"
    using assms by (auto simp: update_advance_def split: if_splits)
  show ?thesis
  proof (cases "update_stage u")
    case (Rebuild n)
    with step pending show ?thesis
      by (cases n) (auto simp: update_stage_step_def weight_defs split: option.splits)
  next
    case Apply
    with step obtain op where "operation u = Some op"
      "apply_operation (u\<lparr>operation := None\<rparr>) op = Ok u'"
      by (auto simp: update_stage_step_def split: option.splits sum.splits)
    with Apply pending show ?thesis by (intro apply_operation_weight)
  next
    case (Up child)
    with step pending show ?thesis
      by (auto simp: update_stage_step_def request_def finish_sift_def weight_defs
          split: if_splits option.splits)
  next
    case (Down root)
    with step pending show ?thesis
      by (auto simp: update_stage_step_def request_def finish_sift_def weight_defs pq_len_def Let_def
          split: if_splits option.splits)
  next
    case UpdateDone
    with step assms(2) show ?thesis
      by (auto simp: update_stage_step_def split: sum.splits)
  qed
qed

function run_update ::
  "('c option \<Rightarrow> 'p \<Rightarrow> 'p \<Rightarrow> fault + ordering) \<Rightarrow> ('p, 'v, 'c) update \<Rightarrow> ordering option
    \<Rightarrow> fault + ('p, 'v, 'c) update"
where
  "run_update cf u order =
     (case update_advance u order of
        (Inl e, _) \<Rightarrow> Err e
      | (Inr UpdateContinue, u') \<Rightarrow> run_update cf u' None
      | (Inr UpdateComplete, u') \<Rightarrow> Ok u'
      | (Inr UpdateCompare, u') \<Rightarrow>
          (case update_comparison u' of
             Inl e \<Rightarrow> Err e
           | Inr (target, a, b) \<Rightarrow>
               (case cf target a b of
                  Inl e \<Rightarrow> Err e
                | Inr r \<Rightarrow> run_update cf u' (Some r))))"
  by pat_completeness auto
termination
  by (relation "measure (\<lambda>(cf, u, order). update_weight u)")
    (auto intro: update_advance_weight [OF sym])

declare run_update.simps [simp del]

definition pq_update ::
  "('c option \<Rightarrow> 'p \<Rightarrow> 'p \<Rightarrow> fault + ordering) \<Rightarrow> ('p, 'v, 'c) pq_storage \<Rightarrow> ('p, 'v) operation
    \<Rightarrow> fault + ('p, 'v, 'c) pq_storage \<times> 'v option \<times> bool"
where
  "pq_update cf q op = rbind (run_update cf (update_new q op) None) update_finish"

section \<open>Heaps over a total preorder\<close>

text \<open>
  \<open>par j\<close> is the heap parent of position \<open>j\<close>. \<open>heap_from\<close> is the heap property below
  position \<open>k\<close>; \<open>down_ok\<close> and \<open>up_ok\<close> are the loop invariants of the two sifts, in which
  only the position being sifted may violate it.
\<close>

definition par :: "nat \<Rightarrow> nat" where
  "par j = (j - 1) div 2"

lemma par_iff: "0 < j \<Longrightarrow> par j = r \<longleftrightarrow> j = 2 * r + 1 \<or> j = 2 * r + 2"
  by (auto simp: par_def)

lemma par_less: "0 < j \<Longrightarrow> par j < j"
  by (auto simp: par_def)

definition heap_from :: "('a \<Rightarrow> 'a \<Rightarrow> bool) \<Rightarrow> nat \<Rightarrow> 'a list \<Rightarrow> bool" where
  "heap_from le k h \<longleftrightarrow> (\<forall>j. 0 < j \<and> j < length h \<and> k \<le> par j \<longrightarrow> le (h ! j) (h ! par j))"

definition down_ok :: "('a \<Rightarrow> 'a \<Rightarrow> bool) \<Rightarrow> nat \<Rightarrow> nat \<Rightarrow> 'a list \<Rightarrow> bool" where
  "down_ok le k r h \<longleftrightarrow>
     (\<forall>j. 0 < j \<and> j < length h \<and> k \<le> par j \<and> par j \<noteq> r \<longrightarrow> le (h ! j) (h ! par j)) \<and>
     (\<forall>j. 0 < j \<and> j < length h \<and> par j = r \<and> 0 < r \<and> k \<le> par r \<longrightarrow> le (h ! j) (h ! par r))"

definition up_ok :: "('a \<Rightarrow> 'a \<Rightarrow> bool) \<Rightarrow> nat \<Rightarrow> 'a list \<Rightarrow> bool" where
  "up_ok le i h \<longleftrightarrow>
     (\<forall>j. 0 < j \<and> j < length h \<and> j \<noteq> i \<longrightarrow> le (h ! j) (h ! par j)) \<and>
     (\<forall>j. 0 < j \<and> j < length h \<and> par j = i \<and> 0 < i \<longrightarrow> le (h ! j) (h ! par i))"

definition best_child :: "('a \<Rightarrow> 'a \<Rightarrow> bool) \<Rightarrow> nat \<Rightarrow> nat \<Rightarrow> 'a list \<Rightarrow> bool" where
  "best_child le r ch h \<longleftrightarrow>
     (\<forall>j. 0 < j \<and> j < length h \<and> par j = r \<longrightarrow> le (h ! j) (h ! ch))"

lemma heap_from_leaves: "length h div 2 \<le> k \<Longrightarrow> heap_from le k h"
  by (auto simp: heap_from_def par_def)

lemma down_ok_start: "heap_from le (Suc k) h \<Longrightarrow> down_ok le k k h"
  by (auto simp: heap_from_def down_ok_def dest: par_less)

lemma down_ok_leaf: "down_ok le k r h \<Longrightarrow> length h \<le> 2 * r + 1 \<Longrightarrow> heap_from le k h"
  by (auto simp: heap_from_def down_ok_def par_iff)

lemma up_ok_root: "up_ok le 0 h \<Longrightarrow> heap_from le 0 h"
  by (auto simp: heap_from_def up_ok_def)

locale heap_order =
  fixes le :: "'a \<Rightarrow> 'a \<Rightarrow> bool"
  assumes le_refl: "le x x"
    and le_trans: "le x y \<Longrightarrow> le y z \<Longrightarrow> le x z"
    and le_total: "le x y \<or> le y x"
begin

lemma heap_root_max:
  assumes "heap_from le 0 h" "j < length h"
  shows "le (h ! j) (h ! 0)"
  using assms(2)
proof (induction j rule: less_induct)
  case (less j)
  show ?case
  proof (cases "j = 0")
    case False
    then have "par j < j" "le (h ! j) (h ! par j)"
      using assms(1) less.prems par_less by (auto simp: heap_from_def)
    with less show ?thesis by (metis le_trans less_trans)
  qed (simp add: le_refl)
qed

lemma down_ok_stop:
  assumes "down_ok le k r h" "best_child le r ch h" "le (h ! ch) (h ! r)"
  shows "heap_from le k h"
  using assms le_trans unfolding down_ok_def heap_from_def best_child_def by metis

lemma down_ok_swap:
  assumes down: "down_ok le k r h" and best: "best_child le r ch h"
    and ch: "0 < ch" "ch < length h" "par ch = r" and k: "k \<le> r"
    and less: "\<not> le (h ! ch) (h ! r)"
  shows "down_ok le k ch (h[r := h ! ch, ch := h ! r])"
proof -
  let ?h = "h[r := h ! ch, ch := h ! r]"
  have r: "r < ch" using ch par_less by blast
  have old: "le (h ! j) (h ! par j)"
    if "0 < j" "j < length h" "k \<le> par j" "par j \<noteq> r" for j
    using down that by (simp add: down_ok_def)
  have "le (?h ! j) (?h ! par j)"
    if j: "0 < j" "j < length ?h" "k \<le> par j" "par j \<noteq> ch" for j
  proof -
    consider "j = ch" | "j = r" | "j \<noteq> ch" "j \<noteq> r" "par j = r" | "j \<noteq> ch" "j \<noteq> r" "par j \<noteq> r" by blast
    then show ?thesis
    proof cases
      case 1
      then show ?thesis using ch r less le_total by (auto simp: nth_list_update)
    next
      case 2
      then have "le (h ! ch) (h ! par r)" using down ch j by (simp add: down_ok_def)
      moreover have "par r < r" using 2 j par_less by blast
      ultimately show ?thesis using 2 r ch by (simp add: nth_list_update)
    next
      case 3
      then show ?thesis using best j r ch by (simp add: best_child_def nth_list_update)
    next
      case 4
      then show ?thesis using old j r ch by (simp add: nth_list_update)
    qed
  qed
  moreover have "le (?h ! j) (?h ! par ch)" if "0 < j" "j < length ?h" "par j = ch" for j
  proof -
    have "ch < j" using that par_less by blast
    then show ?thesis using old [of j] that r ch k by (simp add: nth_list_update)
  qed
  ultimately show ?thesis by (simp add: down_ok_def)
qed

lemma up_ok_stop: "up_ok le i h \<Longrightarrow> le (h ! i) (h ! par i) \<Longrightarrow> heap_from le 0 h"
  unfolding up_ok_def heap_from_def by blast

lemma up_ok_swap:
  assumes up: "up_ok le i h" and i: "0 < i" "i < length h" and less: "\<not> le (h ! i) (h ! par i)"
  shows "up_ok le (par i) (h[i := h ! par i, par i := h ! i])"
proof -
  let ?p = "par i"
  let ?h = "h[i := h ! ?p, ?p := h ! i]"
  have p: "?p < i" using i par_less by blast
  have above: "le (h ! ?p) (h ! i)" using less le_total by blast
  have old: "le (h ! j) (h ! par j)" if "0 < j" "j < length h" "j \<noteq> i" for j
    using up that by (simp add: up_ok_def)
  have "le (?h ! j) (?h ! par j)" if j: "0 < j" "j < length ?h" "j \<noteq> ?p" for j
  proof -
    consider "j = i" | "par j = i" | "j \<noteq> i" "par j = ?p" | "j \<noteq> i" "par j \<noteq> i" "par j \<noteq> ?p" by blast
    then show ?thesis
    proof cases
      case 1
      then show ?thesis using above p i by (simp add: nth_list_update)
    next
      case 2
      then have "i < j" using j par_less by blast
      then show ?thesis using 2 up j i p by (simp add: up_ok_def nth_list_update)
    next
      case 3
      then show ?thesis using old [of j] above le_trans j p i by (simp add: nth_list_update)
    next
      case 4
      then show ?thesis using old [of j] j p i by (simp add: nth_list_update)
    qed
  qed
  moreover have "le (?h ! j) (?h ! par ?p)"
    if j: "0 < j" "j < length ?h" "par j = ?p" "0 < ?p" for j
  proof -
    have "par ?p < ?p" "?p < j" using j par_less by metis+
    moreover have "le (h ! ?p) (h ! par ?p)" using old [of ?p] j p i by simp
    ultimately show ?thesis
      using old [of j] j p i le_trans [of "h ! j" "h ! ?p" "h ! par ?p"]
      by (cases "j = i") (simp_all add: nth_list_update)
  qed
  ultimately show ?thesis by (simp add: up_ok_def)
qed

end

section \<open>Slots, entries and the order of slots\<close>

text \<open>
  The live slot indices in insertion order, and the queue's contents: its entries in insertion
  order. The heap of a well-formed storage is a permutation of the live slots.
\<close>

definition live :: "'a option list \<Rightarrow> nat list" where
  "live ss = filter (\<lambda>i. ss ! i \<noteq> None) [0..<length ss]"

definition pq_entries :: "'a option list \<Rightarrow> 'a list" where
  "pq_entries ss = map (\<lambda>i. the (ss ! i)) (live ss)"

definition pq_wf :: "('p, 'v, 'c) pq_storage \<Rightarrow> bool" where
  "pq_wf q \<longleftrightarrow> mset (heap q) = mset (live (slots q))"

text \<open>Slot \<open>i\<close> does not have to leave before slot \<open>j\<close>: its priority is lower, or equal and it
  was not inserted earlier.\<close>

definition after :: "('p \<Rightarrow> 'p \<Rightarrow> ordering) \<Rightarrow> ('p \<times> 'v) option list \<Rightarrow> nat \<Rightarrow> nat \<Rightarrow> bool" where
  "after c ss i j \<longleftrightarrow>
     (case c (fst (the (ss ! i))) (fst (the (ss ! j))) of
        Less \<Rightarrow> True | Equal \<Rightarrow> j \<le> i | Greater \<Rightarrow> False)"

context total_comparator
begin

lemma after_heap_order: "heap_order (after c ss)"
proof
  fix i j k
  show "after c ss i i" by (simp add: after_def refl)
  show "after c ss i j \<or> after c ss j i"
    using reverse [of "fst (the (ss ! i))" "fst (the (ss ! j))"]
    by (cases "c (fst (the (ss ! j))) (fst (the (ss ! i)))") (auto simp: after_def)
  show "after c ss i j \<Longrightarrow> after c ss j k \<Longrightarrow> after c ss i k"
    by (auto simp: after_def dest: less_trans equal_less less_equal equal_trans split: ordering.splits)
qed

end

sublocale total_comparator \<subseteq> slot_order: heap_order "after c ss" for ss
  by (rule after_heap_order)

lemma set_live: "i \<in> set (live ss) \<longleftrightarrow> i < length ss \<and> ss ! i \<noteq> None"
  by (auto simp: live_def)

lemma distinct_live [simp]: "distinct (live ss)"
  by (simp add: live_def)

lemma sorted_live: "sorted_wrt (<) (live ss)"
  by (simp add: live_def sorted_wrt_filter)

lemma pq_wf_heap:
  assumes "pq_wf q"
  shows "distinct (heap q)" "set (heap q) = set (live (slots q))" "length (heap q) = length (live (slots q))"
  using assms mset_eq_imp_distinct_iff [of "heap q"] mset_eq_setD mset_eq_length
  by (auto simp: pq_wf_def)

lemma live_append: "live (ss @ [Some x]) = live ss @ [length ss]"
  by (auto simp: live_def nth_append intro: filter_cong)

lemma entries_append: "pq_entries (ss @ [Some x]) = pq_entries ss @ [x]"
  by (simp add: pq_entries_def live_append nth_append set_live)

lemma live_remove: "live (ss[i := None]) = filter (\<lambda>j. j \<noteq> i) (live ss)"
  by (cases "i < length ss") (auto simp: live_def nth_list_update intro!: filter_cong)

lemma entries_remove:
  assumes "live ss = xs @ i # ys"
  shows "pq_entries (ss[i := None]) = map (\<lambda>j. the (ss ! j)) xs @ map (\<lambda>j. the (ss ! j)) ys"
proof -
  have "i \<notin> set xs" "i \<notin> set ys" using distinct_live [of ss] assms by auto
  then have "filter (\<lambda>j. j \<noteq> i) xs = xs" "filter (\<lambda>j. j \<noteq> i) ys = ys"
    by (auto simp: filter_id_conv)
  moreover have "ss[i := None] ! j = ss ! j" if "j \<in> set xs \<union> set ys" for j
    using that \<open>i \<notin> set xs\<close> \<open>i \<notin> set ys\<close> by (metis UnE nth_list_update_neq)
  ultimately show ?thesis
    by (simp add: pq_entries_def live_remove assms)
qed

lemma mset_swap_remove_first: "xs \<noteq> [] \<Longrightarrow> mset (swap_remove_first xs) = mset (tl xs)"
proof (cases xs)
  case (Cons x ys)
  have "add_mset (last ys) (mset (butlast ys)) = mset ys" if "ys \<noteq> []"
    using arg_cong [OF append_butlast_last_id [OF that], of mset] unfolding mset_append by simp
  with Cons show ?thesis by (auto simp: swap_remove_first_def)
qed simp

lemma swap_remove_first_nth:
  "Suc j < length xs \<Longrightarrow> 0 < j \<Longrightarrow> swap_remove_first xs ! j = xs ! j"
  by (cases xs) (auto simp: swap_remove_first_def nth_butlast nth_Cons' last_conv_nth)

lemma mset_vec_swap: "vec_swap xs i j = Ok ys \<Longrightarrow> mset ys = mset xs"
  by (auto simp: vec_swap_def vec_get_def mset_swap split: if_splits)

section \<open>Compaction\<close>

definition slot_rank :: "'a option list \<Rightarrow> nat \<Rightarrow> nat" where
  "slot_rank ss i = length (filter (\<lambda>s. s \<noteq> None) (take i ss))"

lemma slot_remap_length [simp]: "length (slot_remap ss n) = length ss"
  by (induction ss n rule: slot_remap.induct) auto

lemma slot_remap_nth:
  "i < length ss \<Longrightarrow> ss ! i \<noteq> None \<Longrightarrow> slot_remap ss n ! i = n + slot_rank ss i"
  by (induction ss n arbitrary: i rule: slot_remap.induct)
    (auto simp: slot_rank_def nth_Cons' take_Cons')

lemma slot_rank_filter:
  "i < length ss \<Longrightarrow> ss ! i \<noteq> None \<Longrightarrow>
     slot_rank ss i < length (filter (\<lambda>s. s \<noteq> None) ss) \<and>
     filter (\<lambda>s. s \<noteq> None) ss ! slot_rank ss i = ss ! i"
  by (induction ss arbitrary: i) (auto simp: slot_rank_def nth_Cons' take_Cons')

lemma slot_rank_mono:
  assumes "i < j" "j \<le> length ss" "ss ! i \<noteq> None"
  shows "slot_rank ss i < slot_rank ss j"
proof -
  have "take j ss = take i ss @ ss ! i # drop (Suc i) (take j ss)"
    using assms id_take_nth_drop [of i "take j ss"] by (simp add: min_def)
  then have "slot_rank ss j =
      length (filter (\<lambda>s. s \<noteq> None) (take i ss @ ss ! i # drop (Suc i) (take j ss)))"
    by (simp only: slot_rank_def)
  with assms(3) show ?thesis by (simp add: slot_rank_def)
qed

lemma live_filter: "live (filter (\<lambda>s. s \<noteq> None) ss) = [0..<length (filter (\<lambda>s. s \<noteq> None) ss)]"
  using nth_mem [of _ "filter (\<lambda>s. s \<noteq> None) ss"] by (auto simp: live_def filter_id_conv)

lemma map_rank_live: "map (slot_rank ss) (live ss) = [0..<length (filter (\<lambda>s. s \<noteq> None) ss)]"
proof (induction ss rule: rev_induct)
  case (snoc s ss)
  have "map (slot_rank (ss @ [s])) (live ss) = map (slot_rank ss) (live ss)"
    by (auto simp: slot_rank_def set_live)
  moreover have "live (ss @ [s]) = live ss @ (if s = None then [] else [length ss])"
    by (auto simp: live_def nth_append intro: filter_cong)
  moreover have "slot_rank (ss @ [s]) (length ss) = length (filter (\<lambda>s. s \<noteq> None) ss)"
    by (simp add: slot_rank_def)
  ultimately show ?case using snoc by simp
qed (simp add: live_def)

lemma remap_heap_ok:
  "set h \<subseteq> {..<length table} \<Longrightarrow> remap_heap table h = Ok (map (\<lambda>i. table ! i) h)"
  by (induction h) (auto simp: vec_get_def)

lemma entries_filter: "pq_entries (filter (\<lambda>s. s \<noteq> None) ss) = pq_entries ss"
proof -
  have "pq_entries (filter (\<lambda>s. s \<noteq> None) ss) =
      map (\<lambda>i. the (filter (\<lambda>s. s \<noteq> None) ss ! i)) (map (slot_rank ss) (live ss))"
    by (simp only: pq_entries_def live_filter map_rank_live)
  also have "\<dots> = pq_entries ss"
    using slot_rank_filter [of _ ss] by (auto simp: pq_entries_def set_live)
  finally show ?thesis .
qed

lemma after_rank:
  assumes "i < length ss" "ss ! i \<noteq> None" "j < length ss" "ss ! j \<noteq> None"
  shows "after c (filter (\<lambda>s. s \<noteq> None) ss) (slot_rank ss i) (slot_rank ss j) \<longleftrightarrow> after c ss i j"
proof -
  have "slot_rank ss j \<le> slot_rank ss i \<longleftrightarrow> j \<le> i"
    using slot_rank_mono [of i j ss] slot_rank_mono [of j i ss] assms
    by (metis less_imp_le linorder_not_less nat_le_linear order_le_less)
  then show ?thesis by (simp only: after_def slot_rank_filter [OF assms(1,2)] slot_rank_filter [OF assms(3,4)])
qed

lemma compact_spec:
  assumes wf: "pq_wf q"
  shows "\<exists>q'. compact q = Ok q' \<and> pq_wf q' \<and> pq_entries (slots q') = pq_entries (slots q) \<and>
    ready q' = ready q \<and> pq_comparator q' = pq_comparator q \<and>
    (heap_from (after c (slots q)) 0 (heap q) \<longrightarrow> heap_from (after c (slots q')) 0 (heap q'))"
proof -
  let ?ss = "filter (\<lambda>s. s \<noteq> None) (slots q)"
  let ?h = "map (slot_rank (slots q)) (heap q)"
  have members: "i < length (slots q) \<and> slots q ! i \<noteq> None" if "i \<in> set (heap q)" for i
    using pq_wf_heap(2) [OF wf] that set_live by blast
  have remapped: "remap_heap (slot_remap (slots q) 0) (heap q) = Ok ?h"
    using members by (subst remap_heap_ok) (auto simp: slot_remap_nth)
  have "mset ?h = image_mset (slot_rank (slots q)) (mset (live (slots q)))"
    using wf by (simp add: pq_wf_def)
  then have "mset ?h = mset (live ?ss)"
    unfolding mset_map [symmetric] map_rank_live live_filter .
  moreover have "heap_from (after c ?ss) 0 ?h" if "heap_from (after c (slots q)) 0 (heap q)"
    unfolding heap_from_def
  proof (intro allI impI)
    fix j
    assume j: "0 < j \<and> j < length ?h \<and> 0 \<le> par j"
    then have "par j < length (heap q)" "j < length (heap q)" using par_less [of j] by auto
    then have rank: "after c ?ss (slot_rank (slots q) (heap q ! j)) (slot_rank (slots q) (heap q ! par j))
        \<longleftrightarrow> after c (slots q) (heap q ! j) (heap q ! par j)"
      using members nth_mem by (intro after_rank) blast+
    show "after c ?ss (?h ! j) (?h ! par j)"
      using that j rank \<open>par j < length (heap q)\<close> by (simp add: heap_from_def)
  qed
  moreover have "heap q = [] \<Longrightarrow> pq_entries (slots q) = []"
    using wf by (simp add: pq_wf_def pq_entries_def)
  moreover have "pq_entries [] = []" "live [] = []" by (simp_all add: pq_entries_def live_def)
  moreover have "heap_from le 0 []" for le :: "nat \<Rightarrow> nat \<Rightarrow> bool" by (simp add: heap_from_def)
  ultimately show ?thesis
    using wf remapped entries_filter [of "slots q"]
    by (cases "heap q = []"; cases "length (slots q) > min (2 * length (heap q)) (2 ^ 64 - 1)")
      (simp_all only: compact_def pq_wf_def, simp_all del: not_None_eq)
qed

section \<open>The invariant of an update\<close>

text \<open>
  \<open>update_shape\<close> holds whatever the comparator answers; \<open>update_ordered\<close> holds when its answers
  form a total order; \<open>update_content\<close> relates the entries to the entries \<open>es\<close> the update
  started from. The flag \<open>ord\<close> switches the parts that need the total order.
\<close>

definition update_shape :: "('p, 'v, 'c) update \<Rightarrow> bool" where
  "update_shape u \<longleftrightarrow>
     pq_wf (queue u) \<and>
     (case update_stage u of
        Rebuild n \<Rightarrow> operation u \<noteq> None \<and> rebuilding u = None \<and> pending u = None
      | Apply \<Rightarrow> operation u \<noteq> None \<and> rebuilding u = None \<and> pending u = None \<and> ready (queue u)
      | Up i \<Rightarrow>
          operation u = None \<and> rebuilding u = None \<and> ready (queue u) \<and> i < length (heap (queue u)) \<and>
          (pending u = None \<or> 0 < i \<and> pending u = Some (CompareUp i (par i)))
      | Down r \<Rightarrow>
          (case rebuilding u of
             None \<Rightarrow> operation u = None \<and> ready (queue u)
           | Some k \<Rightarrow> operation u \<noteq> None \<and> k \<le> r) \<and>
          (pending u = None \<or>
           pending u = Some (CompareChildren r (2 * r + 1) (2 * r + 2)) \<and>
             2 * r + 2 < length (heap (queue u)) \<or>
           (\<exists>ch. pending u = Some (CompareDown r ch) \<and> 0 < ch \<and> ch < length (heap (queue u)) \<and>
             par ch = r))
      | UpdateDone \<Rightarrow> operation u = None \<and> rebuilding u = None \<and> pending u = None \<and> ready (queue u))"

definition update_ordered :: "('p \<Rightarrow> 'p \<Rightarrow> ordering) \<Rightarrow> ('p, 'v, 'c) update \<Rightarrow> bool" where
  "update_ordered c u \<longleftrightarrow>
     (let le = after c (slots (queue u)); h = heap (queue u) in
      case update_stage u of
        Rebuild n \<Rightarrow> heap_from le n h
      | Apply \<Rightarrow> heap_from le 0 h
      | Up i \<Rightarrow> up_ok le i h
      | Down r \<Rightarrow>
          down_ok le (case rebuilding u of None \<Rightarrow> 0 | Some k \<Rightarrow> k) r h \<and>
          (\<forall>ch. pending u = Some (CompareDown r ch) \<longrightarrow> best_child le r ch h)
      | UpdateDone \<Rightarrow> heap_from le 0 h)"

text \<open>Popping from the entries \<open>es\<close>: nothing from an empty queue, otherwise one entry leaves and
  the others keep their order. With a total order it is the earliest entry of the highest
  priority.\<close>

definition pop_rel ::
  "bool \<Rightarrow> ('p \<Rightarrow> 'p \<Rightarrow> ordering) \<Rightarrow> ('p \<times> 'v) list \<Rightarrow> 'v option \<Rightarrow> ('p \<times> 'v) list \<Rightarrow> bool"
where
  "pop_rel ord c es res es' \<longleftrightarrow>
     es = [] \<and> es' = [] \<and> res = None \<or>
     (\<exists>xs p v ys. es = xs @ (p, v) # ys \<and> es' = xs @ ys \<and> res = Some v \<and>
       (ord \<longrightarrow> (\<forall>x \<in> set xs. c (fst x) p = Less) \<and> (\<forall>y \<in> set ys. c (fst y) p \<noteq> Greater)))"

definition update_content ::
  "bool \<Rightarrow> ('p \<Rightarrow> 'p \<Rightarrow> ordering) \<Rightarrow> ('p \<times> 'v) list \<Rightarrow> ('p, 'v) operation \<Rightarrow> ('p, 'v, 'c) update \<Rightarrow> bool"
where
  "update_content ord c es op u \<longleftrightarrow>
     (let es' = pq_entries (slots (queue u)) in
      case operation u of
        Some op' \<Rightarrow> op' = op \<and> popped u = None \<and> es' = es
      | None \<Rightarrow>
          (case op_entry op of
             Some e \<Rightarrow> popped u = None \<and> es' = es @ [e]
           | None \<Rightarrow> pop_rel ord c es (popped u) es'))"

definition update_inv ::
  "bool \<Rightarrow> ('p \<Rightarrow> 'p \<Rightarrow> ordering) \<Rightarrow> ('p \<times> 'v) list \<Rightarrow> ('p, 'v) operation \<Rightarrow> ('p, 'v, 'c) update \<Rightarrow> bool"
where
  "update_inv ord c es op u \<longleftrightarrow>
     update_shape u \<and> (ord \<longrightarrow> update_ordered c u) \<and> update_content ord c es op u \<and>
     was_pop u = (op_entry op = None)"

lemma slot_priority_live:
  assumes "pq_wf q" "i < length (heap q)"
  shows "slot_priority q i = Ok (fst (the (slots q ! (heap q ! i))))"
proof -
  have "heap q ! i \<in> set (live (slots q))" using assms pq_wf_heap by force
  then show ?thesis using assms by (auto simp: slot_priority_def slot_def set_live)
qed

lemma above_decides:
  assumes "i < length h" "j < length h"
  shows "\<exists>b. above h r i j = Ok b \<and>
    (r = c (fst (the (ss ! (h ! i)))) (fst (the (ss ! (h ! j)))) \<longrightarrow> b = (\<not> after c ss (h ! i) (h ! j)))"
  using assms by (auto simp: above_def after_def vec_get_def split: ordering.splits)

lemma swap_heap_ok:
  assumes "i < length (heap (queue u))" "j < length (heap (queue u))"
  shows "swap_heap u i j =
    Ok (u\<lparr>queue := (queue u)\<lparr>heap := (heap (queue u))[i := heap (queue u) ! j, j := heap (queue u) ! i]\<rparr>\<rparr>)"
  using assms by (simp add: swap_heap_def vec_swap_def vec_get_def)

lemma pq_wf_swap:
  assumes "pq_wf q" "i < length (heap q)" "j < length (heap q)"
  shows "pq_wf (q\<lparr>heap := (heap q)[i := heap q ! j, j := heap q ! i]\<rparr>)"
  using assms mset_swap [of j "heap q" i] by (simp add: pq_wf_def)

lemma finish_sift_inv:
  assumes "update_shape u" "update_stage u = Up i \<or> update_stage u = Down i" "pending w = None"
    "w = u\<lparr>pending := None\<rparr>"
    "ord \<longrightarrow> heap_from (after c (slots (queue u))) (case rebuilding u of None \<Rightarrow> 0 | Some k \<Rightarrow> k) (heap (queue u))"
    "update_content ord c es op u" "was_pop u = (op_entry op = None)"
  shows "update_inv ord c es op (finish_sift w)"
  using assms
  by (auto simp: update_inv_def update_shape_def update_ordered_def update_content_def finish_sift_def
      Let_def split: option.splits)

lemma resume_inv:
  assumes inv: "update_inv ord c es op u" and pending: "pending u = Some cmpr"
    and total: "ord \<longrightarrow> total_comparator c"
    and sides: "comparison_sides cmpr = (i, j)"
    and r: "ord \<longrightarrow> r = c (fst (the (slots (queue u) ! (heap (queue u) ! i))))
      (fst (the (slots (queue u) ! (heap (queue u) ! j))))"
  shows "\<exists>u'. apply_comparison u r = Ok u' \<and> update_inv ord c es op u'"
proof -
  let ?h = "heap (queue u)"
  let ?le = "after c (slots (queue u))"
  have shape: "update_shape u" and content: "update_content ord c es op u"
    and ordered: "ord \<longrightarrow> update_ordered c u" and kind: "was_pop u = (op_entry op = None)"
    using inv by (simp_all add: update_inv_def)
  have wf: "pq_wf (queue u)" using shape by (simp add: update_shape_def)
  have order: "ord \<longrightarrow> heap_order ?le" using total total_comparator.after_heap_order by blast
  show ?thesis
  proof (cases cmpr)
    case (CompareUp child parent)
    with shape pending sides have at: "update_stage u = Up child" "parent = par child" "0 < child"
      "child < length ?h" "par child < length ?h" "i = child" "j = parent"
      "rebuilding u = None" "operation u = None" "ready (queue u)"
      using par_less [of child] by (auto simp: update_shape_def split: update_stage.splits option.splits)
    obtain b where b: "above ?h r child parent = Ok b" "ord \<longrightarrow> b = (\<not> ?le (?h ! child) (?h ! parent))"
      using above_decides [of child ?h parent r c "slots (queue u)"] r at by auto
    have up: "ord \<longrightarrow> up_ok ?le child ?h" using ordered at by (simp add: update_ordered_def Let_def)
    show ?thesis
    proof (cases b)
      case True
      have "ord \<longrightarrow> up_ok ?le parent (?h[child := ?h ! parent, parent := ?h ! child])"
        using heap_order.up_ok_swap [of ?le child ?h] order up b(2) True at by blast
      with True b CompareUp pending at content kind pq_wf_swap [OF wf at(4,5)] show ?thesis
        by (auto simp: apply_comparison_def swap_heap_ok update_inv_def update_shape_def
            update_ordered_def update_content_def Let_def)
    next
      case False
      have "ord \<longrightarrow> heap_from ?le 0 ?h"
        using heap_order.up_ok_stop [of ?le child ?h] order up b(2) False at by blast
      then have "update_inv ord c es op (finish_sift (u\<lparr>pending := None\<rparr>))"
        using finish_sift_inv [OF shape] at content kind by simp
      with False b CompareUp pending show ?thesis by (simp add: apply_comparison_def Let_def)
    qed
  next
    case (CompareChildren root lt rt)
    with shape pending sides have at: "update_stage u = Down root" "lt = 2 * root + 1" "rt = 2 * root + 2"
      "rt < length ?h" "i = lt" "j = rt"
      by (auto simp: update_shape_def split: update_stage.splits option.splits)
    obtain b where b: "above ?h r lt rt = Ok b" "ord \<longrightarrow> b = (\<not> ?le (?h ! lt) (?h ! rt))"
      using above_decides [of lt ?h rt r c "slots (queue u)"] r at by auto
    let ?ch = "if b then lt else rt"
    have ch: "0 < ?ch" "?ch < length ?h" "par ?ch = root" using at by (auto simp: par_def)
    have best: "ord \<longrightarrow> best_child ?le root ?ch ?h"
    proof
      assume ord
      then have facts: "?le x x" "?le x y \<or> ?le y x" for x y
        using heap_order.le_refl [of ?le x] heap_order.le_total [of ?le x y] order by simp_all
      show "best_child ?le root ?ch ?h"
        unfolding best_child_def
      proof (intro allI impI)
        fix n
        assume "0 < n \<and> n < length ?h \<and> par n = root"
        then have "n = lt \<or> n = rt" using at par_iff [of n root] by auto
        then show "?le (?h ! n) (?h ! ?ch)"
          using b(2) \<open>ord\<close> facts [of "?h ! n"] facts(2) [of "?h ! lt" "?h ! rt"] by auto
      qed
    qed
    have "update_inv ord c es op (u\<lparr>update_stage := Down root, pending := Some (CompareDown root ?ch)\<rparr>)"
      using shape ordered content kind at ch best
      by (auto simp: update_inv_def update_shape_def update_ordered_def update_content_def Let_def
          split: option.splits)
    with CompareChildren pending b show ?thesis by (simp add: apply_comparison_def Let_def)
  next
    case (CompareDown root child)
    with shape pending sides have at: "update_stage u = Down root" "0 < child" "child < length ?h"
      "par child = root" "root < length ?h" "i = child" "j = root"
      using par_less [of child] by (auto simp: update_shape_def split: update_stage.splits option.splits)
    let ?k = "case rebuilding u of None \<Rightarrow> 0 | Some k \<Rightarrow> k"
    have k: "?k \<le> root" using shape at by (auto simp: update_shape_def split: option.splits)
    obtain b where b: "above ?h r child root = Ok b" "ord \<longrightarrow> b = (\<not> ?le (?h ! child) (?h ! root))"
      using above_decides [of child ?h root r c "slots (queue u)"] r at by auto
    have down: "ord \<longrightarrow> down_ok ?le ?k root ?h \<and> best_child ?le root child ?h"
      using ordered at pending CompareDown by (simp add: update_ordered_def Let_def)
    show ?thesis
    proof (cases b)
      case True
      have "ord \<longrightarrow> down_ok ?le ?k child (?h[root := ?h ! child, child := ?h ! root])"
        using heap_order.down_ok_swap [of ?le ?k root ?h child] order down b(2) True at k by blast
      moreover have "root < child" using at par_less by blast
      ultimately show ?thesis
        using True b CompareDown pending at content kind shape pq_wf_swap [OF wf at(5,3)]
        by (auto simp: apply_comparison_def swap_heap_ok update_inv_def update_shape_def
            update_ordered_def update_content_def Let_def split: option.splits)
    next
      case False
      have "ord \<longrightarrow> heap_from ?le ?k ?h"
        using heap_order.down_ok_stop [of ?le ?k root ?h child] order down b(2) False by blast
      then have "update_inv ord c es op (finish_sift (u\<lparr>pending := None\<rparr>))"
        using finish_sift_inv [OF shape] at content kind by simp
      with False b CompareDown pending show ?thesis by (simp add: apply_comparison_def Let_def)
    qed
  qed
qed

lemma swap_remove_first_down:
  assumes "heap_from le 0 h"
  shows "down_ok le 0 0 (swap_remove_first h)"
proof -
  have "le (swap_remove_first h ! j) (swap_remove_first h ! par j)"
    if "0 < j" "j < length (swap_remove_first h)" "par j \<noteq> 0" for j
    using that assms par_less [of j]
    by (simp add: swap_remove_first_nth heap_from_def)
  then show ?thesis by (simp add: down_ok_def)
qed

lemma push_up:
  assumes "heap_from le 0 h"
  shows "up_ok le (length h) (h @ [x])"
proof -
  have "par j < length h \<and> j < length h" if "0 < j" "j < Suc (length h)" "j \<noteq> length h" for j
    using that par_less [of j] by simp
  moreover have "par j \<noteq> length h" if "0 < j" "j < Suc (length h)" for j
    using that par_less [of j] by simp
  ultimately show ?thesis
    using assms by (auto simp: up_ok_def heap_from_def nth_append)
qed

lemma par_mem: "0 < j \<Longrightarrow> j < length h \<Longrightarrow> h ! j \<in> set h \<and> h ! par j \<in> set h"
  using par_less [of j] by simp

lemma heap_from_slots:
  assumes "\<And>i. i \<in> set h \<Longrightarrow> ss' ! i = ss ! i" "heap_from (after c ss) k h"
  shows "heap_from (after c ss') k h"
proof -
  have "after c ss' x y = after c ss x y" if "x \<in> set h" "y \<in> set h" for x y
    using that assms(1) by (simp add: after_def)
  with assms(2) par_mem show ?thesis unfolding heap_from_def by blast
qed

lemma down_ok_slots:
  assumes "\<And>i. i \<in> set h \<Longrightarrow> ss' ! i = ss ! i" "down_ok (after c ss) 0 0 h"
  shows "down_ok (after c ss') 0 0 h"
proof -
  have "after c ss' x y = after c ss x y" if "x \<in> set h" "y \<in> set h" for x y
    using that assms(1) by (simp add: after_def)
  with assms(2) par_mem show ?thesis unfolding down_ok_def by blast
qed

lemma pop_relI:
  assumes "es = xs @ (p, v) # ys" "es' = xs @ ys"
    "ord \<Longrightarrow> (\<forall>x \<in> set xs. c (fst x) p = Less) \<and> (\<forall>y \<in> set ys. c (fst y) p \<noteq> Greater)"
  shows "pop_rel ord c es (Some v) es'"
  using assms unfolding pop_rel_def by blast

lemma pop_removes_best:
  assumes wf: "pq_wf q" and h: "heap q = i # h"
    and best: "ord \<longrightarrow> total_comparator c \<and> heap_from (after c (slots q)) 0 (heap q)"
  shows "pop_rel ord c (pq_entries (slots q)) (map_option snd (slots q ! i)) (pq_entries ((slots q)[i := None]))"
proof -
  let ?ss = "slots q"
  have "i \<in> set (live ?ss)" using pq_wf_heap(2) [OF wf] h by auto
  then obtain xs ys where split: "live ?ss = xs @ i # ys" by (auto dest: split_list)
  obtain p v where pv: "?ss ! i = Some (p, v)"
    using \<open>i \<in> set (live ?ss)\<close> by (auto simp: set_live)
  have first: "after c ?ss j i" if ord "j \<in> set (live ?ss)" for j
  proof -
    have "j \<in> set (heap q)" using that pq_wf_heap(2) [OF wf] by simp
    then obtain n where "n < length (heap q)" "heap q ! n = j" by (auto simp: in_set_conv_nth)
    then show ?thesis
      using heap_order.heap_root_max [of "after c ?ss" "heap q" n] best that(1) h
        total_comparator.after_heap_order [of c ?ss] by auto
  qed
  have before: "j < i" if "j \<in> set xs" for j
    using that sorted_live [of ?ss] by (simp add: split sorted_wrt_append)
  have "c (fst (the (?ss ! j))) p = Less" if ord "j \<in> set xs" for j
    using first [OF that(1), of j] before [OF that(2)] that pv
    by (auto simp: after_def split split: ordering.splits)
  moreover have "c (fst (the (?ss ! j))) p \<noteq> Greater" if ord "j \<in> set ys" for j
    using first [OF that(1), of j] that pv by (auto simp: after_def split split: ordering.splits)
  moreover have "pq_entries ?ss = map (\<lambda>j. the (?ss ! j)) xs @ (p, v) # map (\<lambda>j. the (?ss ! j)) ys"
    by (simp add: pq_entries_def split pv)
  ultimately have "pop_rel ord c (pq_entries ?ss) (Some v) (pq_entries (?ss[i := None]))"
    by (intro pop_relI [OF _ entries_remove [OF split]]) auto
  with pv show ?thesis by simp
qed

lemma apply_operation_inv:
  assumes inv: "update_inv ord c es op u" and stage: "update_stage u = Apply"
    and total: "ord \<longrightarrow> total_comparator c"
  shows "\<exists>u'. operation u = Some op \<and> apply_operation (u\<lparr>operation := None\<rparr>) op = Ok u' \<and>
    update_inv ord c es op u'"
proof -
  let ?q = "queue u"
  let ?ss = "slots ?q"
  have at: "operation u = Some op" "rebuilding u = None" "pending u = None" "ready ?q" "pq_wf ?q"
    "popped u = None" "pq_entries ?ss = es" "was_pop u = (op_entry op = None)"
    and heap: "ord \<longrightarrow> heap_from (after c ?ss) 0 (heap ?q)"
    using inv stage
    by (auto simp: update_inv_def update_shape_def update_ordered_def update_content_def Let_def)
  note members = pq_wf_heap(2) [OF at(5)] set_live [of _ ?ss]
  show ?thesis
  proof (cases "op_entry op")
    case (Some e)
    let ?n = "length ?ss"
    have same: "ord \<longrightarrow> heap_from (after c (?ss @ [Some e])) 0 (heap ?q)"
      using members heap heap_from_slots [of "heap ?q" "?ss @ [Some e]" ?ss] by (auto simp: nth_append)
    have "pq_wf (?q\<lparr>heap := heap ?q @ [?n], slots := ?ss @ [Some e]\<rparr>)"
      using at(5) by (simp add: pq_wf_def live_append)
    moreover have "ord \<longrightarrow> up_ok (after c (?ss @ [Some e])) (length (heap ?q)) (heap ?q @ [?n])"
      using push_up [of "after c (?ss @ [Some e])" "heap ?q" ?n] same by blast
    ultimately show ?thesis
      using Some at
      by (simp add: apply_operation_def update_inv_def update_shape_def update_ordered_def
          update_content_def Let_def entries_append)
  next
    case None
    show ?thesis
    proof (cases "heap ?q")
      case Nil
      then have "es = []" using at(5,7) by (simp add: pq_wf_def pq_entries_def)
      with Nil None at show ?thesis
        by (simp add: apply_operation_def update_inv_def update_shape_def update_ordered_def
            update_content_def pop_rel_def Let_def down_ok_def)
    next
      case (Cons i h)
      let ?ss' = "?ss[i := None]"
      have i: "i < length ?ss" using members Cons by auto
      have rest: "mset (swap_remove_first (heap ?q)) = mset h"
        using Cons mset_swap_remove_first [of "heap ?q"] by simp
      have distinct: "distinct (i # h)" using pq_wf_heap(1) [OF at(5)] Cons by simp
      have "mset (live ?ss') = filter_mset (\<lambda>j. j \<noteq> i) (mset (heap ?q))"
        using at(5) by (simp add: live_remove pq_wf_def)
      also have "\<dots> = mset (filter (\<lambda>j. j \<noteq> i) h)" using Cons by simp
      also have "filter (\<lambda>j. j \<noteq> i) h = h" using distinct by (auto simp: filter_id_conv)
      finally have "mset (live ?ss') = mset h" .
      then have wf: "pq_wf (?q\<lparr>heap := swap_remove_first (heap ?q), slots := ?ss'\<rparr>)"
        using rest by (simp add: pq_wf_def)
      have "i \<notin> set (swap_remove_first (heap ?q))"
        using distinct mset_eq_setD [OF rest] by simp
      then have same: "?ss' ! j = ?ss ! j" if "j \<in> set (swap_remove_first (heap ?q))" for j
        using that by (metis nth_list_update_neq)
      have "pop_rel ord c es (map_option snd (?ss ! i)) (pq_entries ?ss')"
        using pop_removes_best [OF at(5) Cons, of ord c] heap total at(7) by simp
      moreover have "ord \<longrightarrow> down_ok (after c ?ss') 0 0 (swap_remove_first (heap ?q))"
        using down_ok_slots [OF same] swap_remove_first_down heap by blast
      ultimately show ?thesis
        using None at Cons i wf
        by (simp add: apply_operation_def update_inv_def update_shape_def update_ordered_def
            update_content_def Let_def vec_get_def)
    qed
  qed
qed

lemma update_inv_start:
  assumes "pq_wf q" "ord \<longrightarrow> ready q \<longrightarrow> heap_from (after c (slots q)) 0 (heap q)"
  shows "update_inv ord c (pq_entries (slots q)) op (update_new q op)"
  using assms heap_from_leaves [of "heap q" "pq_len q div 2"]
  by (auto simp: update_inv_def update_shape_def update_ordered_def update_content_def update_new_def
      pq_len_def Let_def)

lemma stage_step_inv:
  assumes inv: "update_inv ord c es op u" and total: "ord \<longrightarrow> total_comparator c"
    and idle: "pending u = None"
  shows "\<exists>st u'. update_stage_step u = (Ok st, u') \<and> update_inv ord c es op u' \<and>
    (st = UpdateCompare \<longleftrightarrow> pending u' \<noteq> None) \<and> (st = UpdateComplete \<longrightarrow> update_stage u' = UpdateDone)"
proof (cases "update_stage u")
  case (Rebuild n)
  with inv idle show ?thesis
    by (cases n) (auto simp: update_stage_step_def update_inv_def update_shape_def update_ordered_def
        update_content_def pq_wf_def Let_def intro: down_ok_start)
next
  case Apply
  then obtain u' where "operation u = Some op" "apply_operation (u\<lparr>operation := None\<rparr>) op = Ok u'"
    "update_inv ord c es op u'"
    using apply_operation_inv [OF inv _ total] by blast
  moreover have "pending u' = None" using apply_operation_shape [OF calculation(2)] idle by simp
  ultimately show ?thesis using Apply by (simp add: update_stage_step_def)
next
  case (Up i)
  show ?thesis
  proof (cases "i = 0")
    case True
    have "update_inv ord c es op (finish_sift u)"
      using inv Up True idle by (intro finish_sift_inv [where u = u and i = i])
        (auto simp: update_inv_def update_shape_def update_ordered_def Let_def intro: up_ok_root)
    with Up True idle show ?thesis by (simp add: update_stage_step_def finish_sift_def)
  next
    case False
    with inv Up idle show ?thesis
      by (auto simp: update_stage_step_def request_def update_inv_def update_shape_def
          update_ordered_def update_content_def par_def Let_def)
  qed
next
  case (Down r)
  let ?h = "heap (queue u)"
  have down: "ord \<longrightarrow> down_ok (after c (slots (queue u))) (case rebuilding u of None \<Rightarrow> 0 | Some k \<Rightarrow> k) r ?h"
    using inv Down by (simp add: update_inv_def update_ordered_def Let_def)
  consider "length ?h \<le> 2 * r + 1" | "length ?h = 2 * r + 2" | "2 * r + 2 < length ?h" by linarith
  then show ?thesis
  proof cases
    case 1
    have "update_inv ord c es op (finish_sift u)"
      using inv Down 1 idle down down_ok_leaf by (intro finish_sift_inv [where u = u and i = r])
        (auto simp: update_inv_def)
    with Down 1 idle show ?thesis by (simp add: update_stage_step_def finish_sift_def pq_len_def Let_def)
  next
    case 2
    have only: "best_child (after c (slots (queue u))) r (2 * r + 1) ?h" if ord
    proof -
      have "heap_order (after c (slots (queue u)))"
        using that total total_comparator.after_heap_order by blast
      then have "after c (slots (queue u)) x x" for x by (rule heap_order.le_refl)
      moreover have "j = 2 * r + 1" if "0 < j \<and> j < length ?h \<and> par j = r" for j
        using that par_iff [of j r] 2 by auto
      ultimately show ?thesis unfolding best_child_def by metis
    qed
    have child: "0 < 2 * r + 1" "par (2 * r + 1) = r" by (simp_all add: par_def)
    have "update_inv ord c es op (u\<lparr>pending := Some (CompareDown r (2 * r + 1))\<rparr>)"
      using inv Down 2 only child
      by (auto simp: update_inv_def update_shape_def update_ordered_def update_content_def Let_def
          split: option.splits)
    with Down 2 show ?thesis
      by (simp add: update_stage_step_def request_def pq_len_def Let_def mult.commute)
  next
    case 3
    have "update_inv ord c es op (u\<lparr>pending := Some (CompareChildren r (2 * r + 1) (2 * r + 2))\<rparr>)"
      using inv Down 3
      by (auto simp: update_inv_def update_shape_def update_ordered_def update_content_def Let_def
          split: option.splits)
    with Down 3 show ?thesis
      by (simp add: update_stage_step_def request_def pq_len_def Let_def mult.commute)
  qed
next
  case UpdateDone
  have wf: "pq_wf (queue u)" using inv by (simp add: update_inv_def update_shape_def)
  obtain q' where "compact (queue u) = Ok q'" "pq_wf q'"
    "pq_entries (slots q') = pq_entries (slots (queue u))" "ready q' = ready (queue u)"
    "heap_from (after c (slots (queue u))) 0 (heap (queue u)) \<longrightarrow> heap_from (after c (slots q')) 0 (heap q')"
    using compact_spec [OF wf, of c] by blast
  with inv UpdateDone show ?thesis
    by (auto simp: update_stage_step_def update_inv_def update_shape_def update_ordered_def
        update_content_def Let_def split: option.splits)
qed

text \<open>Every run of the update from a state of the invariant completes, in a state of the
  invariant: \<open>answered\<close> says that a comparison result is supplied exactly when one is pending.\<close>

lemma pending_sides:
  assumes "update_shape u" "pending u = Some cmpr" "comparison_sides cmpr = (i, j)"
  shows "i < length (heap (queue u))" "j < length (heap (queue u))"
  using assms par_less [of i]
  by (auto simp: update_shape_def split: update_stage.splits option.splits)

lemma pending_comparison:
  assumes "update_shape u" "pending u = Some cmpr" "comparison_sides cmpr = (i, j)"
  shows "update_comparison u = Ok (pq_comparator (queue u),
    fst (the (slots (queue u) ! (heap (queue u) ! i))), fst (the (slots (queue u) ! (heap (queue u) ! j))))"
  using assms pending_sides [OF assms]
  by (simp add: update_comparison_def slot_priority_live update_shape_def)

definition answered ::
  "('c option \<Rightarrow> 'p \<Rightarrow> 'p \<Rightarrow> fault + ordering) \<Rightarrow> ('p, 'v, 'c) update \<Rightarrow> ordering option \<Rightarrow> bool"
where
  "answered cf u order =
     (case order of
        None \<Rightarrow> pending u = None
      | Some r \<Rightarrow> pending u \<noteq> None \<and>
          (\<exists>t a b. update_comparison u = Ok (t, a, b) \<and> cf t a b = Ok r))"

lemma advance_inv:
  assumes inv: "update_inv ord c es op u" and total: "ord \<longrightarrow> total_comparator c"
    and cf: "\<forall>t a b r. ord \<longrightarrow> cf t a b = Ok r \<longrightarrow> r = c a b"
    and answered: "answered cf u order"
  shows "\<exists>st u'. update_advance u order = (Ok st, u') \<and> update_inv ord c es op u' \<and>
    (st = UpdateCompare \<longleftrightarrow> pending u' \<noteq> None) \<and> (st = UpdateComplete \<longrightarrow> update_stage u' = UpdateDone)"
proof (cases order)
  case None
  then show ?thesis
    using stage_step_inv [OF inv total] answered by (simp add: update_advance_def answered_def)
next
  case (Some r)
  have shape: "update_shape u" using inv by (simp add: update_inv_def)
  obtain cmpr where pending: "pending u = Some cmpr" using answered Some by (auto simp: answered_def)
  obtain i j where sides: "comparison_sides cmpr = (i, j)" by fastforce
  have "ord \<longrightarrow> r = c (fst (the (slots (queue u) ! (heap (queue u) ! i))))
      (fst (the (slots (queue u) ! (heap (queue u) ! j))))"
    using pending_comparison [OF shape pending sides] answered Some cf by (auto simp: answered_def)
  from resume_inv [OF inv pending total sides this]
  obtain u' where u': "apply_comparison u r = Ok u'" "update_inv ord c es op u'" by blast
  have "update_inv ord c es op (u'\<lparr>pending := Some w\<rparr>)" if "pending u' = Some w" for w
  proof -
    have same: "u'\<lparr>pending := Some w\<rparr> = u'" using that by (cases u') simp
    show ?thesis unfolding same by (rule u'(2))
  qed
  with u' show ?thesis
    using Some by (cases "pending u'") (simp_all add: update_advance_def request_def)
qed

lemma run_update_inv:
  assumes "update_inv ord c es op u" "ord \<longrightarrow> total_comparator c"
    "\<forall>t a b. \<exists>r. cf t a b = Ok r" "\<forall>t a b r. ord \<longrightarrow> cf t a b = Ok r \<longrightarrow> r = c a b"
    "answered cf u order"
  shows "\<exists>u'. run_update cf u order = Ok u' \<and> update_inv ord c es op u' \<and> update_stage u' = UpdateDone"
  using assms
proof (induction cf u order rule: run_update.induct)
  case (1 cf u order)
  obtain st u' where step: "update_advance u order = (Ok st, u')" "update_inv ord c es op u'"
    "st = UpdateCompare \<longleftrightarrow> pending u' \<noteq> None" "st = UpdateComplete \<longrightarrow> update_stage u' = UpdateDone"
    using advance_inv [OF 1(3,4,6,7)] by blast
  show ?case
  proof (cases st)
    case UpdateContinue
    then have "answered cf u' None" using step by (simp add: answered_def)
    then have "\<exists>w. run_update cf u' None = Ok w \<and> update_inv ord c es op w \<and> update_stage w = UpdateDone"
      using UpdateContinue step 1(4-6) by (intro 1(1) [of "Ok st" u' st]) simp_all
    with UpdateContinue step show ?thesis by (subst run_update.simps) simp
  next
    case UpdateComplete
    with step show ?thesis by (subst run_update.simps) simp
  next
    case UpdateCompare
    then obtain cmpr where pending: "pending u' = Some cmpr" using step by auto
    obtain i j where sides: "comparison_sides cmpr = (i, j)" by fastforce
    have shape: "update_shape u'" using step by (simp add: update_inv_def)
    obtain t a b where ask: "update_comparison u' = Ok (t, a, b)"
      using pending_comparison [OF shape pending sides] by blast
    obtain r where r: "cf t a b = Ok r" using 1(5) by blast
    have "answered cf u' (Some r)" using ask r pending by (simp add: answered_def)
    then have "\<exists>w. run_update cf u' (Some r) = Ok w \<and> update_inv ord c es op w \<and> update_stage w = UpdateDone"
      using UpdateCompare step ask r 1(4-6) by (intro 1(2) [of "Ok st" u' st "(t, a, b)" t "(a, b)" a b r]) simp_all
    with UpdateCompare step ask r show ?thesis by (subst run_update.simps) simp
  qed
qed

lemma pq_update_inv:
  assumes "pq_wf q" "ord \<longrightarrow> total_comparator c"
    "ord \<longrightarrow> ready q \<longrightarrow> heap_from (after c (slots q)) 0 (heap q)"
    "\<forall>t a b. \<exists>r. cf t a b = Ok r" "\<forall>t a b r. ord \<longrightarrow> cf t a b = Ok r \<longrightarrow> r = c a b"
  shows "\<exists>u. pq_update cf q op = Ok (queue u, popped u, op_entry op = None) \<and>
    update_inv ord c (pq_entries (slots q)) op u \<and> update_stage u = UpdateDone"
proof -
  have "answered cf (update_new q op) None" by (simp add: answered_def update_new_def)
  from run_update_inv [OF update_inv_start [OF assms(1,3)] assms(2,4,5) this]
  obtain u where u: "run_update cf (update_new q op) None = Ok u"
    "update_inv ord c (pq_entries (slots q)) op u" "update_stage u = UpdateDone" by blast
  then have "update_finish u = Ok (queue u, popped u, op_entry op = None)"
    by (simp add: update_finish_def update_inv_def update_shape_def)
  with u show ?thesis by (auto simp: pq_update_def)
qed

section \<open>What the priority queue promises\<close>

text \<open>The state invariant of a queue whose comparator answers as \<open>c\<close> does.\<close>

definition pq_inv :: "('p \<Rightarrow> 'p \<Rightarrow> ordering) \<Rightarrow> ('p, 'v, 'c) pq_storage \<Rightarrow> bool" where
  "pq_inv c q \<longleftrightarrow> pq_wf q \<and> (ready q \<longrightarrow> heap_from (after c (slots q)) 0 (heap q))"

lemma pq_inv_from_entries: "pq_inv c (from_entries es t)" "pq_entries (slots (from_entries es t)) = es"
proof -
  have "live (map Some es) = [0..<length es]" by (auto simp: live_def filter_id_conv)
  then show "pq_inv c (from_entries es t)" "pq_entries (slots (from_entries es t)) = es"
    by (auto simp: pq_inv_def pq_wf_def from_entries_def Let_def pq_entries_def heap_from_def
        intro: nth_equalityI)
qed

text \<open>\<^bold>\<open>C25\<close>. Robustness against the comparator. Whatever answers the comparator gives, even
  inconsistent ones, an update of a well-formed queue runs to completion without an error or a
  panic: a push appends its entry to the contents, a pop of a nonempty queue removes exactly
  one entry, keeps the order of the others and returns its value, a pop of an empty queue
  returns nothing, and the heap of the result is again a permutation of its live slots.\<close>

theorem update_completes_for_any_comparator:
  assumes "pq_wf q" "\<forall>t a b. \<exists>r. cf t a b = Ok r"
  shows "\<exists>q' res. pq_update cf q op = Ok (q', res, op_entry op = None) \<and> pq_wf q' \<and> ready q' \<and>
    (case op_entry op of
       Some e \<Rightarrow> res = None \<and> pq_entries (slots q') = pq_entries (slots q) @ [e]
     | None \<Rightarrow>
         if pq_entries (slots q) = [] then res = None \<and> pq_entries (slots q') = []
         else \<exists>xs p v ys. pq_entries (slots q) = xs @ (p, v) # ys \<and> res = Some v \<and>
           pq_entries (slots q') = xs @ ys)"
proof -
  from pq_update_inv [of q False "\<lambda>_ _. Equal" cf op] assms
  obtain u where "pq_update cf q op = Ok (queue u, popped u, op_entry op = None)"
    "update_inv False (\<lambda>_ _. Equal) (pq_entries (slots q)) op u" "update_stage u = UpdateDone" by auto
  then show ?thesis
    by (auto simp: update_inv_def update_shape_def update_content_def pop_rel_def Let_def split: option.splits)
qed

lemma update_completes_for_any_comparator_witness:
  "\<exists>q' res. pq_update (\<lambda>_ a b. Ok (if a = b then Less else Greater))
       (from_entries [(1::nat, ''a''), (2, ''b''), (1, ''c'')] (None :: unit option)) op_pop = Ok (q', res, True) \<and>
     pq_wf q' \<and> ready q' \<and>
     (\<exists>xs p v ys. [(1, ''a''), (2, ''b''), (1, ''c'')] = xs @ (p, v) # ys \<and> res = Some v \<and>
        pq_entries (slots q') = xs @ ys)"
  using update_completes_for_any_comparator
      [of "from_entries [(1::nat, ''a''), (2, ''b''), (1, ''c'')] (None :: unit option)"
        "\<lambda>_ a b. Ok (if a = b then Less else Greater)" op_pop]
    pq_inv_from_entries(1) [of "\<lambda>_ _. Equal" "[(1::nat, ''a''), (2, ''b''), (1, ''c'')]" "None :: unit option"]
  by (simp add: pq_inv_def op_pop_def pq_inv_from_entries(2))

text \<open>Push. With a comparator that answers as a total order, a push completes, appends
  the entry behind all older ones and keeps the queue's invariant: the heap holds exactly the
  live slots, and no slot stands below one it must leave before.\<close>

theorem push_appends:
  assumes "total_comparator c" "pq_inv c q"
  shows "\<exists>q'. pq_update (\<lambda>_ a b. Ok (c a b)) q (op_push p v) = Ok (q', None, False) \<and> pq_inv c q' \<and>
    pq_entries (slots q') = pq_entries (slots q) @ [(p, v)] \<and> pq_len q' = pq_len q + 1"
proof -
  from pq_update_inv [of q True c "\<lambda>_ a b. Ok (c a b)" "op_push p v"] assms
  obtain u where u: "pq_update (\<lambda>_ a b. Ok (c a b)) q (op_push p v) = Ok (queue u, popped u, False)"
    "update_inv True c (pq_entries (slots q)) (op_push p v) u" "update_stage u = UpdateDone"
    by (auto simp: pq_inv_def op_push_def)
  then have new: "pq_inv c (queue u)" "popped u = None"
    "pq_entries (slots (queue u)) = pq_entries (slots q) @ [(p, v)]"
    by (auto simp: update_inv_def update_shape_def update_ordered_def update_content_def op_push_def
        pq_inv_def Let_def)
  have "pq_len w = length (pq_entries (slots w))" if "pq_wf w" for w :: "('a, 'b, 'c) pq_storage"
    using pq_wf_heap(3) [OF that] by (simp add: pq_len_def pq_entries_def)
  with new u(1) assms(2) show ?thesis by (simp add: pq_inv_def)
qed

lemma push_appends_witness:
  "\<exists>q'. pq_update (\<lambda>_ a b. Ok (cmp a b)) (from_entries [(1::nat, ''a'')] (None :: unit option)) (op_push 2 ''b'') =
       Ok (q', None, False) \<and> pq_inv cmp q' \<and>
     pq_entries (slots q') = [(1, ''a''), (2, ''b'')]"
  using push_appends [OF linorder_cmp.total_comparator_axioms
      pq_inv_from_entries(1) [of cmp "[(1::nat, ''a'')]" "None :: unit option"], of 2 "''b''"]
  by (auto simp: pq_inv_from_entries(2))

text \<open>\<^bold>\<open>C10\<close>. Pop. With a comparator that answers as a total order, a pop of a nonempty queue
  removes the earliest inserted entry of the highest priority: every entry inserted before it
  has a strictly lower priority and no entry inserted after it has a higher one. The others
  stay in insertion order and the invariant is kept.\<close>

theorem pop_takes_first_highest:
  assumes "total_comparator c" "pq_inv c q"
  shows "\<exists>q' res. pq_update (\<lambda>_ a b. Ok (c a b)) q op_pop = Ok (q', res, True) \<and> pq_inv c q' \<and>
    (if pq_entries (slots q) = [] then res = None \<and> pq_entries (slots q') = []
     else \<exists>xs p v ys. pq_entries (slots q) = xs @ (p, v) # ys \<and> pq_entries (slots q') = xs @ ys \<and>
       res = Some v \<and> (\<forall>x \<in> set xs. c (fst x) p = Less) \<and> (\<forall>y \<in> set ys. c (fst y) p \<noteq> Greater))"
proof -
  from pq_update_inv [of q True c "\<lambda>_ a b. Ok (c a b)" op_pop] assms
  obtain u where u: "pq_update (\<lambda>_ a b. Ok (c a b)) q op_pop = Ok (queue u, popped u, True)"
    "update_inv True c (pq_entries (slots q)) op_pop u" "update_stage u = UpdateDone"
    by (auto simp: pq_inv_def op_pop_def)
  then have "pq_inv c (queue u)" "pop_rel True c (pq_entries (slots q)) (popped u) (pq_entries (slots (queue u)))"
    by (auto simp: update_inv_def update_shape_def update_ordered_def update_content_def op_pop_def
        pq_inv_def Let_def)
  with u(1) show ?thesis by (auto simp: pop_rel_def)
qed

lemma pop_takes_first_highest_witness:
  "\<exists>q' res. pq_update (\<lambda>_ a b. Ok (cmp a b))
       (from_entries [(1::nat, ''a''), (2, ''b''), (2, ''c'')] (None :: unit option)) op_pop = Ok (q', res, True) \<and>
     pq_inv cmp q' \<and>
     (\<exists>xs p v ys. [(1, ''a''), (2, ''b''), (2, ''c'')] = xs @ (p, v) # ys \<and>
        pq_entries (slots q') = xs @ ys \<and> res = Some v \<and>
        (\<forall>x \<in> set xs. cmp (fst x) p = Less) \<and> (\<forall>y \<in> set ys. cmp (fst y) p \<noteq> Greater))"
  using pop_takes_first_highest [OF linorder_cmp.total_comparator_axioms
      pq_inv_from_entries(1) [of cmp "[(1::nat, ''a''), (2, ''b''), (2, ''c'')]" "None :: unit option"]]
  by (simp add: pq_inv_from_entries(2))

text \<open>Collecting the borrowing iterator: \<open>fuel\<close> counts the calls of \<open>next\<close>.\<close>

fun pq_iter_collect :: "nat \<Rightarrow> ('p, 'v) pq_iter \<Rightarrow> fault + ('p \<times> 'v) list" where
  "pq_iter_collect 0 it = Ok []"
| "pq_iter_collect (Suc fuel) it =
     (case pq_iter_step it of
        (Inl e, _) \<Rightarrow> Err e
      | (Inr None, _) \<Rightarrow> Ok []
      | (Inr (Some x), it') \<Rightarrow> rmap ((#) x) (pq_iter_collect fuel it'))"

lemma find_slot_filter:
  "filter (\<lambda>s. s \<noteq> None) ss =
     (case find_slot ss of (None, _) \<Rightarrow> [] | (Some x, rest) \<Rightarrow> Some x # filter (\<lambda>s. s \<noteq> None) rest)"
  by (induction ss rule: find_slot.induct) (auto split: prod.splits option.splits)

lemma pq_entries_filter: "pq_entries ss = map the (filter (\<lambda>s. s \<noteq> None) ss)"
proof -
  have "pq_entries (filter (\<lambda>s. s \<noteq> None) ss) = map the (filter (\<lambda>s. s \<noteq> None) ss)"
    unfolding pq_entries_def live_filter by (metis (no_types) map_nth map_map comp_def map_eq_conv)
  then show ?thesis by (simp only: entries_filter)
qed

lemma pq_iter_collect_enough:
  assumes "remaining it = length (filter (\<lambda>s. s \<noteq> None) (iter_slots it))" "remaining it < fuel"
  shows "pq_iter_collect fuel it = Ok (map the (filter (\<lambda>s. s \<noteq> None) (iter_slots it)))"
  using assms
proof (induction fuel arbitrary: it)
  case (Suc fuel)
  obtain x rest where found: "find_slot (iter_slots it) = (x, rest)" by fastforce
  show ?case
  proof (cases x)
    case None
    with Suc.prems found find_slot_filter [of "iter_slots it"] show ?thesis by (simp add: pq_iter_step_def)
  next
    case (Some e)
    let ?it = "it\<lparr>iter_slots := rest, remaining := remaining it - 1\<rparr>"
    have "filter (\<lambda>s. s \<noteq> None) (iter_slots it) = Some e # filter (\<lambda>s. s \<noteq> None) rest"
      using find_slot_filter [of "iter_slots it"] found Some by simp
    with Suc.IH [of ?it] Suc.prems found Some show ?thesis
      by (simp add: pq_iter_step_def del: not_None_eq)
  qed
qed simp

text \<open>Iteration. On a well-formed queue the borrowing iterator yields exactly the live
  entries in insertion order and its \<open>remaining\<close> counter never underflows.\<close>

theorem iter_yields_entries:
  assumes "pq_wf q"
  shows "pq_iter_collect (pq_len q + 1) (pq_iter_new q) = Ok (pq_entries (slots q))"
proof -
  have "pq_len q = length (filter (\<lambda>s. s \<noteq> None) (slots q))"
    using pq_wf_heap(3) [OF assms] map_rank_live [of "slots q"]
    by (metis length_map length_upt minus_nat.diff_0 pq_len_def)
  then show ?thesis
    using pq_iter_collect_enough [of "pq_iter_new q" "pq_len q + 1"]
    by (simp add: pq_iter_new_def pq_entries_filter del: not_None_eq)
qed

lemma iter_yields_entries_witness:
  "pq_iter_collect 3 (pq_iter_new \<lparr>slots = [None, Some (1::nat, ''a''), None, Some (2, ''b'')], heap = [3, 1],
      pq_comparator = (None :: unit option), ready = True\<rparr>) = Ok [(1, ''a''), (2, ''b'')]"
  using iter_yields_entries [of "\<lparr>slots = [None, Some (1::nat, ''a''), None, Some (2, ''b'')], heap = [3, 1],
      pq_comparator = (None :: unit option), ready = True\<rparr>"]
  by (simp add: pq_wf_def live_def pq_len_def pq_entries_filter upt_rec numeral_eq_Suc)

end
