(* ===== verification/Membership.thy ===== *)
theory Membership
  imports Prelude
begin

text \<open>
  The index behind the hashed collections, \<open>value/membership.rs\<close>, and the sets and maps that keep one,
  \<open>value/set.rs\<close> and \<open>value/map.rs\<close>. An index maps the fingerprint of a member to its positions and is
  never evidence of equality: a candidate is always compared.

  The members are a type parameter. \<open>eq\<close> is their equality and \<open>hash seed\<close> their fingerprint under
  the hasher of an index; every new index gets a hasher of its own, here a seed. What the code relies
  on is the contract \<open>membership\<close>: equal members have equal fingerprints. \<open>Value_Membership\<close> shows that
  the runtime values meet it.
\<close>

section \<open>The index\<close>

record bucket =
  bu_first :: nat
  bu_collisions :: "nat list"

record membership_index =
  mi_seed :: nat
  mi_buckets :: "nat \<rightharpoonup> bucket"

definition index_new :: "nat \<Rightarrow> membership_index" where
  "index_new seed = \<lparr>mi_seed = seed, mi_buckets = Map.empty\<rparr>"

definition fingerprint :: "(nat \<Rightarrow> 'v \<Rightarrow> nat) \<Rightarrow> membership_index \<Rightarrow> 'v \<Rightarrow> nat" where
  "fingerprint hash self v = hash (mi_seed self) v"

definition candidates :: "bucket \<Rightarrow> nat list" where
  "candidates b = bu_first b # bu_collisions b"

definition index_position :: "membership_index \<Rightarrow> nat \<Rightarrow> (nat \<Rightarrow> bool) \<Rightarrow> nat option" where
  "index_position self h matches = (case mi_buckets self h of None \<Rightarrow> None | Some b \<Rightarrow> find matches (candidates b))"

definition index_candidate :: "membership_index \<Rightarrow> nat \<Rightarrow> nat \<Rightarrow> nat option" where
  "index_candidate self h offset =
     (case mi_buckets self h of
        None \<Rightarrow> None
      | Some b \<Rightarrow>
          if offset = 0 then Some (bu_first b)
          else if offset - 1 < length (bu_collisions b) then Some (bu_collisions b ! (offset - 1))
          else None)"

definition index_contains :: "('v \<Rightarrow> 'v \<Rightarrow> bool) \<Rightarrow> membership_index \<Rightarrow> 'v list \<Rightarrow> 'v \<Rightarrow> nat \<Rightarrow> bool" where
  "index_contains eq self vals v h \<longleftrightarrow> index_position self h (\<lambda>i. eq (vals ! i) v) \<noteq> None"

definition index_insert :: "membership_index \<Rightarrow> nat \<Rightarrow> nat \<Rightarrow> membership_index" where
  "index_insert self h i =
     self\<lparr>mi_buckets := (mi_buckets self)(h \<mapsto>
       (case mi_buckets self h of
          None \<Rightarrow> \<lparr>bu_first = i, bu_collisions = []\<rparr>
        | Some b \<Rightarrow> b\<lparr>bu_collisions := bu_collisions b @ [i]\<rparr>))\<rparr>"

fun require_unique_loop ::
  "('v \<Rightarrow> 'v \<Rightarrow> bool) \<Rightarrow> (nat \<Rightarrow> 'v \<Rightarrow> nat) \<Rightarrow> 'v list \<Rightarrow> (nat \<times> 'v) list \<Rightarrow> membership_index \<Rightarrow> nat + membership_index"
where
  "require_unique_loop eq hash vals [] index = Ok index"
| "require_unique_loop eq hash vals ((position, v) # rest) index =
     (let h = fingerprint hash index v in
      if index_contains eq index vals v h then Err position
      else require_unique_loop eq hash vals rest (index_insert index h position))"

text \<open>The error of \<open>require_unique\<close> is the position its message names.\<close>

definition require_unique :: "('v \<Rightarrow> 'v \<Rightarrow> bool) \<Rightarrow> (nat \<Rightarrow> 'v \<Rightarrow> nat) \<Rightarrow> nat \<Rightarrow> 'v list \<Rightarrow> nat + membership_index" where
  "require_unique eq hash seed vals = require_unique_loop eq hash vals (List.enumerate 0 vals) (index_new seed)"

section \<open>Sets\<close>

record 'v set_storage =
  se_values :: "'v list"
  se_index :: membership_index

definition vec_swap_at :: "'v list \<Rightarrow> nat \<Rightarrow> nat \<Rightarrow> 'v list" where
  "vec_swap_at vals i j = vals[i := vals ! j, j := vals ! i]"

fun set_new_loop ::
  "('v \<Rightarrow> 'v \<Rightarrow> bool) \<Rightarrow> (nat \<Rightarrow> 'v \<Rightarrow> nat) \<Rightarrow> nat list \<Rightarrow> 'v list \<times> membership_index \<times> nat \<Rightarrow> 'v list \<times> membership_index \<times> nat"
where
  "set_new_loop eq hash [] s = s"
| "set_new_loop eq hash (position # rest) (vals, index, retained) =
     (let h = fingerprint hash index (vals ! position) in
      if index_contains eq index vals (vals ! position) h then set_new_loop eq hash rest (vals, index, retained)
      else set_new_loop eq hash rest (vec_swap_at vals retained position, index_insert index h retained, retained + 1))"

definition set_new :: "('v \<Rightarrow> 'v \<Rightarrow> bool) \<Rightarrow> (nat \<Rightarrow> 'v \<Rightarrow> nat) \<Rightarrow> nat \<Rightarrow> 'v list \<Rightarrow> 'v set_storage" where
  "set_new eq hash seed vals =
     (case set_new_loop eq hash [0..<length vals] (vals, index_new seed, 0) of
        (vals, index, retained) \<Rightarrow> \<lparr>se_values = take retained vals, se_index = index\<rparr>)"

definition from_unique :: "('v \<Rightarrow> 'v \<Rightarrow> bool) \<Rightarrow> (nat \<Rightarrow> 'v \<Rightarrow> nat) \<Rightarrow> nat \<Rightarrow> 'v list \<Rightarrow> nat + 'v set_storage" where
  "from_unique eq hash seed vals =
     rbind (require_unique eq hash seed vals) (\<lambda>index. Ok \<lparr>se_values = vals, se_index = index\<rparr>)"

definition set_contains :: "('v \<Rightarrow> 'v \<Rightarrow> bool) \<Rightarrow> (nat \<Rightarrow> 'v \<Rightarrow> nat) \<Rightarrow> 'v set_storage \<Rightarrow> 'v \<Rightarrow> bool" where
  "set_contains eq hash self v = index_contains eq (se_index self) (se_values self) v (fingerprint hash (se_index self) v)"

definition set_insert :: "('v \<Rightarrow> 'v \<Rightarrow> bool) \<Rightarrow> (nat \<Rightarrow> 'v \<Rightarrow> nat) \<Rightarrow> 'v set_storage \<Rightarrow> 'v \<Rightarrow> bool \<times> 'v set_storage" where
  "set_insert eq hash self v =
     (let h = fingerprint hash (se_index self) v in
      if index_contains eq (se_index self) (se_values self) v h then (False, self)
      else (True, \<lparr>se_values = se_values self @ [v], se_index = index_insert (se_index self) h (length (se_values self))\<rparr>))"

definition set_clear :: "nat \<Rightarrow> 'v set_storage \<Rightarrow> 'v set_storage" where
  "set_clear seed self = \<lparr>se_values = [], se_index = index_new seed\<rparr>"

section \<open>Maps\<close>

text \<open>The index of a map is built when it is first asked for (\<open>seed\<close> is the hasher it gets then). A
  reference that is shared is copied before it is written, so a map is its entries and its index.\<close>

record ('k, 'v) map_storage =
  ma_entries :: "('k \<times> 'v) list"
  ma_index :: "membership_index option"

definition map_new :: "('k \<times> 'v) list \<Rightarrow> ('k, 'v) map_storage" where
  "map_new entries = \<lparr>ma_entries = entries, ma_index = None\<rparr>"

fun map_index_loop :: "(nat \<Rightarrow> 'k \<Rightarrow> nat) \<Rightarrow> (nat \<times> 'k \<times> 'v) list \<Rightarrow> membership_index \<Rightarrow> membership_index" where
  "map_index_loop hash [] index = index"
| "map_index_loop hash ((position, k, _) # rest) index =
     map_index_loop hash rest (index_insert index (fingerprint hash index k) position)"

definition map_index :: "(nat \<Rightarrow> 'k \<Rightarrow> nat) \<Rightarrow> nat \<Rightarrow> ('k, 'v) map_storage \<Rightarrow> membership_index \<times> ('k, 'v) map_storage" where
  "map_index hash seed self =
     (case ma_index self of
        Some index \<Rightarrow> (index, self)
      | None \<Rightarrow>
          let index = map_index_loop hash (List.enumerate 0 (ma_entries self)) (index_new seed) in
          (index, self\<lparr>ma_index := Some index\<rparr>))"

definition map_position ::
  "('k \<Rightarrow> 'k \<Rightarrow> bool) \<Rightarrow> (nat \<Rightarrow> 'k \<Rightarrow> nat) \<Rightarrow> nat \<Rightarrow> ('k, 'v) map_storage \<Rightarrow> 'k \<Rightarrow> nat option \<times> ('k, 'v) map_storage"
where
  "map_position eq hash seed self k =
     (case map_index hash seed self of
        (index, self) \<Rightarrow> (index_position index (fingerprint hash index k) (\<lambda>i. eq (fst (ma_entries self ! i)) k), self))"

definition map_get ::
  "('k \<Rightarrow> 'k \<Rightarrow> bool) \<Rightarrow> (nat \<Rightarrow> 'k \<Rightarrow> nat) \<Rightarrow> nat \<Rightarrow> ('k, 'v) map_storage \<Rightarrow> 'k \<Rightarrow> 'v option \<times> ('k, 'v) map_storage"
where
  "map_get eq hash seed self k =
     (case map_position eq hash seed self k of (p, self) \<Rightarrow> (map_option (\<lambda>i. snd (ma_entries self ! i)) p, self))"

definition contains_key ::
  "('k \<Rightarrow> 'k \<Rightarrow> bool) \<Rightarrow> (nat \<Rightarrow> 'k \<Rightarrow> nat) \<Rightarrow> nat \<Rightarrow> ('k, 'v) map_storage \<Rightarrow> 'k \<Rightarrow> bool \<times> ('k, 'v) map_storage"
where
  "contains_key eq hash seed self k = (case map_position eq hash seed self k of (p, self) \<Rightarrow> (p \<noteq> None, self))"

text \<open>\<open>value_mut\<close> hands out a reference to a value; \<open>f\<close> is what its holder does with it.\<close>

definition value_mut ::
  "('k \<Rightarrow> 'k \<Rightarrow> bool) \<Rightarrow> (nat \<Rightarrow> 'k \<Rightarrow> nat) \<Rightarrow> nat \<Rightarrow> ('v \<Rightarrow> 'v) \<Rightarrow> ('k, 'v) map_storage \<Rightarrow> 'k \<Rightarrow> bool \<times> ('k, 'v) map_storage"
where
  "value_mut eq hash seed f self k =
     (case map_position eq hash seed self k of
        (None, self) \<Rightarrow> (False, self)
      | (Some i, self) \<Rightarrow>
          (True, self\<lparr>ma_entries := (ma_entries self)[i := (fst (ma_entries self ! i), f (snd (ma_entries self ! i)))]\<rparr>))"

definition map_insert ::
  "('k \<Rightarrow> 'k \<Rightarrow> bool) \<Rightarrow> (nat \<Rightarrow> 'k \<Rightarrow> nat) \<Rightarrow> nat \<Rightarrow> ('k, 'v) map_storage \<Rightarrow> 'k \<Rightarrow> 'v \<Rightarrow> ('k, 'v) map_storage"
where
  "map_insert eq hash seed self k v =
     (case map_position eq hash seed self k of
        (Some i, self) \<Rightarrow> self\<lparr>ma_entries := (ma_entries self)[i := (fst (ma_entries self ! i), v)]\<rparr>
      | (None, self) \<Rightarrow>
          (case map_index hash seed self of
             (index, self) \<Rightarrow>
               let h = fingerprint hash index k; position = length (ma_entries self);
                   self = self\<lparr>ma_entries := ma_entries self @ [(k, v)]\<rparr> in
               (case ma_index self of
                  None \<Rightarrow> self
                | Some index \<Rightarrow> self\<lparr>ma_index := Some (index_insert index h position)\<rparr>)))"

text \<open>\<open>borrow_mut\<close>: an arbitrary edit of the entries forgets the index.\<close>

definition map_borrow_mut :: "(('k \<times> 'v) list \<Rightarrow> ('k \<times> 'v) list) \<Rightarrow> ('k, 'v) map_storage \<Rightarrow> ('k, 'v) map_storage" where
  "map_borrow_mut f self = \<lparr>ma_entries = f (ma_entries self), ma_index = None\<rparr>"

section \<open>The contract and what the index is worth\<close>

text \<open>\<open>ok\<close> restricts the contract to well-formed members.\<close>

locale membership =
  fixes eq :: "'v \<Rightarrow> 'v \<Rightarrow> bool" and hash :: "nat \<Rightarrow> 'v \<Rightarrow> nat" and ok :: "'v \<Rightarrow> bool"
  assumes eq_refl: "ok a \<Longrightarrow> eq a a"
    and eq_sym: "ok a \<Longrightarrow> ok b \<Longrightarrow> eq a b \<Longrightarrow> eq b a"
    and eq_trans: "ok a \<Longrightarrow> ok b \<Longrightarrow> ok c \<Longrightarrow> eq a b \<Longrightarrow> eq b c \<Longrightarrow> eq a c"
    and hash_eq: "ok a \<Longrightarrow> ok b \<Longrightarrow> eq a b \<Longrightarrow> hash seed a = hash seed b"

definition index_slots :: "membership_index \<Rightarrow> nat \<Rightarrow> nat list" where
  "index_slots self h = (case mi_buckets self h of None \<Rightarrow> [] | Some b \<Rightarrow> candidates b)"

text \<open>The bucket of a fingerprint lists the positions that have it, ascending.\<close>

definition index_ok :: "(nat \<Rightarrow> 'v \<Rightarrow> nat) \<Rightarrow> 'v list \<Rightarrow> membership_index \<Rightarrow> bool" where
  "index_ok hash keys self \<longleftrightarrow> (\<forall>h. index_slots self h = filter (\<lambda>i. fingerprint hash self (keys ! i) = h) [0..<length keys])"

lemma fingerprint_insert [simp]: "fingerprint hash (index_insert self h i) v = fingerprint hash self v"
  by (simp add: fingerprint_def index_insert_def)

lemma index_slots_insert: "index_slots (index_insert self h i) h' = (if h' = h then index_slots self h @ [i] else index_slots self h')"
  by (simp add: index_slots_def index_insert_def candidates_def split: option.splits)

lemma index_position_slots: "index_position self h matches = find matches (index_slots self h)"
  by (simp add: index_position_def index_slots_def split: option.splits)

lemma index_candidate_slots: "index_candidate self h offset = (if offset < length (index_slots self h) then Some (index_slots self h ! offset) else None)"
  by (cases offset) (auto simp: index_candidate_def index_slots_def candidates_def split: option.splits)

lemma index_ok_new [simp]: "index_ok hash [] (index_new seed)"
  by (simp add: index_ok_def index_slots_def index_new_def)

lemma index_ok_insert:
  assumes "index_ok hash keys self"
  shows "index_ok hash (keys @ [k]) (index_insert self (fingerprint hash self k) (length keys))"
proof -
  have "filter (\<lambda>i. fingerprint hash self ((keys @ [k]) ! i) = h) [0..<length keys] =
      filter (\<lambda>i. fingerprint hash self (keys ! i) = h) [0..<length keys]" for h
    by (rule filter_cong) (auto simp: nth_append)
  then show ?thesis using assms by (auto simp: index_ok_def index_slots_insert)
qed

lemma find_append: "find P (xs @ ys) = (case find P xs of None \<Rightarrow> find P ys | Some x \<Rightarrow> Some x)"
  by (induction xs) auto

lemma find_filter: "\<forall>x \<in> set xs. P x \<longrightarrow> Q x \<Longrightarrow> find P (filter Q xs) = find P xs"
  by (induction xs) auto

lemma find_cong_set: "\<forall>x \<in> set xs. P x = Q x \<Longrightarrow> find P xs = find Q xs"
  by (induction xs) auto

lemma find_upt_Some:
  "find P [0..<n] = Some i \<longleftrightarrow> i < n \<and> P i \<and> (\<forall>j < i. \<not> P j)"
  by (auto simp: find_Some_iff nth_upt)

lemma find_upt_None: "find P [0..<n] = None \<longleftrightarrow> (\<forall>i < n. \<not> P i)"
  by (auto simp: find_None_iff)

text \<open>The members equal to one another form a set without repetition when each is kept only if no kept
  one is equal to it.\<close>

fun dedup :: "('v \<Rightarrow> 'v \<Rightarrow> bool) \<Rightarrow> 'v list \<Rightarrow> 'v list \<Rightarrow> 'v list" where
  "dedup eq kept [] = kept"
| "dedup eq kept (x # xs) = dedup eq (if \<exists>y \<in> set kept. eq y x then kept else kept @ [x]) xs"

definition pairwise_distinct :: "('v \<Rightarrow> 'v \<Rightarrow> bool) \<Rightarrow> 'v list \<Rightarrow> bool" where
  "pairwise_distinct eq xs \<longleftrightarrow> (\<forall>j < length xs. \<forall>i < j. \<not> eq (xs ! i) (xs ! j))"

lemma pairwise_distinct_snoc: "pairwise_distinct eq (xs @ [x]) \<longleftrightarrow> pairwise_distinct eq xs \<and> \<not> (\<exists>y \<in> set xs. eq y x)"
  by (auto simp: pairwise_distinct_def nth_append less_Suc_eq in_set_conv_nth) (metis nth_mem)

lemma dedup_distinct: "pairwise_distinct eq kept \<Longrightarrow> pairwise_distinct eq (dedup eq kept xs)"
  by (induction xs arbitrary: kept) (auto simp: pairwise_distinct_snoc)

lemma dedup_set: "set kept \<subseteq> set (dedup eq kept xs) \<and> set (dedup eq kept xs) \<subseteq> set kept \<union> set xs"
proof (induction xs arbitrary: kept)
  case (Cons x xs)
  show ?case using Cons.IH [of kept] Cons.IH [of "kept @ [x]"] by auto
qed simp

definition set_ok :: "(nat \<Rightarrow> 'v \<Rightarrow> nat) \<Rightarrow> ('v \<Rightarrow> 'v \<Rightarrow> bool) \<Rightarrow> 'v set_storage \<Rightarrow> bool" where
  "set_ok hash eq self \<longleftrightarrow> index_ok hash (se_values self) (se_index self) \<and> pairwise_distinct eq (se_values self)"

context membership
begin

lemma index_position_find:
  assumes "index_ok hash keys self" "\<forall>k \<in> set keys. ok k" "ok k" "\<And>i. i < length keys \<Longrightarrow> matches i = eq (keys ! i) k"
  shows "index_position self (fingerprint hash self k) matches = find (\<lambda>i. eq (keys ! i) k) [0..<length keys]"
proof -
  have "\<forall>i \<in> set [0..<length keys]. matches i \<longrightarrow> fingerprint hash self (keys ! i) = fingerprint hash self k"
    using assms hash_eq by (auto simp: fingerprint_def)
  then have "index_position self (fingerprint hash self k) matches = find matches [0..<length keys]"
    using assms(1) by (simp add: index_position_slots index_ok_def find_filter)
  also have "\<dots> = find (\<lambda>i. eq (keys ! i) k) [0..<length keys]" using assms(4) by (intro find_cong_set) auto
  finally show ?thesis .
qed

lemma index_contains_iff:
  assumes "index_ok hash (take n vals) self" "\<forall>k \<in> set (take n vals). ok k" "ok v"
  shows "index_contains eq self vals v (fingerprint hash self v) \<longleftrightarrow> (\<exists>y \<in> set (take n vals). eq y v)"
proof -
  have "index_position self (fingerprint hash self v) (\<lambda>i. eq (vals ! i) v) =
      find (\<lambda>i. eq (take n vals ! i) v) [0..<length (take n vals)]"
    by (rule index_position_find [OF assms]) simp
  then have "index_contains eq self vals v (fingerprint hash self v) \<longleftrightarrow> (\<exists>i < length (take n vals). eq (take n vals ! i) v)"
    unfolding index_contains_def by (simp add: find_upt_None del: not_None_eq length_take)
  then show ?thesis by (metis in_set_conv_nth)
qed

lemma set_new_loop_spec:
  "drop p vals = xs \<Longrightarrow> p + length xs = length vals \<Longrightarrow> n \<le> p \<Longrightarrow> index_ok hash (take n vals) self \<Longrightarrow> \<forall>v \<in> set vals. ok v \<Longrightarrow>
    case set_new_loop eq hash [p..<p + length xs] (vals, self, n) of
      (vals', index', n') \<Rightarrow> take n' vals' = dedup eq (take n vals) xs \<and> index_ok hash (take n' vals') index'"
proof (induction xs arbitrary: p vals self n)
  case (Cons x xs)
  have x: "vals ! p = x" "p < length vals" "drop (Suc p) vals = xs" using Cons.prems(1,2)
    by (simp_all add: nth_via_drop) (metis drop_Suc_Cons drop_drop drop_0 drop_Suc add.commute plus_1_eq_Suc)
  have okx: "ok x" "\<forall>v \<in> set (take n vals). ok v" using Cons.prems(5) x nth_mem by (auto dest: in_set_takeD)
  have range: "[p..<p + length (x # xs)] = p # [Suc p..<Suc p + length xs]"
    using upt_conv_Cons [of p "p + length (x # xs)"] by simp
  show ?case
  proof (cases "\<exists>y \<in> set (take n vals). eq y x")
    case True
    then have "index_contains eq self vals x (fingerprint hash self x)" using index_contains_iff Cons.prems(4) okx by blast
    then show ?thesis using Cons.IH [of "Suc p" vals n self] Cons.prems True x range by (simp add: Let_def)
  next
    case False
    then have no: "\<not> index_contains eq self vals x (fingerprint hash self x)" using index_contains_iff Cons.prems(4) okx by blast
    let ?vals = "vec_swap_at vals n p"
    have len: "length ?vals = length vals" by (simp add: vec_swap_at_def)
    have n: "n < length vals" using Cons.prems(3) x(2) by simp
    have front: "take (Suc n) ?vals = take n vals @ [x]"
      using n Cons.prems(3) x(1) by (cases "n = p") (auto simp: vec_swap_at_def take_Suc_conv_app_nth)
    have rest: "drop (Suc p) ?vals = xs" using Cons.prems(3) x(3) by (simp add: vec_swap_at_def)
    have "set ?vals = set vals" using n x(2) by (simp add: vec_swap_at_def set_swap)
    moreover have "index_ok hash (take (Suc n) ?vals) (index_insert self (fingerprint hash self x) n)"
      using index_ok_insert [OF Cons.prems(4), of x] front n by simp
    ultimately show ?thesis
      using Cons.IH [of "Suc p" ?vals "Suc n"] rest Cons.prems x no False range len front by (simp add: Let_def)
  qed
qed simp

lemma set_new_spec:
  assumes "\<forall>v \<in> set vals. ok v"
  shows "se_values (set_new eq hash seed vals) = dedup eq [] vals \<and> set_ok hash eq (set_new eq hash seed vals)"
proof -
  have "pairwise_distinct eq (dedup eq [] vals)" by (rule dedup_distinct) (simp add: pairwise_distinct_def)
  then show ?thesis
    using set_new_loop_spec [of 0 vals vals 0 "index_new seed"] assms by (auto simp: set_new_def set_ok_def split: prod.splits)
qed

lemma set_contains_spec:
  "set_ok hash eq s \<Longrightarrow> \<forall>v \<in> set (se_values s). ok v \<Longrightarrow> ok v \<Longrightarrow> set_contains eq hash s v \<longleftrightarrow> (\<exists>y \<in> set (se_values s). eq y v)"
  using index_contains_iff [of "length (se_values s)" "se_values s" "se_index s" v] by (simp add: set_ok_def set_contains_def)

lemma set_insert_spec:
  assumes "set_ok hash eq s" "\<forall>v \<in> set (se_values s). ok v" "ok v"
  shows "(\<exists>y \<in> set (se_values s). eq y v) \<Longrightarrow> set_insert eq hash s v = (False, s)"
    and "\<not> (\<exists>y \<in> set (se_values s). eq y v) \<Longrightarrow> \<exists>s'. set_insert eq hash s v = (True, s') \<and> se_values s' = se_values s @ [v] \<and> set_ok hash eq s'"
  using set_contains_spec [OF assms] index_ok_insert [of hash "se_values s" "se_index s" v] assms(1)
  by (auto simp: set_insert_def Let_def set_contains_def set_ok_def pairwise_distinct_snoc)

lemma require_unique_loop_spec:
  "\<forall>v \<in> set (done' @ rest). ok v \<Longrightarrow> index_ok hash done' index \<Longrightarrow> pairwise_distinct eq done' \<Longrightarrow>
    (case require_unique_loop eq hash (done' @ rest) (List.enumerate (length done') rest) index of
       Inr index' \<Rightarrow> pairwise_distinct eq (done' @ rest) \<and> index_ok hash (done' @ rest) index'
     | Inl i \<Rightarrow> i < length (done' @ rest) \<and> pairwise_distinct eq (take i (done' @ rest)) \<and>
         (\<exists>y \<in> set (take i (done' @ rest)). eq y ((done' @ rest) ! i)))"
proof (induction rest arbitrary: done' index)
  case (Cons v rest)
  have "index_contains eq index (done' @ v # rest) v (fingerprint hash index v) \<longleftrightarrow> (\<exists>y \<in> set done'. eq y v)"
    using index_contains_iff [of "length done'" "done' @ v # rest" index v] Cons.prems by simp
  then show ?case
    using Cons.IH [of "done' @ [v]" "index_insert index (fingerprint hash index v) (length done')"] Cons.prems
      index_ok_insert [OF Cons.prems(2), of v]
    by (auto simp: Let_def pairwise_distinct_snoc split: sum.splits)
qed (simp add: pairwise_distinct_def)

end

text \<open>A map is what its first entries for each key say.\<close>

definition map_ok :: "(nat \<Rightarrow> 'k \<Rightarrow> nat) \<Rightarrow> ('k, 'v) map_storage \<Rightarrow> bool" where
  "map_ok hash self \<longleftrightarrow> (\<forall>index. ma_index self = Some index \<longrightarrow> index_ok hash (map fst (ma_entries self)) index)"

definition first_entry :: "('k \<Rightarrow> 'k \<Rightarrow> bool) \<Rightarrow> ('k \<times> 'v) list \<Rightarrow> 'k \<Rightarrow> 'v option" where
  "first_entry eq entries k = map_option snd (find (\<lambda>(k', _). eq k' k) entries)"

lemma map_index_loop_ok:
  "index_ok hash (map fst seen) index \<Longrightarrow>
    index_ok hash (map fst (seen @ entries)) (map_index_loop hash (List.enumerate (length seen) entries) index)"
proof (induction entries arbitrary: seen index)
  case (Cons e entries)
  obtain k v where e: "e = (k, v)" by (cases e)
  show ?case
    using Cons.IH [of "seen @ [e]" "index_insert index (fingerprint hash index k) (length seen)"] index_ok_insert [OF Cons.prems, of k]
    by (simp add: e)
qed simp

lemma map_index_ok:
  assumes "map_ok hash self" "map_index hash seed self = (index, self')"
  shows "index_ok hash (map fst (ma_entries self)) index \<and> map_ok hash self' \<and> ma_entries self' = ma_entries self \<and> ma_index self' = Some index"
  using assms map_index_loop_ok [of hash "[]" "index_new seed" "ma_entries self"]
  by (auto simp: map_index_def map_ok_def Let_def split: option.splits)

lemma find_position: "find P xs = map_option ((!) xs) (find (\<lambda>i. P (xs ! i)) [0..<length xs])"
proof (cases "find (\<lambda>i. P (xs ! i)) [0..<length xs]")
  case None
  moreover have "find P xs = None" using None by (simp add: find_upt_None find_None_iff) (metis in_set_conv_nth)
  ultimately show ?thesis by simp
next
  case (Some i)
  moreover have "find P xs = Some (xs ! i)" using Some by (auto simp: find_upt_Some find_Some_iff)
  ultimately show ?thesis by simp
qed

definition upsert :: "('k \<Rightarrow> 'k \<Rightarrow> bool) \<Rightarrow> ('k \<times> 'v) list \<Rightarrow> 'k \<Rightarrow> 'v \<Rightarrow> ('k \<times> 'v) list" where
  "upsert eq entries k v =
     (case find (\<lambda>i. eq (fst (entries ! i)) k) [0..<length entries] of
        None \<Rightarrow> entries @ [(k, v)]
      | Some i \<Rightarrow> entries[i := (fst (entries ! i), v)])"

lemma map_fst_update: "i < length es \<Longrightarrow> map fst (es[i := (fst (es ! i), v)]) = map fst es"
  by (simp add: map_update list_update_same_conv)

context membership
begin

lemma map_position_spec:
  assumes "map_ok hash self" "\<forall>e \<in> set (ma_entries self). ok (fst e)" "ok k"
  shows "\<exists>self'. map_position eq hash seed self k = (find (\<lambda>i. eq (fst (ma_entries self ! i)) k) [0..<length (ma_entries self)], self') \<and>
    map_ok hash self' \<and> ma_entries self' = ma_entries self \<and> ma_index self' \<noteq> None"
proof -
  obtain index self' where i: "map_index hash seed self = (index, self')" by (cases "map_index hash seed self")
  note ok' = map_index_ok [OF assms(1) i]
  have "index_position index (fingerprint hash index k) (\<lambda>i. eq (fst (ma_entries self ! i)) k) =
      find (\<lambda>i. eq (map fst (ma_entries self) ! i) k) [0..<length (map fst (ma_entries self))]"
    by (rule index_position_find) (use ok' assms in auto)
  also have "\<dots> = find (\<lambda>i. eq (fst (ma_entries self ! i)) k) [0..<length (ma_entries self)]"
    by (rule trans [OF find_cong_set]) auto
  finally show ?thesis using i ok' by (simp add: map_position_def)
qed

lemma map_get_spec:
  assumes "map_ok hash self" "\<forall>e \<in> set (ma_entries self). ok (fst e)" "ok k"
  shows "\<exists>self'. map_get eq hash seed self k = (first_entry eq (ma_entries self) k, self') \<and> map_ok hash self' \<and> ma_entries self' = ma_entries self"
  using map_position_spec [OF assms, of seed] find_position [of "\<lambda>(k', _). eq k' k" "ma_entries self"]
  by (auto simp: map_get_def first_entry_def case_prod_unfold option.map_comp comp_def)

lemma map_insert_spec:
  assumes "map_ok hash self" "\<forall>e \<in> set (ma_entries self). ok (fst e)" "ok k"
  shows "map_ok hash (map_insert eq hash seed self k v) \<and> ma_entries (map_insert eq hash seed self k v) = upsert eq (ma_entries self) k v"
proof -
  obtain self' where p: "map_position eq hash seed self k = (find (\<lambda>i. eq (fst (ma_entries self ! i)) k) [0..<length (ma_entries self)], self')"
    and ok': "map_ok hash self'" "ma_entries self' = ma_entries self" "ma_index self' \<noteq> None" using map_position_spec [OF assms] by blast
  show ?thesis
  proof (cases "find (\<lambda>i. eq (fst (ma_entries self ! i)) k) [0..<length (ma_entries self)]")
    case None
    obtain index where index: "ma_index self' = Some index" using ok'(3) by blast
    then have "index_ok hash (map fst (ma_entries self)) index" using ok' by (simp add: map_ok_def)
    from index_ok_insert [OF this, of k] show ?thesis
      using None p ok' index by (simp add: map_insert_def upsert_def map_index_def map_ok_def)
  next
    case (Some i)
    then have "i < length (ma_entries self)" by (simp add: find_upt_Some)
    then show ?thesis using Some p ok' by (simp add: map_insert_def upsert_def map_ok_def map_fst_update)
  qed
qed

lemma upsert_lookup:
  assumes "\<forall>e \<in> set entries. ok (fst e)" "ok k" "ok k'"
  shows "first_entry eq (upsert eq entries k v) k' = (if eq k k' then Some v else first_entry eq entries k')"
proof (cases "find (\<lambda>i. eq (fst (entries ! i)) k) [0..<length entries]")
  case None
  then have no: "\<not> eq (fst e) k" if "e \<in> set entries" for e using that by (auto simp: find_upt_None in_set_conv_nth)
  show ?thesis
  proof (cases "eq k k'")
    case True
    have "\<not> eq (fst e) k'" if "e \<in> set entries" for e using no [OF that] True assms that eq_sym eq_trans by blast
    then have "find (\<lambda>(k1, _). eq k1 k') entries = None" by (auto simp: find_None_iff)
    then show ?thesis using None True by (auto simp: upsert_def first_entry_def find_append)
  qed (use None in \<open>auto simp: upsert_def first_entry_def find_append split: option.splits\<close>)
next
  case (Some i)
  then have i: "i < length entries" "eq (fst (entries ! i)) k" "\<forall>j < i. \<not> eq (fst (entries ! j)) k" by (simp_all add: find_upt_Some)
  let ?new = "entries[i := (fst (entries ! i), v)]"
  have oks: "ok (fst (entries ! j))" if "j < length entries" for j using assms(1) that by simp
  have keys: "fst (?new ! j) = fst (entries ! j)" if "j < length entries" for j using that i by (cases "j = i") auto
  have same: "find (\<lambda>j. eq (fst (?new ! j)) k') [0..<length entries] = find (\<lambda>j. eq (fst (entries ! j)) k') [0..<length entries]"
    using keys by (intro find_cong_set) auto
  have lookup: "first_entry eq es k' = map_option (\<lambda>j. snd (es ! j)) (find (\<lambda>j. eq (fst (es ! j)) k') [0..<length es])" for es :: "('v \<times> 'w) list"
    using find_position [of "\<lambda>(k1, _). eq k1 k'" es] by (simp add: first_entry_def case_prod_unfold option.map_comp comp_def)
  show ?thesis
  proof (cases "eq k k'")
    case True
    have "find (\<lambda>j. eq (fst (entries ! j)) k') [0..<length entries] = Some i"
      unfolding find_upt_Some
    proof (intro conjI allI impI)
      show "eq (fst (entries ! i)) k'" using i oks True assms eq_trans by blast
      fix j assume "j < i"
      then show "\<not> eq (fst (entries ! j)) k'" using i oks True assms eq_trans eq_sym by (metis order.strict_trans)
    qed (rule i(1))
    then show ?thesis using Some True same i by (simp add: upsert_def lookup)
  next
    case False
    have "\<not> eq (fst (entries ! i)) k'" using False i oks assms eq_sym eq_trans by blast
    then have "find (\<lambda>j. eq (fst (entries ! j)) k') [0..<length entries] \<noteq> Some i" by (simp add: find_upt_Some)
    then have "map_option (\<lambda>j. snd (?new ! j)) (find (\<lambda>j. eq (fst (entries ! j)) k') [0..<length entries]) =
        map_option (\<lambda>j. snd (entries ! j)) (find (\<lambda>j. eq (fst (entries ! j)) k') [0..<length entries])"
      by (intro option.map_cong) (auto simp: nth_list_update)
    then show ?thesis using Some False same by (simp add: upsert_def lookup)
  qed
qed

end

end
