(* ===== verification/Value.thy ===== *)
theory Value
  imports Numeric Ordered_Tree Priority_Queue Membership
begin

text \<open>
  The runtime values, \<open>InterpValue\<close> of \<open>value/primitive.rs\<close>. The constructors are those
  the modelled components build or inspect; \<open>Opaque\<close> stands for the members no modelled
  operation looks into (handles, prompts, resources, callables, host data), which those
  components treat alike through their wildcard branches. \<open>OrderedMap\<close> and \<open>OrderedSet\<close> carry
  their tree and comparator, \<open>PriorityQueue\<close> the four fields of its storage; a comparator is a
  call target, a callable the model does not look into. Text is the byte sequence of the
  string; \<open>Text_Rope\<close> models its shared representation.
\<close>

datatype range_bounds = ClosedClosed | ClosedOpen | OpenOpen | OpenClosed

datatype 'x interp_value =
    Unit
  | Bool bool
  | Number numeric_value
  | String string
  | Bytes string
  | Nominal nat "'x interp_value"
  | Trust nat "'x interp_value"
  | Existential nat nat "'x interp_value"
  | Tuple "'x interp_value list"
  | Array "'x interp_value list"
  | List "'x interp_value list"
  | Slice "'x interp_value list"
  | Stack "'x interp_value list"
  | Deque "'x interp_value list"
  | Queue "'x interp_value list"
  | Set "'x interp_value list" membership_index
  | Map "('x interp_value \<times> 'x interp_value) list" "membership_index option"
  | Record "(string \<times> 'x interp_value) list"
  | Range "'x range_value"
  | Variant string "'x interp_value list"
  | OptionNone
  | OptionSome "'x interp_value"
  | OrderedMap "('x interp_value, 'x interp_value) node option" "'x option"
  | OrderedSet "('x interp_value, 'x interp_value) node option" "'x option"
  | PriorityQueue "('x interp_value \<times> 'x interp_value) option list" "nat list" "'x option" bool
  | Opaque 'x
and 'x range_value =
    RangeValue (range_start: "'x interp_value") (range_end: "'x interp_value")
      (range_bounds: range_bounds)

fun as_number :: "'x interp_value \<Rightarrow> numeric_value option" where
  "as_number (Number v) = Some v"
| "as_number _ = None"

text \<open>The byte-wise lexicographic comparison of \<open>str\<close> and of \<open>[u8]\<close>.\<close>

fun bytes_cmp :: "string \<Rightarrow> string \<Rightarrow> ordering" where
  "bytes_cmp [] [] = Equal"
| "bytes_cmp [] (y # ys) = Less"
| "bytes_cmp (x # xs) [] = Greater"
| "bytes_cmp (x # xs) (y # ys) =
     (case cmp (of_char x :: nat) (of_char y) of
        Less \<Rightarrow> Less | Greater \<Rightarrow> Greater | Equal \<Rightarrow> bytes_cmp xs ys)"

lemma bytes_cmp_Equal_iff [simp]: "bytes_cmp xs ys = Equal \<longleftrightarrow> xs = ys"
  by (induction xs ys rule: bytes_cmp.induct) (auto simp: cmp_def)

lemma bytes_cmp_reverse: "bytes_cmp ys xs = reverse_ordering (bytes_cmp xs ys)"
  by (induction xs ys rule: bytes_cmp.induct) (auto simp: cmp_def)

lemma bytes_cmp_Less_trans:
  "bytes_cmp xs ys = Less \<Longrightarrow> bytes_cmp ys zs = Less \<Longrightarrow> bytes_cmp xs zs = Less"
proof (induction xs ys arbitrary: zs rule: bytes_cmp.induct)
  case (2 y ys)
  then show ?case by (cases zs) auto
next
  case (4 x xs y ys)
  then show ?case by (cases zs) (auto simp: cmp_def split: if_splits)
qed auto

interpretation bytes: total_comparator bytes_cmp
  by unfold_locales (auto intro: bytes_cmp_reverse bytes_cmp_Less_trans)

end
