(* ===== verification/Integer_Range.thy ===== *)
theory Integer_Range
  imports Value
begin

text \<open>
  Integer ranges, \<open>value/range.rs\<close>: an interval of one integer type normalised to inclusive
  endpoints, read by position and sliced without ever computing its length (the full \<open>u128\<close>
  interval has \<open>2 ^ 128\<close> elements). Positions are \<open>usize\<close>, 64 bits. The subtraction
  \<open>last - first\<close> of the unsigned branch is the wrapping one; on a normalised non-empty
  range it never wraps.
\<close>

section \<open>Operations\<close>

record integer_range =
  origin :: numeric_value
  first :: numeric_value
  last_value :: numeric_value
  empty :: bool

definition is_gt :: "ordering option \<Rightarrow> bool" where
  "is_gt r \<longleftrightarrow> r = Some Greater"

text \<open>The inclusive endpoints of a range whose bounds do not cross.\<close>

definition inclusive_endpoints ::
  "float_ops \<Rightarrow> numeric_value \<Rightarrow> numeric_value \<Rightarrow> numeric_value \<Rightarrow> range_bounds
    \<Rightarrow> numeric_error + numeric_value \<times> numeric_value"
where
  "inclusive_endpoints fo start fin one bounds =
     rbind (if bounds \<in> {OpenOpen, OpenClosed} then checked_add fo start one else Ok start) (\<lambda>f.
     rbind (if bounds \<in> {OpenOpen, ClosedOpen} then checked_sub fo fin one else Ok fin) (\<lambda>l.
     Ok (f, l)))"

definition integer_range_new ::
  "float_ops \<Rightarrow> numeric_value \<Rightarrow> numeric_value \<Rightarrow> range_bounds \<Rightarrow> numeric_error + integer_range"
where
  "integer_range_new fo start fin bounds =
     rbind (one_same start) (\<lambda>one.
     rbind (one_same fin) (\<lambda>_.
     rbind (partial_cmp_same start fin) (\<lambda>order0.
     rbind (ok_or order0 TypeMismatch) (\<lambda>order.
       let empty0 = order = Greater \<or> (order = Equal \<and> bounds \<noteq> ClosedClosed) in
       rbind
         (if empty0 then Ok (start, start)
          else inclusive_endpoints fo start fin one bounds)
         (\<lambda>(f, l).
       rbind (if empty0 then Ok None else partial_cmp_same f l) (\<lambda>order2.
         Ok \<lparr>origin = start, first = f, last_value = l, empty = empty0 \<or> is_gt order2\<rparr>))))))"

definition from_value :: "float_ops \<Rightarrow> 'x range_value \<Rightarrow> numeric_error + integer_range" where
  "from_value fo rv =
     (case (range_start rv, range_end rv) of
        (Number start, Number fin) \<Rightarrow> integer_range_new fo start fin (range_bounds rv)
      | _ \<Rightarrow> Err TypeMismatch)"

definition range_get :: "integer_range \<Rightarrow> 64 word \<Rightarrow> numeric_error + numeric_value option" where
  "range_get self index =
     (if empty self then Ok None
      else
        let offset = uint index in
        case (as_i128 (first self), as_i128 (last_value self)) of
          (Some f, Some l) \<Rightarrow>
            if offset > \<bar>sint l - sint f\<bar> then Ok None
            else
              rbind (ok_or (s_try (sint f + offset) :: 128 word option) Overflow) (\<lambda>value.
              rmap Some (ok_or (from_signed value (primitive (first self))) Overflow))
        | _ \<Rightarrow>
        (case (as_u128 (first self), as_u128 (last_value self)) of
          (Some f, Some l) \<Rightarrow>
            if offset > uint (l - f) then Ok None
            else
              rbind (ok_or (u_try (uint f + offset) :: 128 word option) Overflow) (\<lambda>value.
              rmap Some (ok_or (from_unsigned value (primitive (first self))) Overflow))
        | _ \<Rightarrow> Err TypeMismatch))"

definition allows_position :: "integer_range \<Rightarrow> 64 word \<Rightarrow> numeric_error + bool" where
  "allows_position self position =
     (if position = 0 then Ok True
      else rmap (\<lambda>v. v \<noteq> None) (range_get self (position - 1)))"

definition range_slice ::
  "float_ops \<Rightarrow> integer_range \<Rightarrow> 64 word \<Rightarrow> 64 word \<Rightarrow> numeric_error + 'x range_value"
where
  "range_slice fo self start fin =
     rbind (if start > fin then Ok False else allows_position self fin) (\<lambda>allowed.
     if \<not> allowed then Err Overflow
     else if start = fin then
       Ok (RangeValue (Number (origin self)) (Number (origin self)) ClosedOpen)
     else
       rbind (range_get self start) (\<lambda>f0.
       rbind (ok_or f0 Overflow) (\<lambda>f.
       rbind (range_get self (fin - 1)) (\<lambda>l0.
       rbind (ok_or l0 Overflow) (\<lambda>l.
       rbind (one_same l) (\<lambda>one.
       rbind
         (case checked_add fo l one of
            Inr e \<Rightarrow> Ok (e, ClosedOpen)
          | Inl Overflow \<Rightarrow> Ok (l, ClosedClosed)
          | Inl error \<Rightarrow> Err error)
         (\<lambda>(e, bounds). Ok (RangeValue (Number f) (Number e) bounds))))))))"

section \<open>The interval a range stands for\<close>

definition lower :: "range_bounds \<Rightarrow> int \<Rightarrow> int" where
  "lower bounds x = (if bounds \<in> {OpenOpen, OpenClosed} then x + 1 else x)"

definition upper :: "range_bounds \<Rightarrow> int \<Rightarrow> int" where
  "upper bounds y = (if bounds \<in> {OpenOpen, ClosedOpen} then y - 1 else y)"

text \<open>\<open>describes r p lo hi\<close>: \<open>r\<close> is the normal form of the interval \<open>lo..hi\<close> of type \<open>p\<close>.\<close>

definition describes :: "integer_range \<Rightarrow> primitive_type \<Rightarrow> int \<Rightarrow> int \<Rightarrow> bool" where
  "describes r p lo hi \<longleftrightarrow>
     primitive (origin r) = p \<and> int_value (origin r) \<noteq> None \<and>
     (if lo \<le> hi
      then \<not> empty r \<and> primitive (first r) = p \<and> int_value (first r) = Some lo
           \<and> primitive (last_value r) = p \<and> int_value (last_value r) = Some hi
      else empty r)"

lemma integer_range_new_spec:
  assumes a: "int_value a = Some x" and b: "int_value b = Some y"
    and p: "primitive a = primitive b"
  shows "\<exists>r. integer_range_new fo a b bounds = Ok r \<and>
    describes r (primitive a) (lower bounds x) (upper bounds y)"
proof -
  obtain one where one: "one_same a = Ok one" "primitive one = primitive a" "int_value one = Some 1"
    using one_same_int [OF a] by auto
  obtain one' where one': "one_same b = Ok one'"
    using one_same_int [OF b] by auto
  have order: "partial_cmp_same a b = Ok (Some (cmp x y))"
    by (rule partial_cmp_same_int [OF a b p])
  note start = one one' order a b p
  show ?thesis
  proof (cases "y < x \<or> (x = y \<and> bounds \<noteq> ClosedClosed)")
    case True
    then show ?thesis
      by (cases bounds) (auto simp: integer_range_new_def start describes_def lower_def upper_def Let_def)
  next
    case False
    then have le: "x \<le> y" and strict: "bounds \<noteq> ClosedClosed \<Longrightarrow> x < y" by auto
    have fits: "prim_fits (primitive a) x" "prim_fits (primitive a) y"
      using int_value_fits [OF a] int_value_fits [OF b] p by simp_all
    have lo: "prim_fits (primitive a) (lower bounds x)" and hi: "prim_fits (primitive a) (upper bounds y)"
      using prim_fits_between [OF fits] le strict by (cases bounds; simp add: lower_def upper_def)+
    obtain f where f: "of_int_value (primitive a) (lower bounds x) = Some f"
      "primitive f = primitive a" "int_value f = Some (lower bounds x)"
      by (rule of_int_value_fits [OF lo])
    obtain l where l: "of_int_value (primitive a) (upper bounds y) = Some l"
      "primitive l = primitive a" "int_value l = Some (upper bounds y)"
      by (rule of_int_value_fits [OF hi])
    have ends: "inclusive_endpoints fo a b one bounds = Ok (f, l)"
      using f l checked_add_int [OF a one(3)] checked_sub_int [OF b one(3)] one(2) p
        of_int_value_int_value [OF a] of_int_value_int_value [OF b]
      by (cases bounds) (auto simp: inclusive_endpoints_def lower_def upper_def)
    have inner: "partial_cmp_same f l = Ok (Some (cmp (lower bounds x) (upper bounds y)))"
      using partial_cmp_same_int [OF f(3) l(3)] f(2) l(2) by simp
    have "\<not> (cmp x y = Greater \<or> cmp x y = Equal \<and> bounds \<noteq> ClosedClosed)"
      using False by auto
    then have "integer_range_new fo a b bounds =
      Ok \<lparr>origin = a, first = f, last_value = l, empty = upper bounds y < lower bounds x\<rparr>"
      by (auto simp: integer_range_new_def start ends inner is_gt_def Let_def)
    with f l a show ?thesis
      by (auto simp: describes_def)
  qed
qed

section \<open>Reading and slicing\<close>

text \<open>The two readings of a non-empty range, signed and unsigned.\<close>

lemma range_get_signed:
  assumes r: "\<not> empty r" "int_value (first r) = Some lo" "int_value (last_value r) = Some hi"
    and p: "is_signed (primitive (first r))" "primitive (last_value r) = primitive (first r)"
    and "lo \<le> hi" "s_fits TYPE(128) lo" "s_fits TYPE(128) hi"
  shows "range_get r i =
    (if lo + uint i \<le> hi
     then rmap Some (ok_or (of_int_value (primitive (first r)) (lo + uint i)) Overflow)
     else Ok None)"
proof -
  have "range_get r i =
      (if uint i > hi - lo then Ok None
       else rbind (ok_or (s_try (lo + uint i) :: 128 word option) Overflow) (\<lambda>value.
            rmap Some (ok_or (from_signed value (primitive (first r))) Overflow)))"
    using assms as_i128_int [OF r(2)] as_i128_int [OF r(3)]
    by (simp add: range_get_def sint_word_of_int_fits)
  moreover have "s_fits TYPE(128) (lo + uint i)" if "lo + uint i \<le> hi"
  proof -
    have "lo \<le> lo + uint i" by simp
    with that assms(7,8) show ?thesis by (simp only: s_fits_def) linarith
  qed
  ultimately show ?thesis
    using from_signed_of_int [OF p(1), of "lo + uint i"] by (auto simp: s_try_def)
qed

lemma range_get_unsigned:
  assumes r: "\<not> empty r" "int_value (first r) = Some lo" "int_value (last_value r) = Some hi"
    and p: "is_unsigned (primitive (first r))" "primitive (last_value r) = primitive (first r)"
    and "lo \<le> hi" "u_fits TYPE(128) lo" "u_fits TYPE(128) hi"
  shows "range_get r i =
    (if lo + uint i \<le> hi
     then rmap Some (ok_or (of_int_value (primitive (first r)) (lo + uint i)) Overflow)
     else Ok None)"
proof -
  have "u_fits TYPE(128) (hi - lo)" using assms(6-8) by (simp add: u_fits_def)
  then have "uint (word_of_int (hi - lo) :: 128 word) = hi - lo"
    by (rule uint_word_of_int_fits)
  then have diff: "uint (word_of_int hi - word_of_int lo :: 128 word) = hi - lo"
    by (simp add: of_int_diff)
  from p(1) have "\<not> is_signed (primitive (first r))" by (auto dest: is_signed_not_unsigned)
  then have "range_get r i =
      (if uint i > hi - lo then Ok None
       else rbind (ok_or (u_try (lo + uint i) :: 128 word option) Overflow) (\<lambda>value.
            rmap Some (ok_or (from_unsigned value (primitive (first r))) Overflow)))"
    using assms as_i128_int [OF r(2)] as_u128_int [OF r(2)] as_u128_int [OF r(3)]
    by (simp add: range_get_def uint_word_of_int_fits diff)
  moreover have "u_fits TYPE(128) (lo + uint i)" if "lo + uint i \<le> hi"
  proof -
    have "lo \<le> lo + uint i" by simp
    with that assms(7,8) show ?thesis by (simp only: u_fits_def) linarith
  qed
  ultimately show ?thesis
    using from_unsigned_of_int [OF p(1), of "lo + uint i"] by (auto simp: u_try_def)
qed

lemma range_get_spec:
  assumes "describes r p lo hi"
  shows "range_get r i =
    Ok (if lo + uint i \<le> hi then of_int_value p (lo + uint i) else None)"
proof (cases "lo \<le> hi")
  case False
  moreover have "0 \<le> uint i" by simp
  ultimately have "\<not> lo + uint i \<le> hi" by linarith
  with False assms show ?thesis by (simp add: range_get_def describes_def)
next
  case True
  with assms have r: "\<not> empty r" "int_value (first r) = Some lo"
    "int_value (last_value r) = Some hi" "primitive (first r) = p" "primitive (last_value r) = p"
    by (simp_all add: describes_def)
  then have fits: "prim_fits p lo" "prim_fits p hi"
    using int_value_fits [OF r(2)] int_value_fits [OF r(3)] by simp_all
  then have "range_get r i =
    (if lo + uint i \<le> hi then rmap Some (ok_or (of_int_value p (lo + uint i)) Overflow) else Ok None)"
    using prim_fits_bounds [of p lo] prim_fits_bounds [of p hi] True r
      range_get_signed [OF r(1-3)] range_get_unsigned [OF r(1-3)]
    by (auto dest: is_signed_not_unsigned)
  moreover have "\<exists>v. of_int_value p (lo + uint i) = Some v" if "lo + uint i \<le> hi"
    using prim_fits_between [OF fits _ that] of_int_value_None_iff [of p "lo + uint i"] by auto
  ultimately show ?thesis by auto
qed

lemma uint_minus_one: "(w :: 'a::len word) \<noteq> 0 \<Longrightarrow> uint (w - 1) = uint w - 1"
proof -
  assume "w \<noteq> 0"
  then have "uint w \<noteq> 0" by simp
  moreover have "0 \<le> uint w" by simp
  ultimately have "1 \<le> uint w" by linarith
  then show ?thesis by (simp add: uint_sub_if')
qed

lemma range_get_within:
  assumes "describes r p lo hi" "lo + uint i \<le> hi"
  shows "\<exists>v. range_get r i = Ok (Some v) \<and> primitive v = p \<and> int_value v = Some (lo + uint i)"
proof -
  have "lo \<le> hi" using assms(2) uint_ge_0 [of i] by linarith
  with assms(1) have "prim_fits p lo" "prim_fits p hi"
    using int_value_fits by (fastforce simp: describes_def)+
  then have "prim_fits p (lo + uint i)"
    by (rule prim_fits_between) (use assms(2) in simp_all)
  then show ?thesis
    using of_int_value_fits range_get_spec [OF assms(1), of i] assms(2) by metis
qed

lemma allows_position_spec:
  "describes r p lo hi \<Longrightarrow> allows_position r i = Ok (i = 0 \<or> lo + uint i - 1 \<le> hi)"
proof (cases "i = 0")
  case False
  assume d: "describes r p lo hi"
  show ?thesis
  proof (cases "lo + uint (i - 1) \<le> hi")
    case True
    with range_get_within [OF d True] False show ?thesis
      by (auto simp: allows_position_def uint_minus_one)
  next
    case out: False
    then have "range_get r (i - 1) = Ok None" using range_get_spec [OF d] by simp
    with out False show ?thesis by (simp add: allows_position_def uint_minus_one)
  qed
qed (simp add: allows_position_def)

lemma from_value_spec:
  assumes "int_value a = Some x" "int_value b = Some y" "primitive a = primitive b"
  shows "\<exists>r. from_value fo (RangeValue (Number a) (Number b) bounds) = Ok r \<and>
    describes r (primitive a) (lower bounds x) (upper bounds y)"
  using integer_range_new_spec [OF assms, of fo bounds] by (simp add: from_value_def)

lemma range_slice_spec:
  assumes d: "describes r p lo hi" and "start < fin" and fin: "lo + uint fin - 1 \<le> hi"
  shows "\<exists>(rv :: 'x range_value) r'. range_slice fo r start fin = Ok rv \<and> from_value fo rv = Ok r' \<and>
    describes r' p (lo + uint start) (lo + uint fin - 1)"
proof -
  have nz: "fin \<noteq> 0" and lt: "uint start < uint fin"
    using \<open>start < fin\<close> by (auto simp: word_less_def)
  obtain f where f: "range_get r start = Ok (Some f)" "primitive f = p"
      "int_value f = Some (lo + uint start)"
    using range_get_within [OF d, of start] fin lt by auto
  obtain l where l: "range_get r (fin - 1) = Ok (Some l)" "primitive l = p"
      "int_value l = Some (lo + uint fin - 1)"
    using range_get_within [OF d, of "fin - 1"] fin nz by (auto simp: uint_minus_one add_diff_eq)
  obtain one where one: "one_same l = Ok one" "primitive one = p" "int_value one = Some 1"
    using one_same_int [OF l(3)] l(2) by auto
  have add: "checked_add fo l one = ok_or (of_int_value p (lo + uint fin)) Overflow"
    using checked_add_int [OF l(3) one(3)] l(2) one(2) by simp
  have run: "range_slice fo r start fin = (case of_int_value p (lo + uint fin) of
      Some e \<Rightarrow> Ok (RangeValue (Number f) (Number e) ClosedOpen)
    | None \<Rightarrow> Ok (RangeValue (Number f) (Number l) ClosedClosed))"
    using \<open>start < fin\<close> fin
    by (auto simp: range_slice_def allows_position_spec [OF d] f l one add split: option.split)
  show ?thesis
  proof (cases "of_int_value p (lo + uint fin)")
    case None
    with from_value_spec [OF f(3) l(3), of fo ClosedClosed] f(2) l(2) show ?thesis
      by (auto simp: run lower_def upper_def)
  next
    case (Some e)
    with of_int_value_SomeD [OF Some] from_value_spec [OF f(3), of e "lo + uint fin" fo ClosedOpen] f(2)
    show ?thesis by (auto simp: run lower_def upper_def)
  qed
qed

section \<open>Properties\<close>

text \<open>A range over two integers of one type is read exactly as the interval it denotes:
  construction never fails, and position \<open>i\<close> holds the \<open>i\<close>-th integer from the (possibly
  open) start, at the type of the endpoints, as long as it does not pass the (possibly open)
  end; past the end there is nothing. No length is ever computed, so full-width intervals are
  included.\<close>

theorem range_reads_interval:
  assumes "int_value a = Some x" "int_value b = Some y" "primitive a = primitive b"
  shows "\<exists>r. from_value fo (RangeValue (Number a) (Number b) bounds) = Ok r \<and>
    (\<forall>i. range_get r i =
       Ok (if lower bounds x + uint i \<le> upper bounds y
           then of_int_value (primitive a) (lower bounds x + uint i) else None))"
  using from_value_spec [OF assms, of fo bounds] range_get_spec by blast

theorem range_reads_interval_witness:
  "\<exists>r. from_value sample_float_ops
       (RangeValue (Number (U8 253)) (Number (U8 255)) OpenClosed :: nat range_value) = Ok r \<and>
    range_get r 1 = Ok (Some (U8 255)) \<and> range_get r 2 = Ok None"
proof -
  obtain r where r: "from_value sample_float_ops
       (RangeValue (Number (U8 253)) (Number (U8 255)) OpenClosed :: nat range_value) = Ok r"
    "\<And>i. range_get r i = Ok (if lower OpenClosed 253 + uint i \<le> upper OpenClosed 255
       then of_int_value PU8 (lower OpenClosed 253 + uint i) else None)"
    using range_reads_interval [of "U8 253" 253 "U8 255" 255 sample_float_ops OpenClosed]
    by (simp only: int_value.simps primitive.simps) auto
  have "range_get r 1 = Ok (Some (U8 255))" "range_get r 2 = Ok None"
    by (simp_all add: r(2) lower_def upper_def u_try_def u_fits_def)
  with r(1) show ?thesis by blast
qed

text \<open>A slice of a range, converted to a value and back, holds exactly the selected
  positions: the normal form of \<open>slice start fin\<close> reads at \<open>i\<close> what the original reads at
  \<open>start + i\<close>, for the \<open>fin - start\<close> positions it has, also where the successor of the last
  element is not representable in the integer type.\<close>

theorem range_slice_reads:
  assumes "describes r p lo hi" "start < fin" "lo + uint fin - 1 \<le> hi"
  shows "\<exists>(rv :: 'x range_value) r'. range_slice fo r start fin = Ok rv \<and> from_value fo rv = Ok r' \<and>
    (\<forall>i. range_get r' i =
      (if uint i < uint fin - uint start then range_get r (start + i) else Ok None))"
proof -
  obtain rv :: "'x range_value" and r' where r': "range_slice fo r start fin = Ok rv" "from_value fo rv = Ok r'"
    and d': "describes r' p (lo + uint start) (lo + uint fin - 1)"
    using range_slice_spec [OF assms] by blast
  have "range_get r' i =
      (if uint i < uint fin - uint start then range_get r (start + i) else Ok None)" for i
  proof (cases "uint i < uint fin - uint start")
    case True
    have "uint fin < 2 ^ 64" using uint_lt2p [of fin] by simp
    with True have "uint (start + i) = uint start + uint i"
      by (intro uint_add_lem [THEN iffD1]) simp
    with True assms(3) show ?thesis
      by (simp add: range_get_spec [OF d'] range_get_spec [OF assms(1)] algebra_simps)
  next
    case False
    then show ?thesis by (simp add: range_get_spec [OF d'])
  qed
  with r' show ?thesis by blast
qed

theorem range_slice_reads_witness:
  "\<exists>rv r'. range_slice sample_float_ops
       \<lparr>origin = U8 250, first = U8 250, last_value = U8 255, empty = False\<rparr> 4 6 = Ok rv \<and>
     from_value sample_float_ops (rv :: nat range_value) = Ok r' \<and>
     (\<forall>i. range_get r' i = (if uint i < 2 then
        range_get \<lparr>origin = U8 250, first = U8 250, last_value = U8 255, empty = False\<rparr> (4 + i)
        else Ok None))"
proof -
  have "describes \<lparr>origin = U8 250, first = U8 250, last_value = U8 255, empty = False\<rparr> PU8 250 255"
    by (simp add: describes_def)
  from range_slice_reads [OF this, of 4 6 sample_float_ops] show ?thesis by simp
qed

end
