(* ===== verification/Ordered_Collection.thy ===== *)
theory Ordered_Collection
  imports Value
begin

text \<open>
  The ordered map and set over runtime values: the default key order of
  \<open>value/ordered/order.rs\<close>, the collections of \<open>value/ordered/collection.rs\<close> with the checked
  restore from saved entries, and the evaluator's resumable operations of
  \<open>eval/ordered_collection.rs\<close> and \<open>eval/priority_queue.rs\<close>, which suspend for every call of a
  comparator written in the interpreted language.
\<close>

section \<open>The default order\<close>

datatype key_view = KeyNumber numeric_value | KeyString string | KeyBool bool

definition invalid_key :: string where
  "invalid_key =
     ''collection keys have no default total order; provide a pure comparison flow''"

fun numeric_error_debug :: "numeric_error \<Rightarrow> string" where
  "numeric_error_debug TypeMismatch = ''TypeMismatch''"
| "numeric_error_debug Overflow = ''Overflow''"
| "numeric_error_debug DivisionByZero = ''DivisionByZero''"
| "numeric_error_debug InvalidLiteral = ''InvalidLiteral''"

fun compare :: "key_view \<Rightarrow> key_view \<Rightarrow> string + ordering" where
  "compare (KeyNumber l) (KeyNumber r) =
     (case partial_cmp_same l r of
        Inl e \<Rightarrow> Err (''invalid collection comparison: '' @ numeric_error_debug e)
      | Inr order \<Rightarrow> ok_or order invalid_key)"
| "compare (KeyString l) (KeyString r) = Ok (bytes_cmp l r)"
| "compare (KeyBool l) (KeyBool r) = Ok (cmp l r)"
| "compare _ _ = Err invalid_key"

fun default_key :: "'x interp_value \<Rightarrow> string + key_view" where
  "default_key (Number v) = Ok (KeyNumber v)"
| "default_key (String v) = Ok (KeyString v)"
| "default_key (Bool v) = Ok (KeyBool v)"
| "default_key _ = Err invalid_key"

definition default_order :: "'x interp_value \<Rightarrow> 'x interp_value \<Rightarrow> string + ordering" where
  "default_order l r = rbind (default_key l) (\<lambda>a. rbind (default_key r) (\<lambda>b. compare a b))"

section \<open>The collections\<close>

text \<open>The two cached views of the Rust storage are derived from the tree on demand and are the
  functions \<open>map_borrow\<close> and \<open>set_borrow\<close> here.\<close>

record 'x ordered_storage =
  st_tree :: "('x interp_value, 'x interp_value) link"
  st_comparator :: "'x option"

definition ordered_new :: "'x option \<Rightarrow> 'x ordered_storage" where
  "ordered_new comparator = \<lparr>st_tree = None, st_comparator = comparator\<rparr>"

definition from_tree ::
  "('x interp_value, 'x interp_value) link \<Rightarrow> 'x option \<Rightarrow> 'x ordered_storage"
where
  "from_tree tree comparator = \<lparr>st_tree = tree, st_comparator = comparator\<rparr>"

definition ordered_len :: "'x ordered_storage \<Rightarrow> nat" where
  "ordered_len self = count (st_tree self)"

definition ordered_is_empty :: "'x ordered_storage \<Rightarrow> bool" where
  "ordered_is_empty self = (st_tree self = None)"

definition map_borrow :: "'x ordered_storage \<Rightarrow> ('x interp_value \<times> 'x interp_value) list" where
  "map_borrow self = iter_collect (ordered_len self + 1) (iter_new (st_tree self))"

definition set_borrow :: "'x ordered_storage \<Rightarrow> 'x interp_value list" where
  "set_borrow self = map fst (iter_collect (ordered_len self + 1) (iter_new (st_tree self)))"

definition map_entry :: "'x ordered_storage \<Rightarrow> nat \<Rightarrow> ('x interp_value \<times> 'x interp_value) option" where
  "map_entry self index = entry_at (st_tree self) index"

definition set_key :: "'x ordered_storage \<Rightarrow> nat \<Rightarrow> 'x interp_value option" where
  "set_key self index = map_option fst (entry_at (st_tree self) index)"

definition storage_search ::
  "'x ordered_storage \<Rightarrow> 'x interp_value \<Rightarrow> 'x interp_value option
    \<Rightarrow> ('x interp_value, 'x interp_value) search"
where
  "storage_search self k v = search_new (st_tree self) k v"

section \<open>Restoring saved collections\<close>

fun check_keys :: "('x interp_value \<times> 'x interp_value) list \<Rightarrow> string + unit" where
  "check_keys [] = Ok ()"
| "check_keys ((k, _) # entries) = rbind (default_order k k) (\<lambda>_. check_keys entries)"

fun check_ascending :: "('x interp_value \<times> 'x interp_value) list \<Rightarrow> string + unit" where
  "check_ascending (a # b # rest) =
     rbind (default_order (fst a) (fst b)) (\<lambda>r.
       case r of
         Less \<Rightarrow> check_ascending (b # rest)
       | Equal \<Rightarrow> Err ''duplicate ordered collection key in saved value''
       | Greater \<Rightarrow> Err ''saved ordered collection keys are not in ascending order'')"
| "check_ascending _ = Ok ()"

fun insert_entries ::
  "('x interp_value, 'x interp_value) link \<Rightarrow> ('x interp_value \<times> 'x interp_value) list
    \<Rightarrow> string + ('x interp_value, 'x interp_value) link"
where
  "insert_entries tree [] = Ok tree"
| "insert_entries tree ((k, v) # entries) =
     rbind (search_tree default_order tree k (Some v)) (\<lambda>(tree', _). insert_entries tree' entries)"

definition build ::
  "('x interp_value \<times> 'x interp_value) list \<Rightarrow> string + ('x interp_value, 'x interp_value) link"
where
  "build entries =
     rbind (check_keys entries) (\<lambda>_.
     rbind (check_ascending entries) (\<lambda>_.
     insert_entries None entries))"

definition try_from_entries ::
  "('x interp_value \<times> 'x interp_value) list \<Rightarrow> string + 'x ordered_storage"
where
  "try_from_entries entries = rmap (\<lambda>tree. from_tree tree None) (build entries)"

fun check_duplicates :: "'x interp_value list \<Rightarrow> string + unit" where
  "check_duplicates (a # b # rest) =
     rbind (default_order a b) (\<lambda>r.
       if r = Equal then Err ''duplicate set element in saved ordered set''
       else check_duplicates (b # rest))"
| "check_duplicates _ = Ok ()"

definition try_from_values :: "'x interp_value list \<Rightarrow> string + 'x ordered_storage" where
  "try_from_values values =
     rbind (check_duplicates values) (\<lambda>_.
     rmap (\<lambda>tree. from_tree tree None) (build (map (\<lambda>k. (k, Unit)) values)))"

section \<open>The default order is total on each class of keys\<close>

text \<open>
  \<open>value_cmp\<close> extends the default order to all values: first by class, then by number, then by
  bytes. \<open>default_order\<close> succeeds exactly on two sortable keys of the same class, and then
  answers as \<open>value_cmp\<close> does. A NaN is not sortable.
\<close>

fun number_class :: "numeric_value \<Rightarrow> nat" where
  "number_class (I8 _) = 0"
| "number_class (I16 _) = 1"
| "number_class (I32 _) = 2"
| "number_class (I64 _) = 3"
| "number_class (I128 _) = 4"
| "number_class (ISize _) = 5"
| "number_class (U8 _) = 6"
| "number_class (U16 _) = 7"
| "number_class (U32 _) = 8"
| "number_class (U64 _) = 9"
| "number_class (U128 _) = 10"
| "number_class (USize _) = 11"
| "number_class (F32 _) = 12"
| "number_class (F64 _) = 13"

fun number_key :: "numeric_value \<Rightarrow> int" where
  "number_key (I8 w) = sint w"
| "number_key (I16 w) = sint w"
| "number_key (I32 w) = sint w"
| "number_key (I64 w) = sint w"
| "number_key (I128 w) = sint w"
| "number_key (ISize w) = sint w"
| "number_key (U8 w) = uint w"
| "number_key (U16 w) = uint w"
| "number_key (U32 w) = uint w"
| "number_key (U64 w) = uint w"
| "number_key (U128 w) = uint w"
| "number_key (USize w) = uint w"
| "number_key (F32 w) = float_key w"
| "number_key (F64 w) = float_key w"

fun number_sortable :: "numeric_value \<Rightarrow> bool" where
  "number_sortable (F32 w) = (float_magnitude w \<le> 255 * 2 ^ 23)"
| "number_sortable (F64 w) = (float_magnitude w \<le> 2047 * 2 ^ 52)"
| "number_sortable _ = True"

fun value_class :: "'x interp_value \<Rightarrow> nat" where
  "value_class (Number v) = number_class v"
| "value_class (String v) = 14"
| "value_class (Bool v) = 15"
| "value_class _ = 16"

fun value_number :: "'x interp_value \<Rightarrow> int" where
  "value_number (Number v) = number_key v"
| "value_number (Bool v) = (if v then 1 else 0)"
| "value_number _ = 0"

fun value_text :: "'x interp_value \<Rightarrow> string" where
  "value_text (String v) = v"
| "value_text _ = []"

fun sortable :: "'x interp_value \<Rightarrow> bool" where
  "sortable (Number v) = number_sortable v"
| "sortable (String v) = True"
| "sortable (Bool v) = True"
| "sortable _ = False"

definition value_cmp :: "'x interp_value \<Rightarrow> 'x interp_value \<Rightarrow> ordering" where
  "value_cmp =
     then_cmp (\<lambda>x y. cmp (value_class x) (value_class y))
       (then_cmp (\<lambda>x y. cmp (value_number x) (value_number y))
         (\<lambda>x y. bytes_cmp (value_text x) (value_text y)))"

interpretation value_order: total_comparator value_cmp
  unfolding value_cmp_def
  by (rule total_comparator_then
      [OF total_comparator_on [OF linorder_cmp.total_comparator_axioms, of value_class]
        total_comparator_then
          [OF total_comparator_on [OF linorder_cmp.total_comparator_axioms, of value_number]
            total_comparator_on [OF bytes.total_comparator_axioms, of value_text]]])

lemma partial_cmp_same_iff:
  "partial_cmp_same a b = Ok (Some r) \<longleftrightarrow>
     number_class a = number_class b \<and> number_sortable a \<and> number_sortable b \<and>
     r = cmp (number_key a) (number_key b)"
  by (cases a; cases b) (auto simp: partial_cmp_same_def float_cmp_def)

lemma number_class_neq [simp]:
  "number_class v \<noteq> 14" "number_class v \<noteq> 15" "14 \<noteq> number_class v" "15 \<noteq> number_class v"
  by (cases v; simp)+

lemma compare_number_iff:
  "compare (KeyNumber a) (KeyNumber b) = Ok r \<longleftrightarrow> partial_cmp_same a b = Ok (Some r)"
  by (auto split: sum.split)

lemma default_order_iff:
  "default_order a b = Ok r \<longleftrightarrow>
     sortable a \<and> sortable b \<and> value_class a = value_class b \<and> r = value_cmp a b"
proof (cases "sortable a \<and> sortable b")
  case False
  then have "default_order a b \<noteq> Ok r"
    using compare_number_iff partial_cmp_same_iff
    by (cases a; cases b) (auto simp: default_order_def simp del: compare.simps(1))
  with False show ?thesis by blast
next
  case True
  then show ?thesis
    by (cases a; cases b)
      (auto simp: default_order_def value_cmp_def then_cmp_def compare_number_iff partial_cmp_same_iff
        cmp_def simp del: compare.simps(1) split: ordering.split)
qed

section \<open>Restoring is exact\<close>

lemma default_order_less_trans:
  "default_order a b = Ok Less \<Longrightarrow> default_order b c = Ok Less \<Longrightarrow> default_order a c = Ok Less"
  using value_order.less_trans [of a b c] by (simp add: default_order_iff)

lemma check_keys_iff: "check_keys es = Ok () \<longleftrightarrow> (\<forall>e \<in> set es. sortable (fst e))"
proof (induction es)
  case (Cons e es)
  have "(\<exists>r. default_order (fst e) (fst e) = Ok r) \<longleftrightarrow> sortable (fst e)"
    by (simp add: default_order_iff)
  with Cons show ?case by (cases e) (auto simp: rbind_def split: sum.splits)
qed simp

lemma check_ascending_iff:
  "check_ascending es = Ok () \<longleftrightarrow> sorted_wrt (\<lambda>a b. default_order (fst a) (fst b) = Ok Less) es"
proof (induction es rule: check_ascending.induct)
  case (1 a b rest)
  show ?case
  proof (cases "default_order (fst a) (fst b) = Ok Less")
    case True
    with 1 show ?thesis using default_order_less_trans [OF True] by auto
  next
    case False
    then show ?thesis by (cases "default_order (fst a) (fst b)") (auto split: ordering.splits)
  qed
qed auto

lemma key_upd_behind: "\<forall>e \<in> set es. c k (fst e) = Greater \<Longrightarrow> key_upd c k v es = es @ [(k, v)]"
  by (induction es) auto

lemma key_find_behind: "\<forall>e \<in> set es. c k (fst e) = Greater \<Longrightarrow> key_find c k es = None"
  by (induction es) auto

lemma default_order_greater_iff:
  "default_order a b = Ok Greater \<longleftrightarrow> default_order b a = Ok Less"
  using value_order.greater_iff [of a b] by (auto simp: default_order_iff)

lemma insert_entries_ascending:
  assumes "avl t" "sorted_wrt (\<lambda>a b. default_order (fst a) (fst b) = Ok Less) (inorder t @ es)"
  shows "\<exists>t'. insert_entries t es = Ok t' \<and> avl t' \<and> inorder t' = inorder t @ es"
  using assms
proof (induction es arbitrary: t)
  case (Cons e es)
  obtain k v where e: "e = (k, v)" by fastforce
  have before: "default_order k (fst x) = Ok Greater" if "x \<in> set (inorder t)" for x
    using Cons.prems(2) that by (auto simp: sorted_wrt_append default_order_greater_iff e)
  then have greater: "\<forall>x \<in> set (inorder t). value_cmp k (fst x) = Greater"
    by (auto simp: default_order_iff)
  have answers: "answers default_order value_cmp k (inorder t)"
    using before greater by (auto simp: answers_def)
  have sorted: "key_sorted value_cmp (inorder t)"
    using Cons.prems(2) unfolding key_sorted_def sorted_wrt_append
    by (elim conjE) (erule sorted_wrt_mono_rel [rotated], simp add: default_order_iff)
  obtain t' where t': "tree_insert default_order k v t = Ok (t', None)" "avl t'"
    "inorder t' = inorder t @ [(k, v)]"
    using value_order.tree_insert_spec [OF Cons.prems(1) sorted answers, of v]
      key_upd_behind [of "inorder t" value_cmp k v] key_find_behind [of "inorder t" value_cmp k] greater
    by auto
  with Cons.IH [of t'] Cons.prems(2) show ?case
    by (simp add: e search_tree_insert)
qed simp

text \<open>Restoring a saved ordered collection. \<open>build\<close> accepts exactly the entry lists whose
  keys all have a default order and ascend strictly in it (so they are of one class and free of
  duplicates and NaN), and the tree it then builds holds exactly these entries in this order and
  is balanced.\<close>

theorem build_exact:
  fixes es :: "('x interp_value \<times> 'x interp_value) list"
  shows "((\<exists>t. build es = Ok t) \<longleftrightarrow>
      (\<forall>e \<in> set es. sortable (fst e)) \<and>
      sorted_wrt (\<lambda>a b. default_order (fst a) (fst b) = Ok Less) es) \<and>
    (\<forall>t. build es = Ok t \<longrightarrow> inorder t = es \<and> avl t \<and> key_sorted value_cmp (inorder t))"
proof -
  have built: "\<exists>t. build es = Ok t \<and> inorder t = es \<and> avl t"
    if "check_keys es = Ok ()" "check_ascending es = Ok ()"
    using that insert_entries_ascending [of None es] by (auto simp: build_def check_ascending_iff)
  moreover have "check_keys es = Ok () \<and> check_ascending es = Ok ()" if "build es = Ok t" for t
    using that by (auto simp: build_def)
  moreover have "key_sorted value_cmp es"
    if "sorted_wrt (\<lambda>a b. default_order (fst a) (fst b) = Ok Less) es"
    using that unfolding key_sorted_def
    by (rule sorted_wrt_mono_rel [rotated]) (simp add: default_order_iff)
  ultimately show ?thesis
    unfolding check_keys_iff check_ascending_iff by (metis Inr_inject)
qed

lemma build_exact_witness:
  "\<exists>t. build [(Bool False, Unit), (Bool True, Unit :: unit interp_value)] = Ok t \<and>
     inorder t = [(Bool False, Unit), (Bool True, Unit)] \<and> avl t"
  using build_exact [of "[(Bool False, Unit), (Bool True, Unit :: unit interp_value)]"]
  by (auto simp: default_order_def cmp_def)

section \<open>Evaluating ordered operations\<close>

text \<open>
  The signals an evaluation step can return: a value, a fault with its diagnostic code, the
  continuation to apply next, or a call whose result is given to the continuation. A panic of
  the step is a signal of its own. \<open>'s\<close> is the state the continuation carries, \<open>'sp\<close> a span.
\<close>

datatype ('x, 'sp, 's) eval_signal =
    SigValue "'x interp_value"
  | InvalidArguments string 'sp
  | MissingCheckedFact string 'sp
  | PendingContinuation 's "'x interp_value"
  | PendingCall 'x "'x interp_value list" 'sp 's
  | Panicked string

datatype ordered_result = ResultMap | ResultSet | ResultGet | ResultContains

record ('x, 'sp) ordered_search =
  os_search :: "('x interp_value, 'x interp_value) search"
  os_comparator :: "'x option"
  os_result :: ordered_result
  os_span :: 'sp
  os_awaiting_call :: bool
  os_order :: "ordering option"

fun ordered_value ::
  "ordered_result \<Rightarrow> 'x option \<Rightarrow> ('x interp_value, 'x interp_value) link \<Rightarrow> 'x interp_value option
    \<Rightarrow> 'x interp_value"
where
  "ordered_value ResultMap comparator tree hit = OrderedMap tree comparator"
| "ordered_value ResultSet comparator tree hit = OrderedSet tree comparator"
| "ordered_value ResultGet comparator tree hit =
     (case hit of None \<Rightarrow> OptionNone | Some v \<Rightarrow> OptionSome v)"
| "ordered_value ResultContains comparator tree hit = Bool (hit \<noteq> None)"

text \<open>The first half of the Rust function decodes the continuation input into the comparison
  result, the second advances the search.\<close>

definition advance_ordered_search ::
  "('x, 'sp) ordered_search \<Rightarrow> ordering option \<Rightarrow> ('x, 'sp, ('x, 'sp) ordered_search) eval_signal"
where
  "advance_ordered_search state order =
     (case advance (os_search state) order of
        (Inl message, _) \<Rightarrow> MissingCheckedFact message (os_span state)
      | (Inr Complete, s) \<Rightarrow>
          (case finish s of
             Inl message \<Rightarrow> MissingCheckedFact message (os_span state)
           | Inr (tree, f) \<Rightarrow> SigValue (ordered_value (os_result state) (os_comparator state) tree f))
      | (Inr Continue, s) \<Rightarrow> PendingContinuation (state\<lparr>os_search := s\<rparr>) Unit
      | (Inr Compare, s) \<Rightarrow>
          (case comparison s of
             Inl message \<Rightarrow> MissingCheckedFact message (os_span state)
           | Inr (l, r) \<Rightarrow>
               (case os_comparator state of
                  Some target \<Rightarrow>
                    PendingCall target [l, r] (os_span state)
                      (state\<lparr>os_search := s, os_awaiting_call := True\<rparr>)
                | None \<Rightarrow>
                    (case default_order l r of
                       Inl message \<Rightarrow> InvalidArguments message (os_span state)
                     | Inr ord \<Rightarrow>
                         PendingContinuation (state\<lparr>os_search := s, os_order := Some ord\<rparr>) Unit))))"

definition continue_ordered_search ::
  "('x, 'sp) ordered_search \<Rightarrow> 'x interp_value \<Rightarrow> ('x, 'sp, ('x, 'sp) ordered_search) eval_signal"
where
  "continue_ordered_search state v =
     (if os_awaiting_call state then
        (case v of
           Number (I32 w) \<Rightarrow>
             advance_ordered_search (state\<lparr>os_awaiting_call := False\<rparr>) (Some (cmp (sint w) 0))
         | _ \<Rightarrow> MissingCheckedFact ''collection comparison did not return i32'' (os_span state))
      else if v \<noteq> Unit then
        MissingCheckedFact ''unexpected ordered search continuation input'' (os_span state)
      else advance_ordered_search (state\<lparr>os_order := None\<rparr>) (os_order state))"

definition start_ordered_search ::
  "('x interp_value, 'x interp_value) search \<Rightarrow> 'x option \<Rightarrow> ordered_result \<Rightarrow> 'sp
    \<Rightarrow> ('x, 'sp, ('x, 'sp) ordered_search) eval_signal"
where
  "start_ordered_search s comparator result span =
     (case (if comparator = None then default_order (key s) (key s) else Ok Equal) of
        Inl message \<Rightarrow> InvalidArguments message span
      | Inr _ \<Rightarrow>
          continue_ordered_search
            \<lparr>os_search = s, os_comparator = comparator, os_result = result, os_span = span,
             os_awaiting_call = False, os_order = None\<rparr> Unit)"

section \<open>The collection methods\<close>

datatype 'x local_args = NoArgs | OneArg "'x interp_value" | TwoArgs "'x interp_value" "'x interp_value"

definition unsupported_collection_method ::
  "'sp \<Rightarrow> string \<Rightarrow> string \<Rightarrow> ('x, 'sp, 's) eval_signal"
where
  "unsupported_collection_method span receiver meth =
     InvalidArguments (''unsupported '' @ receiver @ '' method `'' @ meth @ ''`'') span"

definition eval_ordered_map_method ::
  "'x ordered_storage \<Rightarrow> string \<Rightarrow> 'x local_args \<Rightarrow> 'sp
    \<Rightarrow> ('x, 'sp, ('x, 'sp) ordered_search) eval_signal"
where
  "eval_ordered_map_method entries meth args span =
     (case args of
        NoArgs \<Rightarrow>
          if meth = ''len'' then SigValue (Number (usize (word_of_nat (ordered_len entries))))
          else if meth = ''is_empty'' then SigValue (Bool (ordered_is_empty entries))
          else unsupported_collection_method span ''OrderedMap'' meth
      | OneArg k \<Rightarrow>
          if meth = ''contains_key'' then
            start_ordered_search (storage_search entries k None) (st_comparator entries)
              ResultContains span
          else if meth = ''get'' then
            start_ordered_search (storage_search entries k None) (st_comparator entries)
              ResultGet span
          else unsupported_collection_method span ''OrderedMap'' meth
      | TwoArgs k v \<Rightarrow>
          if meth = ''insert'' then
            start_ordered_search (storage_search entries k (Some v)) (st_comparator entries)
              ResultMap span
          else unsupported_collection_method span ''OrderedMap'' meth)"

definition eval_ordered_set_method ::
  "'x ordered_storage \<Rightarrow> string \<Rightarrow> 'x local_args \<Rightarrow> 'sp
    \<Rightarrow> ('x, 'sp, ('x, 'sp) ordered_search) eval_signal"
where
  "eval_ordered_set_method values meth args span =
     (case args of
        NoArgs \<Rightarrow>
          if meth = ''len'' then SigValue (Number (usize (word_of_nat (ordered_len values))))
          else if meth = ''is_empty'' then SigValue (Bool (ordered_is_empty values))
          else unsupported_collection_method span ''OrderedSet'' meth
      | OneArg k \<Rightarrow>
          if meth = ''contains'' then
            start_ordered_search (storage_search values k None) (st_comparator values)
              ResultContains span
          else if meth = ''insert'' then
            start_ordered_search (storage_search values k (Some Unit)) (st_comparator values)
              ResultSet span
          else unsupported_collection_method span ''OrderedSet'' meth
      | TwoArgs k v \<Rightarrow> unsupported_collection_method span ''OrderedSet'' meth)"

section \<open>Running the suspended operations\<close>

text \<open>
  The machine applies pending continuations and completes pending calls; \<open>call\<close> stands for
  completing the call of a comparator, a pure flow of the interpreted program. The run ends for
  every comparator, because each resumption advances the search.
\<close>

lemma advance_ordered_search_weight:
  assumes "advance_ordered_search st order = PendingContinuation st' v \<or>
    advance_ordered_search st order = PendingCall t args sp st'"
  shows "search_weight (os_search st') < search_weight (os_search st)"
proof -
  obtain r s where step: "advance (os_search st) order = (r, s)" by fastforce
  have "os_search st' = s \<and> (\<exists>k. r = Ok k \<and> k \<noteq> Complete)"
    using assms step
    by (auto simp: advance_ordered_search_def
        split: sum.splits search_step.splits option.splits prod.splits)
  with advance_weight [of "os_search st" order _ s] step show ?thesis by auto
qed

lemma continue_ordered_search_weight:
  assumes "continue_ordered_search st v = PendingContinuation st' w \<or>
    continue_ordered_search st v = PendingCall t args sp st'"
  shows "search_weight (os_search st') < search_weight (os_search st)"
proof -
  consider x where "continue_ordered_search st v = advance_ordered_search (st\<lparr>os_awaiting_call := False\<rparr>) x"
    | "continue_ordered_search st v = advance_ordered_search (st\<lparr>os_order := None\<rparr>) (os_order st)"
    using assms unfolding continue_ordered_search_def
    by (auto split: if_splits interp_value.splits numeric_value.splits)
  then show ?thesis
    using assms advance_ordered_search_weight
      [of "st\<lparr>os_awaiting_call := False\<rparr>" _ st' w t args sp]
      advance_ordered_search_weight [of "st\<lparr>os_order := None\<rparr>" _ st' w t args sp]
    by cases auto
qed

function run_ordered ::
  "('x \<Rightarrow> 'x interp_value list \<Rightarrow> 'x interp_value) \<Rightarrow> ('x, 'sp) ordered_search \<Rightarrow> 'x interp_value
    \<Rightarrow> ('x, 'sp, ('x, 'sp) ordered_search) eval_signal"
where
  "run_ordered call st v =
     (case continue_ordered_search st v of
        PendingContinuation st' w \<Rightarrow> run_ordered call st' w
      | PendingCall target args sp st' \<Rightarrow> run_ordered call st' (call target args)
      | sig \<Rightarrow> sig)"
  by pat_completeness auto
termination
  by (relation "measure (\<lambda>(call, st, v). search_weight (os_search st))")
    (auto intro: continue_ordered_search_weight [OF disjI1] continue_ordered_search_weight [OF disjI2])

declare run_ordered.simps [simp del]

definition drive_ordered ::
  "('x \<Rightarrow> 'x interp_value list \<Rightarrow> 'x interp_value)
    \<Rightarrow> ('x, 'sp, ('x, 'sp) ordered_search) eval_signal
    \<Rightarrow> ('x, 'sp, ('x, 'sp) ordered_search) eval_signal"
where
  "drive_ordered call sig =
     (case sig of
        PendingContinuation st w \<Rightarrow> run_ordered call st w
      | PendingCall target args sp st \<Rightarrow> run_ordered call st (call target args)
      | _ \<Rightarrow> sig)"

text \<open>The comparator the evaluator realises.\<close>

definition eval_comparator ::
  "('x \<Rightarrow> 'x interp_value list \<Rightarrow> 'x interp_value) \<Rightarrow> 'x option
    \<Rightarrow> 'x interp_value \<Rightarrow> 'x interp_value \<Rightarrow> string + ordering"
where
  "eval_comparator call comparator a b =
     (case comparator of
        None \<Rightarrow> default_order a b
      | Some target \<Rightarrow>
          (case call target [a, b] of
             Number (I32 w) \<Rightarrow> Ok (cmp (sint w) 0)
           | _ \<Rightarrow> Err ''collection comparison did not return i32''))"

text \<open>The signal a run ends with, given the result of the atomic search.\<close>

definition ends_with ::
  "('x, 'sp) ordered_search \<Rightarrow> ('x, 'sp, ('x, 'sp) ordered_search) eval_signal
    \<Rightarrow> string + ('x interp_value, 'x interp_value) link \<times> 'x interp_value option \<Rightarrow> bool"
where
  "ends_with st sig res =
     (case res of
        Inl e \<Rightarrow> sig = InvalidArguments e (os_span st) \<or> sig = MissingCheckedFact e (os_span st)
      | Inr (tree, f) \<Rightarrow> sig = SigValue (ordered_value (os_result st) (os_comparator st) tree f))"

lemma ends_with_cong:
  "os_span st' = os_span st \<Longrightarrow> os_result st' = os_result st \<Longrightarrow> os_comparator st' = os_comparator st \<Longrightarrow>
     ends_with st' sig res = ends_with st sig res"
  by (simp add: ends_with_def split: sum.split)

definition resumes ::
  "('x, 'sp) ordered_search \<Rightarrow> 'x interp_value \<Rightarrow> ordering option \<Rightarrow> bool"
where
  "resumes st v order =
     (if os_awaiting_call st then \<exists>w. v = Number (I32 w) \<and> order = Some (cmp (sint w) 0) \<and> os_order st = None
      else v = Unit \<and> order = os_order st)"

lemma run_ordered_resumes:
  assumes "resumes st v order"
  shows "ends_with st (run_ordered call st v)
    (rbind (run_search (eval_comparator call (os_comparator st)) (os_search st) order) finish)"
  using assms
proof (induction "search_weight (os_search st)" arbitrary: st v order rule: less_induct)
  case less
  define st0 where "st0 = st\<lparr>os_awaiting_call := False, os_order := None\<rparr>"
  have cont: "continue_ordered_search st v = advance_ordered_search st0 order"
    using less.prems
    by (cases st) (auto simp: resumes_def continue_ordered_search_def st0_def split: if_splits)
  have same: "os_span st0 = os_span st" "os_result st0 = os_result st" "os_comparator st0 = os_comparator st"
    "os_search st0 = os_search st" "\<not> os_awaiting_call st0" "os_order st0 = None"
    by (simp_all add: st0_def)
  obtain r s where step: "advance (os_search st) order = (r, s)" by fastforce
  have IH: "ends_with st (run_ordered call st' w)
      (rbind (run_search (eval_comparator call (os_comparator st)) s order') finish)"
    if "resumes st' w order'" "os_search st' = s" "os_span st' = os_span st" "os_result st' = os_result st"
      "os_comparator st' = os_comparator st" "r = Ok k" "k \<noteq> Complete" for st' w order' k
    using less.hyps [of st' w order'] that advance_weight [of "os_search st" order k s] step
      ends_with_cong [of st' st] by simp
  note unfold = run_ordered.simps [of call st v] run_search.simps [of _ "os_search st" order] cont
    advance_ordered_search_def [of st0] same step
  show ?case
  proof (cases r)
    case (Inl e)
    then show ?thesis by (simp add: unfold ends_with_def)
  next
    case (Inr k)
    show ?thesis
    proof (cases k)
      case Continue
      have "resumes (st0\<lparr>os_search := s\<rparr>) Unit None" using same by (simp add: resumes_def)
      with IH [of "st0\<lparr>os_search := s\<rparr>" Unit None k] Inr Continue show ?thesis
        by (simp add: unfold)
    next
      case Complete
      with Inr show ?thesis by (cases "finish s") (auto simp: unfold ends_with_def)
    next
      case Compare
      show ?thesis
      proof (cases "comparison s")
        case (Inl e)
        with \<open>r = Inr k\<close> Compare show ?thesis by (simp add: unfold ends_with_def)
      next
        case (Inr p)
        obtain a b where ab: "comparison s = Ok (a, b)" using Inr by (cases p) simp
        note unfold = unfold ab \<open>r = Inr k\<close> Compare
        show ?thesis
        proof (cases "os_comparator st")
          case None
          show ?thesis
          proof (cases "default_order a b")
            case (Inl e)
            with None show ?thesis by (simp add: unfold ends_with_def eval_comparator_def)
          next
            case (Inr ord)
            let ?st = "st0\<lparr>os_search := s, os_order := Some ord\<rparr>"
            have "resumes ?st Unit (Some ord)" using same by (simp add: resumes_def)
            with IH [of ?st Unit "Some ord" k] None Inr show ?thesis
              by (simp add: unfold eval_comparator_def)
          qed
        next
          case (Some target)
          let ?st = "st0\<lparr>os_search := s, os_awaiting_call := True\<rparr>"
          have next_step: "run_ordered call st v = run_ordered call ?st (call target [a, b])"
            by (simp add: unfold Some)
          show ?thesis
          proof (cases "\<exists>w. call target [a, b] = Number (I32 w)")
            case True
            then obtain w where w: "call target [a, b] = Number (I32 w)" by blast
            have "resumes ?st (Number (I32 w)) (Some (cmp (sint w) 0))" using same by (simp add: resumes_def)
            with IH [of ?st "Number (I32 w)" "Some (cmp (sint w) 0)" k] Some w next_step show ?thesis
              by (simp add: unfold eval_comparator_def)
          next
            case False
            then have "run_ordered call ?st (call target [a, b]) =
                MissingCheckedFact ''collection comparison did not return i32'' (os_span st)"
              by (subst run_ordered.simps)
                (auto simp: continue_ordered_search_def same split: interp_value.split numeric_value.split)
            moreover have "eval_comparator call (os_comparator st) a b =
                Err ''collection comparison did not return i32''"
              using False Some by (auto simp: eval_comparator_def split: interp_value.split numeric_value.split)
            ultimately show ?thesis by (simp add: next_step unfold ends_with_def)
          qed
        qed
      qed
    qed
  qed
qed

lemma drive_continue: "drive_ordered call (continue_ordered_search st v) = run_ordered call st v"
  by (simp add: drive_ordered_def run_ordered.simps [of call st v] split: eval_signal.split)

lemma drive_start:
  assumes "comparator \<noteq> None \<or> sortable k"
  shows "case search_tree (eval_comparator call comparator) t k ins of
      Inl e \<Rightarrow>
        drive_ordered call (start_ordered_search (search_new t k ins) comparator res sp)
          \<in> {InvalidArguments e sp, MissingCheckedFact e sp}
    | Inr (tree, f) \<Rightarrow>
        drive_ordered call (start_ordered_search (search_new t k ins) comparator res sp) =
          SigValue (ordered_value res comparator tree f)"
proof -
  let ?st = "\<lparr>os_search = search_new t k ins, os_comparator = comparator, os_result = res,
    os_span = sp, os_awaiting_call = False, os_order = None\<rparr>"
  have "\<exists>r. (if comparator = None then default_order k k else Ok Equal) = Ok r"
    using assms by (auto simp: default_order_iff)
  then have start: "start_ordered_search (search_new t k ins) comparator res sp =
      continue_ordered_search ?st Unit"
    by (auto simp: start_ordered_search_def search_new_def split: sum.split)
  have "resumes ?st Unit None" by (simp add: resumes_def)
  from run_ordered_resumes [OF this, of call]
  have "ends_with ?st (run_ordered call ?st Unit) (search_tree (eval_comparator call comparator) t k ins)"
    by (simp add: search_tree_def)
  then show ?thesis
    unfolding start drive_continue ends_with_def
    by (cases "search_tree (eval_comparator call comparator) t k ins") auto
qed

text \<open>\<^bold>\<open>C29\<close>. Suspension is transparent. Running an ordered operation through the evaluator, which
  suspends for every comparator call and yields after every search step, ends for every
  comparator and has the outcome of the atomic search with the comparator the calls realise:
  the corresponding value when the search succeeds, a fault with the same message when it
  fails. A key without a default order is refused before the search when there is no
  comparator.\<close>

theorem suspended_search_is_atomic:
  fixes t :: "('x interp_value, 'x interp_value) link"
  shows "(comparator = None \<and> \<not> sortable k \<longrightarrow>
      (\<exists>e. default_order k k = Err e \<and>
        drive_ordered call (start_ordered_search (search_new t k ins) comparator res sp) =
          InvalidArguments e sp)) \<and>
    (comparator \<noteq> None \<or> sortable k \<longrightarrow>
      (case search_tree (eval_comparator call comparator) t k ins of
         Inl e \<Rightarrow>
           drive_ordered call (start_ordered_search (search_new t k ins) comparator res sp)
             \<in> {InvalidArguments e sp, MissingCheckedFact e sp}
       | Inr (tree, f) \<Rightarrow>
           drive_ordered call (start_ordered_search (search_new t k ins) comparator res sp) =
             SigValue (ordered_value res comparator tree f)))"
proof (intro conjI impI)
  assume "comparator = None \<and> \<not> sortable k"
  moreover then obtain e where "default_order k k = Err e"
    by (cases "default_order k k") (auto simp: default_order_iff)
  ultimately show "\<exists>e. default_order k k = Err e \<and>
      drive_ordered call (start_ordered_search (search_new t k ins) comparator res sp) = InvalidArguments e sp"
    by (simp add: start_ordered_search_def search_new_def drive_ordered_def)
qed (rule drive_start)

lemma suspended_search_is_atomic_witness:
  "drive_ordered (\<lambda>_ _. Number (I32 0))
     (start_ordered_search (search_new (Some (leaf (Unit, Bool True))) Unit None) (Some ()) ResultGet ()) =
   SigValue (OptionSome (Bool True))"
  using suspended_search_is_atomic [where t = "Some (leaf (Unit, Bool True))" and k = Unit
      and comparator = "Some ()" and call = "\<lambda>_ _. Number (I32 0)" and ins = None
      and res = ResultGet and sp = "()"]
  by (simp add: search_tree_lookup leaf_def eval_comparator_def)

text \<open>A comparator call that answers as \<open>c\<close> does: by the sign of the \<open>i32\<close> it returns.\<close>

definition realises ::
  "('x \<Rightarrow> 'x interp_value list \<Rightarrow> 'x interp_value) \<Rightarrow> 'x
    \<Rightarrow> ('x interp_value \<Rightarrow> 'x interp_value \<Rightarrow> ordering) \<Rightarrow> bool"
where
  "realises call target c \<longleftrightarrow>
     (\<forall>a b. \<exists>w. call target [a, b] = Number (I32 w) \<and> cmp (sint w) 0 = c a b)"

lemma realises_comparator:
  assumes "realises call target c"
  shows "eval_comparator call (Some target) a b = Ok (c a b)"
proof -
  obtain w where "call target [a, b] = Number (I32 w)" "cmp (sint w) 0 = c a b"
    using assms by (auto simp: realises_def)
  then show ?thesis by (simp add: eval_comparator_def)
qed

text \<open>\<^bold>\<open>C30\<close>. The ordered map as the program sees it. For a map whose comparator flow answers by a
  total order, \<open>insert\<close> evaluates to a map that holds the sorted entries with the new one, again
  well formed and with the same comparator; \<open>get\<close> on the result gives \<open>Some\<close> of the inserted
  value at an equal key and what \<open>get\<close> gave before at every other key.\<close>

theorem ordered_map_insert_get:
  fixes t :: "('x interp_value, 'x interp_value) link"
  assumes "total_comparator c" "realises call target c" "avl t" "key_sorted c (inorder t)"
  shows "\<exists>t'. drive_ordered call
        (eval_ordered_map_method (from_tree t (Some target)) ''insert'' (TwoArgs k v) sp) =
        SigValue (OrderedMap t' (Some target)) \<and>
      avl t' \<and> key_sorted c (inorder t') \<and> inorder t' = key_upd c k v (inorder t) \<and>
      drive_ordered call (eval_ordered_map_method (from_tree t' (Some target)) ''get'' (OneArg j) sp) =
        (if c j k = Equal then SigValue (OptionSome v)
         else drive_ordered call (eval_ordered_map_method (from_tree t (Some target)) ''get'' (OneArg j) sp))"
proof -
  have cf: "eval_comparator call (Some target) = (\<lambda>a b. Ok (c a b))"
    using realises_comparator [OF assms(2)] by blast
  have answers: "answers (\<lambda>a b. Ok (c a b)) c x es" for x and es :: "('x interp_value \<times> 'x interp_value) list"
    by (simp add: answers_def)
  obtain t' where t': "tree_insert (\<lambda>a b. Ok (c a b)) k v t = Ok (t', key_find c k (inorder t))" "avl t'"
    "inorder t' = key_upd c k v (inorder t)"
    using total_comparator.tree_insert_spec [OF assms(1,3,4) answers, of k v] by blast
  have sorted: "key_sorted c (inorder t')"
    using total_comparator.key_sorted_upd [OF assms(1,4)] t'(3) by simp
  have get: "drive_ordered call (eval_ordered_map_method (from_tree s (Some target)) ''get'' (OneArg j) sp) =
      SigValue (case key_find c j (inorder s) of None \<Rightarrow> OptionNone | Some x \<Rightarrow> OptionSome x)"
    if "key_sorted c (inorder s)" for s
    using drive_start [of "Some target" j call s None ResultGet sp]
      total_comparator.tree_lookup_spec [OF assms(1) that answers, of j]
    by (simp add: eval_ordered_map_method_def from_tree_def storage_search_def cf search_tree_lookup)
  have "drive_ordered call
      (eval_ordered_map_method (from_tree t (Some target)) ''insert'' (TwoArgs k v) sp) =
      SigValue (OrderedMap t' (Some target))"
    using drive_start [of "Some target" k call t "Some v" ResultMap sp] t'(1)
    by (simp add: eval_ordered_map_method_def from_tree_def storage_search_def cf search_tree_insert)
  with t' sorted get [OF sorted] get [OF assms(4)] show ?thesis
    using total_comparator.key_find_upd [OF assms(1,4), of j k v] by simp
qed

definition reverse_bool_call :: "unit \<Rightarrow> unit interp_value list \<Rightarrow> unit interp_value" where
  "reverse_bool_call target args =
     Number (I32 (case value_cmp (args ! 1) (args ! 0) of Less \<Rightarrow> - 1 | Equal \<Rightarrow> 0 | Greater \<Rightarrow> 1))"

lemma ordered_map_insert_get_witness:
  "\<exists>t'. drive_ordered reverse_bool_call
      (eval_ordered_map_method (from_tree None (Some ())) ''insert'' (TwoArgs (Bool True) Unit) ()) =
      SigValue (OrderedMap t' (Some ())) \<and> inorder t' = [(Bool True, Unit)] \<and>
    drive_ordered reverse_bool_call
      (eval_ordered_map_method (from_tree t' (Some ())) ''get'' (OneArg (Bool True)) ()) =
      SigValue (OptionSome Unit)"
proof -
  have total: "total_comparator (\<lambda>a b. value_cmp b a :: ordering)"
    by unfold_locales
      (rule value_order.refl value_order.reverse, rule value_order.reverse,
        rule value_order.less_trans, assumption+, rule value_order.less_equal, assumption+)
  have "realises reverse_bool_call () (\<lambda>a b. value_cmp b a)"
    by (auto simp: realises_def reverse_bool_call_def cmp_def split: ordering.splits)
  from ordered_map_insert_get [OF total this, of None "Bool True" Unit "()" "Bool True"]
  show ?thesis by (auto simp: key_sorted_def value_order.refl)
qed

end
