(* ===== verification/Priority_Queue_Eval.thy ===== *)
theory Priority_Queue_Eval
  imports Ordered_Collection
begin

text \<open>
  Evaluating the methods of a priority queue, \<open>eval/priority_queue.rs\<close> and the dispatch in
  \<open>eval/method/local.rs\<close>: the resumable update of \<open>Priority_Queue\<close> run under the evaluator's
  protocol, suspended for every call of a comparator written in the interpreted language.
\<close>

record ('x, 'sp) pq_update_state =
  pu_update :: "('x interp_value, 'x interp_value, 'x) update"
  pu_span :: 'sp
  pu_awaiting_call :: bool
  pu_order :: "ordering option"

definition queue_value :: "('x interp_value, 'x interp_value, 'x) pq_storage \<Rightarrow> 'x interp_value" where
  "queue_value q = PriorityQueue (slots q) (heap q) (pq_comparator q) (ready q)"

definition update_value ::
  "('x interp_value, 'x interp_value, 'x) pq_storage \<times> 'x interp_value option \<times> bool \<Rightarrow> 'x interp_value"
where
  "update_value res =
     (case res of (q, taken, pop) \<Rightarrow>
        if pop then
          Tuple [queue_value q, case taken of None \<Rightarrow> OptionNone | Some v \<Rightarrow> OptionSome v]
        else queue_value q)"

fun fault_signal :: "fault \<Rightarrow> 'sp \<Rightarrow> ('x, 'sp, 's) eval_signal" where
  "fault_signal (Message m) sp = MissingCheckedFact m sp"
| "fault_signal (Panic m) sp = Panicked m"

definition advance_priority_update ::
  "('x, 'sp) pq_update_state \<Rightarrow> ordering option \<Rightarrow> ('x, 'sp, ('x, 'sp) pq_update_state) eval_signal"
where
  "advance_priority_update state order =
     (case update_advance (pu_update state) order of
        (Inl e, _) \<Rightarrow> fault_signal e (pu_span state)
      | (Inr UpdateComplete, u) \<Rightarrow>
          (case update_finish u of
             Inl e \<Rightarrow> fault_signal e (pu_span state)
           | Inr res \<Rightarrow> SigValue (update_value res))
      | (Inr UpdateContinue, u) \<Rightarrow> PendingContinuation (state\<lparr>pu_update := u\<rparr>) Unit
      | (Inr UpdateCompare, u) \<Rightarrow>
          (case update_comparison u of
             Inl e \<Rightarrow> fault_signal e (pu_span state)
           | Inr (target, l, r) \<Rightarrow>
               (case target of
                  Some t \<Rightarrow>
                    PendingCall t [l, r] (pu_span state)
                      (state\<lparr>pu_update := u, pu_awaiting_call := True\<rparr>)
                | None \<Rightarrow>
                    (case default_order l r of
                       Inl message \<Rightarrow> InvalidArguments message (pu_span state)
                     | Inr ord \<Rightarrow>
                         PendingContinuation (state\<lparr>pu_update := u, pu_order := Some ord\<rparr>) Unit))))"

definition continue_priority_update ::
  "('x, 'sp) pq_update_state \<Rightarrow> 'x interp_value \<Rightarrow> ('x, 'sp, ('x, 'sp) pq_update_state) eval_signal"
where
  "continue_priority_update state v =
     (if pu_awaiting_call state then
        (case v of
           Number (I32 w) \<Rightarrow>
             advance_priority_update (state\<lparr>pu_awaiting_call := False\<rparr>) (Some (cmp (sint w) 0))
         | _ \<Rightarrow> MissingCheckedFact ''priority comparison did not return i32'' (pu_span state))
      else if v \<noteq> Unit then
        MissingCheckedFact ''unexpected priority update continuation input'' (pu_span state)
      else advance_priority_update (state\<lparr>pu_order := None\<rparr>) (pu_order state))"

definition start_priority_update ::
  "('x interp_value, 'x interp_value, 'x) pq_storage \<Rightarrow> ('x interp_value, 'x interp_value) operation \<Rightarrow> 'sp
    \<Rightarrow> ('x, 'sp, ('x, 'sp) pq_update_state) eval_signal"
where
  "start_priority_update q op span =
     continue_priority_update
       \<lparr>pu_update = update_new q op, pu_span = span, pu_awaiting_call = False, pu_order = None\<rparr> Unit"

definition eval_priority_queue_method ::
  "('x interp_value, 'x interp_value, 'x) pq_storage \<Rightarrow> string \<Rightarrow> 'x local_args \<Rightarrow> 'sp
    \<Rightarrow> ('x, 'sp, ('x, 'sp) pq_update_state) eval_signal"
where
  "eval_priority_queue_method entries meth args span =
     (case args of
        NoArgs \<Rightarrow>
          if meth = ''len'' then SigValue (Number (usize (word_of_nat (pq_len entries))))
          else if meth = ''is_empty'' then SigValue (Bool (pq_is_empty entries))
          else if meth = ''pop'' then start_priority_update entries op_pop span
          else unsupported_collection_method span ''PriorityQueue'' meth
      | OneArg v \<Rightarrow> unsupported_collection_method span ''PriorityQueue'' meth
      | TwoArgs v priority \<Rightarrow>
          if meth = ''push'' then start_priority_update entries (op_push priority v) span
          else unsupported_collection_method span ''PriorityQueue'' meth)"

section \<open>Running the suspended update\<close>

lemma fault_signal_neq [simp]:
  "fault_signal e sp \<noteq> PendingContinuation st v" "fault_signal e sp \<noteq> PendingCall t args sp' st"
  by (cases e; simp)+

lemma advance_priority_update_weight:
  assumes "advance_priority_update st order = PendingContinuation st' v \<or>
    advance_priority_update st order = PendingCall t args sp st'"
  shows "update_weight (pu_update st') < update_weight (pu_update st)"
proof -
  obtain r u where step: "update_advance (pu_update st) order = (r, u)" by fastforce
  have "pu_update st' = u \<and> (\<exists>k. r = Ok k \<and> k \<noteq> UpdateComplete)"
    using assms step
    by (auto simp: advance_priority_update_def
        split: sum.splits update_step.splits option.splits prod.splits)
  with update_advance_weight [of "pu_update st" order _ u] step show ?thesis by auto
qed

lemma continue_priority_update_weight:
  assumes "continue_priority_update st v = PendingContinuation st' w \<or>
    continue_priority_update st v = PendingCall t args sp st'"
  shows "update_weight (pu_update st') < update_weight (pu_update st)"
proof -
  consider x where "continue_priority_update st v = advance_priority_update (st\<lparr>pu_awaiting_call := False\<rparr>) x"
    | "continue_priority_update st v = advance_priority_update (st\<lparr>pu_order := None\<rparr>) (pu_order st)"
    using assms unfolding continue_priority_update_def
    by (auto split: if_splits interp_value.splits numeric_value.splits)
  then show ?thesis
    using assms advance_priority_update_weight
      [of "st\<lparr>pu_awaiting_call := False\<rparr>" _ st' w t args sp]
      advance_priority_update_weight [of "st\<lparr>pu_order := None\<rparr>" _ st' w t args sp]
    by cases auto
qed

function run_priority ::
  "('x \<Rightarrow> 'x interp_value list \<Rightarrow> 'x interp_value) \<Rightarrow> ('x, 'sp) pq_update_state \<Rightarrow> 'x interp_value
    \<Rightarrow> ('x, 'sp, ('x, 'sp) pq_update_state) eval_signal"
where
  "run_priority call st v =
     (case continue_priority_update st v of
        PendingContinuation st' w \<Rightarrow> run_priority call st' w
      | PendingCall target args sp st' \<Rightarrow> run_priority call st' (call target args)
      | sig \<Rightarrow> sig)"
  by pat_completeness auto
termination
  by (relation "measure (\<lambda>(call, st, v). update_weight (pu_update st))")
    (auto intro: continue_priority_update_weight [OF disjI1] continue_priority_update_weight [OF disjI2])

declare run_priority.simps [simp del]

definition drive_priority ::
  "('x \<Rightarrow> 'x interp_value list \<Rightarrow> 'x interp_value)
    \<Rightarrow> ('x, 'sp, ('x, 'sp) pq_update_state) eval_signal
    \<Rightarrow> ('x, 'sp, ('x, 'sp) pq_update_state) eval_signal"
where
  "drive_priority call sig =
     (case sig of
        PendingContinuation st w \<Rightarrow> run_priority call st w
      | PendingCall target args sp st \<Rightarrow> run_priority call st (call target args)
      | _ \<Rightarrow> sig)"

lemma drive_continue_priority:
  "drive_priority call (continue_priority_update st v) = run_priority call st v"
  by (simp add: drive_priority_def run_priority.simps [of call st v] split: eval_signal.split)

text \<open>When every comparison can be answered, a completing atomic update is what the evaluator
  computes.\<close>

definition priority_comparator ::
  "('x \<Rightarrow> 'x interp_value list \<Rightarrow> 'x interp_value) \<Rightarrow> 'x option
    \<Rightarrow> 'x interp_value \<Rightarrow> 'x interp_value \<Rightarrow> fault + ordering"
where
  "priority_comparator call comparator a b =
     (case eval_comparator call comparator a b of Inl e \<Rightarrow> Err (Message e) | Inr r \<Rightarrow> Ok r)"

lemma run_priority_resumes:
  assumes "if pu_awaiting_call st then \<exists>w. v = Number (I32 w) \<and> order = Some (cmp (sint w) 0) \<and> pu_order st = None
      else v = Unit \<and> order = pu_order st"
    "rbind (run_update (priority_comparator call) (pu_update st) order) update_finish = Ok res"
  shows "run_priority call st v = SigValue (update_value res)"
  using assms
proof (induction "update_weight (pu_update st)" arbitrary: st v order rule: less_induct)
  case less
  define st0 where "st0 = st\<lparr>pu_awaiting_call := False, pu_order := None\<rparr>"
  have cont: "continue_priority_update st v = advance_priority_update st0 order"
    using less.prems(1)
    by (cases st) (auto simp: continue_priority_update_def st0_def split: if_splits)
  have same: "pu_span st0 = pu_span st" "pu_update st0 = pu_update st" "\<not> pu_awaiting_call st0" "pu_order st0 = None"
    by (simp_all add: st0_def)
  obtain r u where step: "update_advance (pu_update st) order = (r, u)" by fastforce
  obtain fin where run: "run_update (priority_comparator call) (pu_update st) order = Ok fin"
    "update_finish fin = Ok res"
    using less.prems(2) by auto
  note unfold = run_priority.simps [of call st v] cont advance_priority_update_def [of st0] same step
  note runs = run(1) [unfolded run_update.simps [of _ "pu_update st" order] step]
  obtain k where k: "r = Ok k" using runs by (cases r) simp_all
  show ?case
  proof (cases k)
    case UpdateComplete
    with runs k run(2) show ?thesis by (simp add: unfold)
  next
    case UpdateContinue
    have "update_weight u < update_weight (pu_update st)"
      using update_advance_weight step k UpdateContinue by blast
    with less.hyps [of "st0\<lparr>pu_update := u\<rparr>" Unit None] runs k UpdateContinue run(2) same show ?thesis
      by (simp add: unfold)
  next
    case UpdateCompare
    have smaller: "update_weight u < update_weight (pu_update st)"
      using update_advance_weight step k UpdateCompare by blast
    obtain target a b o' where ask: "update_comparison u = Ok (target, a, b)"
      "priority_comparator call target a b = Ok o'"
      "run_update (priority_comparator call) u (Some o') = Ok fin"
      using runs k UpdateCompare by (auto split: sum.splits)
    show ?thesis
    proof (cases target)
      case None
      with ask have "default_order a b = Ok o'"
        by (auto simp: priority_comparator_def eval_comparator_def split: sum.splits)
      with less.hyps [of "st0\<lparr>pu_update := u, pu_order := Some o'\<rparr>" Unit "Some o'"]
        smaller k UpdateCompare ask None run(2) same show ?thesis
        by (simp add: unfold)
    next
      case (Some t)
      with ask obtain w where "call t [a, b] = Number (I32 w)" "o' = cmp (sint w) 0"
        by (auto simp: priority_comparator_def eval_comparator_def
            split: sum.splits interp_value.splits numeric_value.splits)
      with less.hyps [of "st0\<lparr>pu_update := u, pu_awaiting_call := True\<rparr>" "Number (I32 w)" "Some o'"]
        smaller k UpdateCompare ask Some run(2) same show ?thesis
        by (simp add: unfold)
    qed
  qed
qed

lemma drive_priority_update:
  assumes "pq_update (priority_comparator call) q op = Ok res"
  shows "drive_priority call (start_priority_update q op sp) = SigValue (update_value res)"
  unfolding start_priority_update_def drive_continue_priority
  by (rule run_priority_resumes [where order = None]) (use assms in \<open>simp_all add: pq_update_def\<close>)

text \<open>An update only asks the comparator its queue carries.\<close>

lemma apply_comparison_comparator:
  "apply_comparison u r = Ok u' \<Longrightarrow> pq_comparator (queue u') = pq_comparator (queue u)"
  by (auto simp: apply_comparison_def swap_heap_def finish_sift_def Let_def
      split: option.splits heap_comparison.splits if_splits)

lemma apply_operation_comparator:
  "apply_operation u op = Ok u' \<Longrightarrow> pq_comparator (queue u') = pq_comparator (queue u)"
  by (auto simp: apply_operation_def Let_def split: option.splits list.splits)

lemma compact_comparator: "compact q = Ok q' \<Longrightarrow> pq_comparator q' = pq_comparator q"
  by (auto simp: compact_def split: if_splits)

lemma update_advance_comparator:
  "update_advance u order = (Ok st, u') \<Longrightarrow> pq_comparator (queue u') = pq_comparator (queue u)"
  by (auto simp: update_advance_def update_stage_step_def request_def finish_sift_def Let_def
      dest: apply_comparison_comparator apply_operation_comparator compact_comparator
      split: option.splits sum.splits update_stage.splits if_splits)

lemma update_comparison_comparator:
  "update_comparison u = Ok (t, a, b) \<Longrightarrow> t = pq_comparator (queue u)"
  by (auto simp: update_comparison_def split: option.splits prod.splits)

lemma run_update_cong:
  assumes "cf (pq_comparator (queue u)) = cf' (pq_comparator (queue u))"
  shows "run_update cf u order = run_update cf' u order"
  using assms
proof (induction cf u order rule: run_update.induct)
  case (1 cf u order)
  obtain r u' where step: "update_advance u order = (r, u')" by fastforce
  show ?case
  proof (cases r)
    case (Inl e)
    with step show ?thesis by (simp add: run_update.simps [of _ u order])
  next
    case (Inr k)
    have same: "pq_comparator (queue u') = pq_comparator (queue u)"
      using update_advance_comparator step Inr by blast
    show ?thesis
    proof (cases k)
      case UpdateContinue
      with 1(1) [of r u' k] step Inr same 1(3) show ?thesis
        by (simp add: run_update.simps [of _ u order])
    next
      case UpdateComplete
      with step Inr show ?thesis by (simp add: run_update.simps [of _ u order])
    next
      case UpdateCompare
      show ?thesis
      proof (cases "update_comparison u'")
        case (Inl e)
        with step \<open>r = Inr k\<close> UpdateCompare show ?thesis by (simp add: run_update.simps [of _ u order])
      next
        case (Inr p)
        then obtain t a b where ask: "update_comparison u' = Ok (t, a, b)" by (cases p) auto
        have t: "cf t a b = cf' t a b" using update_comparison_comparator [OF ask] same 1(3) by simp
        have "run_update cf u' (Some x) = run_update cf' u' (Some x)" if "cf t a b = Ok x" for x
          using 1(2) [of r u' k "(t, a, b)" t "(a, b)" a b x] that step \<open>r = Inr k\<close> UpdateCompare ask same 1(3)
          by simp
        with t step \<open>r = Inr k\<close> UpdateCompare ask show ?thesis
          by (simp add: run_update.simps [of _ u order] split: sum.split)
      qed
    qed
  qed
qed

lemma pq_update_realises:
  assumes "realises call target c" "pq_comparator q = Some target"
  shows "pq_update (priority_comparator call) q op = pq_update (\<lambda>_ a b. Ok (c a b)) q op"
proof -
  have "priority_comparator call (Some target) = (\<lambda>a b. Ok (c a b))"
    using realises_comparator [OF assms(1)] by (simp add: priority_comparator_def fun_eq_iff)
  then show ?thesis
    using run_update_cong [of "priority_comparator call" "update_new q op" "\<lambda>_ a b. Ok (c a b)" None] assms(2)
    by (simp add: pq_update_def update_new_def)
qed

text \<open>\<^bold>\<open>C31\<close>. The priority queue as the program sees it. For a queue whose comparator flow answers
  by a total order, \<open>push\<close> evaluates to a queue with the entry appended to its contents, and
  \<open>pop\<close> to the pair of the remaining queue and the value of the earliest entry of the highest
  priority, or to the unchanged contents and \<open>None\<close> when it is empty. Both keep the queue's
  invariant, and neither suspends forever.\<close>

theorem priority_queue_methods:
  assumes "total_comparator c" "realises call target c" "pq_inv c q" "pq_comparator q = Some target"
  shows "(\<exists>q'. drive_priority call (eval_priority_queue_method q ''push'' (TwoArgs v p) sp) =
        SigValue (queue_value q') \<and> pq_inv c q' \<and> pq_entries (slots q') = pq_entries (slots q) @ [(p, v)]) \<and>
    (\<exists>q' res. drive_priority call (eval_priority_queue_method q ''pop'' NoArgs sp) =
        SigValue (Tuple [queue_value q', case res of None \<Rightarrow> OptionNone | Some x \<Rightarrow> OptionSome x]) \<and>
      pq_inv c q' \<and> pop_rel True c (pq_entries (slots q)) res (pq_entries (slots q')))"
proof (rule conjI)
  let ?cf = "\<lambda>_ a b. Ok (c a b)"
  have cf: "\<forall>t a b. \<exists>r. ?cf t a b = Ok r" "\<forall>t a b r. True \<longrightarrow> ?cf t a b = Ok r \<longrightarrow> r = c a b" by auto
  have run: "\<exists>u. pq_update (priority_comparator call) q op = Ok (queue u, popped u, op_entry op = None) \<and>
      update_inv True c (pq_entries (slots q)) op u \<and> update_stage u = UpdateDone" for op
    using pq_update_inv [of q True c ?cf op] assms(1,3) pq_update_realises [OF assms(2,4)] cf
    by (simp add: pq_inv_def)
  note invs = update_inv_def update_shape_def update_ordered_def update_content_def pq_inv_def Let_def
  obtain u where "pq_update (priority_comparator call) q (op_push p v) = Ok (queue u, popped u, False)"
    "update_inv True c (pq_entries (slots q)) (op_push p v) u" "update_stage u = UpdateDone"
    using run [of "op_push p v"] by (auto simp: op_push_def)
  then show "\<exists>q'. drive_priority call (eval_priority_queue_method q ''push'' (TwoArgs v p) sp) =
      SigValue (queue_value q') \<and> pq_inv c q' \<and> pq_entries (slots q') = pq_entries (slots q) @ [(p, v)]"
    using drive_priority_update [of call q "op_push p v" _ sp]
    by (intro exI [of _ "queue u"])
      (auto simp: eval_priority_queue_method_def update_value_def invs op_push_def)
  obtain w where "pq_update (priority_comparator call) q op_pop = Ok (queue w, popped w, True)"
    "update_inv True c (pq_entries (slots q)) op_pop w" "update_stage w = UpdateDone"
    using run [of op_pop] by (auto simp: op_pop_def)
  then show "\<exists>q' res. drive_priority call (eval_priority_queue_method q ''pop'' NoArgs sp) =
        SigValue (Tuple [queue_value q', case res of None \<Rightarrow> OptionNone | Some x \<Rightarrow> OptionSome x]) \<and>
      pq_inv c q' \<and> pop_rel True c (pq_entries (slots q)) res (pq_entries (slots q'))"
    using drive_priority_update [of call q op_pop _ sp]
    by (intro exI [of _ "queue w"] exI [of _ "popped w"])
      (auto simp: eval_priority_queue_method_def update_value_def invs op_pop_def)
qed

definition sign_call :: "unit \<Rightarrow> unit interp_value list \<Rightarrow> unit interp_value" where
  "sign_call target args =
     Number (I32 (case value_cmp (args ! 0) (args ! 1) of Less \<Rightarrow> - 1 | Equal \<Rightarrow> 0 | Greater \<Rightarrow> 1))"

lemma sign_call_realises: "realises sign_call () value_cmp"
  by (auto simp: realises_def sign_call_def cmp_def split: ordering.splits)

lemma priority_queue_methods_witness:
  "\<exists>q' res. drive_priority sign_call
       (eval_priority_queue_method (from_entries [(Bool False, Unit), (Bool True, OptionNone)] (Some ())) ''pop'' NoArgs ()) =
       SigValue (Tuple [queue_value q', case res of None \<Rightarrow> OptionNone | Some x \<Rightarrow> OptionSome x]) \<and>
     pop_rel True value_cmp [(Bool False, Unit), (Bool True, OptionNone)] res (pq_entries (slots q'))"
proof -
  have "pq_comparator (from_entries [(Bool False, Unit), (Bool True, OptionNone)] (Some ())) = Some ()"
    by (simp add: from_entries_def Let_def)
  from priority_queue_methods [OF value_order.total_comparator_axioms sign_call_realises
      pq_inv_from_entries(1) this, where sp = "()"]
  show ?thesis unfolding pq_inv_from_entries(2) by blast
qed

end
