(* ===== verification/Resource_Guards.thy ===== *)
theory Resource_Guards
  imports Prelude "HOL-Library.RBT" "HOL-Library.Sublist" "HOL-Library.List_Lexorder"
    "HOL-Library.Char_ord" "HOL-Library.Option_ord" "HOL-Library.Product_Lexorder"
begin

text \<open>
  The resource permits of the task scheduler, \<open>driver/scheduler/resource.rs\<close>: keys that select
  parts of the program's memory, the conflict test between two keys, and the guard table that
  admits a task only when none of its keys conflicts with a key held by another task. A
  \<open>BTreeMap\<close> is a red-black tree of the library, which iterates in key order as it does.
\<close>

section \<open>Keys\<close>

datatype effect_identity = Memory

datatype frozen_selector =
  FrozenSelector (sel_region: string) (sel_path: "string list") (sel_key: "string option")

datatype runtime_resource_key =
  RuntimeResourceKey (rk_effect: effect_identity) (rk_selector: frozen_selector)

text \<open>The derived order of the keys: by effect (there is one), region, path and key.\<close>

definition rk_rank :: "runtime_resource_key \<Rightarrow> string \<times> string list \<times> string option" where
  "rk_rank k = (sel_region (rk_selector k), sel_path (rk_selector k), sel_key (rk_selector k))"

lemma rk_rank_inject: "rk_rank a = rk_rank b \<Longrightarrow> a = b"
  by (cases a; cases b; cases "rk_selector a"; cases "rk_selector b"; cases "rk_effect a"; cases "rk_effect b")
    (simp add: rk_rank_def)

instantiation runtime_resource_key :: linorder
begin

definition less_eq_runtime_resource_key :: "runtime_resource_key \<Rightarrow> runtime_resource_key \<Rightarrow> bool" where
  "less_eq_runtime_resource_key a b \<longleftrightarrow> rk_rank a \<le> rk_rank b"

definition less_runtime_resource_key :: "runtime_resource_key \<Rightarrow> runtime_resource_key \<Rightarrow> bool" where
  "less_runtime_resource_key a b \<longleftrightarrow> rk_rank a < rk_rank b"

instance
proof
  fix x y z :: runtime_resource_key
  show "x < y \<longleftrightarrow> x \<le> y \<and> \<not> y \<le> x"
    unfolding less_runtime_resource_key_def less_eq_runtime_resource_key_def by (rule less_le_not_le)
  show "x \<le> x" unfolding less_eq_runtime_resource_key_def by (rule order_refl)
  show "x \<le> y \<Longrightarrow> y \<le> z \<Longrightarrow> x \<le> z" unfolding less_eq_runtime_resource_key_def by (rule order_trans)
  show "x \<le> y \<Longrightarrow> y \<le> x \<Longrightarrow> x = y"
    unfolding less_eq_runtime_resource_key_def by (intro rk_rank_inject order_antisym)
  show "x \<le> y \<or> y \<le> x" unfolding less_eq_runtime_resource_key_def by (rule linear)
qed

end

definition conflicts :: "runtime_resource_key \<Rightarrow> runtime_resource_key \<Rightarrow> bool" where
  "conflicts self other \<longleftrightarrow>
     rk_effect self = rk_effect other \<and>
     sel_region (rk_selector self) = sel_region (rk_selector other) \<and>
     (prefix (sel_path (rk_selector other)) (sel_path (rk_selector self)) \<or>
      prefix (sel_path (rk_selector self)) (sel_path (rk_selector other))) \<and>
     (sel_key (rk_selector self) = None \<or> sel_key (rk_selector other) = None \<or>
      sel_key (rk_selector self) = sel_key (rk_selector other))"

section \<open>The guard table\<close>

datatype resource_event =
    Acquired nat nat
  | WaitingFor nat nat
  | Released nat nat

record resource_guards =
  holders :: "(nat, runtime_resource_key list) rbt"
  rg_waiting :: "nat list"
  rg_events :: "resource_event list"

definition guards_default :: resource_guards where
  "guards_default = \<lparr>holders = RBT.empty, rg_waiting = [], rg_events = []\<rparr>"

record resource_guards_snapshot =
  rs_holders :: "(nat, runtime_resource_key list) rbt"
  rs_waiting :: "nat list"

definition guards_capture :: "resource_guards \<Rightarrow> fault + resource_guards_snapshot" where
  "guards_capture self =
     (if rg_events self \<noteq> [] then
        Err (Panic ''resource events must be committed before checkpoint capture'')
      else Ok \<lparr>rs_holders = holders self, rs_waiting = rg_waiting self\<rparr>)"

definition guards_restore :: "resource_guards_snapshot \<Rightarrow> resource_guards" where
  "guards_restore snapshot =
     \<lparr>holders = rs_holders snapshot, rg_waiting = rs_waiting snapshot, rg_events = []\<rparr>"

definition held_keys :: "resource_guards \<Rightarrow> runtime_resource_key list" where
  "held_keys self = concat (map snd (RBT.entries (holders self)))"

definition acquire ::
  "resource_guards \<Rightarrow> nat \<Rightarrow> runtime_resource_key list \<Rightarrow> bool \<times> resource_guards"
where
  "acquire self task keys =
     (if RBT.lookup (holders self) task \<noteq> None then (True, self)
      else if list_ex (\<lambda>k. list_ex (conflicts k) (held_keys self)) keys then (False, self)
      else
        (True,
         self\<lparr>holders := RBT.insert task keys (holders self),
              rg_events := rg_events self @ (if keys \<noteq> [] then [Acquired task (length keys)] else [])\<rparr>))"

definition release :: "resource_guards \<Rightarrow> nat \<Rightarrow> resource_guards" where
  "release self task =
     (case RBT.lookup (holders self) task of
        None \<Rightarrow> self
      | Some keys \<Rightarrow>
          self\<lparr>holders := RBT.delete task (holders self),
               rg_events := rg_events self @ (if keys \<noteq> [] then [Released task (length keys)] else [])\<rparr>)"

section \<open>Conflict is overlap\<close>

text \<open>A memory location and the keys that cover it: a key covers the part of its region below
  its path, restricted to its entry key when it has one.\<close>

record location =
  loc_effect :: effect_identity
  loc_region :: string
  loc_path :: "string list"
  loc_key :: string

definition covers :: "runtime_resource_key \<Rightarrow> location \<Rightarrow> bool" where
  "covers k l \<longleftrightarrow>
     rk_effect k = loc_effect l \<and> sel_region (rk_selector k) = loc_region l \<and>
     prefix (sel_path (rk_selector k)) (loc_path l) \<and>
     (sel_key (rk_selector k) = None \<or> sel_key (rk_selector k) = Some (loc_key l))"

lemma conflicts_sym: "conflicts a b \<longleftrightarrow> conflicts b a"
  by (auto simp: conflicts_def)

lemma conflicts_overlap: "conflicts a b \<longleftrightarrow> (\<exists>l. covers a l \<and> covers b l)"
proof
  assume conflict: "conflicts a b"
  define p where "p = (if prefix (sel_path (rk_selector a)) (sel_path (rk_selector b))
    then sel_path (rk_selector b) else sel_path (rk_selector a))"
  define k where "k = (case sel_key (rk_selector a) of Some x \<Rightarrow> x
    | None \<Rightarrow> (case sel_key (rk_selector b) of Some x \<Rightarrow> x | None \<Rightarrow> []))"
  let ?l = "\<lparr>loc_effect = rk_effect a, loc_region = sel_region (rk_selector a), loc_path = p, loc_key = k\<rparr>"
  have "covers a ?l \<and> covers b ?l"
    using conflict by (auto simp: conflicts_def covers_def p_def k_def split: option.splits)
  then show "\<exists>l. covers a l \<and> covers b l" by blast
next
  assume "\<exists>l. covers a l \<and> covers b l"
  then show "conflicts a b"
    using prefix_same_cases by (auto simp: conflicts_def covers_def)
qed

section \<open>Mutual exclusion\<close>

definition guards_ok :: "resource_guards \<Rightarrow> bool" where
  "guards_ok g \<longleftrightarrow>
     (\<forall>a b ka kb. a \<noteq> b \<and> RBT.lookup (holders g) a = Some ka \<and> RBT.lookup (holders g) b = Some kb \<longrightarrow>
       (\<forall>x \<in> set ka. \<forall>y \<in> set kb. \<not> conflicts x y))"

lemma held_keys_iff: "k \<in> set (held_keys g) \<longleftrightarrow> (\<exists>t ks. RBT.lookup (holders g) t = Some ks \<and> k \<in> set ks)"
  by (force simp: held_keys_def lookup_in_tree)

lemma acquire_lookup:
  assumes "acquire g t ks = (r, g')"
  shows "r \<longleftrightarrow> RBT.lookup (holders g) t \<noteq> None \<or> (\<forall>k \<in> set ks. \<forall>h \<in> set (held_keys g). \<not> conflicts k h)"
    and "RBT.lookup (holders g') =
      (if r \<and> RBT.lookup (holders g) t = None then (RBT.lookup (holders g))(t \<mapsto> ks) else RBT.lookup (holders g))"
    and "rg_waiting g' = rg_waiting g"
    and "\<not> r \<Longrightarrow> g' = g"
  using assms by (auto simp: acquire_def list_ex_iff split: if_splits)

lemma release_lookup [simp]:
  "RBT.lookup (holders (release g t)) = (RBT.lookup (holders g))(t := None)"
  "rg_waiting (release g t) = rg_waiting g"
  by (auto simp: release_def fun_eq_iff split: option.splits)

lemma acquire_ok [wf_intros]:
  assumes "guards_ok g" "acquire g t ks = (r, g')"
  shows "guards_ok g'"
proof (cases "r \<and> RBT.lookup (holders g) t = None")
  case False
  then have "RBT.lookup (holders g') = RBT.lookup (holders g)"
    using acquire_lookup(2) [OF assms(2)] by auto
  with assms(1) show ?thesis by (simp add: guards_ok_def)
next
  case True
  have free: "\<not> conflicts x y" if "x \<in> set ks" "RBT.lookup (holders g) b = Some kb" "y \<in> set kb" for x y b kb
    using that acquire_lookup(1) [OF assms(2)] True held_keys_iff [of y g] by blast
  show ?thesis
    unfolding guards_ok_def
  proof (intro allI impI ballI)
    fix a b ka kb x y
    assume h: "a \<noteq> b \<and> RBT.lookup (holders g') a = Some ka \<and> RBT.lookup (holders g') b = Some kb"
      and x: "x \<in> set ka" and y: "y \<in> set kb"
    have look: "RBT.lookup (holders g') = (RBT.lookup (holders g))(t \<mapsto> ks)"
      using True acquire_lookup(2) [OF assms(2)] by simp
    consider "a = t" "b \<noteq> t" | "b = t" "a \<noteq> t" | "a \<noteq> t" "b \<noteq> t" using h by blast
    then show "\<not> conflicts x y"
    proof cases
      case 1
      then show ?thesis using h look free x y by auto
    next
      case 2
      then show ?thesis using h look free [of y a ka x] x y conflicts_sym by auto
    next
      case 3
      then show ?thesis using h look assms(1) x y unfolding guards_ok_def by (metis fun_upd_other)
    qed
  qed
qed

lemma release_ok [wf_intros]: "guards_ok g \<Longrightarrow> guards_ok (release g t)"
  by (auto simp: guards_ok_def)

lemma guards_default_ok [wf_intros]: "guards_ok guards_default"
  by (simp add: guards_ok_def guards_default_def)

text \<open>A run of the guard table: admissions and releases in any order.\<close>

datatype guard_op = TryAcquire nat "runtime_resource_key list" | Release nat

fun guard_step :: "resource_guards \<Rightarrow> guard_op \<Rightarrow> resource_guards" where
  "guard_step g (TryAcquire t ks) = snd (acquire g t ks)"
| "guard_step g (Release t) = release g t"

lemma guard_run_ok: "guards_ok g \<Longrightarrow> guards_ok (foldl guard_step g ops)"
proof (induction ops arbitrary: g)
  case (Cons op ops)
  have "guards_ok (guard_step g op)"
    using Cons.prems by (cases op) (auto intro: wf_intros simp: acquire_ok [OF _ prod.collapse [symmetric]])
  with Cons.IH show ?case by simp
qed simp

text \<open>\<^bold>\<open>C37\<close>. Mutual exclusion of resources. After any sequence of admissions and releases from the
  empty guard table, no memory location is covered by keys held by two different tasks; and an
  admission is refused exactly when the task holds no permit yet and one of its keys covers a
  location that a key held by another task also covers, in which case nothing changes.\<close>

theorem resource_mutual_exclusion:
  fixes ops
  defines "g \<equiv> foldl guard_step guards_default ops"
  shows "(\<forall>a b ka kb x y l. RBT.lookup (holders g) a = Some ka \<and> RBT.lookup (holders g) b = Some kb \<and>
        x \<in> set ka \<and> y \<in> set kb \<and> covers x l \<and> covers y l \<longrightarrow> a = b) \<and>
    (fst (acquire g t ks) = False \<longleftrightarrow>
      RBT.lookup (holders g) t = None \<and>
      (\<exists>k \<in> set ks. \<exists>u hs h l. RBT.lookup (holders g) u = Some hs \<and> h \<in> set hs \<and> covers k l \<and> covers h l)) \<and>
    (fst (acquire g t ks) = False \<longrightarrow> snd (acquire g t ks) = g)"
proof (intro conjI)
  have ok: "guards_ok g" unfolding g_def by (rule guard_run_ok [OF guards_default_ok])
  show "\<forall>a b ka kb x y l. RBT.lookup (holders g) a = Some ka \<and> RBT.lookup (holders g) b = Some kb \<and>
      x \<in> set ka \<and> y \<in> set kb \<and> covers x l \<and> covers y l \<longrightarrow> a = b"
  proof (intro allI impI)
    fix a b ka kb x y l
    assume h: "RBT.lookup (holders g) a = Some ka \<and> RBT.lookup (holders g) b = Some kb \<and>
      x \<in> set ka \<and> y \<in> set kb \<and> covers x l \<and> covers y l"
    then have "conflicts x y" unfolding conflicts_overlap by blast
    with h ok show "a = b" unfolding guards_ok_def by blast
  qed
  obtain r g' where acq: "acquire g t ks = (r, g')" by fastforce
  note look = acquire_lookup [OF acq]
  show "(fst (acquire g t ks) = False) \<longleftrightarrow> RBT.lookup (holders g) t = None \<and>
      (\<exists>k \<in> set ks. \<exists>u hs h l. RBT.lookup (holders g) u = Some hs \<and> h \<in> set hs \<and> covers k l \<and> covers h l)"
  proof -
    have "(\<exists>k \<in> set ks. \<exists>h \<in> set (held_keys g). conflicts k h) \<longleftrightarrow>
        (\<exists>k \<in> set ks. \<exists>u hs h l. RBT.lookup (holders g) u = Some hs \<and> h \<in> set hs \<and> covers k l \<and> covers h l)"
      unfolding conflicts_overlap using held_keys_iff [of _ g] by metis
    with look(1) acq show ?thesis by auto
  qed
  show "fst (acquire g t ks) = False \<longrightarrow> snd (acquire g t ks) = g" using look(4) acq by simp
qed

definition sample_key :: runtime_resource_key where
  "sample_key = RuntimeResourceKey Memory (FrozenSelector ''notes'' [''a''] None)"

lemma guards_default_held: "held_keys guards_default = []"
  by code_simp

lemma resource_mutual_exclusion_witness:
  "fst (acquire (foldl guard_step guards_default [TryAcquire 1 [sample_key]]) 2 [sample_key]) = False"
proof -
  let ?g = "foldl guard_step guards_default [TryAcquire 1 [sample_key]]"
  have "RBT.lookup (holders ?g) 1 = Some [sample_key]" "RBT.lookup (holders ?g) 2 = None"
    by (simp_all add: guards_default_def acquire_def guards_default_held [unfolded guards_default_def])
  moreover have "covers sample_key \<lparr>loc_effect = Memory, loc_region = ''notes'', loc_path = [''a''], loc_key = []\<rparr>"
    by (simp add: covers_def sample_key_def)
  ultimately have "\<exists>k \<in> set [sample_key]. \<exists>u hs h l. RBT.lookup (holders ?g) u = Some hs \<and> h \<in> set hs \<and>
      covers k l \<and> covers h l"
    by (intro bexI [of _ sample_key] exI [of _ 1] exI [of _ "[sample_key]"] exI [of _ sample_key] exI) auto
  with \<open>RBT.lookup (holders ?g) 2 = None\<close> show ?thesis
    using resource_mutual_exclusion [of "[TryAcquire 1 [sample_key]]" 2 "[sample_key]"] by (simp only:)
qed

end
