(* ===== verification/Continuation_Arena.thy ===== *)
theory Continuation_Arena
  imports Prelude "HOL-Library.RBT"
begin

text \<open>
  The arena of captured continuations, \<open>driver/scheduler/continuation.rs\<close>: every continuation a
  handler arm receives is a token into this arena, owned by a task scope and bound to the task it
  was captured in. A token is one-shot: resuming, requeueing or parking it takes its runtime stack
  out, disposing drops it, and the entry stays behind so that a token is never reused, not even
  across a checkpoint.

  The runtime stack (\<open>'c\<close>), the checked program (\<open>'p\<close>) and its saved form (\<open>'q\<close>) belong to other
  modules; the arena only stores them. Identifiers are \<open>u64\<close> counters, so an exhausted counter is
  a panic.
\<close>

section \<open>Identifiers and errors of the scheduler\<close>

datatype task_identity = RootTask | Scheduled nat

datatype 'x sched_error =
    HostError 'x
  | WrongOwner
  | UnknownTask
  | UnknownContinuation
  | ContinuationConsumed
  | WrongTask
  | InvalidTransition
  | SchedPanic string

definition checked_succ :: "nat \<Rightarrow> string \<Rightarrow> 'x sched_error + nat" where
  "checked_succ n message = (if n + 1 < 2 ^ 64 then Ok (n + 1) else Err (SchedPanic message))"

section \<open>The arena\<close>

datatype continuation_state = ArmOwned | ReadyOwned | WaitingOn | Resumed | Disposed

datatype continuation_transfer = Resume | Requeue | Park

record ('c, 'p) continuation_entry =
  ce_binder :: "nat option"
  ce_program :: "'p option"
  ce_owner :: nat
  ce_origin :: task_identity
  ce_continuation :: "'c option"
  ce_output :: nat
  ce_state :: continuation_state

record ('c, 'p) continuation_arena =
  ca_next :: nat
  ca_entries :: "(nat, ('c, 'p) continuation_entry) rbt"

record continuation_token =
  tk_owner :: nat
  tk_continuation :: nat

definition arena_new :: "('c, 'p) continuation_arena" where
  "arena_new = \<lparr>ca_next = 0, ca_entries = RBT.empty\<rparr>"

definition dispose_entry ::
  "task_identity \<Rightarrow> ('c, 'p) continuation_entry \<Rightarrow> ('c, 'p) continuation_entry"
where
  "dispose_entry origin e =
     (if ce_origin e = origin \<and> ce_state e = ArmOwned
      then e\<lparr>ce_continuation := None, ce_state := Disposed\<rparr> else e)"

definition dispose_origin ::
  "('c, 'p) continuation_arena \<Rightarrow> task_identity \<Rightarrow> ('c, 'p) continuation_arena"
where
  "dispose_origin self origin =
     self\<lparr>ca_entries := RBT.map (\<lambda>_. dispose_entry origin) (ca_entries self)\<rparr>"

definition allocate ::
  "('c, 'p) continuation_arena \<Rightarrow> nat \<Rightarrow> task_identity \<Rightarrow> 'c \<Rightarrow> nat \<Rightarrow> 'p option \<Rightarrow> nat option
    \<Rightarrow> ('x sched_error + continuation_token) \<times> ('c, 'p) continuation_arena"
where
  "allocate self owner origin continuation output program bnd =
     (case checked_succ (ca_next self) ''continuation id exhausted'' of
        Inl e \<Rightarrow> (Err e, self)
      | Inr n \<Rightarrow>
          (Ok \<lparr>tk_owner = owner, tk_continuation = ca_next self\<rparr>,
           \<lparr>ca_next = n,
            ca_entries = RBT.insert (ca_next self)
              \<lparr>ce_binder = bnd, ce_program = program, ce_owner = owner, ce_origin = origin,
               ce_continuation = Some continuation, ce_output = output, ce_state = ArmOwned\<rparr>
              (ca_entries self)\<rparr>))"

definition arm_owned_entry ::
  "('c, 'p) continuation_arena \<Rightarrow> continuation_token \<Rightarrow> task_identity
    \<Rightarrow> 'x sched_error + ('c, 'p) continuation_entry"
where
  "arm_owned_entry self token origin =
     (case RBT.lookup (ca_entries self) (tk_continuation token) of
        None \<Rightarrow> Err UnknownContinuation
      | Some e \<Rightarrow>
          if tk_owner token \<noteq> ce_owner e then Err WrongOwner
          else if ce_origin e \<noteq> origin then Err WrongTask
          else if ce_state e \<noteq> ArmOwned then Err ContinuationConsumed
          else Ok e)"

fun transfer_state :: "continuation_transfer \<Rightarrow> continuation_state" where
  "transfer_state Resume = Resumed"
| "transfer_state Requeue = ReadyOwned"
| "transfer_state Park = WaitingOn"

definition put_entry ::
  "('c, 'p) continuation_arena \<Rightarrow> nat \<Rightarrow> ('c, 'p) continuation_entry \<Rightarrow> ('c, 'p) continuation_arena"
where
  "put_entry self n e = self\<lparr>ca_entries := RBT.insert n e (ca_entries self)\<rparr>"

definition consume ::
  "('c, 'p) continuation_arena \<Rightarrow> continuation_token \<Rightarrow> task_identity \<Rightarrow> continuation_transfer
    \<Rightarrow> ('x sched_error + 'c \<times> nat) \<times> ('c, 'p) continuation_arena"
where
  "consume self token origin transfer =
     (case arm_owned_entry self token origin of
        Inl e \<Rightarrow> (Err e, self)
      | Inr e \<Rightarrow>
          let e' = e\<lparr>ce_state := transfer_state transfer\<rparr> in
          (case ce_continuation e of
             None \<Rightarrow>
               (Err (SchedPanic ''arm-owned continuation must retain its runtime stack''),
                put_entry self (tk_continuation token) e')
           | Some c \<Rightarrow>
               (Ok (c, ce_output e),
                put_entry self (tk_continuation token) (e'\<lparr>ce_continuation := None\<rparr>))))"

definition dispose ::
  "('c, 'p) continuation_arena \<Rightarrow> continuation_token \<Rightarrow> task_identity
    \<Rightarrow> ('x sched_error + unit) \<times> ('c, 'p) continuation_arena"
where
  "dispose self token origin =
     (case arm_owned_entry self token origin of
        Inl e \<Rightarrow> (Err e, self)
      | Inr e \<Rightarrow>
          (Ok (),
           put_entry self (tk_continuation token) (e\<lparr>ce_continuation := None, ce_state := Disposed\<rparr>)))"

section \<open>Checkpoints\<close>

record 'q continuation_entry_snapshot =
  cs_binder :: "nat option"
  cs_program :: "'q option"
  cs_owner :: nat
  cs_origin :: task_identity
  cs_continuation :: "nat option"
  cs_output :: nat
  cs_state :: continuation_state

record 'q continuation_arena_snapshot =
  sn_next :: nat
  sn_entries :: "(nat, 'q continuation_entry_snapshot) rbt"

text \<open>
  The captures thread a state \<open>'s\<close>: the table of stacks already saved and of the revisions seen.
  \<open>identity\<close> saves a program, \<open>save\<close> a stack, each as a step on that state.
\<close>

definition capture_entry ::
  "('s \<Rightarrow> 'p \<Rightarrow> 'q \<times> 's) \<Rightarrow> ('s \<Rightarrow> task_identity \<Rightarrow> 'p option \<Rightarrow> 'c \<Rightarrow> (string + nat) \<times> 's)
    \<Rightarrow> 's \<Rightarrow> ('c, 'p) continuation_entry \<Rightarrow> (string + 'q continuation_entry_snapshot) \<times> 's"
where
  "capture_entry identity save s e =
     (let (q, s1) = (case ce_program e of None \<Rightarrow> (None, s)
                     | Some p \<Rightarrow> (case identity s p of (q, s') \<Rightarrow> (Some q, s')));
          (i, s2) = (case ce_continuation e of None \<Rightarrow> (Ok None, s1)
                     | Some c \<Rightarrow> (case save s1 (ce_origin e) (ce_program e) c of (r, s') \<Rightarrow> (rmap Some r, s')))
      in (rmap (\<lambda>i. \<lparr>cs_binder = ce_binder e, cs_program = q, cs_owner = ce_owner e,
                     cs_origin = ce_origin e, cs_continuation = i, cs_output = ce_output e,
                     cs_state = ce_state e\<rparr>) i, s2))"

fun collect_entries ::
  "('s \<Rightarrow> 'a \<Rightarrow> (string + 'b) \<times> 's) \<Rightarrow> 's \<Rightarrow> (nat \<times> 'a) list \<Rightarrow> (string + (nat, 'b) rbt) \<times> 's"
where
  "collect_entries f s [] = (Ok RBT.empty, s)"
| "collect_entries f s ((n, x) # xs) =
     (case f s x of
        (Inl e, s') \<Rightarrow> (Err e, s')
      | (Inr y, s') \<Rightarrow> (case collect_entries f s' xs of (r, s'') \<Rightarrow> (rmap (RBT.insert n y) r, s'')))"

definition arena_capture ::
  "('s \<Rightarrow> 'p \<Rightarrow> 'q \<times> 's) \<Rightarrow> ('s \<Rightarrow> task_identity \<Rightarrow> 'p option \<Rightarrow> 'c \<Rightarrow> (string + nat) \<times> 's)
    \<Rightarrow> 's \<Rightarrow> ('c, 'p) continuation_arena \<Rightarrow> (string + 'q continuation_arena_snapshot) \<times> 's"
where
  "arena_capture identity save s self =
     (case collect_entries (capture_entry identity save) s (RBT.entries (ca_entries self)) of
        (r, s') \<Rightarrow> (rmap (\<lambda>es. \<lparr>sn_next = ca_next self, sn_entries = es\<rparr>) r, s'))"

fun validate_entries :: "nat \<Rightarrow> (nat \<times> 'q continuation_entry_snapshot) list \<Rightarrow> string + unit" where
  "validate_entries n [] = Ok ()"
| "validate_entries n ((i, e) # es) =
     (if n \<le> i then Err ''checkpoint continuation counter would reuse a token''
      else if (cs_state e = ArmOwned) \<noteq> (cs_continuation e \<noteq> None)
      then Err ''checkpoint continuation ownership differs from its saved stack''
      else validate_entries n es)"

definition arena_validate :: "'q continuation_arena_snapshot \<Rightarrow> string + unit" where
  "arena_validate self = validate_entries (sn_next self) (RBT.entries (sn_entries self))"

definition restore_entry ::
  "('p \<Rightarrow> nat \<Rightarrow> bool) \<Rightarrow> ('s \<Rightarrow> task_identity \<Rightarrow> 'q option \<Rightarrow> nat option \<Rightarrow> (string + 'c option \<times> 'p option) \<times> 's)
    \<Rightarrow> 's \<Rightarrow> 'q continuation_entry_snapshot \<Rightarrow> (string + ('c, 'p) continuation_entry) \<times> 's"
where
  "restore_entry has_binding load s e =
     (case load s (cs_origin e) (cs_program e) (cs_continuation e) of
        (Inl m, s') \<Rightarrow> (Err m, s')
      | (Inr (continuation, program), s') \<Rightarrow>
          if (case cs_binder e of
                None \<Rightarrow> False
              | Some b \<Rightarrow> \<not> (case program of None \<Rightarrow> False | Some p \<Rightarrow> has_binding p b))
          then (Err (''continuation bind'' @ ''er has no checked Handler ownership fact''), s')
          else
            (Ok \<lparr>ce_binder = cs_binder e, ce_program = program, ce_owner = cs_owner e,
                 ce_origin = cs_origin e, ce_continuation = continuation, ce_output = cs_output e,
                 ce_state = cs_state e\<rparr>, s'))"

definition arena_restore ::
  "('p \<Rightarrow> nat \<Rightarrow> bool) \<Rightarrow> ('s \<Rightarrow> task_identity \<Rightarrow> 'q option \<Rightarrow> nat option \<Rightarrow> (string + 'c option \<times> 'p option) \<times> 's)
    \<Rightarrow> 's \<Rightarrow> 'q continuation_arena_snapshot \<Rightarrow> (string + ('c, 'p) continuation_arena) \<times> 's"
where
  "arena_restore has_binding load s snapshot =
     (case arena_validate snapshot of
        Inl m \<Rightarrow> (Err m, s)
      | Inr _ \<Rightarrow>
          (case collect_entries (restore_entry has_binding load) s (RBT.entries (sn_entries snapshot)) of
             (r, s') \<Rightarrow> (rmap (\<lambda>es. \<lparr>ca_next = sn_next snapshot, ca_entries = es\<rparr>) r, s')))"

section \<open>The arena invariant\<close>

text \<open>Identifiers stay below the counter, and an entry holds a stack exactly while it is
  arm-owned.\<close>

definition arena_ok :: "('c, 'p) continuation_arena \<Rightarrow> bool" where
  "arena_ok a \<longleftrightarrow>
     (\<forall>n e. RBT.lookup (ca_entries a) n = Some e \<longrightarrow>
       n < ca_next a \<and> (ce_state e = ArmOwned \<longleftrightarrow> ce_continuation e \<noteq> None))"

datatype ('c, 'p) arena_op =
    Allocate nat task_identity 'c nat "'p option" "nat option"
  | Consume continuation_token task_identity continuation_transfer
  | DisposeToken continuation_token task_identity
  | DisposeOrigin task_identity

fun arena_step :: "('c, 'p) continuation_arena \<Rightarrow> ('c, 'p) arena_op \<Rightarrow> ('c, 'p) continuation_arena" where
  "arena_step a (Allocate owner origin c output program bnd) =
     snd (allocate a owner origin c output program bnd :: (unit sched_error + continuation_token) \<times> _)"
| "arena_step a (Consume token origin transfer) =
     snd (consume a token origin transfer :: (unit sched_error + 'c \<times> nat) \<times> _)"
| "arena_step a (DisposeToken token origin) =
     snd (dispose a token origin :: (unit sched_error + unit) \<times> _)"
| "arena_step a (DisposeOrigin origin) = dispose_origin a origin"

lemmas arena_defs = allocate_def consume_def dispose_def dispose_origin_def arm_owned_entry_def
  put_entry_def checked_succ_def dispose_entry_def Let_def

lemma arena_new_ok: "arena_ok arena_new"
  by (simp add: arena_ok_def arena_new_def)

lemma arena_step_ok: "arena_ok a \<Longrightarrow> arena_ok (arena_step a op)"
proof (cases op)
  case (Allocate owner origin c out program bnd)
  then show "arena_ok a \<Longrightarrow> ?thesis"
    by (auto simp: arena_ok_def arena_defs less_Suc_eq)
next
  case (Consume token origin transfer)
  then show "arena_ok a \<Longrightarrow> ?thesis"
    by (cases transfer)
      (auto simp: arena_ok_def arena_defs split: option.splits)
next
  case (DisposeToken token origin)
  then show "arena_ok a \<Longrightarrow> ?thesis"
    by (auto simp: arena_ok_def arena_defs split: option.splits)
next
  case (DisposeOrigin origin)
  then show "arena_ok a \<Longrightarrow> ?thesis"
    by (auto simp: arena_ok_def arena_defs)
qed

lemma arena_run_ok: "arena_ok a \<Longrightarrow> arena_ok (foldl arena_step a ops)"
  by (induction ops arbitrary: a) (simp_all add: arena_step_ok)

text \<open>An entry that is no longer arm-owned never changes again.\<close>

lemma arena_step_spent:
  assumes "arena_ok a" "RBT.lookup (ca_entries a) n = Some e" "ce_state e \<noteq> ArmOwned"
  shows "RBT.lookup (ca_entries (arena_step a op)) n = Some e"
  using assms
  by (cases op) (auto simp: arena_ok_def arena_defs split: option.splits)

lemma arena_run_spent:
  assumes "arena_ok a" "RBT.lookup (ca_entries a) n = Some e" "ce_state e \<noteq> ArmOwned"
  shows "RBT.lookup (ca_entries (foldl arena_step a ops)) n = Some e"
  using assms
  by (induction ops arbitrary: a) (simp_all add: arena_step_spent arena_step_ok)

section \<open>What the arena promises\<close>

text \<open>\<^bold>\<open>C38\<close>. One-shot tokens. On every reachable arena a consumption never panics; once a token was
  consumed or disposed successfully, no later consumption or disposal of it succeeds, whatever
  happens to the arena in between: it is refused as already consumed.\<close>

theorem token_is_one_shot:
  fixes ops0 ops :: "('c, 'p) arena_op list"
  defines "a \<equiv> foldl arena_step arena_new ops0"
  shows "(\<forall>m. fst (consume a token origin transfer) \<noteq> Err (SchedPanic m)) \<and>
    (\<forall>r a1. consume a token origin transfer = (Ok r, a1) \<or> dispose a token origin = (Ok (), a1) \<longrightarrow>
      fst (consume (foldl arena_step a1 ops) token origin transfer') = Err ContinuationConsumed \<and>
      fst (dispose (foldl arena_step a1 ops) token origin) = Err ContinuationConsumed)"
proof (intro conjI allI impI)
  have ok: "arena_ok a" unfolding a_def by (rule arena_run_ok [OF arena_new_ok])
  show "fst (consume a token origin transfer) \<noteq> Err (SchedPanic m)" for m
    using ok by (auto simp: arena_ok_def arena_defs split: option.splits)
  fix r a1
  assume first: "consume a token origin transfer = (Ok r, a1) \<or> dispose a token origin = (Ok (), a1)"
  obtain e where e: "RBT.lookup (ca_entries a1) (tk_continuation token) = Some e"
    "ce_state e \<noteq> ArmOwned" "ce_owner e = tk_owner token" "ce_origin e = origin"
    using first by (cases transfer) (auto simp: arena_defs split: option.splits if_splits)
  have "a1 = arena_step a (Consume token origin transfer) \<or> a1 = arena_step a (DisposeToken token origin)"
    using first by (auto simp: arena_defs split: option.splits if_splits)
  then have "arena_ok a1" using arena_step_ok [OF ok] by blast
  from arena_run_spent [OF this e(1,2), of ops] e
  show "fst (consume (foldl arena_step a1 ops) token origin transfer') = Err ContinuationConsumed"
    "fst (dispose (foldl arena_step a1 ops) token origin) = Err ContinuationConsumed"
    by (simp_all add: arena_defs)
qed

lemma token_is_one_shot_witness:
  "fst (consume (snd (consume (foldl arena_step arena_new [Allocate 7 RootTask ''stack'' 3 (None :: unit option) None])
      \<lparr>tk_owner = 7, tk_continuation = 0\<rparr> RootTask Resume :: (unit sched_error + string \<times> nat) \<times> _))
    \<lparr>tk_owner = 7, tk_continuation = 0\<rparr> RootTask Park) = (Err ContinuationConsumed :: unit sched_error + string \<times> nat)"
proof -
  let ?a = "foldl arena_step arena_new [Allocate 7 RootTask ''stack'' 3 (None :: unit option) None]"
  let ?tok = "\<lparr>tk_owner = 7, tk_continuation = 0\<rparr>"
  have "\<exists>a1. (consume ?a ?tok RootTask Resume :: (unit sched_error + string \<times> nat) \<times> _) = (Ok (''stack'', 3), a1)"
    by (simp add: arena_defs arena_new_def)
  then obtain a1 where a1: "(consume ?a ?tok RootTask Resume :: (unit sched_error + string \<times> nat) \<times> _) = (Ok (''stack'', 3), a1)"
    by blast
  then show ?thesis
    using token_is_one_shot [of "[Allocate 7 RootTask ''stack'' 3 (None :: unit option) None]" ?tok RootTask Resume "[]" Park]
    by auto
qed

text \<open>Operations that leave the entry of a token alone.\<close>

fun spares :: "nat \<Rightarrow> task_identity \<Rightarrow> ('c, 'p) arena_op \<Rightarrow> bool" where
  "spares n origin (Allocate _ _ _ _ _ _) = True"
| "spares n origin (Consume token _ _) = (tk_continuation token \<noteq> n)"
| "spares n origin (DisposeToken token _) = (tk_continuation token \<noteq> n)"
| "spares n origin (DisposeOrigin o') = (o' \<noteq> origin)"

lemma arena_run_spares:
  assumes "arena_ok a" "RBT.lookup (ca_entries a) n = Some e" "ce_origin e = origin"
    "list_all (spares n origin) ops"
  shows "RBT.lookup (ca_entries (foldl arena_step a ops)) n = Some e"
  using assms
proof (induction ops arbitrary: a)
  case (Cons op ops)
  have "RBT.lookup (ca_entries (arena_step a op)) n = Some e"
    using Cons.prems by (cases op) (auto simp: arena_ok_def arena_defs split: option.splits)
  with Cons arena_step_ok [OF Cons.prems(1), of op] show ?case by simp
qed simp

text \<open>Delivery. A continuation allocated in a reachable arena gets a token no other entry has,
  and consuming the token delivers exactly the stored stack and output type, as long as neither
  the token was used nor its task disposed of in between.\<close>

theorem allocated_stack_is_delivered:
  fixes ops0 ops :: "('c, 'p) arena_op list"
  defines "a \<equiv> foldl arena_step arena_new ops0"
  assumes "(allocate a owner origin c out program bnd :: ('x sched_error + continuation_token) \<times> _) = (Ok token, a1)"
    and "list_all (spares (tk_continuation token) origin) ops"
  shows "RBT.lookup (ca_entries a) (tk_continuation token) = None \<and>
    fst (consume (foldl arena_step a1 ops) token origin transfer) = (Ok (c, out) :: 'x sched_error + 'c \<times> nat)"
proof -
  have ok: "arena_ok a" unfolding a_def by (rule arena_run_ok [OF arena_new_ok])
  have a1: "a1 = arena_step a (Allocate owner origin c out program bnd)"
    using assms(2) by (auto simp: arena_defs split: if_splits)
  have fresh: "tk_continuation token = ca_next a" "tk_owner token = owner"
    using assms(2) by (auto simp: arena_defs split: if_splits)
  have "RBT.lookup (ca_entries a1) (tk_continuation token) =
      Some \<lparr>ce_binder = bnd, ce_program = program, ce_owner = owner, ce_origin = origin,
        ce_continuation = Some c, ce_output = out, ce_state = ArmOwned\<rparr>"
    using assms(2) by (auto simp: arena_defs split: if_splits)
  moreover have "arena_ok a1" unfolding a1 by (rule arena_step_ok [OF ok])
  ultimately have "RBT.lookup (ca_entries (foldl arena_step a1 ops)) (tk_continuation token) =
      Some \<lparr>ce_binder = bnd, ce_program = program, ce_owner = owner, ce_origin = origin,
        ce_continuation = Some c, ce_output = out, ce_state = ArmOwned\<rparr>"
    by (intro arena_run_spares [OF _ _ _ assms(3)]) simp_all
  moreover have "RBT.lookup (ca_entries a) (ca_next a) = None"
    using ok by (auto simp: arena_ok_def) (metis less_irrefl not_None_eq)
  ultimately show ?thesis using fresh by (simp add: arena_defs)
qed

lemma allocated_stack_is_delivered_witness:
  "fst (consume (foldl arena_step (snd (allocate arena_new 7 (Scheduled 2) ''stack'' 3 (None :: unit option) None
        :: (unit sched_error + continuation_token) \<times> _)) [DisposeOrigin RootTask])
      \<lparr>tk_owner = 7, tk_continuation = 0\<rparr> (Scheduled 2) Resume) = (Ok (''stack'', 3) :: unit sched_error + string \<times> nat)"
proof -
  let ?tok = "\<lparr>tk_owner = 7, tk_continuation = 0\<rparr>"
  have "\<exists>a1. (allocate (foldl arena_step arena_new []) 7 (Scheduled 2) ''stack'' 3 (None :: unit option) None
      :: (unit sched_error + continuation_token) \<times> _) = (Ok ?tok, a1)"
    by (simp add: arena_defs arena_new_def)
  then obtain a1 where a1: "(allocate (foldl arena_step arena_new []) 7 (Scheduled 2) ''stack'' 3 (None :: unit option) None
      :: (unit sched_error + continuation_token) \<times> _) = (Ok ?tok, a1)" by blast
  show ?thesis
    using allocated_stack_is_delivered [OF a1, of "[DisposeOrigin RootTask]" Resume] a1 by simp
qed

section \<open>Checkpoint round trip\<close>

text \<open>Collecting captures that establish a relation \<open>Q\<close>, which later captures keep.\<close>

lemma collect_entries_rel:
  assumes step: "\<And>s x y s'. f s x = (Ok y, s') \<Longrightarrow> Q s' x y \<and> (\<forall>v w. Q s v w \<longrightarrow> Q s' v w)"
    and run: "collect_entries f s xs = (Ok m, s')"
  shows "(\<forall>n. rel_option (\<lambda>x y. Q s' x y) (map_of xs n) (RBT.lookup m n)) \<and> (\<forall>v w. Q s v w \<longrightarrow> Q s' v w)"
  using run
proof (induction xs arbitrary: s m)
  case (Cons x xs)
  obtain n v where x: "x = (n, v)" by fastforce
  obtain y s1 m1 where y: "f s v = (Ok y, s1)" "collect_entries f s1 xs = (Ok m1, s')"
    "m = RBT.insert n y m1"
    using Cons.prems x by (auto split: prod.splits sum.splits)
  from step [OF y(1)] Cons.IH [OF y(2)] show ?case by (auto simp: x y(3))
qed simp

lemma collect_entries_total:
  assumes "\<forall>x \<in> snd ` set xs. f s x = (Ok (g x), s)"
  shows "\<exists>m. collect_entries f s xs = (Ok m, s) \<and> (\<forall>n. RBT.lookup m n = map_option g (map_of xs n))"
  using assms by (induction xs) (auto split: prod.splits)

lemma validate_entries_iff:
  "validate_entries n es = Ok () \<longleftrightarrow>
     (\<forall>(i, e) \<in> set es. i < n \<and> (cs_state e = ArmOwned \<longleftrightarrow> cs_continuation e \<noteq> None))"
  by (induction n es rule: validate_entries.induct) auto

text \<open>\<open>saves e c\<close>: the snapshot \<open>c\<close> is that of the entry \<open>e\<close>, its stack found at its index by
  \<open>stack_at\<close> and its program by \<open>program_of\<close>.\<close>

definition saves ::
  "('q \<Rightarrow> 'p) \<Rightarrow> (nat \<Rightarrow> 'c option) \<Rightarrow> ('c, 'p) continuation_entry \<Rightarrow> 'q continuation_entry_snapshot \<Rightarrow> bool"
where
  "saves program_of stack_at e c \<longleftrightarrow>
     cs_binder c = ce_binder e \<and> map_option program_of (cs_program c) = ce_program e \<and>
     cs_owner c = ce_owner e \<and> cs_origin c = ce_origin e \<and> cs_output c = ce_output e \<and>
     cs_state c = ce_state e \<and>
     (case cs_continuation c of None \<Rightarrow> ce_continuation e = None
      | Some i \<Rightarrow> ce_continuation e \<noteq> None \<and> stack_at i = ce_continuation e)"

lemma capture_entry_saves:
  assumes identity: "\<And>s p q s'. identity s p = (q, s') \<Longrightarrow>
      program_of q = p \<and> (\<forall>i c. stack_at s i = Some c \<longrightarrow> stack_at s' i = Some c)"
    and save: "\<And>s t p c i s'. save s t p c = (Ok i, s') \<Longrightarrow>
      stack_at s' i = Some c \<and> (\<forall>j d. stack_at s j = Some d \<longrightarrow> stack_at s' j = Some d)"
    and capture: "capture_entry identity save s e = (Ok y, s')"
  shows "saves program_of (stack_at s') e y \<and>
    (\<forall>v w. saves program_of (stack_at s) v w \<longrightarrow> saves program_of (stack_at s') v w)"
proof -
  obtain q s1 where q: "(case ce_program e of None \<Rightarrow> (None, s)
      | Some p \<Rightarrow> (case identity s p of (q, s') \<Rightarrow> (Some q, s'))) = (q, s1)" by fastforce
  have program: "map_option program_of q = ce_program e"
    and grow1: "\<forall>i c. stack_at s i = Some c \<longrightarrow> stack_at s1 i = Some c"
    using q identity by (auto split: option.splits prod.splits)
  have grow: "\<forall>i c. stack_at s1 i = Some c \<longrightarrow> stack_at s' i = Some c"
    and y: "saves program_of (stack_at s') e y"
    using capture q program save
    by (auto simp: capture_entry_def saves_def split: option.splits prod.splits)
  have "saves program_of (stack_at s') v w" if "saves program_of (stack_at s) v w" for v w
    using that grow1 grow by (auto simp: saves_def split: option.splits)
  with y show ?thesis by blast
qed

text \<open>\<^bold>\<open>C40\<close>. A checkpoint preserves the arena. Capturing a well-formed arena gives a snapshot that
  passes validation, and restoring it gives an arena with the same counter and the same entries,
  consumed ones included, so that no token revives and no identifier is reused. The codec of
  stacks and programs is a parameter: saving a stack records it at the index it returns and keeps
  earlier ones, and loading returns what was recorded.\<close>

theorem arena_roundtrip:
  assumes ok: "arena_ok a"
    and identity: "\<And>s p q s'. identity s p = (q, s') \<Longrightarrow>
      program_of q = p \<and> (\<forall>i c. stack_at s i = Some c \<longrightarrow> stack_at s' i = Some c)"
    and save: "\<And>s t p c i s'. save s t p c = (Ok i, s') \<Longrightarrow>
      stack_at s' i = Some c \<and> (\<forall>j d. stack_at s j = Some d \<longrightarrow> stack_at s' j = Some d)"
    and capture: "arena_capture identity save s a = (Ok snap, s')"
    and load: "\<And>u t q i. (\<forall>j. i = Some j \<longrightarrow> stack_at s' j \<noteq> None) \<Longrightarrow>
      load u t q i = (Ok (case i of None \<Rightarrow> None | Some j \<Rightarrow> stack_at s' j, map_option program_of q), u)"
    and bound: "\<And>n e b. RBT.lookup (ca_entries a) n = Some e \<Longrightarrow> ce_binder e = Some b \<Longrightarrow>
      \<exists>p. ce_program e = Some p \<and> has_binding p b"
  shows "arena_validate snap = Ok () \<and>
    (\<exists>a'. fst (arena_restore has_binding load u snap) = Ok a' \<and> ca_next a' = ca_next a \<and>
      RBT.lookup (ca_entries a') = RBT.lookup (ca_entries a))"
proof -
  have run: "collect_entries (capture_entry identity save) s (RBT.entries (ca_entries a)) = (Ok (sn_entries snap), s')"
    and nxt: "sn_next snap = ca_next a"
    using capture by (auto simp: arena_capture_def split: prod.splits)
  have saved: "rel_option (saves program_of (stack_at s')) (RBT.lookup (ca_entries a) n) (RBT.lookup (sn_entries snap) n)" for n
    using collect_entries_rel [where Q = "\<lambda>s. saves program_of (stack_at s)",
        OF capture_entry_saves [of identity program_of stack_at save, OF identity save] run]
    by (simp add: map_of_entries)
  have each: "\<exists>e. RBT.lookup (ca_entries a) n = Some e \<and> saves program_of (stack_at s') e c"
    if "RBT.lookup (sn_entries snap) n = Some c" for n c
    using saved [of n] that by (cases "RBT.lookup (ca_entries a) n") auto
  have valid: "arena_validate snap = Ok ()"
    unfolding arena_validate_def validate_entries_iff
  proof (intro ballI, clarify)
    fix n c
    assume "(n, c) \<in> set (RBT.entries (sn_entries snap))"
    then have "RBT.lookup (sn_entries snap) n = Some c" by (simp add: lookup_in_tree)
    from each [OF this] obtain e where e: "RBT.lookup (ca_entries a) n = Some e" "saves program_of (stack_at s') e c"
      by blast
    then have owned: "cs_state c = ArmOwned \<longleftrightarrow> cs_continuation c \<noteq> None"
      using ok by (auto simp: arena_ok_def saves_def split: option.splits)
    moreover have "n < sn_next snap" using e ok nxt by (auto simp: arena_ok_def)
    ultimately show "n < sn_next snap \<and> (cs_state c = ArmOwned \<longleftrightarrow> cs_continuation c \<noteq> None)" by blast
  qed
  define unsave where "unsave = (\<lambda>c :: 'd continuation_entry_snapshot. \<lparr>ce_binder = cs_binder c, ce_program = map_option program_of (cs_program c),
    ce_owner = cs_owner c, ce_origin = cs_origin c,
    ce_continuation = (case cs_continuation c of None \<Rightarrow> None | Some j \<Rightarrow> stack_at s' j),
    ce_output = cs_output c, ce_state = cs_state c\<rparr>)"
  have unsave: "unsave c = e" if "saves program_of (stack_at s') e c" for e c
    using that by (cases e) (auto simp: unsave_def saves_def split: option.splits)
  have "restore_entry has_binding load u c = (Ok (unsave c), u)"
    if "RBT.lookup (sn_entries snap) n = Some c" for n c
  proof -
    from each [OF that] obtain e
      where e: "RBT.lookup (ca_entries a) n = Some e" "saves program_of (stack_at s') e c" by blast
    have "\<forall>j. cs_continuation c = Some j \<longrightarrow> stack_at s' j \<noteq> None"
      using e by (auto simp: saves_def)
    from load [OF this, of u "cs_origin c" "cs_program c"] e bound [OF e(1)] show ?thesis
      by (auto simp: restore_entry_def unsave_def saves_def split: option.splits)
  qed
  then have "\<forall>c \<in> snd ` set (RBT.entries (sn_entries snap)). restore_entry has_binding load u c = (Ok (unsave c), u)"
    by (auto simp flip: lookup_in_tree)
  from collect_entries_total [where f = "restore_entry has_binding load" and g = unsave, OF this] obtain m
    where m: "collect_entries (restore_entry has_binding load) u (RBT.entries (sn_entries snap)) = (Ok m, u)"
      "\<And>n. RBT.lookup m n = map_option unsave (RBT.lookup (sn_entries snap) n)"
    by (auto simp: map_of_entries)
  have "RBT.lookup m n = RBT.lookup (ca_entries a) n" for n
    using m(2) [of n] saved [of n] unsave by (auto elim!: option.rel_cases)
  then have "RBT.lookup m = RBT.lookup (ca_entries a)" by blast
  with valid m(1) nxt show ?thesis by (auto simp: arena_restore_def)
qed

definition sample_arena :: "(string, unit) continuation_arena" where
  "sample_arena =
     \<lparr>ca_next = 1,
      ca_entries = RBT.insert 0
        \<lparr>ce_binder = None, ce_program = None, ce_owner = 7, ce_origin = RootTask,
         ce_continuation = Some ''stack'', ce_output = 3, ce_state = ArmOwned\<rparr> RBT.empty\<rparr>"

definition list_save :: "string list \<Rightarrow> task_identity \<Rightarrow> unit option \<Rightarrow> string \<Rightarrow> (string + nat) \<times> string list" where
  "list_save s t p c = (Ok (length s), s @ [c])"

definition list_at :: "string list \<Rightarrow> nat \<Rightarrow> string option" where
  "list_at s i = (if i < length s then Some (s ! i) else None)"

definition list_load ::
  "string list \<Rightarrow> unit \<Rightarrow> task_identity \<Rightarrow> unit option \<Rightarrow> nat option \<Rightarrow> (string + string option \<times> unit option) \<times> unit"
where
  "list_load saved u t q i = (Ok (case i of None \<Rightarrow> None | Some j \<Rightarrow> list_at saved j, map_option id q), u)"

lemma sample_arena_capture:
  "\<exists>snap. arena_capture (\<lambda>s p. (p, s)) list_save [] sample_arena = (Ok snap, [''stack''])"
proof -
  have "snd (arena_capture (\<lambda>s p. (p, s)) list_save [] sample_arena) = [''stack'']"
    "\<not> isl (fst (arena_capture (\<lambda>s p. (p, s)) list_save [] sample_arena))"
    by code_simp+
  then show ?thesis by (cases "arena_capture (\<lambda>s p. (p, s)) list_save [] sample_arena") (auto simp: isl_def, metis sum.exhaust)
qed

lemma arena_roundtrip_witness:
  "\<exists>snap a'. arena_capture (\<lambda>s p. (p, s)) list_save [] sample_arena = (Ok snap, [''stack'']) \<and>
     arena_validate snap = Ok () \<and>
     fst (arena_restore (\<lambda>_ _. True) (list_load [''stack'']) () snap) = Ok a' \<and>
     ca_next a' = 1 \<and> RBT.lookup (ca_entries a') = RBT.lookup (ca_entries sample_arena)"
proof -
  obtain snap where snap: "arena_capture (\<lambda>s p. (p, s)) list_save [] sample_arena = (Ok snap, [''stack''])"
    using sample_arena_capture by blast
  have "arena_validate snap = Ok () \<and>
    (\<exists>a'. fst (arena_restore (\<lambda>_ _. True) (list_load [''stack'']) () snap) = Ok a' \<and>
      ca_next a' = ca_next sample_arena \<and>
      RBT.lookup (ca_entries a') = RBT.lookup (ca_entries sample_arena))"
  proof (rule arena_roundtrip [where stack_at = list_at and program_of = id, OF _ _ _ snap])
    show "arena_ok sample_arena" by (simp add: sample_arena_def arena_ok_def)
    show "(p, s) = (q, s') \<Longrightarrow> id q = p \<and> (\<forall>i c. list_at s i = Some c \<longrightarrow> list_at s' i = Some c)"
      for p q :: unit and s s' by simp
    show "list_save s t p c = (Ok i, s') \<Longrightarrow>
        list_at s' i = Some c \<and> (\<forall>j d. list_at s j = Some d \<longrightarrow> list_at s' j = Some d)" for s t p c i s'
      by (auto simp: list_save_def list_at_def nth_append)
    show "list_load [''stack''] u t q i =
        (Ok (case i of None \<Rightarrow> None | Some j \<Rightarrow> list_at [''stack''] j, map_option id q), u)" for u t q i
      by (simp add: list_load_def)
    show "\<exists>p. ce_program e = Some p \<and> True"
      if "RBT.lookup (ca_entries sample_arena) n = Some e" "ce_binder e = Some b" for n e b
      using that by (auto simp: sample_arena_def split: if_splits)
  qed
  moreover have "ca_next sample_arena = 1" by (simp add: sample_arena_def)
  ultimately show ?thesis using snap by auto
qed

end
