(* ===== verification/Scheduler.thy ===== *)
theory Scheduler
  imports Value Resource_Guards Continuation_Arena
begin

text \<open>
  The cooperative task scheduler, \<open>driver/scheduler/\<close> (\<open>mod.rs\<close>, \<open>task.rs\<close>, \<open>group.rs\<close>) and the
  task-local state it forks (\<open>eval/run_state.rs\<close>): structured scopes with a concurrency limit and a
  completion policy, tasks with their states, waiters and cached outcomes, FIFO admission, resource
  permits, host and CPU waits, cancellation, and the outcome of a settled scope.

  A method that mutates the scheduler is a function from the state to a result and the new state;
  a Rust panic (an \<open>expect\<close>, an index of a map at a missing key, a failed assertion) is the error
  \<open>SchedPanic\<close>, a loop that would not end is \<open>SchedPanic\<close> as well. The state after an error is the
  state the code leaves behind. The values the scheduler only stores and hands on (machines,
  programs, continuations, failures, cancellation reasons and causes) are of type \<open>'x\<close>. The host's
  execution scopes are not part of this repository: their operations are the parameter
  \<open>host_ops\<close>, acting on a state \<open>'w\<close> that the scheduler state carries in \<open>sc_world\<close>.
\<close>

section \<open>Tasks\<close>

datatype task_wait = WaitTask nat | WaitScope nat | WaitHost nat | WaitCpu nat | WaitResource nat

datatype task_state =
    Ready
  | Running
  | Waiting task_wait
  | StCompleted
  | StRaised
  | StFailed
  | StCancelled

definition is_terminal :: "task_state \<Rightarrow> bool" where
  "is_terminal st = (st \<in> {StCompleted, StRaised, StFailed, StCancelled})"

text \<open>A raised effect carries the arguments of its \<open>PendingPerform\<close> and the rest of it.\<close>

datatype 'x task_outcome =
    Completed "'x interp_value"
  | Raised "'x interp_value list" 'x
  | Failed 'x
  | Cancelled 'x

fun outcome_state :: "'x task_outcome \<Rightarrow> task_state" where
  "outcome_state (Completed _) = StCompleted"
| "outcome_state (Raised _ _) = StRaised"
| "outcome_state (Failed _) = StFailed"
| "outcome_state (Cancelled _) = StCancelled"

record task_handle =
  h_owner :: nat
  h_task :: nat

record 'x task_local =
  tl_identity :: task_identity
  tl_parent :: "task_identity option"
  tl_scope :: nat
  tl_execution :: 'x
  tl_cancellation :: "'x + 'x"
  tl_model_policy :: 'x
  tl_retry_stack :: "'x list"
  tl_handler_stack :: "'x list"
  tl_residual :: "'x option"

definition dynamic_depths :: "'x task_local \<Rightarrow> nat \<times> nat" where
  "dynamic_depths self = (length (tl_handler_stack self), length (tl_retry_stack self))"

record 'x scheduled_task =
  t_inherited_dynamic :: "nat \<times> nat"
  t_start :: "'x option"
  t_scope :: nat
  t_machine :: 'x
  t_local :: "'x task_local"
  t_program :: "'x option"
  t_handler_floor :: nat
  t_state :: task_state
  t_outcome :: "'x task_outcome option"
  t_waiters :: "nat list"
  t_waiting_continuation :: "'x option"
  t_source_index :: nat
  t_cpu_capsule :: "'x option"
  t_active_slot :: bool
  t_resource_keys :: "runtime_resource_key list"

definition task_new ::
  "nat \<Rightarrow> 'x \<Rightarrow> 'x task_local \<Rightarrow> 'x option \<Rightarrow> nat \<Rightarrow> nat \<Rightarrow> 'x scheduled_task"
where
  "task_new scope machine local program handler_floor source_index =
     \<lparr>t_inherited_dynamic = dynamic_depths local, t_start = None, t_scope = scope,
      t_machine = machine, t_local = local, t_program = program, t_handler_floor = handler_floor,
      t_state = Ready, t_outcome = None, t_waiters = [], t_waiting_continuation = None,
      t_source_index = source_index, t_cpu_capsule = None, t_active_slot = False,
      t_resource_keys = []\<rparr>"

section \<open>Groups\<close>

datatype task_group_policy =
  PolicyRun | JoinTuple | JoinArray | TryJoin | Collect | Race | PolicyMap | MapCollect

fun policy_str :: "task_group_policy \<Rightarrow> string" where
  "policy_str PolicyRun = ''run''"
| "policy_str JoinTuple = ''join_tuple''"
| "policy_str JoinArray = ''join_array''"
| "policy_str TryJoin = ''try_join''"
| "policy_str Collect = ''collect''"
| "policy_str Race = ''race''"
| "policy_str PolicyMap = ''map_concurrent''"
| "policy_str MapCollect = ''map_concurrent_collect''"

record task_group =
  g_parent :: "nat option"
  g_concurrency :: nat
  g_serialize_host_actions :: bool
  g_guard_resources :: bool
  g_serial_task_admission :: bool
  g_policy :: task_group_policy
  g_active :: nat
  g_tasks :: "(nat, unit) rbt"
  g_owner :: "nat option"
  g_waiters :: "nat list"
  g_primary_failure :: "nat option"
  g_winner :: "nat option"

definition group_new :: "nat option \<Rightarrow> nat \<Rightarrow> task_group_policy \<Rightarrow> task_group" where
  "group_new parent concurrency policy =
     \<lparr>g_parent = parent, g_concurrency = concurrency, g_serialize_host_actions = False,
      g_guard_resources = False, g_serial_task_admission = False, g_policy = policy, g_active = 0,
      g_tasks = RBT.empty, g_owner = None, g_waiters = [], g_primary_failure = None,
      g_winner = None\<rparr>"

section \<open>The scheduler state\<close>

datatype 'x task_wakeup =
    WakeTask task_handle "'x task_outcome"
  | WakeScope nat "'x task_outcome"

datatype 'x decision = DecisionReady "'x task_outcome" | Parked

record ('x, 'w) host_ops =
  exec_child :: "'x \<Rightarrow> 'w \<Rightarrow> ('x + 'x) \<times> 'w"
  exec_claim_body :: "'x \<Rightarrow> 'w \<Rightarrow> ('x + unit) \<times> 'w"
  exec_signal :: "'x \<Rightarrow> 'w \<Rightarrow> 'x + 'x"
  signal_cause :: "'x \<Rightarrow> 'w \<Rightarrow> 'x + 'x option"
  exec_stop :: "'x \<Rightarrow> 'x \<Rightarrow> 'w \<Rightarrow> ('x + unit) \<times> 'w"
  exec_finish_body :: "'x \<Rightarrow> bool \<Rightarrow> 'w \<Rightarrow> ('x + unit) \<times> 'w"
  capsule_for :: "'x \<Rightarrow> 'x \<Rightarrow> 'x"

record ('x, 'w) scheduler =
  sc_next_scope :: nat
  sc_next_task :: nat
  sc_groups :: "(nat, task_group) rbt"
  sc_tasks :: "(nat, 'x scheduled_task) rbt"
  sc_ready :: "nat list"
  sc_wakeups :: "(nat, 'x task_wakeup list) rbt"
  sc_cancellation_events :: "(task_handle \<times> 'x) list"
  sc_continuations :: "('x, 'x) continuation_arena"
  sc_resources :: resource_guards
  sc_checkpoint_barrier :: bool
  sc_world :: 'w

type_synonym ('x, 'w, 'a) sched = "('x, 'w) scheduler \<Rightarrow> ('x sched_error + 'a) \<times> ('x, 'w) scheduler"

definition sret :: "'a \<Rightarrow> ('x, 'w, 'a) sched" where
  "sret x s = (Ok x, s)"

definition sfail :: "'x sched_error \<Rightarrow> ('x, 'w, 'a) sched" where
  "sfail e s = (Err e, s)"

definition sbind :: "('x, 'w, 'a) sched \<Rightarrow> ('a \<Rightarrow> ('x, 'w, 'b) sched) \<Rightarrow> ('x, 'w, 'b) sched" where
  "sbind m f s = (case m s of (Inl e, s') \<Rightarrow> (Err e, s') | (Inr x, s') \<Rightarrow> f x s')"

definition sget :: "(('x, 'w) scheduler \<Rightarrow> 'a) \<Rightarrow> ('x, 'w, 'a) sched" where
  "sget f s = (Ok (f s), s)"

definition sread :: "(('x, 'w) scheduler \<Rightarrow> 'x sched_error + 'a) \<Rightarrow> ('x, 'w, 'a) sched" where
  "sread f s = (f s, s)"

definition supd :: "(('x, 'w) scheduler \<Rightarrow> ('x, 'w) scheduler) \<Rightarrow> ('x, 'w, unit) sched" where
  "supd f s = (Ok (), f s)"

definition sassert :: "bool \<Rightarrow> string \<Rightarrow> ('x, 'w, unit) sched" where
  "sassert b message = (if b then sret () else sfail (SchedPanic message))"

text \<open>A call of the host.\<close>

definition shost :: "('w \<Rightarrow> ('x + 'a) \<times> 'w) \<Rightarrow> ('x, 'w, 'a) sched" where
  "shost f s =
     (case f (sc_world s) of
        (Inl e, w) \<Rightarrow> (Err (HostError e), s\<lparr>sc_world := w\<rparr>)
      | (Inr x, w) \<Rightarrow> (Ok x, s\<lparr>sc_world := w\<rparr>))"

text \<open>Indexing a map, \<open>map[&key]\<close> and \<open>get(..).expect(..)\<close>, panics at a missing key.\<close>

definition task_at :: "('x, 'w) scheduler \<Rightarrow> nat \<Rightarrow> 'x sched_error + 'x scheduled_task" where
  "task_at s n = ok_or (RBT.lookup (sc_tasks s) n) (SchedPanic ''task must exist'')"

definition group_at :: "('x, 'w) scheduler \<Rightarrow> nat \<Rightarrow> 'x sched_error + task_group" where
  "group_at s n = ok_or (RBT.lookup (sc_groups s) n) (SchedPanic ''task scope must exist'')"

definition upd_task ::
  "nat \<Rightarrow> ('x scheduled_task \<Rightarrow> 'x scheduled_task) \<Rightarrow> ('x, 'w) scheduler \<Rightarrow> ('x, 'w) scheduler"
where
  "upd_task n f s = s\<lparr>sc_tasks := RBT.map_entry n f (sc_tasks s)\<rparr>"

definition upd_group ::
  "nat \<Rightarrow> (task_group \<Rightarrow> task_group) \<Rightarrow> ('x, 'w) scheduler \<Rightarrow> ('x, 'w) scheduler"
where
  "upd_group n f s = s\<lparr>sc_groups := RBT.map_entry n f (sc_groups s)\<rparr>"

definition push_ready :: "nat \<Rightarrow> ('x, 'w) scheduler \<Rightarrow> ('x, 'w) scheduler" where
  "push_ready n s = s\<lparr>sc_ready := sc_ready s @ [n]\<rparr>"

section \<open>Walking the scope ancestry\<close>

text \<open>
  The loops over the parents of a scope. \<open>fuel\<close> bounds the iterations by the number of groups
  plus one: a walk that ends visits every group at most once.
\<close>

definition scope_fuel :: "('x, 'w) scheduler \<Rightarrow> nat" where
  "scope_fuel s = Suc (length (RBT.keys (sc_groups s)))"

fun any_ancestor ::
  "nat \<Rightarrow> (task_group \<Rightarrow> bool) \<Rightarrow> nat \<Rightarrow> ('x, 'w) scheduler \<Rightarrow> 'x sched_error + bool"
where
  "any_ancestor 0 p scope s = Err (SchedPanic ''scope ancestry does not end'')"
| "any_ancestor (Suc fuel) p scope s =
     rbind (group_at s scope) (\<lambda>g.
       if p g then Ok True
       else (case g_parent g of None \<Rightarrow> Ok False | Some parent \<Rightarrow> any_ancestor fuel p parent s))"

definition can_admit :: "nat \<Rightarrow> ('x, 'w) scheduler \<Rightarrow> 'x sched_error + bool" where
  "can_admit scope s =
     rmap Not (any_ancestor (scope_fuel s) (\<lambda>g. g_active g \<ge> g_concurrency g) scope s)"

definition requires_resource_guards :: "nat \<Rightarrow> ('x, 'w) scheduler \<Rightarrow> 'x sched_error + bool" where
  "requires_resource_guards scope s = any_ancestor (scope_fuel s) g_guard_resources scope s"

definition scope_serialized :: "nat \<Rightarrow> ('x, 'w) scheduler \<Rightarrow> 'x sched_error + bool" where
  "scope_serialized scope s = any_ancestor (scope_fuel s) g_serialize_host_actions scope s"

definition serial_task_admission :: "nat \<Rightarrow> ('x, 'w) scheduler \<Rightarrow> 'x sched_error + bool" where
  "serial_task_admission scope s = any_ancestor (scope_fuel s) g_serial_task_admission scope s"

fun descends :: "nat \<Rightarrow> nat \<Rightarrow> nat \<Rightarrow> ('x, 'w) scheduler \<Rightarrow> 'x sched_error + bool" where
  "descends 0 scope ancestor s = Err (SchedPanic ''scope ancestry does not end'')"
| "descends (Suc fuel) scope ancestor s =
     (if scope = ancestor then Ok True
      else rbind (group_at s scope) (\<lambda>g.
        case g_parent g of None \<Rightarrow> Ok False | Some parent \<Rightarrow> descends fuel parent ancestor s))"

definition is_descendant_of :: "nat \<Rightarrow> nat \<Rightarrow> ('x, 'w) scheduler \<Rightarrow> 'x sched_error + bool" where
  "is_descendant_of scope ancestor s = descends (scope_fuel s) scope ancestor s"

fun change_active_from :: "nat \<Rightarrow> nat \<Rightarrow> bool \<Rightarrow> ('x, 'w, unit) sched" where
  "change_active_from 0 scope increment s = sfail (SchedPanic ''scope ancestry does not end'') s"
| "change_active_from (Suc fuel) scope increment s =
     sbind (sread (\<lambda>s. group_at s scope)) (\<lambda>g.
     if increment then
       sbind (supd (upd_group scope (\<lambda>g. g\<lparr>g_active := g_active g + 1\<rparr>))) (\<lambda>_.
         case g_parent g of None \<Rightarrow> sret () | Some parent \<Rightarrow> change_active_from fuel parent increment)
     else if g_active g = 0 then sfail (SchedPanic ''active task slot underflow'')
     else
       sbind (supd (upd_group scope (\<lambda>g. g\<lparr>g_active := g_active g - 1\<rparr>))) (\<lambda>_.
         case g_parent g of None \<Rightarrow> sret () | Some parent \<Rightarrow> change_active_from fuel parent increment)) s"

definition change_active :: "nat \<Rightarrow> bool \<Rightarrow> ('x, 'w, unit) sched" where
  "change_active scope increment s = change_active_from (scope_fuel s) scope increment s"

section \<open>Creation\<close>

definition scheduler_new :: "nat \<Rightarrow> nat \<Rightarrow> 'w \<Rightarrow> 'x sched_error + ('x, 'w) scheduler" where
  "scheduler_new owner concurrency w =
     rmap (\<lambda>n.
       \<lparr>sc_next_scope = n, sc_next_task = 0,
        sc_groups = RBT.insert owner (group_new None concurrency PolicyRun) RBT.empty,
        sc_tasks = RBT.empty, sc_ready = [], sc_wakeups = RBT.empty, sc_cancellation_events = [],
        sc_continuations = arena_new, sc_resources = guards_default,
        sc_checkpoint_barrier = False, sc_world = w\<rparr>)
       (checked_succ owner ''task scope id exhausted'')"

definition create_scope_with_policy ::
  "nat \<Rightarrow> nat \<Rightarrow> task_group_policy \<Rightarrow> ('x, 'w, nat) sched"
where
  "create_scope_with_policy parent concurrency policy =
     sbind (sget (\<lambda>s. RBT.lookup (sc_groups s) parent \<noteq> None)) (\<lambda>known.
     sbind (sassert known ''parent task scope must exist'') (\<lambda>_.
     sbind (sget sc_next_scope) (\<lambda>n.
     sbind (sread (\<lambda>_. checked_succ n ''task scope id exhausted'')) (\<lambda>n'.
     sbind (supd (\<lambda>s. s\<lparr>sc_next_scope := n'\<rparr>)) (\<lambda>_.
     sbind (sget (\<lambda>s. RBT.lookup (sc_groups s) n = None)) (\<lambda>fresh.
     sbind (supd (\<lambda>s. s\<lparr>sc_groups :=
       RBT.insert n (group_new (Some parent) concurrency policy) (sc_groups s)\<rparr>)) (\<lambda>_.
     sbind (sassert fresh ''task scope id must be unique'') (\<lambda>_.
     sret n))))))))"

definition create_scope :: "nat \<Rightarrow> nat \<Rightarrow> ('x, 'w, nat) sched" where
  "create_scope parent concurrency = create_scope_with_policy parent concurrency PolicyRun"

section \<open>Continuations\<close>

definition on_arena ::
  "(('x, 'x) continuation_arena \<Rightarrow> ('x sched_error + 'a) \<times> ('x, 'x) continuation_arena) \<Rightarrow> ('x, 'w, 'a) sched"
where
  "on_arena f s = (case f (sc_continuations s) of (r, a) \<Rightarrow> (r, s\<lparr>sc_continuations := a\<rparr>))"

definition allocate_continuation ::
  "nat \<Rightarrow> task_identity \<Rightarrow> 'x \<Rightarrow> nat \<Rightarrow> 'x option \<Rightarrow> nat option \<Rightarrow> ('x, 'w, continuation_token) sched"
where
  "allocate_continuation owner origin continuation out program bnd =
     sbind (sget (\<lambda>s. RBT.lookup (sc_groups s) owner \<noteq> None)) (\<lambda>known.
     sbind (sassert known ''continuation scope must exist'') (\<lambda>_.
     on_arena (\<lambda>a. allocate a owner origin continuation out program bnd)))"

definition consume_continuation ::
  "continuation_token \<Rightarrow> task_identity \<Rightarrow> continuation_transfer \<Rightarrow> ('x, 'w, 'x \<times> nat) sched"
where
  "consume_continuation token origin transfer = on_arena (\<lambda>a. consume a token origin transfer)"

definition dispose_continuation :: "continuation_token \<Rightarrow> task_identity \<Rightarrow> ('x, 'w, unit) sched" where
  "dispose_continuation token origin = on_arena (\<lambda>a. dispose a token origin)"

section \<open>Spawning\<close>

definition child_in_scope ::
  "('x, 'w) host_ops \<Rightarrow> 'x task_local \<Rightarrow> nat \<Rightarrow> nat \<Rightarrow> ('x, 'w, 'x task_local) sched"
where
  "child_in_scope ho parent scope identity =
     sbind (shost (exec_child ho (tl_execution parent))) (\<lambda>execution.
     sbind (shost (exec_claim_body ho execution)) (\<lambda>_.
     sbind (sget (\<lambda>s. exec_signal ho execution (sc_world s))) (\<lambda>signal.
     sret \<lparr>tl_identity = Scheduled identity, tl_parent = Some (tl_identity parent), tl_scope = scope,
           tl_execution = execution, tl_cancellation = signal,
           tl_model_policy = tl_model_policy parent, tl_retry_stack = tl_retry_stack parent,
           tl_handler_stack = tl_handler_stack parent, tl_residual = None\<rparr>)))"

definition spawn_in_scope ::
  "('x, 'w) host_ops \<Rightarrow> 'x task_local \<Rightarrow> nat \<Rightarrow> 'x \<Rightarrow> 'x option \<Rightarrow> nat \<Rightarrow> nat \<Rightarrow> ('x, 'w, task_handle) sched"
where
  "spawn_in_scope ho parent scope machine program handler_floor source_index =
     sbind (sget sc_checkpoint_barrier) (\<lambda>barrier.
     sbind (sassert (\<not> barrier) ''task admission is paused by checkpoint barrier'') (\<lambda>_.
     sbind (sget (\<lambda>s. RBT.lookup (sc_groups s) scope \<noteq> None)) (\<lambda>known.
     if \<not> known then sfail WrongOwner
     else
       sbind (sget sc_next_task) (\<lambda>n.
       sbind (child_in_scope ho parent scope n) (\<lambda>local.
       sbind (sread (\<lambda>_. checked_succ n ''task id exhausted'')) (\<lambda>n'.
       sbind (supd (\<lambda>s. s\<lparr>sc_next_task := n',
         sc_tasks := RBT.insert n (task_new scope machine local program handler_floor source_index) (sc_tasks s)\<rparr>)) (\<lambda>_.
       sbind (supd (upd_group scope (\<lambda>g. g\<lparr>g_tasks := RBT.insert n () (g_tasks g)\<rparr>))) (\<lambda>_.
       sbind (supd (push_ready n)) (\<lambda>_.
       sret \<lparr>h_owner = scope, h_task = n\<rparr>)))))))))"

definition spawn ::
  "('x, 'w) host_ops \<Rightarrow> 'x task_local \<Rightarrow> 'x \<Rightarrow> 'x option \<Rightarrow> nat \<Rightarrow> nat \<Rightarrow> ('x, 'w, task_handle) sched"
where
  "spawn ho parent machine program handler_floor source_index =
     spawn_in_scope ho parent (tl_scope parent) machine program handler_floor source_index"

section \<open>Handles\<close>

definition resolve_id :: "task_handle \<Rightarrow> ('x, 'w) scheduler \<Rightarrow> 'x sched_error + nat" where
  "resolve_id handle s =
     (case RBT.lookup (sc_tasks s) (h_task handle) of
        None \<Rightarrow> Err UnknownTask
      | Some task \<Rightarrow> if h_owner handle \<noteq> t_scope task then Err WrongOwner else Ok (h_task handle))"

definition resolve :: "task_handle \<Rightarrow> ('x, 'w) scheduler \<Rightarrow> 'x sched_error + 'x scheduled_task" where
  "resolve handle s =
     rbind (resolve_id handle s) (\<lambda>_. ok_or (RBT.lookup (sc_tasks s) (h_task handle)) UnknownTask)"

text \<open>Most methods resolve their handle and then access the task.\<close>

definition with_task :: "task_handle \<Rightarrow> ('x scheduled_task \<Rightarrow> ('x, 'w, 'a) sched) \<Rightarrow> ('x, 'w, 'a) sched" where
  "with_task handle f =
     sbind (sread (resolve_id handle)) (\<lambda>n. sbind (sread (\<lambda>s. task_at s n)) f)"

definition set_scope_owner :: "nat \<Rightarrow> task_handle \<Rightarrow> ('x, 'w, unit) sched" where
  "set_scope_owner scope owner =
     sbind (sread (resolve_id owner)) (\<lambda>_.
     if h_owner owner \<noteq> scope then sfail WrongOwner
     else
       sbind (sread (\<lambda>s. ok_or (RBT.lookup (sc_groups s) scope) WrongOwner)) (\<lambda>g.
       sbind (supd (upd_group scope (\<lambda>g. g\<lparr>g_owner := Some (h_task owner)\<rparr>))) (\<lambda>_.
       if g_owner g \<noteq> None then sfail InvalidTransition else sret ())))"

definition attach_cpu_capsule ::
  "('x, 'w) host_ops \<Rightarrow> task_handle \<Rightarrow> 'x \<Rightarrow> ('x, 'w, unit) sched"
where
  "attach_cpu_capsule ho handle capsule =
     with_task handle (\<lambda>task.
       let capsule' = capsule_for ho capsule (tl_execution (t_local task)) in
       if t_state task \<noteq> Ready then sfail InvalidTransition
       else
         sbind (supd (upd_task (h_task handle) (\<lambda>t. t\<lparr>t_cpu_capsule := Some capsule'\<rparr>))) (\<lambda>_.
         if t_cpu_capsule task \<noteq> None then sfail InvalidTransition else sret ()))"

definition attach_start :: "task_handle \<Rightarrow> 'x \<Rightarrow> ('x, 'w, unit) sched" where
  "attach_start handle call =
     with_task handle (\<lambda>task.
       sbind (sassert (t_start task = None) ''task start origin is assigned once'') (\<lambda>_.
       supd (upd_task (h_task handle) (\<lambda>t. t\<lparr>t_start := Some call\<rparr>))))"

definition scheduler_state :: "task_handle \<Rightarrow> ('x, 'w) scheduler \<Rightarrow> 'x sched_error + task_state" where
  "scheduler_state handle s = rmap t_state (resolve handle s)"

definition attach_resources :: "task_handle \<Rightarrow> runtime_resource_key list \<Rightarrow> ('x, 'w, unit) sched" where
  "attach_resources handle keys =
     with_task handle (\<lambda>_.
       supd (upd_task (h_task handle) (\<lambda>t. t\<lparr>t_resource_keys := remdups_adj (sort keys)\<rparr>)))"

definition guard_scope :: "nat \<Rightarrow> ('x, 'w, unit) sched" where
  "guard_scope scope =
     sbind (sread (\<lambda>s. group_at s scope)) (\<lambda>_.
     supd (upd_group scope (\<lambda>g. g\<lparr>g_guard_resources := True\<rparr>)))"

definition serialize_scope :: "nat \<Rightarrow> ('x, 'w, unit) sched" where
  "serialize_scope scope =
     sbind (sread (\<lambda>s. group_at s scope)) (\<lambda>_.
     supd (upd_group scope (\<lambda>g. g\<lparr>g_serialize_host_actions := True\<rparr>)))"

text \<open>The tasks that keep their place when the invocation becomes serial: permit holders that are
  ready or wait for the host without an active slot.\<close>

definition retained :: "('x, 'w) scheduler \<Rightarrow> nat list" where
  "retained s =
     map fst (filter (\<lambda>(n, task).
       RBT.lookup (holders (sc_resources s)) n \<noteq> None \<and> \<not> t_active_slot task \<and>
       (case t_state task of Ready \<Rightarrow> True | Waiting (WaitHost _) \<Rightarrow> True | _ \<Rightarrow> False))
       (RBT.entries (sc_tasks s)))"

fun take_slots :: "nat list \<Rightarrow> ('x, 'w, unit) sched" where
  "take_slots [] = sret ()"
| "take_slots (n # ns) =
     sbind (sread (\<lambda>s. task_at s n)) (\<lambda>task.
     sbind (supd (upd_task n (\<lambda>t. t\<lparr>t_active_slot := True\<rparr>))) (\<lambda>_.
     sbind (change_active (t_scope task) True) (\<lambda>_.
     take_slots ns)))"

definition serialize_invocation :: "('x, 'w, nat) sched" where
  "serialize_invocation =
     sbind (sread (\<lambda>s. ok_or (find (\<lambda>(_, g). g_parent g = None) (RBT.entries (sc_groups s)))
       (SchedPanic ''root scope''))) (\<lambda>(root, _).
     sbind (supd (upd_group root (\<lambda>g. g\<lparr>g_concurrency := 1, g_serialize_host_actions := True,
       g_serial_task_admission := True\<rparr>))) (\<lambda>_.
     sbind (sget retained) (\<lambda>ns.
     sbind (take_slots ns) (\<lambda>_.
     sret root))))"

definition take_resource_events :: "('x, 'w, resource_event list) sched" where
  "take_resource_events =
     sbind (sget (\<lambda>s. rg_events (sc_resources s))) (\<lambda>events.
     sbind (supd (\<lambda>s. s\<lparr>sc_resources := (sc_resources s)\<lparr>rg_events := []\<rparr>\<rparr>)) (\<lambda>_.
     sret events))"

definition task_scope :: "nat \<Rightarrow> ('x, 'w) scheduler \<Rightarrow> 'x sched_error + nat" where
  "task_scope n s = rmap t_scope (task_at s n)"

definition scheduler_outcome ::
  "task_handle \<Rightarrow> ('x, 'w) scheduler \<Rightarrow> 'x sched_error + 'x task_outcome option"
where
  "scheduler_outcome handle s = rmap t_outcome (resolve handle s)"

definition scope_resolution ::
  "nat \<Rightarrow> ('x, 'w) scheduler \<Rightarrow> 'x sched_error + string \<times> nat option"
where
  "scope_resolution scope s =
     rbind (ok_or (RBT.lookup (sc_groups s) scope) WrongOwner) (\<lambda>g.
       case g_winner g of
         Some winner \<Rightarrow> Ok (''first_success'', Some winner)
       | None \<Rightarrow>
           (case g_primary_failure g of
              Some primary \<Rightarrow>
                rbind (if g_policy g = TryJoin then
                         rmap (\<lambda>t. case t_outcome t of Some (Raised _ _) \<Rightarrow> True | _ \<Rightarrow> False) (task_at s primary)
                       else Ok False) (\<lambda>captured.
                Ok (if captured then ''captured_primary_error'' else ''primary_failure'', Some primary))
            | None \<Rightarrow>
                (case g_owner g of
                   Some owner \<Rightarrow> Ok (''owner_completed'', Some owner)
                 | None \<Rightarrow> Ok (''all_completed'', None))))"

definition take_cancellation_events :: "('x, 'w, (task_handle \<times> 'x) list) sched" where
  "take_cancellation_events =
     sbind (sget sc_cancellation_events) (\<lambda>events.
     sbind (supd (\<lambda>s. s\<lparr>sc_cancellation_events := []\<rparr>)) (\<lambda>_.
     sret events))"

section \<open>Admission\<close>

text \<open>One iteration of the admission loop: \<open>None\<close> goes on to the next queue entry.\<close>

definition dispatch_one :: "nat \<Rightarrow> ('x, 'w, task_handle option) sched" where
  "dispatch_one n =
     sbind (sread (\<lambda>s. task_at s n)) (\<lambda>task.
     if t_state task \<noteq> Ready then sret None
     else
       sbind (if t_active_slot task then sret True else sread (can_admit (t_scope task))) (\<lambda>admit.
       if \<not> admit then sbind (supd (push_ready n)) (\<lambda>_. sret None)
       else
         sbind (sget (\<lambda>s. acquire (sc_resources s) n (t_resource_keys task))) (\<lambda>(granted, guards).
         sbind (supd (\<lambda>s. s\<lparr>sc_resources := guards\<rparr>)) (\<lambda>_.
         if \<not> granted then
           sbind (supd (upd_task n (\<lambda>t. t\<lparr>t_state := Waiting (WaitResource n)\<rparr>))) (\<lambda>_.
           sbind (supd (\<lambda>s. s\<lparr>sc_resources := (sc_resources s)\<lparr>
             rg_waiting := rg_waiting (sc_resources s) @ [n],
             rg_events := rg_events (sc_resources s) @ [WaitingFor n n]\<rparr>\<rparr>)) (\<lambda>_.
           sret None))
         else
           sbind (supd (upd_task n (\<lambda>t. t\<lparr>t_state := Running\<rparr>))) (\<lambda>_.
           sbind (if t_active_slot task then sret ()
                  else
                    sbind (supd (upd_task n (\<lambda>t. t\<lparr>t_active_slot := True\<rparr>))) (\<lambda>_.
                    change_active (t_scope task) True)) (\<lambda>_.
           sret (Some \<lparr>h_owner = t_scope task, h_task = n\<rparr>)))))))"

fun dispatch_loop :: "nat \<Rightarrow> ('x, 'w, task_handle option) sched" where
  "dispatch_loop 0 = sret None"
| "dispatch_loop (Suc k) =
     sbind (sget sc_ready) (\<lambda>ready.
       case ready of
         [] \<Rightarrow> sfail (SchedPanic ''bounded ready queue scan'')
       | n # rest \<Rightarrow>
           sbind (supd (\<lambda>s. s\<lparr>sc_ready := rest\<rparr>)) (\<lambda>_.
           sbind (dispatch_one n) (\<lambda>r.
             case r of Some handle \<Rightarrow> sret (Some handle) | None \<Rightarrow> dispatch_loop k)))"

definition dispatch_ready :: "('x, 'w, task_handle option) sched" where
  "dispatch_ready s =
     (if sc_checkpoint_barrier s then (Ok None, s) else dispatch_loop (length (sc_ready s)) s)"

definition begin_checkpoint_barrier :: "('x, 'w, unit) sched" where
  "begin_checkpoint_barrier =
     sbind (sget sc_checkpoint_barrier) (\<lambda>b.
     sbind (sassert (\<not> b) ''checkpoint barriers cannot nest'') (\<lambda>_.
     supd (\<lambda>s. s\<lparr>sc_checkpoint_barrier := True\<rparr>)))"

definition end_checkpoint_barrier :: "('x, 'w, unit) sched" where
  "end_checkpoint_barrier =
     sbind (sget sc_checkpoint_barrier) (\<lambda>b.
     sbind (sassert b ''checkpoint barrier must be active'') (\<lambda>_.
     supd (\<lambda>s. s\<lparr>sc_checkpoint_barrier := False\<rparr>)))"

section \<open>Taking tasks out and back\<close>

definition remove_task :: "nat \<Rightarrow> ('x, 'w) scheduler \<Rightarrow> ('x, 'w) scheduler" where
  "remove_task n s = s\<lparr>sc_tasks := RBT.delete n (sc_tasks s)\<rparr>"

definition insert_task :: "nat \<Rightarrow> 'x scheduled_task \<Rightarrow> ('x, 'w) scheduler \<Rightarrow> ('x, 'w) scheduler" where
  "insert_task n task s = s\<lparr>sc_tasks := RBT.insert n task (sc_tasks s)\<rparr>"

definition take_checkpoint_task :: "task_handle \<Rightarrow> ('x, 'w, 'x scheduled_task) sched" where
  "take_checkpoint_task handle =
     sbind (sget sc_checkpoint_barrier) (\<lambda>b.
     sbind (sassert b ''checkpoint task access requires a barrier'') (\<lambda>_.
     sbind (sread (\<lambda>s. task_at s (h_task handle))) (\<lambda>task.
     sbind (supd (remove_task (h_task handle))) (\<lambda>_.
     sbind (sassert (t_scope task = h_owner handle) ''assertion failed'') (\<lambda>_.
     sbind (sassert (t_state task = Ready) ''assertion failed'') (\<lambda>_.
     sret task))))))"

definition restore_checkpoint_task :: "task_handle \<Rightarrow> 'x scheduled_task \<Rightarrow> ('x, 'w, unit) sched" where
  "restore_checkpoint_task handle task =
     sbind (sget sc_checkpoint_barrier) (\<lambda>b.
     sbind (sassert b ''checkpoint task access requires a barrier'') (\<lambda>_.
     sbind (sassert (t_scope task = h_owner handle) ''assertion failed'') (\<lambda>_.
     sbind (sassert (t_state task = Ready) ''assertion failed'') (\<lambda>_.
     sbind (sget (\<lambda>s. RBT.lookup (sc_tasks s) (h_task handle) = None)) (\<lambda>fresh.
     sbind (supd (insert_task (h_task handle) task)) (\<lambda>_.
     sassert fresh ''checkpoint task restored once''))))))"

definition take_running :: "task_handle \<Rightarrow> ('x, 'w, 'x scheduled_task) sched" where
  "take_running handle =
     with_task handle (\<lambda>task.
       if t_state task \<noteq> Running then sfail InvalidTransition
       else sbind (supd (remove_task (h_task handle))) (\<lambda>_. sret task))"

definition restore_running :: "task_handle \<Rightarrow> 'x scheduled_task \<Rightarrow> ('x, 'w, unit) sched" where
  "restore_running handle task =
     (if h_owner handle \<noteq> t_scope task \<or> t_state task \<noteq> Running then sfail InvalidTransition
      else
        sbind (sget (\<lambda>s. RBT.lookup (sc_tasks s) (h_task handle) = None)) (\<lambda>fresh.
        sbind (supd (insert_task (h_task handle) task)) (\<lambda>_.
        if fresh then sret () else sfail InvalidTransition)))"

section \<open>Waiting\<close>

text \<open>Giving up the active slot, when the task holds one.\<close>

definition release_slot :: "nat \<Rightarrow> 'x scheduled_task \<Rightarrow> ('x, 'w, unit) sched" where
  "release_slot n task =
     (if t_active_slot task then
        sbind (supd (upd_task n (\<lambda>t. t\<lparr>t_active_slot := False\<rparr>))) (\<lambda>_.
        change_active (t_scope task) False)
      else sret ())"

definition requeue :: "task_handle \<Rightarrow> ('x, 'w, unit) sched" where
  "requeue handle =
     with_task handle (\<lambda>task.
     sbind (sread (serial_task_admission (t_scope task))) (\<lambda>retain_slot.
     if t_state task \<noteq> Running then sfail InvalidTransition
     else
       sbind (supd (upd_task (h_task handle) (\<lambda>t. t\<lparr>t_state := Ready\<rparr>))) (\<lambda>_.
       sbind (if retain_slot then sret () else release_slot (h_task handle) task) (\<lambda>_.
       supd (push_ready (h_task handle))))))"

definition await_task :: "task_handle \<Rightarrow> task_handle \<Rightarrow> ('x, 'w, 'x decision) sched" where
  "await_task waiter target =
     sbind (sread (resolve_id waiter)) (\<lambda>w.
     sbind (sread (resolve_id target)) (\<lambda>t.
     sbind (sread (\<lambda>s. task_at s w)) (\<lambda>wtask.
     if t_state wtask \<noteq> Running then sfail InvalidTransition
     else
       sbind (sread (\<lambda>s. task_at s t)) (\<lambda>ttask.
         case t_outcome ttask of
           Some outcome \<Rightarrow> sret (DecisionReady outcome)
         | None \<Rightarrow>
             sbind (supd (upd_task t (\<lambda>x. x\<lparr>t_waiters := t_waiters x @ [w]\<rparr>))) (\<lambda>_.
             sbind (supd (upd_task w (\<lambda>x. x\<lparr>t_state := Waiting (WaitTask t)\<rparr>))) (\<lambda>_.
             sbind (release_slot w wtask) (\<lambda>_.
             sret Parked)))))))"

section \<open>The outcome of a scope\<close>

definition result_value :: "string \<Rightarrow> 'x interp_value \<Rightarrow> 'x interp_value" where
  "result_value name v = Variant name [v]"

definition error_payload :: "'x interp_value list \<Rightarrow> 'x sched_error + 'x interp_value" where
  "error_payload args =
     (case args of [] \<Rightarrow> Err (SchedPanic ''checked Error.raise carries one payload'') | v # _ \<Rightarrow> Ok v)"

definition group_task_ids :: "task_group \<Rightarrow> nat list" where
  "group_task_ids g = RBT.keys (g_tasks g)"

fun any_unsettled :: "nat list \<Rightarrow> ('x, 'w) scheduler \<Rightarrow> 'x sched_error + bool" where
  "any_unsettled [] s = Ok False"
| "any_unsettled (n # ns) s =
     rbind (task_at s n) (\<lambda>t. if \<not> is_terminal (t_state t) then Ok True else any_unsettled ns s)"

fun tasks_at :: "nat list \<Rightarrow> ('x, 'w) scheduler \<Rightarrow> 'x sched_error + 'x scheduled_task list" where
  "tasks_at [] s = Ok []"
| "tasks_at (n # ns) s = rbind (task_at s n) (\<lambda>t. rbind (tasks_at ns s) (\<lambda>ts. Ok (t # ts)))"

text \<open>The tasks of a group by source position, then by identifier, with their records.\<close>

definition ordered_tasks :: "task_group \<Rightarrow> ('x, 'w) scheduler \<Rightarrow> 'x sched_error + (nat \<times> 'x scheduled_task) list" where
  "ordered_tasks g s =
     rbind (tasks_at (group_task_ids g) s) (\<lambda>ts.
     Ok (sort_key (\<lambda>(n, t). (t_source_index t, n)) (zip (group_task_ids g) ts)))"

fun first_cancelled :: "(nat \<times> 'x scheduled_task) list \<Rightarrow> 'x task_outcome option" where
  "first_cancelled [] = None"
| "first_cancelled ((_, t) # rest) =
     (case t_outcome t of Some (Cancelled cause) \<Rightarrow> Some (Cancelled cause) | _ \<Rightarrow> first_cancelled rest)"

fun completed_values :: "(nat \<times> 'x scheduled_task) list \<Rightarrow> 'x sched_error + 'x interp_value list" where
  "completed_values [] = Ok []"
| "completed_values ((_, t) # rest) =
     (case t_outcome t of
        Some (Completed v) \<Rightarrow> rmap ((#) v) (completed_values rest)
      | _ \<Rightarrow> Err InvalidTransition)"

fun first_failed :: "(nat \<times> 'x scheduled_task) list \<Rightarrow> 'x task_outcome option" where
  "first_failed [] = None"
| "first_failed ((_, t) # rest) =
     (case t_outcome t of Some (Failed e) \<Rightarrow> Some (Failed e) | _ \<Rightarrow> first_failed rest)"

definition collectable :: "'x scheduled_task \<Rightarrow> bool" where
  "collectable t =
     (case t_outcome t of Some (Completed _) \<Rightarrow> True | Some (Raised _ _) \<Rightarrow> True | _ \<Rightarrow> False)"

fun collected_values :: "(nat \<times> 'x scheduled_task) list \<Rightarrow> 'x sched_error + 'x interp_value list" where
  "collected_values [] = Ok []"
| "collected_values ((_, t) # rest) =
     rbind
       (case t_outcome t of
          Some (Completed v) \<Rightarrow> Ok (result_value ''Ok'' v)
        | Some (Raised args _) \<Rightarrow> rmap (result_value ''Err'') (error_payload args)
        | _ \<Rightarrow> Err (SchedPanic ''collect accepts completed values and typed errors'')) (\<lambda>v.
     rmap ((#) v) (collected_values rest))"

definition primary_outcome :: "nat \<Rightarrow> ('x, 'w) scheduler \<Rightarrow> 'x sched_error + 'x task_outcome option" where
  "primary_outcome n s = rmap t_outcome (task_at s n)"

definition join_outcome ::
  "task_group \<Rightarrow> (nat \<times> 'x scheduled_task) list \<Rightarrow> ('x interp_value list \<Rightarrow> 'x interp_value)
    \<Rightarrow> 'x sched_error + 'x task_outcome option"
where
  "join_outcome g ordered wrap =
     (case first_cancelled ordered of
        Some c \<Rightarrow> Ok (Some c)
      | None \<Rightarrow> rmap (\<lambda>vs. Some (Completed (wrap vs))) (completed_values ordered))"

definition policy_outcome ::
  "task_group \<Rightarrow> (nat \<times> 'x scheduled_task) list \<Rightarrow> ('x, 'w) scheduler \<Rightarrow> 'x sched_error + 'x task_outcome option"
where
  "policy_outcome g ordered s =
     (case g_policy g of
        PolicyRun \<Rightarrow>
          (case g_primary_failure g of
             Some primary \<Rightarrow> primary_outcome primary s
           | None \<Rightarrow> rbind (ok_or (g_owner g) InvalidTransition) (\<lambda>owner. primary_outcome owner s))
      | JoinTuple \<Rightarrow>
          (case g_primary_failure g of
             Some primary \<Rightarrow> primary_outcome primary s
           | None \<Rightarrow> join_outcome g ordered Tuple)
      | JoinArray \<Rightarrow>
          (case g_primary_failure g of
             Some primary \<Rightarrow> primary_outcome primary s
           | None \<Rightarrow> join_outcome g ordered Array)
      | PolicyMap \<Rightarrow>
          (case g_primary_failure g of
             Some primary \<Rightarrow> primary_outcome primary s
           | None \<Rightarrow> join_outcome g ordered Array)
      | TryJoin \<Rightarrow>
          (case g_primary_failure g of
             Some primary \<Rightarrow>
               rbind (primary_outcome primary s) (\<lambda>o'.
                 case o' of
                   Some (Raised args _) \<Rightarrow>
                     rmap (\<lambda>v. Some (Completed (result_value ''Err'' v))) (error_payload args)
                 | _ \<Rightarrow> Ok o')
           | None \<Rightarrow> join_outcome g ordered (\<lambda>vs. result_value ''Ok'' (Array vs)))
      | Collect \<Rightarrow>
          (case first_failed ordered of
             Some f \<Rightarrow> Ok (Some f)
           | None \<Rightarrow>
               if list_all (\<lambda>(_, t). collectable t) ordered
               then rmap (\<lambda>vs. Some (Completed (Array vs))) (collected_values ordered)
               else Ok (first_cancelled ordered))
      | MapCollect \<Rightarrow>
          (case first_failed ordered of
             Some f \<Rightarrow> Ok (Some f)
           | None \<Rightarrow>
               if list_all (\<lambda>(_, t). collectable t) ordered
               then rmap (\<lambda>vs. Some (Completed (Array vs))) (collected_values ordered)
               else Ok (first_cancelled ordered))
      | Race \<Rightarrow>
          (case g_winner g of
             Some winner \<Rightarrow> primary_outcome winner s
           | None \<Rightarrow>
               (case g_primary_failure g of
                  Some primary \<Rightarrow> primary_outcome primary s
                | None \<Rightarrow> Ok (first_cancelled ordered))))"

definition scope_outcome :: "nat \<Rightarrow> ('x, 'w) scheduler \<Rightarrow> 'x sched_error + 'x task_outcome option" where
  "scope_outcome scope s =
     rbind (ok_or (RBT.lookup (sc_groups s) scope) WrongOwner) (\<lambda>g.
     rbind (any_unsettled (group_task_ids g) s) (\<lambda>unsettled.
     if unsettled then Ok None
     else
       rbind (ordered_tasks g s) (\<lambda>ordered.
       rbind (policy_outcome g ordered s) (\<lambda>output.
       rmap Some (ok_or output InvalidTransition)))))"

definition await_scope :: "task_handle \<Rightarrow> nat \<Rightarrow> ('x, 'w, 'x decision) sched" where
  "await_scope waiter scope =
     with_task waiter (\<lambda>wtask.
     if t_state wtask \<noteq> Running then sfail InvalidTransition
     else
       sbind (sread (scope_outcome scope)) (\<lambda>o'.
         case o' of
           Some outcome \<Rightarrow> sret (DecisionReady outcome)
         | None \<Rightarrow>
             sbind (sread (\<lambda>s. ok_or (RBT.lookup (sc_groups s) scope) WrongOwner)) (\<lambda>_.
             sbind (supd (upd_group scope (\<lambda>g. g\<lparr>g_waiters := g_waiters g @ [h_task waiter]\<rparr>))) (\<lambda>_.
             sbind (supd (upd_task (h_task waiter) (\<lambda>t. t\<lparr>t_state := Waiting (WaitScope scope)\<rparr>))) (\<lambda>_.
             sbind (release_slot (h_task waiter) wtask) (\<lambda>_.
             sret Parked))))))"

section \<open>Host and CPU waits\<close>

definition wait_for_host :: "task_handle \<Rightarrow> nat \<Rightarrow> ('x, 'w, unit) sched" where
  "wait_for_host handle op_id =
     with_task handle (\<lambda>task.
     sbind (sread (scope_serialized (t_scope task))) (\<lambda>retain_slot.
     if t_state task \<noteq> Running then sfail InvalidTransition
     else
       sbind (supd (upd_task (h_task handle) (\<lambda>t. t\<lparr>t_state := Waiting (WaitHost op_id)\<rparr>))) (\<lambda>_.
       if retain_slot then sret () else release_slot (h_task handle) task)))"

definition wait_for_cpu :: "task_handle \<Rightarrow> nat \<Rightarrow> ('x, 'w, unit) sched" where
  "wait_for_cpu handle job =
     with_task handle (\<lambda>task.
     if t_state task \<noteq> Running then sfail InvalidTransition
     else supd (upd_task (h_task handle) (\<lambda>t. t\<lparr>t_state := Waiting (WaitCpu job)\<rparr>)))"

definition take_cpu_completion :: "task_handle \<Rightarrow> nat \<Rightarrow> ('x, 'w, 'x scheduled_task) sched" where
  "take_cpu_completion handle job =
     with_task handle (\<lambda>task.
     if t_state task \<noteq> Waiting (WaitCpu job) then sfail InvalidTransition
     else sbind (supd (remove_task (h_task handle))) (\<lambda>_. sret (task\<lparr>t_state := Running\<rparr>)))"

definition wake_from_host :: "task_handle \<Rightarrow> nat \<Rightarrow> ('x, 'w, unit) sched" where
  "wake_from_host handle op_id =
     with_task handle (\<lambda>task.
     if t_state task \<noteq> Waiting (WaitHost op_id) then sfail InvalidTransition
     else
       sbind (supd (upd_task (h_task handle) (\<lambda>t. t\<lparr>t_state := Ready\<rparr>))) (\<lambda>_.
       supd (push_ready (h_task handle))))"

section \<open>Termination of a task\<close>

definition push_wakeup :: "nat \<Rightarrow> 'x task_wakeup \<Rightarrow> ('x, 'w) scheduler \<Rightarrow> ('x, 'w) scheduler" where
  "push_wakeup n wakeup s =
     s\<lparr>sc_wakeups := RBT.insert n
       ((case RBT.lookup (sc_wakeups s) n of None \<Rightarrow> [] | Some ws \<Rightarrow> ws) @ [wakeup]) (sc_wakeups s)\<rparr>"

definition wake_task :: "nat \<Rightarrow> 'x task_wakeup \<Rightarrow> ('x, 'w, unit) sched" where
  "wake_task n wakeup =
     sbind (supd (upd_task n (\<lambda>t. t\<lparr>t_state := Ready\<rparr>))) (\<lambda>_.
     sbind (supd (push_ready n)) (\<lambda>_.
     supd (push_wakeup n wakeup)))"

fun wake_resource_waiters :: "nat \<Rightarrow> ('x, 'w, unit) sched" where
  "wake_resource_waiters 0 = sret ()"
| "wake_resource_waiters (Suc k) =
     sbind (sget (\<lambda>s. rg_waiting (sc_resources s))) (\<lambda>ws.
       case ws of
         [] \<Rightarrow> sfail (SchedPanic ''called unwrap on a None value'')
       | n # rest \<Rightarrow>
           sbind (supd (\<lambda>s. s\<lparr>sc_resources := (sc_resources s)\<lparr>rg_waiting := rest\<rparr>\<rparr>)) (\<lambda>_.
           sbind (sread (\<lambda>s. task_at s n)) (\<lambda>task.
           case t_state task of
             Waiting (WaitResource _) \<Rightarrow>
               sbind (sget (\<lambda>s. acquire (sc_resources s) n (t_resource_keys task))) (\<lambda>(granted, guards).
               sbind (supd (\<lambda>s. s\<lparr>sc_resources := guards\<rparr>)) (\<lambda>_.
               sbind
                 (if granted then
                    sbind (supd (upd_task n (\<lambda>t. t\<lparr>t_state := Ready\<rparr>))) (\<lambda>_. supd (push_ready n))
                  else supd (\<lambda>s. s\<lparr>sc_resources := (sc_resources s)\<lparr>rg_waiting := rg_waiting (sc_resources s) @ [n]\<rparr>\<rparr>)) (\<lambda>_.
               wake_resource_waiters k)))
           | _ \<Rightarrow> wake_resource_waiters k)))"

fun wake_task_waiters :: "nat list \<Rightarrow> task_handle \<Rightarrow> 'x task_outcome \<Rightarrow> ('x, 'w, unit) sched" where
  "wake_task_waiters [] handle outcome = sret ()"
| "wake_task_waiters (n # ns) handle outcome =
     sbind (sread (\<lambda>s. task_at s n)) (\<lambda>task.
     sbind (if t_state task = Waiting (WaitTask (h_task handle)) then wake_task n (WakeTask handle outcome)
            else sret ()) (\<lambda>_.
     wake_task_waiters ns handle outcome))"

fun wake_scope_waiters :: "nat list \<Rightarrow> nat \<Rightarrow> 'x task_outcome \<Rightarrow> ('x, 'w, unit) sched" where
  "wake_scope_waiters [] scope outcome = sret ()"
| "wake_scope_waiters (n # ns) scope outcome =
     sbind (sread (\<lambda>s. task_at s n)) (\<lambda>task.
     sbind (if t_state task = Waiting (WaitScope scope) then wake_task n (WakeScope scope outcome)
            else sret ()) (\<lambda>_.
     wake_scope_waiters ns scope outcome))"

definition wake_scope_if_settled :: "nat \<Rightarrow> ('x, 'w, unit) sched" where
  "wake_scope_if_settled scope =
     sbind (sread (scope_outcome scope)) (\<lambda>o'.
       case o' of
         None \<Rightarrow> sret ()
       | Some outcome \<Rightarrow>
           sbind (sread (\<lambda>s. group_at s scope)) (\<lambda>g.
           sbind (supd (upd_group scope (\<lambda>g. g\<lparr>g_waiters := []\<rparr>))) (\<lambda>_.
           wake_scope_waiters (g_waiters g) scope outcome)))"

definition successful_body :: "'x task_outcome \<Rightarrow> bool" where
  "successful_body outcome =
     (case outcome of Raised _ _ \<Rightarrow> False | Failed _ \<Rightarrow> False | _ \<Rightarrow> True)"

definition terminal :: "('x, 'w) host_ops \<Rightarrow> task_handle \<Rightarrow> 'x task_outcome \<Rightarrow> ('x, 'w, unit) sched" where
  "terminal ho handle outcome =
     sbind (sread (resolve_id handle)) (\<lambda>n.
     sbind (supd (\<lambda>s. s\<lparr>sc_continuations := dispose_origin (sc_continuations s) (Scheduled n)\<rparr>)) (\<lambda>_.
     sbind (sread (\<lambda>s. task_at s n)) (\<lambda>task.
     if is_terminal (t_state task) then sfail InvalidTransition
     else
       sbind (supd (upd_task n (\<lambda>t. t\<lparr>t_active_slot := False\<rparr>))) (\<lambda>_.
       sbind (shost (exec_finish_body ho (tl_execution (t_local task)) (successful_body outcome))) (\<lambda>_.
       sbind (supd (upd_task n (\<lambda>t. t\<lparr>t_state := outcome_state outcome, t_outcome := Some outcome,
         t_waiters := []\<rparr>))) (\<lambda>_.
       sbind (if t_active_slot task then change_active (t_scope task) False else sret ()) (\<lambda>_.
       sbind (supd (\<lambda>s. s\<lparr>sc_resources := release (sc_resources s) n\<rparr>)) (\<lambda>_.
       sbind (sget (\<lambda>s. length (rg_waiting (sc_resources s)))) (\<lambda>queued.
       sbind (wake_resource_waiters queued) (\<lambda>_.
       sbind (wake_task_waiters (t_waiters task) handle outcome) (\<lambda>_.
       wake_scope_if_settled (t_scope task))))))))))))"

section \<open>Outcomes\<close>

definition record_primary_failure :: "nat \<Rightarrow> nat \<Rightarrow> ('x, 'w, unit) sched" where
  "record_primary_failure scope n =
     sbind (sread (\<lambda>s. task_at s n)) (\<lambda>task.
     sbind (sread (\<lambda>s. group_at s scope)) (\<lambda>g.
     sbind
       (case g_primary_failure g of
          None \<Rightarrow> sret True
        | Some p \<Rightarrow>
            sbind (sread (\<lambda>s. task_at s p)) (\<lambda>primary.
            sret (t_source_index task < t_source_index primary \<or>
                  t_source_index task = t_source_index primary \<and> n < p))) (\<lambda>replace.
     if replace then supd (upd_group scope (\<lambda>g. g\<lparr>g_primary_failure := Some n\<rparr>)) else sret ())))"

definition complete :: "('x, 'w) host_ops \<Rightarrow> task_handle \<Rightarrow> 'x interp_value \<Rightarrow> ('x, 'w, unit) sched" where
  "complete ho handle v =
     with_task handle (\<lambda>task.
     sbind (sread (\<lambda>s. group_at s (t_scope task))) (\<lambda>g.
     sbind (if g_policy g = Race \<and> g_winner g = None
            then supd (upd_group (t_scope task) (\<lambda>g. g\<lparr>g_winner := Some (h_task handle)\<rparr>))
            else sret ()) (\<lambda>_.
     terminal ho handle (Completed v))))"

definition raise :: "('x, 'w) host_ops \<Rightarrow> task_handle \<Rightarrow> 'x interp_value list \<Rightarrow> 'x \<Rightarrow> ('x, 'w, unit) sched" where
  "raise ho handle args rest =
     with_task handle (\<lambda>task.
     sbind (record_primary_failure (t_scope task) (h_task handle)) (\<lambda>_.
     terminal ho handle (Raised args rest)))"

definition fail :: "('x, 'w) host_ops \<Rightarrow> task_handle \<Rightarrow> 'x \<Rightarrow> ('x, 'w, unit) sched" where
  "fail ho handle failure =
     with_task handle (\<lambda>task.
     sbind (record_primary_failure (t_scope task) (h_task handle)) (\<lambda>_.
     terminal ho handle (Failed failure)))"

section \<open>Cancellation\<close>

definition read_cause :: "('x, 'w) host_ops \<Rightarrow> 'x \<Rightarrow> ('x, 'w, 'x option) sched" where
  "read_cause ho execution =
     sbind (shost (\<lambda>w. (exec_signal ho execution w, w))) (\<lambda>signal.
     shost (\<lambda>w. (signal_cause ho signal w, w)))"

definition cancel :: "('x, 'w) host_ops \<Rightarrow> task_handle \<Rightarrow> 'x \<Rightarrow> ('x, 'w, unit) sched" where
  "cancel ho handle reason =
     with_task handle (\<lambda>task.
     if is_terminal (t_state task) then sret ()
     else
       let execution = tl_execution (t_local task) in
       sbind (read_cause ho execution) (\<lambda>before.
       sbind (shost (exec_stop ho execution reason)) (\<lambda>_.
       sbind (if before = None
              then supd (\<lambda>s. s\<lparr>sc_cancellation_events := sc_cancellation_events s @ [(handle, reason)]\<rparr>)
              else sret ()) (\<lambda>_.
       case t_state task of
         Waiting (WaitHost _) \<Rightarrow> sret ()
       | _ \<Rightarrow>
           sbind (read_cause ho execution) (\<lambda>cause.
             case cause of
               None \<Rightarrow> sfail (SchedPanic ''cancelled task must publish its cause'')
             | Some c \<Rightarrow> terminal ho handle (Cancelled c))))))"

definition cancelled :: "('x, 'w) host_ops \<Rightarrow> task_handle \<Rightarrow> 'x \<Rightarrow> ('x, 'w, unit) sched" where
  "cancelled ho handle cause = terminal ho handle (Cancelled cause)"

definition take_wakeup :: "task_handle \<Rightarrow> ('x, 'w, 'x task_wakeup option) sched" where
  "take_wakeup handle =
     sbind (sread (resolve_id handle)) (\<lambda>n.
     sbind (sget (\<lambda>s. RBT.lookup (sc_wakeups s) n)) (\<lambda>ws.
       case ws of
         Some (w # rest) \<Rightarrow>
           sbind (supd (\<lambda>s. s\<lparr>sc_wakeups := RBT.insert n rest (sc_wakeups s)\<rparr>)) (\<lambda>_. sret (Some w))
       | _ \<Rightarrow> sret None))"

definition has_unsettled_tasks :: "('x, 'w) scheduler \<Rightarrow> bool" where
  "has_unsettled_tasks s = list_ex (\<lambda>(_, t). \<not> is_terminal (t_state t)) (RBT.entries (sc_tasks s))"

fun cancel_all :: "('x, 'w) host_ops \<Rightarrow> task_handle list \<Rightarrow> 'x \<Rightarrow> ('x, 'w, unit) sched" where
  "cancel_all ho [] reason = sret ()"
| "cancel_all ho (h # hs) reason = sbind (cancel ho h reason) (\<lambda>_. cancel_all ho hs reason)"

definition cancel_unsettled :: "('x, 'w) host_ops \<Rightarrow> 'x \<Rightarrow> ('x, 'w, unit) sched" where
  "cancel_unsettled ho reason =
     sbind (sget (\<lambda>s. map (\<lambda>(n, t). \<lparr>h_owner = t_scope t, h_task = n\<rparr>)
       (filter (\<lambda>(_, t). \<not> is_terminal (t_state t)) (RBT.entries (sc_tasks s))))) (\<lambda>hs.
     cancel_all ho hs reason)"

fun descendant_scopes :: "nat list \<Rightarrow> nat \<Rightarrow> ('x, 'w) scheduler \<Rightarrow> 'x sched_error + nat list" where
  "descendant_scopes [] ancestor s = Ok []"
| "descendant_scopes (n # ns) ancestor s =
     rbind (is_descendant_of n ancestor s) (\<lambda>d.
     rbind (descendant_scopes ns ancestor s) (\<lambda>rest.
     Ok (if d then n # rest else rest)))"

fun unsettled_handles :: "nat list \<Rightarrow> ('x, 'w) scheduler \<Rightarrow> 'x sched_error + task_handle list" where
  "unsettled_handles [] s = Ok []"
| "unsettled_handles (n # ns) s =
     rbind (task_at s n) (\<lambda>t.
     rbind (unsettled_handles ns s) (\<lambda>rest.
     Ok (if is_terminal (t_state t) then rest else \<lparr>h_owner = t_scope t, h_task = n\<rparr> # rest)))"

fun scope_tasks :: "nat list \<Rightarrow> ('x, 'w) scheduler \<Rightarrow> 'x sched_error + nat list" where
  "scope_tasks [] s = Ok []"
| "scope_tasks (n # ns) s =
     rbind (group_at s n) (\<lambda>g. rbind (scope_tasks ns s) (\<lambda>rest. Ok (group_task_ids g @ rest)))"

definition cancel_scope_unsettled :: "('x, 'w) host_ops \<Rightarrow> nat \<Rightarrow> 'x \<Rightarrow> ('x, 'w, unit) sched" where
  "cancel_scope_unsettled ho scope reason =
     sbind (sget (\<lambda>s. RBT.lookup (sc_groups s) scope \<noteq> None)) (\<lambda>known.
     if \<not> known then sfail WrongOwner
     else
       sbind (sread (\<lambda>s. descendant_scopes (RBT.keys (sc_groups s)) scope s)) (\<lambda>scopes.
       sbind (sread (scope_tasks scopes)) (\<lambda>ns.
       sbind (sread (unsettled_handles ns)) (\<lambda>hs.
       cancel_all ho hs reason))))"

text \<open>The two reasons the scheduler itself gives are the parameters \<open>requested\<close> and
  \<open>child_failed\<close>.\<close>

definition policy_cancels :: "task_group \<Rightarrow> nat \<Rightarrow> 'x task_outcome \<Rightarrow> 'x \<Rightarrow> 'x \<Rightarrow> 'x option" where
  "policy_cancels g n outcome requested child_failed =
     (case outcome of
        Completed _ \<Rightarrow> if g_policy g = Race \<and> g_winner g = Some n then Some requested else None
      | Raised _ _ \<Rightarrow>
          if g_policy g \<in> {PolicyRun, JoinTuple, JoinArray, TryJoin, PolicyMap} then Some child_failed
          else None
      | Failed _ \<Rightarrow> Some child_failed
      | Cancelled _ \<Rightarrow> None)"

definition apply_group_policy :: "('x, 'w) host_ops \<Rightarrow> 'x \<Rightarrow> 'x \<Rightarrow> task_handle \<Rightarrow> ('x, 'w, unit) sched" where
  "apply_group_policy ho requested child_failed handle =
     with_task handle (\<lambda>task.
     sbind (sread (\<lambda>_. ok_or (t_outcome task) InvalidTransition)) (\<lambda>outcome.
     sbind (sread (\<lambda>s. group_at s (t_scope task))) (\<lambda>g.
       case policy_cancels g (h_task handle) outcome requested child_failed of
         Some reason \<Rightarrow> cancel_scope_unsettled ho (t_scope task) reason
       | None \<Rightarrow> sret ())))"

definition primary_failure :: "('x, 'w) scheduler \<Rightarrow> task_handle option" where
  "primary_failure s =
     (case filter (\<lambda>(_, t). case t_outcome t of Some (Failed _) \<Rightarrow> True | _ \<Rightarrow> False)
             (RBT.entries (sc_tasks s)) of
        [] \<Rightarrow> None
      | ts \<Rightarrow>
          (case hd (sort_key (\<lambda>(n, t). (t_source_index t, n)) ts) of
             (n, t) \<Rightarrow> Some \<lparr>h_owner = t_scope t, h_task = n\<rparr>))"

end
