(* ===== verification/Task_System.thy ===== *)
theory Task_System
  imports Scheduler
begin

text \<open>
  The abstract specification of the scheduler: a system of scopes, tasks and resource permits
  without counters, queues or machines. A transition creates a scope or a task, moves a task
  along the edges of its state machine, gives or takes an active slot, grants a permit, or
  finishes a task. A slot is only given when every enclosing scope has fewer slot holders below
  it than its limit. \<open>Scheduler_Refinement\<close> shows that every method of the scheduler is a
  sequence of these transitions.
\<close>

section \<open>States and transitions\<close>

record scope_spec =
  a_parent :: "nat option"
  a_limit :: nat
  a_serial :: bool

record 'x task_spec =
  a_scope :: nat
  a_state :: task_state
  a_outcome :: "'x task_outcome option"
  a_slot :: bool

record 'x system =
  y_scopes :: "nat \<rightharpoonup> scope_spec"
  y_tasks :: "nat \<rightharpoonup> 'x task_spec"
  y_permits :: "nat \<rightharpoonup> runtime_resource_key list"

text \<open>\<open>within G a b\<close>: scope \<open>a\<close> is \<open>b\<close> or lies below it.\<close>

inductive within :: "(nat \<rightharpoonup> scope_spec) \<Rightarrow> nat \<Rightarrow> nat \<Rightarrow> bool" for G where
  within_refl [intro, simp]: "within G a a"
| within_up: "G a = Some g \<Longrightarrow> a_parent g = Some p \<Longrightarrow> within G p b \<Longrightarrow> within G a b"

definition slot_holders :: "'x system \<Rightarrow> nat \<Rightarrow> nat set" where
  "slot_holders y b = {n. \<exists>t. y_tasks y n = Some t \<and> a_slot t \<and> within (y_scopes y) (a_scope t) b}"

definition occupancy :: "'x system \<Rightarrow> nat \<Rightarrow> nat" where
  "occupancy y b = card (slot_holders y b)"

definition has_room :: "'x system \<Rightarrow> nat \<Rightarrow> bool" where
  "has_room y k \<longleftrightarrow> (\<forall>b g. within (y_scopes y) k b \<longrightarrow> y_scopes y b = Some g \<longrightarrow> occupancy y b < a_limit g)"

definition permit_free :: "'x system \<Rightarrow> runtime_resource_key list \<Rightarrow> bool" where
  "permit_free y ks \<longleftrightarrow>
     (\<forall>n hs k h. y_permits y n = Some hs \<longrightarrow> k \<in> set ks \<longrightarrow> h \<in> set hs \<longrightarrow> \<not> conflicts k h)"

text \<open>The edges of the task state machine that neither start nor finish a task.\<close>

definition edge :: "task_state \<Rightarrow> task_state \<Rightarrow> bool" where
  "edge st st' =
     (case st of
        Ready \<Rightarrow> (case st' of Waiting (WaitResource _) \<Rightarrow> True | _ \<Rightarrow> False)
      | Running \<Rightarrow> (case st' of Ready \<Rightarrow> True | Waiting _ \<Rightarrow> True | _ \<Rightarrow> False)
      | Waiting (WaitCpu _) \<Rightarrow> st' = Running
      | Waiting _ \<Rightarrow> st' = Ready
      | _ \<Rightarrow> False)"

text \<open>The states in which a task occupies a processor.\<close>

definition busy :: "task_state \<Rightarrow> bool" where
  "busy st = (case st of Running \<Rightarrow> True | Waiting (WaitCpu _) \<Rightarrow> True | _ \<Rightarrow> False)"

definition put :: "nat \<Rightarrow> 'x task_spec \<Rightarrow> 'x system \<Rightarrow> 'x system" where
  "put n t y = y\<lparr>y_tasks := (y_tasks y)(n \<mapsto> t)\<rparr>"

inductive sys_step :: "'x system \<Rightarrow> 'x system \<Rightarrow> bool" where
  new_scope: "y_scopes y k = None \<Longrightarrow> y_scopes y p \<noteq> None \<Longrightarrow> p < k \<Longrightarrow>
    sys_step y (y\<lparr>y_scopes := (y_scopes y)(k \<mapsto> \<lparr>a_parent = Some p, a_limit = l, a_serial = False\<rparr>)\<rparr>)"
| serialize: "y_scopes y k = Some g \<Longrightarrow>
    sys_step y (y\<lparr>y_scopes := (y_scopes y)(k \<mapsto> g\<lparr>a_limit := 1, a_serial := True\<rparr>)\<rparr>)"
| new_task: "y_tasks y n = None \<Longrightarrow> y_permits y n = None \<Longrightarrow> y_scopes y k \<noteq> None \<Longrightarrow>
    sys_step y (put n \<lparr>a_scope = k, a_state = Ready, a_outcome = None, a_slot = False\<rparr> y)"
| move: "y_tasks y n = Some t \<Longrightarrow> edge (a_state t) st \<Longrightarrow> sys_step y (put n (t\<lparr>a_state := st\<rparr>) y)"
| admit: "y_tasks y n = Some t \<Longrightarrow> a_state t = Ready \<Longrightarrow> \<not> a_slot t \<Longrightarrow> has_room y (a_scope t) \<Longrightarrow>
    sys_step y (put n (t\<lparr>a_state := Running, a_slot := True\<rparr>) y)"
| resume: "y_tasks y n = Some t \<Longrightarrow> a_state t = Ready \<Longrightarrow> a_slot t \<Longrightarrow>
    sys_step y (put n (t\<lparr>a_state := Running\<rparr>) y)"
| retain: "y_tasks y n = Some t \<Longrightarrow> \<not> is_terminal (a_state t) \<Longrightarrow> \<not> a_slot t \<Longrightarrow>
    y_scopes y k = Some g \<Longrightarrow> a_serial g \<Longrightarrow> sys_step y (put n (t\<lparr>a_slot := True\<rparr>) y)"
| give_up: "y_tasks y n = Some t \<Longrightarrow> a_slot t \<Longrightarrow> \<not> busy (a_state t) \<Longrightarrow>
    sys_step y (put n (t\<lparr>a_slot := False\<rparr>) y)"
| permit: "y_tasks y n = Some t \<Longrightarrow> \<not> is_terminal (a_state t) \<Longrightarrow> y_permits y n = None \<Longrightarrow>
    permit_free y ks \<Longrightarrow> sys_step y (y\<lparr>y_permits := (y_permits y)(n \<mapsto> ks)\<rparr>)"
| finish: "y_tasks y n = Some t \<Longrightarrow> \<not> is_terminal (a_state t) \<Longrightarrow>
    sys_step y ((put n (t\<lparr>a_state := outcome_state r, a_outcome := Some r, a_slot := False\<rparr>) y)
      \<lparr>y_permits := (y_permits y)(n := None)\<rparr>)"

inductive_cases sys_stepE: "sys_step y y'"

abbreviation sys_run :: "'x system \<Rightarrow> 'x system \<Rightarrow> bool" where
  "sys_run \<equiv> sys_step\<^sup>*\<^sup>*"

definition sys_init :: "nat \<Rightarrow> nat \<Rightarrow> 'x system" where
  "sys_init owner limit =
     \<lparr>y_scopes = [owner \<mapsto> \<lparr>a_parent = None, a_limit = limit, a_serial = False\<rparr>],
      y_tasks = Map.empty, y_permits = Map.empty\<rparr>"

section \<open>Ancestry\<close>

definition scopes_ok :: "(nat \<rightharpoonup> scope_spec) \<Rightarrow> bool" where
  "scopes_ok G \<longleftrightarrow> finite (dom G) \<and>
     (\<forall>n g p. G n = Some g \<longrightarrow> a_parent g = Some p \<longrightarrow> p < n \<and> G p \<noteq> None)"

lemma scopes_okD:
  assumes "scopes_ok G" "G n = Some g" "a_parent g = Some p"
  shows "p < n" "\<exists>h. G p = Some h"
  using assms by (auto simp: scopes_ok_def)

lemma within_le: "within G a b \<Longrightarrow> scopes_ok G \<Longrightarrow> b \<le> a"
  by (induction rule: within.induct) (auto dest: scopes_okD)

lemma within_dom: "within G a b \<Longrightarrow> scopes_ok G \<Longrightarrow> G a \<noteq> None \<Longrightarrow> G b \<noteq> None"
  by (induction rule: within.induct) (auto dest: scopes_okD)

lemma within_unfold:
  "G a = Some g \<Longrightarrow> within G a b \<longleftrightarrow> a = b \<or> (\<exists>p. a_parent g = Some p \<and> within G p b)"
  by (subst within.simps) auto

lemma within_cong:
  assumes "\<And>n. map_option a_parent (G n) = map_option a_parent (H n)"
  shows "within G a b = within H a b"
proof -
  have *: "within H a b" if "within G a b" and same: "\<And>n. map_option a_parent (G n) = map_option a_parent (H n)"
    for G H a b
    using that(1)
  proof induction
    case (within_up a g p b)
    from same [of a] within_up(1,2) obtain h where "H a = Some h" "a_parent h = Some p"
      by (cases "H a") auto
    then show ?case using within_up.IH by (rule within.within_up)
  qed simp
  show ?thesis using * [of G a b H] * [of H a b G] assms by metis
qed

lemma within_extend:
  assumes "G k = None" "scopes_ok G" "G a \<noteq> None"
  shows "within (G(k \<mapsto> v)) a b \<longleftrightarrow> within G a b"
proof
  assume "within (G(k \<mapsto> v)) a b"
  then show "within G a b" using assms(3)
  proof induction
    case (within_up a g p b)
    then have "G a = Some g" using assms(1) by (auto split: if_splits)
    moreover from this within_up(2) assms(2) have "G p \<noteq> None" by (auto dest: scopes_okD)
    ultimately show ?case using within_up by (auto intro: within.within_up)
  qed simp
next
  assume "within G a b"
  then show "within (G(k \<mapsto> v)) a b"
  proof induction
    case (within_up a g p b)
    then have "(G(k \<mapsto> v)) a = Some g" using assms(1) by auto
    then show ?case using within_up by (blast intro: within.within_up)
  qed simp
qed


section \<open>Occupancy\<close>

lemma occupancy_cong:
  assumes "slot_holders y b = slot_holders y' b"
  shows "occupancy y b = occupancy y' b"
  using assms by (simp add: occupancy_def)

lemma finite_slot_holders: "finite (dom (y_tasks y)) \<Longrightarrow> finite (slot_holders y b)"
  by (rule finite_subset [of _ "dom (y_tasks y)"]) (auto simp: slot_holders_def)

lemma put_simps [simp]:
  "y_scopes (put n t y) = y_scopes y"
  "y_tasks (put n t y) = (y_tasks y)(n \<mapsto> t)"
  "y_permits (put n t y) = y_permits y"
  by (simp_all add: put_def)

lemma put_put: "put n t (put n u y) = put n t y"
  by (simp add: put_def)

lemma put_triv: "y_tasks y n = Some t \<Longrightarrow> put n t y = y"
  by (simp add: put_def map_upd_triv)

text \<open>Replacing the record of one task changes the occupancy of the scopes around it only.\<close>

lemma occupancy_put_same:
  assumes "case y_tasks y n of None \<Rightarrow> \<not> a_slot t' | Some t \<Rightarrow> a_slot t' = a_slot t \<and> a_scope t' = a_scope t"
  shows "occupancy (put n t' y) b = occupancy y b"
proof (rule occupancy_cong, rule set_eqI)
  fix m
  show "m \<in> slot_holders (put n t' y) b \<longleftrightarrow> m \<in> slot_holders y b"
    using assms by (cases "y_tasks y n") (auto simp: slot_holders_def)
qed

lemma occupancy_put_take:
  assumes "y_tasks y n = Some t" "\<not> a_slot t" "a_slot t'" "a_scope t' = a_scope t" "finite (dom (y_tasks y))"
  shows "occupancy (put n t' y) b = occupancy y b + (if within (y_scopes y) (a_scope t) b then 1 else 0)"
proof -
  have "slot_holders (put n t' y) b =
      (if within (y_scopes y) (a_scope t) b then insert n (slot_holders y b) else slot_holders y b)"
    using assms by (auto simp: slot_holders_def)
  moreover have "n \<notin> slot_holders y b" using assms by (auto simp: slot_holders_def)
  ultimately show ?thesis using finite_slot_holders [OF assms(5), of b] by (simp add: occupancy_def)
qed

lemma occupancy_put_drop:
  assumes "y_tasks y n = Some t" "a_slot t" "\<not> a_slot t'" "a_scope t' = a_scope t" "finite (dom (y_tasks y))"
  shows "occupancy y b = occupancy (put n t' y) b + (if within (y_scopes y) (a_scope t) b then 1 else 0)"
proof -
  have "put n t (put n t' y) = y" using assms(1) by (simp add: put_def map_upd_triv)
  moreover have "finite (dom (y_tasks (put n t' y)))" using assms(5) by simp
  ultimately show ?thesis
    using occupancy_put_take [of "put n t' y" n t' t b] assms by simp
qed

section \<open>Invariants\<close>

definition task_ok :: "'x system \<Rightarrow> nat \<Rightarrow> 'x task_spec \<Rightarrow> bool" where
  "task_ok y n t \<longleftrightarrow>
     y_scopes y (a_scope t) \<noteq> None \<and>
     (case a_outcome t of
        None \<Rightarrow> \<not> is_terminal (a_state t)
      | Some r \<Rightarrow> a_state t = outcome_state r \<and> \<not> a_slot t \<and> y_permits y n = None) \<and>
     (busy (a_state t) \<longrightarrow> a_slot t)"

definition limits_ok :: "'x system \<Rightarrow> bool" where
  "limits_ok y \<longleftrightarrow>
     (\<forall>k g. y_scopes y k = Some g \<longrightarrow> \<not> a_serial g) \<longrightarrow>
     (\<forall>b g. y_scopes y b = Some g \<longrightarrow> occupancy y b \<le> a_limit g)"

definition permits_ok :: "'x system \<Rightarrow> bool" where
  "permits_ok y \<longleftrightarrow>
     (\<forall>a b ka kb. a \<noteq> b \<longrightarrow> y_permits y a = Some ka \<longrightarrow> y_permits y b = Some kb \<longrightarrow>
       (\<forall>x \<in> set ka. \<forall>z \<in> set kb. \<not> conflicts x z))"

definition sys_ok :: "'x system \<Rightarrow> bool" where
  "sys_ok y \<longleftrightarrow>
     scopes_ok (y_scopes y) \<and> finite (dom (y_tasks y)) \<and>
     (\<forall>n t. y_tasks y n = Some t \<longrightarrow> task_ok y n t) \<and> permits_ok y \<and> limits_ok y"

lemma outcome_state_terminal [simp]: "is_terminal (outcome_state r)"
  by (cases r) (simp_all add: is_terminal_def)

lemma busy_not_terminal: "busy st \<Longrightarrow> \<not> is_terminal st"
  by (cases st) (simp_all add: is_terminal_def busy_def)

lemma edge_not_terminal: "edge st st' \<Longrightarrow> \<not> is_terminal st \<and> \<not> is_terminal st'"
  by (cases st; cases st') (auto simp: is_terminal_def edge_def split: task_wait.splits)

lemma edge_busy: "edge st st' \<Longrightarrow> busy st' \<Longrightarrow> busy st"
  by (cases st; cases st') (auto simp: busy_def edge_def split: task_wait.splits)


lemma sys_okD:
  assumes "sys_ok y"
  shows "scopes_ok (y_scopes y)" "finite (dom (y_tasks y))" "permits_ok y" "limits_ok y"
    and "y_tasks y n = Some t \<Longrightarrow> task_ok y n t"
  using assms by (simp_all add: sys_ok_def)

lemma task_ok_put [simp]: "task_ok (put n t y) m u = task_ok y m u"
  by (simp add: task_ok_def cong: option.case_cong)

lemma permits_ok_put [simp]: "permits_ok (put n t y) = permits_ok y"
  by (simp add: permits_ok_def)

lemma task_ok_live:
  assumes "task_ok y n t" "\<not> is_terminal (a_state t)"
  shows "a_outcome t = None" "y_scopes y (a_scope t) \<noteq> None" "busy (a_state t) \<Longrightarrow> a_slot t"
  using assms by (auto simp: task_ok_def split: option.splits)

lemma task_ok_liveI:
  assumes "y_scopes y (a_scope t) \<noteq> None" "a_outcome t = None" "\<not> is_terminal (a_state t)"
    and "busy (a_state t) \<Longrightarrow> a_slot t"
  shows "task_ok y n t"
  using assms by (simp add: task_ok_def)

text \<open>A transition that replaces the record of one task and leaves its scope.\<close>

lemma sys_ok_put:
  assumes "sys_ok y" "task_ok y n t'" "limits_ok (put n t' y)"
  shows "sys_ok (put n t' y)"
  using assms by (auto simp: sys_ok_def)

lemma limits_ok_put:
  assumes "limits_ok y" "\<And>b. within (y_scopes y) k b \<or> occupancy (put n t' y) b \<le> occupancy y b"
    and "\<And>b g. within (y_scopes y) k b \<Longrightarrow> y_scopes y b = Some g \<Longrightarrow> occupancy (put n t' y) b \<le> a_limit g"
  shows "limits_ok (put n t' y)"
  using assms unfolding limits_ok_def put_simps by (meson le_trans)

lemma limits_ok_put_mono:
  assumes "limits_ok y" "\<And>b. occupancy (put n t' y) b \<le> occupancy y b"
  shows "limits_ok (put n t' y)"
  using assms unfolding limits_ok_def put_simps by (meson le_trans)

lemma not_terminal_simps [simp]:
  "\<not> is_terminal Ready" "\<not> is_terminal Running" "\<not> is_terminal (Waiting w)"
  by (simp_all add: is_terminal_def)

lemma admit_ok:
  assumes "sys_ok y" "y_tasks y n = Some t" "a_state t = Ready" "\<not> a_slot t" "has_room y (a_scope t)"
  shows "sys_ok (put n (t\<lparr>a_state := Running, a_slot := True\<rparr>) y)"
proof (rule sys_ok_put [OF assms(1)])
  note ok = sys_okD [OF assms(1)]
  note live = task_ok_live [OF ok(5) [OF assms(2)]]
  show "task_ok y n (t\<lparr>a_state := Running, a_slot := True\<rparr>)"
    using live assms(3) by (intro task_ok_liveI) auto
  have occ: "occupancy (put n (t\<lparr>a_state := Running, a_slot := True\<rparr>) y) b =
      occupancy y b + (if within (y_scopes y) (a_scope t) b then 1 else 0)" for b
    using assms ok by (intro occupancy_put_take) auto
  show "limits_ok (put n (t\<lparr>a_state := Running, a_slot := True\<rparr>) y)"
    using assms(5) by (intro limits_ok_put [OF ok(4), of "a_scope t"]) (auto simp: occ has_room_def Suc_le_eq)
qed

lemma put_same_slot_ok:
  assumes "sys_ok y" "y_tasks y n = Some t" "\<not> is_terminal (a_state t)" "\<not> is_terminal st"
    and "busy st \<Longrightarrow> a_slot t"
  shows "sys_ok (put n (t\<lparr>a_state := st\<rparr>) y)"
proof (rule sys_ok_put [OF assms(1)])
  note ok = sys_okD [OF assms(1)]
  note live = task_ok_live [OF ok(5) [OF assms(2)] assms(3)]
  show "task_ok y n (t\<lparr>a_state := st\<rparr>)" using live assms by (intro task_ok_liveI) auto
  show "limits_ok (put n (t\<lparr>a_state := st\<rparr>) y)"
    by (rule limits_ok_put_mono [OF ok(4)]) (simp add: occupancy_put_same assms(2))
qed

lemma give_up_ok:
  assumes "sys_ok y" "y_tasks y n = Some t" "a_slot t" "\<not> busy (a_state t)"
  shows "sys_ok (put n (t\<lparr>a_slot := False\<rparr>) y)"
proof (rule sys_ok_put [OF assms(1)])
  note ok = sys_okD [OF assms(1)]
  show "task_ok y n (t\<lparr>a_slot := False\<rparr>)"
    using ok(5) [OF assms(2)] assms by (auto simp: task_ok_def split: option.splits)
  show "limits_ok (put n (t\<lparr>a_slot := False\<rparr>) y)"
    using occupancy_put_drop [OF assms(2,3), of "t\<lparr>a_slot := False\<rparr>"] ok(2)
    by (intro limits_ok_put_mono [OF ok(4)]) auto
qed

lemma retain_ok:
  assumes "sys_ok y" "y_tasks y n = Some t" "\<not> is_terminal (a_state t)" "y_scopes y k = Some g" "a_serial g"
  shows "sys_ok (put n (t\<lparr>a_slot := True\<rparr>) y)"
proof (rule sys_ok_put [OF assms(1)])
  note ok = sys_okD [OF assms(1)]
  note live = task_ok_live [OF ok(5) [OF assms(2)] assms(3)]
  show "task_ok y n (t\<lparr>a_slot := True\<rparr>)" using live assms by (intro task_ok_liveI) auto
  show "limits_ok (put n (t\<lparr>a_slot := True\<rparr>) y)" using assms(4,5) by (auto simp: limits_ok_def)
qed

lemma new_task_ok:
  assumes "sys_ok y" "y_tasks y n = None" "y_scopes y k \<noteq> None"
  shows "sys_ok (put n \<lparr>a_scope = k, a_state = Ready, a_outcome = None, a_slot = False\<rparr> y)"
  using assms
  by (intro sys_ok_put task_ok_liveI limits_ok_put_mono [OF sys_okD(4)])
    (auto simp: occupancy_put_same busy_def)

lemma occupancy_permits [simp]: "occupancy (y\<lparr>y_permits := p\<rparr>) = occupancy y"
  by (simp add: fun_eq_iff occupancy_def slot_holders_def)

lemma limits_ok_permits [simp]: "limits_ok (y\<lparr>y_permits := p\<rparr>) = limits_ok y"
  by (simp add: limits_ok_def)

lemma finish_ok:
  assumes "sys_ok y" "y_tasks y n = Some t"
  shows "sys_ok ((put n (t\<lparr>a_state := outcome_state r, a_outcome := Some r, a_slot := False\<rparr>) y)
      \<lparr>y_permits := (y_permits y)(n := None)\<rparr>)" (is "sys_ok (?y\<lparr>y_permits := ?p\<rparr>)")
proof -
  note ok = sys_okD [OF assms(1)]
  have "occupancy ?y b \<le> occupancy y b" for b
  proof (cases "a_slot t")
    case True
    then show ?thesis
      using occupancy_put_drop [OF assms(2) True _ _ ok(2),
        of "t\<lparr>a_state := outcome_state r, a_outcome := Some r, a_slot := False\<rparr>" b] by simp
  next
    case False
    then show ?thesis by (simp add: occupancy_put_same assms(2))
  qed
  then have "limits_ok (?y\<lparr>y_permits := ?p\<rparr>)"
    using limits_ok_put_mono [OF ok(4)] by simp
  moreover have "\<not> busy (outcome_state r)" using busy_not_terminal outcome_state_terminal by blast
  moreover have "permits_ok (?y\<lparr>y_permits := ?p\<rparr>)" using ok(3) by (simp add: permits_ok_def)
  moreover have "task_ok (?y\<lparr>y_permits := ?p\<rparr>) m u" if "y_tasks (?y\<lparr>y_permits := ?p\<rparr>) m = Some u" for m u
  proof (cases "m = n")
    case True
    with that \<open>\<not> busy (outcome_state r)\<close> ok(5) [OF assms(2)] show ?thesis by (auto simp: task_ok_def)
  next
    case False
    with that have "task_ok y m u" using ok(5) by simp
    with False show ?thesis by (auto simp: task_ok_def cong: option.case_cong)
  qed
  ultimately show ?thesis
    using ok by (simp add: sys_ok_def)
qed

lemma permit_ok:
  assumes "sys_ok y" "y_tasks y n = Some t" "\<not> is_terminal (a_state t)" "permit_free y ks"
  shows "sys_ok (y\<lparr>y_permits := (y_permits y)(n \<mapsto> ks)\<rparr>)"
proof -
  note ok = sys_okD [OF assms(1)]
  have "permits_ok (y\<lparr>y_permits := (y_permits y)(n \<mapsto> ks)\<rparr>)"
    using ok(3) assms(4) unfolding permits_ok_def permit_free_def
    by (auto split: if_splits dest: conflicts_sym [THEN iffD1])
  moreover have "task_ok (y\<lparr>y_permits := (y_permits y)(n \<mapsto> ks)\<rparr>) m u" if "y_tasks y m = Some u" for m u
    using ok(5) [OF that] that assms(2,3) by (auto simp: task_ok_def split: option.splits)
  ultimately show ?thesis using ok by (simp add: sys_ok_def)
qed

lemma new_scope_ok:
  assumes "sys_ok y" "y_scopes y k = None" "y_scopes y p \<noteq> None" "p < k"
  shows "sys_ok (y\<lparr>y_scopes := (y_scopes y)(k \<mapsto> \<lparr>a_parent = Some p, a_limit = l, a_serial = False\<rparr>)\<rparr>)"
    (is "sys_ok ?y")
proof -
  note ok = sys_okD [OF assms(1)]
  have known: "y_scopes y (a_scope t) \<noteq> None" if "y_tasks y n = Some t" for n t
    using ok(5) [OF that] by (simp add: task_ok_def)
  have inside: "within (y_scopes ?y) (a_scope t) b = within (y_scopes y) (a_scope t) b"
    if "y_tasks y n = Some t" for n t b
    using within_extend [OF assms(2) ok(1) known [OF that]] by simp
  then have occ: "occupancy ?y b = occupancy y b" for b
    by (intro occupancy_cong) (auto simp: slot_holders_def)
  have "\<not> within (y_scopes y) (a_scope t) k" if "y_tasks y n = Some t" for n t
    using within_dom [OF _ ok(1) known [OF that]] assms(2) by blast
  then have "slot_holders y k = {}" by (auto simp: slot_holders_def)
  then have "occupancy y k = 0" by (simp add: occupancy_def)
  moreover have "scopes_ok (y_scopes ?y)" using ok(1) assms by (auto simp: scopes_ok_def)
  moreover have "task_ok ?y n t" if "y_tasks y n = Some t" for n t
    using ok(5) [OF that] by (auto simp: task_ok_def cong: option.case_cong)
  moreover have "limits_ok ?y" using ok(4) assms(2) \<open>occupancy y k = 0\<close>
    by (simp add: limits_ok_def occ) (metis option.distinct(1))
  ultimately show ?thesis using ok by (simp add: sys_ok_def permits_ok_def)
qed

lemma serialize_ok:
  assumes "sys_ok y" "y_scopes y k = Some g"
  shows "sys_ok (y\<lparr>y_scopes := (y_scopes y)(k \<mapsto> g\<lparr>a_limit := 1, a_serial := True\<rparr>)\<rparr>)" (is "sys_ok ?y")
proof -
  note ok = sys_okD [OF assms(1)]
  have "scopes_ok (y_scopes ?y)" using ok(1) assms(2) by (auto simp: scopes_ok_def)
  moreover have "task_ok ?y n t" if "y_tasks y n = Some t" for n t
    using ok(5) [OF that] by (auto simp: task_ok_def cong: option.case_cong)
  moreover have "limits_ok ?y" by (auto simp: limits_ok_def)
  ultimately show ?thesis using ok by (simp add: sys_ok_def permits_ok_def)
qed

lemma sys_step_ok: "sys_step y y' \<Longrightarrow> sys_ok y \<Longrightarrow> sys_ok y'"
proof (induction rule: sys_step.induct)
  case (move y n t st)
  then have "busy st \<Longrightarrow> a_slot t"
    using edge_busy edge_not_terminal task_ok_live(3) [OF sys_okD(5)] by blast
  with move show ?case using edge_not_terminal by (intro put_same_slot_ok) auto
next
  case (resume y n t)
  then show ?case by (intro put_same_slot_ok) auto
qed (blast intro: new_scope_ok serialize_ok new_task_ok admit_ok retain_ok give_up_ok permit_ok finish_ok)+

lemma sys_run_ok: "sys_run y y' \<Longrightarrow> sys_ok y \<Longrightarrow> sys_ok y'"
  by (induction rule: rtranclp_induct) (auto intro: sys_step_ok)

lemma sys_init_ok: "sys_ok (sys_init owner limit)"
  by (auto simp: sys_ok_def sys_init_def scopes_ok_def permits_ok_def limits_ok_def occupancy_def slot_holders_def)

text \<open>Scopes and tasks stay, a finished task keeps its outcome, and an unfinished one its scope.\<close>

definition extends :: "'x system \<Rightarrow> 'x system \<Rightarrow> bool" where
  "extends y y' \<longleftrightarrow>
     (\<forall>k g. y_scopes y k = Some g \<longrightarrow> (\<exists>g'. y_scopes y' k = Some g' \<and> a_parent g' = a_parent g)) \<and>
     (\<forall>n t. y_tasks y n = Some t \<longrightarrow>
       (\<exists>t'. y_tasks y' n = Some t' \<and> a_scope t' = a_scope t \<and>
         (is_terminal (a_state t) \<longrightarrow> a_state t' = a_state t \<and> a_outcome t' = a_outcome t)))"

lemma sys_step_extends: "sys_step y y' \<Longrightarrow> extends y y'"
  by (induction rule: sys_step.induct) (auto simp: extends_def dest: edge_not_terminal)

lemma extends_task:
  assumes "extends y y'" "y_tasks y n = Some t"
  obtains t' where "y_tasks y' n = Some t'" "a_scope t' = a_scope t"
    "is_terminal (a_state t) \<Longrightarrow> a_state t' = a_state t \<and> a_outcome t' = a_outcome t"
  using assms unfolding extends_def by blast

lemma extends_scope:
  assumes "extends y y'" "y_scopes y k = Some g"
  obtains g' where "y_scopes y' k = Some g'" "a_parent g' = a_parent g"
  using assms unfolding extends_def by blast

lemma extends_trans:
  assumes "extends x y" "extends y z"
  shows "extends x z"
  unfolding extends_def
proof (intro conjI allI impI)
  fix k g
  assume "y_scopes x k = Some g"
  with assms show "\<exists>g'. y_scopes z k = Some g' \<and> a_parent g' = a_parent g"
    by (metis extends_scope)
next
  fix n t
  assume t: "y_tasks x n = Some t"
  obtain t' where t': "y_tasks y n = Some t'" "a_scope t' = a_scope t"
    "is_terminal (a_state t) \<Longrightarrow> a_state t' = a_state t \<and> a_outcome t' = a_outcome t"
    by (rule extends_task [OF assms(1) t]) blast
  obtain u where "y_tasks z n = Some u" "a_scope u = a_scope t'"
    "is_terminal (a_state t') \<Longrightarrow> a_state u = a_state t' \<and> a_outcome u = a_outcome t'"
    by (rule extends_task [OF assms(2) t'(1)]) blast
  with t' show "\<exists>u. y_tasks z n = Some u \<and> a_scope u = a_scope t \<and>
      (is_terminal (a_state t) \<longrightarrow> a_state u = a_state t \<and> a_outcome u = a_outcome t)" by auto
qed

lemma sys_run_extends: "sys_run y y' \<Longrightarrow> extends y y'"
proof (induction rule: rtranclp_induct)
  case base
  show ?case by (simp add: extends_def)
next
  case (step y' y'')
  then show ?case using extends_trans sys_step_extends by blast
qed

end
