(* ===== verification/Scheduler_Refinement.thy ===== *)
theory Scheduler_Refinement
  imports Task_System
begin

text \<open>
  The methods of \<open>Scheduler\<close> refine \<open>Task_System\<close>. A driver takes tasks out of the scheduler while
  it runs them (\<open>take_running\<close>, \<open>restore_running\<close>); \<open>out\<close> is the map of the tasks it holds. The
  abstraction joins them with the tasks in the scheduler and forgets the queues, machines and
  counters; the simulation relation says that the counter of every scope is the number of slot
  holders below it. Programs of the scheduler monad are reasoned about with the weakest
  precondition \<open>wp\<close>.
\<close>

named_theorems wp_simps \<open>weakest preconditions of the scheduler monad\<close>
named_theorems sim_intros \<open>updates that keep the simulation\<close>

section \<open>Weakest preconditions\<close>

definition wp ::
  "('x, 'w, 'a) sched \<Rightarrow> ('x sched_error + 'a \<Rightarrow> ('x, 'w) scheduler \<Rightarrow> bool) \<Rightarrow> ('x, 'w) scheduler \<Rightarrow> bool"
where
  "wp m Q s = (case m s of (r, s') \<Rightarrow> Q r s')"

lemma wp_prims [wp_simps]:
  "wp (sret x) Q s = Q (Ok x) s"
  "wp (sfail e) Q s = Q (Err e) s"
  "wp (sget f) Q s = Q (Ok (f s)) s"
  "wp (sread g) Q s = Q (g s) s"
  "wp (supd h) Q' s = Q' (Ok ()) (h s)"
  "wp (sassert b message) Q' s = (if b then Q' (Ok ()) s else Q' (Err (SchedPanic message)) s)"
  by (simp_all add: wp_def sret_def sfail_def sget_def sread_def supd_def sassert_def)

lemma wp_sbind [wp_simps]:
  "wp (sbind m f) Q s = wp m (\<lambda>r s'. case r of Inl e \<Rightarrow> Q (Err e) s' | Inr x \<Rightarrow> wp (f x) Q s') s"
  by (auto simp: wp_def sbind_def split: prod.splits sum.splits)

lemma wp_shost:
  assumes "\<And>e w. Q (Err (HostError e)) (s\<lparr>sc_world := w\<rparr>)" "\<And>x w. Q (Ok x) (s\<lparr>sc_world := w\<rparr>)"
  shows "wp (shost f) Q s"
  using assms by (auto simp: wp_def shost_def split: prod.splits sum.splits)

text \<open>The same, one bind at a time.\<close>

lemma wp_read_bind: "f s = Ok x \<Longrightarrow> wp (g x) Q s \<Longrightarrow> wp (sbind (sread f) g) Q s"
  by (simp add: wp_sbind wp_prims)

lemma wp_upd_bind: "wp (g ()) Q (f s) \<Longrightarrow> wp (sbind (supd f) g) Q s"
  by (simp add: wp_sbind wp_prims)

lemma wp_host_bind:
  assumes "\<And>e w. Q (Err (HostError e)) (s\<lparr>sc_world := w\<rparr>)" "\<And>x w. wp (g x) Q (s\<lparr>sc_world := w\<rparr>)"
  shows "wp (sbind (shost f) g) Q s"
  using assms unfolding wp_sbind by (intro wp_shost) simp_all

lemma wp_mono: "wp m P s \<Longrightarrow> (\<And>r s'. P r s' \<Longrightarrow> Q r s') \<Longrightarrow> wp m Q s"
  by (auto simp: wp_def)

lemma wp_eq: "wp m Q s \<Longrightarrow> m s = (r, s') \<Longrightarrow> Q r s'"
  by (simp add: wp_def)

lemma wp_with_task [wp_simps]:
  "wp (with_task h f) Q s =
     (case RBT.lookup (sc_tasks s) (h_task h) of
        None \<Rightarrow> Q (Err UnknownTask) s
      | Some t \<Rightarrow> if h_owner h \<noteq> t_scope t then Q (Err WrongOwner) s else wp (f t) Q s)"
  by (auto simp: with_task_def wp_sbind wp_prims resolve_id_def task_at_def split: option.splits)

section \<open>Abstraction\<close>

type_synonym 'x held = "nat \<rightharpoonup> 'x scheduled_task"

definition view :: "'x held \<Rightarrow> ('x, 'w) scheduler \<Rightarrow> nat \<rightharpoonup> 'x scheduled_task" where
  "view out s = out ++ RBT.lookup (sc_tasks s)"

definition abs_group :: "task_group \<Rightarrow> scope_spec" where
  "abs_group g = \<lparr>a_parent = g_parent g, a_limit = g_concurrency g, a_serial = g_serial_task_admission g\<rparr>"

definition abs_task :: "'x scheduled_task \<Rightarrow> 'x task_spec" where
  "abs_task t = \<lparr>a_scope = t_scope t, a_state = t_state t, a_outcome = t_outcome t, a_slot = t_active_slot t\<rparr>"

definition scopes_of :: "('x, 'w) scheduler \<Rightarrow> nat \<rightharpoonup> scope_spec" where
  "scopes_of s n = map_option abs_group (RBT.lookup (sc_groups s) n)"

definition abs :: "'x held \<Rightarrow> ('x, 'w) scheduler \<Rightarrow> 'x system" where
  "abs out s =
     \<lparr>y_scopes = scopes_of s, y_tasks = (\<lambda>n. map_option abs_task (view out s n)),
      y_permits = RBT.lookup (holders (sc_resources s))\<rparr>"

definition counters_ok :: "'x held \<Rightarrow> ('x, 'w) scheduler \<Rightarrow> bool" where
  "counters_ok out s \<longleftrightarrow>
     (\<forall>b g. RBT.lookup (sc_groups s) b = Some g \<longrightarrow> g_active g = occupancy (abs out s) b)"

definition ids_ok :: "'x held \<Rightarrow> ('x, 'w) scheduler \<Rightarrow> bool" where
  "ids_ok out s \<longleftrightarrow>
     (\<forall>k. RBT.lookup (sc_groups s) k \<noteq> None \<longrightarrow> k < sc_next_scope s) \<and>
     (\<forall>n. view out s n \<noteq> None \<longrightarrow> n < sc_next_task s) \<and>
     (\<forall>n. RBT.lookup (holders (sc_resources s)) n \<noteq> None \<longrightarrow> n < sc_next_task s) \<and>
     dom out \<inter> dom (RBT.lookup (sc_tasks s)) = {}"

definition sim :: "'x held \<Rightarrow> ('x, 'w) scheduler \<Rightarrow> bool" where
  "sim out s \<longleftrightarrow> sys_ok (abs out s) \<and> counters_ok out s \<and> ids_ok out s"

lemma abs_simps [simp]:
  "y_scopes (abs out s) = scopes_of s"
  "y_tasks (abs out s) n = map_option abs_task (view out s n)"
  "y_permits (abs out s) = RBT.lookup (holders (sc_resources s))"
  by (simp_all add: abs_def)

lemma abs_group_simps [simp]:
  "a_parent (abs_group g) = g_parent g" "a_limit (abs_group g) = g_concurrency g"
  "a_serial (abs_group g) = g_serial_task_admission g"
  by (simp_all add: abs_group_def)

lemma abs_task_simps [simp]:
  "a_scope (abs_task t) = t_scope t" "a_state (abs_task t) = t_state t"
  "a_outcome (abs_task t) = t_outcome t" "a_slot (abs_task t) = t_active_slot t"
  by (simp_all add: abs_task_def)

section \<open>The walks over the ancestry\<close>

definition below :: "('x, 'w) scheduler \<Rightarrow> nat \<Rightarrow> nat" where
  "below s k = card {b. RBT.lookup (sc_groups s) b \<noteq> None \<and> b \<le> k}"

lemma finite_scopes: "finite {b. RBT.lookup (sc_groups s) b \<noteq> None \<and> P b}"
  by (rule finite_subset [OF _ finite_dom_lookup [of "sc_groups s"]]) auto

lemma below_fuel: "below s k < scope_fuel s"
proof -
  have "below s k \<le> card (set (RBT.keys (sc_groups s)))"
    unfolding below_def lookup_keys [symmetric] by (rule card_mono [OF finite_dom_lookup]) auto
  also have "\<dots> \<le> length (RBT.keys (sc_groups s))" by (rule card_length)
  finally show ?thesis by (simp add: scope_fuel_def)
qed

lemma below_parent:
  assumes "RBT.lookup (sc_groups s) k = Some g" "p < k"
  shows "below s p < below s k"
proof -
  have "{b. RBT.lookup (sc_groups s) b \<noteq> None \<and> b \<le> p} \<subset> {b. RBT.lookup (sc_groups s) b \<noteq> None \<and> b \<le> k}"
  proof
    show "{b. RBT.lookup (sc_groups s) b \<noteq> None \<and> b \<le> p} \<noteq> {b. RBT.lookup (sc_groups s) b \<noteq> None \<and> b \<le> k}"
      using assms unfolding set_eq_iff mem_Collect_eq by (metis leD option.distinct(1) order_refl)
  qed (use assms in auto)
  then show ?thesis unfolding below_def by (rule psubset_card_mono [OF finite_scopes])
qed

lemma scopes_ofD:
  assumes "scopes_ok (scopes_of s)" "RBT.lookup (sc_groups s) k = Some g" "g_parent g = Some p"
  shows "p < k" "\<exists>h. RBT.lookup (sc_groups s) p = Some h"
  using scopes_okD [OF assms(1), of k "abs_group g" p] assms(2,3) by (auto simp: scopes_of_def)

lemma within_scope:
  assumes "RBT.lookup (sc_groups s) k = Some g"
  shows "within (scopes_of s) k b \<longleftrightarrow> k = b \<or> (\<exists>p. g_parent g = Some p \<and> within (scopes_of s) p b)"
  using within_unfold [of "scopes_of s" k "abs_group g" b] assms by (simp add: scopes_of_def)

lemma any_ancestor_spec:
  assumes "scopes_ok (scopes_of s)" "RBT.lookup (sc_groups s) k \<noteq> None" "below s k < fuel"
  shows "any_ancestor fuel p k s =
    Ok (\<exists>b g. within (scopes_of s) k b \<and> RBT.lookup (sc_groups s) b = Some g \<and> p g)"
  using assms(2,3)
proof (induction fuel arbitrary: k)
  case (Suc fuel)
  then obtain g where g: "RBT.lookup (sc_groups s) k = Some g" by blast
  show ?case
  proof (cases "g_parent g")
    case None
    then show ?thesis using g by (auto simp: group_at_def within_scope)
  next
    case (Some q)
    note parent = scopes_ofD [OF assms(1) g Some]
    then have "any_ancestor fuel p q s =
        Ok (\<exists>b g. within (scopes_of s) q b \<and> RBT.lookup (sc_groups s) b = Some g \<and> p g)"
      using Suc.IH [of q] Suc.prems below_parent [OF g parent(1)] by auto
    then show ?thesis using g Some by (auto simp: group_at_def within_scope [OF g])
  qed
qed simp

lemmas ancestor_spec = any_ancestor_spec [OF _ _ below_fuel]

definition bump :: "bool \<Rightarrow> task_group \<Rightarrow> task_group" where
  "bump inc g = g\<lparr>g_active := (if inc then g_active g + 1 else g_active g - 1)\<rparr>"

lemma bump_simps [simp]:
  "abs_group (bump inc g) = abs_group g" "g_parent (bump inc g) = g_parent g"
  "g_active (bump inc g) = (if inc then g_active g + 1 else g_active g - 1)"
  by (simp_all add: bump_def abs_group_def)

lemma bump_funs:
  "(\<lambda>g. g\<lparr>g_active := Suc (g_active g)\<rparr>) = bump True"
  "(\<lambda>g. g\<lparr>g_active := g_active g - Suc 0\<rparr>) = bump False"
  by (simp_all add: bump_def fun_eq_iff)

lemma change_active_step:
  assumes "RBT.lookup (sc_groups s) k = Some g" "inc \<or> 0 < g_active g"
  shows "change_active_from (Suc fuel) k inc s =
    (case g_parent g of
       None \<Rightarrow> (Ok (), upd_group k (bump inc) s)
     | Some p \<Rightarrow> change_active_from fuel p inc (upd_group k (bump inc) s))"
  using assms
  by (auto simp: sbind_def sread_def group_at_def supd_def sret_def bump_funs split: option.splits)

lemma change_active_from_spec:
  assumes "scopes_ok (scopes_of s)" "RBT.lookup (sc_groups s) k \<noteq> None" "below s k < fuel"
    and "\<And>b g. within (scopes_of s) k b \<Longrightarrow> RBT.lookup (sc_groups s) b = Some g \<Longrightarrow> inc \<or> 0 < g_active g"
  shows "\<exists>G. change_active_from fuel k inc s = (Ok (), s\<lparr>sc_groups := G\<rparr>) \<and>
    (\<forall>b. RBT.lookup G b = map_option (\<lambda>g. if within (scopes_of s) k b then bump inc g else g)
      (RBT.lookup (sc_groups s) b))"
  using assms
proof (induction fuel arbitrary: k s)
  case (Suc fuel)
  from Suc.prems(2) obtain g where g: "RBT.lookup (sc_groups s) k = Some g" by blast
  let ?s = "upd_group k (bump inc) s"
  have look: "RBT.lookup (sc_groups ?s) = (RBT.lookup (sc_groups s))(k \<mapsto> bump inc g)"
    by (simp add: upd_group_def g)
  have same: "scopes_of ?s = scopes_of s" by (auto simp: scopes_of_def look g)
  note unfold = change_active_step [OF g Suc.prems(4) [OF within_refl g], of fuel]
  show ?case
  proof (cases "g_parent g")
    case None
    then show ?thesis
      by (intro exI [of _ "sc_groups ?s"])
        (auto simp: unfold look within_scope [OF g] g upd_group_def option.map_ident simp del: change_active_from.simps)
  next
    case (Some p)
    note parent = scopes_ofD [OF Suc.prems(1) g Some]
    have not_below: "\<not> within (scopes_of s) p k"
      using within_le [OF _ Suc.prems(1)] parent(1) by fastforce
    have "below ?s p = below s p" unfolding below_def look by (rule arg_cong [of _ _ card]) (auto simp: g)
    then have fuel: "below ?s p < fuel" using Suc.prems(3) below_parent [OF g parent(1)] by simp
    have "\<exists>G. change_active_from fuel p inc ?s = (Ok (), ?s\<lparr>sc_groups := G\<rparr>) \<and>
        (\<forall>b. RBT.lookup G b = map_option (\<lambda>g. if within (scopes_of s) p b then bump inc g else g)
          (RBT.lookup (sc_groups ?s) b))"
    proof (rule Suc.IH [of ?s p, unfolded same, OF Suc.prems(1) _ fuel])
      show "RBT.lookup (sc_groups ?s) p \<noteq> None" using parent by (auto simp: look)
    next
      fix b h
      assume b: "within (scopes_of s) p b" "RBT.lookup (sc_groups ?s) b = Some h"
      with not_below have "b \<noteq> k" by blast
      with b show "inc \<or> 0 < g_active h" using Suc.prems(4) [of b h] Some by (auto simp: look within_scope [OF g])
    qed
    then obtain G where "change_active_from fuel p inc ?s = (Ok (), ?s\<lparr>sc_groups := G\<rparr>)"
      "\<And>b. RBT.lookup G b = map_option (\<lambda>g. if within (scopes_of s) p b then bump inc g else g)
          (RBT.lookup (sc_groups ?s) b)" by blast
    then show ?thesis using not_below
      by (intro exI [of _ G])
        (auto simp: unfold Some look within_scope [OF g] g upd_group_def simp del: change_active_from.simps)
  qed
qed simp

section \<open>Updates seen through the abstraction\<close>

lemma view_simps [simp]:
  "view out (s\<lparr>sc_ready := a\<rparr>) = view out s"
  "view out (s\<lparr>sc_wakeups := c\<rparr>) = view out s"
  "view out (s\<lparr>sc_cancellation_events := d\<rparr>) = view out s"
  "view out (s\<lparr>sc_continuations := e\<rparr>) = view out s"
  "view out (s\<lparr>sc_resources := r\<rparr>) = view out s"
  "view out (s\<lparr>sc_checkpoint_barrier := b\<rparr>) = view out s"
  "view out (s\<lparr>sc_world := w\<rparr>) = view out s"
  "view out (s\<lparr>sc_groups := G\<rparr>) = view out s"
  "view out (s\<lparr>sc_next_scope := m\<rparr>) = view out s"
  by (simp_all add: view_def)

lemma scopes_of_simps [simp]:
  "scopes_of (s\<lparr>sc_ready := a\<rparr>) = scopes_of s"
  "scopes_of (s\<lparr>sc_wakeups := c\<rparr>) = scopes_of s"
  "scopes_of (s\<lparr>sc_cancellation_events := d\<rparr>) = scopes_of s"
  "scopes_of (s\<lparr>sc_continuations := e\<rparr>) = scopes_of s"
  "scopes_of (s\<lparr>sc_resources := r\<rparr>) = scopes_of s"
  "scopes_of (s\<lparr>sc_checkpoint_barrier := b\<rparr>) = scopes_of s"
  "scopes_of (s\<lparr>sc_world := w\<rparr>) = scopes_of s"
  "scopes_of (s\<lparr>sc_tasks := T\<rparr>) = scopes_of s"
  "scopes_of (s\<lparr>sc_next_scope := m\<rparr>) = scopes_of s"
  "scopes_of (s\<lparr>sc_next_task := m'\<rparr>) = scopes_of s"
  by (simp_all add: scopes_of_def fun_eq_iff)

text \<open>What the simulation depends on: two states that agree on it are in the same relation.\<close>

definition agree :: "'x held \<Rightarrow> ('x, 'w) scheduler \<Rightarrow> ('x, 'w) scheduler \<Rightarrow> bool" where
  "agree out s s' \<longleftrightarrow>
     abs out s' = abs out s \<and>
     (\<forall>b. map_option g_active (RBT.lookup (sc_groups s') b) = map_option g_active (RBT.lookup (sc_groups s) b)) \<and>
     dom (RBT.lookup (sc_tasks s')) = dom (RBT.lookup (sc_tasks s)) \<and>
     sc_next_scope s' = sc_next_scope s \<and> sc_next_task s' = sc_next_task s"

lemma agree_scopes: "agree out s s' \<Longrightarrow> scopes_of s' = scopes_of s"
  unfolding agree_def by (metis abs_simps(1))

lemma agree_view: "agree out s s' \<Longrightarrow> view out s' n = None \<longleftrightarrow> view out s n = None"
  unfolding agree_def by (metis abs_simps(2) option.map_disc_iff)

lemma agree_groups: "agree out s s' \<Longrightarrow> RBT.lookup (sc_groups s') n = None \<longleftrightarrow> RBT.lookup (sc_groups s) n = None"
  using agree_scopes [of out s s'] by (metis option.map_disc_iff scopes_of_def)

lemma agree_sim:
  assumes "agree out s s'" "sim out s"
  shows "sim out s'"
proof -
  have "counters_ok out s'"
    unfolding counters_ok_def
  proof (intro allI impI)
    fix b g'
    assume g': "RBT.lookup (sc_groups s') b = Some g'"
    then obtain g where g: "RBT.lookup (sc_groups s) b = Some g" "g_active g' = g_active g"
      using assms(1) unfolding agree_def by (metis (no_types, lifting) map_option_eq_Some option.inject)
    then show "g_active g' = occupancy (abs out s') b"
      using assms by (simp add: agree_def sim_def counters_ok_def)
  qed
  moreover have "holders (sc_resources s') = holders (sc_resources s) \<or>
      RBT.lookup (holders (sc_resources s')) = RBT.lookup (holders (sc_resources s))"
    using assms(1) unfolding agree_def by (metis abs_simps(3))
  ultimately show ?thesis
    using assms agree_view [OF assms(1)] agree_groups [OF assms(1)]
    unfolding sim_def ids_ok_def agree_def by auto
qed

definition goes :: "'x held \<Rightarrow> ('x, 'w) scheduler \<Rightarrow> ('x, 'w) scheduler \<Rightarrow> bool" where
  "goes out s s' \<longleftrightarrow> sim out s' \<and> sys_run (abs out s) (abs out s')"

lemma goes_refl: "sim out s \<Longrightarrow> goes out s s"
  by (simp add: goes_def)

lemma goes_trans: "goes out s s' \<Longrightarrow> goes out s' s'' \<Longrightarrow> goes out s s''"
  unfolding goes_def by (meson rtranclp_trans)

lemma goes_sim: "goes out s s' \<Longrightarrow> sim out s'"
  by (simp add: goes_def)

lemma goes_agree: "goes out s s' \<Longrightarrow> agree out s' s'' \<Longrightarrow> goes out s s''"
  unfolding goes_def using agree_sim by (metis agree_def)

lemma goes_step: "goes out s s' \<Longrightarrow> sys_step (abs out s') (abs out s'') \<Longrightarrow> sim out s'' \<Longrightarrow> goes out s s''"
  unfolding goes_def by (meson rtranclp.rtrancl_into_rtrancl)

lemma agree_book [simp]:
  "agree out s (s\<lparr>sc_ready := a\<rparr>)"
  "agree out s (s\<lparr>sc_wakeups := c\<rparr>)"
  "agree out s (s\<lparr>sc_cancellation_events := d\<rparr>)"
  "agree out s (s\<lparr>sc_continuations := e\<rparr>)"
  "agree out s (s\<lparr>sc_checkpoint_barrier := b\<rparr>)"
  "agree out s (s\<lparr>sc_world := w\<rparr>)"
  "agree out s (push_ready n s)"
  "agree out s (push_wakeup n k s)"
  by (simp_all add: agree_def abs_def push_ready_def push_wakeup_def)

lemma agree_resources [simp]:
  "RBT.lookup (holders r) = RBT.lookup (holders (sc_resources s)) \<Longrightarrow> agree out s (s\<lparr>sc_resources := r\<rparr>)"
  by (simp add: agree_def abs_def)

lemma view_upd_task:
  "view out (upd_task n f s) m =
     (if m = n then (case RBT.lookup (sc_tasks s) n of Some t \<Rightarrow> Some (f t) | None \<Rightarrow> out n) else view out s m)"
  by (auto simp: view_def upd_task_def map_add_def split: option.splits)

lemma view_lookup: "RBT.lookup (sc_tasks s) n = Some t \<Longrightarrow> view out s n = Some t"
  by (simp add: view_def)

lemma dom_upd_task [simp]: "dom (RBT.lookup (sc_tasks (upd_task n f s))) = dom (RBT.lookup (sc_tasks s))"
  by (auto simp: upd_task_def)

lemma upd_task_simps [simp]:
  "sc_groups (upd_task n f s) = sc_groups s" "sc_next_scope (upd_task n f s) = sc_next_scope s"
  "sc_next_task (upd_task n f s) = sc_next_task s" "sc_resources (upd_task n f s) = sc_resources s"
  "sc_ready (upd_task n f s) = sc_ready s" "scopes_of (upd_task n f s) = scopes_of s"
  "RBT.lookup (sc_tasks (upd_task n f s)) m =
     (if m = n then map_option f (RBT.lookup (sc_tasks s) n) else RBT.lookup (sc_tasks s) m)"
  by (simp_all add: upd_task_def)

lemma abs_upd_task:
  assumes "RBT.lookup (sc_tasks s) n = Some t"
  shows "abs out (upd_task n f s) = put n (abs_task (f t)) (abs out s)"
  by (auto simp: abs_def put_def fun_eq_iff view_upd_task assms)

lemma upd_group_simps [simp]:
  "sc_tasks (upd_group n h s) = sc_tasks s" "sc_next_scope (upd_group n h s) = sc_next_scope s"
  "sc_next_task (upd_group n h s) = sc_next_task s" "sc_resources (upd_group n h s) = sc_resources s"
  "sc_ready (upd_group n h s) = sc_ready s" "view out (upd_group n h s) = view out s"
  "RBT.lookup (sc_groups (upd_group n h s)) m =
     (if m = n then map_option h (RBT.lookup (sc_groups s) n) else RBT.lookup (sc_groups s) m)"
  by (simp_all add: upd_group_def)

lemma agree_upd_task:
  assumes "\<And>t. abs_task (f t) = abs_task t"
  shows "agree out s (upd_task n f s)"
proof (cases "RBT.lookup (sc_tasks s) n")
  case None
  then have "view out (upd_task n f s) = view out s"
    by (auto simp: fun_eq_iff view_upd_task) (simp add: view_def map_add_def)
  then show ?thesis by (simp add: agree_def abs_def)
next
  case (Some t)
  then have "abs out (upd_task n f s) = abs out s"
    using assms by (simp add: abs_upd_task [OF Some] put_triv view_lookup [OF Some])
  then show ?thesis by (simp add: agree_def)
qed

lemma agree_upd_group:
  assumes "\<And>g. abs_group (f g) = abs_group g" "\<And>g. g_active (f g) = g_active g"
  shows "agree out s (upd_group n f s)"
  using assms by (auto simp: agree_def abs_def scopes_of_def fun_eq_iff option.map_comp comp_def)

section \<open>Transitions of one task\<close>

text \<open>An update of a task record that keeps its scope and slot and is a transition of the system.\<close>

lemma sim_upd_task:
  assumes "sim out s" "RBT.lookup (sc_tasks s) n = Some t" "sys_step (abs out s) (put n (abs_task (f t)) (abs out s))"
    and "t_scope (f t) = t_scope t" "t_active_slot (f t) = t_active_slot t"
  shows "sim out (upd_task n f s)"
proof -
  have "sys_ok (abs out (upd_task n f s))"
    using assms(1,3) by (simp add: abs_upd_task [OF assms(2)] sim_def) (blast intro: sys_step_ok)
  moreover have "occupancy (abs out (upd_task n f s)) b = occupancy (abs out s) b" for b
    unfolding abs_upd_task [OF assms(2)]
    by (rule occupancy_put_same) (simp add: view_lookup [OF assms(2)] assms(4,5))
  ultimately show ?thesis
    using assms(1) view_lookup [OF assms(2), of out]
    by (auto simp: sim_def counters_ok_def ids_ok_def view_upd_task assms(2) split: if_splits)
qed

lemma goes_upd_task:
  assumes "goes out s0 s" "RBT.lookup (sc_tasks s) n = Some t" "sys_step (abs out s) (put n (abs_task (f t)) (abs out s))"
    and "t_scope (f t) = t_scope t" "t_active_slot (f t) = t_active_slot t"
  shows "goes out s0 (upd_task n f s)"
proof (rule goes_step [OF assms(1)])
  show "sys_step (abs out s) (abs out (upd_task n f s))" using assms(3) by (simp add: abs_upd_task [OF assms(2)])
  show "sim out (upd_task n f s)" by (rule sim_upd_task) (use assms goes_sim in blast)+
qed

lemma abs_task_update [simp]:
  "abs_task (t\<lparr>t_state := st\<rparr>) = (abs_task t)\<lparr>a_state := st\<rparr>"
  "abs_task (t\<lparr>t_active_slot := b\<rparr>) = (abs_task t)\<lparr>a_slot := b\<rparr>"
  "abs_task (t\<lparr>t_outcome := r\<rparr>) = (abs_task t)\<lparr>a_outcome := r\<rparr>"
  "abs_task (t\<lparr>t_waiters := ws\<rparr>) = abs_task t"
  "abs_task (t\<lparr>t_cpu_capsule := c\<rparr>) = abs_task t"
  "abs_task (t\<lparr>t_start := x\<rparr>) = abs_task t"
  "abs_task (t\<lparr>t_resource_keys := ks\<rparr>) = abs_task t"
  by (simp_all add: abs_task_def)

lemma goes_move:
  assumes "goes out s0 s" "RBT.lookup (sc_tasks s) n = Some t" "edge (t_state t) st"
  shows "goes out s0 (upd_task n (\<lambda>t. t\<lparr>t_state := st\<rparr>) s)"
proof (rule goes_upd_task [OF assms(1,2)])
  show "sys_step (abs out s) (put n (abs_task (t\<lparr>t_state := st\<rparr>)) (abs out s))"
    unfolding abs_task_update by (rule move) (simp_all add: view_lookup [OF assms(2)] assms(3))
qed simp_all

lemma goes_resume:
  assumes "goes out s0 s" "RBT.lookup (sc_tasks s) n = Some t" "t_state t = Ready" "t_active_slot t"
  shows "goes out s0 (upd_task n (\<lambda>t. t\<lparr>t_state := Running\<rparr>) s)"
proof (rule goes_upd_task [OF assms(1,2)])
  show "sys_step (abs out s) (put n (abs_task (t\<lparr>t_state := Running\<rparr>)) (abs out s))"
    unfolding abs_task_update by (rule resume) (simp_all add: view_lookup [OF assms(2)] assms)
qed simp_all

text \<open>Taking and giving up an active slot, with the counters along the ancestry.\<close>

definition counted :: "('x, 'w) scheduler \<Rightarrow> nat \<Rightarrow> bool \<Rightarrow> ('x, 'w) scheduler \<Rightarrow> bool" where
  "counted s k inc s' \<longleftrightarrow>
     (\<exists>G. s' = s\<lparr>sc_groups := G\<rparr> \<and>
       (\<forall>b. RBT.lookup G b = map_option (\<lambda>g. if within (scopes_of s) k b then bump inc g else g)
         (RBT.lookup (sc_groups s) b)))"

lemma countedD:
  assumes "counted s k inc s'"
  shows "sc_tasks s' = sc_tasks s" "sc_resources s' = sc_resources s" "sc_ready s' = sc_ready s"
    and "scopes_of s' = scopes_of s" "abs out s' = abs out s" "view out s' = view out s"
    and "sc_next_scope s' = sc_next_scope s" "sc_next_task s' = sc_next_task s"
    and "sc_checkpoint_barrier s' = sc_checkpoint_barrier s" "sc_wakeups s' = sc_wakeups s"
    and "RBT.lookup (sc_groups s') b = map_option (\<lambda>g. if within (scopes_of s) k b then bump inc g else g)
         (RBT.lookup (sc_groups s) b)"
  using assms
  by (auto simp: counted_def abs_def scopes_of_def fun_eq_iff option.map_comp comp_def if_distrib [of abs_group] cong: if_cong)

lemma change_active_spec:
  assumes "scopes_ok (scopes_of s)" "RBT.lookup (sc_groups s) k \<noteq> None"
    and "\<And>b g. within (scopes_of s) k b \<Longrightarrow> RBT.lookup (sc_groups s) b = Some g \<Longrightarrow> inc \<or> 0 < g_active g"
  shows "\<exists>s'. change_active k inc s = (Ok (), s') \<and> counted s k inc s'"
proof -
  obtain G where "change_active_from (scope_fuel s) k inc s = (Ok (), s\<lparr>sc_groups := G\<rparr>)"
    "\<And>b. RBT.lookup G b = map_option (\<lambda>g. if within (scopes_of s) k b then bump inc g else g)
      (RBT.lookup (sc_groups s) b)"
    using change_active_from_spec [of s k "scope_fuel s" inc] assms below_fuel by blast
  then show ?thesis unfolding change_active_def counted_def by blast
qed

lemma counters_change:
  assumes "counters_ok out s" "counted s' k inc s''" "sc_groups s' = sc_groups s"
    and "\<And>b. occupancy (abs out s') b =
      (if within (scopes_of s) k b then (if inc then occupancy (abs out s) b + 1 else occupancy (abs out s) b - 1)
       else occupancy (abs out s) b)"
  shows "counters_ok out s''"
  unfolding counters_ok_def
proof (intro allI impI)
  fix b g''
  assume "RBT.lookup (sc_groups s'') b = Some g''"
  then obtain g where g: "RBT.lookup (sc_groups s) b = Some g"
    "g'' = (if within (scopes_of s) k b then bump inc g else g)"
    using countedD(11) [OF assms(2), of b] assms(3) by (auto simp: scopes_of_def [abs_def])
  then show "g_active g'' = occupancy (abs out s'') b"
    using assms(1) assms(4) [of b] countedD(5) [OF assms(2)] by (auto simp: counters_ok_def)
qed

lemma sim_scopes: "sim out s \<Longrightarrow> scopes_ok (scopes_of s)"
  unfolding sim_def by (metis abs_simps(1) sys_okD(1))

lemma sim_task_scope:
  assumes "sim out s" "RBT.lookup (sc_tasks s) n = Some t"
  shows "RBT.lookup (sc_groups s) (t_scope t) \<noteq> None"
proof -
  have "task_ok (abs out s) n (abs_task t)"
    using assms(1) view_lookup [OF assms(2), of out] by (intro sys_okD(5)) (auto simp: sim_def)
  then show ?thesis by (auto simp: task_ok_def scopes_of_def)
qed

lemma sim_task_ok:
  assumes "sim out s" "RBT.lookup (sc_tasks s) n = Some t"
  shows "task_ok (abs out s) n (abs_task t)"
  using assms(1) view_lookup [OF assms(2), of out] by (intro sys_okD(5)) (auto simp: sim_def)

lemma sim_finite: "sim out s \<Longrightarrow> finite (dom (y_tasks (abs out s)))"
  by (simp add: sim_def sys_okD(2))

lemma ids_upd_task: "ids_ok out s \<Longrightarrow> ids_ok out (upd_task n f s)"
  unfolding ids_ok_def
  by (auto simp: view_upd_task split: if_splits option.splits) (auto simp: view_def map_add_def)

lemma ids_counted:
  assumes "ids_ok out s" "counted s k inc s'"
  shows "ids_ok out s'"
  using assms(1) unfolding ids_ok_def countedD [OF assms(2)] by simp

text \<open>An update of one task that takes a slot, followed by the increment.\<close>

lemma take_slot_spec:
  assumes "goes out s0 s" "RBT.lookup (sc_tasks s) n = Some t" "\<not> t_active_slot t"
    and "abs out s1 = put n u (abs out s)" "sc_groups s1 = sc_groups s" "ids_ok out s1"
    and "a_slot u" "a_scope u = t_scope t" "sys_step (abs out s) (put n u (abs out s))"
  shows "\<exists>s'. change_active (t_scope t) True s1 = (Ok (), s') \<and> counted s1 (t_scope t) True s' \<and> goes out s0 s'"
proof -
  note sim = goes_sim [OF assms(1)]
  have same: "scopes_of s1 = scopes_of s" using assms(4) by (metis abs_simps(1) put_simps(1))
  obtain s' where s': "change_active (t_scope t) True s1 = (Ok (), s')" "counted s1 (t_scope t) True s'"
    using change_active_spec [of s1 "t_scope t" True] sim_scopes [OF sim] sim_task_scope [OF sim assms(2)] assms(5)
    by (auto simp: same)
  have occ: "occupancy (abs out s1) b =
      occupancy (abs out s) b + (if within (scopes_of s) (t_scope t) b then 1 else 0)" for b
    unfolding assms(4)
    using occupancy_put_take [of "abs out s" n "abs_task t" u b] view_lookup [OF assms(2), of out]
      assms(3,7,8) sim_finite [OF sim] by simp
  have "counters_ok out s'"
    using sim by (intro counters_change [OF _ s'(2), of out s]) (auto simp: sim_def occ assms(5))
  moreover have abs': "abs out s' = put n u (abs out s)"
    using countedD(5) [OF s'(2)] assms(4) by simp
  moreover have "ids_ok out s'" using ids_counted [OF assms(6) s'(2)] .
  ultimately have "sim out s'"
    using sys_step_ok [OF assms(9)] sim by (simp add: sim_def)
  then have "goes out s0 s'" using goes_step [OF assms(1)] assms(9) abs' by simp
  with s' show ?thesis by blast
qed

text \<open>An update of one task that clears the slot, followed by the decrement: the counters along
  the ancestry are positive, so the decrement does not underflow.\<close>

lemma drop_slot_spec:
  assumes "sim out s" "RBT.lookup (sc_tasks s) n = Some t" "t_active_slot t"
    and "abs out s1 = put n u (abs out s)" "sc_groups s1 = sc_groups s" "ids_ok out s1"
    and "\<not> a_slot u" "a_scope u = t_scope t"
  shows "\<exists>s'. change_active (t_scope t) False s1 = (Ok (), s') \<and> counted s1 (t_scope t) False s' \<and>
    counters_ok out s' \<and> ids_ok out s'"
proof -
  have same: "scopes_of s1 = scopes_of s" using assms(4) by (metis abs_simps(1) put_simps(1))
  have occ: "occupancy (abs out s) b =
      occupancy (abs out s1) b + (if within (scopes_of s) (t_scope t) b then 1 else 0)" for b
    unfolding assms(4)
    using occupancy_put_drop [of "abs out s" n "abs_task t" u b] view_lookup [OF assms(2), of out]
      assms(3,7,8) sim_finite [OF assms(1)] by simp
  have "0 < g_active g" if "within (scopes_of s) (t_scope t) b" "RBT.lookup (sc_groups s) b = Some g" for b g
    using assms(1) occ [of b] that by (auto simp: sim_def counters_ok_def)
  then obtain s' where s': "change_active (t_scope t) False s1 = (Ok (), s')" "counted s1 (t_scope t) False s'"
    using change_active_spec [of s1 "t_scope t" False] sim_scopes [OF assms(1)]
      sim_task_scope [OF assms(1,2)] assms(5) by (auto simp: same)
  have "counters_ok out s'"
    using assms(1) by (intro counters_change [OF _ s'(2), of out s]) (auto simp: sim_def occ assms(5))
  moreover have "ids_ok out s'" using ids_counted [OF assms(6) s'(2)] .
  ultimately show ?thesis using s' by blast
qed

lemma release_slot_spec:
  assumes "goes out s0 s" "RBT.lookup (sc_tasks s) n = Some t" "\<not> busy (t_state t)"
    and "t_active_slot u = t_active_slot t" "t_scope u = t_scope t"
  shows "wp (release_slot n u) (\<lambda>r s'. r = Ok () \<and> goes out s0 s') s"
proof (cases "t_active_slot t")
  case False
  then show ?thesis using assms by (simp add: release_slot_def wp_simps)
next
  case True
  let ?f = "\<lambda>t :: 'a scheduled_task. t\<lparr>t_active_slot := False\<rparr>"
  have "ids_ok out (upd_task n ?f s)" using goes_sim [OF assms(1)] by (simp add: sim_def ids_upd_task)
  then obtain s' where s': "change_active (t_scope t) False (upd_task n ?f s) = (Ok (), s')"
    "counted (upd_task n ?f s) (t_scope t) False s'" "counters_ok out s'" "ids_ok out s'"
    using drop_slot_spec [OF goes_sim [OF assms(1)] assms(2) True abs_upd_task [OF assms(2)], of ?f] by auto
  have abs': "abs out s' = put n (abs_task (?f t)) (abs out s)"
    using countedD(5) [OF s'(2)] by (simp add: abs_upd_task [OF assms(2)])
  have step: "sys_step (abs out s) (abs out s')"
    unfolding abs' abs_task_update
    by (rule give_up) (simp_all add: view_lookup [OF assms(2)] True assms(3))
  then have "sim out s'"
    using s'(3,4) goes_sim [OF assms(1)] by (auto simp: sim_def intro: sys_step_ok)
  then have "goes out s0 s'" using goes_step [OF assms(1) step] by simp
  with s'(1) True assms(4,5) show ?thesis
    by (simp add: release_slot_def wp_simps) (simp add: wp_def)
qed

end
