(* ===== verification/Scheduler_Simulation.thy ===== *)
theory Scheduler_Simulation
  imports Scheduler_Refinement
begin

text \<open>
  Every method of the scheduler is simulated by a sequence of transitions of \<open>Task_System\<close> and
  keeps the simulation relation, whatever it returns; the methods that finish a task are
  excepted when the host refuses to finish the task's body, because they then stop half-way.
\<close>

section \<open>Bookkeeping\<close>

lemma goes_book [sim_intros]:
  assumes "goes out s0 s"
  shows "goes out s0 (s\<lparr>sc_ready := a\<rparr>)" "goes out s0 (s\<lparr>sc_wakeups := c\<rparr>)"
    "goes out s0 (s\<lparr>sc_cancellation_events := d\<rparr>)" "goes out s0 (s\<lparr>sc_continuations := e\<rparr>)"
    "goes out s0 (s\<lparr>sc_checkpoint_barrier := b\<rparr>)" "goes out s0 (s\<lparr>sc_world := w\<rparr>)"
    "goes out s0 (push_ready n s)" "goes out s0 (push_wakeup n k s)"
  by (rule goes_agree [OF assms], simp)+

lemma goes_resources [sim_intros]:
  assumes "goes out s0 s" "RBT.lookup (holders r) = RBT.lookup (holders (sc_resources s))"
  shows "goes out s0 (s\<lparr>sc_resources := r\<rparr>)"
  by (rule goes_agree [OF assms(1)]) (simp add: assms(2))

lemma goes_passive:
  assumes "goes out s0 s" "\<And>t. abs_task (f t) = abs_task t"
  shows "goes out s0 (upd_task n f s)"
  by (rule goes_agree [OF assms(1) agree_upd_task]) (rule assms(2))

lemma goes_group_passive:
  assumes "goes out s0 s" "\<And>g. abs_group (f g) = abs_group g" "\<And>g. g_active (f g) = g_active g"
  shows "goes out s0 (upd_group n f s)"
  by (rule goes_agree [OF assms(1) agree_upd_group]) (rule assms(2,3))+

lemma abs_group_update [simp]:
  "abs_group (g\<lparr>g_tasks := a\<rparr>) = abs_group g" "abs_group (g\<lparr>g_owner := b\<rparr>) = abs_group g"
  "abs_group (g\<lparr>g_waiters := c\<rparr>) = abs_group g" "abs_group (g\<lparr>g_primary_failure := d\<rparr>) = abs_group g"
  "abs_group (g\<lparr>g_winner := e\<rparr>) = abs_group g" "abs_group (g\<lparr>g_guard_resources := b'\<rparr>) = abs_group g"
  "abs_group (g\<lparr>g_serialize_host_actions := b''\<rparr>) = abs_group g"
  by (simp_all add: abs_group_def)

definition simulated :: "('x, 'w, 'a) sched \<Rightarrow> bool" where
  "simulated m \<longleftrightarrow> (\<forall>out s. sim out s \<longrightarrow> wp m (\<lambda>r s'. goes out s s') s)"

lemma simulatedI: "(\<And>out s. sim out s \<Longrightarrow> wp m (\<lambda>r s'. goes out s s') s) \<Longrightarrow> simulated m"
  by (simp add: simulated_def)

lemma simulatedD:
  assumes "simulated m" "goes out s0 s"
  shows "wp m (\<lambda>r s'. goes out s0 s') s"
proof -
  have "wp m (\<lambda>r s'. goes out s s') s"
    using assms(1) goes_sim [OF assms(2)] by (simp add: simulated_def)
  then show ?thesis by (rule wp_mono) (rule goes_trans [OF assms(2)])
qed

lemma simulated_sret [sim_intros]: "simulated (sret x)"
  by (rule simulatedI) (simp add: wp_simps goes_refl)

lemma simulated_sbind [sim_intros]:
  fixes m :: "('x, 'w, 'a) sched"
  assumes "simulated m" "\<And>x. simulated (f x)"
  shows "simulated (sbind m f)"
proof (rule simulatedI, unfold wp_sbind)
  fix out :: "'x held" and s :: "('x, 'w) scheduler"
  assume "sim out s"
  with assms(1) have "wp m (\<lambda>r s'. goes out s s') s" by (simp add: simulated_def)
  then show "wp m (\<lambda>r s'. case r of Inl e \<Rightarrow> goes out s s' | Inr x \<Rightarrow> wp (f x) (\<lambda>r s'. goes out s s') s') s"
    by (rule wp_mono) (auto split: sum.splits intro: simulatedD [OF assms(2)])
qed

lemma simulated_sread [sim_intros]: "simulated (sread f)" "simulated (sget h)" "simulated (sassert b message)"
    "simulated (sfail e)"
  by (auto simp: simulated_def wp_simps goes_refl)

lemma simulated_shost [sim_intros]: "simulated (shost f)"
  by (auto simp: simulated_def intro!: wp_shost sim_intros goes_refl)

lemma simulated_with_task [sim_intros]:
  assumes "\<And>t. simulated (f t)"
  shows "simulated (with_task h f)"
  using assms by (auto simp: simulated_def wp_simps goes_refl split: option.splits)

lemma simulated_supd:
  assumes "\<And>out s. goes out s s \<Longrightarrow> goes out s (f s)"
  shows "simulated (supd f)"
  using assms by (auto simp: simulated_def wp_simps goes_refl)

lemma simulated_if [sim_intros]: "simulated m \<Longrightarrow> simulated m' \<Longrightarrow> simulated (if b then m else m')"
  by simp

lemma simulated_on_arena [sim_intros]: "simulated (on_arena f)"
  by (auto simp: simulated_def wp_def on_arena_def split: prod.splits intro!: sim_intros goes_refl)

section \<open>Methods that do not move a task\<close>

lemma simulated_continuations [sim_intros]:
  "simulated (allocate_continuation owner origin c out' program bnd)"
  "simulated (consume_continuation token origin transfer)"
  "simulated (dispose_continuation token origin)"
  unfolding allocate_continuation_def consume_continuation_def dispose_continuation_def
  by (intro sim_intros)+

lemma simulated_passive [sim_intros]:
  assumes "\<And>t. abs_task (f t) = abs_task t"
  shows "simulated (supd (upd_task n f))"
  by (rule simulated_supd) (rule goes_passive [OF _ assms])

lemma simulated_group_passive [sim_intros]:
  assumes "\<And>g. abs_group (f g) = abs_group g" "\<And>g. g_active (f g) = g_active g"
  shows "simulated (supd (upd_group n f))"
  by (rule simulated_supd) (rule goes_group_passive [OF _ assms])

lemma simulated_attach [sim_intros]:
  "simulated (set_scope_owner k h)" "simulated (attach_cpu_capsule ho h c)" "simulated (attach_start h x)"
  "simulated (attach_resources h keys)" "simulated (guard_scope k)" "simulated (serialize_scope k)"
  by (simp_all add: set_scope_owner_def attach_cpu_capsule_def attach_start_def attach_resources_def guard_scope_def
    serialize_scope_def Let_def sim_intros)

lemma simulated_events [sim_intros]:
  "simulated take_resource_events" "simulated take_cancellation_events"
  "simulated begin_checkpoint_barrier" "simulated end_checkpoint_barrier"
  by (simp_all add: take_resource_events_def take_cancellation_events_def begin_checkpoint_barrier_def
    end_checkpoint_barrier_def simulated_supd sim_intros)

lemma simulated_take_wakeup [sim_intros]: "simulated (take_wakeup h)"
  unfolding take_wakeup_def
  by (intro sim_intros) (auto split: option.split list.split intro!: sim_intros simulated_supd)

section \<open>New scopes and tasks\<close>

lemma goes_new_scope:
  assumes "sim out s" "RBT.lookup (sc_groups s) parent \<noteq> None" "k = sc_next_scope s"
  shows "goes out s (s\<lparr>sc_next_scope := Suc k,
    sc_groups := RBT.insert k (group_new (Some parent) limit policy) (sc_groups s)\<rparr>)" (is "goes out s ?s")
proof -
  have fresh: "RBT.lookup (sc_groups s) k = None" and less: "parent < k"
    using assms by (auto simp: sim_def ids_ok_def)
  have scopes: "scopes_of ?s = (scopes_of s)(k \<mapsto> \<lparr>a_parent = Some parent, a_limit = limit, a_serial = False\<rparr>)"
    by (rule ext) (simp add: scopes_of_def abs_group_def group_new_def)
  have view: "view out ?s = view out s" by (simp add: view_def)
  have abs': "abs out ?s = (abs out s)\<lparr>y_scopes :=
      (y_scopes (abs out s))(k \<mapsto> \<lparr>a_parent = Some parent, a_limit = limit, a_serial = False\<rparr>)\<rparr>"
    by (simp add: abs_def scopes view)
  have step: "sys_step (abs out s) (abs out ?s)"
    unfolding abs' using assms(2) fresh less by (intro new_scope) (auto simp: scopes_of_def)
  note ok = sys_okD [of "abs out s"]
  have known: "scopes_of s (t_scope t) \<noteq> None" if "view out s n = Some t" for n t
    using assms(1) that ok(5) [of n "abs_task t"] by (auto simp: sim_def task_ok_def)
  have sc: "scopes_ok (scopes_of s)" using assms(1) by (rule sim_scopes)
  have "slot_holders (abs out ?s) b = slot_holders (abs out s) b" for b
    using known within_extend [of "scopes_of s" k] fresh sc
    by (auto simp: slot_holders_def view scopes scopes_of_def)
  then have occ: "occupancy (abs out ?s) b = occupancy (abs out s) b" for b
    by (rule occupancy_cong)
  have "slot_holders (abs out s) k = {}"
    using within_dom [OF _ sc known] fresh by (fastforce simp: slot_holders_def scopes_of_def)
  then have "occupancy (abs out s) k = 0" by (simp add: occupancy_def)
  moreover have "g_active (group_new (Some parent) limit policy) = 0" by (simp add: group_new_def)
  ultimately have "counters_ok out ?s"
    using assms(1) unfolding counters_ok_def occ sim_def by simp
  moreover have "ids_ok out ?s"
    using assms(1,3) by (auto simp: ids_ok_def sim_def view less_Suc_eq split: if_splits)
  ultimately have "sim out ?s"
    using assms(1) sys_step_ok [OF step] by (simp add: sim_def)
  then show ?thesis using step by (auto simp: goes_def)
qed

lemma simulated_create_scope [sim_intros]:
  "simulated (create_scope_with_policy parent limit policy)" "simulated (create_scope parent limit)"
proof -
  show *: "simulated (create_scope_with_policy parent limit policy)" for policy
  proof (rule simulatedI)
    fix out s
    assume sim: "sim out s"
    then have "RBT.lookup (sc_groups s) (sc_next_scope s) = None" by (auto simp: sim_def ids_ok_def)
    then show "wp (create_scope_with_policy parent limit policy) (\<lambda>r s'. goes out s s') s"
      using goes_new_scope [OF sim, of parent "sc_next_scope s" limit policy]
      by (auto simp: create_scope_with_policy_def wp_simps checked_succ_def goes_refl [OF sim] split: option.splits)
  qed
  show "simulated (create_scope parent limit)" unfolding create_scope_def by (rule *)
qed

lemma goes_new_task:
  assumes "goes out s0 s" "RBT.lookup (sc_groups s) k \<noteq> None" "n = sc_next_task s"
    and "t_scope t = k" "t_state t = Ready" "t_outcome t = None" "\<not> t_active_slot t"
    and "m = Suc n" "T = RBT.insert n t (sc_tasks s)"
  shows "goes out s0 (s\<lparr>sc_next_task := m, sc_tasks := T\<rparr>)"
  unfolding assms(8,9)
proof (rule goes_step [OF assms(1)])
  let ?s = "s\<lparr>sc_next_task := Suc n, sc_tasks := RBT.insert n t (sc_tasks s)\<rparr>"
  have sim: "sim out s" using assms(1) by (rule goes_sim)
  have fresh: "view out s n = None" and no_permit: "RBT.lookup (holders (sc_resources s)) n = None"
    and absent: "out n = None"
    using sim assms(3) by (auto simp: sim_def ids_ok_def view_def)
  have view: "view out ?s = (view out s)(n \<mapsto> t)" by (auto simp: view_def fun_eq_iff map_add_def)
  have abs': "abs out ?s = put n (abs_task t) (abs out s)"
    by (auto simp: abs_def put_def view scopes_of_def fun_eq_iff)
  show step: "sys_step (abs out s) (abs out ?s)"
    unfolding abs' abs_task_def assms(4-6)
    using assms(2,7) fresh no_permit new_task [of "abs out s" n k] by (auto simp: scopes_of_def)
  have "occupancy (abs out ?s) b = occupancy (abs out s) b" for b
    unfolding abs' by (rule occupancy_put_same) (simp add: fresh assms(7))
  then have "counters_ok out ?s" using sim unfolding counters_ok_def sim_def by simp
  moreover have "ids_ok out ?s"
    using sim absent unfolding ids_ok_def sim_def view by (auto simp: less_Suc_eq assms(3) split: if_splits)
  ultimately show "sim out ?s" using sim sys_step_ok [OF step] by (simp add: sim_def)
qed

lemma goes_spawned:
  assumes "goes out s0 s" "RBT.lookup (sc_groups s) (t_scope t) \<noteq> None"
    and "t_state t = Ready" "t_outcome t = None" "\<not> t_active_slot t"
  shows "goes out s0 (s\<lparr>sc_world := w, sc_next_task := Suc (sc_next_task s),
    sc_tasks := RBT.insert (sc_next_task s) t (sc_tasks s)\<rparr>)"
  using assms goes_new_task [OF goes_book(6) [OF assms(1)], where k = "t_scope t" and n = "sc_next_task s" and t = t] by simp

lemma simulated_spawn [sim_intros]:
  "simulated (spawn_in_scope ho parent k machine program floor i)" "simulated (spawn ho parent machine program floor i)"
proof -
  show *: "simulated (spawn_in_scope ho parent k machine program floor i)" for k
    unfolding simulated_def spawn_in_scope_def child_in_scope_def
    by (auto simp: wp_simps checked_succ_def task_new_def intro!: wp_shost sim_intros goes_refl goes_group_passive
        goes_spawned split: option.splits)
  show "simulated (spawn ho parent machine program floor i)" unfolding spawn_def by (rule *)
qed

section \<open>Permits and admission\<close>

lemma goes_acquire:
  assumes "goes out s0 s" "RBT.lookup (sc_tasks s) n = Some t" "\<not> is_terminal (t_state t)"
    and "acquire (sc_resources s) n ks = (granted, r)"
  shows "goes out s0 (s\<lparr>sc_resources := r\<rparr>)"
proof (cases "granted \<and> RBT.lookup (holders (sc_resources s)) n = None")
  case False
  then show ?thesis using acquire_lookup(2) [OF assms(4)] by (intro goes_resources assms(1)) auto
next
  case True
  note look = acquire_lookup(1,2) [OF assms(4)]
  have sim: "sim out s" using assms(1) by (rule goes_sim)
  have abs': "abs out (s\<lparr>sc_resources := r\<rparr>) = (abs out s)\<lparr>y_permits := (y_permits (abs out s))(n \<mapsto> ks)\<rparr>"
    using look(2) True by (simp add: abs_def)
  have free: "permit_free (abs out s) ks"
    using look(1) True held_keys_iff unfolding permit_free_def by (auto, metis)
  have step: "sys_step (abs out s) (abs out (s\<lparr>sc_resources := r\<rparr>))"
    unfolding abs' using True free assms(3) view_lookup [OF assms(2), of out]
    by (intro permit [where t = "abs_task t"]) auto
  have "n < sc_next_task s" using sim view_lookup [OF assms(2), of out] by (auto simp: sim_def ids_ok_def)
  moreover have "counters_ok out (s\<lparr>sc_resources := r\<rparr>)"
    using sim unfolding counters_ok_def abs' sim_def by simp
  ultimately have "sim out (s\<lparr>sc_resources := r\<rparr>)"
    using sim sys_step_ok [OF step] look(2) True by (auto simp: sim_def ids_ok_def)
  then show ?thesis using goes_step [OF assms(1) step] by simp
qed

lemma can_admit_has_room:
  assumes "sim out s" "can_admit k s = Ok True" "RBT.lookup (sc_groups s) k \<noteq> None"
  shows "has_room (abs out s) k"
proof -
  have "\<not> (\<exists>b g. within (scopes_of s) k b \<and> RBT.lookup (sc_groups s) b = Some g \<and> g_concurrency g \<le> g_active g)"
    using assms(2) ancestor_spec [OF sim_scopes [OF assms(1)] assms(3), of "\<lambda>g. g_active g \<ge> g_concurrency g"]
    by (simp add: can_admit_def)
  then show ?thesis
    using assms(1) by (auto simp: has_room_def sim_def counters_ok_def scopes_of_def not_le)
qed

lemma has_room_permits [simp]: "has_room (y\<lparr>y_permits := p\<rparr>) k = has_room y k"
  by (simp add: has_room_def)

lemma abs_resources: "abs out (s\<lparr>sc_resources := r\<rparr>) = (abs out s)\<lparr>y_permits := RBT.lookup (holders r)\<rparr>"
  by (simp add: abs_def)

lemma goes_admit:
  assumes "goes out s0 s" "RBT.lookup (sc_tasks s) n = Some t" "t_state t = Ready" "\<not> t_active_slot t"
    and "has_room (abs out s) (t_scope t)"
  shows "\<exists>s'. change_active (t_scope t) True
      (upd_task n (\<lambda>t. t\<lparr>t_active_slot := True\<rparr>) (upd_task n (\<lambda>t. t\<lparr>t_state := Running\<rparr>) s)) = (Ok (), s') \<and>
    goes out s0 s'"
proof -
  let ?s = "upd_task n (\<lambda>t. t\<lparr>t_active_slot := True\<rparr>) (upd_task n (\<lambda>t. t\<lparr>t_state := Running\<rparr>) s)"
  let ?u = "(abs_task t)\<lparr>a_state := Running, a_slot := True\<rparr>"
  have "abs out ?s = put n ?u (abs out s)"
    using assms(2) by (simp add: abs_upd_task put_def)
  moreover have "ids_ok out ?s" using goes_sim [OF assms(1)] by (simp add: sim_def ids_upd_task)
  moreover have "sys_step (abs out s) (put n ?u (abs out s))"
    using view_lookup [OF assms(2), of out] assms(3-5) by (intro admit) auto
  ultimately show ?thesis using take_slot_spec [OF assms(1,2,4), of ?s ?u] by auto
qed

lemma simulated_dispatch_one [sim_intros]: "simulated (dispatch_one n)"
proof (rule simulatedI)
  fix out :: "'x held" and s :: "('x, 'w) scheduler"
  assume sim: "sim out s"
  show "wp (dispatch_one n) (\<lambda>r s'. goes out s s') s"
  proof (cases "RBT.lookup (sc_tasks s) n")
    case None
    then show ?thesis by (simp add: dispatch_one_def wp_simps task_at_def goes_refl sim)
  next
    case (Some t)
    show ?thesis
    proof (cases "t_state t = Ready \<and> (t_active_slot t \<or> can_admit (t_scope t) s = Ok True)")
      case False
      with Some show ?thesis
        by (auto simp: dispatch_one_def wp_simps task_at_def intro!: goes_refl sim sim_intros split: sum.splits if_splits)
    next
      case True
      obtain granted r where acq: "acquire (sc_resources s) n (t_resource_keys t) = (granted, r)" by fastforce
      let ?s = "s\<lparr>sc_resources := r\<rparr>"
      have look: "RBT.lookup (sc_tasks ?s) n = Some t" using Some by simp
      have got: "goes out s ?s"
        using goes_acquire [OF goes_refl [OF sim] Some _ acq] True by simp
      have room: "has_room (abs out ?s) (t_scope t)" if "\<not> t_active_slot t"
        using can_admit_has_room [OF sim] sim_task_scope [OF sim Some] True that by (simp add: abs_resources)
      show ?thesis
        using Some True acq goes_resume [OF got look] goes_move [OF got look, of "Waiting (WaitResource n)"]
          goes_admit [OF got look _ _ room]
        by (auto simp: dispatch_one_def wp_simps task_at_def edge_def intro!: goes_resources) (auto simp: wp_def sret_def)
    qed
  qed
qed

lemma simulated_dispatch_loop [sim_intros]: "simulated (dispatch_loop k)"
proof (induction k)
  case (Suc k)
  then show ?case
    by (auto simp: simulated_supd split: list.split option.split intro!: sim_intros simulated_supd)
qed (simp add: sim_intros)

lemma simulated_dispatch_ready [sim_intros]: "simulated dispatch_ready"
proof (rule simulatedI)
  fix out :: "'x held" and s :: "('x, 'w) scheduler"
  assume sim: "sim out s"
  show "wp dispatch_ready (\<lambda>r s'. goes out s s') s"
    using simulatedD [OF simulated_dispatch_loop goes_refl [OF sim], of "length (sc_ready s)"] goes_refl [OF sim]
    by (auto simp: wp_def dispatch_ready_def)
qed

section \<open>Waiting and waking\<close>

lemma release_simulated:
  assumes "goes out s0 s" "RBT.lookup (sc_tasks s) n = Some t" "edge (t_state t) st" "\<not> busy st"
    and "\<And>s'. goes out s0 s' \<Longrightarrow> Q (Ok ()) s'"
  shows "wp (release_slot n t) Q (upd_task n (\<lambda>t. t\<lparr>t_state := st\<rparr>) s)"
proof (rule wp_mono [OF release_slot_spec])
  show "goes out s0 (upd_task n (\<lambda>t. t\<lparr>t_state := st\<rparr>) s)" using assms(1-3) by (rule goes_move)
  show "RBT.lookup (sc_tasks (upd_task n (\<lambda>t. t\<lparr>t_state := st\<rparr>) s)) n = Some (t\<lparr>t_state := st\<rparr>)"
    using assms(2) by simp
qed (use assms(4,5) in auto)

lemma simulated_requeue [sim_intros]: "simulated (requeue h)"
  unfolding simulated_def requeue_def
  by (auto simp: wp_simps goes_refl edge_def busy_def split: option.splits sum.splits
    intro!: release_simulated goes_move sim_intros)

lemma simulated_wait_for_host [sim_intros]: "simulated (wait_for_host h i)"
  unfolding simulated_def wait_for_host_def
  by (auto simp: wp_simps goes_refl edge_def busy_def split: option.splits sum.splits
    intro!: release_simulated goes_move sim_intros)

lemma simulated_wait_for_cpu [sim_intros]: "simulated (wait_for_cpu h i)"
  unfolding simulated_def wait_for_cpu_def
  by (auto simp: wp_simps goes_refl edge_def split: option.splits intro!: goes_move)

lemma simulated_wake_from_host [sim_intros]: "simulated (wake_from_host h i)"
  unfolding simulated_def wake_from_host_def
  by (auto simp: wp_simps goes_refl edge_def split: option.splits intro!: goes_move sim_intros)

lemma simulated_await_scope [sim_intros]: "simulated (await_scope h k)"
  unfolding simulated_def await_scope_def
  by (auto simp: wp_simps goes_refl edge_def busy_def split: option.splits sum.splits
    intro!: release_simulated goes_group_passive)

lemma simulated_await_task [sim_intros]: "simulated (await_task w h)"
proof (rule simulatedI)
  fix out :: "'x held" and s :: "('x, 'w) scheduler"
  assume sim: "sim out s"
  let ?s = "upd_task (h_task h) (\<lambda>x :: 'x scheduled_task. x\<lparr>t_waiters := t_waiters x @ [h_task w]\<rparr>) s"
  have got: "goes out s ?s" using goes_refl [OF sim] by (intro goes_passive) auto
  show "wp (await_task w h) (\<lambda>r s'. goes out s s') s"
  proof (cases "RBT.lookup (sc_tasks s) (h_task w)")
    case None
    then show ?thesis by (simp add: await_task_def wp_simps resolve_id_def goes_refl sim)
  next
    case (Some t)
    then obtain u where u: "RBT.lookup (sc_tasks ?s) (h_task w) = Some u" "t_state u = t_state t"
      "t_scope u = t_scope t" "t_active_slot u = t_active_slot t"
      by (cases "h_task w = h_task h") auto
    have same: "release_slot (h_task w) t = release_slot (h_task w) u" by (simp add: release_slot_def u)
    have release: "wp (release_slot (h_task w) t) (\<lambda>r s'. r = Ok () \<and> goes out s s')
        (upd_task (h_task w) (\<lambda>t. t\<lparr>t_state := Waiting (WaitTask (h_task h))\<rparr>) ?s)" if "t_state t = Running"
      unfolding same by (rule release_simulated [OF got u(1)]) (simp_all add: edge_def busy_def u(2) that)
    from Some show ?thesis
      by (auto simp: await_task_def wp_simps resolve_id_def task_at_def goes_refl [OF sim]
        split: option.splits sum.splits intro!: wp_mono [OF release])
  qed
qed

lemma wake_simulated:
  assumes "goes out s0 s" "RBT.lookup (sc_tasks s) n = Some t" "edge (t_state t) Ready"
    and "\<And>s'. goes out s0 s' \<Longrightarrow> Q (Ok ()) s'"
  shows "wp (wake_task n k) Q s"
  using assms(1-3) by (auto simp: wake_task_def wp_simps intro!: assms(4) sim_intros goes_move)

lemma simulated_wake_task_waiters [sim_intros]:
  "simulated (wake_task_waiters ns h (r :: 'x task_outcome) :: ('x, 'w, unit) sched)"
proof (induction ns)
  case (Cons n ns)
  show ?case
  proof (rule simulatedI)
    fix out :: "'x held" and s :: "('x, 'w) scheduler"
    assume sim: "sim out s"
    note rest = simulatedD [OF Cons.IH]
    show "wp (wake_task_waiters (n # ns) h r) (\<lambda>r s'. goes out s s') s"
      by (auto simp: wp_simps task_at_def edge_def goes_refl [OF sim] split: option.splits sum.splits
        intro!: rest wake_simulated)
  qed
qed (simp add: sim_intros)

lemma simulated_wake_scope_waiters [sim_intros]:
  "simulated (wake_scope_waiters ns k (r :: 'x task_outcome) :: ('x, 'w, unit) sched)"
proof (induction ns)
  case (Cons n ns)
  show ?case
  proof (rule simulatedI)
    fix out :: "'x held" and s :: "('x, 'w) scheduler"
    assume sim: "sim out s"
    note rest = simulatedD [OF Cons.IH]
    show "wp (wake_scope_waiters (n # ns) k r) (\<lambda>r s'. goes out s s') s"
      by (auto simp: wp_simps task_at_def edge_def goes_refl [OF sim] split: option.splits sum.splits
        intro!: rest wake_simulated)
  qed
qed (simp add: sim_intros)

lemma simulated_wake_scope_if_settled [sim_intros]: "simulated (wake_scope_if_settled k)"
  unfolding wake_scope_if_settled_def
  by (auto split: option.split intro!: sim_intros)

lemma simulated_wake_resource_waiters [sim_intros]: "simulated (wake_resource_waiters k :: ('x, 'w, unit) sched)"
proof (induction k)
  case (Suc k)
  show ?case
  proof (rule simulatedI)
    fix out :: "'x held" and s :: "('x, 'w) scheduler"
    assume sim: "sim out s"
    note rest = simulatedD [OF Suc.IH]
    show "wp (wake_resource_waiters (Suc k)) (\<lambda>r s'. goes out s s') s"
    proof (cases "rg_waiting (sc_resources s)")
      case Nil
      then show ?thesis by (simp add: wp_simps goes_refl sim)
    next
      case (Cons n ns)
      let ?s = "s\<lparr>sc_resources := (sc_resources s)\<lparr>rg_waiting := ns\<rparr>\<rparr>"
      have got: "goes out s ?s" using goes_refl [OF sim] by (intro goes_resources) simp_all
      have granted: "goes out s (s\<lparr>sc_resources := r'\<rparr>)"
        if "RBT.lookup (sc_tasks s) n = Some t" "t_state t = Waiting (WaitResource m)"
          "acquire ((sc_resources s)\<lparr>rg_waiting := ns\<rparr>) n (t_resource_keys t) = (b, r)" "holders r' = holders r"
        for t m b r r'
      proof -
        have "goes out s (s\<lparr>sc_resources := r\<rparr>)"
          using goes_acquire [OF got, of n t "t_resource_keys t" b r] that(1-3) by simp
        from goes_resources [OF this, of r'] that(4) show ?thesis by simp
      qed
      show ?thesis
        using Cons
        by (auto simp: wp_simps task_at_def edge_def goes_refl sim split: option.splits sum.splits task_state.splits
          task_wait.splits prod.splits intro!: rest got goes_move goes_book granted)
    qed
  qed
qed (simp add: sim_intros)

section \<open>Finishing a task\<close>

text \<open>A method that finishes tasks is simulated unless the host reports an error.\<close>

definition hostless :: "'x sched_error + 'a \<Rightarrow> bool" where
  "hostless r \<longleftrightarrow> (\<forall>e. r \<noteq> Err (HostError e))"

lemma hostless_simps [simp]:
  "hostless (Ok x)" "\<not> hostless (Err (HostError e))" "hostless (Err WrongOwner)" "hostless (Err UnknownTask)"
  "hostless (Err InvalidTransition)" "hostless (Err (SchedPanic message))"
  by (simp_all add: hostless_def)

lemma hostless_Err: "hostless (Err e :: 'x sched_error + 'a) = hostless (Err e :: 'x sched_error + 'b)"
  by (simp add: hostless_def)

definition simulated_ok :: "('x, 'w, 'a) sched \<Rightarrow> bool" where
  "simulated_ok m \<longleftrightarrow> (\<forall>out s. sim out s \<longrightarrow> wp m (\<lambda>r s'. hostless r \<longrightarrow> goes out s s') s)"

lemma simulated_okD:
  assumes "simulated_ok m" "goes out s0 s"
  shows "wp m (\<lambda>r s'. hostless r \<longrightarrow> goes out s0 s') s"
proof -
  have "wp m (\<lambda>r s'. hostless r \<longrightarrow> goes out s s') s"
    using assms(1) goes_sim [OF assms(2)] by (simp add: simulated_ok_def)
  then show ?thesis by (rule wp_mono) (blast intro: goes_trans [OF assms(2)])
qed

lemma simulated_ok: "simulated m \<Longrightarrow> simulated_ok m"
  unfolding simulated_def simulated_ok_def by (blast intro: wp_mono)

lemma simulated_ok_sbind:
  fixes m :: "('x, 'w, 'a) sched" and f :: "'a \<Rightarrow> ('x, 'w, 'b) sched"
  assumes "simulated_ok m" "\<And>x. simulated_ok (f x)"
  shows "simulated_ok (sbind m f)"
  unfolding simulated_ok_def
proof (intro allI impI, unfold wp_sbind)
  fix out :: "'x held" and s :: "('x, 'w) scheduler"
  assume "sim out s"
  with assms(1) have "wp m (\<lambda>r s'. hostless r \<longrightarrow> goes out s s') s" by (simp add: simulated_ok_def)
  then show "wp m (\<lambda>r s'. case r of Inl e \<Rightarrow> hostless (Err e :: 'x sched_error + 'b) \<longrightarrow> goes out s s'
      | Inr x \<Rightarrow> wp (f x) (\<lambda>r s'. hostless r \<longrightarrow> goes out s s') s') s"
  proof (rule wp_mono)
    fix r :: "'x sched_error + 'a" and s'
    assume "hostless r \<longrightarrow> goes out s s'"
    then show "case r of Inl e \<Rightarrow> hostless (Err e :: 'x sched_error + 'b) \<longrightarrow> goes out s s'
        | Inr x \<Rightarrow> wp (f x) (\<lambda>r s'. hostless r \<longrightarrow> goes out s s') s'"
      using simulated_okD [OF assms(2), of out s s'] by (cases r) (simp_all add: hostless_def)
  qed
qed

lemma simulated_ok_with_task:
  assumes "\<And>t. simulated_ok (f t)"
  shows "simulated_ok (with_task h f)"
  using assms by (auto simp: simulated_ok_def wp_simps goes_refl split: option.splits)

lemma simulated_ok_if: "simulated_ok m \<Longrightarrow> simulated_ok m' \<Longrightarrow> simulated_ok (if b then m else m')"
  by simp

lemmas ok_intros = simulated_ok_sbind simulated_ok_with_task simulated_ok_if simulated_ok [OF simulated_sret]
  simulated_ok [OF simulated_sread(1)] simulated_ok [OF simulated_sread(2)] simulated_ok [OF simulated_sread(3)]
  simulated_ok [OF simulated_sread(4)] simulated_ok [OF simulated_shost]

definition finished :: "nat \<Rightarrow> 'x scheduled_task \<Rightarrow> 'x task_outcome \<Rightarrow> 'x held \<Rightarrow> ('x, 'w) scheduler
    \<Rightarrow> ('x, 'w) scheduler \<Rightarrow> bool"
where
  "finished n t r out s s1 \<longleftrightarrow>
     abs out s1 = put n ((abs_task t)\<lparr>a_state := outcome_state r, a_outcome := Some r, a_slot := False\<rparr>) (abs out s) \<and>
     sc_resources s1 = sc_resources s"

lemma goes_finish:
  assumes "goes out s0 s" "RBT.lookup (sc_tasks s) n = Some t" "\<not> is_terminal (t_state t)"
    and "finished n t r out s s1" "counters_ok out s1" "ids_ok out s1"
  shows "goes out s0 (s1\<lparr>sc_resources := release (sc_resources s1) n\<rparr>)" (is "goes out s0 ?s")
proof (rule goes_step [OF assms(1)])
  have abs': "abs out ?s = (put n ((abs_task t)\<lparr>a_state := outcome_state r, a_outcome := Some r, a_slot := False\<rparr>) (abs out s))
      \<lparr>y_permits := (y_permits (abs out s))(n := None)\<rparr>"
    using assms(4) by (simp add: finished_def abs_resources)
  show step: "sys_step (abs out s) (abs out ?s)"
    unfolding abs' using view_lookup [OF assms(2), of out] assms(3) by (intro finish) auto
  have "counters_ok out ?s" using assms(5) unfolding counters_ok_def abs_resources by simp
  moreover have "ids_ok out ?s" using assms(6) by (auto simp: ids_ok_def split: if_splits)
  ultimately show "sim out ?s"
    using sys_step_ok [OF step] goes_sim [OF assms(1)] by (simp add: sim_def)
qed

lemma finish_slot:
  assumes "goes out s0 s" "RBT.lookup (sc_tasks s) n = Some t" "\<not> is_terminal (t_state t)"
    and "finished n t r out s s1" "sc_groups s1 = sc_groups s" "ids_ok out s1"
  shows "wp (if t_active_slot t then change_active (t_scope t) False else sret ())
    (\<lambda>x s'. x = Ok () \<and> goes out s0 (s'\<lparr>sc_resources := release (sc_resources s') n\<rparr>)) s1"
proof (cases "t_active_slot t")
  case True
  obtain s' where s': "change_active (t_scope t) False s1 = (Ok (), s')" "counted s1 (t_scope t) False s'"
    "counters_ok out s'" "ids_ok out s'"
    using drop_slot_spec [OF goes_sim [OF assms(1)] assms(2) True
      assms(4) [unfolded finished_def, THEN conjunct1] assms(5,6)] by auto
  have "finished n t r out s s'" using assms(4) countedD(2,5) [OF s'(2)] by (simp add: finished_def)
  then show ?thesis using goes_finish [OF assms(1-3) _ s'(3,4)] s'(1) True by (simp add: wp_def)
next
  case False
  have "occupancy (abs out s1) b = occupancy (abs out s) b" for b
    unfolding assms(4) [unfolded finished_def, THEN conjunct1]
    by (rule occupancy_put_same) (simp add: False view_lookup [OF assms(2), of out])
  then have "counters_ok out s1"
    using goes_sim [OF assms(1)] assms(5) unfolding sim_def counters_ok_def by simp
  then show ?thesis using goes_finish [OF assms(1-4) _ assms(6)] False by (simp add: wp_simps)
qed

lemma finished_updates:
  assumes "RBT.lookup (sc_tasks s) n = Some t"
  shows "finished n t r out s (upd_task n (\<lambda>t. t\<lparr>t_state := outcome_state r, t_outcome := Some r, t_waiters := []\<rparr>)
    ((upd_task n (\<lambda>t. t\<lparr>t_active_slot := False\<rparr>) s)\<lparr>sc_world := w\<rparr>))"
proof -
  let ?s = "upd_task n (\<lambda>t. t\<lparr>t_active_slot := False\<rparr>) s"
  have look: "RBT.lookup (sc_tasks (?s\<lparr>sc_world := w\<rparr>)) n = Some (t\<lparr>t_active_slot := False\<rparr>)"
    using assms by simp
  have "abs out (?s\<lparr>sc_world := w\<rparr>) = abs out ?s" by (simp add: abs_def)
  also have "\<dots> = put n (abs_task (t\<lparr>t_active_slot := False\<rparr>)) (abs out s)" by (rule abs_upd_task [OF assms])
  finally show ?thesis
    unfolding finished_def abs_upd_task [OF look] by (simp add: put_put abs_task_def)
qed

lemma ids_world: "ids_ok out (s\<lparr>sc_world := w\<rparr>) = ids_ok out s"
  by (simp add: ids_ok_def)

lemma simulated_ok_terminal: "simulated_ok (terminal ho h r :: ('x, 'w, unit) sched)"
  unfolding simulated_ok_def
proof (intro allI impI)
  fix out :: "'x held" and s :: "('x, 'w) scheduler"
  assume sim: "sim out s"
  let ?s = "s\<lparr>sc_continuations := dispose_origin (sc_continuations s) (Scheduled (h_task h))\<rparr>"
  have got: "goes out s ?s" using goes_refl [OF sim] by (rule goes_book)
  let ?post = "\<lambda>r s'. hostless r \<longrightarrow> goes out s s'"
  let ?tail = "\<lambda>t :: 'x scheduled_task. sbind (sget (\<lambda>s. length (rg_waiting (sc_resources s)))) (\<lambda>queued.
    sbind (wake_resource_waiters queued) (\<lambda>_. sbind (wake_task_waiters (t_waiters t) h r) (\<lambda>_.
    wake_scope_if_settled (t_scope t))))"
  have tail: "wp (?tail t) ?post s'" if "goes out s s'" for t s'
    by (rule simulated_okD [OF simulated_ok that]) (intro sim_intros)
  have slot: "wp (sbind (if t_active_slot t then change_active (t_scope t) False else sret ())
      (\<lambda>_. sbind (supd (\<lambda>s. s\<lparr>sc_resources := release (sc_resources s) (h_task h)\<rparr>)) (\<lambda>_. ?tail t))) ?post
      (upd_task (h_task h) (\<lambda>t. t\<lparr>t_state := outcome_state r, t_outcome := Some r, t_waiters := []\<rparr>)
        ((upd_task (h_task h) (\<lambda>t. t\<lparr>t_active_slot := False\<rparr>) ?s)\<lparr>sc_world := w\<rparr>))"
    if t: "RBT.lookup (sc_tasks s) (h_task h) = Some t" "\<not> is_terminal (t_state t)" for t w
  proof -
    have look: "RBT.lookup (sc_tasks ?s) (h_task h) = Some t" using t by simp
    have "ids_ok out ?s" using goes_sim [OF got] unfolding sim_def by blast
    then have "ids_ok out ((upd_task (h_task h) (\<lambda>t. t\<lparr>t_active_slot := False\<rparr>) ?s)\<lparr>sc_world := w\<rparr>)"
      unfolding ids_world by (rule ids_upd_task)
    then have ids: "ids_ok out (upd_task (h_task h) (\<lambda>t. t\<lparr>t_state := outcome_state r, t_outcome := Some r,
        t_waiters := []\<rparr>) ((upd_task (h_task h) (\<lambda>t. t\<lparr>t_active_slot := False\<rparr>) ?s)\<lparr>sc_world := w\<rparr>))"
      by (rule ids_upd_task)
    show ?thesis
    proof (subst wp_sbind, rule wp_mono [OF finish_slot [OF got look t(2) finished_updates [OF look] _ ids]])
      fix x :: "'x sched_error + unit" and s'
      assume post: "x = Ok () \<and> goes out s (s'\<lparr>sc_resources := release (sc_resources s') (h_task h)\<rparr>)"
      then have "wp (?tail t) ?post (s'\<lparr>sc_resources := release (sc_resources s') (h_task h)\<rparr>)" using tail by blast
      with post show "case x of Inl e \<Rightarrow> ?post (Err e) s' | Inr y \<Rightarrow>
          wp (sbind (supd (\<lambda>s. s\<lparr>sc_resources := release (sc_resources s) (h_task h)\<rparr>)) (\<lambda>_. ?tail t)) ?post s'"
        by (simp add: wp_sbind wp_prims)
    qed simp
  qed
  show "wp (terminal ho h r) ?post s"
  proof (cases "\<exists>t. RBT.lookup (sc_tasks s) (h_task h) = Some t \<and> h_owner h = t_scope t \<and> \<not> is_terminal (t_state t)")
    case False
    then consider "RBT.lookup (sc_tasks s) (h_task h) = None"
      | t where "RBT.lookup (sc_tasks s) (h_task h) = Some t" "h_owner h \<noteq> t_scope t"
      | t where "RBT.lookup (sc_tasks s) (h_task h) = Some t" "h_owner h = t_scope t" "is_terminal (t_state t)"
      by blast
    then show ?thesis
      by cases (simp_all add: terminal_def wp_sbind wp_prims resolve_id_def task_at_def got goes_refl [OF sim])
  next
    case True
    then obtain t where t: "RBT.lookup (sc_tasks s) (h_task h) = Some t" "h_owner h = t_scope t"
      "\<not> is_terminal (t_state t)" by blast
    show ?thesis
      unfolding terminal_def
    proof (rule wp_read_bind [of _ _ "h_task h"], goal_cases)
      case 2
      show ?case
      proof (rule wp_upd_bind, rule wp_read_bind [of _ _ t], goal_cases)
        case 2
        show ?case
          unfolding if_not_P [OF t(3)]
        proof (rule wp_upd_bind, rule wp_host_bind, goal_cases)
          case (2 x w)
          show ?case by (rule wp_upd_bind) (rule slot [OF t(1,3)])
        qed simp
      qed (simp add: task_at_def t)
    qed (simp add: resolve_id_def t)
  qed
qed

lemma simulated_record_primary_failure [sim_intros]: "simulated (record_primary_failure k n)"
  unfolding record_primary_failure_def
  by (auto split: option.split intro!: sim_intros)

lemma simulated_ok_outcomes:
  "simulated_ok (complete ho h v)" "simulated_ok (raise ho h args x)" "simulated_ok (fail ho h x)"
  "simulated_ok (cancelled ho h x)"
  unfolding complete_def raise_def fail_def cancelled_def
  by (intro ok_intros simulated_ok_terminal simulated_ok [OF simulated_record_primary_failure]
    simulated_ok [OF simulated_group_passive]; simp)+

lemma simulated_read_cause [sim_intros]: "simulated (read_cause ho x)"
  unfolding read_cause_def by (intro sim_intros)

lemma simulated_ok_cancel: "simulated_ok (cancel ho h x)"
proof -
  have events: "simulated (supd (\<lambda>s. s\<lparr>sc_cancellation_events := sc_cancellation_events s @ [(h, x)]\<rparr>))"
    by (rule simulated_supd) (rule goes_book)
  have finish: "simulated_ok (sbind (read_cause ho y) (\<lambda>cause. case cause of
      None \<Rightarrow> sfail (SchedPanic ''cancelled task must publish its cause'') | Some c \<Rightarrow> terminal ho h (Cancelled c)))" for y
    by (intro simulated_ok_sbind simulated_ok [OF simulated_read_cause])
      (auto split: option.split intro: simulated_ok_terminal ok_intros)
  show ?thesis
    unfolding cancel_def Let_def
    by (intro ok_intros simulated_ok [OF simulated_read_cause] simulated_ok [OF events])
      (auto split: task_state.split task_wait.split intro: finish ok_intros)
qed

lemma simulated_ok_cancel_all: "simulated_ok (cancel_all ho hs x)"
  by (induction hs) (auto intro!: ok_intros simulated_ok_cancel)

lemma simulated_ok_cancel_many:
  "simulated_ok (cancel_unsettled ho x)" "simulated_ok (cancel_scope_unsettled ho k x)"
  unfolding cancel_unsettled_def cancel_scope_unsettled_def
  by (intro ok_intros simulated_ok_cancel_all)+

lemma simulated_ok_apply_group_policy: "simulated_ok (apply_group_policy ho x y h)"
  unfolding apply_group_policy_def
  by (intro ok_intros) (auto split: option.split intro: ok_intros simulated_ok_cancel_many)

section \<open>Serial invocation\<close>

lemma goes_serialize:
  assumes "sim out s" "RBT.lookup (sc_groups s) k = Some g"
  shows "goes out s (upd_group k (\<lambda>g. g\<lparr>g_concurrency := 1, g_serialize_host_actions := True,
    g_serial_task_admission := True\<rparr>) s)" (is "goes out s (upd_group k ?f s)")
proof -
  let ?s = "upd_group k ?f s"
  have scopes: "scopes_of ?s = (scopes_of s)(k \<mapsto> (abs_group g)\<lparr>a_limit := 1, a_serial := True\<rparr>)"
    by (rule ext) (simp add: scopes_of_def assms(2) abs_group_def)
  have abs': "abs out ?s = (abs out s)\<lparr>y_scopes :=
      (y_scopes (abs out s))(k \<mapsto> (abs_group g)\<lparr>a_limit := 1, a_serial := True\<rparr>)\<rparr>"
    unfolding abs_def scopes by simp
  have step: "sys_step (abs out s) (abs out ?s)"
    unfolding abs' by (rule serialize) (simp add: scopes_of_def assms(2))
  have "within (scopes_of ?s) a b = within (scopes_of s) a b" for a b
    by (rule within_cong) (simp add: scopes_of_def assms(2))
  then have "slot_holders (abs out ?s) b = slot_holders (abs out s) b" for b
    by (simp add: slot_holders_def)
  then have "occupancy (abs out ?s) b = occupancy (abs out s) b" for b by (rule occupancy_cong)
  then have "counters_ok out ?s"
    using assms unfolding counters_ok_def sim_def by (auto split: if_splits)
  moreover have "ids_ok out ?s" using assms by (auto simp: sim_def ids_ok_def split: if_splits)
  ultimately have "sim out ?s" using assms(1) sys_step_ok [OF step] by (simp add: sim_def)
  with step show ?thesis by (auto simp: goes_def)
qed

lemma goes_retain:
  assumes "goes out s0 s" "RBT.lookup (sc_tasks s) n = Some t" "\<not> is_terminal (t_state t)" "\<not> t_active_slot t"
    and "RBT.lookup (sc_groups s) k = Some g" "g_serial_task_admission g"
  shows "\<exists>s'. change_active (t_scope t) True (upd_task n (\<lambda>t. t\<lparr>t_active_slot := True\<rparr>) s) = (Ok (), s') \<and>
    counted (upd_task n (\<lambda>t. t\<lparr>t_active_slot := True\<rparr>) s) (t_scope t) True s' \<and> goes out s0 s'"
proof -
  let ?s = "upd_task n (\<lambda>t. t\<lparr>t_active_slot := True\<rparr>) s"
  have "abs out ?s = put n ((abs_task t)\<lparr>a_slot := True\<rparr>) (abs out s)"
    using assms(2) by (simp add: abs_upd_task)
  moreover have "ids_ok out ?s" using goes_sim [OF assms(1)] by (simp add: sim_def ids_upd_task)
  moreover have "sys_step (abs out s) (put n ((abs_task t)\<lparr>a_slot := True\<rparr>) (abs out s))"
    using view_lookup [OF assms(2), of out] assms(3-6)
    by (intro retain [where k = k and g = "abs_group g"]) (auto simp: scopes_of_def)
  ultimately show ?thesis
    using take_slot_spec [OF assms(1,2,4), of ?s "(abs_task t)\<lparr>a_slot := True\<rparr>"] by auto
qed

lemma take_slots_simulated:
  assumes "goes out s0 s" "distinct ns"
    and "\<And>n. n \<in> set ns \<Longrightarrow> \<exists>t. RBT.lookup (sc_tasks s) n = Some t \<and> \<not> is_terminal (t_state t) \<and> \<not> t_active_slot t"
    and "RBT.lookup (sc_groups s) k = Some g" "g_serial_task_admission g"
  shows "wp (take_slots ns) (\<lambda>r s'. r = Ok () \<and> goes out s0 s') s"
  using assms
proof (induction ns arbitrary: s g)
  case (Cons n ns)
  obtain t where t: "RBT.lookup (sc_tasks s) n = Some t" "\<not> is_terminal (t_state t)" "\<not> t_active_slot t"
    using Cons.prems(3) [of n] by auto
  let ?s = "upd_task n (\<lambda>t. t\<lparr>t_active_slot := True\<rparr>) s"
  obtain s' where s': "change_active (t_scope t) True ?s = (Ok (), s')" "counted ?s (t_scope t) True s'" "goes out s0 s'"
    using goes_retain [OF Cons.prems(1) t Cons.prems(4,5)] by auto
  obtain g' where g': "RBT.lookup (sc_groups s') k = Some g'" "g_serial_task_admission g'"
    using countedD(11) [OF s'(2), of k] Cons.prems(4,5) by (cases "within (scopes_of ?s) (t_scope t) k") (auto simp: bump_def)
  have live: "\<exists>t. RBT.lookup (sc_tasks s') m = Some t \<and> \<not> is_terminal (t_state t) \<and> \<not> t_active_slot t"
    if "m \<in> set ns" for m
    using Cons.prems(2,3) that countedD(1) [OF s'(2)] by auto
  have "wp (take_slots ns) (\<lambda>r s'. r = Ok () \<and> goes out s0 s') s'"
    using Cons.IH [OF s'(3) _ live g'] Cons.prems(2) by simp
  then show ?case
    using t(1) s'(1) by (simp add: wp_sbind wp_prims task_at_def) (simp add: wp_def)
qed (simp add: wp_prims)

lemma simulated_serialize_invocation [sim_intros]: "simulated (serialize_invocation :: ('x, 'w, nat) sched)"
proof (rule simulatedI)
  fix out :: "'x held" and s :: "('x, 'w) scheduler"
  assume sim: "sim out s"
  show "wp serialize_invocation (\<lambda>r s'. goes out s s') s"
  proof (cases "find (\<lambda>(_, g). g_parent g = None) (RBT.entries (sc_groups s))")
    case None
    then show ?thesis by (simp add: serialize_invocation_def wp_sbind wp_prims goes_refl sim)
  next
    case (Some e)
    obtain k g where e: "e = (k, g)" by fastforce
    have g: "RBT.lookup (sc_groups s) k = Some g"
      using Some by (auto simp: e find_Some_iff lookup_in_tree set_conv_nth)
    let ?f = "\<lambda>g. g\<lparr>g_concurrency := 1, g_serialize_host_actions := True, g_serial_task_admission := True\<rparr>"
    let ?s = "upd_group k ?f s"
    have live: "\<exists>t. RBT.lookup (sc_tasks ?s) n = Some t \<and> \<not> is_terminal (t_state t) \<and> \<not> t_active_slot t"
      if kept: "n \<in> set (retained ?s)" for n
    proof -
      obtain t where "(n, t) \<in> set (RBT.entries (sc_tasks s))" "\<not> t_active_slot t"
        "case t_state t of Ready \<Rightarrow> True | Waiting (WaitHost _) \<Rightarrow> True | _ \<Rightarrow> False"
        using kept unfolding retained_def set_map set_filter by fastforce
      then show ?thesis by (cases "t_state t") (auto simp: lookup_in_tree)
    qed
    have "distinct (retained ?s)"
      unfolding retained_def by (intro distinct_map_filter distinct_entries)
    then have "wp (take_slots (retained ?s)) (\<lambda>r s'. r = Ok () \<and> goes out s s') ?s"
      using take_slots_simulated [OF goes_serialize [OF sim g] _ live, where k = k and g = "?f g"] g by simp
    then show ?thesis
      using Some e
      by (auto simp: serialize_invocation_def wp_sbind wp_prims elim!: wp_mono)
  qed
qed

end
