(* ===== verification/Scheduler_Runs.thy ===== *)
theory Scheduler_Runs
  imports Scheduler_Simulation
begin

text \<open>
  Runs of the scheduler under a driver: any sequence of its methods, with tasks taken out while
  the driver runs them. The properties of the abstract task system carry over to every state a
  run reaches.
\<close>

section \<open>Calls\<close>

datatype (plugins only: code) (dead 'x) sched_call =
    CreateScope nat nat task_group_policy
  | Spawn "'x task_local" nat 'x "'x option" nat nat
  | SetOwner nat task_handle
  | AttachCapsule task_handle 'x
  | AttachStart task_handle 'x
  | AttachResources task_handle "runtime_resource_key list"
  | GuardScope nat
  | SerializeScope nat
  | SerializeInvocation
  | Allocate nat task_identity 'x nat "'x option" "nat option"
  | Consume continuation_token task_identity continuation_transfer
  | Dispose continuation_token task_identity
  | TakeResourceEvents
  | TakeCancellationEvents
  | TakeWakeup task_handle
  | Dispatch
  | BeginBarrier
  | EndBarrier
  | RequeueTask task_handle
  | AwaitTask task_handle task_handle
  | AwaitScope task_handle nat
  | WaitForHost task_handle nat
  | WaitForCpu task_handle nat
  | WakeFromHost task_handle nat
  | Complete task_handle "'x interp_value"
  | Raise task_handle "'x interp_value list" 'x
  | Fail task_handle 'x
  | Cancel task_handle 'x
  | CancelledBy task_handle 'x
  | CancelUnsettled 'x
  | CancelScope nat 'x
  | ApplyPolicy 'x 'x task_handle

definition void :: "('x, 'w, 'a) sched \<Rightarrow> ('x, 'w, unit) sched" where
  "void m = sbind m (\<lambda>_. sret ())"

primrec run_call :: "('x, 'w) host_ops \<Rightarrow> 'x sched_call \<Rightarrow> ('x, 'w, unit) sched" where
  "run_call ho (CreateScope p l pol) = void (create_scope_with_policy p l pol)"
| "run_call ho (Spawn parent k machine program floor i) = void (spawn_in_scope ho parent k machine program floor i)"
| "run_call ho (SetOwner k h) = set_scope_owner k h"
| "run_call ho (AttachCapsule h c) = attach_cpu_capsule ho h c"
| "run_call ho (AttachStart h x) = attach_start h x"
| "run_call ho (AttachResources h ks) = attach_resources h ks"
| "run_call ho (GuardScope k) = guard_scope k"
| "run_call ho (SerializeScope k) = serialize_scope k"
| "run_call ho SerializeInvocation = void serialize_invocation"
| "run_call ho (Allocate k origin c out program bnd) = void (allocate_continuation k origin c out program bnd)"
| "run_call ho (Consume token origin tr) = void (consume_continuation token origin tr)"
| "run_call ho (Dispose token origin) = dispose_continuation token origin"
| "run_call ho TakeResourceEvents = void take_resource_events"
| "run_call ho TakeCancellationEvents = void take_cancellation_events"
| "run_call ho (TakeWakeup h) = void (take_wakeup h)"
| "run_call ho Dispatch = void dispatch_ready"
| "run_call ho BeginBarrier = begin_checkpoint_barrier"
| "run_call ho EndBarrier = end_checkpoint_barrier"
| "run_call ho (RequeueTask h) = requeue h"
| "run_call ho (AwaitTask w h) = void (await_task w h)"
| "run_call ho (AwaitScope w k) = void (await_scope w k)"
| "run_call ho (WaitForHost h i) = wait_for_host h i"
| "run_call ho (WaitForCpu h i) = wait_for_cpu h i"
| "run_call ho (WakeFromHost h i) = wake_from_host h i"
| "run_call ho (Complete h v) = complete ho h v"
| "run_call ho (Raise h args x) = raise ho h args x"
| "run_call ho (Fail h x) = fail ho h x"
| "run_call ho (Cancel h x) = cancel ho h x"
| "run_call ho (CancelledBy h x) = cancelled ho h x"
| "run_call ho (CancelUnsettled x) = cancel_unsettled ho x"
| "run_call ho (CancelScope k x) = cancel_scope_unsettled ho k x"
| "run_call ho (ApplyPolicy x y h) = apply_group_policy ho x y h"

text \<open>The calls that finish tasks; a host error leaves them half-way.\<close>

definition finishing :: "'x sched_call \<Rightarrow> bool" where
  "finishing c =
     (case c of
        Complete _ _ \<Rightarrow> True | Raise _ _ _ \<Rightarrow> True | Fail _ _ \<Rightarrow> True | Cancel _ _ \<Rightarrow> True
      | CancelledBy _ _ \<Rightarrow> True | CancelUnsettled _ \<Rightarrow> True | CancelScope _ _ \<Rightarrow> True
      | ApplyPolicy _ _ _ \<Rightarrow> True | _ \<Rightarrow> False)"

lemma simulated_void: "simulated m \<Longrightarrow> simulated (void m)"
  unfolding void_def by (intro sim_intros)

lemma run_call_simulated: "\<not> finishing c \<Longrightarrow> simulated (run_call ho c)"
  by (cases c) (simp_all add: finishing_def simulated_void sim_intros)

lemma run_call_simulated_ok: "simulated_ok (run_call ho c)"
proof (cases "finishing c")
  case True
  then show ?thesis
    by (cases c) (simp_all add: finishing_def simulated_ok_outcomes simulated_ok_cancel simulated_ok_cancel_many
      simulated_ok_apply_group_policy)
qed (simp add: run_call_simulated simulated_ok)

section \<open>Steps of a driver\<close>

text \<open>A call may return an error; a run ends at a panic, and at a host error of a call that finishes
  tasks. A task the driver holds may only change in its machine and other payload.\<close>

definition panics :: "'x sched_error + 'a \<Rightarrow> bool" where
  "panics r \<longleftrightarrow> (\<exists>message. r = Err (SchedPanic message))"

inductive sched_step ::
  "('x, 'w) host_ops \<Rightarrow> 'x held \<times> ('x, 'w) scheduler \<Rightarrow> 'x held \<times> ('x, 'w) scheduler \<Rightarrow> bool" for ho
where
  call: "run_call ho c s = (r, s') \<Longrightarrow> \<not> panics r \<Longrightarrow> finishing c \<longrightarrow> hostless r \<Longrightarrow> sched_step ho (out, s) (out, s')"
| take: "take_running h s = (Ok t, s') \<Longrightarrow> sched_step ho (out, s) (out(h_task h \<mapsto> t), s')"
| completion: "take_cpu_completion h job s = (Ok t, s') \<Longrightarrow> sched_step ho (out, s) (out(h_task h \<mapsto> t), s')"
| restore: "restore_running h u s = (r, s') \<Longrightarrow> out (h_task h) = Some t \<Longrightarrow> abs_task u = abs_task t \<Longrightarrow>
    t_waiters u = t_waiters t \<Longrightarrow> r = Ok () \<Longrightarrow> sched_step ho (out, s) (out(h_task h := None), s')"
| save: "take_checkpoint_task h s = (Ok t, s') \<Longrightarrow> sched_step ho (out, s) (out(h_task h \<mapsto> t), s')"
| saved: "restore_checkpoint_task h u s = (r, s') \<Longrightarrow> out (h_task h) = Some t \<Longrightarrow> abs_task u = abs_task t \<Longrightarrow>
    t_waiters u = t_waiters t \<Longrightarrow> r = Ok () \<Longrightarrow> sched_step ho (out, s) (out(h_task h := None), s')"

abbreviation sched_run ::
  "('x, 'w) host_ops \<Rightarrow> 'x held \<times> ('x, 'w) scheduler \<Rightarrow> 'x held \<times> ('x, 'w) scheduler \<Rightarrow> bool"
where
  "sched_run ho \<equiv> (sched_step ho)\<^sup>*\<^sup>*"

text \<open>Taking a task out and putting it back do not change the system as a whole.\<close>

lemma abs_take:
  assumes "sim out s" "RBT.lookup (sc_tasks s) n = Some t"
  shows "abs (out(n \<mapsto> u)) (remove_task n s) = put n (abs_task u) (abs out s)"
proof -
  have "view (out(n \<mapsto> u)) (remove_task n s) = (view out s)(n \<mapsto> u)"
    by (auto simp: view_def remove_task_def map_add_def fun_eq_iff split: option.splits)
  moreover have "scopes_of (remove_task n s) = scopes_of s" by (simp add: remove_task_def)
  ultimately show ?thesis by (auto simp: abs_def put_def fun_eq_iff remove_task_def)
qed

lemma sim_take:
  assumes "sim out s" "RBT.lookup (sc_tasks s) n = Some t" "abs_task u = abs_task t"
  shows "abs (out(n \<mapsto> u)) (remove_task n s) = abs out s" "sim (out(n \<mapsto> u)) (remove_task n s)"
proof -
  show abs': "abs (out(n \<mapsto> u)) (remove_task n s) = abs out s"
    unfolding abs_take [OF assms(1,2)] assms(3) by (rule put_triv) (simp add: view_lookup [OF assms(2)])
  have view: "view (out(n \<mapsto> u)) (remove_task n s) m \<noteq> None \<longleftrightarrow> view out s m \<noteq> None" for m
    using abs' by (metis abs_simps(2) option.map_disc_iff)
  have "ids_ok (out(n \<mapsto> u)) (remove_task n s)"
    using assms(1) unfolding ids_ok_def view sim_def by (auto simp: remove_task_def)
  moreover have "counters_ok (out(n \<mapsto> u)) (remove_task n s)"
    using assms(1) unfolding counters_ok_def abs' sim_def by (simp add: remove_task_def)
  ultimately show "sim (out(n \<mapsto> u)) (remove_task n s)" using assms(1) abs' by (simp add: sim_def)
qed

lemma sim_restore:
  assumes "sim out s" "out n = Some t" "abs_task u = abs_task t"
  shows "abs (out(n := None)) (insert_task n u s) = abs out s" "sim (out(n := None)) (insert_task n u s)"
proof -
  have absent: "RBT.lookup (sc_tasks s) n = None" using assms(1,2) by (auto simp: sim_def ids_ok_def)
  have "view (out(n := None)) (insert_task n u s) = (view out s)(n \<mapsto> u)"
    by (auto simp: view_def insert_task_def map_add_def fun_eq_iff split: option.splits)
  moreover have "view out s n = Some t" using absent assms(2) by (simp add: view_def map_add_def)
  ultimately show abs': "abs (out(n := None)) (insert_task n u s) = abs out s"
    using assms(3) by (auto simp: abs_def fun_eq_iff insert_task_def scopes_of_def)
  have view: "view (out(n := None)) (insert_task n u s) m \<noteq> None \<longleftrightarrow> view out s m \<noteq> None" for m
    using abs' by (metis abs_simps(2) option.map_disc_iff)
  have "ids_ok (out(n := None)) (insert_task n u s)"
    using assms(1) unfolding ids_ok_def view sim_def by (auto simp: insert_task_def)
  moreover have "counters_ok (out(n := None)) (insert_task n u s)"
    using assms(1) unfolding counters_ok_def abs' sim_def by (simp add: insert_task_def)
  ultimately show "sim (out(n := None)) (insert_task n u s)" using assms(1) abs' by (simp add: sim_def)
qed

lemma move_out:
  assumes "sim out s" "RBT.lookup (sc_tasks s) n = Some t" "edge (t_state t) st" "u = t\<lparr>t_state := st\<rparr>"
  shows "sim (out(n \<mapsto> u)) (remove_task n s) \<and> sys_run (abs out s) (abs (out(n \<mapsto> u)) (remove_task n s))"
proof -
  let ?s = "upd_task n (\<lambda>t. t\<lparr>t_state := st\<rparr>) s"
  have got: "goes out s ?s" using goes_refl [OF assms(1)] assms(2,3) by (rule goes_move)
  have look: "RBT.lookup (sc_tasks ?s) n = Some u" using assms(2,4) by simp
  have same: "RBT.lookup (sc_tasks (remove_task n ?s)) = RBT.lookup (sc_tasks (remove_task n s))"
    "sc_groups (remove_task n ?s) = sc_groups (remove_task n s)"
    "sc_resources (remove_task n ?s) = sc_resources (remove_task n s)"
    "sc_next_scope (remove_task n ?s) = sc_next_scope (remove_task n s)"
    "sc_next_task (remove_task n ?s) = sc_next_task (remove_task n s)"
    by (auto simp: remove_task_def upd_task_def fun_eq_iff)
  moreover from this have "scopes_of (remove_task n ?s) = scopes_of (remove_task n s)"
    by (intro ext) (simp add: scopes_of_def)
  ultimately have "agree (out(n \<mapsto> u)) (remove_task n ?s) (remove_task n s)"
    by (simp add: agree_def abs_def view_def)
  then show ?thesis
    using sim_take [OF goes_sim [OF got] look refl] got agree_sim unfolding goes_def agree_def by metis
qed

lemma take_running_eq:
  "take_running h s = (Ok t, s') \<Longrightarrow> RBT.lookup (sc_tasks s) (h_task h) = Some t \<and> s' = remove_task (h_task h) s"
  by (auto simp: take_running_def with_task_def sbind_def sread_def resolve_id_def task_at_def sfail_def sret_def supd_def
    split: option.splits if_splits)

lemma take_cpu_completion_eq:
  "take_cpu_completion h job s = (Ok t, s') \<Longrightarrow>
    \<exists>u. RBT.lookup (sc_tasks s) (h_task h) = Some u \<and> t_state u = Waiting (WaitCpu job) \<and> t = u\<lparr>t_state := Running\<rparr> \<and>
      s' = remove_task (h_task h) s"
  by (auto simp: take_cpu_completion_def with_task_def sbind_def sread_def resolve_id_def task_at_def sfail_def sret_def
    supd_def split: option.splits if_splits)

lemma take_checkpoint_task_eq:
  "take_checkpoint_task h s = (Ok t, s') \<Longrightarrow> RBT.lookup (sc_tasks s) (h_task h) = Some t \<and> s' = remove_task (h_task h) s"
  by (auto simp: take_checkpoint_task_def sbind_def sread_def sget_def sassert_def task_at_def sfail_def sret_def supd_def
    split: option.splits if_splits sum.splits)

lemma restore_running_eq: "restore_running h u s = (Ok (), s') \<Longrightarrow> s' = insert_task (h_task h) u s"
  by (auto simp: restore_running_def sbind_def sget_def supd_def sfail_def sret_def split: if_splits)

lemma restore_checkpoint_task_eq: "restore_checkpoint_task h u s = (Ok (), s') \<Longrightarrow> s' = insert_task (h_task h) u s"
  by (auto simp: restore_checkpoint_task_def sbind_def sget_def supd_def sfail_def sret_def sassert_def
    split: if_splits)

lemma sched_step_simulated:
  assumes "sched_step ho x y" "sim (fst x) (snd x)"
  shows "sim (fst y) (snd y) \<and> sys_run (abs (fst x) (snd x)) (abs (fst y) (snd y))"
  using assms
proof induction
  case (call c s r s' out)
  have "hostless r \<longrightarrow> goes out s s'" "\<not> finishing c \<longrightarrow> goes out s s'"
    using wp_eq [OF simulated_okD [OF run_call_simulated_ok goes_refl] call(1)]
      wp_eq [OF simulatedD [OF run_call_simulated goes_refl] call(1)] call.prems by auto
  then show ?case using call(3) by (auto simp: goes_def)
next
  case (take h s t s' out)
  from take_running_eq [OF take(1)] sim_take [of out s "h_task h" t t] take.prems show ?case
    by (simp del: fun_upd_apply)
next
  case (completion h job s t s' out)
  from take_cpu_completion_eq [OF completion(1)] obtain u where
    "RBT.lookup (sc_tasks s) (h_task h) = Some u" "t_state u = Waiting (WaitCpu job)" "t = u\<lparr>t_state := Running\<rparr>"
    "s' = remove_task (h_task h) s" by blast
  with move_out [of out s "h_task h" u Running t] completion.prems show ?case by (simp add: edge_def del: fun_upd_apply)
next
  case (restore h u s r s' out t)
  from restore_running_eq [of h u s s'] sim_restore [of out s "h_task h" t u] restore show ?case
    by (simp del: fun_upd_apply)
next
  case (save h s t s' out)
  from take_checkpoint_task_eq [OF save(1)] sim_take [of out s "h_task h" t t] save.prems show ?case
    by (simp del: fun_upd_apply)
next
  case (saved h u s r s' out t)
  from restore_checkpoint_task_eq [of h u s s'] sim_restore [of out s "h_task h" t u] saved show ?case
    by (simp del: fun_upd_apply)
qed

lemma sched_run_simulated:
  assumes "sched_run ho x y" "sim (fst x) (snd x)"
  shows "sim (fst y) (snd y) \<and> sys_run (abs (fst x) (snd x)) (abs (fst y) (snd y))"
  using assms(1)
proof induction
  case (step y z)
  then show ?case using sched_step_simulated [OF step(2)] by (meson rtranclp_trans)
qed (simp add: assms(2))

lemma scheduler_new_sim:
  assumes "scheduler_new owner limit w = Ok s"
  shows "sim Map.empty s" "abs Map.empty s = sys_init owner limit"
proof -
  have s: "sc_groups s = RBT.insert owner (group_new None limit PolicyRun) RBT.empty" "sc_tasks s = RBT.empty"
    "sc_next_scope s = owner + 1" "holders (sc_resources s) = RBT.empty"
    using assms by (auto simp: scheduler_new_def checked_succ_def guards_default_def split: if_splits)
  show abs': "abs Map.empty s = sys_init owner limit"
    by (auto simp: abs_def sys_init_def scopes_of_def s view_def abs_group_def group_new_def fun_eq_iff)
  have "occupancy (sys_init owner limit) b = 0" for b
    by (simp add: occupancy_def slot_holders_def sys_init_def)
  then have "counters_ok Map.empty s"
    unfolding counters_ok_def abs' by (simp add: s group_new_def)
  moreover have "ids_ok Map.empty s" by (auto simp: ids_ok_def s view_def)
  ultimately show "sim Map.empty s" using sys_init_ok by (simp add: sim_def abs')
qed

section \<open>Properties of every run\<close>

lemma run_reaches:
  assumes "scheduler_new owner limit w = Ok s0" "sched_run ho (Map.empty, s0) (out, s)"
  shows "sim out s" "sys_run (sys_init owner limit) (abs out s)"
  using sched_run_simulated [OF assms(2)] scheduler_new_sim [OF assms(1)] by simp_all

text \<open>A sample run: the root scope admits one task at a time; two tasks are spawned, the first is
  dispatched and taken out by the driver.\<close>

definition sample_ops :: "(nat, unit) host_ops" where
  "sample_ops = \<lparr>exec_child = (\<lambda>x w. (Ok (x + 1), w)), exec_claim_body = (\<lambda>x w. (Ok (), w)),
     exec_signal = (\<lambda>x w. Ok x), signal_cause = (\<lambda>x w. Ok None), exec_stop = (\<lambda>x y w. (Ok (), w)),
     exec_finish_body = (\<lambda>x b w. (Ok (), w)), capsule_for = (\<lambda>x y. x)\<rparr>"

definition sample_local :: "nat task_local" where
  "sample_local = \<lparr>tl_identity = RootTask, tl_parent = None, tl_scope = 0, tl_execution = 0, tl_cancellation = Ok 0,
     tl_model_policy = 0, tl_retry_stack = [], tl_handler_stack = [], tl_residual = None\<rparr>"

definition sample_start :: "(nat, unit) scheduler" where
  "sample_start = \<lparr>sc_next_scope = 1, sc_next_task = 0,
     sc_groups = RBT.insert 0 (group_new None 1 PolicyRun) RBT.empty,
     sc_tasks = RBT.empty, sc_ready = [], sc_wakeups = RBT.empty, sc_cancellation_events = [],
     sc_continuations = arena_new, sc_resources = guards_default, sc_checkpoint_barrier = False, sc_world = ()\<rparr>"

definition sample_calls :: "nat sched_call list" where
  "sample_calls = [Spawn sample_local 0 7 None 0 0, Spawn sample_local 0 8 None 0 1, Dispatch, Dispatch]"

fun run_calls :: "('x, 'w) host_ops \<Rightarrow> 'x sched_call list \<Rightarrow> ('x, 'w) scheduler \<Rightarrow> ('x, 'w) scheduler" where
  "run_calls ho [] s = s"
| "run_calls ho (c # cs) s = run_calls ho cs (snd (run_call ho c s))"

fun run_clean :: "('x, 'w) host_ops \<Rightarrow> 'x sched_call list \<Rightarrow> ('x, 'w) scheduler \<Rightarrow> bool" where
  "run_clean ho [] s = True"
| "run_clean ho (c # cs) s =
     (\<not> panics (fst (run_call ho c s)) \<and> hostless (fst (run_call ho c s)) \<and> run_clean ho cs (snd (run_call ho c s)))"

lemma run_calls_run:
  assumes "run_clean ho cs s"
  shows "sched_run ho (out, s) (out, run_calls ho cs s)"
  using assms
proof (induction cs arbitrary: s)
  case (Cons c cs)
  obtain r where "run_call ho c s = (r, snd (run_call ho c s))" "\<not> panics r" "hostless r"
    using Cons.prems by (cases "run_call ho c s") auto
  then have "sched_step ho (out, s) (out, snd (run_call ho c s))" by (blast intro: call)
  with Cons show ?case by (simp add: converse_rtranclp_into_rtranclp)
qed simp

lemma sample_start_new: "scheduler_new 0 1 () = Ok sample_start"
  by (simp add: scheduler_new_def checked_succ_def sample_start_def)

definition sample_end :: "(nat, unit) scheduler" where
  "sample_end = run_calls sample_ops sample_calls sample_start"

lemma checked_succ_small: "checked_succ 0 message = Ok 1" "checked_succ (Suc 0) message = Ok 2"
  by (simp_all add: checked_succ_def)

lemmas sample_eval = sample_calls_def sample_start_def sample_ops_def sample_local_def void_def spawn_in_scope_def
  child_in_scope_def sbind_def sget_def sassert_def sret_def sread_def supd_def shost_def checked_succ_small task_new_def
  push_ready_def upd_group_def upd_task_def group_new_def dispatch_ready_def numeral_2_eq_2 dispatch_one_def task_at_def
  can_admit_def scope_fuel_def group_at_def acquire_def guards_default_def change_active_def held_keys_def
  sfail_def

lemma sample_run: "sched_run sample_ops (Map.empty, sample_start) (Map.empty, sample_end)"
  unfolding sample_end_def by (rule run_calls_run) (simp add: sample_eval panics_def)

lemma sample_end_state:
  "map_option t_state (RBT.lookup (sc_tasks sample_end) 0) = Some Running"
  "map_option t_state (RBT.lookup (sc_tasks sample_end) 1) = Some Ready"
  by (simp_all add: sample_end_def sample_eval)


lemma sample_end_groups:
  "RBT.lookup (sc_groups sample_end) k = Some h \<Longrightarrow> \<not> g_serial_task_admission h"
  "\<exists>g. RBT.lookup (sc_groups sample_end) 0 = Some g \<and> g_concurrency g = 1"
  by (auto simp: sample_end_def sample_eval split: if_splits)


text \<open>\<^bold>\<open>C2\<close>. The concurrency limit. In every state a driver reaches, unless the invocation was
  made serial, the number of tasks at or below a scope that are running (or wait for their own CPU
  job) is at most the concurrency of the scope.\<close>

theorem concurrency_limit_holds:
  assumes "scheduler_new owner limit w = Ok s0" "sched_run ho (Map.empty, s0) (out, s)"
    and "\<forall>k h. RBT.lookup (sc_groups s) k = Some h \<longrightarrow> \<not> g_serial_task_admission h"
    and "RBT.lookup (sc_groups s) b = Some g"
  shows "card {n. \<exists>t. view out s n = Some t \<and> busy (t_state t) \<and> within (scopes_of s) (t_scope t) b} \<le> g_concurrency g"
proof -
  have ok: "sys_ok (abs out s)" using run_reaches(1) [OF assms(1,2)] by (simp add: sim_def)
  have "a_slot (abs_task t)" if "view out s n = Some t" "busy (t_state t)" for n t
    using task_ok_live(3) [OF sys_okD(5) [OF ok, of n "abs_task t"]] that busy_not_terminal by auto
  then have "{n. \<exists>t. view out s n = Some t \<and> busy (t_state t) \<and> within (scopes_of s) (t_scope t) b} \<subseteq>
      slot_holders (abs out s) b"
    by (fastforce simp: slot_holders_def)
  then have "card {n. \<exists>t. view out s n = Some t \<and> busy (t_state t) \<and> within (scopes_of s) (t_scope t) b} \<le>
      occupancy (abs out s) b"
    unfolding occupancy_def by (intro card_mono finite_slot_holders sys_okD(2) [OF ok])
  also have "\<dots> \<le> g_concurrency g"
  proof -
    have "\<forall>k h. y_scopes (abs out s) k = Some h \<longrightarrow> \<not> a_serial h"
      using assms(3) by (auto simp: scopes_of_def)
    moreover have "y_scopes (abs out s) b = Some (abs_group g)" using assms(4) by (simp add: scopes_of_def)
    ultimately have "occupancy (abs out s) b \<le> a_limit (abs_group g)"
      using sys_okD(4) [OF ok] unfolding limits_ok_def by blast
    then show ?thesis by simp
  qed
  finally show ?thesis .
qed

theorem concurrency_limit_holds_witness:
  "card {n. \<exists>t. view Map.empty sample_end n = Some t \<and> busy (t_state t) \<and>
    within (scopes_of sample_end) (t_scope t) 0} \<le> 1"
  using concurrency_limit_holds [OF sample_start_new sample_run, of 0] sample_end_groups by fastforce

text \<open>\<^bold>\<open>C26\<close>. Outcomes are final. Once a task has an outcome, its state is the terminal state of
  that outcome and no later step of the driver changes the outcome, the state or the scope of the
  task, or removes the task.\<close>

theorem outcomes_are_final:
  assumes "scheduler_new owner limit w = Ok s0" "sched_run ho (Map.empty, s0) (out, s)"
    and "sched_run ho (out, s) (out', s')" "view out s n = Some t" "t_outcome t = Some r"
  shows "\<exists>t'. view out' s' n = Some t' \<and> t_outcome t' = Some r \<and> t_state t' = outcome_state r \<and> t_scope t' = t_scope t"
proof -
  note sim = run_reaches(1) [OF assms(1,2)]
  have "task_ok (abs out s) n (abs_task t)"
    using sim assms(4) by (intro sys_okD(5)) (simp_all add: sim_def)
  then have state: "t_state t = outcome_state r" using assms(5) by (simp add: task_ok_def)
  have "sys_run (abs out s) (abs out' s')" using sched_run_simulated [OF assms(3)] sim by simp
  then have "extends (abs out s) (abs out' s')" by (rule sys_run_extends)
  then obtain u where "y_tasks (abs out' s') n = Some u" "a_scope u = t_scope t"
    "a_state u = t_state t \<and> a_outcome u = t_outcome t"
    using assms(4) state by (elim extends_task [of _ _ n "abs_task t"]) auto
  then show ?thesis using state assms(5) by auto
qed

definition sample_first :: task_handle where
  "sample_first = \<lparr>h_owner = 0, h_task = 0\<rparr>"

definition sample_done :: "(nat, unit) scheduler" where
  "sample_done = snd (run_call sample_ops (Complete sample_first (Tuple [])) sample_end)"

lemma sample_keys: "RBT.keys (RBT.insert (Suc 0) () (RBT.insert 0 () RBT.empty)) = [0, Suc 0]"
  by code_simp

lemmas sample_finish = with_task_def resolve_id_def complete_def terminal_def wake_scope_if_settled_def scope_outcome_def
  group_task_ids_def is_terminal_def dispose_origin_def release_def arena_new_def

lemma sample_complete:
  "\<exists>s. run_call sample_ops (Complete sample_first (Tuple [])) sample_end = (Ok (), s)"
  "map_option t_outcome (RBT.lookup (sc_tasks sample_done) 0) = Some (Some (Completed (Tuple [])))"
  by (simp_all add: sample_done_def sample_first_def sample_end_def sample_eval sample_finish sample_keys)

lemma sample_done_run: "sched_run sample_ops (Map.empty, sample_start) (Map.empty, sample_done)"
proof -
  have "sched_step sample_ops (Map.empty, sample_end) (Map.empty, sample_done)"
  proof (rule call)
    show "run_call sample_ops (Complete sample_first (Tuple [])) sample_end = (Ok (), sample_done)"
      using sample_complete(1) by (auto simp: sample_done_def)
  qed (simp_all add: panics_def)
  with sample_run show ?thesis by (rule rtranclp.rtrancl_into_rtrancl)
qed

theorem outcomes_are_final_witness:
  "\<exists>t'. view Map.empty (run_calls sample_ops [Dispatch] sample_done) 0 = Some t' \<and>
    t_outcome t' = Some (Completed (Tuple [])) \<and> t_state t' = StCompleted"
proof -
  obtain t where t: "RBT.lookup (sc_tasks sample_done) 0 = Some t" "t_outcome t = Some (Completed (Tuple []))"
    using sample_complete(2) by auto
  have "sched_run sample_ops (Map.empty, sample_done) (Map.empty, run_calls sample_ops [Dispatch] sample_done)"
    by (rule run_calls_run)
      (simp add: sample_done_def sample_first_def sample_end_def sample_eval sample_finish sample_keys panics_def)
  from outcomes_are_final [OF sample_start_new sample_done_run this view_lookup [OF t(1)] t(2)] show ?thesis
    by auto
qed

text \<open>\<^bold>\<open>C33\<close>. Permits of running tasks exclude each other. In every state a driver reaches, no memory
  location is covered by resource keys that two different tasks hold, and a task with an outcome
  holds no permit and no active slot.\<close>

theorem scheduled_permits_exclusive:
  assumes "scheduler_new owner limit w = Ok s0" "sched_run ho (Map.empty, s0) (out, s)"
  shows "(\<forall>a b ka kb x y l. RBT.lookup (holders (sc_resources s)) a = Some ka \<and>
      RBT.lookup (holders (sc_resources s)) b = Some kb \<and> x \<in> set ka \<and> y \<in> set kb \<and> covers x l \<and> covers y l \<longrightarrow> a = b) \<and>
    (\<forall>n t r. view out s n = Some t \<and> t_outcome t = Some r \<longrightarrow>
      RBT.lookup (holders (sc_resources s)) n = None \<and> \<not> t_active_slot t)"
proof -
  have ok: "sys_ok (abs out s)" using run_reaches(1) [OF assms] by (simp add: sim_def)
  have "permits_ok (abs out s)" by (rule sys_okD(3) [OF ok])
  then have "\<forall>a b ka kb x y l. RBT.lookup (holders (sc_resources s)) a = Some ka \<and>
      RBT.lookup (holders (sc_resources s)) b = Some kb \<and> x \<in> set ka \<and> y \<in> set kb \<and> covers x l \<and> covers y l \<longrightarrow> a = b"
    unfolding permits_ok_def conflicts_overlap by (metis abs_simps(3))
  moreover have "RBT.lookup (holders (sc_resources s)) n = None \<and> \<not> t_active_slot t"
    if "view out s n = Some t" "t_outcome t = Some r" for n t r
    using sys_okD(5) [OF ok, of n "abs_task t"] that by (simp add: task_ok_def)
  ultimately show ?thesis by blast
qed

theorem scheduled_permits_exclusive_witness:
  "RBT.lookup (holders (sc_resources sample_done)) 0 = None \<and>
    (\<exists>t. view Map.empty sample_done 0 = Some t \<and> t_outcome t \<noteq> None \<and> \<not> t_active_slot t)"
proof -
  obtain t where "RBT.lookup (sc_tasks sample_done) 0 = Some t" "t_outcome t = Some (Completed (Tuple []))"
    using sample_complete(2) by auto
  with scheduled_permits_exclusive [OF sample_start_new sample_done_run] view_lookup [OF this(1)] show ?thesis by blast
qed

end
