(* ===== verification/Scheduler_Waits.thy ===== *)
theory Scheduler_Waits
  imports Scheduler_Runs
begin

text \<open>
  No task is forgotten: in every state of a run, a ready task is in the ready queue, a task that
  waits for another task is on the waiter list of an unfinished task, a task that waits for a
  scope is on the waiter list of that scope, and a task that waits for resources is in the
  resource queue.
\<close>

named_theorems reg_intros \<open>updates that keep the registrations\<close>

section \<open>Registration\<close>

definition registered :: "'x held \<Rightarrow> ('x, 'w) scheduler \<Rightarrow> nat \<Rightarrow> task_state \<Rightarrow> bool" where
  "registered out s n st =
     (case st of
        Ready \<Rightarrow> n \<in> set (sc_ready s)
      | Waiting (WaitTask m) \<Rightarrow> \<exists>u. view out s m = Some u \<and> \<not> is_terminal (t_state u) \<and> n \<in> set (t_waiters u)
      | Waiting (WaitScope k) \<Rightarrow> \<exists>g. RBT.lookup (sc_groups s) k = Some g \<and> n \<in> set (g_waiters g)
      | Waiting (WaitResource _) \<Rightarrow> n \<in> set (rg_waiting (sc_resources s))
      | _ \<Rightarrow> True)"

text \<open>Inside a method some registrations are pending; \<open>E\<close> says which.\<close>

definition reg :: "(nat \<Rightarrow> task_state \<Rightarrow> bool) \<Rightarrow> 'x held \<Rightarrow> ('x, 'w) scheduler \<Rightarrow> bool" where
  "reg E out s \<longleftrightarrow> (\<forall>n t. view out s n = Some t \<longrightarrow> registered out s n (t_state t) \<or> E n (t_state t))"

abbreviation none :: "nat \<Rightarrow> task_state \<Rightarrow> bool" where
  "none \<equiv> \<lambda>_ _. False"

lemma reg_weaken: "reg E out s \<Longrightarrow> (\<And>n st. E n st \<Longrightarrow> E' n st) \<Longrightarrow> reg E' out s"
  unfolding reg_def by blast

text \<open>A state that has at least the registrations of another and the same task states.\<close>

definition grows :: "'x held \<Rightarrow> ('x, 'w) scheduler \<Rightarrow> ('x, 'w) scheduler \<Rightarrow> bool" where
  "grows out s s' \<longleftrightarrow>
     (\<forall>n. map_option t_state (view out s' n) = map_option t_state (view out s n)) \<and>
     (\<forall>n t t'. view out s n = Some t \<longrightarrow> view out s' n = Some t' \<longrightarrow> set (t_waiters t) \<subseteq> set (t_waiters t')) \<and>
     (\<forall>k g. RBT.lookup (sc_groups s) k = Some g \<longrightarrow>
       (\<exists>g'. RBT.lookup (sc_groups s') k = Some g' \<and> set (g_waiters g) \<subseteq> set (g_waiters g'))) \<and>
     set (rg_waiting (sc_resources s)) \<subseteq> set (rg_waiting (sc_resources s')) \<and>
     set (sc_ready s) \<subseteq> set (sc_ready s')"

lemma growsD:
  assumes "grows out s s'" "view out s n = Some t"
  shows "\<exists>t'. view out s' n = Some t' \<and> t_state t' = t_state t \<and> set (t_waiters t) \<subseteq> set (t_waiters t')"
proof -
  have "map_option t_state (view out s' n) = Some (t_state t)"
    using assms by (simp add: grows_def)
  then obtain t' where "view out s' n = Some t'" "t_state t' = t_state t" by auto
  moreover have "set (t_waiters t) \<subseteq> set (t_waiters t')" using assms \<open>view out s' n = Some t'\<close> by (simp add: grows_def)
  ultimately show ?thesis by blast
qed

lemma registered_grows:
  assumes "grows out s s'" "registered out s n st"
  shows "registered out s' n st"
proof (cases st)
  case (Waiting w)
  show ?thesis
  proof (cases w)
    case (WaitTask m)
    then obtain u where u: "view out s m = Some u" "\<not> is_terminal (t_state u)" "n \<in> set (t_waiters u)"
      using assms(2) Waiting by (auto simp: registered_def)
    from growsD [OF assms(1) u(1)] u(2,3) show ?thesis by (auto simp: registered_def Waiting WaitTask)
  qed (use assms Waiting in \<open>auto simp: registered_def grows_def, blast+\<close>)
qed (use assms in \<open>auto simp: registered_def grows_def\<close>)

lemma reg_grows:
  assumes "reg E out s" "grows out s s'"
  shows "reg E out s'"
  unfolding reg_def
proof (intro allI impI)
  fix n t'
  assume "view out s' n = Some t'"
  moreover have "map_option t_state (view out s' n) = map_option t_state (view out s n)"
    using assms(2) by (simp add: grows_def)
  ultimately obtain t where "view out s n = Some t" "t_state t = t_state t'" by (cases "view out s n") auto
  with assms(1) registered_grows [OF assms(2)] show "registered out s' n (t_state t') \<or> E n (t_state t')"
    unfolding reg_def by metis
qed

section \<open>Updates\<close>

lemma grows_book [simp]:
  "grows out s (s\<lparr>sc_wakeups := c\<rparr>)" "grows out s (s\<lparr>sc_cancellation_events := d\<rparr>)"
  "grows out s (s\<lparr>sc_continuations := e\<rparr>)" "grows out s (s\<lparr>sc_checkpoint_barrier := b\<rparr>)"
  "grows out s (s\<lparr>sc_world := w\<rparr>)" "grows out s (push_wakeup n k s)" "grows out s (push_ready n s)"
  by (auto simp: grows_def push_wakeup_def push_ready_def)

lemma grows_upd_task:
  assumes "\<And>t. t_state (f t) = t_state t" "\<And>t. set (t_waiters t) \<subseteq> set (t_waiters (f t))"
  shows "grows out s (upd_task n f s)"
  using assms unfolding grows_def view_upd_task
  by (auto simp: view_def map_add_def split: option.splits)

lemma grows_upd_group:
  assumes "\<And>g. set (g_waiters g) \<subseteq> set (g_waiters (f g))"
  shows "grows out s (upd_group n f s)"
  using assms by (auto simp: grows_def)

lemma grows_counted: "counted s k inc s' \<Longrightarrow> grows out s s'"
  using countedD [of s k inc s'] by (auto simp: grows_def bump_def)

lemma grows_resources: "rg_waiting r = rg_waiting (sc_resources s) \<Longrightarrow> grows out s (s\<lparr>sc_resources := r\<rparr>)"
  by (auto simp: grows_def)

lemmas reg_book [reg_intros] = reg_grows [OF _ grows_book(1)] reg_grows [OF _ grows_book(2)] reg_grows [OF _ grows_book(3)]
  reg_grows [OF _ grows_book(4)] reg_grows [OF _ grows_book(5)] reg_grows [OF _ grows_book(6)] reg_grows [OF _ grows_book(7)]
lemmas reg_upd_task = reg_grows [OF _ grows_upd_task]
lemmas reg_upd_group = reg_grows [OF _ grows_upd_group]
lemmas reg_counted = reg_grows [OF _ grows_counted]
lemmas reg_resources = reg_grows [OF _ grows_resources]

lemma reg_discharge:
  assumes "reg (\<lambda>m st'. E m st' \<or> m = n \<and> st' = st) out s" "registered out s n st"
  shows "reg E out s"
  unfolding reg_def
proof (intro allI impI)
  fix m t
  assume "view out s m = Some t"
  with assms(1) have "registered out s m (t_state t) \<or> E m (t_state t) \<or> m = n \<and> t_state t = st"
    unfolding reg_def by simp
  with assms(2) show "registered out s m (t_state t) \<or> E m (t_state t)" by auto
qed

text \<open>A change of the state of one unfinished task to another unfinished state.\<close>

lemma reg_set_state:
  assumes "reg E out s" "RBT.lookup (sc_tasks s) n = Some t" "\<not> is_terminal st"
  shows "reg (\<lambda>m st'. E m st' \<or> m = n \<and> st' = st) out (upd_task n (\<lambda>t. t\<lparr>t_state := st\<rparr>) s)"
  unfolding reg_def
proof (intro allI impI)
  let ?s = "upd_task n (\<lambda>t. t\<lparr>t_state := st\<rparr>) s"
  fix m u'
  assume u': "view out ?s m = Some u'"
  show "registered out ?s m (t_state u') \<or> E m (t_state u') \<or> m = n \<and> t_state u' = st"
  proof (cases "m = n")
    case True
    then show ?thesis using u' assms(2) by (auto simp: view_upd_task)
  next
    case False
    with u' have u: "view out s m = Some u'" by (simp add: view_upd_task)
    have "registered out ?s m st'" if "registered out s m st'" for st'
    proof (cases st')
      case (Waiting w)
      show ?thesis
      proof (cases w)
        case (WaitTask i)
        with that Waiting obtain x where x: "view out s i = Some x" "\<not> is_terminal (t_state x)" "m \<in> set (t_waiters x)"
          by (auto simp: registered_def)
        then show ?thesis
          using assms(2,3) by (cases "i = n") (auto simp: registered_def Waiting WaitTask view_upd_task view_lookup)
      qed (use that Waiting in \<open>auto simp: registered_def\<close>)
    qed (use that in \<open>auto simp: registered_def\<close>)
    with assms(1) u show ?thesis unfolding reg_def by blast
  qed
qed

lemma reg_set_state_same:
  assumes "reg E out s" "RBT.lookup (sc_tasks s) n = Some t" "\<not> is_terminal st"
    and "registered out (upd_task n (\<lambda>t. t\<lparr>t_state := st\<rparr>) s) n st"
  shows "reg E out (upd_task n (\<lambda>t. t\<lparr>t_state := st\<rparr>) s)"
  by (rule reg_discharge [OF reg_set_state [OF assms(1-3)] assms(4)])

lemma reg_push:
  assumes "reg (\<lambda>m st. E m st \<or> m = n \<and> st = Ready) out s"
  shows "reg E out (push_ready n s)"
proof (rule reg_discharge)
  show "reg (\<lambda>m st. E m st \<or> m = n \<and> st = Ready) out (push_ready n s)" using assms by (rule reg_book)
  show "registered out (push_ready n s) n Ready" by (simp add: registered_def push_ready_def)
qed

section \<open>Methods that keep the registrations\<close>

definition steady :: "('x, 'w, 'a) sched \<Rightarrow> bool" where
  "steady m \<longleftrightarrow> simulated m \<and>
     (\<forall>out s. sim out s \<longrightarrow> reg none out s \<longrightarrow> wp m (\<lambda>r s'. \<not> panics r \<longrightarrow> reg none out s') s)"

lemma panics_simps [simp]:
  "\<not> panics (Ok x)" "panics (Err (SchedPanic message))" "\<not> panics (Err WrongOwner)" "\<not> panics (Err UnknownTask)"
  "\<not> panics (Err InvalidTransition)" "\<not> panics (Err (HostError e))"
  by (simp_all add: panics_def)

lemma wp_bind:
  assumes "wp m P s" "\<And>e s'. P (Err e) s' \<Longrightarrow> Q (Err e) s'" "\<And>x s'. P (Ok x) s' \<Longrightarrow> wp (f x) Q s'"
  shows "wp (sbind m f) Q s"
  unfolding wp_sbind by (rule wp_mono [OF assms(1)]) (auto split: sum.splits intro: assms(2,3))

lemma wp_conj: "wp m P s \<Longrightarrow> wp m Q s \<Longrightarrow> wp m (\<lambda>r s'. P r s' \<and> Q r s') s"
  by (auto simp: wp_def)

lemma steadyI:
  assumes "simulated m"
    and "\<And>out s. sim out s \<Longrightarrow> reg none out s \<Longrightarrow> wp m (\<lambda>r s'. \<not> panics r \<longrightarrow> reg none out s') s"
  shows "steady m"
  using assms by (simp add: steady_def)

lemma steady_wp:
  assumes "steady m" "sim out s" "reg none out s"
  shows "wp m (\<lambda>r s'. goes out s s' \<and> (\<not> panics r \<longrightarrow> reg none out s')) s"
  using assms simulatedD [OF _ goes_refl [OF assms(2)], of m] unfolding steady_def wp_def by (auto split: prod.splits)

lemma steady_sbind [reg_intros]:
  fixes m :: "('x, 'w, 'a) sched" and f :: "'a \<Rightarrow> ('x, 'w, 'b) sched"
  assumes "steady m" "\<And>x. steady (f x)"
  shows "steady (sbind m f)"
proof (rule steadyI)
  show "simulated (sbind m f)" using assms by (intro simulated_sbind) (simp_all add: steady_def)
  fix out :: "'x held" and s :: "('x, 'w) scheduler"
  assume ok: "sim out s" "reg none out s"
  show "wp (sbind m f) (\<lambda>r s'. \<not> panics r \<longrightarrow> reg none out s') s"
    unfolding wp_sbind
  proof (rule wp_mono [OF steady_wp [OF assms(1) ok]])
    fix r :: "'x sched_error + 'a" and s'
    assume post: "goes out s s' \<and> (\<not> panics r \<longrightarrow> reg none out s')"
    show "case r of Inl e \<Rightarrow> \<not> panics (Err e :: 'x sched_error + 'b) \<longrightarrow> reg none out s'
        | Inr x \<Rightarrow> wp (f x) (\<lambda>r s'. \<not> panics r \<longrightarrow> reg none out s') s'"
    proof (cases r)
      case (Inl e)
      then show ?thesis using post by (simp add: panics_def)
    next
      case (Inr x)
      then have "wp (f x) (\<lambda>r t. goes out s' t \<and> (\<not> panics r \<longrightarrow> reg none out t)) s'"
        using post goes_sim by (intro steady_wp [OF assms(2)]) auto
      then have "wp (f x) (\<lambda>r s'. \<not> panics r \<longrightarrow> reg none out s') s'" by (rule wp_mono) blast
      with Inr show ?thesis by simp
    qed
  qed
qed

lemma steady_prims [reg_intros]:
  "steady (sret x)" "steady (sread f)" "steady (sget h)" "steady (sassert b message)" "steady (sfail e)"
  by (auto intro!: steadyI sim_intros simp: wp_prims)

lemma steady_shost [reg_intros]: "steady (shost f)"
  by (rule steadyI) (auto intro!: wp_shost reg_intros sim_intros)

lemma steady_with_task [reg_intros]:
  assumes "\<And>t. steady (f t)"
  shows "steady (with_task h f)"
  using assms by (intro steadyI sim_intros) (auto simp: steady_def wp_simps split: option.splits)

lemma steady_if [reg_intros]: "steady m \<Longrightarrow> steady m' \<Longrightarrow> steady (if b then m else m')"
  by simp

lemma steady_on_arena [reg_intros]: "steady (on_arena f)"
  by (rule steadyI) (auto simp: wp_def on_arena_def split: prod.splits intro!: reg_intros sim_intros)

lemma steady_supd:
  assumes "\<And>out s. goes out s s \<Longrightarrow> goes out s (f s)" "\<And>out s. reg none out s \<Longrightarrow> reg none out (f s)"
  shows "steady (supd f)"
  using assms by (intro steadyI simulated_supd) (auto simp: wp_prims)

lemma steady_passive [reg_intros]:
  assumes "\<And>t. abs_task (f t) = abs_task t" "\<And>t. t_waiters (f t) = t_waiters t"
  shows "steady (supd (upd_task n f))"
proof -
  have "t_state (f t) = t_state t" for t using assms(1) by (metis abs_task_simps(2))
  with assms show ?thesis by (intro steady_supd goes_passive reg_upd_task) auto
qed

lemma steady_group_passive [reg_intros]:
  assumes "\<And>g. abs_group (f g) = abs_group g" "\<And>g. g_active (f g) = g_active g" "\<And>g. g_waiters (f g) = g_waiters g"
  shows "steady (supd (upd_group n f))"
  using assms by (intro steady_supd goes_group_passive reg_upd_group) auto

lemma steady_continuations [reg_intros]:
  "steady (allocate_continuation owner origin c out' program bnd)"
  "steady (consume_continuation token origin transfer)" "steady (dispose_continuation token origin)"
  unfolding allocate_continuation_def consume_continuation_def dispose_continuation_def
  by (intro reg_intros)+

lemma steady_attach [reg_intros]:
  "steady (set_scope_owner k h)" "steady (attach_cpu_capsule ho h c)" "steady (attach_start h x)"
  "steady (attach_resources h keys)" "steady (guard_scope k)" "steady (serialize_scope k)"
  by (simp_all add: set_scope_owner_def attach_cpu_capsule_def attach_start_def attach_resources_def guard_scope_def
    serialize_scope_def Let_def reg_intros)

lemma steady_events [reg_intros]:
  "steady take_resource_events" "steady take_cancellation_events"
  "steady begin_checkpoint_barrier" "steady end_checkpoint_barrier"
  by (simp_all add: take_resource_events_def take_cancellation_events_def begin_checkpoint_barrier_def
    end_checkpoint_barrier_def steady_supd reg_intros sim_intros reg_resources)

lemma steady_take_wakeup [reg_intros]: "steady (take_wakeup h)"
  unfolding take_wakeup_def
  by (intro reg_intros) (auto split: option.split list.split intro!: steady_sbind steady_prims steady_supd sim_intros reg_intros)

lemma reg_new_scope:
  assumes "reg E out s" "RBT.lookup (sc_groups s) k = None"
  shows "reg E out (s\<lparr>sc_next_scope := m, sc_groups := RBT.insert k g (sc_groups s)\<rparr>)"
proof (rule reg_grows [OF assms(1)])
  have "view out (s\<lparr>sc_next_scope := m, sc_groups := RBT.insert k g (sc_groups s)\<rparr>) = view out s"
    by (simp add: view_def)
  then show "grows out s (s\<lparr>sc_next_scope := m, sc_groups := RBT.insert k g (sc_groups s)\<rparr>)"
    using assms(2) by (auto simp: grows_def)
qed

lemma steady_create_scope [reg_intros]: "steady (create_scope_with_policy parent limit policy)"
proof (rule steadyI)
  fix out s
  assume ok: "sim out s" "reg none out s"
  then have "RBT.lookup (sc_groups s) (sc_next_scope s) = None" by (auto simp: sim_def ids_ok_def)
  with ok show "wp (create_scope_with_policy parent limit policy) (\<lambda>r s'. \<not> panics r \<longrightarrow> reg none out s') s"
    by (auto simp: create_scope_with_policy_def wp_simps checked_succ_def intro!: reg_new_scope split: option.splits)
qed (rule sim_intros)

lemma reg_new_task:
  assumes "reg E out s" "view out s n = None" "t_state t = Ready"
  shows "reg (\<lambda>m st. E m st \<or> m = n \<and> st = Ready) out
    (s\<lparr>sc_world := w, sc_next_task := i, sc_tasks := RBT.insert n t (sc_tasks s)\<rparr>)"
proof -
  let ?s = "s\<lparr>sc_world := w, sc_next_task := i, sc_tasks := RBT.insert n t (sc_tasks s)\<rparr>"
  have view: "view out ?s = (view out s)(n \<mapsto> t)" by (auto simp: view_def fun_eq_iff map_add_def)
  have "registered out ?s m st" if "registered out s m st" for m st
    using that assms(2) unfolding registered_def view
    by (cases st) (auto split: task_wait.splits)
  with assms(1,3) show ?thesis unfolding reg_def view by auto
qed

lemma steady_spawn [reg_intros]:
  "steady (spawn_in_scope ho parent k machine program floor i :: ('x, 'w, task_handle) sched)"
proof (rule steadyI)
  fix out :: "'x held" and s :: "('x, 'w) scheduler"
  assume ok: "sim out s" "reg none out s"
  then have fresh: "view out s (sc_next_task s) = None" by (auto simp: sim_def ids_ok_def)
  show "wp (spawn_in_scope ho parent k machine program floor i) (\<lambda>r s'. \<not> panics r \<longrightarrow> reg none out s') s"
    unfolding spawn_in_scope_def child_in_scope_def
    using ok(2) fresh
    by (auto simp: wp_simps checked_succ_def task_new_def intro!: wp_shost reg_intros reg_push reg_upd_group
      reg_new_task split: option.splits)
qed (rule sim_intros)

section \<open>Slots and admission\<close>

lemma change_active_from_reg: "reg E out s \<Longrightarrow> wp (change_active_from fuel k inc) (\<lambda>r s'. reg E out s') s"
proof (induction fuel arbitrary: k s)
  case 0
  then show ?case by (simp add: wp_def sfail_def)
next
  case (Suc fuel)
  have step: "wp (case p of None \<Rightarrow> sret () | Some q \<Rightarrow> change_active_from fuel q inc) (\<lambda>r s'. reg E out s')
      (upd_group k (\<lambda>g. g\<lparr>g_active := f g\<rparr>) s)" for p f
  proof -
    have "reg E out (upd_group k (\<lambda>g. g\<lparr>g_active := f g\<rparr>) s)" using Suc.prems by (rule reg_upd_group) simp
    then show ?thesis using Suc.IH by (cases p) (simp_all add: wp_prims)
  qed
  show ?case
    using Suc.prems step [of _ "\<lambda>g. g_active g + 1"] step [of _ "\<lambda>g. g_active g - 1"]
    unfolding wp_def
    by (auto simp: group_at_def sbind_def sread_def supd_def sfail_def split: option.splits sum.splits)
qed

lemma change_active_reg:
  assumes "reg E out s"
  shows "wp (change_active k inc) (\<lambda>r s'. reg E out s') s"
  using change_active_from_reg [OF assms] by (simp add: wp_def change_active_def)

lemma release_slot_reg:
  assumes "reg E out s" "\<And>r s'. reg E out s' \<Longrightarrow> Q r s'"
  shows "wp (release_slot n t) Q s"
proof -
  have "wp (change_active (t_scope t) False) Q (upd_task n (\<lambda>t. t\<lparr>t_active_slot := False\<rparr>) s)"
    by (rule wp_mono [OF change_active_reg [of E out]]) (use assms in \<open>auto intro!: reg_upd_task\<close>)
  then show ?thesis using assms by (auto simp: release_slot_def wp_simps)
qed

lemma take_slots_reg: "reg E out s \<Longrightarrow> wp (take_slots ns) (\<lambda>r s'. reg E out s') s"
proof (induction ns arbitrary: s)
  case (Cons n ns)
  let ?s = "upd_task n (\<lambda>t. t\<lparr>t_active_slot := True\<rparr>) s"
  have "reg E out ?s" using Cons.prems by (rule reg_upd_task) simp_all
  then have "wp (change_active k True) (\<lambda>r s'. case r of Inl e \<Rightarrow> reg E out s'
      | Inr x \<Rightarrow> wp (take_slots ns) (\<lambda>r s'. reg E out s') s') ?s" for k
    by (rule wp_mono [OF change_active_reg]) (auto intro: Cons.IH split: sum.splits)
  then show ?case using Cons.prems by (auto simp: wp_simps task_at_def split: sum.splits option.splits)
qed (simp add: wp_prims)

lemma steady_serialize_invocation [reg_intros]: "steady (serialize_invocation :: ('x, 'w, nat) sched)"
proof (rule steadyI)
  fix out :: "'x held" and s :: "('x, 'w) scheduler"
  assume ok: "reg none out s"
  let ?f = "\<lambda>g. g\<lparr>g_concurrency := 1, g_serialize_host_actions := True, g_serial_task_admission := True\<rparr>"
  have "reg none out (upd_group k ?f s)" for k using ok by (rule reg_upd_group) simp
  then have slots: "wp (take_slots ns) (\<lambda>r s'. reg none out s') (upd_group k ?f s)" for k ns by (rule take_slots_reg)
  show "wp serialize_invocation (\<lambda>r s'. \<not> panics r \<longrightarrow> reg none out s') s"
    using ok
    by (auto simp: serialize_invocation_def wp_sbind wp_prims split: sum.splits option.splits prod.splits
      intro!: wp_mono [OF slots [simplified]])
qed (rule sim_intros)

lemma reg_pop_ready:
  assumes "reg none out s" "sc_ready s = n # rest"
  shows "reg (\<lambda>m st. m = n \<and> st = Ready) out (s\<lparr>sc_ready := rest\<rparr>)"
  using assms unfolding reg_def by (auto simp: registered_def split: task_state.splits task_wait.splits)

lemma reg_settled:
  assumes "reg (\<lambda>m st. m = n \<and> st = Ready) out s" "view out s n = Some t" "t_state t \<noteq> Ready"
  shows "reg none out s"
  using assms unfolding reg_def by fastforce

lemma acquire_waiting: "acquire g n ks = (b, g') \<Longrightarrow> rg_waiting g' = rg_waiting g"
  by (rule acquire_lookup(3))

lemma dispatch_one_reg:
  assumes "sim out s" "reg (\<lambda>m st. m = n \<and> st = Ready) out s"
  shows "wp (dispatch_one n) (\<lambda>r s'. \<not> panics r \<longrightarrow> reg none out s') s"
proof (cases "RBT.lookup (sc_tasks s) n")
  case None
  then show ?thesis by (simp add: dispatch_one_def wp_simps task_at_def)
next
  case (Some t)
  let ?E = "\<lambda>m st. m = n \<and> st = Ready"
  obtain granted r where acq: "acquire (sc_resources s) n (t_resource_keys t) = (granted, r)" by fastforce
  have got: "reg ?E out (s\<lparr>sc_resources := r\<rparr>)"
    using assms(2) by (rule reg_resources) (rule acquire_waiting [OF acq])
  have look: "RBT.lookup (sc_tasks (s\<lparr>sc_resources := r\<rparr>)) n = Some t" using Some by simp
  have running: "reg none out (upd_task n (\<lambda>t. t\<lparr>t_state := Running\<rparr>) (s\<lparr>sc_resources := r\<rparr>))"
  proof (rule reg_settled [of n _ _ "t\<lparr>t_state := Running\<rparr>"])
    show "reg ?E out (upd_task n (\<lambda>t. t\<lparr>t_state := Running\<rparr>) (s\<lparr>sc_resources := r\<rparr>))"
      by (rule reg_set_state_same [OF got look]) (simp_all add: registered_def)
  qed (simp_all add: view_upd_task Some)
  have slot: "wp (change_active k True) (\<lambda>r s'. reg none out s') (upd_task n (\<lambda>t. t\<lparr>t_active_slot := True\<rparr>)
      (upd_task n (\<lambda>t. t\<lparr>t_state := Running\<rparr>) (s\<lparr>sc_resources := r\<rparr>)))" for k
    by (rule change_active_reg) (rule reg_upd_task [OF running]; simp)
  let ?w = "upd_task n (\<lambda>t. t\<lparr>t_state := Waiting (WaitResource n)\<rparr>) (s\<lparr>sc_resources := r\<rparr>)"
  have waiting: "reg none out (?w\<lparr>sc_resources := r\<lparr>rg_waiting := rg_waiting r @ [n],
      rg_events := rg_events r @ [WaitingFor n n]\<rparr>\<rparr>)" (is "reg none out ?v")
  proof (rule reg_settled [of n _ _ "t\<lparr>t_state := Waiting (WaitResource n)\<rparr>"])
    show "reg ?E out ?v"
    proof (rule reg_discharge [where st = "Waiting (WaitResource n)"])
      have "grows out ?w ?v" by (auto simp: grows_def)
      then show "reg (\<lambda>m st. (m = n \<and> st = Ready) \<or> m = n \<and> st = Waiting (WaitResource n)) out ?v"
        using reg_grows [OF reg_set_state [OF got look, of "Waiting (WaitResource n)"]] by simp
    qed (simp add: registered_def)
  qed (simp_all add: view_upd_task Some)
  have stay: "reg none out s" if "t_state t \<noteq> Ready"
    using reg_settled [OF assms(2) view_lookup [OF Some] that] .
  have again: "reg none out (push_ready n s)" using assms(2) by (intro reg_push) simp
  obtain b where "can_admit (t_scope t) s = Ok b"
    using ancestor_spec [OF sim_scopes [OF assms(1)] sim_task_scope [OF assms(1) Some]] by (auto simp: can_admit_def)
  then show ?thesis
    using Some acq running waiting stay again
    by (auto simp: dispatch_one_def wp_simps task_at_def split: sum.splits intro!: wp_mono [OF slot])
qed

lemma steady_dispatch_loop: "steady (dispatch_loop k :: ('x, 'w, task_handle option) sched)"
proof (induction k)
  case (Suc k)
  show ?case
  proof (rule steadyI)
    fix out :: "'x held" and s :: "('x, 'w) scheduler"
    assume ok: "sim out s" "reg none out s"
    show "wp (dispatch_loop (Suc k)) (\<lambda>r s'. \<not> panics r \<longrightarrow> reg none out s') s"
    proof (cases "sc_ready s")
      case Nil
      then show ?thesis by (simp add: wp_simps)
    next
      case (Cons n rest)
      let ?s = "s\<lparr>sc_ready := rest\<rparr>"
      have got: "goes out ?s ?s" using goes_book(1) [OF goes_refl [OF ok(1)]] by (rule goes_sim [THEN goes_refl])
      have one: "wp (dispatch_one n) (\<lambda>r s'. goes out ?s s' \<and> (\<not> panics r \<longrightarrow> reg none out s')) ?s"
        by (rule wp_conj [OF simulatedD [OF simulated_dispatch_one got]
          dispatch_one_reg [OF goes_sim [OF got] reg_pop_ready [OF ok(2) Cons]]])
      have rest: "wp (dispatch_loop k) (\<lambda>r s'. \<not> panics r \<longrightarrow> reg none out s') s'"
        if "goes out ?s s'" "reg none out s'" for s'
        using Suc.IH goes_sim [OF that(1)] that(2) by (simp add: steady_def)
      have "wp (sbind (dispatch_one n) (\<lambda>y. case y of None \<Rightarrow> dispatch_loop k | Some h \<Rightarrow> sret (Some h)))
          (\<lambda>r s'. \<not> panics r \<longrightarrow> reg none out s') ?s"
      proof (rule wp_bind [OF one])
        fix y :: "task_handle option" and s' :: "('x, 'w) scheduler"
        assume "goes out ?s s' \<and> (\<not> panics (Ok y :: 'x sched_error + task_handle option) \<longrightarrow> reg none out s')"
        then show "wp (case y of None \<Rightarrow> dispatch_loop k | Some h \<Rightarrow> sret (Some h)) (\<lambda>r s'. \<not> panics r \<longrightarrow> reg none out s') s'"
          using rest by (cases y) (simp_all add: wp_prims)
      qed (simp add: panics_def)
      then show ?thesis using Cons by (simp add: wp_sbind wp_prims)
    qed
  qed (rule sim_intros)
qed (simp add: reg_intros)

lemma steady_dispatch_ready [reg_intros]: "steady dispatch_ready"
proof (rule steadyI)
  fix out :: "'x held" and s :: "('x, 'w) scheduler"
  assume "sim out s" "reg none out s"
  moreover from this have "wp (dispatch_loop (length (sc_ready s))) (\<lambda>r s'. \<not> panics r \<longrightarrow> reg none out s') s"
    using steady_dispatch_loop unfolding steady_def by blast
  ultimately show "wp dispatch_ready (\<lambda>r s'. \<not> panics r \<longrightarrow> reg none out s') s"
    by (simp add: wp_def dispatch_ready_def)
qed (rule sim_intros)

section \<open>Waiting\<close>

text \<open>The end of a method that parks or requeues a task: the slot is given up.\<close>

lemma release_parked:
  assumes "sim out s" "RBT.lookup (sc_tasks s) n = Some t" "edge (t_state t) st" "\<not> busy st"
    and "reg E out (upd_task n (\<lambda>t. t\<lparr>t_state := st\<rparr>) s)" "\<And>s'. reg E out s' \<Longrightarrow> Q (Ok ()) s'"
  shows "wp (release_slot n t) Q (upd_task n (\<lambda>t. t\<lparr>t_state := st\<rparr>) s)"
proof -
  have "wp (release_slot n t) (\<lambda>r s'. r = Ok ()) (upd_task n (\<lambda>t. t\<lparr>t_state := st\<rparr>) s)"
    by (rule release_simulated [OF goes_refl [OF assms(1)] assms(2-4)]) simp
  moreover have "wp (release_slot n t) (\<lambda>r s'. reg E out s') (upd_task n (\<lambda>t. t\<lparr>t_state := st\<rparr>) s)"
    using assms(5) by (rule release_slot_reg)
  ultimately show ?thesis by (rule wp_mono [OF wp_conj]) (use assms(6) in auto)
qed

lemma steady_requeue [reg_intros]: "steady (requeue h :: ('x, 'w, unit) sched)"
proof (rule steadyI)
  fix out :: "'x held" and s :: "('x, 'w) scheduler"
  assume ok: "sim out s" "reg none out s"
  let ?E = "\<lambda>m st. m = h_task h \<and> st = Ready"
  have moved: "reg ?E out (upd_task (h_task h) (\<lambda>t. t\<lparr>t_state := Ready\<rparr>) s)"
    if "RBT.lookup (sc_tasks s) (h_task h) = Some t" for t
    using reg_set_state [OF ok(2) that, of Ready] by simp
  have pushed: "reg none out (push_ready (h_task h) s')" if "reg ?E out s'" for s' :: "('x, 'w) scheduler"
    using that by (intro reg_push) simp
  show "wp (requeue h) (\<lambda>r s'. \<not> panics r \<longrightarrow> reg none out s') s"
    using ok(2)
    by (auto simp: requeue_def wp_sbind wp_prims wp_with_task edge_def busy_def
      intro!: release_parked [OF ok(1) _ _ _ moved] pushed moved split: option.splits sum.splits)
qed (rule sim_intros)

lemma steady_wait_for_host [reg_intros]: "steady (wait_for_host h i :: ('x, 'w, unit) sched)"
proof (rule steadyI)
  fix out :: "'x held" and s :: "('x, 'w) scheduler"
  assume ok: "reg none out s"
  have moved: "reg none out (upd_task (h_task h) (\<lambda>t. t\<lparr>t_state := Waiting (WaitHost i)\<rparr>) s)"
    if "RBT.lookup (sc_tasks s) (h_task h) = Some t" for t
    by (rule reg_set_state_same [OF ok that]) (simp_all add: registered_def)
  show "wp (wait_for_host h i) (\<lambda>r s'. \<not> panics r \<longrightarrow> reg none out s') s"
    using ok
    by (auto simp: wait_for_host_def wp_sbind wp_prims wp_with_task intro!: release_slot_reg [OF moved] moved
      split: option.splits sum.splits)
qed (rule sim_intros)

lemma steady_wait_for_cpu [reg_intros]: "steady (wait_for_cpu h i :: ('x, 'w, unit) sched)"
proof (rule steadyI)
  fix out :: "'x held" and s :: "('x, 'w) scheduler"
  assume ok: "reg none out s"
  have "reg none out (upd_task (h_task h) (\<lambda>t. t\<lparr>t_state := Waiting (WaitCpu i)\<rparr>) s)"
    if "RBT.lookup (sc_tasks s) (h_task h) = Some t" for t
    by (rule reg_set_state_same [OF ok that]) (simp_all add: registered_def)
  then show "wp (wait_for_cpu h i) (\<lambda>r s'. \<not> panics r \<longrightarrow> reg none out s') s"
    using ok by (auto simp: wait_for_cpu_def wp_simps split: option.splits)
qed (rule sim_intros)

lemma reg_wake:
  assumes "reg E out s" "RBT.lookup (sc_tasks s) n = Some t"
  shows "reg E out (push_ready n (upd_task n (\<lambda>t. t\<lparr>t_state := Ready\<rparr>) s))"
  by (rule reg_push) (rule reg_set_state [OF assms], simp)

lemma steady_wake_from_host [reg_intros]: "steady (wake_from_host h i :: ('x, 'w, unit) sched)"
  by (rule steadyI [OF simulated_wake_from_host]) (auto simp: wake_from_host_def wp_simps intro!: reg_wake split: option.splits)

lemma steady_await_scope [reg_intros]: "steady (await_scope h k :: ('x, 'w, 'x decision) sched)"
proof (rule steadyI)
  fix out :: "'x held" and s :: "('x, 'w) scheduler"
  assume ok: "reg none out s"
  let ?s = "upd_group k (\<lambda>g. g\<lparr>g_waiters := g_waiters g @ [h_task h]\<rparr>) s"
  have grown: "reg none out ?s" using ok by (rule reg_upd_group) auto
  have moved: "reg none out (upd_task (h_task h) (\<lambda>t. t\<lparr>t_state := Waiting (WaitScope k)\<rparr>) ?s)"
    if "RBT.lookup (sc_tasks s) (h_task h) = Some t" "RBT.lookup (sc_groups s) k = Some g" for t g
    by (rule reg_set_state_same [OF grown, of _ t]) (use that in \<open>simp_all add: registered_def\<close>)
  show "wp (await_scope h k) (\<lambda>r s'. \<not> panics r \<longrightarrow> reg none out s') s"
    using ok
    by (auto simp: await_scope_def wp_sbind wp_prims wp_with_task intro!: release_slot_reg [OF moved]
      split: option.splits sum.splits)
qed (rule sim_intros)

lemma steady_await_task [reg_intros]: "steady (await_task w h :: ('x, 'w, 'x decision) sched)"
proof (rule steadyI)
  fix out :: "'x held" and s :: "('x, 'w) scheduler"
  assume ok: "sim out s" "reg none out s"
  let ?s = "upd_task (h_task h) (\<lambda>x. x\<lparr>t_waiters := t_waiters x @ [h_task w]\<rparr>) s"
  have grown: "reg none out ?s" using ok(2) by (rule reg_upd_task) auto
  have moved: "reg none out (upd_task (h_task w) (\<lambda>t. t\<lparr>t_state := Waiting (WaitTask (h_task h))\<rparr>) ?s)"
    if t: "RBT.lookup (sc_tasks s) (h_task w) = Some t" "RBT.lookup (sc_tasks s) (h_task h) = Some u" "t_outcome u = None"
    for t u
  proof -
    have "\<not> is_terminal (t_state u)" using sim_task_ok [OF ok(1) t(2)] t(3) by (simp add: task_ok_def)
    obtain t' where "RBT.lookup (sc_tasks ?s) (h_task w) = Some t'"
      using t by (cases "h_task w = h_task h") auto
    then show ?thesis
      by (rule reg_set_state_same [OF grown])
        (use t \<open>\<not> is_terminal (t_state u)\<close> in \<open>auto simp: registered_def view_upd_task\<close>)
  qed
  show "wp (await_task w h) (\<lambda>r s'. \<not> panics r \<longrightarrow> reg none out s') s"
    using ok(2)
    by (auto simp: await_task_def wp_sbind wp_prims resolve_id_def task_at_def
      intro!: release_slot_reg [OF moved] split: option.splits sum.splits)
qed (rule sim_intros)

section \<open>Waking\<close>

lemma reg_narrow:
  assumes "reg E out s" "\<And>m t. view out s m = Some t \<Longrightarrow> E m (t_state t) \<Longrightarrow> E' m (t_state t)"
  shows "reg E' out s"
  using assms unfolding reg_def by blast

lemma wake_task_reg:
  assumes "reg E out s" "RBT.lookup (sc_tasks s) n = Some t"
  shows "wp (wake_task n k) (\<lambda>r s'. r = Ok () \<and> reg (\<lambda>m st. E m st \<and> m \<noteq> n) out s') s"
proof -
  let ?s = "push_wakeup n k (push_ready n (upd_task n (\<lambda>t. t\<lparr>t_state := Ready\<rparr>) s))"
  have "reg E out ?s" by (intro reg_book reg_wake [OF assms])
  moreover have "registered out ?s n (t_state u)" if "view out ?s n = Some u" for u
    using that assms(2) by (auto simp: registered_def view_def push_wakeup_def push_ready_def)
  ultimately have "reg (\<lambda>m st. E m st \<and> m \<noteq> n) out ?s" unfolding reg_def by blast
  then show ?thesis by (simp add: wake_task_def wp_simps)
qed

lemma wake_task_waiters_reg:
  assumes "reg (\<lambda>m st. m \<in> set ws \<and> st = Waiting (WaitTask (h_task h))) out s"
  shows "wp (wake_task_waiters ws h x) (\<lambda>r s'. \<not> panics r \<longrightarrow> reg none out s') s"
  using assms
proof (induction ws arbitrary: s)
  case (Cons w ws)
  show ?case
  proof (cases "RBT.lookup (sc_tasks s) w")
    case None
    then show ?thesis by (simp add: wp_simps task_at_def)
  next
    case (Some t)
    let ?E = "\<lambda>ws m st. m \<in> set ws \<and> st = Waiting (WaitTask (h_task h))"
    have skip: "reg (?E ws) out s" if "t_state t \<noteq> Waiting (WaitTask (h_task h))"
      by (rule reg_narrow [OF Cons.prems]) (use that view_lookup [OF Some, of out] in auto)
    have woken: "wp (wake_task w (WakeTask h x)) (\<lambda>r s'. r = Ok () \<and> reg (?E ws) out s') s"
      by (rule wp_mono [OF wake_task_reg [OF Cons.prems Some]]) (auto elim: reg_weaken)
    show ?thesis
      using Some skip Cons.IH
      by (auto simp: wp_sbind wp_prims task_at_def intro!: wp_mono [OF woken])
  qed
qed (simp add: wp_prims)

lemma wake_scope_waiters_reg:
  assumes "reg (\<lambda>m st. m \<in> set ws \<and> st = Waiting (WaitScope k)) out s"
  shows "wp (wake_scope_waiters ws k x) (\<lambda>r s'. \<not> panics r \<longrightarrow> reg none out s') s"
  using assms
proof (induction ws arbitrary: s)
  case (Cons w ws)
  show ?case
  proof (cases "RBT.lookup (sc_tasks s) w")
    case None
    then show ?thesis by (simp add: wp_simps task_at_def)
  next
    case (Some t)
    let ?E = "\<lambda>ws m st. m \<in> set ws \<and> st = Waiting (WaitScope k)"
    have skip: "reg (?E ws) out s" if "t_state t \<noteq> Waiting (WaitScope k)"
      by (rule reg_narrow [OF Cons.prems]) (use that view_lookup [OF Some, of out] in auto)
    have woken: "wp (wake_task w (WakeScope k x)) (\<lambda>r s'. r = Ok () \<and> reg (?E ws) out s') s"
      by (rule wp_mono [OF wake_task_reg [OF Cons.prems Some]]) (auto elim: reg_weaken)
    show ?thesis
      using Some skip Cons.IH
      by (auto simp: wp_sbind wp_prims task_at_def intro!: wp_mono [OF woken])
  qed
qed (simp add: wp_prims)

lemma reg_clear_scope:
  assumes "reg none out s" "RBT.lookup (sc_groups s) k = Some g"
  shows "reg (\<lambda>m st. m \<in> set (g_waiters g) \<and> st = Waiting (WaitScope k)) out (upd_group k (\<lambda>g. g\<lparr>g_waiters := []\<rparr>) s)"
  unfolding reg_def
proof (intro allI impI)
  let ?s = "upd_group k (\<lambda>g. g\<lparr>g_waiters := []\<rparr>) s"
  fix m t
  assume "view out ?s m = Some t"
  then have "registered out s m (t_state t)" using assms(1) by (simp add: reg_def)
  then show "registered out ?s m (t_state t) \<or> m \<in> set (g_waiters g) \<and> t_state t = Waiting (WaitScope k)"
    using assms(2) by (auto simp: registered_def split: task_state.splits task_wait.splits)
qed

lemma wake_scope_if_settled_reg:
  assumes "reg none out s"
  shows "wp (wake_scope_if_settled k) (\<lambda>r s'. \<not> panics r \<longrightarrow> reg none out s') s"
  using assms
  by (auto simp: wake_scope_if_settled_def wp_sbind wp_prims group_at_def split: sum.splits option.splits
    intro!: wake_scope_waiters_reg reg_clear_scope)

lemma wake_resource_waiters_reg:
  assumes "reg E out s"
  shows "wp (wake_resource_waiters k) (\<lambda>r s'. \<not> panics r \<longrightarrow> r = Ok () \<and> reg E out s') s"
  using assms
proof (induction k arbitrary: s)
  case (Suc k)
  show ?case
  proof (cases "rg_waiting (sc_resources s)")
    case Nil
    then show ?thesis by (simp add: wp_simps)
  next
    case (Cons n ns)
    let ?E = "\<lambda>m st. E m st \<or> m = n \<and> (\<exists>i. st = Waiting (WaitResource i))"
    let ?s = "s\<lparr>sc_resources := (sc_resources s)\<lparr>rg_waiting := ns\<rparr>\<rparr>"
    have popped: "reg ?E out ?s"
      using Suc.prems Cons unfolding reg_def
      by (auto simp: registered_def split: task_state.splits task_wait.splits)
    show ?thesis
    proof (cases "RBT.lookup (sc_tasks s) n")
      case None
      then show ?thesis using Cons by (simp add: wp_simps task_at_def)
    next
      case (Some t)
      show ?thesis
      proof (cases "\<exists>i. t_state t = Waiting (WaitResource i)")
        case False
        have "reg E out ?s"
          by (rule reg_narrow [OF popped]) (use False view_lookup [OF Some, of out] in auto)
        then have "wp (wake_resource_waiters k) (\<lambda>r s'. \<not> panics r \<longrightarrow> r = Ok () \<and> reg E out s') ?s" by (rule Suc.IH)
        then show ?thesis
          using Some Cons False by (auto simp: wp_sbind wp_prims task_at_def split: task_state.splits task_wait.splits)
      next
        case True
        obtain granted r where acq: "acquire (sc_resources ?s) n (t_resource_keys t) = (granted, r)" by fastforce
        have waiting: "rg_waiting r = ns" using acquire_waiting [OF acq] by simp
        have got: "reg ?E out (s\<lparr>sc_resources := r\<rparr>)"
          using reg_resources [OF popped, of r] waiting by simp
        have look: "RBT.lookup (sc_tasks (s\<lparr>sc_resources := r\<rparr>)) n = Some t" using Some by simp
        have woken: "reg E out (push_ready n (upd_task n (\<lambda>t. t\<lparr>t_state := Ready\<rparr>) (s\<lparr>sc_resources := r\<rparr>)))"
          by (rule reg_narrow [OF reg_wake [OF got look]]) (auto simp: view_def push_ready_def Some)
        have kept: "reg E out (s\<lparr>sc_resources := r\<lparr>rg_waiting := ns @ [n]\<rparr>\<rparr>)"
        proof -
          have "grows out (s\<lparr>sc_resources := r\<rparr>) (s\<lparr>sc_resources := r\<lparr>rg_waiting := ns @ [n]\<rparr>\<rparr>)"
            by (auto simp: grows_def waiting)
          from reg_grows [OF got this] show ?thesis
            unfolding reg_def by (fastforce simp: registered_def)
        qed
        show ?thesis
          using Some Cons True acq woken kept waiting Suc.IH
          by (auto simp: wp_sbind wp_prims task_at_def)
      qed
    qed
  qed
qed (simp add: wp_prims)

section \<open>Finishing\<close>

lemma reg_finish:
  assumes "reg none out s" "view out s n = Some t" "view out s1 = (view out s)(n \<mapsto> u)" "is_terminal (t_state u)"
    and "sc_groups s1 = sc_groups s" "sc_ready s1 = sc_ready s" "sc_resources s1 = sc_resources s"
  shows "reg (\<lambda>m st. m \<in> set (t_waiters t) \<and> st = Waiting (WaitTask n)) out s1"
  unfolding reg_def
proof (intro allI impI)
  fix m x
  assume x: "view out s1 m = Some x"
  show "registered out s1 m (t_state x) \<or> m \<in> set (t_waiters t) \<and> t_state x = Waiting (WaitTask n)"
  proof (cases "m = n")
    case True
    then have "is_terminal (t_state x)" using x assms(3,4) by simp
    then show ?thesis by (auto simp: registered_def is_terminal_def split: task_state.splits)
  next
    case False
    then have "registered out s m (t_state x)" using x assms(1,3) by (simp add: reg_def)
    then show ?thesis
      using assms(2-7) by (auto simp: registered_def split: task_state.splits task_wait.splits)
  qed
qed

lemma change_active_from_panics: "wp (change_active_from fuel k inc) (\<lambda>r s'. r = Ok () \<or> panics r) s"
proof (induction fuel arbitrary: k s)
  case 0
  then show ?case by (simp add: wp_def sfail_def)
next
  case (Suc fuel)
  have step: "wp (case p of None \<Rightarrow> sret () | Some q \<Rightarrow> change_active_from fuel q inc) (\<lambda>r s'. r = Ok () \<or> panics r) s"
    for p and s :: "('a, 'b) scheduler"
    using Suc.IH by (cases p) (simp_all add: wp_prims)
  show ?case
    using step unfolding wp_def
    by (auto simp: group_at_def sbind_def sread_def supd_def sfail_def split: option.splits sum.splits)
qed

lemma change_active_reg_then:
  assumes "reg E out s" "\<And>s'. reg E out s' \<Longrightarrow> wp (f ()) Q s'" "\<And>message s'. Q (Err (SchedPanic message)) s'"
  shows "wp (sbind (if b then change_active k False else sret ()) f) Q s"
proof (rule wp_bind)
  have "wp (change_active k False) (\<lambda>r s'. r = Ok () \<or> panics r) s"
    using change_active_from_panics by (simp add: wp_def change_active_def)
  from wp_conj [OF this change_active_reg [OF assms(1)]]
  show "wp (if b then change_active k False else sret ()) (\<lambda>r s'. (r = Ok () \<or> panics r) \<and> reg E out s') s"
    using assms(1) by (simp add: wp_prims)
qed (use assms(2,3) in \<open>auto simp: panics_def\<close>)

definition steady_ok :: "('x, 'w, 'a) sched \<Rightarrow> bool" where
  "steady_ok m \<longleftrightarrow> simulated_ok m \<and>
     (\<forall>out s. sim out s \<longrightarrow> reg none out s \<longrightarrow> wp m (\<lambda>r s'. \<not> panics r \<longrightarrow> hostless r \<longrightarrow> reg none out s') s)"

lemma finish_tail_reg:
  assumes "reg (\<lambda>m st. m \<in> set (t_waiters t) \<and> st = Waiting (WaitTask (h_task h))) out s"
  shows "wp (sbind (supd (\<lambda>s. s\<lparr>sc_resources := release (sc_resources s) (h_task h)\<rparr>)) (\<lambda>_.
      sbind (sget (\<lambda>s. length (rg_waiting (sc_resources s)))) (\<lambda>queued.
      sbind (wake_resource_waiters queued) (\<lambda>_.
      sbind (wake_task_waiters (t_waiters t) h x) (\<lambda>_. wake_scope_if_settled (t_scope t))))))
    (\<lambda>r s'. \<not> panics r \<longrightarrow> reg none out s') s"
proof (rule wp_upd_bind)
  let ?E = "\<lambda>m st. m \<in> set (t_waiters t) \<and> st = Waiting (WaitTask (h_task h))"
  let ?s = "s\<lparr>sc_resources := release (sc_resources s) (h_task h)\<rparr>"
  have "reg ?E out ?s" using assms by (rule reg_resources) simp
  then have "wp (wake_resource_waiters k) (\<lambda>r s'. \<not> panics r \<longrightarrow> r = Ok () \<and> reg ?E out s') ?s" for k
    by (rule wake_resource_waiters_reg)
  then have "wp (sbind (wake_resource_waiters k) (\<lambda>_.
      sbind (wake_task_waiters (t_waiters t) h x) (\<lambda>_. wake_scope_if_settled (t_scope t))))
    (\<lambda>r s'. \<not> panics r \<longrightarrow> reg none out s') ?s" for k
  proof (rule wp_bind)
    fix y :: unit and s'
    assume "\<not> panics (Ok y :: 'a sched_error + unit) \<longrightarrow> (Ok y :: 'a sched_error + unit) = Ok () \<and> reg ?E out s'"
    then have "wp (wake_task_waiters (t_waiters t) h x) (\<lambda>r s'. \<not> panics r \<longrightarrow> reg none out s') s'"
      by (intro wake_task_waiters_reg) simp
    then show "wp (sbind (wake_task_waiters (t_waiters t) h x) (\<lambda>_. wake_scope_if_settled (t_scope t)))
        (\<lambda>r s'. \<not> panics r \<longrightarrow> reg none out s') s'"
      by (rule wp_bind) (auto intro: wake_scope_if_settled_reg)
  qed simp
  then show "wp (sbind (sget (\<lambda>s. length (rg_waiting (sc_resources s)))) (\<lambda>queued.
      sbind (wake_resource_waiters queued) (\<lambda>_.
      sbind (wake_task_waiters (t_waiters t) h x) (\<lambda>_. wake_scope_if_settled (t_scope t)))))
    (\<lambda>r s'. \<not> panics r \<longrightarrow> reg none out s') ?s"
    by (simp add: wp_sbind wp_prims)
qed

lemma terminal_reg:
  assumes "reg none out s"
  shows "wp (terminal ho h x) (\<lambda>r s'. \<not> panics r \<longrightarrow> hostless r \<longrightarrow> reg none out s') s"
proof -
  let ?s = "s\<lparr>sc_continuations := dispose_origin (sc_continuations s) (Scheduled (h_task h))\<rparr>"
  have disposed: "reg none out ?s" using assms by (rule reg_book)
  show ?thesis
  proof (cases "\<exists>t. RBT.lookup (sc_tasks s) (h_task h) = Some t \<and> h_owner h = t_scope t \<and> \<not> is_terminal (t_state t)")
    case False
    then consider "RBT.lookup (sc_tasks s) (h_task h) = None"
      | t where "RBT.lookup (sc_tasks s) (h_task h) = Some t" "h_owner h \<noteq> t_scope t"
      | t where "RBT.lookup (sc_tasks s) (h_task h) = Some t" "h_owner h = t_scope t" "is_terminal (t_state t)"
      by blast
    then show ?thesis
      by cases (simp_all add: terminal_def wp_sbind wp_prims resolve_id_def task_at_def disposed assms)
  next
    case True
    then obtain t where t: "RBT.lookup (sc_tasks s) (h_task h) = Some t" "h_owner h = t_scope t"
      "\<not> is_terminal (t_state t)" by blast
    let ?s1 = "\<lambda>w. upd_task (h_task h) (\<lambda>t. t\<lparr>t_state := outcome_state x, t_outcome := Some x, t_waiters := []\<rparr>)
      ((upd_task (h_task h) (\<lambda>t. t\<lparr>t_active_slot := False\<rparr>) ?s)\<lparr>sc_world := w\<rparr>)"
    have "reg (\<lambda>m st. m \<in> set (t_waiters t) \<and> st = Waiting (WaitTask (h_task h))) out (?s1 w)" for w
    proof (rule reg_finish [OF assms view_lookup [OF t(1)]])
      show "view out (?s1 w) = (view out s)(h_task h \<mapsto>
          t\<lparr>t_active_slot := False, t_state := outcome_state x, t_outcome := Some x, t_waiters := []\<rparr>)"
        by (auto simp: view_upd_task t(1) fun_eq_iff)
    qed (simp_all add: upd_task_def)
    then have ended: "wp (sbind (if t_active_slot t then change_active (t_scope t) False else sret ()) (\<lambda>_.
        sbind (supd (\<lambda>s. s\<lparr>sc_resources := release (sc_resources s) (h_task h)\<rparr>)) (\<lambda>_.
        sbind (sget (\<lambda>s. length (rg_waiting (sc_resources s)))) (\<lambda>queued.
        sbind (wake_resource_waiters queued) (\<lambda>_.
        sbind (wake_task_waiters (t_waiters t) h x) (\<lambda>_. wake_scope_if_settled (t_scope t)))))))
      (\<lambda>r s'. \<not> panics r \<longrightarrow> hostless r \<longrightarrow> reg none out s') (?s1 w)" for w
      by (rule change_active_reg_then) (rule wp_mono [OF finish_tail_reg], auto)
    show ?thesis
      unfolding terminal_def
    proof (rule wp_read_bind [of _ _ "h_task h"], goal_cases)
      case 2
      show ?case
      proof (rule wp_upd_bind, rule wp_read_bind [of _ _ t], goal_cases)
        case 2
        show ?case
          unfolding if_not_P [OF t(3)]
        proof (rule wp_upd_bind, rule wp_host_bind, goal_cases)
          case (2 y w)
          show ?case by (rule wp_upd_bind) (rule ended)
        qed simp
      qed (simp add: task_at_def t)
    qed (simp add: resolve_id_def t)
  qed
qed

lemma steady_okI: "steady m \<Longrightarrow> steady_ok m"
  unfolding steady_def steady_ok_def using simulated_ok by (blast intro: wp_mono)

lemma steady_ok_wp:
  assumes "steady_ok m" "sim out s" "reg none out s"
  shows "wp m (\<lambda>r s'. (hostless r \<longrightarrow> goes out s s') \<and> (\<not> panics r \<longrightarrow> hostless r \<longrightarrow> reg none out s')) s"
proof (rule wp_conj)
  show "wp m (\<lambda>r s'. hostless r \<longrightarrow> goes out s s') s"
    using assms(1) by (intro simulated_okD goes_refl assms(2)) (simp add: steady_ok_def)
  show "wp m (\<lambda>r s'. \<not> panics r \<longrightarrow> hostless r \<longrightarrow> reg none out s') s"
    using assms by (simp add: steady_ok_def)
qed

lemma steady_ok_sbind:
  fixes m :: "('x, 'w, 'a) sched" and f :: "'a \<Rightarrow> ('x, 'w, 'b) sched"
  assumes "steady_ok m" "\<And>x. steady_ok (f x)"
  shows "steady_ok (sbind m f)"
  unfolding steady_ok_def
proof (intro conjI allI impI)
  show "simulated_ok (sbind m f)" using assms by (intro simulated_ok_sbind) (simp_all add: steady_ok_def)
  fix out :: "'x held" and s :: "('x, 'w) scheduler"
  assume ok: "sim out s" "reg none out s"
  show "wp (sbind m f) (\<lambda>r s'. \<not> panics r \<longrightarrow> hostless r \<longrightarrow> reg none out s') s"
  proof (rule wp_bind [OF steady_ok_wp [OF assms(1) ok]])
    fix x :: 'a and s' :: "('x, 'w) scheduler"
    assume "(hostless (Ok x :: 'x sched_error + 'a) \<longrightarrow> goes out s s') \<and>
      (\<not> panics (Ok x :: 'x sched_error + 'a) \<longrightarrow> hostless (Ok x :: 'x sched_error + 'a) \<longrightarrow> reg none out s')"
    then have "sim out s'" "reg none out s'" using goes_sim by auto
    then show "wp (f x) (\<lambda>r s'. \<not> panics r \<longrightarrow> hostless r \<longrightarrow> reg none out s') s'"
      using assms(2) [of x] by (simp add: steady_ok_def)
  qed (simp add: panics_def hostless_def)
qed

lemma steady_ok_with_task:
  assumes "\<And>t. steady_ok (f t)"
  shows "steady_ok (with_task h f)"
  unfolding with_task_def using assms by (intro steady_ok_sbind steady_okI [OF steady_prims(2)])

lemma steady_ok_if: "steady_ok m \<Longrightarrow> steady_ok m' \<Longrightarrow> steady_ok (if b then m else m')"
  by simp

lemma steady_ok_terminal: "steady_ok (terminal ho h x)"
  unfolding steady_ok_def using simulated_ok_terminal terminal_reg by blast

lemmas steady_ok_prims = steady_prims [THEN steady_okI] steady_shost [THEN steady_okI]

lemmas steady_ok_intros = steady_ok_sbind steady_ok_with_task steady_ok_if steady_ok_prims steady_ok_terminal

lemma steady_record_primary_failure [reg_intros]: "steady (record_primary_failure k n)"
  unfolding record_primary_failure_def
  by (intro reg_intros; (simp | auto split: option.split intro!: reg_intros))

lemma steady_ok_outcomes:
  "steady_ok (complete ho h v)" "steady_ok (raise ho h args x)" "steady_ok (fail ho h x)"
  "steady_ok (cancelled ho h x)"
  unfolding complete_def raise_def fail_def cancelled_def
  by (intro steady_ok_intros steady_okI [OF steady_record_primary_failure] steady_okI [OF steady_group_passive]; simp)+

lemma steady_ok_cancel: "steady_ok (cancel ho h x)"
proof -
  have cause: "steady_ok (read_cause ho y)" for y
    unfolding read_cause_def by (intro steady_ok_intros)
  have events: "steady_ok (supd (\<lambda>s. s\<lparr>sc_cancellation_events := sc_cancellation_events s @ [(h, x)]\<rparr>))"
    by (intro steady_okI steady_supd) (auto intro: sim_intros reg_intros)
  have finish: "steady_ok (sbind (read_cause ho y) (\<lambda>cause. case cause of
      None \<Rightarrow> sfail (SchedPanic ''cancelled task must publish its cause'') | Some c \<Rightarrow> terminal ho h (Cancelled c)))" for y
    by (intro steady_ok_sbind cause) (auto split: option.split intro: steady_ok_intros)
  show ?thesis
    unfolding cancel_def Let_def
    by (intro steady_ok_intros cause events)
      (auto split: task_state.split task_wait.split intro: finish steady_ok_intros)
qed

lemma steady_ok_cancel_all: "steady_ok (cancel_all ho hs x)"
  by (induction hs) (auto intro!: steady_ok_intros steady_ok_cancel)

lemma steady_ok_cancel_many:
  "steady_ok (cancel_unsettled ho x)" "steady_ok (cancel_scope_unsettled ho k x)"
  unfolding cancel_unsettled_def cancel_scope_unsettled_def
  by (intro steady_ok_intros steady_ok_cancel_all)+

lemma steady_ok_apply_group_policy: "steady_ok (apply_group_policy ho x y h)"
  unfolding apply_group_policy_def
  by (intro steady_ok_intros) (auto split: option.split intro: steady_ok_intros steady_ok_cancel_many)

lemma steady_void: "steady m \<Longrightarrow> steady (void m)"
  unfolding void_def by (intro reg_intros)

lemma run_call_steady: "\<not> finishing c \<Longrightarrow> steady (run_call ho c)"
  by (cases c) (simp_all add: finishing_def steady_void reg_intros)

lemma run_call_steady_ok: "steady_ok (run_call ho c)"
proof (cases "finishing c")
  case True
  then show ?thesis
    by (cases c) (simp_all add: finishing_def steady_ok_outcomes steady_ok_cancel steady_ok_cancel_many
      steady_ok_apply_group_policy)
qed (simp add: run_call_steady steady_okI)

section \<open>Runs\<close>

lemma reg_same_view:
  assumes "reg none out s" "view out' s' = (view out s)(n \<mapsto> u)" "view out s n = Some t"
    and "t_state u = t_state t \<or> edge (t_state t) (t_state u) \<and> registered out s n (t_state u)"
    and "t_waiters u = t_waiters t" "sc_groups s' = sc_groups s" "sc_ready s' = sc_ready s" "sc_resources s' = sc_resources s"
  shows "reg none out' s'"
proof -
  have live: "is_terminal (t_state u) = is_terminal (t_state t)" using assms(4) edge_not_terminal by metis
  have "registered out' s' m st" if "registered out s m st" for m st
    using that assms(2,3,5-8) live
    by (auto simp: registered_def split: task_state.splits task_wait.splits)
  moreover have "registered out s n (t_state u)" using assms(1,3,4) by (auto simp: reg_def)
  ultimately show ?thesis using assms(1,2) by (auto simp: reg_def)
qed

lemma view_take:
  assumes "RBT.lookup (sc_tasks s) n = Some t"
  shows "view (out(n \<mapsto> u)) (remove_task n s) = (view out s)(n \<mapsto> u)"
  by (auto simp: view_def remove_task_def map_add_def fun_eq_iff split: option.splits)

lemma view_restore: "view (out(n := None)) (insert_task n u s) = (view out s)(n \<mapsto> u)"
  by (auto simp: view_def insert_task_def map_add_def fun_eq_iff split: option.splits)

lemma reg_take:
  assumes "reg none out s" "RBT.lookup (sc_tasks s) n = Some t"
    and "t_state u = t_state t \<or> edge (t_state t) (t_state u) \<and> t_state u = Running" "t_waiters u = t_waiters t"
  shows "reg none (out(n \<mapsto> u)) (remove_task n s)"
  using assms(3,4)
  by (intro reg_same_view [OF assms(1) view_take [OF assms(2)] view_lookup [OF assms(2)]])
    (auto simp: registered_def remove_task_def)

lemma reg_restore:
  assumes "sim out s" "reg none out s" "out n = Some t" "t_state u = t_state t" "t_waiters u = t_waiters t"
  shows "reg none (out(n := None)) (insert_task n u s)"
proof -
  have "view out s n = Some t" using assms(1,3) by (auto simp: sim_def ids_ok_def view_def map_add_def split: option.splits)
  then show ?thesis
    using assms(4,5) by (intro reg_same_view [OF assms(2) view_restore]) (auto simp: insert_task_def)
qed

lemma sched_step_reg:
  assumes "sched_step ho x y" "sim (fst x) (snd x)" "reg none (fst x) (snd x)"
  shows "reg none (fst y) (snd y)"
  using assms
proof induction
  case (call c s r s' out)
  then have ok: "sim out s" "reg none out s" by simp_all
  show ?case
  proof (cases "finishing c")
    case True
    then show ?thesis using wp_eq [OF steady_ok_wp [OF run_call_steady_ok ok] call(1)] call(2,3) by simp
  next
    case False
    then show ?thesis using wp_eq [OF steady_wp [OF run_call_steady [OF False] ok] call(1)] call(2) by simp
  qed
next
  case (take h s t s' out)
  from take_running_eq [OF take(1)] reg_take [of out s "h_task h" t t] take.prems show ?case
    by (simp del: fun_upd_apply)
next
  case (completion h job s t s' out)
  from take_cpu_completion_eq [OF completion(1)] obtain u where
    "RBT.lookup (sc_tasks s) (h_task h) = Some u" "t_state u = Waiting (WaitCpu job)" "t = u\<lparr>t_state := Running\<rparr>"
    "s' = remove_task (h_task h) s" by blast
  with reg_take [of out s "h_task h" u t] completion.prems show ?case by (simp add: edge_def del: fun_upd_apply)
next
  case (restore h u s r s' out t)
  moreover from restore have "t_state u = t_state t" by (metis abs_task_simps(2))
  ultimately show ?case
    using restore_running_eq [of h u s s'] reg_restore [of out s "h_task h" t u] by (simp del: fun_upd_apply)
next
  case (save h s t s' out)
  from take_checkpoint_task_eq [OF save(1)] reg_take [of out s "h_task h" t t] save.prems show ?case
    by (simp del: fun_upd_apply)
next
  case (saved h u s r s' out t)
  moreover from saved have "t_state u = t_state t" by (metis abs_task_simps(2))
  ultimately show ?case
    using restore_checkpoint_task_eq [of h u s s'] reg_restore [of out s "h_task h" t u] by (simp del: fun_upd_apply)
qed

lemma sched_run_reg:
  assumes "sched_run ho x y" "sim (fst x) (snd x)" "reg none (fst x) (snd x)"
  shows "sim (fst y) (snd y) \<and> reg none (fst y) (snd y)"
  using assms(1)
proof induction
  case (step y z)
  then show ?case using sched_step_simulated [OF step(2)] sched_step_reg [OF step(2)] by blast
qed (simp add: assms)

lemma run_registered:
  assumes "scheduler_new owner limit w = Ok s0" "sched_run ho (Map.empty, s0) (out, s)"
  shows "reg none out s"
proof -
  have "sc_tasks s0 = RBT.empty" using assms(1) by (auto simp: scheduler_new_def checked_succ_def split: if_splits)
  then have "reg none Map.empty s0" by (simp add: reg_def view_def)
  then show ?thesis using sched_run_reg [OF assms(2)] scheduler_new_sim(1) [OF assms(1)] by simp
qed

text \<open>\<^bold>\<open>C9\<close>. No task is forgotten. In every state a driver reaches: a ready task is in the ready
  queue; a task that waits for a task is on the waiter list of that task, which exists and has no
  outcome yet; a task that waits for a scope is on the waiter list of that scope, which exists; a
  task that waits for resources is in the resource queue.\<close>

theorem no_task_is_forgotten:
  assumes "scheduler_new owner limit w = Ok s0" "sched_run ho (Map.empty, s0) (out, s)" "view out s n = Some t"
  shows "(t_state t = Ready \<longrightarrow> n \<in> set (sc_ready s)) \<and>
    (\<forall>m. t_state t = Waiting (WaitTask m) \<longrightarrow>
      (\<exists>u. view out s m = Some u \<and> t_outcome u = None \<and> n \<in> set (t_waiters u))) \<and>
    (\<forall>k. t_state t = Waiting (WaitScope k) \<longrightarrow>
      (\<exists>g. RBT.lookup (sc_groups s) k = Some g \<and> n \<in> set (g_waiters g))) \<and>
    (\<forall>i. t_state t = Waiting (WaitResource i) \<longrightarrow> n \<in> set (rg_waiting (sc_resources s)))"
proof -
  have "registered out s n (t_state t)" using run_registered [OF assms(1,2)] assms(3) by (simp add: reg_def)
  moreover have "t_outcome u = None" if "view out s m = Some u" "\<not> is_terminal (t_state u)" for m u
    using task_ok_live(1) [OF sys_okD(5), of "abs out s" m "abs_task u"] run_reaches(1) [OF assms(1,2)] that
    by (auto simp: sim_def)
  ultimately show ?thesis by (auto simp: registered_def split: task_state.splits task_wait.splits)
qed

theorem no_task_is_forgotten_witness:
  "\<exists>t. view Map.empty sample_end 1 = Some t \<and> t_state t = Ready \<and> 1 \<in> set (sc_ready sample_end)"
proof -
  obtain t where t: "RBT.lookup (sc_tasks sample_end) 1 = Some t" "t_state t = Ready"
    using sample_end_state(2) by auto
  from no_task_is_forgotten [OF sample_start_new sample_run view_lookup [OF t(1)]] t(2) view_lookup [OF t(1)]
  show ?thesis by blast
qed

end
