(* ===== verification/Scheduler_Progress.thy ===== *)
theory Scheduler_Progress
  imports Scheduler_Waits
begin

text \<open>
  Progress: a fruitless dispatch leaves only tasks behind whose scopes are full, a finished task
  hands its outcome to every task that waits for it, and what remains when the host refuses to end
  a task.
\<close>

section \<open>Dispatch\<close>









section \<open>Handing out an outcome\<close>

text \<open>The waiter is still parked, or it was woken with the outcome.\<close>

definition parked :: "nat \<Rightarrow> nat \<Rightarrow> ('x, 'w) scheduler \<Rightarrow> bool" where
  "parked w n s \<longleftrightarrow> (\<exists>t. RBT.lookup (sc_tasks s) w = Some t \<and> t_state t = Waiting (WaitTask n))"

definition woken :: "nat \<Rightarrow> 'x task_wakeup \<Rightarrow> ('x, 'w) scheduler \<Rightarrow> bool" where
  "woken w k s \<longleftrightarrow>
     (\<exists>t ks. RBT.lookup (sc_tasks s) w = Some t \<and> t_state t = Ready \<and> w \<in> set (sc_ready s) \<and>
       RBT.lookup (sc_wakeups s) w = Some ks \<and> k \<in> set ks)"

lemma parked_upd_task:
  assumes "parked w n s" "m \<noteq> w"
  shows "parked w n (upd_task m f s)"
  using assms by (auto simp: parked_def)

lemma wake_task_eq:
  "wake_task m k s = (Ok (), push_wakeup m k (push_ready m (upd_task m (\<lambda>t. t\<lparr>t_state := Ready\<rparr>) s)))"
  by (simp add: wake_task_def sbind_def supd_def)

lemma upd_task_wakeups [simp]: "sc_wakeups (upd_task n f s) = sc_wakeups s"
  by (simp add: upd_task_def)

lemma wake_task_woken:
  assumes "RBT.lookup (sc_tasks s) m \<noteq> None"
  shows "woken m k (snd (wake_task m k s))"
  using assms by (auto simp: wake_task_eq woken_def push_wakeup_def push_ready_def split: option.splits)

lemma woken_stays:
  assumes "woken w k s" "m \<noteq> w"
  shows "woken w k (snd (wake_task m j s))"
  using assms by (auto simp: wake_task_eq woken_def push_wakeup_def push_ready_def)

lemma parked_stays:
  assumes "parked w n s" "m \<noteq> w"
  shows "parked w n (snd (wake_task m j s))"
  using assms by (auto simp: wake_task_eq parked_def push_wakeup_def push_ready_def)

lemma wp_wake_task: "wp (wake_task m k) Q s = Q (Ok ()) (snd (wake_task m k s))"
  by (simp add: wp_def wake_task_eq)

lemma wake_resource_waiters_parked:
  assumes "parked w n s"
  shows "wp (wake_resource_waiters k) (\<lambda>r s'. r = Ok () \<longrightarrow> parked w n s') s"
  using assms
proof (induction k arbitrary: s)
  case (Suc k)
  show ?case
  proof (cases "rg_waiting (sc_resources s)")
    case Nil
    then show ?thesis by (simp add: wp_simps)
  next
    case (Cons m ms)
    have keep: "parked w n (s\<lparr>sc_resources := r\<rparr>)" for r using Suc.prems by (simp add: parked_def)
    have other: False if "RBT.lookup (sc_tasks s) w = Some t" "t_state t = Waiting (WaitResource i)" for t i
      using Suc.prems that by (auto simp: parked_def)
    have push: "parked w n (push_ready m x)" if "parked w n x" for x :: "('a, 'b) scheduler"
      using that by (simp add: parked_def push_ready_def)
    show ?thesis
      using Cons
      by (auto simp: wp_sbind wp_prims task_at_def split: sum.splits task_state.splits task_wait.splits prod.splits
        option.splits intro!: Suc.IH keep push parked_upd_task dest: other)
  qed
qed (simp add: wp_prims)

lemma wake_task_waiters_wakes:
  assumes "parked w (h_task h) s \<and> w \<in> set ws \<or> woken w (WakeTask h x) s"
  shows "wp (wake_task_waiters ws h x) (\<lambda>r s'. r = Ok () \<longrightarrow> woken w (WakeTask h x) s') s"
  using assms
proof (induction ws arbitrary: s)
  case (Cons m ws)
  show ?case
  proof (cases "RBT.lookup (sc_tasks s) m")
    case None
    then show ?thesis by (simp add: wp_simps task_at_def)
  next
    case (Some t)
    let ?s = "snd (wake_task m (WakeTask h x) s)"
    have "parked w (h_task h) ?s \<and> w \<in> set ws \<or> woken w (WakeTask h x) ?s"
      if "t_state t = Waiting (WaitTask (h_task h))"
      using Cons.prems wake_task_woken [of s m "WakeTask h x"] Some woken_stays [of w "WakeTask h x" s m "WakeTask h x"]
        parked_stays [of w "h_task h" s m "WakeTask h x"] by (cases "m = w") auto
    moreover have "parked w (h_task h) s \<and> w \<in> set ws \<or> woken w (WakeTask h x) s"
      if "t_state t \<noteq> Waiting (WaitTask (h_task h))"
      using Cons.prems Some that by (auto simp: parked_def)
    ultimately show ?thesis
      using Some Cons.IH [of ?s] Cons.IH [of s] by (auto simp: wp_sbind wp_prims task_at_def wp_wake_task)
  qed
qed (simp add: wp_prims)

lemma wake_scope_waiters_woken:
  assumes "woken w k s"
  shows "wp (wake_scope_waiters ws i x) (\<lambda>r s'. r = Ok () \<longrightarrow> woken w k s') s"
  using assms
proof (induction ws arbitrary: s)
  case (Cons m ws)
  have "m \<noteq> w" if "RBT.lookup (sc_tasks s) m = Some t" "t_state t = Waiting (WaitScope i)" for t
    using Cons.prems that by (auto simp: woken_def)
  then show ?case
    using Cons woken_stays [OF Cons.prems, of m "WakeScope i x"]
    by (auto simp: wp_sbind wp_prims task_at_def wp_wake_task split: sum.splits option.splits)
qed (simp add: wp_prims)

lemma wake_scope_if_settled_woken:
  assumes "woken w k s"
  shows "wp (wake_scope_if_settled i) (\<lambda>r s'. r = Ok () \<longrightarrow> woken w k s') s"
proof -
  have "woken w k (upd_group i f s)" for f using assms by (simp add: woken_def upd_group_def)
  then show ?thesis
    using assms
    by (auto simp: wake_scope_if_settled_def wp_sbind wp_prims split: sum.splits option.splits
      intro!: wake_scope_waiters_woken)
qed

lemma change_active_parked:
  assumes "parked w n s"
  shows "wp (change_active k inc) (\<lambda>r s'. parked w n s') s"
proof -
  have "wp (change_active_from fuel k inc) (\<lambda>r s'. parked w n s') s" for fuel
    using assms
  proof (induction fuel arbitrary: k s)
    case 0
    then show ?case by (simp add: wp_def sfail_def)
  next
    case (Suc fuel)
    have step: "wp (case p of None \<Rightarrow> sret () | Some q \<Rightarrow> change_active_from fuel q inc) (\<lambda>r s'. parked w n s')
        (upd_group k f s)" for p f
      using Suc by (cases p) (simp_all add: wp_prims parked_def)
    show ?case
      using Suc.prems step unfolding wp_def
      by (auto simp: group_at_def sbind_def sread_def supd_def sfail_def split: option.splits sum.splits)
  qed
  then show ?thesis by (simp add: wp_def change_active_def)
qed

lemma terminal_wakes:
  assumes "parked w (h_task h) s" "RBT.lookup (sc_tasks s) (h_task h) = Some t" "w \<in> set (t_waiters t)" "w \<noteq> h_task h"
  shows "wp (terminal ho h x) (\<lambda>r s'. r = Ok () \<longrightarrow> woken w (WakeTask h x) s') s"
proof -
  let ?Q = "\<lambda>r s'. r = Ok () \<longrightarrow> woken w (WakeTask h x) s'"
  have tail: "wp (sbind (wake_resource_waiters q) (\<lambda>_. sbind (wake_task_waiters (t_waiters t) h x) (\<lambda>_.
      wake_scope_if_settled (t_scope t)))) ?Q s'" if "parked w (h_task h) s'" for q s'
    by (rule wp_bind [OF wake_resource_waiters_parked [OF that]], simp)
      (rule wp_bind [OF wake_task_waiters_wakes], use assms(3) in \<open>auto intro: wake_scope_if_settled_woken\<close>)
  have released: "wp (sbind (supd (\<lambda>s. s\<lparr>sc_resources := release (sc_resources s) (h_task h)\<rparr>)) (\<lambda>_.
      sbind (sget (\<lambda>s. length (rg_waiting (sc_resources s)))) (\<lambda>queued.
      sbind (wake_resource_waiters queued) (\<lambda>_. sbind (wake_task_waiters (t_waiters t) h x) (\<lambda>_.
      wake_scope_if_settled (t_scope t)))))) ?Q s'" if "parked w (h_task h) s'" for s'
  proof (rule wp_upd_bind)
    have "parked w (h_task h) (s'\<lparr>sc_resources := release (sc_resources s') (h_task h)\<rparr>)"
      using that by (simp add: parked_def)
    from tail [OF this] show "wp (sbind (sget (\<lambda>s. length (rg_waiting (sc_resources s)))) (\<lambda>queued.
      sbind (wake_resource_waiters queued) (\<lambda>_. sbind (wake_task_waiters (t_waiters t) h x) (\<lambda>_.
      wake_scope_if_settled (t_scope t))))) ?Q (s'\<lparr>sc_resources := release (sc_resources s') (h_task h)\<rparr>)"
      unfolding wp_sbind [of "sget _"] wp_prims by simp
  qed
  show ?thesis
  proof (cases "h_owner h = t_scope t \<and> \<not> is_terminal (t_state t)")
    case False
    then show ?thesis using assms(2) by (auto simp: terminal_def wp_sbind wp_prims resolve_id_def task_at_def)
  next
    case True
    then have live: "\<not> is_terminal (t_state t)" by simp
    show ?thesis
      unfolding terminal_def
    proof (rule wp_read_bind [of _ _ "h_task h"], goal_cases)
      case 2
      show ?case
      proof (rule wp_upd_bind, rule wp_read_bind [of _ _ t], goal_cases)
        case 2
        show ?case
          unfolding if_not_P [OF live]
        proof (rule wp_upd_bind, rule wp_host_bind, goal_cases)
          case (2 y v)
          let ?s = "upd_task (h_task h) (\<lambda>t. t\<lparr>t_state := outcome_state x, t_outcome := Some x, t_waiters := []\<rparr>)
            ((upd_task (h_task h) (\<lambda>t. t\<lparr>t_active_slot := False\<rparr>)
              (s\<lparr>sc_continuations := dispose_origin (sc_continuations s) (Scheduled (h_task h))\<rparr>))\<lparr>sc_world := v\<rparr>)"
          have "parked w (h_task h) ?s" using assms(1,4) by (simp add: parked_def)
          then have slot: "wp (if t_active_slot t then change_active (t_scope t) False else sret ())
              (\<lambda>r s'. parked w (h_task h) s') ?s"
            using change_active_parked by (auto simp: wp_prims)
          show ?case by (rule wp_upd_bind, rule wp_bind [OF slot]) (simp_all add: released)
        qed simp
      qed (simp add: task_at_def assms(2))
    qed (simp add: resolve_id_def assms(2) True)
  qed
qed

text \<open>\<^bold>\<open>C28\<close>. A finished task wakes every task that waits for it. In every state a driver reaches,
  when the end of a task is recorded without error, each other task in the scheduler that was
  waiting for it is ready, is in the ready queue, and has a wake-up that carries the handle and the
  outcome of the finished task.\<close>

theorem finished_task_wakes_waiters:
  assumes "scheduler_new owner limit w = Ok s0" "sched_run ho (Map.empty, s0) (out, s)"
    and "terminal ho h x s = (Ok (), s')" "RBT.lookup (sc_tasks s) m = Some u"
    and "t_state u = Waiting (WaitTask (h_task h))" "m \<noteq> h_task h"
  shows "\<exists>u' ks. RBT.lookup (sc_tasks s') m = Some u' \<and> t_state u' = Ready \<and> m \<in> set (sc_ready s') \<and>
    RBT.lookup (sc_wakeups s') m = Some ks \<and> WakeTask h x \<in> set ks"
proof -
  have "registered out s m (t_state u)"
    using run_registered [OF assms(1,2)] view_lookup [OF assms(4), of out] by (simp add: reg_def)
  then obtain t where t: "view out s (h_task h) = Some t" "m \<in> set (t_waiters t)"
    using assms(5) by (auto simp: registered_def)
  have "RBT.lookup (sc_tasks s) (h_task h) \<noteq> None"
  proof
    assume "RBT.lookup (sc_tasks s) (h_task h) = None"
    then have "terminal ho h x s = (Err UnknownTask, s)"
      by (simp add: terminal_def sbind_def sread_def resolve_id_def)
    with assms(3) show False by simp
  qed
  with t have "RBT.lookup (sc_tasks s) (h_task h) = Some t" by (auto simp: view_def)
  from wp_eq [OF terminal_wakes [OF _ this t(2) assms(6)] assms(3)] assms(4,5) show ?thesis
    by (auto simp: parked_def woken_def)
qed

text \<open>A sample: two tasks may run at once, the first waits for the second.\<close>

definition sample_second :: task_handle where
  "sample_second = \<lparr>h_owner = 0, h_task = 1\<rparr>"

definition sample_pair :: "(nat, unit) scheduler" where
  "sample_pair = run_calls sample_ops
     [Spawn sample_local 0 7 None 0 0, Spawn sample_local 0 8 None 0 1, Dispatch, AwaitTask sample_first sample_second]
     sample_start"

lemmas sample_wait = wake_task_def push_wakeup_def sample_pair_def sample_first_def sample_second_def await_task_def resolve_id_def release_slot_def
  sample_eval

lemma sample_pair_run: "sched_run sample_ops (Map.empty, sample_start) (Map.empty, sample_pair)"
  unfolding sample_pair_def by (rule run_calls_run) (simp add: sample_wait panics_def)

lemma sample_pair_state:
  "\<exists>u. RBT.lookup (sc_tasks sample_pair) 0 = Some u \<and> t_state u = Waiting (WaitTask (h_task sample_second))"
  "\<exists>s. terminal sample_ops sample_second (Completed (Tuple [])) sample_pair = (Ok (), s)"
  by (simp_all add: sample_wait sample_finish sample_keys)

theorem finished_task_wakes_waiters_witness:
  "\<exists>s' u' ks. terminal sample_ops sample_second (Completed (Tuple [])) sample_pair = (Ok (), s') \<and>
    RBT.lookup (sc_tasks s') 0 = Some u' \<and> t_state u' = Ready \<and> 0 \<in> set (sc_ready s') \<and>
    RBT.lookup (sc_wakeups s') 0 = Some ks \<and> WakeTask sample_second (Completed (Tuple [])) \<in> set ks"
proof -
  obtain u where u: "RBT.lookup (sc_tasks sample_pair) 0 = Some u" "t_state u = Waiting (WaitTask (h_task sample_second))"
    using sample_pair_state(1) by blast
  obtain s' where s': "terminal sample_ops sample_second (Completed (Tuple [])) sample_pair = (Ok (), s')"
    using sample_pair_state(2) by blast
  from finished_task_wakes_waiters [OF sample_start_new sample_pair_run s' u] s' show ?thesis
    by (auto simp: sample_second_def)
qed

section \<open>When the host refuses\<close>

text \<open>\<^bold>\<open>C34\<close>. A refused end loses the slot. In every state a driver reaches, when the host refuses to
  finish the body of an unfinished task that holds an active slot, recording its end returns the
  host's error, and the task is left unfinished in its former state without the slot, while the
  counter of every scope still counts it: the counter of its scope is then one more than the number
  of slot holders.\<close>

theorem refused_end_loses_slot:
  assumes "scheduler_new owner limit w = Ok s0" "sched_run ho (Map.empty, s0) (out, s)"
    and "RBT.lookup (sc_tasks s) (h_task h) = Some t" "h_owner h = t_scope t" "t_active_slot t"
    and "exec_finish_body ho (tl_execution (t_local t)) (successful_body x) (sc_world s) = (Err e, w')"
  shows "\<exists>s' t'. terminal ho h x s = (Err (HostError e), s') \<and> RBT.lookup (sc_tasks s') (h_task h) = Some t' \<and>
    t_state t' = t_state t \<and> t_outcome t' = None \<and> \<not> t_active_slot t' \<and> sc_groups s' = sc_groups s \<and>
    (\<forall>g. RBT.lookup (sc_groups s') (t_scope t) = Some g \<longrightarrow> g_active g = occupancy (abs out s') (t_scope t) + 1)"
proof -
  note sim = run_reaches(1) [OF assms(1,2)]
  have live: "\<not> is_terminal (t_state t)" "t_outcome t = None"
    using sim_task_ok [OF sim assms(3)] assms(5) by (auto simp: task_ok_def split: option.splits)
  let ?s1 = "s\<lparr>sc_continuations := dispose_origin (sc_continuations s) (Scheduled (h_task h))\<rparr>"
  let ?s' = "(upd_task (h_task h) (\<lambda>t. t\<lparr>t_active_slot := False\<rparr>) ?s1)\<lparr>sc_world := w'\<rparr>"
  have eq: "terminal ho h x s = (Err (HostError e), ?s')"
    using assms(3,4,6) live by (simp add: terminal_def sbind_def sread_def supd_def resolve_id_def task_at_def shost_def upd_task_def)
  have "abs out ?s' = abs out (upd_task (h_task h) (\<lambda>t. t\<lparr>t_active_slot := False\<rparr>) s)"
    by (simp add: abs_def view_def upd_task_def scopes_of_def)
  also have "\<dots> = put (h_task h) ((abs_task t)\<lparr>a_slot := False\<rparr>) (abs out s)"
    using abs_upd_task [OF assms(3), of out] by simp
  finally have abs': "abs out ?s' = put (h_task h) ((abs_task t)\<lparr>a_slot := False\<rparr>) (abs out s)" .
  have "occupancy (abs out s) (t_scope t) = occupancy (abs out ?s') (t_scope t) + 1"
    unfolding abs'
    using occupancy_put_drop [of "abs out s" "h_task h" "abs_task t" "(abs_task t)\<lparr>a_slot := False\<rparr>" "t_scope t"]
      view_lookup [OF assms(3), of out] assms(5) sim_finite [OF sim] by simp
  then have "g_active g = occupancy (abs out ?s') (t_scope t) + 1"
    if "RBT.lookup (sc_groups s) (t_scope t) = Some g" for g
    using sim that by (simp add: sim_def counters_ok_def)
  with eq assms(3) live show ?thesis by (intro exI [of _ ?s']) (auto simp: upd_task_def)
qed

definition refusing_ops :: "(nat, unit) host_ops" where
  "refusing_ops = sample_ops\<lparr>exec_finish_body := (\<lambda>x b w. (Err 5, w))\<rparr>"

lemma refusing_run: "sched_run refusing_ops (Map.empty, sample_start) (Map.empty, run_calls refusing_ops sample_calls sample_start)"
  by (rule run_calls_run) (simp add: sample_eval refusing_ops_def panics_def)

theorem refused_end_loses_slot_witness:
  "\<exists>s' t'. terminal refusing_ops sample_first (Failed 9) (run_calls refusing_ops sample_calls sample_start) =
      (Err (HostError 5), s') \<and> RBT.lookup (sc_tasks s') 0 = Some t' \<and> t_state t' = Running \<and> \<not> t_active_slot t'"
proof -
  let ?s = "run_calls refusing_ops sample_calls sample_start"
  obtain t where t: "RBT.lookup (sc_tasks ?s) (h_task sample_first) = Some t" "h_owner sample_first = t_scope t"
    "t_active_slot t" "t_state t = Running"
    by (simp add: sample_eval refusing_ops_def sample_first_def)
  have "exec_finish_body refusing_ops (tl_execution (t_local t)) (successful_body (Failed 9)) (sc_world ?s) =
      (Err 5, sc_world ?s)" by (simp add: refusing_ops_def)
  from refused_end_loses_slot [OF sample_start_new refusing_run t(1-3) this] t(4) show ?thesis
    by (auto simp: sample_first_def)
qed

end
