(* ===== verification/Scheduler_Outcomes.thy ===== *)
theory Scheduler_Outcomes
  imports Scheduler_Runs
begin

text \<open>
  The outcome of a settled scope: results in source order under the joining and collecting
  policies, and the first failure in source order as the primary one, whatever the order in which
  the tasks finish.
\<close>

section \<open>Source order\<close>

lemma insort_key_map: "insort_key f (h x) (map h xs) = map h (insort_key (\<lambda>x. f (h x)) x xs)"
  by (induction xs) auto

lemma sort_key_map: "sort_key f (map h xs) = map h (sort_key (\<lambda>x. f (h x)) xs)"
  by (induction xs) (simp_all add: insort_key_map)

definition the_task :: "('x, 'w) scheduler \<Rightarrow> nat \<Rightarrow> 'x scheduled_task" where
  "the_task s n = (case RBT.lookup (sc_tasks s) n of Some t \<Rightarrow> t | None \<Rightarrow> undefined)"

text \<open>The position of a task among its siblings: its source index, then its identifier.\<close>

definition position :: "('x, 'w) scheduler \<Rightarrow> nat \<Rightarrow> nat \<times> nat" where
  "position s n = (t_source_index (the_task s n), n)"

definition source_order :: "('x, 'w) scheduler \<Rightarrow> task_group \<Rightarrow> nat list" where
  "source_order s g = sort_key (position s) (group_task_ids g)"

lemma tasks_at_eq:
  assumes "\<And>n. n \<in> set ns \<Longrightarrow> RBT.lookup (sc_tasks s) n \<noteq> None"
  shows "tasks_at ns s = Ok (map (the_task s) ns)"
  using assms by (induction ns) (auto simp: task_at_def the_task_def split: option.splits)

lemma ordered_tasks_eq:
  assumes "\<And>n. n \<in> set (group_task_ids g) \<Longrightarrow> RBT.lookup (sc_tasks s) n \<noteq> None"
  shows "ordered_tasks g s = Ok (map (\<lambda>n. (n, the_task s n)) (source_order s g))"
proof -
  have "zip ns (map f ns) = map (\<lambda>n. (n, f n)) ns" for ns :: "nat list" and f :: "nat \<Rightarrow> 'a scheduled_task"
    by (induction ns) auto
  then show ?thesis
    using tasks_at_eq [OF assms]
    by (simp add: ordered_tasks_def sort_key_map source_order_def position_def [abs_def])
qed

lemma any_unsettled_eq:
  assumes "\<And>n. n \<in> set ns \<Longrightarrow> \<exists>t. RBT.lookup (sc_tasks s) n = Some t \<and> is_terminal (t_state t)"
  shows "any_unsettled ns s = Ok False"
  using assms by (induction ns) (auto simp: task_at_def)

lemma completed_values_eq:
  assumes "\<And>n. n \<in> set ns \<Longrightarrow> t_outcome (f n) = Some (Completed (v n))"
  shows "completed_values (map (\<lambda>n. (n, f n)) ns) = Ok (map v ns)"
  using assms by (induction ns) auto

lemma first_cancelled_none:
  assumes "\<And>n c. n \<in> set ns \<Longrightarrow> t_outcome (f n) \<noteq> Some (Cancelled c)"
  shows "first_cancelled (map (\<lambda>n. (n, f n)) ns) = None"
  using assms
proof (induction ns)
  case (Cons n ns)
  then show ?case by (cases "t_outcome (f n)") (auto split: task_outcome.splits)
qed simp

lemma first_failed_none:
  assumes "\<And>n c. n \<in> set ns \<Longrightarrow> t_outcome (f n) \<noteq> Some (Failed c)"
  shows "first_failed (map (\<lambda>n. (n, f n)) ns) = None"
  using assms
proof (induction ns)
  case (Cons n ns)
  then show ?case by (cases "t_outcome (f n)") (auto split: task_outcome.splits)
qed simp

section \<open>Joins\<close>

text \<open>The value a joining policy makes of the results.\<close>

fun joined :: "task_group_policy \<Rightarrow> 'x interp_value list \<Rightarrow> 'x interp_value option" where
  "joined JoinTuple vs = Some (Tuple vs)"
| "joined JoinArray vs = Some (Array vs)"
| "joined PolicyMap vs = Some (Array vs)"
| "joined TryJoin vs = Some (result_value ''Ok'' (Array vs))"
| "joined _ vs = None"

lemma scope_outcome_settled:
  assumes "RBT.lookup (sc_groups s) k = Some g"
    and "\<And>n. n \<in> set (group_task_ids g) \<Longrightarrow> \<exists>t. RBT.lookup (sc_tasks s) n = Some t \<and> is_terminal (t_state t)"
  shows "scope_outcome k s =
    rbind (policy_outcome g (map (\<lambda>n. (n, the_task s n)) (source_order s g)) s) (\<lambda>r. rmap Some (ok_or r InvalidTransition))"
proof -
  have "\<And>n. n \<in> set (group_task_ids g) \<Longrightarrow> RBT.lookup (sc_tasks s) n \<noteq> None" using assms(2) by fastforce
  then show ?thesis
    using assms(1) any_unsettled_eq [OF assms(2)] ordered_tasks_eq [of g s] by (simp add: scope_outcome_def)
qed

lemma source_order_set [simp]: "set (source_order s g) = set (group_task_ids g)"
  by (simp add: source_order_def)

text \<open>Joined results are in source order. When every task of a scope with a joining policy
  has completed, in whatever order they finished, the outcome of the scope lists their values by
  the source position of the task (and by task identifier among equal positions).\<close>

theorem join_lists_results_in_source_order:
  assumes "RBT.lookup (sc_groups s) k = Some g" "g_primary_failure g = None"
    and "\<forall>n \<in> set (group_task_ids g). \<exists>t. RBT.lookup (sc_tasks s) n = Some t \<and> t_state t = StCompleted \<and>
      t_outcome t = Some (Completed (v n))"
    and "joined (g_policy g) (map v (source_order s g)) = Some x"
  shows "scope_outcome k s = Ok (Some (Completed x)) \<and>
    sorted (map (position s) (source_order s g)) \<and> mset (source_order s g) = mset (group_task_ids g)"
proof -
  have tasks: "t_outcome (the_task s n) = Some (Completed (v n))" if "n \<in> set (source_order s g)" for n
    using assms(3) that by (auto simp: the_task_def)
  have "first_cancelled (map (\<lambda>n. (n, the_task s n)) (source_order s g)) = None"
    by (rule first_cancelled_none) (simp add: tasks)
  moreover have "completed_values (map (\<lambda>n. (n, the_task s n)) (source_order s g)) = Ok (map v (source_order s g))"
    by (rule completed_values_eq) (rule tasks)
  moreover have "\<exists>t. RBT.lookup (sc_tasks s) n = Some t \<and> is_terminal (t_state t)" if "n \<in> set (group_task_ids g)" for n
    using assms(3) that by (auto simp: is_terminal_def)
  ultimately have "scope_outcome k s = Ok (Some (Completed x))"
    using scope_outcome_settled [OF assms(1)] assms(2,4)
    by (cases "g_policy g") (auto simp: policy_outcome_def join_outcome_def)
  then show ?thesis by (simp add: source_order_def)
qed

text \<open>A collecting policy wraps each result.\<close>

definition collected :: "'x task_outcome \<Rightarrow> 'x interp_value" where
  "collected r =
     (case r of
        Completed v \<Rightarrow> result_value ''Ok'' v
      | Raised args _ \<Rightarrow> result_value ''Err'' (hd args)
      | _ \<Rightarrow> Tuple [])"

lemma collected_values_eq:
  assumes "\<And>n. n \<in> set ns \<Longrightarrow> t_outcome (f n) = Some (r n) \<and>
      ((\<exists>v. r n = Completed v) \<or> (\<exists>args x. r n = Raised args x \<and> args \<noteq> []))"
  shows "collected_values (map (\<lambda>n. (n, f n)) ns) = Ok (map (\<lambda>n. collected (r n)) ns)"
  using assms
proof (induction ns)
  case (Cons n ns)
  then show ?case by (fastforce simp: collected_def error_payload_def split: list.splits)
qed simp

text \<open>Collected results are in source order. When every task of a scope with a collecting
  policy has completed or raised an error, the scope completes with one result per task, by source
  position: the value of a completed task under \<open>Ok\<close>, the payload of a raised one under \<open>Err\<close>.\<close>

theorem collect_lists_results_in_source_order:
  assumes "RBT.lookup (sc_groups s) k = Some g" "g_policy g = Collect \<or> g_policy g = MapCollect"
    and "\<forall>n \<in> set (group_task_ids g). \<exists>t. RBT.lookup (sc_tasks s) n = Some t \<and> is_terminal (t_state t) \<and>
      t_outcome t = Some (r n) \<and> ((\<exists>v. r n = Completed v) \<or> (\<exists>args x. r n = Raised args x \<and> args \<noteq> []))"
  shows "scope_outcome k s = Ok (Some (Completed (Array (map (\<lambda>n. collected (r n)) (source_order s g)))))"
proof -
  have tasks: "t_outcome (the_task s n) = Some (r n) \<and>
      ((\<exists>v. r n = Completed v) \<or> (\<exists>args x. r n = Raised args x \<and> args \<noteq> []))" if "n \<in> set (source_order s g)" for n
    using assms(3) that by (auto simp: the_task_def)
  have "first_failed (map (\<lambda>n. (n, the_task s n)) (source_order s g)) = None"
    by (rule first_failed_none) (use tasks in fastforce)
  moreover have "list_all (\<lambda>(_, t). collectable t) (map (\<lambda>n. (n, the_task s n)) (source_order s g))"
    using tasks by (fastforce simp: list_all_iff collectable_def)
  moreover have "collected_values (map (\<lambda>n. (n, the_task s n)) (source_order s g)) =
      Ok (map (\<lambda>n. collected (r n)) (source_order s g))"
    by (rule collected_values_eq) (rule tasks)
  moreover have "\<exists>t. RBT.lookup (sc_tasks s) n = Some t \<and> is_terminal (t_state t)" if "n \<in> set (group_task_ids g)" for n
    using assms(3) that by blast
  ultimately show ?thesis
    using scope_outcome_settled [OF assms(1)] assms(2) by (auto simp: policy_outcome_def)
qed

section \<open>The primary failure\<close>

fun record_all :: "nat \<Rightarrow> nat list \<Rightarrow> ('x, 'w, unit) sched" where
  "record_all k [] = sret ()"
| "record_all k (n # ns) = sbind (record_primary_failure k n) (\<lambda>_. record_all k ns)"

lemma record_primary_failure_eq:
  assumes "RBT.lookup (sc_groups s) k = Some g" "RBT.lookup (sc_tasks s) n \<noteq> None"
    and "\<And>p. g_primary_failure g = Some p \<Longrightarrow> RBT.lookup (sc_tasks s) p \<noteq> None"
  shows "\<exists>s'. record_primary_failure k n s = (Ok (), s') \<and> sc_tasks s' = sc_tasks s \<and>
    (\<exists>g'. RBT.lookup (sc_groups s') k = Some g' \<and>
      g_primary_failure g' = Some (case g_primary_failure g of None \<Rightarrow> n
        | Some p \<Rightarrow> if position s n < position s p then n else p))"
proof -
  obtain t where t: "RBT.lookup (sc_tasks s) n = Some t" using assms(2) by blast
  show ?thesis
  proof (cases "g_primary_failure g")
    case None
    then show ?thesis
      using assms(1) t by (simp add: record_primary_failure_def sbind_def sread_def task_at_def group_at_def supd_def sret_def)
  next
    case (Some p)
    obtain u where u: "RBT.lookup (sc_tasks s) p = Some u" using assms(3) [OF Some] by blast
    have "position s n < position s p \<longleftrightarrow>
        t_source_index t < t_source_index u \<or> t_source_index t = t_source_index u \<and> n < p"
      by (auto simp: position_def the_task_def t u)
    then show ?thesis
      using assms(1) t u Some
      by (auto simp: record_primary_failure_def sbind_def sread_def task_at_def group_at_def supd_def sret_def)
  qed
qed

lemma record_all_some:
  assumes "RBT.lookup (sc_groups s) k = Some g" "g_primary_failure g = Some p" "RBT.lookup (sc_tasks s) p \<noteq> None"
    and "\<And>n. n \<in> set ns \<Longrightarrow> RBT.lookup (sc_tasks s) n \<noteq> None"
  shows "\<exists>s' g' q. record_all k ns s = (Ok (), s') \<and> RBT.lookup (sc_groups s') k = Some g' \<and>
    g_primary_failure g' = Some q \<and> q \<in> set (p # ns) \<and> (\<forall>n \<in> set (p # ns). position s q \<le> position s n)"
  using assms
proof (induction ns arbitrary: s g p)
  case Nil
  then show ?case by (simp add: sret_def)
next
  case (Cons n ns)
  let ?p = "if position s n < position s p then n else p"
  obtain s1 g1 where s1: "record_primary_failure k n s = (Ok (), s1)" "sc_tasks s1 = sc_tasks s"
    "RBT.lookup (sc_groups s1) k = Some g1" "g_primary_failure g1 = Some ?p"
    using record_primary_failure_eq [OF Cons.prems(1), of n] Cons.prems(2-4) by auto
  have same: "position s1 = position s" by (auto simp: position_def the_task_def s1(2) fun_eq_iff)
  have known: "RBT.lookup (sc_tasks s1) ?p \<noteq> None" "\<And>n. n \<in> set ns \<Longrightarrow> RBT.lookup (sc_tasks s1) n \<noteq> None"
    using Cons.prems(3,4) s1(2) by auto
  obtain s' g' q where "record_all k ns s1 = (Ok (), s')" "RBT.lookup (sc_groups s') k = Some g'"
    "g_primary_failure g' = Some q" "q \<in> set (?p # ns)" "\<forall>n \<in> set (?p # ns). position s q \<le> position s n"
    using Cons.IH [OF s1(3,4) known] unfolding same by blast
  moreover from this have "q \<in> set (p # n # ns)" "\<forall>m \<in> set (p # n # ns). position s q \<le> position s m"
    by (auto split: if_splits)
  ultimately show ?case using s1(1) by (simp add: sbind_def)
qed

text \<open>\<^bold>\<open>C32\<close>. The primary failure is the first in source order. After the failures of any non-empty
  list of tasks were recorded in a scope, in whatever order, its primary failure is the task of
  least source position among them, the least identifier first among equal positions.\<close>

theorem primary_failure_is_first_in_source_order:
  assumes "RBT.lookup (sc_groups s) k = Some g" "g_primary_failure g = None" "ns \<noteq> []"
    and "\<forall>n \<in> set ns. RBT.lookup (sc_tasks s) n \<noteq> None"
  shows "\<exists>s' g' q. record_all k ns s = (Ok (), s') \<and> RBT.lookup (sc_groups s') k = Some g' \<and>
    g_primary_failure g' = Some q \<and> q \<in> set ns \<and> (\<forall>n \<in> set ns. position s q \<le> position s n)"
proof -
  obtain n ms where ns: "ns = n # ms" using assms(3) by (cases ns) auto
  obtain s1 g1 where s1: "record_primary_failure k n s = (Ok (), s1)" "sc_tasks s1 = sc_tasks s"
    "RBT.lookup (sc_groups s1) k = Some g1" "g_primary_failure g1 = Some n"
    using record_primary_failure_eq [OF assms(1), of n] assms(2,4) ns by auto
  have same: "position s1 = position s" by (auto simp: position_def the_task_def s1(2) fun_eq_iff)
  show ?thesis
    using record_all_some [OF s1(3,4), of ms] assms(4) s1(1,2) unfolding same ns by (auto simp: sbind_def)
qed

section \<open>Samples\<close>

definition sample_task :: "nat \<Rightarrow> nat task_outcome \<Rightarrow> nat scheduled_task" where
  "sample_task i r = (task_new 0 0 sample_local None 0 i)\<lparr>t_state := outcome_state r, t_outcome := Some r\<rparr>"

definition sample_scope :: "task_group_policy \<Rightarrow> nat task_outcome \<Rightarrow> nat task_outcome \<Rightarrow> (nat, unit) scheduler" where
  "sample_scope p a b = sample_start\<lparr>
     sc_groups := RBT.insert 0 ((group_new None 1 p)\<lparr>g_tasks := RBT.insert (Suc 0) () (RBT.insert 0 () RBT.empty)\<rparr>) RBT.empty,
     sc_tasks := RBT.insert 1 (sample_task 3 b) (RBT.insert 0 (sample_task 5 a) RBT.empty)\<rparr>"

lemma sample_scope_order: "source_order (sample_scope p a b)
    ((group_new None 1 p)\<lparr>g_tasks := RBT.insert (Suc 0) () (RBT.insert 0 () RBT.empty)\<rparr>) = [1, 0]"
  by (simp add: source_order_def group_task_ids_def sample_keys position_def the_task_def sample_scope_def sample_task_def
    task_new_def)

lemma sample_scope_group: "RBT.lookup (sc_groups (sample_scope p a b)) 0 =
    Some ((group_new None 1 p)\<lparr>g_tasks := RBT.insert (Suc 0) () (RBT.insert 0 () RBT.empty)\<rparr>)"
  by (simp add: sample_scope_def)

theorem join_lists_results_in_source_order_witness:
  "scope_outcome 0 (sample_scope JoinArray (Completed (Tuple [])) (Completed (Array []))) =
    Ok (Some (Completed (Array [Array [], Tuple []])))"
  using join_lists_results_in_source_order [OF sample_scope_group,
      where p1 = JoinArray and a1 = "Completed (Tuple [])" and b1 = "Completed (Array [])"
        and v = "\<lambda>n. if n = 0 then Tuple [] else Array []" and x = "Array [Array [], Tuple []]"]
  unfolding sample_scope_order
  by (simp add: group_new_def group_task_ids_def sample_keys sample_scope_def sample_task_def task_new_def)

theorem collect_lists_results_in_source_order_witness:
  "scope_outcome 0 (sample_scope Collect (Completed (Tuple [])) (Raised [Array []] 9)) =
    Ok (Some (Completed (Array [result_value ''Err'' (Array []), result_value ''Ok'' (Tuple [])])))"
  using collect_lists_results_in_source_order [OF sample_scope_group,
      where p1 = Collect and a1 = "Completed (Tuple [])" and b1 = "Raised [Array []] 9"
        and r = "\<lambda>n. if n = 0 then Completed (Tuple []) else Raised [Array []] 9"]
  unfolding sample_scope_order
  by (simp add: group_new_def group_task_ids_def sample_keys sample_scope_def sample_task_def task_new_def is_terminal_def
    collected_def)

theorem primary_failure_is_first_in_source_order_witness:
  "\<exists>s' g'. record_all 0 [0, 1] (sample_scope JoinArray (Failed 4) (Failed 6)) = (Ok (), s') \<and>
    RBT.lookup (sc_groups s') 0 = Some g' \<and> g_primary_failure g' = Some 1"
proof -
  let ?s = "sample_scope JoinArray (Failed 4) (Failed 6)"
  obtain s' g' q where q: "record_all 0 [0, 1] ?s = (Ok (), s')" "RBT.lookup (sc_groups s') 0 = Some g'"
    "g_primary_failure g' = Some q" "q \<in> set [0, 1]" "\<forall>n \<in> set [0, 1]. position ?s q \<le> position ?s n"
    using primary_failure_is_first_in_source_order [OF sample_scope_group, where p1 = JoinArray and a1 = "Failed 4"
      and b1 = "Failed 6" and ns = "[0, 1]"] by (auto simp: group_new_def sample_scope_def)
  moreover have "q = 1"
    using q(4,5) by (auto simp: position_def the_task_def sample_scope_def sample_task_def task_new_def)
  ultimately show ?thesis by blast
qed

end
