(* ===== verification/Residual_Plan.thy ===== *)
theory Residual_Plan
  imports Prelude
begin

text \<open>
  The immutable side of the residual monitors: the prepared plans of \<open>plan/residual/mod.rs\<close>, the
  identities of runs, \<open>eval/residual/mod.rs\<close> and \<open>orchestration/residual.rs\<close>, and the state of the
  monitor kernel, which belongs to the crate \<open>etas_code\<close> and is a parameter: a plan is a record of
  the kernel functions the interpreter calls. \<open>'s\<close> is the state of a plan, \<open>'d\<close> a previewed
  transition, \<open>'t\<close> the saved form of a state. Actions, effects, spans, revisions, programs and
  the other values of foreign crates that are only compared and passed on are numbers.
\<close>

section \<open>Identities\<close>

type_synonym identity = "8 word list"

definition to_be_bytes :: "nat \<Rightarrow> 8 word list" where
  "to_be_bytes n = map (\<lambda>i. of_nat (n div 256 ^ i)) (rev [0..<8])"

definition from_be_bytes :: "8 word list \<Rightarrow> nat" where
  "from_be_bytes bytes = foldl (\<lambda>n b. n * 256 + unat b) 0 bytes"

definition identity_bytes :: "8 word \<Rightarrow> nat \<Rightarrow> identity" where
  "identity_bytes kind n = [kind] @ replicate 7 0 @ to_be_bytes n"

definition attempt_kind :: "8 word" where
  "attempt_kind = 97"

definition invocation_kind :: "8 word" where
  "invocation_kind = 115"

definition invocation_counter :: "identity \<Rightarrow> string + nat" where
  "invocation_counter bytes =
     (if bytes ! 0 \<noteq> invocation_kind \<or> take 7 (drop 1 bytes) \<noteq> replicate 7 0
      then Err ''residual scope invocation is not an engine-owned identity''
      else if from_be_bytes (drop 8 bytes) = 0
      then Err ''residual scope invocation must be nonzero''
      else Ok (from_be_bytes (drop 8 bytes)))"

definition validate_counter_identity :: "identity \<Rightarrow> 8 word \<Rightarrow> nat \<Rightarrow> string + unit" where
  "validate_counter_identity bytes kind maximum =
     (let counter = from_be_bytes (drop 8 bytes) in
      if bytes ! 0 \<noteq> kind \<or> take 7 (drop 1 bytes) \<noteq> replicate 7 0 \<or> counter = 0
      then Err ''checkpoint residual identity is not a run-owned counter identity''
      else if counter > maximum
      then Err ''checkpoint residual counters would reuse an identity''
      else Ok ())"

section \<open>The monitor kernel\<close>

datatype scope_check_result = Accepting | Rejected | PendingEvidence | Incomplete

datatype scope_exit = ScopeCompleted | ScopeCancelled | ScopeFailed

record alternative_scope =
  as_scope :: nat
  as_activation :: nat
  as_revision :: nat
  as_invocation :: identity

record concrete_attempt =
  at_scope :: nat
  at_activation :: nat
  at_revision :: nat
  at_invocation :: identity
  at_id :: identity
  at_cursor :: nat
  at_action :: nat
  at_bindings :: nat

record scope_event =
  ev_id :: identity
  ev_cursor :: nat
  ev_action :: nat

text \<open>A query names the attempt, the pattern of the guard (with the actions it covers) and the
  pattern of the target.\<close>

record evidence_query =
  eq_attempt :: concrete_attempt
  eq_covers :: "nat \<Rightarrow> bool"
  eq_guard :: nat
  eq_target :: nat

record prior_evidence =
  pe_scope :: nat
  pe_activation :: nat
  pe_revision :: nat
  pe_invocation :: identity
  pe_guard :: nat
  pe_target :: nat
  pe_guard_attempt :: identity
  pe_completed_at :: nat

datatype evidence_status =
    EvidenceAccepted prior_evidence
  | EvidencePending
  | EvidenceDenied
  | EvidenceFailed
  | EvidenceAbsent

datatype 'd scope_decision = DecidePermit 'd | DecideNeedsEvidence | DecideReject

text \<open>A component of a plan is a trace, with the key of its binding layout, or of another kind.\<close>

datatype plan_component = TraceComponent nat | OtherComponent

record ('s, 'd, 't) trace_plan =
  tp_scope :: nat
  tp_activation :: nat
  tp_obligations :: "(nat \<times> nat \<times> nat) list"
  tp_component_ids :: "'s \<Rightarrow> nat list"
  tp_component :: "nat \<Rightarrow> plan_component option"
  tp_layout :: "nat \<Rightarrow> nat option"
  tp_bindings :: "nat \<Rightarrow> string + nat"
  tp_initial :: "alternative_scope \<Rightarrow> nat \<Rightarrow> nat \<Rightarrow> string + 's"
  tp_preview :: "'s \<Rightarrow> scope_event \<Rightarrow> (nat \<times> concrete_attempt) list
    \<Rightarrow> (evidence_query \<Rightarrow> evidence_status) \<Rightarrow> string + 'd scope_decision"
  tp_commit :: "'s \<Rightarrow> 'd \<Rightarrow> (string + unit) \<times> 's"
  tp_finish :: "'s \<Rightarrow> scope_exit \<Rightarrow> nat \<Rightarrow> string + scope_check_result"
  tp_to_data :: "'s \<Rightarrow> 't"
  tp_data_cursor :: "'t \<Rightarrow> nat option"
  tp_restore :: "alternative_scope \<Rightarrow> 't \<Rightarrow> nat \<Rightarrow> nat \<Rightarrow> string + 's"

text \<open>A checked generic application: its fingerprint, the actions of its footprint and one
  specialised scope per plan.\<close>

record application =
  ap_fingerprint :: nat
  ap_actions :: "nat list"
  ap_scopes :: "nat list"

record ('s, 'd, 't) prepared_scope =
  ps_item :: nat
  ps_revision :: nat
  ps_plans :: "('s, 'd, 't) trace_plan list"
  ps_applications :: "application list"
  ps_approval_target :: "nat option"

text \<open>What the interpreter asks the checked program: the target of an action, the monitor label of
  an effect in an item of a program, the validity of an action identity and the span of an item.\<close>

record checked_facts =
  cf_target :: "nat \<Rightarrow> nat"
  cf_canonical :: "nat \<Rightarrow> nat \<Rightarrow> nat \<Rightarrow> string + nat"
  cf_valid_action :: "nat \<Rightarrow> string + unit"
  cf_span :: "nat \<Rightarrow> nat \<Rightarrow> nat option"

definition is_approval :: "checked_facts \<Rightarrow> ('s, 'd, 't) prepared_scope \<Rightarrow> nat \<Rightarrow> bool" where
  "is_approval cf scope action \<longleftrightarrow> ps_approval_target scope = Some (cf_target cf action)"

definition own_obligations :: "('s, 'd, 't) trace_plan \<Rightarrow> nat list" where
  "own_obligations plan =
     map fst (filter (\<lambda>(_, scope, activation). scope = tp_scope plan \<and> activation = tp_activation plan)
       (tp_obligations plan))"

definition obligation_ids :: "('s, 'd, 't) prepared_scope \<Rightarrow> nat list" where
  "obligation_ids scope = sort (remdups (concat (map own_obligations (ps_plans scope))))"

section \<open>Identities are injective\<close>

lemma to_be_bytes_eq:
  "to_be_bytes n = [of_nat (n div 256 ^ 7), of_nat (n div 256 ^ 6), of_nat (n div 256 ^ 5), of_nat (n div 256 ^ 4),
     of_nat (n div 256 ^ 3), of_nat (n div 256 ^ 2), of_nat (n div 256), of_nat n]"
  by (simp add: to_be_bytes_def upt_conv_Cons)

lemma from_to_be_bytes:
  assumes "n < 2 ^ 64"
  shows "from_be_bytes (to_be_bytes n) = n"
proof -
  have split: "x div 256 * 256 + x mod 256 = x" for x :: nat by simp
  have step: "n div 256 ^ Suc k * 256 + n div 256 ^ k mod 256 = n div 256 ^ k" for k
    by (metis div_mult2_eq power_Suc2 split)
  have top: "n div 256 ^ 7 mod 256 = n div 256 ^ 7" using assms by simp
  show ?thesis
    using step [of 6] step [of 5] step [of 4] step [of 3] step [of 2] step [of 1] step [of 0] top
    by (simp add: to_be_bytes_eq from_be_bytes_def unat_of_nat)
qed

lemma length_identity_bytes [simp]: "length (identity_bytes kind n) = 16"
  by (simp add: identity_bytes_def to_be_bytes_def)

lemma identity_bytes_parts [simp]:
  "identity_bytes kind n ! 0 = kind" "take 7 (drop (Suc 0) (identity_bytes kind n)) = replicate 7 0"
  "drop 8 (identity_bytes kind n) = to_be_bytes n"
  by (simp_all add: identity_bytes_def to_be_bytes_def)

lemma identity_bytes_inject:
  assumes "m < 2 ^ 64" "n < 2 ^ 64"
  shows "identity_bytes kind m = identity_bytes kind n \<longleftrightarrow> m = n"
  using from_to_be_bytes [OF assms(1)] from_to_be_bytes [OF assms(2)] identity_bytes_parts(3) by metis

lemma validate_counter_identity_bytes:
  assumes "0 < n" "n \<le> maximum" "maximum < 2 ^ 64"
  shows "validate_counter_identity (identity_bytes kind n) kind maximum = Ok ()"
  using assms by (simp add: validate_counter_identity_def from_to_be_bytes Let_def)

lemma invocation_counter_bytes:
  assumes "0 < n" "n < 2 ^ 64"
  shows "invocation_counter (identity_bytes invocation_kind n) = Ok n"
  using assms by (simp add: invocation_counter_def from_to_be_bytes)

end
