(* ===== verification/Residual_Log.thy ===== *)
theory Residual_Log
  imports Residual_Plan
begin

text \<open>
  The exit log of a run, \<open>control/residual/lifecycle.rs\<close> with its checkpoint form in
  \<open>orchestration/residual.rs\<close>: a bounded ring of exit records, the first unsatisfied exit, and the
  counts of unsatisfied and omitted exits.
\<close>

section \<open>Exits\<close>

datatype exit_kind =
    ExitReturn | ExitNonLocalReturn | ExitErrorPropagation | ExitHandlerFinish | ExitAbort
  | ExitCancellation | ExitFault

definition monitor_exit :: "exit_kind \<Rightarrow> scope_exit" where
  "monitor_exit kind =
     (case kind of ExitReturn \<Rightarrow> ScopeCompleted | ExitCancellation \<Rightarrow> ScopeCancelled | _ \<Rightarrow> ScopeFailed)"

record exit_record =
  er_item :: nat
  er_revision :: nat
  er_obligations :: "nat list"
  er_span :: nat
  er_invocation :: identity
  er_kind :: exit_kind
  er_result :: scope_check_result
  er_unknown :: nat

text \<open>The index of live scopes holds a weak reference, the address of the scope, and its span.\<close>

record run_log =
  rl_scopes :: "(nat \<times> nat) list"
  rl_exits :: "exit_record list"
  rl_first :: "exit_record option"
  rl_unsatisfied :: nat
  rl_dropped :: nat
  rl_capacity :: nat

definition log_new :: "nat \<Rightarrow> run_log" where
  "log_new capacity =
     \<lparr>rl_scopes = [], rl_exits = [], rl_first = None, rl_unsatisfied = 0, rl_dropped = 0, rl_capacity = capacity\<rparr>"

definition saturating_succ :: "nat \<Rightarrow> nat" where
  "saturating_succ n = (if n + 1 < 2 ^ 64 then n + 1 else n)"

abbreviation unsatisfied :: "exit_record \<Rightarrow> bool" where
  "unsatisfied r \<equiv> er_result r \<noteq> Accepting"

definition log_record :: "exit_record \<Rightarrow> run_log \<Rightarrow> run_log" where
  "log_record r self =
     (let self =
        (if unsatisfied r
         then self\<lparr>rl_unsatisfied := saturating_succ (rl_unsatisfied self),
                rl_first := (case rl_first self of None \<Rightarrow> Some r | Some first \<Rightarrow> Some first)\<rparr>
         else self) in
      if rl_capacity self = 0 then self\<lparr>rl_dropped := saturating_succ (rl_dropped self)\<rparr>
      else
        let self =
          (if length (rl_exits self) = rl_capacity self
           then self\<lparr>rl_exits := tl (rl_exits self), rl_dropped := saturating_succ (rl_dropped self)\<rparr>
           else self) in
        self\<lparr>rl_exits := rl_exits self @ [r]\<rparr>)"

section \<open>Diagnostics\<close>

datatype diagnostic_code = TraceSpecResidualViolation | TraceSpecResidualIncomplete

text \<open>A diagnostic is its code and span and the values its message and notes are formatted from.\<close>

record diagnostic =
  dg_code :: diagnostic_code
  dg_record :: exit_record
  dg_count :: nat
  dg_dropped :: nat

definition with_first :: "exit_record option \<Rightarrow> exit_record list \<Rightarrow> exit_record list" where
  "with_first first records =
     (case first of
        None \<Rightarrow> records
      | Some f \<Rightarrow>
          if er_invocation f \<in> set (map er_invocation records) then records else f # records)"

definition take_diagnostics :: "run_log \<Rightarrow> diagnostic list \<times> run_log" where
  "take_diagnostics self =
     (let records = with_first (rl_first self) (filter unsatisfied (rl_exits self)) in
      (map (\<lambda>r. \<lparr>dg_code = (if er_result r = Rejected then TraceSpecResidualViolation else TraceSpecResidualIncomplete),
           dg_record = r, dg_count = rl_unsatisfied self, dg_dropped = rl_dropped self\<rparr>) records,
       self\<lparr>rl_exits := [], rl_first := None, rl_unsatisfied := 0, rl_dropped := 0\<rparr>))"

section \<open>Checkpoints of the log\<close>

datatype exit_kind_snapshot =
    SnapReturn | SnapNonLocalReturn | SnapErrorPropagation | SnapHandlerFinish | SnapAbort
  | SnapCancellation | SnapFault

datatype scope_result_snapshot = SnapAccepting | SnapRejected | SnapPendingEvidence | SnapIncomplete

fun to_kind_snapshot :: "exit_kind \<Rightarrow> exit_kind_snapshot" where
  "to_kind_snapshot ExitReturn = SnapReturn"
| "to_kind_snapshot ExitNonLocalReturn = SnapNonLocalReturn"
| "to_kind_snapshot ExitErrorPropagation = SnapErrorPropagation"
| "to_kind_snapshot ExitHandlerFinish = SnapHandlerFinish"
| "to_kind_snapshot ExitAbort = SnapAbort"
| "to_kind_snapshot ExitCancellation = SnapCancellation"
| "to_kind_snapshot ExitFault = SnapFault"

fun exit_kind_restore :: "exit_kind_snapshot \<Rightarrow> exit_kind" where
  "exit_kind_restore SnapReturn = ExitReturn"
| "exit_kind_restore SnapNonLocalReturn = ExitNonLocalReturn"
| "exit_kind_restore SnapErrorPropagation = ExitErrorPropagation"
| "exit_kind_restore SnapHandlerFinish = ExitHandlerFinish"
| "exit_kind_restore SnapAbort = ExitAbort"
| "exit_kind_restore SnapCancellation = ExitCancellation"
| "exit_kind_restore SnapFault = ExitFault"

fun to_result_snapshot :: "scope_check_result \<Rightarrow> scope_result_snapshot" where
  "to_result_snapshot Accepting = SnapAccepting"
| "to_result_snapshot Rejected = SnapRejected"
| "to_result_snapshot PendingEvidence = SnapPendingEvidence"
| "to_result_snapshot Incomplete = SnapIncomplete"

fun scope_result_restore :: "scope_result_snapshot \<Rightarrow> scope_check_result" where
  "scope_result_restore SnapAccepting = Accepting"
| "scope_result_restore SnapRejected = Rejected"
| "scope_result_restore SnapPendingEvidence = PendingEvidence"
| "scope_result_restore SnapIncomplete = Incomplete"

record exit_snapshot =
  es_kind :: exit_kind_snapshot
  es_result :: scope_result_snapshot

record exit_record_snapshot =
  xs_item :: nat
  xs_revision :: nat
  xs_invocation :: identity
  xs_exit :: exit_snapshot
  xs_unknown :: nat

record exit_log_snapshot =
  ls_unsatisfied :: nat
  ls_omitted :: nat
  ls_records :: "exit_record_snapshot list"

text \<open>The first error of a loop over a list, otherwise the list of results.\<close>

fun traverse :: "('a \<Rightarrow> 'e + 'b) \<Rightarrow> 'a list \<Rightarrow> 'e + 'b list" where
  "traverse f [] = Ok []"
| "traverse f (x # xs) = rbind (f x) (\<lambda>y. rbind (traverse f xs) (\<lambda>ys. Ok (y # ys)))"

type_synonym ('s, 'd, 't) prepared_plans = "nat \<Rightarrow> ('s, 'd, 't) prepared_scope option"

definition snapshot_record ::
  "('s, 'd, 't) prepared_plans \<Rightarrow> exit_record \<Rightarrow> string + exit_record_snapshot"
where
  "snapshot_record prepared r =
     (if (case prepared (er_item r) of None \<Rightarrow> True | Some scope \<Rightarrow> ps_revision scope \<noteq> er_revision r)
      then Err ''residual exit history is not bound to the checkpoint root's checked plans''
      else Ok \<lparr>xs_item = er_item r, xs_revision = er_revision r, xs_invocation = er_invocation r,
        xs_exit = \<lparr>es_kind = to_kind_snapshot (er_kind r), es_result = to_result_snapshot (er_result r)\<rparr>,
        xs_unknown = er_unknown r\<rparr>)"

definition log_snapshot :: "('s, 'd, 't) prepared_plans \<Rightarrow> run_log \<Rightarrow> string + exit_log_snapshot" where
  "log_snapshot prepared self =
     (let records = filter unsatisfied (rl_exits self);
          records = (case rl_first self of
             None \<Rightarrow> records
           | Some first \<Rightarrow>
               if er_invocation first \<in> set (map er_invocation records) then records
               else first # (if length records = max (rl_capacity self) 1 then butlast records else records)) in
      rbind (traverse (snapshot_record prepared) records) (\<lambda>records.
      Ok \<lparr>ls_unsatisfied = rl_unsatisfied self, ls_omitted = rl_dropped self, ls_records = records\<rparr>))"

definition restore_record ::
  "checked_facts \<Rightarrow> nat \<Rightarrow> ('s, 'd, 't) prepared_plans \<Rightarrow> exit_record_snapshot \<Rightarrow> string + exit_record"
where
  "restore_record cf checked prepared saved =
     (case prepared (xs_item saved) of
        None \<Rightarrow> Err ''checkpoint residual exit history names an unbound revision''
      | Some scope \<Rightarrow>
          if ps_revision scope \<noteq> xs_revision saved
          then Err ''checkpoint residual exit history names an unbound revision''
          else
            rbind (ok_or (cf_span cf checked (xs_item saved)) ''checkpoint residual exit has no checked declaration'') (\<lambda>span.
            Ok \<lparr>er_item = xs_item saved, er_revision = xs_revision saved, er_obligations = obligation_ids scope,
              er_span = span, er_invocation = xs_invocation saved, er_kind = exit_kind_restore (es_kind (xs_exit saved)),
              er_result = scope_result_restore (es_result (xs_exit saved)), er_unknown = xs_unknown saved\<rparr>))"

definition restore_history ::
  "checked_facts \<Rightarrow> nat \<Rightarrow> ('s, 'd, 't) prepared_plans \<Rightarrow> exit_log_snapshot \<Rightarrow> run_log \<Rightarrow> string + run_log"
where
  "restore_history cf checked prepared saved self =
     (if rl_unsatisfied self \<noteq> 0 \<or> rl_exits self \<noteq> []
      then Err ''residual exit history was restored into a nonempty run''
      else if length (ls_records saved) > max (rl_capacity self) 1
      then Err ''checkpoint residual exit history exceeds the current record ceiling''
      else
        rbind (traverse (restore_record cf checked prepared) (ls_records saved)) (\<lambda>records.
        Ok (self\<lparr>rl_first := (case records of [] \<Rightarrow> None | r # _ \<Rightarrow> Some r), rl_exits := records,
          rl_unsatisfied := ls_unsatisfied saved, rl_dropped := ls_omitted saved\<rparr>)))"

definition max_checkpoint_exits :: nat where
  "max_checkpoint_exits = 1024"

definition max_checkpoint_entries :: nat where
  "max_checkpoint_entries = 4096"

fun validate_records :: "nat \<Rightarrow> identity list \<Rightarrow> exit_record_snapshot list \<Rightarrow> string + unit" where
  "validate_records next_invocation seen [] = Ok ()"
| "validate_records next_invocation seen (r # rs) =
     rbind (validate_counter_identity (xs_invocation r) invocation_kind next_invocation) (\<lambda>_.
     if xs_invocation r \<in> set seen \<or> es_result (xs_exit r) = SnapAccepting \<or> xs_unknown r > max_checkpoint_entries
     then Err ''checkpoint residual exit history has an invalid record''
     else validate_records next_invocation (xs_invocation r # seen) rs)"

definition validate_exits :: "nat \<Rightarrow> exit_log_snapshot \<Rightarrow> string + unit" where
  "validate_exits next_invocation self =
     (if length (ls_records self) > max_checkpoint_exits \<or> length (ls_records self) > ls_unsatisfied self \<or>
         ls_unsatisfied self > next_invocation \<or> ls_omitted self > next_invocation \<or>
         (ls_unsatisfied self = 0) \<noteq> (ls_records self = [])
      then Err ''checkpoint residual exit history has invalid counts''
      else validate_records next_invocation [] (ls_records self))"

end
