(* ===== verification/Residual_State.thy ===== *)
theory Residual_State
  imports Residual_Log
begin

text \<open>
  One live residual scope, \<open>ResidualScopeInstance\<close> of \<open>control/residual/state.rs\<close>: the states of its
  plans, the outcomes of its actions as evidence, the attempts whose outcome is outstanding, the
  version and cursor of its last event, and its exit. A method on \<open>&mut self\<close> returns the new scope
  also on an error.
\<close>

section \<open>State\<close>

record state_limits =
  sl_components :: nat
  sl_labels :: nat
  sl_outcomes :: nat
  sl_pending :: nat
  sl_active_scopes :: nat
  sl_exit_records :: nat

definition state_limits_default :: state_limits where
  "state_limits_default =
     \<lparr>sl_components = 256, sl_labels = 4096, sl_outcomes = 4096, sl_pending = 256, sl_active_scopes = 1024,
      sl_exit_records = 1024\<rparr>"

datatype outcome_status = OutcomeAccepted | OutcomeDenied | OutcomeFailed

datatype accepted_outcome = CurrentRun identity nat | Historical identity nat

fun outcome_history :: "accepted_outcome \<Rightarrow> identity \<times> nat" where
  "outcome_history (CurrentRun i c) = (i, c)"
| "outcome_history (Historical i c) = (i, c)"

fun outcome_current :: "accepted_outcome \<Rightarrow> (identity \<times> nat) option" where
  "outcome_current (CurrentRun i c) = Some (i, c)"
| "outcome_current (Historical i c) = None"

record outcome_entry =
  oe_action :: nat
  oe_accepted :: "accepted_outcome option"
  oe_rejected :: "outcome_status option"

record pending_entry =
  pn_attempt :: identity
  pn_action :: nat

datatype 'd residual_preview = PreviewPermit "'d list" | PreviewNeedsEvidence | PreviewReject

record ('s, 'd, 't) scope_instance =
  si_prepared :: "('s, 'd, 't) prepared_scope"
  si_application :: application
  si_program :: nat
  si_invocation :: identity
  si_span :: nat
  si_states :: "'s list"
  si_labels :: "(nat \<times> nat) list"
  si_outcomes :: "outcome_entry list"
  si_pending :: "pending_entry list"
  si_version :: nat
  si_last_cursor :: "nat option"
  si_exit :: "(exit_kind \<times> scope_check_result) option"
  si_limits :: state_limits

abbreviation is_active :: "('s, 'd, 't) scope_instance \<Rightarrow> bool" where
  "is_active self \<equiv> si_exit self = None"

definition checked_incr :: "nat \<Rightarrow> string \<Rightarrow> string + nat" where
  "checked_incr n message = (if n + 1 < 2 ^ 64 then Ok (n + 1) else Err message)"

section \<open>Activation\<close>

text \<open>The budget is the number of obligations at the plans' own sites; \<open>checked_sub\<close> fails on the
  first one too many.\<close>

definition validate_component_budget :: "('s, 'd, 't) prepared_scope \<Rightarrow> nat \<Rightarrow> string + unit" where
  "validate_component_budget prepared limit =
     (if length (concat (map own_obligations (ps_plans prepared))) > limit
      then Err ''residual scope exceeded its aggregate component ceiling'' else Ok ())"

definition scope_site ::
  "('s, 'd, 't) prepared_scope \<Rightarrow> identity \<Rightarrow> ('s, 'd, 't) trace_plan \<Rightarrow> alternative_scope"
where
  "scope_site prepared invocation plan =
     \<lparr>as_scope = tp_scope plan, as_activation = tp_activation plan, as_revision = ps_revision prepared,
      as_invocation = invocation\<rparr>"

text \<open>Indexing the specialised scopes out of range panics; here it is an error that says so.\<close>

definition specialized :: "application \<Rightarrow> nat \<Rightarrow> string + nat" where
  "specialized application index =
     (if index < length (ap_scopes application) then Ok (ap_scopes application ! index)
      else Err ''panic: index out of bounds'')"

definition with_context :: "string \<Rightarrow> string + 'a \<Rightarrow> string + 'a" where
  "with_context context r = (case r of Inl e \<Rightarrow> Inl (context @ e) | Inr x \<Rightarrow> Inr x)"

lemma with_context_eq_Inr [simp]: "with_context c r = Inr x \<longleftrightarrow> r = Inr x"
  by (cases r) (simp_all add: with_context_def)

definition initial_state ::
  "('s, 'd, 't) prepared_scope \<Rightarrow> application \<Rightarrow> identity \<Rightarrow> nat \<Rightarrow> nat \<times> ('s, 'd, 't) trace_plan \<Rightarrow> string + 's"
where
  "initial_state prepared application invocation maximum entry =
     rbind (specialized application (fst entry)) (\<lambda>special.
     with_context ''residual scope cannot be activated: ''
       (tp_initial (snd entry) (scope_site prepared invocation (snd entry)) maximum special))"

definition activate ::
  "checked_facts \<Rightarrow> ('s, 'd, 't) prepared_scope \<Rightarrow> application \<Rightarrow> nat \<Rightarrow> identity \<Rightarrow> state_limits
    \<Rightarrow> string + ('s, 'd, 't) scope_instance"
where
  "activate cf prepared application program invocation limits =
     rbind (ok_or (cf_span cf program (ps_item prepared)) ''residual scope has no checked declaration'') (\<lambda>span.
     rbind (validate_component_budget prepared (sl_components limits)) (\<lambda>_.
     rbind (traverse (initial_state prepared application invocation (sl_components limits))
       (enumerate 0 (ps_plans prepared))) (\<lambda>states.
     Ok \<lparr>si_prepared = prepared, si_application = application, si_program = program, si_invocation = invocation,
       si_span = span, si_states = states, si_labels = [], si_outcomes = [], si_pending = [], si_version = 0,
       si_last_cursor = None, si_exit = None, si_limits = limits\<rparr>)))"

section \<open>Labels\<close>

definition pending_action :: "('s, 'd, 't) scope_instance \<Rightarrow> identity \<Rightarrow> nat option" where
  "pending_action self attempt =
     map_option pn_action (find (\<lambda>p. pn_attempt p = attempt) (si_pending self))"

definition validate_saved_action :: "checked_facts \<Rightarrow> ('s, 'd, 't) scope_instance \<Rightarrow> nat \<Rightarrow> string + unit" where
  "validate_saved_action cf self action =
     rbind (with_context ''checkpoint residual action identity is invalid: '' (cf_valid_action cf action)) (\<lambda>_.
     if action \<notin> set (ap_actions (si_application self))
     then Err ''checkpoint residual action is absent from the checked scope footprint'' else Ok ())"

definition label ::
  "checked_facts \<Rightarrow> nat \<Rightarrow> ('s, 'd, 't) scope_instance \<Rightarrow> (string + nat) \<times> ('s, 'd, 't) scope_instance"
where
  "label cf effect self =
     (case map_of (si_labels self) effect of
        Some action \<Rightarrow> (Ok action, self)
      | None \<Rightarrow>
          if length (si_labels self) \<ge> sl_labels (si_limits self)
          then (Err ''residual scope exceeded its action label ceiling'', self)
          else
            (case with_context ''governed action has no residual monitor label: ''
                (cf_canonical cf (si_program self) (ps_item (si_prepared self)) effect) of
               Inl e \<Rightarrow> (Err e, self)
             | Inr action \<Rightarrow> (Ok action, self\<lparr>si_labels := (effect, action) # si_labels self\<rparr>)))"

section \<open>Evidence\<close>

text \<open>The latest accepted outcome of this run that the guard covers and that lies before the
  attempt.\<close>

fun latest_accepted ::
  "evidence_query \<Rightarrow> (identity \<times> nat) option \<Rightarrow> outcome_entry list \<Rightarrow> (identity \<times> nat) option"
where
  "latest_accepted q best [] = best"
| "latest_accepted q best (entry # entries) =
     latest_accepted q
       (if eq_covers q (oe_action entry) then
          (case Option.bind (oe_accepted entry) outcome_current of
             Some (i, completed_at) \<Rightarrow>
               if completed_at < at_cursor (eq_attempt q) \<and> i \<noteq> at_id (eq_attempt q) \<and>
                  (case best of None \<Rightarrow> True | Some (_, latest) \<Rightarrow> completed_at > latest)
               then Some (i, completed_at) else best
           | None \<Rightarrow> best)
        else best) entries"

definition any_rejected :: "evidence_query \<Rightarrow> outcome_status \<Rightarrow> outcome_entry list \<Rightarrow> bool" where
  "any_rejected q status entries \<longleftrightarrow>
     (\<exists>entry \<in> set entries. eq_covers q (oe_action entry) \<and> oe_rejected entry = Some status)"

definition query_evidence :: "('s, 'd, 't) scope_instance \<Rightarrow> evidence_query \<Rightarrow> evidence_status" where
  "query_evidence self q =
     (let attempt = eq_attempt q in
      case latest_accepted q None (si_outcomes self) of
        Some (guard_attempt, completed_at) \<Rightarrow>
          EvidenceAccepted
            \<lparr>pe_scope = at_scope attempt, pe_activation = at_activation attempt, pe_revision = at_revision attempt,
             pe_invocation = at_invocation attempt, pe_guard = eq_guard q, pe_target = eq_target q,
             pe_guard_attempt = guard_attempt, pe_completed_at = completed_at\<rparr>
      | None \<Rightarrow>
          if \<exists>p \<in> set (si_pending self). pn_attempt p \<noteq> at_id attempt \<and> eq_covers q (pn_action p)
          then EvidencePending
          else if any_rejected q OutcomeDenied (si_outcomes self) then EvidenceDenied
          else if any_rejected q OutcomeFailed (si_outcomes self) then EvidenceFailed
          else EvidenceAbsent)"

section \<open>Attempts\<close>

definition validate_next_cursor :: "('s, 'd, 't) scope_instance \<Rightarrow> nat \<Rightarrow> string + unit" where
  "validate_next_cursor self cursor =
     (if cursor = 0 \<or> (case si_last_cursor self of None \<Rightarrow> False | Some recorded \<Rightarrow> cursor \<le> recorded)
      then Err ''residual scope event cursor did not advance'' else Ok ())"

definition component_attempt ::
  "('s, 'd, 't) scope_instance \<Rightarrow> ('s, 'd, 't) trace_plan \<Rightarrow> identity \<Rightarrow> nat \<Rightarrow> nat \<Rightarrow> nat
    \<Rightarrow> string + nat \<times> concrete_attempt"
where
  "component_attempt self plan attempt cursor action component_id =
     (case tp_component plan component_id of
        Some (TraceComponent bindings) \<Rightarrow>
          rbind (ok_or (tp_layout plan bindings) ''residual scope component has no binding layout'') (\<lambda>layout.
          rbind (with_context ''residual action bindings are invalid: '' (tp_bindings plan layout)) (\<lambda>bound.
          Ok (component_id, \<lparr>at_scope = tp_scope plan, at_activation = tp_activation plan,
            at_revision = ps_revision (si_prepared self), at_invocation = si_invocation self, at_id = attempt,
            at_cursor = cursor, at_action = action, at_bindings = bound\<rparr>)))
      | _ \<Rightarrow> Err ''residual scope component is not an installed trace'')"

definition preview_plan ::
  "('s, 'd, 't) scope_instance \<Rightarrow> ('s, 'd, 't) trace_plan \<Rightarrow> 's \<Rightarrow> identity \<Rightarrow> nat \<Rightarrow> nat \<Rightarrow> string + 'd scope_decision"
where
  "preview_plan self plan st attempt cursor action =
     rbind (traverse (component_attempt self plan attempt cursor action) (tp_component_ids plan st)) (\<lambda>attempts.
     with_context ''residual monitor step failed: ''
       (tp_preview plan st \<lparr>ev_id = attempt, ev_cursor = cursor, ev_action = action\<rparr> attempts (query_evidence self)))"

fun preview_plans ::
  "('s, 'd, 't) scope_instance \<Rightarrow> identity \<Rightarrow> nat \<Rightarrow> nat \<Rightarrow> (('s, 'd, 't) trace_plan \<times> 's) list
    \<Rightarrow> string + 'd residual_preview"
where
  "preview_plans self attempt cursor action [] = Ok (PreviewPermit [])"
| "preview_plans self attempt cursor action ((plan, st) # rest) =
     rbind (preview_plan self plan st attempt cursor action) (\<lambda>decision.
     case decision of
       DecidePermit delta \<Rightarrow>
         rbind (preview_plans self attempt cursor action rest) (\<lambda>later.
         Ok (case later of PreviewPermit deltas \<Rightarrow> PreviewPermit (delta # deltas) | other \<Rightarrow> other))
     | DecideNeedsEvidence \<Rightarrow> Ok PreviewNeedsEvidence
     | DecideReject \<Rightarrow> Ok PreviewReject)"

definition preview ::
  "('s, 'd, 't) scope_instance \<Rightarrow> identity \<Rightarrow> nat \<Rightarrow> nat \<Rightarrow> string + 'd residual_preview"
where
  "preview self attempt cursor action =
     (if si_exit self \<noteq> None then Err ''residual scope received an event after it exited''
      else rbind (validate_next_cursor self cursor) (\<lambda>_.
        preview_plans self attempt cursor action (zip (ps_plans (si_prepared self)) (si_states self))))"

text \<open>The loop over plans, states and transitions stops at the first stale transition and leaves the
  earlier states advanced.\<close>

fun commit_states ::
  "('s, 'd, 't) trace_plan list \<Rightarrow> 's list \<Rightarrow> 'd list \<Rightarrow> (string + unit) \<times> 's list"
where
  "commit_states (plan # plans) (st # sts) (delta # deltas) =
     (case tp_commit plan st delta of
        (Inl e, st') \<Rightarrow> (Err (''residual transition is stale: '' @ e), st' # sts)
      | (Inr _, st') \<Rightarrow> (case commit_states plans sts deltas of (r, sts') \<Rightarrow> (r, st' # sts')))"
| "commit_states plans sts deltas = (Ok (), sts)"

definition commit ::
  "'d list \<Rightarrow> identity \<Rightarrow> nat \<Rightarrow> nat \<Rightarrow> ('s, 'd, 't) scope_instance
    \<Rightarrow> (string + nat) \<times> ('s, 'd, 't) scope_instance"
where
  "commit deltas attempt cursor action self =
     (if si_exit self \<noteq> None then (Err ''residual scope committed a transition after it exited'', self)
      else
        case rbind (validate_next_cursor self cursor) (\<lambda>_.
             rbind (checked_incr (si_version self) ''residual scope version is exhausted'') (\<lambda>version.
             if length deltas \<noteq> length (si_states self) then Err ''residual commit does not cover every scope plan''
             else if length (si_pending self) \<ge> sl_pending (si_limits self)
             then Err ''residual scope exceeded its pending outcome ceiling''
             else Ok version)) of
          Inl e \<Rightarrow> (Err e, self)
        | Inr version \<Rightarrow>
            (case commit_states (ps_plans (si_prepared self)) (si_states self) deltas of
               (Inl e, states) \<Rightarrow> (Err e, self\<lparr>si_states := states\<rparr>)
             | (Inr _, states) \<Rightarrow>
                 (Ok version,
                  self\<lparr>si_states := states, si_pending := si_pending self @ [\<lparr>pn_attempt = attempt, pn_action = action\<rparr>],
                    si_version := version, si_last_cursor := Some cursor\<rparr>)))"

section \<open>Outcomes\<close>

fun position_of :: "('a \<Rightarrow> bool) \<Rightarrow> 'a list \<Rightarrow> nat option" where
  "position_of p [] = None"
| "position_of p (x # xs) = (if p x then Some 0 else map_option Suc (position_of p xs))"

definition remove_at :: "nat \<Rightarrow> 'a list \<Rightarrow> 'a list" where
  "remove_at i xs = take i xs @ drop (Suc i) xs"

definition put_status :: "outcome_status \<Rightarrow> identity \<Rightarrow> nat \<Rightarrow> outcome_entry \<Rightarrow> outcome_entry" where
  "put_status status attempt completed_at entry =
     (case status of
        OutcomeAccepted \<Rightarrow> entry\<lparr>oe_accepted := Some (CurrentRun attempt completed_at)\<rparr>
      | _ \<Rightarrow> entry\<lparr>oe_rejected := Some status\<rparr>)"

definition record_outcome ::
  "identity \<Rightarrow> outcome_status \<Rightarrow> nat \<Rightarrow> ('s, 'd, 't) scope_instance
    \<Rightarrow> string + ('s, 'd, 't) scope_instance"
where
  "record_outcome attempt status completed_at self =
     (if si_exit self \<noteq> None then Ok self
      else
        rbind (validate_next_cursor self completed_at) (\<lambda>_.
        rbind (checked_incr (si_version self) ''residual scope version is exhausted'') (\<lambda>version.
        rbind (ok_or (position_of (\<lambda>p. pn_attempt p = attempt) (si_pending self))
          ''residual outcome does not correlate with a dispatched attempt'') (\<lambda>position.
        let action = pn_action (si_pending self ! position);
            outcome_index = position_of (\<lambda>entry. oe_action entry = action) (si_outcomes self) in
        if outcome_index = None \<and> length (si_outcomes self) \<ge> sl_outcomes (si_limits self)
        then Err ''residual scope exceeded its evidence ceiling''
        else
          let (index, outcomes) =
            (case outcome_index of
               Some index \<Rightarrow> (index, si_outcomes self)
             | None \<Rightarrow>
                 (length (si_outcomes self),
                  si_outcomes self @ [\<lparr>oe_action = action, oe_accepted = None, oe_rejected = None\<rparr>])) in
          Ok (self\<lparr>si_pending := remove_at position (si_pending self),
            si_outcomes := outcomes[index := put_status status attempt completed_at (outcomes ! index)],
            si_version := version, si_last_cursor := Some completed_at\<rparr>)))))"

section \<open>Exit\<close>

definition combine_result :: "scope_check_result \<Rightarrow> scope_check_result \<Rightarrow> scope_check_result" where
  "combine_result combined result =
     (if combined = Rejected \<or> result = Rejected then Rejected
      else if combined = Incomplete \<or> result = Incomplete then Incomplete
      else if combined = PendingEvidence \<or> result = PendingEvidence then PendingEvidence
      else Accepting)"

fun check_plans ::
  "scope_exit \<Rightarrow> nat \<Rightarrow> scope_check_result \<Rightarrow> (('s, 'd, 't) trace_plan \<times> 's) list \<Rightarrow> string + scope_check_result"
where
  "check_plans exit maximum combined [] = Ok combined"
| "check_plans exit maximum combined ((plan, st) # rest) =
     rbind (with_context ''residual scope exit check failed: '' (tp_finish plan st exit maximum)) (\<lambda>result.
     check_plans exit maximum (combine_result combined result) rest)"

definition exit_record_of ::
  "('s, 'd, 't) scope_instance \<Rightarrow> exit_kind \<Rightarrow> scope_check_result \<Rightarrow> exit_record"
where
  "exit_record_of self kind result =
     \<lparr>er_item = ps_item (si_prepared self), er_revision = ps_revision (si_prepared self),
      er_obligations = obligation_ids (si_prepared self), er_span = si_span self,
      er_invocation = si_invocation self, er_kind = kind, er_result = result,
      er_unknown = length (si_pending self)\<rparr>"

definition record_exit ::
  "exit_kind \<Rightarrow> scope_check_result \<Rightarrow> ('s, 'd, 't) scope_instance \<Rightarrow> run_log
    \<Rightarrow> ('s, 'd, 't) scope_instance \<times> run_log"
where
  "record_exit kind result self log =
     (self\<lparr>si_exit := Some (kind, result)\<rparr>, log_record (exit_record_of self kind result) log)"

definition finish_scope ::
  "exit_kind \<Rightarrow> ('s, 'd, 't) scope_instance \<Rightarrow> run_log
    \<Rightarrow> (string + scope_check_result) \<times> ('s, 'd, 't) scope_instance \<times> run_log"
where
  "finish_scope kind self log =
     (case si_exit self of
        Some (recorded, result) \<Rightarrow>
          (if recorded = kind \<or> kind = ExitAbort then Ok result else Err ''residual scope exited twice'', self, log)
      | None \<Rightarrow>
          (case check_plans (monitor_exit kind) (sl_pending (si_limits self)) Accepting
              (zip (ps_plans (si_prepared self)) (si_states self)) of
             Inl e \<Rightarrow> (Err e, self, log)
           | Inr combined \<Rightarrow>
               let combined = (if monitor_exit kind \<noteq> ScopeCompleted \<and> combined = Accepting then Incomplete else combined);
                   combined = (if monitor_exit kind = ScopeCompleted \<and> si_pending self \<noteq> [] \<and> combined = Accepting
                     then PendingEvidence else combined) in
               (Ok combined, record_exit kind combined self log)))"

definition drop_instance :: "('s, 'd, 't) scope_instance \<Rightarrow> run_log \<Rightarrow> run_log" where
  "drop_instance self log =
     (if si_exit self = None then snd (record_exit ExitAbort Incomplete self log) else log)"

section \<open>Checkpoints of a scope\<close>

datatype status_snapshot = SnapDenied | SnapFailed

record evidence_snapshot =
  vs_attempt :: identity
  vs_completed_at :: nat

record outcome_snapshot =
  os_action :: nat
  os_accepted :: "evidence_snapshot option"
  os_rejected :: "status_snapshot option"

record pending_snapshot =
  np_attempt :: identity
  np_action :: nat

record 't scope_snapshot =
  ss_item :: nat
  ss_application :: nat
  ss_revision :: nat
  ss_invocation :: identity
  ss_version :: nat
  ss_last_cursor :: "nat option"
  ss_states :: "'t list"
  ss_outcomes :: "outcome_snapshot list"
  ss_pending :: "pending_snapshot list"
  ss_exit :: "exit_snapshot option"

definition snapshot_outcome :: "outcome_entry \<Rightarrow> outcome_snapshot" where
  "snapshot_outcome entry =
     \<lparr>os_action = oe_action entry,
      os_accepted = map_option (\<lambda>a. \<lparr>vs_attempt = fst (outcome_history a), vs_completed_at = snd (outcome_history a)\<rparr>)
        (oe_accepted entry),
      os_rejected = map_option (\<lambda>st. if st = OutcomeDenied then SnapDenied else SnapFailed) (oe_rejected entry)\<rparr>"

definition snapshot_scope :: "('s, 'd, 't) scope_instance \<Rightarrow> 't scope_snapshot" where
  "snapshot_scope self =
     \<lparr>ss_item = ps_item (si_prepared self), ss_application = ap_fingerprint (si_application self),
      ss_revision = ps_revision (si_prepared self), ss_invocation = si_invocation self, ss_version = si_version self,
      ss_last_cursor = si_last_cursor self,
      ss_states = map (\<lambda>(plan, st). tp_to_data plan st) (zip (ps_plans (si_prepared self)) (si_states self)),
      ss_outcomes = map snapshot_outcome (si_outcomes self),
      ss_pending = map (\<lambda>p. \<lparr>np_attempt = pn_attempt p, np_action = pn_action p\<rparr>) (si_pending self),
      ss_exit = map_option (\<lambda>(kind, result). \<lparr>es_kind = to_kind_snapshot kind, es_result = to_result_snapshot result\<rparr>)
        (si_exit self)\<rparr>"

text \<open>Options are ordered with \<open>None\<close> first.\<close>

definition cursor_after :: "nat option \<Rightarrow> nat option \<Rightarrow> bool" where
  "cursor_after a b = (case (a, b) of (None, _) \<Rightarrow> False | (Some _, None) \<Rightarrow> True | (Some x, Some y) \<Rightarrow> x > y)"

definition restore_state ::
  "('s, 'd, 't) prepared_scope \<Rightarrow> application \<Rightarrow> identity \<Rightarrow> nat \<Rightarrow> nat \<times> ('s, 'd, 't) trace_plan \<times> 't \<Rightarrow> string + 's"
where
  "restore_state prepared application invocation maximum entry =
     (case entry of (index, plan, data) \<Rightarrow>
        rbind (specialized application index) (\<lambda>special.
        with_context ''residual checkpoint scope state is invalid: ''
          (tp_restore plan (scope_site prepared invocation plan) data maximum special)))"

definition restore_accepted :: "checked_facts \<Rightarrow> ('s, 'd, 't) prepared_scope \<Rightarrow> nat \<Rightarrow> evidence_snapshot \<Rightarrow> accepted_outcome" where
  "restore_accepted cf prepared action evidence =
     (if is_approval cf prepared action then Historical (vs_attempt evidence) (vs_completed_at evidence)
      else CurrentRun (vs_attempt evidence) (vs_completed_at evidence))"

fun restore_outcomes ::
  "checked_facts \<Rightarrow> nat option \<Rightarrow> ('s, 'd, 't) scope_instance \<Rightarrow> outcome_snapshot list \<Rightarrow> string + ('s, 'd, 't) scope_instance"
where
  "restore_outcomes cf bound self [] = Ok self"
| "restore_outcomes cf bound self (saved # rest) =
     rbind (validate_saved_action cf self (os_action saved)) (\<lambda>_.
     if os_action saved \<in> set (map oe_action (si_outcomes self))
     then Err ''residual checkpoint scope repeats an outcome label''
     else if os_accepted saved = None \<and> os_rejected saved = None
     then Err ''residual checkpoint outcome records no status''
     else if (case os_accepted saved of
                None \<Rightarrow> False
              | Some evidence \<Rightarrow> vs_completed_at evidence = 0 \<or> cursor_after (Some (vs_completed_at evidence)) bound)
     then Err ''residual checkpoint evidence postdates its scope state''
     else
       restore_outcomes cf bound
         (self\<lparr>si_outcomes := si_outcomes self @
           [\<lparr>oe_action = os_action saved,
             oe_accepted = map_option (restore_accepted cf (si_prepared self) (os_action saved)) (os_accepted saved),
             oe_rejected = map_option (\<lambda>st. case st of SnapDenied \<Rightarrow> OutcomeDenied | SnapFailed \<Rightarrow> OutcomeFailed)
               (os_rejected saved)\<rparr>]\<rparr>) rest)"

fun restore_pending ::
  "checked_facts \<Rightarrow> ('s, 'd, 't) scope_instance \<Rightarrow> pending_snapshot list \<Rightarrow> string + ('s, 'd, 't) scope_instance"
where
  "restore_pending cf self [] = Ok self"
| "restore_pending cf self (saved # rest) =
     (if np_attempt saved \<in> set (map pn_attempt (si_pending self))
      then Err ''residual checkpoint scope repeats a pending attempt''
      else rbind (validate_saved_action cf self (np_action saved)) (\<lambda>_.
        restore_pending cf
          (self\<lparr>si_pending := si_pending self @ [\<lparr>pn_attempt = np_attempt saved, pn_action = np_action saved\<rparr>]\<rparr>) rest))"

definition restore_exit :: "exit_snapshot option \<Rightarrow> (exit_kind \<times> scope_check_result) option" where
  "restore_exit = map_option (\<lambda>e. (exit_kind_restore (es_kind e), scope_result_restore (es_result e)))"

definition restore_scope ::
  "checked_facts \<Rightarrow> 't scope_snapshot \<Rightarrow> ('s, 'd, 't) prepared_scope \<Rightarrow> nat \<Rightarrow> state_limits
    \<Rightarrow> string + ('s, 'd, 't) scope_instance"
where
  "restore_scope cf saved prepared program limits =
     (if ss_item saved \<noteq> ps_item prepared
      then Err ''residual checkpoint scope belongs to a different callable''
      else if ss_revision saved \<noteq> ps_revision prepared
      then Err ''residual checkpoint scope was bound to a different checked revision''
      else if length (ss_states saved) \<noteq> length (ps_plans prepared)
      then Err ''residual checkpoint scope does not cover every installed plan''
      else
        rbind (ok_or (find (\<lambda>a. ap_fingerprint a = ss_application saved) (ps_applications prepared))
          ''residual checkpoint has no matching checked application'') (\<lambda>application.
        rbind (ok_or (cf_span cf program (ps_item prepared))
          ''residual checkpoint scope has no checked declaration'') (\<lambda>span.
        rbind (validate_component_budget prepared (sl_components limits)) (\<lambda>_.
        if length (ss_outcomes saved) > sl_outcomes limits \<or> length (ss_pending saved) > sl_pending limits
        then Err ''residual checkpoint scope exceeds its state ceilings''
        else
          rbind (traverse (restore_state prepared application (ss_invocation saved) (sl_components limits))
            (enumerate 0 (zip (ps_plans prepared) (ss_states saved)))) (\<lambda>states.
          if \<exists>(plan, data) \<in> set (zip (ps_plans prepared) (ss_states saved)).
               cursor_after (tp_data_cursor plan data) (ss_last_cursor saved)
          then Err ''residual checkpoint attempt postdates its scope state''
          else if (ss_version saved = 0) \<noteq> (ss_last_cursor saved = None)
          then Err ''residual checkpoint scope version disagrees with its event cursor''
          else
            rbind (restore_outcomes cf (ss_last_cursor saved)
              \<lparr>si_prepared = prepared, si_application = application, si_program = program,
                si_invocation = ss_invocation saved, si_span = span, si_states = states, si_labels = [],
                si_outcomes = [], si_pending = [], si_version = ss_version saved,
                si_last_cursor = ss_last_cursor saved, si_exit = None, si_limits = limits\<rparr> (ss_outcomes saved)) (\<lambda>self.
            rbind (restore_pending cf self (ss_pending saved)) (\<lambda>self.
            Ok (self\<lparr>si_exit := restore_exit (ss_exit saved)\<rparr>))))))))"

definition cursor_floor :: "('s, 'd, 't) scope_instance \<Rightarrow> nat" where
  "cursor_floor self = (case si_last_cursor self of None \<Rightarrow> 0 | Some cursor \<Rightarrow> cursor)"

end
