(* ===== verification/Residual_Run.thy ===== *)
theory Residual_Run
  imports Residual_State Value
begin

text \<open>
  The residual monitors of a run: \<open>eval/residual/\<close> (observation, outcomes, activation and exit),
  the dispatch permits of \<open>control/residual/permit.rs\<close>, the index of live scopes of
  \<open>control/residual/lifecycle.rs\<close>, the end of a run in \<open>driver/residual_exit.rs\<close> and the
  checkpoint of the whole in \<open>eval/machine\<close> and \<open>orchestration/residual.rs\<close>.

  Scopes and attempts are shared cells (\<open>Rc<RefCell<_>>\<close>, \<open>Rc<_>\<close>): a run holds a store that maps
  addresses to scopes and to attempts. No operation keeps a cell borrowed while it calls another
  one, so the \<open>try_borrow\<close> errors do not occur and are left out. A strong reference always finds its
  cell; looking up an address that is not in the store is an error that says so.
\<close>

section \<open>State\<close>

record observed_scope =
  ob_cell :: nat
  ob_action :: nat
  ob_version :: nat

record residual_attempt =
  ra_id :: identity
  ra_cursor :: nat
  ra_scopes :: "observed_scope list"
  ra_decision :: bool
  ra_trusted :: "bool option"
  ra_dispatched :: bool
  ra_completed :: bool

definition attempt_new :: "identity \<Rightarrow> nat \<Rightarrow> observed_scope list \<Rightarrow> bool \<Rightarrow> residual_attempt" where
  "attempt_new i cursor scopes decision =
     \<lparr>ra_id = i, ra_cursor = cursor, ra_scopes = scopes, ra_decision = decision, ra_trusted = None,
      ra_dispatched = False, ra_completed = False\<rparr>"

text \<open>A governed action as checked: the program it was checked in and its effect.\<close>

record checked_action =
  ca_program :: nat
  ca_effect :: nat

text \<open>The mirror of the machine's frames, innermost last. A revision boundary carries the relocation
  of actions to the parent program, or why there is none.\<close>

datatype mirror_entry =
    MirrorScope nat
  | MirrorBoundary "string + (checked_action \<Rightarrow> string + checked_action)"

text \<open>The mirror counts the scopes among its entries.\<close>

record residual_mirror =
  rm_entries :: "mirror_entry list"
  rm_scopes :: nat

fun is_scope_entry :: "mirror_entry \<Rightarrow> bool" where
  "is_scope_entry (MirrorScope _) = True"
| "is_scope_entry (MirrorBoundary _) = False"

definition mirror_push :: "mirror_entry \<Rightarrow> residual_mirror \<Rightarrow> residual_mirror" where
  "mirror_push item self =
     self\<lparr>rm_scopes := (if is_scope_entry item then rm_scopes self + 1 else rm_scopes self),
       rm_entries := rm_entries self @ [item]\<rparr>"

definition mirror_pop :: "residual_mirror \<Rightarrow> mirror_entry option \<times> residual_mirror" where
  "mirror_pop self =
     (if rm_entries self = [] then (None, self)
      else let item = last (rm_entries self) in
        (Some item, self\<lparr>rm_entries := butlast (rm_entries self),
           rm_scopes := (if is_scope_entry item then rm_scopes self - 1 else rm_scopes self)\<rparr>))"

definition mirror_clear :: "residual_mirror \<Rightarrow> residual_mirror" where
  "mirror_clear self = self\<lparr>rm_entries := [], rm_scopes := 0\<rparr>"

record ('s, 'd, 't) residual_run =
  rr_scopes :: "nat \<rightharpoonup> ('s, 'd, 't) scope_instance"
  rr_attempts :: "nat \<rightharpoonup> residual_attempt"
  rr_next_cell :: nat
  rr_mirror :: residual_mirror
  rr_log :: run_log
  rr_limits :: state_limits
  rr_next_cursor :: nat
  rr_next_attempt :: nat
  rr_next_invocation :: nat

definition run_default :: "('s, 'd, 't) residual_run" where
  "run_default =
     \<lparr>rr_scopes = Map.empty, rr_attempts = Map.empty, rr_next_cell = 0, rr_mirror = \<lparr>rm_entries = [], rm_scopes = 0\<rparr>,
      rr_log = log_new (sl_exit_records state_limits_default), rr_limits = state_limits_default, rr_next_cursor = 0,
      rr_next_attempt = 0, rr_next_invocation = 0\<rparr>"

text \<open>Programs over a state that may fail and keep the state they reached.\<close>

type_synonym ('e, 'w, 'a) prog = "'w \<Rightarrow> ('e + 'a) \<times> 'w"

definition pret :: "'a \<Rightarrow> ('e, 'w, 'a) prog" where
  "pret x s = (Ok x, s)"

definition pfail :: "'e \<Rightarrow> ('e, 'w, 'a) prog" where
  "pfail e s = (Err e, s)"

definition pbind :: "('e, 'w, 'a) prog \<Rightarrow> ('a \<Rightarrow> ('e, 'w, 'b) prog) \<Rightarrow> ('e, 'w, 'b) prog" where
  "pbind m f s = (case m s of (Inl e, s') \<Rightarrow> (Err e, s') | (Inr x, s') \<Rightarrow> f x s')"

definition pread :: "('w \<Rightarrow> 'e + 'a) \<Rightarrow> ('e, 'w, 'a) prog" where
  "pread f s = (f s, s)"

definition pupd :: "('w \<Rightarrow> 'w) \<Rightarrow> ('e, 'w, unit) prog" where
  "pupd f s = (Ok (), f s)"

definition perr :: "('e \<Rightarrow> 'f) \<Rightarrow> ('e, 'w, 'a) prog \<Rightarrow> ('f, 'w, 'a) prog" where
  "perr g m s = (case m s of (Inl e, s') \<Rightarrow> (Err (g e), s') | (Inr x, s') \<Rightarrow> (Ok x, s'))"

text \<open>Access to a cell: \<open>on_scope\<close> runs a method of the scope on its cell.\<close>

definition scope_at :: "nat \<Rightarrow> ('s, 'd, 't) residual_run \<Rightarrow> string + ('s, 'd, 't) scope_instance" where
  "scope_at cell s = ok_or (rr_scopes s cell) ''panic: no such scope''"

definition attempt_at :: "nat \<Rightarrow> ('s, 'd, 't) residual_run \<Rightarrow> string + residual_attempt" where
  "attempt_at cell s = ok_or (rr_attempts s cell) ''panic: no such attempt''"

definition put_scope ::
  "nat \<Rightarrow> ('s, 'd, 't) scope_instance \<Rightarrow> ('s, 'd, 't) residual_run \<Rightarrow> ('s, 'd, 't) residual_run"
where
  "put_scope cell i s = s\<lparr>rr_scopes := (rr_scopes s)(cell \<mapsto> i)\<rparr>"

definition put_attempt ::
  "nat \<Rightarrow> residual_attempt \<Rightarrow> ('s, 'd, 't) residual_run \<Rightarrow> ('s, 'd, 't) residual_run"
where
  "put_attempt cell a s = s\<lparr>rr_attempts := (rr_attempts s)(cell \<mapsto> a)\<rparr>"

definition on_scope ::
  "nat \<Rightarrow> (('s, 'd, 't) scope_instance \<Rightarrow> (string + 'a) \<times> ('s, 'd, 't) scope_instance)
    \<Rightarrow> (string, ('s, 'd, 't) residual_run, 'a) prog"
where
  "on_scope cell f s =
     (case scope_at cell s of
        Inl e \<Rightarrow> (Err e, s)
      | Inr i \<Rightarrow> (case f i of (r, i') \<Rightarrow> (r, put_scope cell i' s)))"

definition new_scope :: "('s, 'd, 't) scope_instance \<Rightarrow> (string, ('s, 'd, 't) residual_run, nat) prog" where
  "new_scope i s = (Ok (rr_next_cell s), put_scope (rr_next_cell s) i (s\<lparr>rr_next_cell := rr_next_cell s + 1\<rparr>))"

definition new_attempt :: "residual_attempt \<Rightarrow> ('e, ('s, 'd, 't) residual_run, nat) prog" where
  "new_attempt a s = (Ok (rr_next_cell s), put_attempt (rr_next_cell s) a (s\<lparr>rr_next_cell := rr_next_cell s + 1\<rparr>))"

section \<open>Counters\<close>

definition next_cursor :: "(string, ('s, 'd, 't) residual_run, nat) prog" where
  "next_cursor =
     pbind (pread (\<lambda>s. checked_incr (rr_next_cursor s) ''residual event cursor is exhausted'')) (\<lambda>n.
     pbind (pupd (\<lambda>s. s\<lparr>rr_next_cursor := n\<rparr>)) (\<lambda>_. pret n))"

definition next_attempt :: "(string, ('s, 'd, 't) residual_run, identity) prog" where
  "next_attempt =
     pbind (pread (\<lambda>s. checked_incr (rr_next_attempt s) ''residual attempt identities are exhausted'')) (\<lambda>n.
     pbind (pupd (\<lambda>s. s\<lparr>rr_next_attempt := n\<rparr>)) (\<lambda>_. pret (identity_bytes attempt_kind n)))"

definition next_invocation :: "(string, ('s, 'd, 't) residual_run, identity) prog" where
  "next_invocation =
     pbind (pread (\<lambda>s. checked_incr (rr_next_invocation s) ''residual scope invocation identities are exhausted'')) (\<lambda>n.
     pbind (pupd (\<lambda>s. s\<lparr>rr_next_invocation := n\<rparr>)) (\<lambda>_. pret (identity_bytes invocation_kind n)))"

definition restore_counters ::
  "nat \<times> nat \<times> nat \<Rightarrow> ('s, 'd, 't) residual_run \<Rightarrow> ('s, 'd, 't) residual_run"
where
  "restore_counters counters s =
     (case counters of (cursor, attempt, invocation) \<Rightarrow>
        s\<lparr>rr_next_cursor := max (rr_next_cursor s) cursor, rr_next_attempt := max (rr_next_attempt s) attempt,
          rr_next_invocation := max (rr_next_invocation s) invocation\<rparr>)"

section \<open>The index of live scopes\<close>

definition live_active :: "('s, 'd, 't) residual_run \<Rightarrow> nat \<Rightarrow> bool" where
  "live_active s cell = (case rr_scopes s cell of None \<Rightarrow> False | Some i \<Rightarrow> is_active i)"

definition set_index :: "(nat \<times> nat) list \<Rightarrow> ('s, 'd, 't) residual_run \<Rightarrow> ('s, 'd, 't) residual_run" where
  "set_index entries s = s\<lparr>rr_log := (rr_log s)\<lparr>rl_scopes := entries\<rparr>\<rparr>"

definition check_activation_capacity :: "nat \<Rightarrow> (string, ('s, 'd, 't) residual_run, unit) prog" where
  "check_activation_capacity maximum s =
     (let active = filter (\<lambda>(cell, _). live_active s cell) (rl_scopes (rr_log s)) in
      (if length active \<ge> maximum then Err ''residual active scope ceiling exceeded'' else Ok (),
       set_index active s))"

definition register :: "nat \<Rightarrow> nat \<Rightarrow> (string, ('s, 'd, 't) residual_run, unit) prog" where
  "register cell maximum =
     pbind (check_activation_capacity maximum) (\<lambda>_.
     pbind (pread (scope_at cell)) (\<lambda>i.
     pbind (pread (\<lambda>s. Ok (rl_scopes (rr_log s)))) (\<lambda>entries.
     if cell \<in> set (map fst entries) then pfail ''residual scope was registered twice''
     else pupd (set_index (entries @ [(cell, si_span i)])))))"

text \<open>Dropping the last reference of a scope or of an attempt.\<close>

definition drop_scope :: "nat \<Rightarrow> ('s, 'd, 't) residual_run \<Rightarrow> ('s, 'd, 't) residual_run" where
  "drop_scope cell s =
     (case rr_scopes s cell of
        None \<Rightarrow> s
      | Some i \<Rightarrow> s\<lparr>rr_scopes := (rr_scopes s)(cell := None), rr_log := drop_instance i (rr_log s)\<rparr>)"

definition drop_attempt :: "nat \<Rightarrow> ('s, 'd, 't) residual_run \<Rightarrow> ('s, 'd, 't) residual_run" where
  "drop_attempt tag s = s\<lparr>rr_attempts := (rr_attempts s)(tag := None)\<rparr>"

text \<open>A new scope whose registration fails is dropped on the way out.\<close>

definition or_drop ::
  "nat \<Rightarrow> (string, ('s, 'd, 't) residual_run, 'a) prog \<Rightarrow> (string, ('s, 'd, 't) residual_run, 'a) prog"
where
  "or_drop cell m s = (case m s of (Inl e, s') \<Rightarrow> (Err e, drop_scope cell s') | (Inr x, s') \<Rightarrow> (Ok x, s'))"

section \<open>Activation\<close>

text \<open>The faults of the evaluator: a code, a span and a reason.\<close>

datatype exec_fault = ExecFault diagnostic_code nat string

abbreviation violation :: "nat \<Rightarrow> string \<Rightarrow> exec_fault" where
  "violation \<equiv> ExecFault TraceSpecResidualViolation"

text \<open>The prepared plans of the executing program are shared (\<open>Arc\<close>): an installed scope has an
  address, which an activation has to match. \<open>in_validate\<close> is the outcome of validating the
  installation.\<close>

record ('s, 'd, 't) installation =
  in_validate :: "string + unit"
  in_scope :: "nat \<Rightarrow> (nat \<times> ('s, 'd, 't) prepared_scope) option"

record ('s, 'd, 't) scope_activation =
  sa_address :: nat
  sa_scope :: "('s, 'd, 't) prepared_scope"
  sa_application :: application

definition activate_residual_scope ::
  "checked_facts \<Rightarrow> ('s, 'd, 't) installation \<Rightarrow> nat \<Rightarrow> ('s, 'd, 't) scope_activation \<Rightarrow> nat
    \<Rightarrow> (exec_fault, ('s, 'd, 't) residual_run, nat) prog"
where
  "activate_residual_scope cf inst program activation span =
     perr (violation span) (
       pbind (pread (\<lambda>_. in_validate inst)) (\<lambda>_.
       if map_option fst (in_scope inst (ps_item (sa_scope activation))) \<noteq> Some (sa_address activation)
       then pfail ''residual scope activation is not installed in the executing program''
       else
         pbind (pread (\<lambda>s. Ok (rr_limits s))) (\<lambda>limits.
         pbind (check_activation_capacity (sl_active_scopes limits)) (\<lambda>_.
         pbind next_invocation (\<lambda>invocation.
         pbind (pread (\<lambda>_. activate cf (sa_scope activation) (sa_application activation) program invocation limits)) (\<lambda>i.
         pbind (new_scope i) (\<lambda>cell.
         pbind (or_drop cell (register cell (sl_active_scopes limits))) (\<lambda>_. pret cell))))))))"

section \<open>Continuations\<close>

text \<open>A continuation as far as residual scopes are concerned; \<open>KOther\<close> stands for the members that
  hold none.\<close>

datatype kont =
    KResidualScope nat
  | KResidualOutcome nat
  | KHandleBoundary kont
  | KRestoreModelPolicy kont
  | KScopedModelPolicy kont
  | KCallBoundary kont
  | KHandlerDispatch kont
  | KChain kont kont
  | KBlockValue
  | KOther nat

definition compose_continuation :: "kont \<Rightarrow> kont \<Rightarrow> kont" where
  "compose_continuation inner outer = (case inner of KBlockValue \<Rightarrow> outer | _ \<Rightarrow> KChain inner outer)"

function residual_scopes :: "kont list \<Rightarrow> nat list" where
  "residual_scopes [] = []"
| "residual_scopes (k # stack) =
     (case k of
        KResidualScope cell \<Rightarrow> cell # residual_scopes stack
      | KHandleBoundary inner \<Rightarrow> residual_scopes (inner # stack)
      | KRestoreModelPolicy inner \<Rightarrow> residual_scopes (inner # stack)
      | KScopedModelPolicy inner \<Rightarrow> residual_scopes (inner # stack)
      | KCallBoundary outer \<Rightarrow> residual_scopes (outer # stack)
      | KHandlerDispatch outer \<Rightarrow> residual_scopes (outer # stack)
      | KChain inner outer \<Rightarrow> residual_scopes (inner # outer # stack)
      | _ \<Rightarrow> residual_scopes stack)"
  by pat_completeness auto
termination by (relation "measure (\<lambda>ks. sum_list (map (\<lambda>k. 1 + 2 * size k) ks))") auto

section \<open>Observation\<close>

record pending_perform =
  pp_span :: nat
  pp_error_type :: bool
  pp_residual :: "nat option"
  pp_continuation :: kont
  pp_checked :: "checked_action option"

text \<open>Facts about effects: the action of an action effect, and the canonical standard action named
  \<open>Approval.request\<close> of a program's registry.\<close>

record effect_facts =
  ef_action :: "nat \<Rightarrow> nat option"
  ef_approval :: "nat \<Rightarrow> nat option"

definition is_standard_approval :: "effect_facts \<Rightarrow> nat \<Rightarrow> nat \<Rightarrow> bool" where
  "is_standard_approval ef program effect =
     (case ef_action ef effect of None \<Rightarrow> False | Some action \<Rightarrow> ef_approval ef program = Some action)"

definition include_scope ::
  "('s, 'd, 't) residual_run \<Rightarrow> checked_action \<Rightarrow> nat \<Rightarrow> (nat \<times> nat) list \<Rightarrow> string + (nat \<times> nat) list"
where
  "include_scope s proof_of cell scopes =
     (if cell \<in> set (map fst scopes) then Ok scopes
      else rbind (scope_at cell s) (\<lambda>i.
        if si_program i \<noteq> ca_program proof_of
        then Err ''residual scope and governed action disagree on their checked program''
        else Ok (scopes @ [(cell, ca_effect proof_of)])))"

fun include_captured ::
  "('s, 'd, 't) residual_run \<Rightarrow> checked_action \<Rightarrow> nat list \<Rightarrow> (nat \<times> nat) list \<Rightarrow> string + (nat \<times> nat) list"
where
  "include_captured s proof_of [] scopes = Ok scopes"
| "include_captured s proof_of (cell # cells) scopes =
     rbind (include_scope s proof_of cell scopes) (include_captured s proof_of cells)"

fun relocate ::
  "(string + (checked_action \<Rightarrow> string + checked_action)) list \<Rightarrow> checked_action \<Rightarrow> string + checked_action"
where
  "relocate [] proof_of = Ok proof_of"
| "relocate (b # bs) proof_of = rbind b (\<lambda>projection. rbind (projection proof_of) (relocate bs))"

fun include_mirror ::
  "('s, 'd, 't) residual_run \<Rightarrow> (string + (checked_action \<Rightarrow> string + checked_action)) list \<Rightarrow> mirror_entry list
    \<Rightarrow> checked_action \<Rightarrow> (nat \<times> nat) list \<Rightarrow> string + checked_action \<times> (nat \<times> nat) list"
where
  "include_mirror s boundaries [] proof_of scopes = Ok (proof_of, scopes)"
| "include_mirror s boundaries (MirrorBoundary b # entries) proof_of scopes =
     include_mirror s (boundaries @ [b]) entries proof_of scopes"
| "include_mirror s boundaries (MirrorScope cell # entries) proof_of scopes =
     rbind (relocate boundaries proof_of) (\<lambda>proof_of.
     rbind (include_scope s proof_of cell scopes) (include_mirror s [] entries proof_of))"

definition enclosing_scopes ::
  "('s, 'd, 't) residual_run \<Rightarrow> pending_perform \<Rightarrow> checked_action \<Rightarrow> string + checked_action \<times> (nat \<times> nat) list"
where
  "enclosing_scopes s perform proof_of =
     rbind (include_captured s proof_of (residual_scopes [pp_continuation perform]) [])
       (include_mirror s [] (rev (rm_entries (rr_mirror s))) proof_of)"

fun preview_scopes ::
  "checked_facts \<Rightarrow> identity \<Rightarrow> nat \<Rightarrow> (nat \<times> nat) list
    \<Rightarrow> (string, ('s, 'd, 't) residual_run, (nat \<times> nat \<times> 'd list) list) prog"
where
  "preview_scopes cf attempt cursor [] = pret []"
| "preview_scopes cf attempt cursor ((cell, effect) # scopes) =
     pbind (on_scope cell (label cf effect)) (\<lambda>action.
     pbind (pread (\<lambda>s. rbind (scope_at cell s) (\<lambda>i. preview i attempt cursor action))) (\<lambda>decision.
     case decision of
       PreviewPermit deltas \<Rightarrow>
         pbind (preview_scopes cf attempt cursor scopes) (\<lambda>previews. pret ((cell, action, deltas) # previews))
     | PreviewReject \<Rightarrow> pfail ''trace spec residual check rejected the action before dispatch''
     | PreviewNeedsEvidence \<Rightarrow>
         pfail ''trace spec residual check requires prior evidence that is still pending''))"

fun commit_scopes ::
  "identity \<Rightarrow> nat \<Rightarrow> (nat \<times> nat \<times> 'd list) list \<Rightarrow> (string, ('s, 'd, 't) residual_run, observed_scope list) prog"
where
  "commit_scopes attempt cursor [] = pret []"
| "commit_scopes attempt cursor ((cell, action, deltas) # previews) =
     pbind (on_scope cell (commit deltas attempt cursor action)) (\<lambda>version.
     pbind (commit_scopes attempt cursor previews) (\<lambda>observed.
     pret (\<lparr>ob_cell = cell, ob_action = action, ob_version = version\<rparr> # observed)))"

definition has_scopes :: "('s, 'd, 't) residual_run \<Rightarrow> bool" where
  "has_scopes s \<longleftrightarrow> rm_scopes (rr_mirror s) > 0"

definition observe_residual_attempt ::
  "checked_facts \<Rightarrow> effect_facts \<Rightarrow> nat \<Rightarrow> pending_perform
    \<Rightarrow> (exec_fault, ('s, 'd, 't) residual_run, pending_perform) prog"
where
  "observe_residual_attempt cf ef checked perform s =
     (if pp_error_type perform \<or> pp_residual perform \<noteq> None then (Ok perform, s)
      else if residual_scopes [pp_continuation perform] = [] \<and> \<not> has_scopes s then (Ok perform, s)
      else
        perr (violation (pp_span perform)) (
          case pp_checked perform of
            None \<Rightarrow> pfail ''governed action has no checked invocation for residual observation''
          | Some proof_of \<Rightarrow>
              if ca_program proof_of \<noteq> checked
              then pfail ''governed action invocation belongs to a different checked program''
              else
                pbind (pread (\<lambda>s. enclosing_scopes s perform proof_of)) (\<lambda>(proof_of, scopes).
                pbind next_attempt (\<lambda>attempt.
                pbind next_cursor (\<lambda>cursor.
                pbind (preview_scopes cf attempt cursor scopes) (\<lambda>previews.
                pbind (commit_scopes attempt cursor previews) (\<lambda>observed.
                pbind (new_attempt (attempt_new attempt cursor observed
                  (is_standard_approval ef checked (ca_effect proof_of)))) (\<lambda>tag.
                pret (perform\<lparr>pp_residual := Some tag,
                  pp_continuation := compose_continuation (KResidualOutcome tag) (pp_continuation perform)\<rparr>)))))))) s)"

section \<open>Permits and outcomes\<close>

fun check_permits :: "observed_scope list \<Rightarrow> ('s, 'd, 't) residual_run \<Rightarrow> string + unit" where
  "check_permits [] s = Ok ()"
| "check_permits (ob # obs) s =
     rbind (scope_at (ob_cell ob) s) (\<lambda>i.
     if \<not> is_active i then Err ''residual dispatch permit belongs to an exited scope''
     else if si_version i \<noteq> ob_version ob then Err ''residual dispatch permit is stale''
     else check_permits obs s)"

definition consume_permit :: "nat \<Rightarrow> (string, ('s, 'd, 't) residual_run, unit) prog" where
  "consume_permit tag =
     pbind (pread (attempt_at tag)) (\<lambda>a.
     pbind (pupd (put_attempt tag (a\<lparr>ra_dispatched := True\<rparr>))) (\<lambda>_.
     if ra_dispatched a then pfail ''residual dispatch permit was already used''
     else pread (check_permits (ra_scopes a))))"

definition consume_residual_permit :: "pending_perform \<Rightarrow> (exec_fault, ('s, 'd, 't) residual_run, unit) prog" where
  "consume_residual_permit perform =
     (case pp_residual perform of
        None \<Rightarrow> pret ()
      | Some tag \<Rightarrow> perr (violation (pp_span perform)) (consume_permit tag))"

definition record_trusted_approval :: "nat \<Rightarrow> bool \<Rightarrow> (string, ('s, 'd, 't) residual_run, unit) prog" where
  "record_trusted_approval tag approved =
     pbind (pread (attempt_at tag)) (\<lambda>a. pupd (put_attempt tag (a\<lparr>ra_trusted := Some approved\<rparr>)))"

definition outcome_of :: "residual_attempt \<Rightarrow> 'x interp_value \<Rightarrow> outcome_status" where
  "outcome_of a v =
     (if ra_decision a then
        (case (ra_trusted a, v) of
           (Some True, Bool True) \<Rightarrow> OutcomeAccepted
         | (Some False, Bool False) \<Rightarrow> OutcomeDenied
         | _ \<Rightarrow> OutcomeFailed)
      else OutcomeAccepted)"

definition on_scope_result ::
  "nat \<Rightarrow> (('s, 'd, 't) scope_instance \<Rightarrow> string + ('s, 'd, 't) scope_instance)
    \<Rightarrow> (string, ('s, 'd, 't) residual_run, unit) prog"
where
  "on_scope_result cell f =
     on_scope cell (\<lambda>i. case f i of Inl e \<Rightarrow> (Err e, i) | Inr i' \<Rightarrow> (Ok (), i'))"

fun deliver_outcome ::
  "identity \<Rightarrow> outcome_status \<Rightarrow> nat \<Rightarrow> observed_scope list \<Rightarrow> (string, ('s, 'd, 't) residual_run, unit) prog"
where
  "deliver_outcome attempt status completed_at [] = pret ()"
| "deliver_outcome attempt status completed_at (ob # obs) =
     pbind (on_scope_result (ob_cell ob) (record_outcome attempt status completed_at)) (\<lambda>_.
     deliver_outcome attempt status completed_at obs)"

definition complete_attempt :: "nat \<Rightarrow> 'x interp_value \<Rightarrow> nat \<Rightarrow> (string, ('s, 'd, 't) residual_run, unit) prog" where
  "complete_attempt tag v completed_at =
     pbind (pread (attempt_at tag)) (\<lambda>a.
     pbind (pupd (put_attempt tag (a\<lparr>ra_completed := True\<rparr>))) (\<lambda>_.
     if ra_completed a then pret ()
     else deliver_outcome (ra_id a) (outcome_of a v) completed_at (ra_scopes a)))"

definition complete_residual_attempt ::
  "nat \<Rightarrow> 'x interp_value \<Rightarrow> nat \<Rightarrow> (exec_fault, ('s, 'd, 't) residual_run, unit) prog"
where
  "complete_residual_attempt tag v span =
     perr (violation span) (pbind next_cursor (\<lambda>cursor. complete_attempt tag v cursor))"

section \<open>Exits\<close>

definition finish_cell :: "exit_kind \<Rightarrow> nat \<Rightarrow> (string, ('s, 'd, 't) residual_run, scope_check_result) prog" where
  "finish_cell kind cell s =
     (case scope_at cell s of
        Inl e \<Rightarrow> (Err e, s)
      | Inr i \<Rightarrow> (case finish_scope kind i (rr_log s) of (r, i', log) \<Rightarrow> (r, put_scope cell i' (s\<lparr>rr_log := log\<rparr>))))"

definition exit_residual_scope ::
  "nat \<Rightarrow> exit_kind \<Rightarrow> nat \<Rightarrow> (exec_fault, ('s, 'd, 't) residual_run, unit) prog"
where
  "exit_residual_scope cell kind span =
     pbind (perr (violation span) (pread (scope_at cell))) (\<lambda>i.
     perr (violation (si_span i)) (
       pbind (finish_cell kind cell) (\<lambda>result.
       if kind = ExitReturn \<and> result \<noteq> Accepting
       then pfail ''trace spec residual check did not accept the completed scope''
       else pret ())))"

fun finish_entries ::
  "exit_kind \<Rightarrow> (nat \<times> nat) list \<Rightarrow> ('s, 'd, 't) residual_run \<Rightarrow> exec_fault list \<times> ('s, 'd, 't) residual_run"
where
  "finish_entries kind [] s = ([], s)"
| "finish_entries kind ((cell, span) # entries) s =
     (if live_active s cell then
        (case finish_cell kind cell s of
           (Inl reason, s') \<Rightarrow>
             (case finish_entries kind entries s' of
                (faults, s'') \<Rightarrow> (ExecFault TraceSpecResidualIncomplete span reason # faults, s''))
         | (Inr _, s') \<Rightarrow> finish_entries kind entries s')
      else finish_entries kind entries s)"

definition finish_active :: "exit_kind \<Rightarrow> ('s, 'd, 't) residual_run \<Rightarrow> exec_fault list \<times> ('s, 'd, 't) residual_run" where
  "finish_active kind s = finish_entries kind (rev (rl_scopes (rr_log s))) s"

section \<open>The end of a run\<close>

datatype report = ResidualReport diagnostic | FaultReport exec_fault

datatype ('v, 'f) evaluation_outcome =
    EvalCompleted 'v
  | EvalFailed 'f
  | EvalFailedLanguage report
  | EvalCancelled 'f

fun outcome_exit_kind :: "('v, 'f) evaluation_outcome \<Rightarrow> exit_kind" where
  "outcome_exit_kind (EvalCancelled _) = ExitCancellation"
| "outcome_exit_kind (EvalFailed _) = ExitFault"
| "outcome_exit_kind (EvalFailedLanguage _) = ExitFault"
| "outcome_exit_kind (EvalCompleted _) = ExitAbort"

text \<open>\<open>owned\<close> are the scopes whose last reference the machine holds; dropping the machine drops
  them.\<close>

definition finish_run ::
  "nat list \<Rightarrow> ('v, 'f) evaluation_outcome \<Rightarrow> ('s, 'd, 't) residual_run
    \<Rightarrow> ('v, 'f) evaluation_outcome \<times> report list \<times> ('s, 'd, 't) residual_run"
where
  "finish_run owned outcome s =
     (let (faults, s1) = finish_active (outcome_exit_kind outcome) s;
          s2 = fold drop_scope owned s1;
          (records, log) = take_diagnostics (rr_log s2);
          diagnostics = map ResidualReport records @ map FaultReport faults;
          outcome = (case outcome of
             EvalCompleted v \<Rightarrow> (case diagnostics of [] \<Rightarrow> EvalCompleted v | d # _ \<Rightarrow> EvalFailedLanguage d)
           | other \<Rightarrow> other) in
      (outcome, diagnostics, s2\<lparr>rr_log := log\<rparr>))"

end
