(* ===== verification/Residual_Observe.thy ===== *)
theory Residual_Observe
  imports Residual_Run
begin

text \<open>
  Observation of a governed action: the previews leave every scope as it was but for its cache of
  labels, and the transitions are committed in all enclosing scopes or in none.
\<close>

section \<open>The core of a scope\<close>

text \<open>Everything but the cache of labels.\<close>

definition core :: "('s, 'd, 't) scope_instance \<Rightarrow> ('s, 'd, 't) scope_instance" where
  "core i = i\<lparr>si_labels := []\<rparr>"

lemma core_fields [simp]:
  "si_prepared (core i) = si_prepared i" "si_application (core i) = si_application i"
  "si_program (core i) = si_program i" "si_invocation (core i) = si_invocation i" "si_span (core i) = si_span i"
  "si_states (core i) = si_states i" "si_outcomes (core i) = si_outcomes i" "si_pending (core i) = si_pending i"
  "si_version (core i) = si_version i" "si_last_cursor (core i) = si_last_cursor i" "si_exit (core i) = si_exit i"
  "si_limits (core i) = si_limits i" "core (core i) = core i"
  by (simp_all add: core_def)

lemma core_eqD:
  assumes "core i = core j"
  shows "si_prepared i = si_prepared j" "si_application i = si_application j" "si_program i = si_program j"
    "si_invocation i = si_invocation j" "si_span i = si_span j" "si_states i = si_states j"
    "si_outcomes i = si_outcomes j" "si_pending i = si_pending j" "si_version i = si_version j"
    "si_last_cursor i = si_last_cursor j" "si_exit i = si_exit j" "si_limits i = si_limits j"
  using assms by (metis core_fields)+

lemma query_evidence_core: "query_evidence (core i) = query_evidence i"
  by (rule ext) (simp add: query_evidence_def Let_def split: option.splits)

lemma preview_core: "preview (core i) attempt cursor action = preview i attempt cursor action"
proof -
  have "component_attempt (core i) = component_attempt i"
    by (intro ext) (simp add: component_attempt_def split: option.splits plan_component.splits)
  then have "preview_plan (core i) = preview_plan i"
    by (intro ext) (simp add: preview_plan_def query_evidence_core)
  then have "preview_plans (core i) attempt cursor action ps = preview_plans i attempt cursor action ps" for ps
    by (induction ps) auto
  then show ?thesis by (simp add: preview_def validate_next_cursor_def)
qed

lemma label_core: "core (snd (label cf effect i)) = core i"
  by (simp add: label_def core_def split: option.splits sum.splits)

lemma commit_core: "fst (commit deltas attempt cursor action (core i)) = fst (commit deltas attempt cursor action i)"
    "core (snd (commit deltas attempt cursor action (core i))) = core (snd (commit deltas attempt cursor action i))"
  by (simp_all add: commit_def validate_next_cursor_def rbind_def Let_def core_def split: sum.splits prod.splits option.splits)

section \<open>Stores\<close>

definition same_rest :: "('s, 'd, 't) residual_run \<Rightarrow> ('s, 'd, 't) residual_run \<Rightarrow> bool" where
  "same_rest s s' \<longleftrightarrow> s'\<lparr>rr_scopes := Map.empty\<rparr> = s\<lparr>rr_scopes := Map.empty\<rparr>"

lemma same_restD:
  assumes "same_rest s s'"
  shows "rr_attempts s' = rr_attempts s" "rr_next_cell s' = rr_next_cell s" "rr_mirror s' = rr_mirror s"
    "rr_log s' = rr_log s" "rr_limits s' = rr_limits s" "rr_next_cursor s' = rr_next_cursor s"
    "rr_next_attempt s' = rr_next_attempt s" "rr_next_invocation s' = rr_next_invocation s"
proof -
  let ?e = "\<lambda>s. s\<lparr>rr_scopes := Map.empty\<rparr>"
  have e: "?e s' = ?e s" using assms by (simp add: same_rest_def)
  show "rr_attempts s' = rr_attempts s" "rr_next_cell s' = rr_next_cell s" "rr_mirror s' = rr_mirror s"
    "rr_log s' = rr_log s" "rr_limits s' = rr_limits s" "rr_next_cursor s' = rr_next_cursor s"
    "rr_next_attempt s' = rr_next_attempt s" "rr_next_invocation s' = rr_next_invocation s"
    using arg_cong [OF e, of rr_attempts] arg_cong [OF e, of rr_next_cell] arg_cong [OF e, of rr_mirror]
      arg_cong [OF e, of rr_log] arg_cong [OF e, of rr_limits] arg_cong [OF e, of rr_next_cursor]
      arg_cong [OF e, of rr_next_attempt] arg_cong [OF e, of rr_next_invocation] by simp_all
qed

lemma same_rest_trans: "same_rest s s' \<Longrightarrow> same_rest s' s'' \<Longrightarrow> same_rest s s''"
  by (simp add: same_rest_def)

lemma same_rest_put_scope [simp]: "same_rest s (put_scope c i s)" "same_rest s s"
  by (simp_all add: same_rest_def put_scope_def)

definition same_core :: "('s, 'd, 't) residual_run \<Rightarrow> ('s, 'd, 't) residual_run \<Rightarrow> bool" where
  "same_core s s' \<longleftrightarrow>
     same_rest s s' \<and> (\<forall>c. map_option core (rr_scopes s' c) = map_option core (rr_scopes s c))"

lemma same_core_refl [simp]: "same_core s s"
  by (simp add: same_core_def)

lemma same_core_trans: "same_core s s' \<Longrightarrow> same_core s' s'' \<Longrightarrow> same_core s s''"
  by (auto simp: same_core_def intro: same_rest_trans)

lemma same_core_cell: "same_core s s' \<Longrightarrow> map_option core (rr_scopes s' c) = map_option core (rr_scopes s c)"
  by (simp add: same_core_def)

lemma same_core_lookup:
  assumes "same_core s s'" "rr_scopes s c = Some i"
  obtains i' where "rr_scopes s' c = Some i'" "core i' = core i"
  using same_core_cell [OF assms(1), of c] assms(2) by auto

lemma on_scope_same_core:
  assumes "\<And>i. core (snd (f i)) = core i"
  shows "same_core s (snd (on_scope cell f s))"
proof -
  have "core j = core i" if "f i = (r, j)" for i j r using assms [of i] that by simp
  then show ?thesis by (auto simp: on_scope_def scope_at_def same_core_def put_scope_def same_rest_def split: sum.splits prod.splits)
qed

section \<open>Previews\<close>

lemma preview_scopes_spec:
  "preview_scopes cf attempt cursor scopes s = (r, s') \<Longrightarrow>
    same_core s s' \<and>
    (\<forall>previews. r = Ok previews \<longrightarrow> map fst previews = map fst scopes \<and>
      (\<forall>(cell, action, deltas) \<in> set previews.
        \<exists>i. rr_scopes s cell = Some i \<and> preview i attempt cursor action = Ok (PreviewPermit deltas)))"
proof (induction scopes arbitrary: s r s')
  case Nil
  then show ?case by (auto simp: pret_def)
next
  case (Cons x scopes)
  obtain cell effect where x: "x = (cell, effect)" by (cases x)
  let ?m = "on_scope cell (label cf effect)"
  have c1: "same_core s (snd (?m s))" by (rule on_scope_same_core) (rule label_core)
  show ?case
  proof (cases "?m s")
    case (Pair r1 s1)
    with c1 have c1: "same_core s s1" by simp
    show ?thesis
    proof (cases r1)
      case (Inl e)
      then show ?thesis using Cons.prems Pair c1 by (auto simp: x pbind_def)
    next
      case (Inr action)
      let ?p = "rbind (scope_at cell s1) (\<lambda>i. preview i attempt cursor action)"
      show ?thesis
      proof (cases "\<exists>deltas. ?p = Ok (PreviewPermit deltas)")
        case False
        then have "s' = s1 \<and> (\<exists>e. r = Err e)"
          using Cons.prems Pair Inr by (auto simp: x pbind_def pread_def pfail_def split: sum.splits residual_preview.splits)
        with c1 show ?thesis by auto
      next
        case True
        then obtain deltas i1 where i1: "rr_scopes s1 cell = Some i1" "preview i1 attempt cursor action = Ok (PreviewPermit deltas)"
          by (auto simp: scope_at_def)
        have "preview_scopes cf attempt cursor (x # scopes) s =
            pbind (preview_scopes cf attempt cursor scopes) (\<lambda>ps. pret ((cell, action, deltas) # ps)) s1"
          by (simp add: x pbind_def Pair Inr pread_def scope_at_def i1)
        then obtain r2 where rest: "preview_scopes cf attempt cursor scopes s1 = (r2, s')"
          "r = (case r2 of Inl e \<Rightarrow> Err e | Inr ps \<Rightarrow> Ok ((cell, action, deltas) # ps))"
          using Cons.prems by (cases "preview_scopes cf attempt cursor scopes s1") (auto simp: pbind_def pret_def split: sum.splits)
        have moved: "\<exists>i. rr_scopes s c = Some i \<and> preview i attempt cursor a = Ok d"
          if "rr_scopes s1 c = Some j" "preview j attempt cursor a = Ok d" for c a d j
        proof -
          have "map_option core (rr_scopes s c) = Some (core j)" using same_core_cell [OF c1, of c] that(1) by simp
          then obtain i where "rr_scopes s c = Some i" "core i = core j" by auto
          then show ?thesis using that(2) preview_core [of i] preview_core [of j] by simp
        qed
        note IH = Cons.IH [OF rest(1)]
        show ?thesis
        proof (intro conjI allI impI)
          show "same_core s s'" using c1 IH same_core_trans by blast
        next
          fix previews assume "r = Ok previews"
          then obtain ps where ps: "r2 = Ok ps" "previews = (cell, action, deltas) # ps"
            using rest(2) by (cases r2) auto
          then show "map fst previews = map fst (x # scopes)" using IH x by simp
          show "\<forall>(cell, action, deltas) \<in> set previews.
              \<exists>i. rr_scopes s cell = Some i \<and> preview i attempt cursor action = Ok (PreviewPermit deltas)"
          proof clarify
            fix c a d assume "(c, a, d) \<in> set previews"
            then consider "c = cell" "a = action" "d = deltas" | "(c, a, d) \<in> set ps" using ps(2) by auto
            then show "\<exists>i. rr_scopes s c = Some i \<and> preview i attempt cursor a = Ok (PreviewPermit d)"
            proof cases
              case 1
              then show ?thesis using moved [OF i1] by simp
            next
              case 2
              then obtain j where "rr_scopes s1 c = Some j" "preview j attempt cursor a = Ok (PreviewPermit d)"
                using IH ps(1) by auto
              then show ?thesis by (rule moved)
            qed
          qed
        qed
      qed
    qed
  qed
qed

section \<open>Commits\<close>

text \<open>The kernel commits every transition it has just permitted.\<close>

definition coherent :: "('s, 'd, 't) scope_instance \<Rightarrow> bool" where
  "coherent i \<longleftrightarrow>
     (\<forall>plan \<in> set (ps_plans (si_prepared i)). \<forall>st ev atts query delta.
       tp_preview plan st ev atts query = Ok (DecidePermit delta) \<longrightarrow> fst (tp_commit plan st delta) = Ok ())"

text \<open>There is room for one more event: the two ceilings that only the commit checks.\<close>

definition roomy :: "('s, 'd, 't) scope_instance \<Rightarrow> bool" where
  "roomy i \<longleftrightarrow> length (si_pending i) < sl_pending (si_limits i) \<and> si_version i + 1 < 2 ^ 64"

fun advance_states :: "('s, 'd, 't) trace_plan list \<Rightarrow> 's list \<Rightarrow> 'd list \<Rightarrow> 's list" where
  "advance_states (plan # plans) (st # sts) (delta # deltas) = snd (tp_commit plan st delta) # advance_states plans sts deltas"
| "advance_states plans sts deltas = sts"

lemma commit_permitted_states:
  assumes "preview_plans i attempt cursor action (zip plans sts) = Ok (PreviewPermit deltas)"
    and "length sts = length plans"
    and "\<forall>plan \<in> set plans. \<forall>st ev atts query delta.
       tp_preview plan st ev atts query = Ok (DecidePermit delta) \<longrightarrow> fst (tp_commit plan st delta) = Ok ()"
  shows "length deltas = length plans \<and> commit_states plans sts deltas = (Ok (), advance_states plans sts deltas)"
  using assms
proof (induction plans arbitrary: sts deltas)
  case Nil
  then show ?case by simp
next
  case (Cons plan plans)
  from Cons.prems(2) obtain st sts' where sts: "sts = st # sts'" by (cases sts) auto
  obtain delta deltas' where d: "preview_plan i plan st attempt cursor action = Ok (DecidePermit delta)"
    "preview_plans i attempt cursor action (zip plans sts') = Ok (PreviewPermit deltas')" "deltas = delta # deltas'"
    using Cons.prems(1)
    by (cases "preview_plan i plan st attempt cursor action"; cases "preview_plans i attempt cursor action (zip plans sts')")
      (auto simp: sts split: scope_decision.splits residual_preview.splits)
  from d(1) have "\<exists>ev atts query. tp_preview plan st ev atts query = Ok (DecidePermit delta)"
    by (auto simp: preview_plan_def)
  then have "fst (tp_commit plan st delta) = Ok ()" using Cons.prems(3) by auto
  then obtain st' where "tp_commit plan st delta = (Ok (), st')" by (cases "tp_commit plan st delta") auto
  with Cons.IH [OF d(2)] Cons.prems(2,3) show ?case by (simp add: sts d(3))
qed

definition committed :: "'d list \<Rightarrow> identity \<Rightarrow> nat \<Rightarrow> nat \<Rightarrow> ('s, 'd, 't) scope_instance \<Rightarrow> ('s, 'd, 't) scope_instance" where
  "committed deltas attempt cursor action i =
     i\<lparr>si_states := advance_states (ps_plans (si_prepared i)) (si_states i) deltas,
       si_pending := si_pending i @ [\<lparr>pn_attempt = attempt, pn_action = action\<rparr>],
       si_version := si_version i + 1, si_last_cursor := Some cursor\<rparr>"

lemma commit_permitted:
  assumes "preview i attempt cursor action = Ok (PreviewPermit deltas)"
    and "length (si_states i) = length (ps_plans (si_prepared i))" "coherent i" "roomy i"
  shows "commit deltas attempt cursor action i = (Ok (si_version i + 1), committed deltas attempt cursor action i)"
  using assms commit_permitted_states [of i attempt cursor action "ps_plans (si_prepared i)" "si_states i" deltas]
  by (simp add: preview_def coherent_def roomy_def commit_def checked_incr_def committed_def split: if_splits)

lemma commit_scopes_all:
  assumes "distinct (map fst previews)"
    and "\<forall>(cell, action, deltas) \<in> set previews. \<exists>i v i'. rr_scopes s cell = Some i \<and> commit deltas attempt cursor action i = (Ok v, i')"
  shows "\<exists>observed s'. commit_scopes attempt cursor previews s = (Ok observed, s') \<and> same_rest s s' \<and>
    map ob_cell observed = map fst previews \<and>
    (\<forall>c. c \<notin> set (map fst previews) \<longrightarrow> rr_scopes s' c = rr_scopes s c) \<and>
    (\<forall>(cell, action, deltas) \<in> set previews. \<forall>i. rr_scopes s cell = Some i \<longrightarrow>
      rr_scopes s' cell = Some (snd (commit deltas attempt cursor action i)))"
  using assms
proof (induction previews arbitrary: s)
  case Nil
  then show ?case by (simp add: pret_def)
next
  case (Cons x previews)
  obtain cell action deltas where x: "x = (cell, action, deltas)" by (cases x)
  obtain i v i' where i: "rr_scopes s cell = Some i" "commit deltas attempt cursor action i = (Ok v, i')"
    using Cons.prems(2) x by auto
  let ?s = "put_scope cell i' s"
  have "rr_scopes ?s c = rr_scopes s c" if "c \<in> set (map fst previews)" for c
    using Cons.prems(1) that x by (auto simp: put_scope_def)
  then have same: "\<forall>(c, a, d) \<in> set previews. rr_scopes ?s c = rr_scopes s c" by force
  have "\<forall>(c, a, d) \<in> set previews. \<exists>i v i'. rr_scopes ?s c = Some i \<and> commit d attempt cursor a i = (Ok v, i')"
    using Cons.prems(2) same by fastforce
  from Cons.IH [OF _ this] Cons.prems(1) obtain observed s' where s':
    "commit_scopes attempt cursor previews ?s = (Ok observed, s')" "same_rest ?s s'"
    "map ob_cell observed = map fst previews" "\<forall>c. c \<notin> set (map fst previews) \<longrightarrow> rr_scopes s' c = rr_scopes ?s c"
    "\<forall>(c, a, d) \<in> set previews. \<forall>i. rr_scopes ?s c = Some i \<longrightarrow> rr_scopes s' c = Some (snd (commit d attempt cursor a i))"
    by auto
  have "cell \<notin> set (map fst previews)" using Cons.prems(1) x by simp
  then have "rr_scopes s' cell = Some i'" using s'(4) by (simp add: put_scope_def)
  moreover have "\<forall>(c, a, d) \<in> set previews. \<forall>i. rr_scopes s c = Some i \<longrightarrow> rr_scopes s' c = Some (snd (commit d attempt cursor a i))"
    using s'(5) same by fastforce
  moreover have "same_rest s s'" using s'(2) same_rest_trans same_rest_put_scope(1) by blast
  ultimately show ?case
    using i s'(1,3,4) x by (auto simp: pbind_def pret_def on_scope_def scope_at_def put_scope_def)
qed

section \<open>Enclosing scopes\<close>

lemma include_scope_distinct:
  "include_scope s p cell scopes = Ok scopes' \<Longrightarrow> distinct (map fst scopes) \<Longrightarrow> distinct (map fst scopes')"
  by (auto simp: include_scope_def split: if_splits)

lemma include_captured_distinct:
  "include_captured s p cells scopes = Ok scopes' \<Longrightarrow> distinct (map fst scopes) \<Longrightarrow> distinct (map fst scopes')"
  by (induction cells arbitrary: scopes) (auto dest: include_scope_distinct)

lemma include_mirror_distinct:
  "include_mirror s bs entries p scopes = Ok (q, scopes') \<Longrightarrow> distinct (map fst scopes) \<Longrightarrow> distinct (map fst scopes')"
  by (induction s bs entries p scopes rule: include_mirror.induct) (auto dest: include_scope_distinct)

lemma enclosing_scopes_distinct:
  "enclosing_scopes s perform p = Ok (q, scopes) \<Longrightarrow> distinct (map fst scopes)"
  unfolding enclosing_scopes_def
  by (auto dest: include_captured_distinct include_mirror_distinct)

text \<open>Every scope the continuation has captured and every scope of the mirror is among them.\<close>

lemma include_scope_member:
  "include_scope s p cell scopes = Ok scopes' \<Longrightarrow> set (map fst scopes') = insert cell (set (map fst scopes))"
  by (auto simp: include_scope_def split: if_splits)

lemma include_captured_member:
  "include_captured s p cells scopes = Ok scopes' \<Longrightarrow> set (map fst scopes') = set cells \<union> set (map fst scopes)"
proof (induction cells arbitrary: scopes)
  case (Cons cell cells)
  then obtain x where x: "include_scope s p cell scopes = Ok x" "include_captured s p cells x = Ok scopes'" by auto
  show ?case using Cons.IH [OF x(2)] include_scope_member [OF x(1)] by simp
qed simp

lemma include_mirror_member:
  "include_mirror s bs entries p scopes = Ok (q, scopes') \<Longrightarrow>
    set (map fst scopes') = {c. MirrorScope c \<in> set entries} \<union> set (map fst scopes)"
proof (induction s bs entries p scopes rule: include_mirror.induct)
  case (3 s bs cell entries p scopes)
  then obtain p' x where x: "relocate bs p = Ok p'" "include_scope s p' cell scopes = Ok x"
    "include_mirror s [] entries p' x = Ok (q, scopes')" by auto
  show ?case using "3.IH" [OF x(3)] include_scope_member [OF x(2)] by auto
qed simp_all

lemma enclosing_scopes_member:
  "enclosing_scopes s perform p = Ok (q, scopes) \<Longrightarrow>
    set (map fst scopes) = set (residual_scopes [pp_continuation perform]) \<union> {c. MirrorScope c \<in> set (rm_entries (rr_mirror s))}"
  unfolding enclosing_scopes_def
  using include_captured_member include_mirror_member by (fastforce simp del: set_map)

section \<open>All scopes or none\<close>

lemma core_committed: "core (committed deltas attempt cursor action i) = committed deltas attempt cursor action (core i)"
  by (simp add: committed_def core_def)

lemma core_predicates:
  "coherent (core i) = coherent i" "roomy (core i) = roomy i"
  by (simp_all add: coherent_def roomy_def)

lemma commit_previewed:
  assumes "preview_scopes cf attempt cursor scopes s = (Ok previews, s1)" "distinct (map fst scopes)"
    and ok: "\<forall>c i. rr_scopes s c = Some i \<longrightarrow> coherent i \<and> roomy i \<and> length (si_states i) = length (ps_plans (si_prepared i))"
  shows "\<exists>observed s'. commit_scopes attempt cursor previews s1 = (Ok observed, s') \<and> same_rest s s' \<and>
    map ob_cell observed = map fst scopes \<and>
    (\<forall>c. c \<notin> set (map fst scopes) \<longrightarrow> map_option core (rr_scopes s' c) = map_option core (rr_scopes s c)) \<and>
    (\<forall>c \<in> set (map fst scopes). \<exists>i action deltas. rr_scopes s c = Some i \<and>
      preview i attempt cursor action = Ok (PreviewPermit deltas) \<and>
      map_option core (rr_scopes s' c) = Some (core (committed deltas attempt cursor action i)))"
proof -
  note spec = preview_scopes_spec [OF assms(1)]
  have same: "same_core s s1" and cells: "map fst previews = map fst scopes" using spec by auto
  have permit: "\<exists>i i1. rr_scopes s c = Some i \<and> preview i attempt cursor a = Ok (PreviewPermit d) \<and>
      rr_scopes s1 c = Some i1 \<and> core i1 = core i \<and>
      commit d attempt cursor a i1 = (Ok (si_version i1 + 1), committed d attempt cursor a i1)"
    if "(c, a, d) \<in> set previews" for c a d
  proof -
    from spec that obtain i where i: "rr_scopes s c = Some i" "preview i attempt cursor a = Ok (PreviewPermit d)" by auto
    obtain i1 where i1: "rr_scopes s1 c = Some i1" "core i1 = core i" using same_core_lookup [OF same i(1)] by blast
    have "preview i1 attempt cursor a = Ok (PreviewPermit d)" using i(2) preview_core i1(2) by metis
    moreover have "coherent i1" "roomy i1" using ok i(1) i1(2) core_predicates by metis+
    moreover have "length (si_states i1) = length (ps_plans (si_prepared i1))"
      using ok i(1) core_eqD(1,6) [OF i1(2)] by simp
    ultimately show ?thesis using i i1 commit_permitted by blast
  qed
  have ready: "\<forall>(c, a, d) \<in> set previews. \<exists>i v i'. rr_scopes s1 c = Some i \<and> commit d attempt cursor a i = (Ok v, i')"
  proof clarify
    fix c a d assume "(c, a, d) \<in> set previews"
    from permit [OF this] show "\<exists>i v i'. rr_scopes s1 c = Some i \<and> commit d attempt cursor a i = (Ok v, i')" by blast
  qed
  have "distinct (map fst previews)" using cells assms(2) by simp
  from commit_scopes_all [OF this ready] obtain observed s' where s':
    "commit_scopes attempt cursor previews s1 = (Ok observed, s')" "same_rest s1 s'"
    "map ob_cell observed = map fst previews" "\<forall>c. c \<notin> set (map fst previews) \<longrightarrow> rr_scopes s' c = rr_scopes s1 c"
    "\<forall>(c, a, d) \<in> set previews. \<forall>i. rr_scopes s1 c = Some i \<longrightarrow> rr_scopes s' c = Some (snd (commit d attempt cursor a i))"
    by blast
  have "\<exists>i action deltas. rr_scopes s c = Some i \<and> preview i attempt cursor action = Ok (PreviewPermit deltas) \<and>
      map_option core (rr_scopes s' c) = Some (core (committed deltas attempt cursor action i))"
    if member: "c \<in> set (map fst scopes)" for c
  proof -
    have "c \<in> fst ` set previews" using member cells set_map by metis
    then obtain a d where ad: "(c, a, d) \<in> set previews" by force
    from permit [OF this] obtain i i1 where i: "rr_scopes s c = Some i" "preview i attempt cursor a = Ok (PreviewPermit d)"
      "rr_scopes s1 c = Some i1" "core i1 = core i"
      "commit d attempt cursor a i1 = (Ok (si_version i1 + 1), committed d attempt cursor a i1)" by blast
    have "rr_scopes s' c = Some (snd (commit d attempt cursor a i1))" using s'(5) ad i(3) by blast
    then have "map_option core (rr_scopes s' c) = Some (core (committed d attempt cursor a i))"
      using i(4,5) by (simp add: core_committed)
    with i(1,2) show ?thesis by blast
  qed
  moreover have "same_rest s s'" using same s'(2) same_rest_trans by (auto simp: same_core_def)
  moreover have "map_option core (rr_scopes s' c) = map_option core (rr_scopes s c)" if "c \<notin> set (map fst scopes)" for c
    using s'(4) that cells same_core_cell [OF same, of c] by simp
  ultimately show ?thesis using s'(1,3) cells by auto
qed

lemma counter_steps:
  "next_attempt s = (r, s') \<Longrightarrow> same_rest (s\<lparr>rr_next_attempt := rr_next_attempt s'\<rparr>) s' \<and> rr_scopes s' = rr_scopes s \<and>
    (\<forall>x. r = Ok x \<longrightarrow> rr_next_attempt s' = rr_next_attempt s + 1 \<and> rr_next_attempt s + 1 < 2 ^ 64 \<and>
      x = identity_bytes attempt_kind (rr_next_attempt s + 1))"
  "next_cursor s = (r', s') \<Longrightarrow> same_rest (s\<lparr>rr_next_cursor := rr_next_cursor s'\<rparr>) s' \<and> rr_scopes s' = rr_scopes s \<and>
    (\<forall>x. r' = Ok x \<longrightarrow> rr_next_cursor s' = rr_next_cursor s + 1 \<and> rr_next_cursor s + 1 < 2 ^ 64 \<and> x = rr_next_cursor s + 1)"
  by (auto simp: next_attempt_def next_cursor_def pbind_def pread_def checked_incr_def pupd_def pret_def same_rest_def
      split: if_splits)

text \<open>What an observation does to a run: nothing but counters and caches, or a new attempt that every
  scope in \<open>cells\<close> has permitted and committed.\<close>

definition untouched :: "('s, 'd, 't) residual_run \<Rightarrow> ('s, 'd, 't) residual_run \<Rightarrow> bool" where
  "untouched s s' \<longleftrightarrow>
     rr_attempts s' = rr_attempts s \<and> (\<forall>c. map_option core (rr_scopes s' c) = map_option core (rr_scopes s c))"

definition committed_everywhere ::
  "('s, 'd, 't) residual_run \<Rightarrow> nat set \<Rightarrow> nat \<Rightarrow> ('s, 'd, 't) residual_run \<Rightarrow> bool"
where
  "committed_everywhere s cells tag s' \<longleftrightarrow>
     (\<exists>a. rr_attempts s' = (rr_attempts s)(tag \<mapsto> a) \<and> rr_attempts s tag = None \<and>
       \<not> ra_dispatched a \<and> \<not> ra_completed a \<and> ra_trusted a = None \<and>
       ra_id a = identity_bytes attempt_kind (rr_next_attempt s + 1) \<and> ra_cursor a = rr_next_cursor s + 1 \<and>
       set (map ob_cell (ra_scopes a)) = cells \<and>
       (\<forall>c \<in> cells. \<exists>i action deltas. rr_scopes s c = Some i \<and>
         preview i (ra_id a) (ra_cursor a) action = Ok (PreviewPermit deltas) \<and>
         map_option core (rr_scopes s' c) = Some (core (committed deltas (ra_id a) (ra_cursor a) action i))) \<and>
       (\<forall>c. c \<notin> cells \<longrightarrow> map_option core (rr_scopes s' c) = map_option core (rr_scopes s c)))"

definition observe_scopes ::
  "checked_facts \<Rightarrow> bool \<Rightarrow> (nat \<times> nat) list \<Rightarrow> (string, ('s, 'd, 't) residual_run, nat) prog"
where
  "observe_scopes cf decision scopes =
     pbind next_attempt (\<lambda>attempt.
     pbind next_cursor (\<lambda>cursor.
     pbind (preview_scopes cf attempt cursor scopes) (\<lambda>previews.
     pbind (commit_scopes attempt cursor previews) (\<lambda>observed.
     new_attempt (attempt_new attempt cursor observed decision)))))"

lemma observe_scopes_cases:
  assumes run: "observe_scopes cf decision scopes s = (r, s')" and "distinct (map fst scopes)"
    and ok: "\<forall>c i. rr_scopes s c = Some i \<longrightarrow> coherent i \<and> roomy i \<and> length (si_states i) = length (ps_plans (si_prepared i))"
    and fresh: "rr_attempts s (rr_next_cell s) = None"
  shows "(\<exists>e. r = Err e) \<and> untouched s s' \<or> (\<exists>tag. r = Ok tag \<and> committed_everywhere s (set (map fst scopes)) tag s')"
proof -
  obtain r1 s1 where 1: "next_attempt s = (r1, s1)" by (cases "next_attempt s")
  note c1 = counter_steps(1) [OF 1]
  then have u1: "rr_scopes s1 = rr_scopes s" "rr_attempts s1 = rr_attempts s" "rr_next_cell s1 = rr_next_cell s"
    "rr_next_cursor s1 = rr_next_cursor s" by (auto dest: same_restD)
  show ?thesis
  proof (cases r1)
    case (Inl e)
    then show ?thesis using run 1 u1 by (auto simp: observe_scopes_def pbind_def untouched_def)
  next
    case (Inr attempt)
    obtain r2 s2 where 2: "next_cursor s1 = (r2, s2)" by (cases "next_cursor s1")
    note c2 = counter_steps(2) [OF 2]
    then have u2: "rr_scopes s2 = rr_scopes s" "rr_attempts s2 = rr_attempts s" "rr_next_cell s2 = rr_next_cell s"
      using u1 by (auto dest: same_restD)
    show ?thesis
    proof (cases r2)
      case (Inl e)
      then show ?thesis using run 1 2 \<open>r1 = Inr attempt\<close> u2 by (auto simp: observe_scopes_def pbind_def untouched_def)
    next
      case (Inr cursor)
      obtain r3 s3 where 3: "preview_scopes cf attempt cursor scopes s2 = (r3, s3)"
        by (cases "preview_scopes cf attempt cursor scopes s2")
      show ?thesis
      proof (cases r3)
        case (Inl e)
        then have "s' = s3" "r = Err e" using run 1 2 3 \<open>r1 = Inr attempt\<close> \<open>r2 = Inr cursor\<close>
          by (simp_all add: observe_scopes_def pbind_def)
        moreover have "same_core s2 s3" using preview_scopes_spec [OF 3] by blast
        ultimately show ?thesis using u2 by (auto simp: untouched_def same_core_def dest: same_restD)
      next
        case (Inr previews)
        have ok2: "\<forall>c i. rr_scopes s2 c = Some i \<longrightarrow> coherent i \<and> roomy i \<and> length (si_states i) = length (ps_plans (si_prepared i))"
          using ok u2(1) by simp
        from commit_previewed [OF 3 [unfolded Inr] assms(2) ok2] obtain observed s4 where 4:
          "commit_scopes attempt cursor previews s3 = (Ok observed, s4)" "same_rest s2 s4"
          "map ob_cell observed = map fst scopes"
          "\<forall>c. c \<notin> set (map fst scopes) \<longrightarrow> map_option core (rr_scopes s4 c) = map_option core (rr_scopes s2 c)"
          "\<forall>c \<in> set (map fst scopes). \<exists>i action deltas. rr_scopes s2 c = Some i \<and>
            preview i attempt cursor action = Ok (PreviewPermit deltas) \<and>
            map_option core (rr_scopes s4 c) = Some (core (committed deltas attempt cursor action i))" by blast
        let ?a = "attempt_new attempt cursor observed decision"
        have "new_attempt ?a s4 = (r, s')"
          using run 1 2 3 4(1) \<open>r1 = Inr attempt\<close> \<open>r2 = Inr cursor\<close> Inr by (simp add: observe_scopes_def pbind_def)
        then have r: "r = Ok (rr_next_cell s)" "rr_attempts s' = (rr_attempts s)(rr_next_cell s \<mapsto> ?a)" "rr_scopes s' = rr_scopes s4"
          using same_restD [OF 4(2)] u2 by (auto simp: new_attempt_def put_attempt_def)
        have "attempt = identity_bytes attempt_kind (rr_next_attempt s + 1)" "cursor = rr_next_cursor s + 1"
          using c1 c2 u1 \<open>r1 = Inr attempt\<close> \<open>r2 = Inr cursor\<close> by auto
        then have "committed_everywhere s (set (map fst scopes)) (rr_next_cell s) s'"
          unfolding committed_everywhere_def using r(2,3) 4(3-5) u2(1) fresh
          by (intro exI [of _ ?a]) (simp add: attempt_new_def)
        with r(1) show ?thesis by blast
      qed
    qed
  qed
qed

end
