(* ===== verification/Residual_Scope.thy ===== *)
theory Residual_Scope
  imports Residual_Observe
begin

text \<open>
  The invariant of one residual scope and how it evolves: every method keeps \<open>scope_ok\<close> and leads to
  a \<open>later\<close> scope.
\<close>

section \<open>The invariant of a scope\<close>

definition counter_id :: "8 word \<Rightarrow> nat \<Rightarrow> identity \<Rightarrow> bool" where
  "counter_id kind bound i \<longleftrightarrow> (\<exists>n. 0 < n \<and> n \<le> bound \<and> i = identity_bytes kind n)"

lemma counter_id_mono: "counter_id kind b i \<Longrightarrow> b \<le> b' \<Longrightarrow> counter_id kind b' i"
  by (auto simp: counter_id_def)

definition entry_ok :: "nat \<Rightarrow> nat option \<Rightarrow> outcome_entry \<Rightarrow> bool" where
  "entry_ok attempts bound e \<longleftrightarrow>
     (oe_accepted e \<noteq> None \<or> oe_rejected e \<noteq> None) \<and> oe_rejected e \<noteq> Some OutcomeAccepted \<and>
     (\<forall>x. oe_accepted e = Some x \<longrightarrow> counter_id attempt_kind attempts (fst (outcome_history x)) \<and>
       0 < snd (outcome_history x) \<and> \<not> cursor_after (Some (snd (outcome_history x))) bound)"

definition scope_ok :: "nat \<Rightarrow> nat \<Rightarrow> ('s, 'd, 't) scope_instance \<Rightarrow> bool" where
  "scope_ok cursors attempts i \<longleftrightarrow>
     length (si_states i) = length (ps_plans (si_prepared i)) \<and>
     validate_component_budget (si_prepared i) (sl_components (si_limits i)) = Ok () \<and>
     length (si_outcomes i) \<le> sl_outcomes (si_limits i) \<and> length (si_pending i) \<le> sl_pending (si_limits i) \<and>
     distinct (map oe_action (si_outcomes i)) \<and> distinct (map pn_attempt (si_pending i)) \<and>
     (\<forall>e \<in> set (si_outcomes i). entry_ok attempts (si_last_cursor i) e) \<and>
     (\<forall>p \<in> set (si_pending i). counter_id attempt_kind attempts (pn_attempt p)) \<and>
     ((si_version i = 0) = (si_last_cursor i = None)) \<and>
     (\<forall>l. si_last_cursor i = Some l \<longrightarrow> 0 < l \<and> l \<le> cursors)"

lemma entry_ok_mono:
  "entry_ok a b e \<Longrightarrow> a \<le> a' \<Longrightarrow> (\<And>l. b = Some l \<Longrightarrow> \<exists>l' \<ge> l. b' = Some l') \<Longrightarrow> entry_ok a' b' e"
  by (cases b) (auto simp: entry_ok_def cursor_after_def intro: counter_id_mono split: option.splits)

lemma scope_ok_mono: "scope_ok c a i \<Longrightarrow> c \<le> c' \<Longrightarrow> a \<le> a' \<Longrightarrow> scope_ok c' a' i"
  unfolding scope_ok_def by (auto intro: counter_id_mono entry_ok_mono dest: order_trans)

lemma scope_ok_core: "scope_ok c a (core i) = scope_ok c a i"
  by (simp add: scope_ok_def)

lemma scope_ok_exit: "scope_ok c a (i\<lparr>si_exit := x\<rparr>) = scope_ok c a i"
  by (simp add: scope_ok_def)

lemma length_commit_states: "length (snd (commit_states plans sts deltas)) = length sts"
  by (induction plans sts deltas rule: commit_states.induct) (auto split: prod.splits sum.splits)

text \<open>The two outcomes of a commit, and of recording an outcome.\<close>

lemma commit_cases:
  assumes "commit deltas attempt cursor action i = (r, i')"
  shows "(\<exists>e sts. r = Err e \<and> i' = i\<lparr>si_states := sts\<rparr> \<and> length sts = length (si_states i) \<and> (si_exit i \<noteq> None \<longrightarrow> i' = i)) \<or>
    (\<exists>sts. r = Ok (si_version i + 1) \<and> si_exit i = None \<and> 0 < cursor \<and> (\<forall>l. si_last_cursor i = Some l \<longrightarrow> l < cursor) \<and>
      length (si_pending i) < sl_pending (si_limits i) \<and> si_version i + 1 < 2 ^ 64 \<and> length sts = length (si_states i) \<and>
      i' = i\<lparr>si_states := sts, si_pending := si_pending i @ [\<lparr>pn_attempt = attempt, pn_action = action\<rparr>],
        si_version := si_version i + 1, si_last_cursor := Some cursor\<rparr>)"
proof -
  let ?sts = "snd (commit_states (ps_plans (si_prepared i)) (si_states i) deltas)"
  have len: "length ?sts = length (si_states i)" by (rule length_commit_states)
  have self: "i\<lparr>si_states := si_states i\<rparr> = i" by simp
  show ?thesis
  proof (cases "\<exists>e. r = Err e")
    case True
    then have "i' = i \<or> i' = i\<lparr>si_states := ?sts\<rparr> \<and> si_exit i = None"
      using assms by (auto simp: commit_def split: if_splits sum.splits prod.splits)
    then obtain sts where "i' = i\<lparr>si_states := sts\<rparr>" "length sts = length (si_states i)" "si_exit i \<noteq> None \<longrightarrow> i' = i"
    proof (elim disjE)
      assume "i' = i"
      then show ?thesis using that [of "si_states i"] self by simp
    next
      assume "i' = i\<lparr>si_states := ?sts\<rparr> \<and> si_exit i = None"
      then show ?thesis using that [of ?sts] len by simp
    qed
    with True show ?thesis by blast
  next
    case False
    have "si_exit i = None" using False assms by (cases "si_exit i") (auto simp: commit_def)
    with False have "r = Ok (si_version i + 1) \<and> si_exit i = None \<and> 0 < cursor \<and> (\<forall>l. si_last_cursor i = Some l \<longrightarrow> l < cursor) \<and>
      length (si_pending i) < sl_pending (si_limits i) \<and> si_version i + 1 < 2 ^ 64 \<and>
      i' = i\<lparr>si_states := ?sts, si_pending := si_pending i @ [\<lparr>pn_attempt = attempt, pn_action = action\<rparr>],
        si_version := si_version i + 1, si_last_cursor := Some cursor\<rparr>"
      using assms
      by (auto simp: commit_def validate_next_cursor_def checked_incr_def split: if_splits sum.splits prod.splits option.splits)
    with len show ?thesis by blast
  qed
qed

lemma commit_scope_ok:
  assumes "commit deltas attempt cursor action i = (r, i')" "scope_ok c a i" "cursor \<le> c"
    and "counter_id attempt_kind a attempt" "attempt \<notin> set (map pn_attempt (si_pending i))"
  shows "scope_ok c a i'"
  using commit_cases [OF assms(1)]
proof (elim disjE exE conjE)
  fix e sts assume "i' = i\<lparr>si_states := sts\<rparr>" "length sts = length (si_states i)"
  then show ?thesis using assms(2) by (simp add: scope_ok_def)
next
  fix sts assume new: "0 < cursor" "\<forall>l. si_last_cursor i = Some l \<longrightarrow> l < cursor" "length sts = length (si_states i)"
    "length (si_pending i) < sl_pending (si_limits i)"
    "i' = i\<lparr>si_states := sts, si_pending := si_pending i @ [\<lparr>pn_attempt = attempt, pn_action = action\<rparr>],
      si_version := si_version i + 1, si_last_cursor := Some cursor\<rparr>"
  have "entry_ok a (Some cursor) e" if "e \<in> set (si_outcomes i)" for e
  proof (rule entry_ok_mono)
    show "entry_ok a (si_last_cursor i) e" using assms(2) that by (simp add: scope_ok_def)
    show "\<exists>l' \<ge> l. Some cursor = Some l'" if "si_last_cursor i = Some l" for l using new(2) that less_imp_le by blast
  qed simp
  then show ?thesis using assms new by (auto simp: scope_ok_def)
qed

lemma position_of_Some: "position_of p xs = Some n \<Longrightarrow> n < length xs \<and> p (xs ! n)"
  by (induction xs arbitrary: n) (auto split: if_splits)

lemma position_of_None: "position_of p xs = None \<longleftrightarrow> (\<forall>x \<in> set xs. \<not> p x)"
  by (induction xs) auto

lemma remove_at_set: "set (remove_at n xs) \<subseteq> set xs"
  by (auto simp: remove_at_def dest: in_set_takeD in_set_dropD)

lemma remove_at_distinct:
  assumes "distinct (map f xs)"
  shows "distinct (map f (remove_at n xs))"
proof (cases "n < length xs")
  case True
  have "distinct (map f (take n xs @ xs ! n # drop (Suc n) xs))" using assms id_take_nth_drop [OF True] by simp
  then show ?thesis by (simp add: remove_at_def)
next
  case False
  then show ?thesis using assms by (simp add: remove_at_def)
qed

lemma record_outcome_cases:
  assumes "record_outcome attempt status completed_at i = Ok i'" "si_exit i = None"
  obtains position action index outcomes where
    "position < length (si_pending i)" "pn_attempt (si_pending i ! position) = attempt"
    "action = pn_action (si_pending i ! position)"
    "0 < completed_at" "\<forall>l. si_last_cursor i = Some l \<longrightarrow> l < completed_at" "si_version i + 1 < 2 ^ 64"
    "index < length outcomes" "oe_action (outcomes ! index) = action"
    "outcomes = si_outcomes i \<or> outcomes = si_outcomes i @ [\<lparr>oe_action = action, oe_accepted = None, oe_rejected = None\<rparr>] \<and>
      index = length (si_outcomes i) \<and> action \<notin> set (map oe_action (si_outcomes i)) \<and>
      length (si_outcomes i) < sl_outcomes (si_limits i)"
    "i' = i\<lparr>si_pending := remove_at position (si_pending i),
       si_outcomes := outcomes[index := put_status status attempt completed_at (outcomes ! index)],
       si_version := si_version i + 1, si_last_cursor := Some completed_at\<rparr>"
proof -
  obtain position where position: "position_of (\<lambda>p. pn_attempt p = attempt) (si_pending i) = Some position"
    using assms by (auto simp: record_outcome_def)
  let ?action = "pn_action (si_pending i ! position)"
  let ?found = "position_of (\<lambda>e. oe_action e = ?action) (si_outcomes i)"
  have cursor: "0 < completed_at" "\<forall>l. si_last_cursor i = Some l \<longrightarrow> l < completed_at" "si_version i + 1 < 2 ^ 64"
    using assms by (auto simp: record_outcome_def validate_next_cursor_def checked_incr_def split: if_splits option.splits)
  show ?thesis
  proof (cases ?found)
    case (Some index)
    have "i' = i\<lparr>si_pending := remove_at position (si_pending i),
       si_outcomes := (si_outcomes i)[index := put_status status attempt completed_at (si_outcomes i ! index)],
       si_version := si_version i + 1, si_last_cursor := Some completed_at\<rparr>"
      using assms position Some by (auto simp: record_outcome_def checked_incr_def Let_def split: if_splits)
    then show ?thesis using that position_of_Some [OF position] position_of_Some [OF Some] cursor by blast
  next
    case None
    let ?outcomes = "si_outcomes i @ [\<lparr>oe_action = ?action, oe_accepted = None, oe_rejected = None\<rparr>]"
    have "length (si_outcomes i) < sl_outcomes (si_limits i)"
      "i' = i\<lparr>si_pending := remove_at position (si_pending i),
       si_outcomes := ?outcomes[length (si_outcomes i) := put_status status attempt completed_at (?outcomes ! length (si_outcomes i))],
       si_version := si_version i + 1, si_last_cursor := Some completed_at\<rparr>"
      using assms position None by (auto simp: record_outcome_def checked_incr_def Let_def split: if_splits)
    moreover have "?action \<notin> set (map oe_action (si_outcomes i))" using None by (auto simp: position_of_None)
    ultimately show ?thesis
      using position_of_Some [OF position] cursor by (intro that [of position ?action "length (si_outcomes i)" ?outcomes]) simp_all
  qed
qed

lemma put_status_action [simp]: "oe_action (put_status status attempt k e) = oe_action e"
  by (cases status) (simp_all add: put_status_def)

lemma put_status_ok:
  assumes "counter_id attempt_kind a attempt" "0 < k"
    and "oe_rejected e \<noteq> Some OutcomeAccepted"
    and "\<forall>x. oe_accepted e = Some x \<longrightarrow> counter_id attempt_kind a (fst (outcome_history x)) \<and>
       0 < snd (outcome_history x) \<and> \<not> cursor_after (Some (snd (outcome_history x))) (Some k)"
  shows "entry_ok a (Some k) (put_status status attempt k e)"
  using assms by (cases status) (auto simp: put_status_def entry_ok_def cursor_after_def)

lemma record_outcome_scope_ok:
  assumes "record_outcome attempt status k i = Ok i'" "scope_ok c a i" "k \<le> c"
  shows "scope_ok c a i'"
proof (cases "si_exit i")
  case (Some x)
  then show ?thesis using assms by (simp add: record_outcome_def)
next
  case None
  from assms(1) None obtain position action index outcomes where new:
    "position < length (si_pending i)" "pn_attempt (si_pending i ! position) = attempt"
    "action = pn_action (si_pending i ! position)"
    "0 < k" "\<forall>l. si_last_cursor i = Some l \<longrightarrow> l < k" "si_version i + 1 < 2 ^ 64"
    "index < length outcomes" "oe_action (outcomes ! index) = action"
    "outcomes = si_outcomes i \<or> outcomes = si_outcomes i @ [\<lparr>oe_action = action, oe_accepted = None, oe_rejected = None\<rparr>] \<and>
      index = length (si_outcomes i) \<and> action \<notin> set (map oe_action (si_outcomes i)) \<and>
      length (si_outcomes i) < sl_outcomes (si_limits i)"
    "i' = i\<lparr>si_pending := remove_at position (si_pending i),
       si_outcomes := outcomes[index := put_status status attempt k (outcomes ! index)],
       si_version := si_version i + 1, si_last_cursor := Some k\<rparr>" by (rule record_outcome_cases)
  have old: "entry_ok a (Some k) e" if "e \<in> set (si_outcomes i)" for e
  proof (rule entry_ok_mono)
    show "entry_ok a (si_last_cursor i) e" using assms(2) that by (simp add: scope_ok_def)
    show "\<exists>l' \<ge> l. Some k = Some l'" if "si_last_cursor i = Some l" for l using new(5) that less_imp_le by blast
  qed simp
  have "\<lparr>pn_attempt = attempt, pn_action = action\<rparr> \<in> set (si_pending i)"
    using new(1-3) nth_mem [OF new(1)] by (cases "si_pending i ! position") simp
  then have counter: "counter_id attempt_kind a attempt" using assms(2) by (auto simp: scope_ok_def)
  have "outcomes ! index \<in> set (si_outcomes i) \<or>
      outcomes ! index = \<lparr>oe_action = action, oe_accepted = None, oe_rejected = None\<rparr>"
    using new(7,9) by auto
  then have put: "entry_ok a (Some k) (put_status status attempt k (outcomes ! index))"
  proof
    assume "outcomes ! index \<in> set (si_outcomes i)"
    then show ?thesis using old [of "outcomes ! index"] counter new(4) by (intro put_status_ok) (simp_all add: entry_ok_def)
  next
    assume "outcomes ! index = \<lparr>oe_action = action, oe_accepted = None, oe_rejected = None\<rparr>"
    then show ?thesis using counter new(4) by (intro put_status_ok) simp_all
  qed
  have entries: "entry_ok a (Some k) e" if "e \<in> set (outcomes[index := put_status status attempt k (outcomes ! index)])" for e
    using new(9)
  proof
    assume "outcomes = si_outcomes i"
    then show ?thesis using that put old set_update_subset_insert by fastforce
  next
    assume "outcomes = si_outcomes i @ [\<lparr>oe_action = action, oe_accepted = None, oe_rejected = None\<rparr>] \<and>
      index = length (si_outcomes i) \<and> action \<notin> set (map oe_action (si_outcomes i)) \<and>
      length (si_outcomes i) < sl_outcomes (si_limits i)"
    then show ?thesis using that put old by auto
  qed
  have actions: "map oe_action (outcomes[index := put_status status attempt k (outcomes ! index)]) = map oe_action outcomes"
    using new(7) by (simp add: map_update list_update_same_conv)
  have "distinct (map oe_action outcomes)" "length outcomes \<le> sl_outcomes (si_limits i)"
    using new(9) assms(2) by (auto simp: scope_ok_def)
  moreover have "length (remove_at position (si_pending i)) \<le> sl_pending (si_limits i)"
  proof -
    have "length (remove_at position (si_pending i)) \<le> length (si_pending i)" using new(1) by (simp add: remove_at_def)
    with assms(2) show ?thesis by (simp add: scope_ok_def)
  qed
  moreover have "\<forall>p \<in> set (remove_at position (si_pending i)). counter_id attempt_kind a (pn_attempt p)"
    using assms(2) remove_at_set [of position "si_pending i"] by (auto simp: scope_ok_def)
  moreover have "distinct (map pn_attempt (remove_at position (si_pending i)))"
    using assms(2) by (intro remove_at_distinct) (simp add: scope_ok_def)
  ultimately show ?thesis
    using assms(2,3) new(4) entries actions by (simp add: scope_ok_def new(10))
qed

text \<open>How a scope evolves: its identity is fixed, its version never decreases, an event that leaves
  the version alone leaves the evidence alone, and an exited scope does not change.\<close>

definition later :: "('s, 'd, 't) scope_instance \<Rightarrow> ('s, 'd, 't) scope_instance \<Rightarrow> bool" where
  "later i i' \<longleftrightarrow>
     si_prepared i' = si_prepared i \<and> si_application i' = si_application i \<and> si_program i' = si_program i \<and>
     si_invocation i' = si_invocation i \<and> si_span i' = si_span i \<and> si_limits i' = si_limits i \<and>
     si_version i \<le> si_version i' \<and>
     (si_version i' = si_version i \<longrightarrow> si_pending i' = si_pending i \<and> si_outcomes i' = si_outcomes i \<and>
       si_last_cursor i' = si_last_cursor i) \<and>
     (si_exit i \<noteq> None \<longrightarrow> core i' = core i)"

lemma later_core:
  assumes "core i' = core i"
  shows "later i i'"
  unfolding later_def core_eqD [OF assms] assms by simp

lemma later_refl [simp]: "later i i"
  by (simp add: later_core)

lemma later_trans:
  assumes "later i j" "later j k"
  shows "later i k"
proof -
  have "core k = core i" if "si_exit i \<noteq> None"
    using assms that core_eqD(11) [of j i] by (simp add: later_def)
  then show ?thesis using assms by (auto simp: later_def)
qed

lemma later_commit: "commit deltas attempt cursor action i = (r, i') \<Longrightarrow> later i i'"
  by (drule commit_cases) (auto simp: later_def)

lemma later_record_outcome:
  assumes "record_outcome attempt status k i = Ok i'"
  shows "later i i'"
proof (cases "si_exit i")
  case (Some x)
  then show ?thesis using assms by (simp add: record_outcome_def)
next
  case None
  from assms None show ?thesis by (rule record_outcome_cases) (simp add: later_def None)
qed

lemma later_finish: "finish_scope kind i log = (r, i', log') \<Longrightarrow> later i i'"
  by (auto simp: finish_scope_def record_exit_def later_def Let_def split: option.splits sum.splits prod.splits if_splits)

end
