(* ===== verification/Residual_Runs.thy ===== *)
theory Residual_Runs
  imports Residual_Scope
begin

text \<open>
  Runs of the residual monitors: any sequence of activations, observations, permits, approvals,
  outcomes, exits and drops. The invariant of a run, and how its scopes and attempts evolve.
\<close>

section \<open>The invariant of a run\<close>

text \<open>The invocations that no active scope has any more.\<close>

definition exited_counters :: "('s, 'd, 't) residual_run \<Rightarrow> nat set" where
  "exited_counters s =
     {n. 0 < n \<and> n \<le> rr_next_invocation s \<and>
       \<not> (\<exists>c i. rr_scopes s c = Some i \<and> is_active i \<and> si_invocation i = identity_bytes invocation_kind n)}"

definition record_ok :: "nat set \<Rightarrow> nat \<Rightarrow> exit_record \<Rightarrow> bool" where
  "record_ok exited maximum r \<longleftrightarrow>
     er_invocation r \<in> identity_bytes invocation_kind ` exited \<and> er_unknown r \<le> maximum"

definition log_ok :: "nat set \<Rightarrow> nat \<Rightarrow> run_log \<Rightarrow> bool" where
  "log_ok exited maximum log \<longleftrightarrow>
     length (rl_exits log) \<le> rl_capacity log \<and> distinct (map er_invocation (rl_exits log)) \<and>
     (\<forall>r \<in> set (rl_exits log) \<union> set_option (rl_first log). record_ok exited maximum r) \<and>
     (\<forall>f. rl_first log = Some f \<longrightarrow> unsatisfied f) \<and> (rl_first log = None \<longleftrightarrow> rl_unsatisfied log = 0) \<and>
     (rl_first log = None \<longrightarrow> filter unsatisfied (rl_exits log) = []) \<and>
     length (with_first (rl_first log) (filter unsatisfied (rl_exits log))) \<le> rl_unsatisfied log \<and>
     rl_unsatisfied log \<le> card exited \<and> rl_dropped log \<le> card exited"

definition attempt_ok :: "('s, 'd, 't) residual_run \<Rightarrow> residual_attempt \<Rightarrow> bool" where
  "attempt_ok s a \<longleftrightarrow>
     counter_id attempt_kind (rr_next_attempt s) (ra_id a) \<and> 0 < ra_cursor a \<and> ra_cursor a \<le> rr_next_cursor s \<and>
     (\<forall>ob \<in> set (ra_scopes a). \<exists>i. rr_scopes s (ob_cell ob) = Some i \<and> ob_version ob \<le> si_version i)"

definition cell_ok :: "('s, 'd, 't) residual_run \<Rightarrow> ('s, 'd, 't) scope_instance \<Rightarrow> bool" where
  "cell_ok s i \<longleftrightarrow>
     scope_ok (rr_next_cursor s) (rr_next_attempt s) i \<and>
     counter_id invocation_kind (rr_next_invocation s) (si_invocation i) \<and> si_limits i = rr_limits s"

definition run_ok :: "('s, 'd, 't) residual_run \<Rightarrow> bool" where
  "run_ok s \<longleftrightarrow>
     (\<forall>c i. rr_scopes s c = Some i \<longrightarrow> c < rr_next_cell s \<and> cell_ok s i) \<and>
     (\<forall>c c' i i'. rr_scopes s c = Some i \<longrightarrow> rr_scopes s c' = Some i' \<longrightarrow> si_invocation i = si_invocation i' \<longrightarrow> c = c') \<and>
     (\<forall>t a. rr_attempts s t = Some a \<longrightarrow> t < rr_next_cell s \<and> attempt_ok s a) \<and>
     (\<forall>t t' a a'. rr_attempts s t = Some a \<longrightarrow> rr_attempts s t' = Some a' \<longrightarrow> ra_id a = ra_id a' \<longrightarrow> t = t') \<and>
     rr_next_cursor s < 2 ^ 64 \<and> rr_next_attempt s < 2 ^ 64 \<and> rr_next_invocation s < 2 ^ 64 \<and>
     log_ok (exited_counters s) (sl_pending (rr_limits s)) (rr_log s)"

lemma run_okD:
  assumes "run_ok s"
  shows "rr_scopes s c = Some i \<Longrightarrow> c < rr_next_cell s \<and> cell_ok s i"
    "rr_scopes s c = Some i \<Longrightarrow> rr_scopes s c' = Some i' \<Longrightarrow> si_invocation i = si_invocation i' \<Longrightarrow> c = c'"
    "rr_attempts s t = Some a \<Longrightarrow> t < rr_next_cell s \<and> attempt_ok s a"
    "rr_attempts s t = Some a \<Longrightarrow> rr_attempts s t' = Some a' \<Longrightarrow> ra_id a = ra_id a' \<Longrightarrow> t = t'"
    "rr_next_cursor s < 2 ^ 64" "rr_next_attempt s < 2 ^ 64" "rr_next_invocation s < 2 ^ 64"
    "log_ok (exited_counters s) (sl_pending (rr_limits s)) (rr_log s)"
  using assms unfolding run_ok_def by blast+

lemma run_ok_default: "run_ok run_default"
  by (simp add: run_ok_def run_default_def log_ok_def log_new_def with_first_def)

definition later_attempt :: "residual_attempt \<Rightarrow> residual_attempt \<Rightarrow> bool" where
  "later_attempt a a' \<longleftrightarrow>
     ra_id a' = ra_id a \<and> ra_cursor a' = ra_cursor a \<and> ra_scopes a' = ra_scopes a \<and> ra_decision a' = ra_decision a \<and>
     (ra_dispatched a \<longrightarrow> ra_dispatched a') \<and> (ra_completed a \<longrightarrow> ra_completed a')"

lemma later_attempt_refl [simp]: "later_attempt a a"
  by (simp add: later_attempt_def)

lemma later_attempt_trans: "later_attempt a b \<Longrightarrow> later_attempt b c \<Longrightarrow> later_attempt a c"
  by (auto simp: later_attempt_def)

text \<open>Cells are never reused: what is found at an old address later evolved from what was there.\<close>

definition evolves :: "('s, 'd, 't) residual_run \<Rightarrow> ('s, 'd, 't) residual_run \<Rightarrow> bool" where
  "evolves s s' \<longleftrightarrow>
     rr_next_cell s \<le> rr_next_cell s' \<and> rr_limits s' = rr_limits s \<and>
     rl_capacity (rr_log s') = rl_capacity (rr_log s) \<and>
     (\<forall>c i'. c < rr_next_cell s \<longrightarrow> rr_scopes s' c = Some i' \<longrightarrow> (\<exists>i. rr_scopes s c = Some i \<and> later i i')) \<and>
     (\<forall>t a'. t < rr_next_cell s \<longrightarrow> rr_attempts s' t = Some a' \<longrightarrow> (\<exists>a. rr_attempts s t = Some a \<and> later_attempt a a'))"

lemma evolves_refl [simp]: "evolves s s"
  by (auto simp: evolves_def)

lemma evolves_trans:
  assumes "evolves s s'" "evolves s' s''"
  shows "evolves s s''"
proof -
  have "\<exists>i. rr_scopes s c = Some i \<and> later i i''" if "c < rr_next_cell s" "rr_scopes s'' c = Some i''" for c i''
  proof -
    from assms that obtain i' where "rr_scopes s' c = Some i'" "later i' i''"
      unfolding evolves_def by (meson less_le_trans)
    with assms(1) that(1) show ?thesis unfolding evolves_def by (meson later_trans)
  qed
  moreover have "\<exists>a. rr_attempts s t = Some a \<and> later_attempt a a''" if "t < rr_next_cell s" "rr_attempts s'' t = Some a''" for t a''
  proof -
    from assms that obtain a' where "rr_attempts s' t = Some a'" "later_attempt a' a''"
      unfolding evolves_def by (meson less_le_trans)
    with assms(1) that(1) show ?thesis unfolding evolves_def by (meson later_attempt_trans)
  qed
  ultimately show ?thesis using assms by (auto simp: evolves_def)
qed

text \<open>A good continuation of a good run.\<close>

definition continues :: "('s, 'd, 't) residual_run \<Rightarrow> ('s, 'd, 't) residual_run \<Rightarrow> bool" where
  "continues s s' \<longleftrightarrow> (run_ok s \<longrightarrow> run_ok s' \<and> evolves s s')"

lemma continues_refl [simp]: "continues s s"
  by (simp add: continues_def)

lemma continues_trans: "continues s s' \<Longrightarrow> continues s' s'' \<Longrightarrow> continues s s''"
  by (auto simp: continues_def intro: evolves_trans)

section \<open>Elementary steps\<close>

lemma ex_put_scope:
  assumes "rr_scopes s c = Some i" "P i' = P i"
  shows "(\<exists>k j. rr_scopes (put_scope c i' s) k = Some j \<and> P j) \<longleftrightarrow> (\<exists>k j. rr_scopes s k = Some j \<and> P j)"
proof
  assume "\<exists>k j. rr_scopes (put_scope c i' s) k = Some j \<and> P j"
  then show "\<exists>k j. rr_scopes s k = Some j \<and> P j"
    using assms by (auto simp: put_scope_def split: if_splits)
next
  assume "\<exists>k j. rr_scopes s k = Some j \<and> P j"
  then obtain k j where "rr_scopes s k = Some j" "P j" by blast
  then show "\<exists>k j. rr_scopes (put_scope c i' s) k = Some j \<and> P j"
    using assms by (cases "k = c") (auto simp: put_scope_def)
qed

lemma exited_put_scope:
  assumes "rr_scopes s c = Some i" "si_exit i' = si_exit i" "si_invocation i' = si_invocation i"
  shows "exited_counters (put_scope c i' s) = exited_counters s"
proof -
  have "(\<exists>k j. rr_scopes (put_scope c i' s) k = Some j \<and> is_active j \<and> si_invocation j = x) \<longleftrightarrow>
      (\<exists>k j. rr_scopes s k = Some j \<and> is_active j \<and> si_invocation j = x)" for x
    by (rule ex_put_scope [OF assms(1)]) (simp add: assms(2,3))
  then show ?thesis by (simp add: exited_counters_def) (simp add: put_scope_def)
qed

lemma attempt_ok_put_scope:
  assumes "attempt_ok s a" "rr_scopes s c = Some i" "si_version i \<le> si_version i'"
  shows "attempt_ok (put_scope c i' s) a"
  using assms by (fastforce simp: attempt_ok_def put_scope_def)

lemma continues_put_scope:
  assumes "rr_scopes s c = Some i" "later i i'" "si_exit i' = si_exit i"
    and "run_ok s \<Longrightarrow> scope_ok (rr_next_cursor s) (rr_next_attempt s) i'"
  shows "continues s (put_scope c i' s)"
  unfolding continues_def
proof (intro impI conjI)
  assume ok: "run_ok s"
  have i: "c < rr_next_cell s" "cell_ok s i" using run_okD(1) [OF ok assms(1)] by auto
  have fixed: "si_invocation i' = si_invocation i" "si_limits i' = si_limits i" "si_version i \<le> si_version i'"
    using assms(2) by (simp_all add: later_def)
  have cell: "cell_ok s i'" using i(2) fixed assms(4) [OF ok] by (simp add: cell_ok_def)
  have cells: "cell_ok (put_scope c i' s) j = cell_ok s j" for j by (simp add: cell_ok_def put_scope_def)
  have rest: "rr_attempts (put_scope c i' s) = rr_attempts s" "rr_next_cell (put_scope c i' s) = rr_next_cell s"
    "rr_next_cursor (put_scope c i' s) = rr_next_cursor s" "rr_next_attempt (put_scope c i' s) = rr_next_attempt s"
    "rr_next_invocation (put_scope c i' s) = rr_next_invocation s" "rr_limits (put_scope c i' s) = rr_limits s"
    "rr_log (put_scope c i' s) = rr_log s" by (simp_all add: put_scope_def)
  show "run_ok (put_scope c i' s)"
    unfolding run_ok_def rest exited_put_scope [OF assms(1,3) fixed(1)] cells
  proof (intro conjI allI impI)
    fix k j assume "rr_scopes (put_scope c i' s) k = Some j"
    then have "k = c \<and> j = i' \<or> rr_scopes s k = Some j" by (auto simp: put_scope_def split: if_splits)
    then show "k < rr_next_cell s" "cell_ok s j" using i(1) cell run_okD(1) [OF ok] by blast+
  next
    fix c1 c2 i1 i2
    assume two: "rr_scopes (put_scope c i' s) c1 = Some i1" "rr_scopes (put_scope c i' s) c2 = Some i2"
      "si_invocation i1 = si_invocation i2"
    have "\<exists>j. rr_scopes s k = Some j \<and> si_invocation j = si_invocation j'" if "rr_scopes (put_scope c i' s) k = Some j'" for k j'
      using that assms(1) fixed(1) by (cases "k = c") (auto simp: put_scope_def)
    then show "c1 = c2" using two run_okD(2) [OF ok] by metis
  next
    fix t a assume "rr_attempts s t = Some a"
    then show "t < rr_next_cell s" "attempt_ok (put_scope c i' s) a"
      using run_okD(3) [OF ok] attempt_ok_put_scope [OF _ assms(1) fixed(3)] by blast+
  next
    fix t t' a a' assume "rr_attempts s t = Some a" "rr_attempts s t' = Some a'" "ra_id a = ra_id a'"
    then show "t = t'" by (rule run_okD(4) [OF ok])
  qed (rule run_okD [OF ok])+
  show "evolves s (put_scope c i' s)"
    using assms(1,2) by (auto simp: evolves_def put_scope_def)
qed

text \<open>A change that concerns neither the scopes nor the attempts nor the log's records.\<close>

lemma same_scopes_exited:
  assumes "rr_scopes s' = rr_scopes s" "rr_next_invocation s' = rr_next_invocation s"
  shows "exited_counters s' = exited_counters s"
  by (simp add: exited_counters_def assms)

lemma finite_exited [simp]: "finite (exited_counters s)"
  by (rule finite_subset [of _ "{..rr_next_invocation s}"]) (auto simp: exited_counters_def)

lemma record_ok_mono: "record_ok e m r \<Longrightarrow> e \<subseteq> e' \<Longrightarrow> record_ok e' m r"
  by (auto simp: record_ok_def)

lemma log_ok_mono:
  assumes "log_ok e m log" "e \<subseteq> e'" "finite e'"
  shows "log_ok e' m log"
  using assms card_mono [OF assms(3,2)] record_ok_mono [OF _ assms(2), of m] unfolding log_ok_def by fastforce

lemma counter_id_Suc_next: "counter_id kind (Suc b) (identity_bytes kind (Suc b))"
  by (auto simp: counter_id_def)

lemma run_ok_counters:
  assumes "run_ok s" "rr_next_cursor s \<le> k" "rr_next_attempt s \<le> a" "rr_next_invocation s \<le> n"
    and "k < 2 ^ 64" "a < 2 ^ 64" "n < 2 ^ 64"
  shows "run_ok (s\<lparr>rr_next_cursor := k, rr_next_attempt := a, rr_next_invocation := n\<rparr>)"
proof -
  let ?s = "s\<lparr>rr_next_cursor := k, rr_next_attempt := a, rr_next_invocation := n\<rparr>"
  have cells: "cell_ok ?s i" if "cell_ok s i" for i
    using that assms(2-4) by (auto simp: cell_ok_def intro: scope_ok_mono counter_id_mono)
  have attempts: "attempt_ok ?s x" if "attempt_ok s x" for x
    using that assms(2,3) by (auto simp: attempt_ok_def intro: counter_id_mono)
  have exited: "exited_counters s \<subseteq> exited_counters ?s"
    using assms(4) by (auto simp: exited_counters_def)
  have fields: "rr_scopes ?s = rr_scopes s" "rr_attempts ?s = rr_attempts s" "rr_next_cell ?s = rr_next_cell s"
    "rr_limits ?s = rr_limits s" "rr_log ?s = rr_log s" by simp_all
  show ?thesis
    unfolding run_ok_def fields
  proof (intro conjI allI impI)
    fix c i assume "rr_scopes s c = Some i"
    then show "c < rr_next_cell s" "cell_ok ?s i" using run_okD(1) [OF assms(1)] cells by blast+
  next
    fix c c' i i' assume "rr_scopes s c = Some i" "rr_scopes s c' = Some i'" "si_invocation i = si_invocation i'"
    then show "c = c'" by (rule run_okD(2) [OF assms(1)])
  next
    fix t x assume "rr_attempts s t = Some x"
    then show "t < rr_next_cell s" "attempt_ok ?s x" using run_okD(3) [OF assms(1)] attempts by blast+
  next
    fix t t' x x' assume "rr_attempts s t = Some x" "rr_attempts s t' = Some x'" "ra_id x = ra_id x'"
    then show "t = t'" by (rule run_okD(4) [OF assms(1)])
  next
    show "log_ok (exited_counters ?s) (sl_pending (rr_limits s)) (rr_log s)"
      by (rule log_ok_mono [OF run_okD(8) [OF assms(1)] exited]) simp
  qed (use assms in simp_all)
qed

lemma evolves_counters:
  "evolves s (s\<lparr>rr_next_cursor := k\<rparr>)" "evolves s (s\<lparr>rr_next_attempt := k\<rparr>)" "evolves s (s\<lparr>rr_next_invocation := k\<rparr>)"
  by (auto simp: evolves_def)

lemma next_cursor_continues: "next_cursor s = (r, s') \<Longrightarrow> continues s s'"
  using run_okD(6) [of s] run_okD(7) [of s] run_ok_counters [of s "rr_next_cursor s'" "rr_next_attempt s" "rr_next_invocation s"]
  by (auto simp: next_cursor_def pbind_def pread_def checked_incr_def pupd_def pret_def continues_def evolves_counters
      split: if_splits)

lemma next_attempt_continues: "next_attempt s = (r, s') \<Longrightarrow> continues s s'"
  using run_okD(5) [of s] run_okD(7) [of s] run_ok_counters [of s "rr_next_cursor s" "rr_next_attempt s'" "rr_next_invocation s"]
  by (auto simp: next_attempt_def pbind_def pread_def checked_incr_def pupd_def pret_def continues_def evolves_counters
      split: if_splits)

lemma next_invocation_continues: "next_invocation s = (r, s') \<Longrightarrow> continues s s'"
  using run_okD(5) [of s] run_okD(6) [of s] run_ok_counters [of s "rr_next_cursor s" "rr_next_attempt s" "rr_next_invocation s'"]
  by (auto simp: next_invocation_def pbind_def pread_def checked_incr_def pupd_def pret_def continues_def evolves_counters
      split: if_splits)

text \<open>Changing the flags of an attempt, dropping it, changing the mirror or the index of scopes.\<close>

lemma run_ok_attempts:
  assumes "run_ok s" and "\<And>t a'. m t = Some a' \<Longrightarrow> \<exists>a. rr_attempts s t = Some a \<and> later_attempt a a'"
  shows "run_ok (s\<lparr>rr_attempts := m\<rparr>)"
proof -
  let ?s = "s\<lparr>rr_attempts := m\<rparr>"
  have attempts: "attempt_ok ?s a' = attempt_ok s a" if "later_attempt a a'" for a a'
    using that by (simp add: attempt_ok_def later_attempt_def)
  have fields: "rr_scopes ?s = rr_scopes s" "rr_attempts ?s = m" "rr_next_cell ?s = rr_next_cell s"
    "rr_next_cursor ?s = rr_next_cursor s" "rr_next_attempt ?s = rr_next_attempt s"
    "rr_next_invocation ?s = rr_next_invocation s" "rr_limits ?s = rr_limits s" "rr_log ?s = rr_log s"
    "cell_ok ?s = cell_ok s" "exited_counters ?s = exited_counters s"
    by (simp_all add: fun_eq_iff cell_ok_def exited_counters_def)
  show ?thesis
    unfolding run_ok_def fields
  proof (intro conjI allI impI)
    fix t a' assume "m t = Some a'"
    from assms(2) [OF this] obtain a where "rr_attempts s t = Some a" "later_attempt a a'" by blast
    then show "t < rr_next_cell s" "attempt_ok ?s a'" using run_okD(3) [OF assms(1)] attempts by blast+
  next
    fix t t' x x' assume two: "m t = Some x" "m t' = Some x'" "ra_id x = ra_id x'"
    obtain a b where "rr_attempts s t = Some a" "later_attempt a x" "rr_attempts s t' = Some b" "later_attempt b x'"
      using assms(2) [OF two(1)] assms(2) [OF two(2)] by blast
    then show "t = t'" using run_okD(4) [OF assms(1)] two(3) by (simp add: later_attempt_def)
  next
    fix c c' i i' assume "rr_scopes s c = Some i" "rr_scopes s c' = Some i'" "si_invocation i = si_invocation i'"
    then show "c = c'" by (rule run_okD(2) [OF assms(1)])
  qed (use run_okD [OF assms(1)] in blast)+
qed

lemma continues_put_attempt:
  assumes "rr_attempts s t = Some a" "later_attempt a a'"
  shows "continues s (put_attempt t a' s)"
proof -
  have "\<exists>x. rr_attempts s k = Some x \<and> later_attempt x y" if "((rr_attempts s)(t \<mapsto> a')) k = Some y" for k y
    using assms that by (cases "k = t") auto
  then show ?thesis
    unfolding continues_def put_attempt_def using run_ok_attempts [of s "(rr_attempts s)(t \<mapsto> a')"] by (auto simp: evolves_def)
qed

lemma continues_drop_attempt: "continues s (drop_attempt t s)"
proof -
  have "\<exists>x. rr_attempts s k = Some x \<and> later_attempt x y" if "((rr_attempts s)(t := None)) k = Some y" for k y
    using that by (cases "k = t") auto
  then show ?thesis
    unfolding continues_def drop_attempt_def using run_ok_attempts [of s "(rr_attempts s)(t := None)"] by (auto simp: evolves_def)
qed

lemma continues_mirror: "continues s (s\<lparr>rr_mirror := m\<rparr>)"
  by (simp add: continues_def run_ok_def cell_ok_def attempt_ok_def exited_counters_def evolves_def)

lemma continues_index: "continues s (set_index entries s)"
  by (simp add: continues_def run_ok_def cell_ok_def attempt_ok_def exited_counters_def evolves_def set_index_def log_ok_def)

section \<open>Recording an exit\<close>

lemma with_first_length: "length xs \<le> length (with_first f xs)" "length (with_first f xs) \<le> length xs + 1"
  by (cases f; simp add: with_first_def)+

lemma with_first_shift:
  assumes "ys = xs \<or> (\<exists>h. xs = h # ys)"
  shows "length (with_first f ys) \<le> length (with_first f xs)" "length (with_first f (ys @ [r])) \<le> length (with_first f xs) + 1"
proof -
  show "length (with_first f ys) \<le> length (with_first f xs)"
    using assms with_first_length(1) [of xs f] with_first_length(2) [of f ys] by auto
  show "length (with_first f (ys @ [r])) \<le> length (with_first f xs) + 1"
    using assms
  proof
    assume "ys = xs"
    then show ?thesis by (cases f) (auto simp: with_first_def)
  next
    assume "\<exists>h. xs = h # ys"
    then show ?thesis using with_first_length(1) [of xs f] with_first_length(2) [of f "ys @ [r]"] by auto
  qed
qed

definition ring_rest :: "run_log \<Rightarrow> exit_record list" where
  "ring_rest log = (if length (rl_exits log) = rl_capacity log then tl (rl_exits log) else rl_exits log)"

lemma log_record_fields:
  "rl_capacity (log_record r log) = rl_capacity log" "rl_scopes (log_record r log) = rl_scopes log"
  "rl_exits (log_record r log) = (if rl_capacity log = 0 then rl_exits log else ring_rest log @ [r])"
  "rl_first (log_record r log) =
     (if unsatisfied r then (case rl_first log of None \<Rightarrow> Some r | Some f \<Rightarrow> Some f) else rl_first log)"
  "rl_unsatisfied (log_record r log) = (if unsatisfied r then saturating_succ (rl_unsatisfied log) else rl_unsatisfied log)"
  "rl_dropped (log_record r log) \<le> rl_dropped log + 1"
  by (simp_all add: log_record_def Let_def ring_rest_def saturating_succ_def split: if_splits option.splits)

lemma ring_rest_facts:
  "set (ring_rest log) \<subseteq> set (rl_exits log)"
  "distinct (map er_invocation (rl_exits log)) \<Longrightarrow> distinct (map er_invocation (ring_rest log))"
  "filter p (ring_rest log) = filter p (rl_exits log) \<or> (\<exists>h. filter p (rl_exits log) = h # filter p (ring_rest log))"
  "length (rl_exits log) \<le> rl_capacity log \<Longrightarrow> rl_capacity log \<noteq> 0 \<Longrightarrow> length (ring_rest log) + 1 \<le> rl_capacity log"
  by (cases "rl_exits log"; auto simp: ring_rest_def)+

lemma with_first_record:
  assumes "log_ok e m log" "unsatisfied r"
  shows "length (with_first (rl_first (log_record r log)) (filter unsatisfied (rl_exits (log_record r log)))) \<le> rl_unsatisfied log + 1"
proof (cases "rl_first log")
  case None
  then have none: "filter unsatisfied (rl_exits log) = []" using assms(1) unfolding log_ok_def by blast
  then have "filter unsatisfied (ring_rest log) = []" using ring_rest_facts(3) [of unsatisfied log] by auto
  then have "length (with_first (rl_first (log_record r log)) (filter unsatisfied (rl_exits (log_record r log)))) \<le> 1"
    using None assms(2) none by (simp add: log_record_fields with_first_def)
  then show ?thesis by simp
next
  case (Some f)
  have bound: "length (with_first (Some f) (filter unsatisfied (rl_exits log))) \<le> rl_unsatisfied log"
    using assms(1) Some unfolding log_ok_def by simp
  have "length (with_first (Some f) (filter unsatisfied (ring_rest log) @ [r])) \<le>
      length (with_first (Some f) (filter unsatisfied (rl_exits log))) + 1"
    by (rule with_first_shift(2) [OF ring_rest_facts(3)])
  with bound Some assms(2) show ?thesis by (simp add: log_record_fields)
qed

lemma with_first_record_accepting:
  assumes "log_ok e m log" "\<not> unsatisfied r"
  shows "length (with_first (rl_first (log_record r log)) (filter unsatisfied (rl_exits (log_record r log)))) \<le> rl_unsatisfied log"
proof -
  have bound: "length (with_first (rl_first log) (filter unsatisfied (rl_exits log))) \<le> rl_unsatisfied log"
    using assms(1) unfolding log_ok_def by simp
  have "length (with_first (rl_first log) (filter unsatisfied (ring_rest log))) \<le>
      length (with_first (rl_first log) (filter unsatisfied (rl_exits log)))"
    by (rule with_first_shift(1) [OF ring_rest_facts(3)])
  with bound assms(2) show ?thesis by (simp add: log_record_fields)
qed

lemma log_ok_record:
  assumes ok: "log_ok e m log" and n: "n \<notin> e" "n \<in> e'" "e \<subseteq> e'" "finite e'" "e' \<subseteq> {..<2 ^ 64}" "card e' < 2 ^ 64"
    and r: "er_invocation r = identity_bytes invocation_kind n" "er_unknown r \<le> m"
  shows "log_ok e' m (log_record r log)"
proof -
  have "insert n e \<subseteq> e'" "finite e" using n finite_subset by auto
  then have card: "card e + 1 \<le> card e'" using card_mono [OF n(4), of "insert n e"] n(1) by simp
  have unsat: "rl_unsatisfied log \<le> card e" and dropped: "rl_dropped log \<le> card e" using ok by (simp_all add: log_ok_def)
  have succ: "saturating_succ (rl_unsatisfied log) = rl_unsatisfied log + 1"
    using unsat card n(6) by (simp add: saturating_succ_def)
  have other: "er_invocation x \<noteq> er_invocation r" if "record_ok e m x" for x
  proof -
    from that obtain k where "k \<in> e" "er_invocation x = identity_bytes invocation_kind k" by (auto simp: record_ok_def)
    moreover from this have "k < 2 ^ 64" "n < 2 ^ 64" "k \<noteq> n" using n(1-3,5) by auto
    ultimately show ?thesis using r(1) identity_bytes_inject [of k n invocation_kind] by simp
  qed
  have new: "record_ok e' m r" using r n(2) by (auto simp: record_ok_def)
  have old: "record_ok e' m x" if "x \<in> set (rl_exits log) \<union> set_option (rl_first log)" for x
    using ok that record_ok_mono [OF _ n(3)] unfolding log_ok_def by blast
  let ?log = "log_record r log"
  have "length (rl_exits ?log) \<le> rl_capacity ?log" "distinct (map er_invocation (rl_exits ?log))"
  proof -
    show "length (rl_exits ?log) \<le> rl_capacity ?log"
      using ok ring_rest_facts(4) [of log] by (auto simp: log_record_fields log_ok_def)
    have "er_invocation r \<notin> set (map er_invocation (ring_rest log))"
    proof
      assume "er_invocation r \<in> set (map er_invocation (ring_rest log))"
      then obtain x where "x \<in> set (ring_rest log)" "er_invocation x = er_invocation r" by auto
      moreover from this have "record_ok e m x" using ok ring_rest_facts(1) [of log] unfolding log_ok_def by blast
      ultimately show False using other by blast
    qed
    then show "distinct (map er_invocation (rl_exits ?log))"
      using ok ring_rest_facts(2) [of log] by (simp add: log_record_fields log_ok_def)
  qed
  moreover have "\<forall>x \<in> set (rl_exits ?log) \<union> set_option (rl_first ?log). record_ok e' m x"
  proof
    fix x assume "x \<in> set (rl_exits ?log) \<union> set_option (rl_first ?log)"
    then have "x = r \<or> x \<in> set (rl_exits log) \<union> set_option (rl_first log)"
      using ring_rest_facts(1) [of log] unfolding log_record_fields by (auto split: if_splits option.splits)
    then show "record_ok e' m x" using new old by blast
  qed
  moreover have "\<forall>f. rl_first ?log = Some f \<longrightarrow> unsatisfied f" "rl_first ?log = None \<longleftrightarrow> rl_unsatisfied ?log = 0"
    using ok by (auto simp: log_record_fields succ log_ok_def split: option.splits)
  moreover have "rl_first ?log = None \<longrightarrow> filter unsatisfied (rl_exits ?log) = []"
    using ok ring_rest_facts(3) [of unsatisfied log] by (auto simp: log_record_fields log_ok_def split: if_splits option.splits)
  moreover have "length (with_first (rl_first ?log) (filter unsatisfied (rl_exits ?log))) \<le> rl_unsatisfied ?log"
    using with_first_record [OF ok, of r] with_first_record_accepting [OF ok, of r] by (simp add: log_record_fields(5) succ)
  moreover have "rl_unsatisfied ?log \<le> card e'" "rl_dropped ?log \<le> card e'"
    using unsat dropped card log_record_fields(6) [of r log] by (auto simp: log_record_fields(5) succ)
  ultimately show ?thesis unfolding log_ok_def by blast
qed

lemma exited_bound: "exited_counters s \<subseteq> {1..rr_next_invocation s}"
  by (auto simp: exited_counters_def)

lemma card_exited: "card (exited_counters s) \<le> rr_next_invocation s"
  using card_mono [OF _ exited_bound [of s]] by simp

lemma exit_log_ok:
  assumes ok: "run_ok s" and i: "rr_scopes s c = Some i" "is_active i"
    and s': "rr_next_invocation s' = rr_next_invocation s"
      "\<And>k j. rr_scopes s' k = Some j \<Longrightarrow> is_active j \<Longrightarrow> k \<noteq> c \<and> rr_scopes s k = Some j"
  shows "log_ok (exited_counters s') (sl_pending (rr_limits s)) (log_record (exit_record_of i kind result) (rr_log s))"
proof -
  have cell: "cell_ok s i" using run_okD(1) [OF ok i(1)] by simp
  then obtain n where n: "0 < n" "n \<le> rr_next_invocation s" "si_invocation i = identity_bytes invocation_kind n"
    by (auto simp: cell_ok_def counter_id_def)
  have limit: "rr_next_invocation s < 2 ^ 64" by (rule run_okD(7) [OF ok])
  have in_s: "n \<notin> exited_counters s" using n(3) i unfolding exited_counters_def by blast
  have in_s': "n \<in> exited_counters s'"
  proof -
    have False if "rr_scopes s' k = Some j" "is_active j" "si_invocation j = identity_bytes invocation_kind n" for k j
      using s'(2) [OF that(1,2)] run_okD(2) [OF ok, of k j c i] i(1) n(3) that(3) by simp
    then show ?thesis using n(1,2) unfolding exited_counters_def s'(1) by blast
  qed
  have mono: "exited_counters s \<subseteq> exited_counters s'"
    unfolding exited_counters_def s'(1) using s'(2) by blast
  have "exited_counters s' \<subseteq> {..<2 ^ 64}" using exited_bound [of s'] s'(1) limit by auto
  moreover have "card (exited_counters s') < 2 ^ 64" using card_exited [of s'] s'(1) limit by simp
  moreover have "er_unknown (exit_record_of i kind result) \<le> sl_pending (rr_limits s)"
    using cell by (auto simp: exit_record_of_def cell_ok_def scope_ok_def)
  ultimately show ?thesis
    using run_okD(8) [OF ok] in_s in_s' mono n(3) by (intro log_ok_record) (simp_all add: exit_record_of_def)
qed

lemma finish_scope_cases:
  assumes "finish_scope kind i log = (r, i', log')"
  shows "i' = i \<and> log' = log \<or>
    is_active i \<and> (\<exists>result. i' = i\<lparr>si_exit := Some (kind, result)\<rparr> \<and> log' = log_record (exit_record_of i kind result) log)"
  using assms by (auto simp: finish_scope_def record_exit_def Let_def split: option.splits sum.splits if_splits)

lemma run_ok_exit:
  assumes ok: "run_ok s" and i: "rr_scopes s c = Some i" "is_active i"
  shows "run_ok (put_scope c (i\<lparr>si_exit := Some (kind, result)\<rparr>) (s\<lparr>rr_log := log_record (exit_record_of i kind result) (rr_log s)\<rparr>))"
    (is "run_ok ?s")
proof -
  let ?i = "i\<lparr>si_exit := Some (kind, result)\<rparr>"
  have fields: "rr_attempts ?s = rr_attempts s" "rr_next_cell ?s = rr_next_cell s" "rr_next_cursor ?s = rr_next_cursor s"
    "rr_next_attempt ?s = rr_next_attempt s" "rr_next_invocation ?s = rr_next_invocation s" "rr_limits ?s = rr_limits s"
    "rr_log ?s = log_record (exit_record_of i kind result) (rr_log s)" "cell_ok ?s = cell_ok s"
    by (simp_all add: put_scope_def cell_ok_def fun_eq_iff)
  have origin: "\<exists>j. rr_scopes s k = Some j \<and> si_invocation j' = si_invocation j \<and> si_version j' = si_version j \<and>
      (cell_ok s j \<longrightarrow> cell_ok s j')" if "rr_scopes ?s k = Some j'" for k j'
    using that i(1) by (cases "k = c") (auto simp: put_scope_def cell_ok_def scope_ok_exit)
  show ?thesis
    unfolding run_ok_def fields
  proof (intro conjI allI impI)
    fix k j assume "rr_scopes ?s k = Some j"
    from origin [OF this] show "k < rr_next_cell s" "cell_ok s j" using run_okD(1) [OF ok] by blast+
  next
    fix c1 c2 i1 i2 assume "rr_scopes ?s c1 = Some i1" "rr_scopes ?s c2 = Some i2" "si_invocation i1 = si_invocation i2"
    then show "c1 = c2" using origin run_okD(2) [OF ok] by metis
  next
    fix t a assume a: "rr_attempts s t = Some a"
    then show "t < rr_next_cell s" using run_okD(3) [OF ok] by blast
    have "attempt_ok s a" using run_okD(3) [OF ok a] by blast
    then have "attempt_ok (put_scope c ?i s) a" by (rule attempt_ok_put_scope [OF _ i(1)]) simp
    then show "attempt_ok ?s a" by (simp add: attempt_ok_def put_scope_def)
  next
    fix t t' a a' assume "rr_attempts s t = Some a" "rr_attempts s t' = Some a'" "ra_id a = ra_id a'"
    then show "t = t'" by (rule run_okD(4) [OF ok])
  next
    show "log_ok (exited_counters ?s) (sl_pending (rr_limits s)) (log_record (exit_record_of i kind result) (rr_log s))"
      by (rule exit_log_ok [OF ok i]) (auto simp: put_scope_def split: if_splits)
  qed (rule run_okD [OF ok])+
qed

lemma finish_cell_continues:
  assumes "finish_cell kind c s = (r, s')"
  shows "continues s s'"
proof (cases "rr_scopes s c")
  case None
  then show ?thesis using assms by (simp add: finish_cell_def scope_at_def)
next
  case (Some i)
  obtain i' log' where f: "finish_scope kind i (rr_log s) = (r, i', log')" and s': "s' = put_scope c i' (s\<lparr>rr_log := log'\<rparr>)"
    using assms Some by (auto simp: finish_cell_def scope_at_def split: prod.splits)
  show ?thesis
    using finish_scope_cases [OF f]
  proof (elim disjE conjE exE)
    assume "i' = i" "log' = rr_log s"
    then have "s' = s" using s' Some by (simp add: put_scope_def fun_upd_idem)
    then show ?thesis by simp
  next
    fix result assume "is_active i" "i' = i\<lparr>si_exit := Some (kind, result)\<rparr>" "log' = log_record (exit_record_of i kind result) (rr_log s)"
    then show ?thesis
      using run_ok_exit [of s c i kind result] Some later_finish [OF f]
      by (auto simp: continues_def s' evolves_def put_scope_def log_record_fields)
  qed
qed

lemma drop_scope_continues:
  assumes "\<And>t a. rr_attempts s t = Some a \<Longrightarrow> c \<notin> ob_cell ` set (ra_scopes a)"
  shows "continues s (drop_scope c s)"
proof (cases "rr_scopes s c")
  case None
  then show ?thesis by (simp add: drop_scope_def)
next
  case (Some i)
  let ?s = "drop_scope c s"
  have s': "?s = s\<lparr>rr_scopes := (rr_scopes s)(c := None), rr_log := drop_instance i (rr_log s)\<rparr>"
    using Some by (simp add: drop_scope_def)
  have fields: "rr_attempts ?s = rr_attempts s" "rr_next_cell ?s = rr_next_cell s" "rr_next_cursor ?s = rr_next_cursor s"
    "rr_next_attempt ?s = rr_next_attempt s" "rr_next_invocation ?s = rr_next_invocation s" "rr_limits ?s = rr_limits s"
    "rr_log ?s = drop_instance i (rr_log s)" "cell_ok ?s = cell_ok s" "rl_capacity (drop_instance i (rr_log s)) = rl_capacity (rr_log s)"
    by (simp_all add: s' cell_ok_def fun_eq_iff drop_instance_def record_exit_def log_record_fields)
  have origin: "k \<noteq> c \<and> rr_scopes s k = Some j" if "rr_scopes ?s k = Some j" for k j
    using that by (auto simp: s' split: if_splits)
  have "run_ok ?s" if ok: "run_ok s"
    unfolding run_ok_def fields
  proof (intro conjI allI impI)
    fix k j assume "rr_scopes ?s k = Some j"
    from origin [OF this] show "k < rr_next_cell s" "cell_ok s j" using run_okD(1) [OF ok] by blast+
  next
    fix c1 c2 i1 i2 assume "rr_scopes ?s c1 = Some i1" "rr_scopes ?s c2 = Some i2" "si_invocation i1 = si_invocation i2"
    then show "c1 = c2" using origin run_okD(2) [OF ok] by metis
  next
    fix t a assume a: "rr_attempts s t = Some a"
    then show "t < rr_next_cell s" using run_okD(3) [OF ok] by blast
    have "attempt_ok s a" using run_okD(3) [OF ok a] by blast
    then show "attempt_ok ?s a" using assms [OF a] by (force simp: attempt_ok_def s')
  next
    fix t t' a a' assume "rr_attempts s t = Some a" "rr_attempts s t' = Some a'" "ra_id a = ra_id a'"
    then show "t = t'" by (rule run_okD(4) [OF ok])
  next
    show "log_ok (exited_counters ?s) (sl_pending (rr_limits s)) (drop_instance i (rr_log s))"
    proof (cases "is_active i")
      case True
      then show ?thesis
        using exit_log_ok [OF ok Some True fields(5)] origin by (simp add: drop_instance_def record_exit_def)
    next
      case False
      have "exited_counters s \<subseteq> exited_counters ?s"
        using origin unfolding exited_counters_def fields(5) by blast
      then show ?thesis
        using log_ok_mono [OF run_okD(8) [OF ok]] finite_exited False by (cases "si_exit i") (simp_all add: drop_instance_def)
    qed
  qed (rule run_okD [OF ok])+
  then show ?thesis using origin by (auto simp: continues_def evolves_def fields)
qed

section \<open>New cells\<close>

lemma run_ok_new_scope:
  assumes ok: "run_ok s" and i: "cell_ok s i"
    and new: "\<And>c j. rr_scopes s c = Some j \<Longrightarrow> si_invocation j \<noteq> si_invocation i"
    and unlogged: "\<And>n. n \<in> exited_counters s \<Longrightarrow> si_invocation i = identity_bytes invocation_kind n \<Longrightarrow>
      log_ok (exited_counters s - {n}) (sl_pending (rr_limits s)) (rr_log s)"
  shows "run_ok (snd (new_scope i s))"
proof -
  let ?s = "snd (new_scope i s)"
  have s': "?s = put_scope (rr_next_cell s) i (s\<lparr>rr_next_cell := rr_next_cell s + 1\<rparr>)" by (simp add: new_scope_def)
  have empty: "rr_scopes s (rr_next_cell s) = None"
    using run_okD(1) [OF ok, of "rr_next_cell s"] by (cases "rr_scopes s (rr_next_cell s)") auto
  have fields: "rr_attempts ?s = rr_attempts s" "rr_next_cell ?s = rr_next_cell s + 1" "rr_next_cursor ?s = rr_next_cursor s"
    "rr_next_attempt ?s = rr_next_attempt s" "rr_next_invocation ?s = rr_next_invocation s" "rr_limits ?s = rr_limits s"
    "rr_log ?s = rr_log s" "cell_ok ?s = cell_ok s"
    by (simp_all add: s' put_scope_def cell_ok_def fun_eq_iff)
  have origin: "k = rr_next_cell s \<and> j = i \<or> rr_scopes s k = Some j" if "rr_scopes ?s k = Some j" for k j
    using that by (auto simp: s' put_scope_def split: if_splits)
  have kept: "rr_scopes ?s k = Some j" if "rr_scopes s k = Some j" for k j
    using that empty by (auto simp: s' put_scope_def)
  show ?thesis
    unfolding run_ok_def fields
  proof (intro conjI allI impI)
    fix k j assume "rr_scopes ?s k = Some j"
    from origin [OF this] show "k < rr_next_cell s + 1" "cell_ok s j" using run_okD(1) [OF ok, of k j] i by auto
  next
    fix c1 c2 i1 i2 assume two: "rr_scopes ?s c1 = Some i1" "rr_scopes ?s c2 = Some i2" "si_invocation i1 = si_invocation i2"
    show "c1 = c2"
      using origin [OF two(1)] origin [OF two(2)] two(3) new run_okD(2) [OF ok] by metis
  next
    fix t a assume a: "rr_attempts s t = Some a"
    then show "t < rr_next_cell s + 1" using run_okD(3) [OF ok] by fastforce
    have "attempt_ok s a" using run_okD(3) [OF ok a] by blast
    then show "attempt_ok ?s a" using kept unfolding attempt_ok_def fields by blast
  next
    fix t t' a a' assume "rr_attempts s t = Some a" "rr_attempts s t' = Some a'" "ra_id a = ra_id a'"
    then show "t = t'" by (rule run_okD(4) [OF ok])
  next
    show "log_ok (exited_counters ?s) (sl_pending (rr_limits s)) (rr_log s)"
    proof (cases "\<exists>n \<in> exited_counters s. si_invocation i = identity_bytes invocation_kind n")
      case True
      then obtain n where n: "n \<in> exited_counters s" "si_invocation i = identity_bytes invocation_kind n" by blast
      have "exited_counters s - {n} \<subseteq> exited_counters ?s"
      proof
        fix m assume m: "m \<in> exited_counters s - {n}"
        have "m < 2 ^ 64" "n < 2 ^ 64" using m n(1) exited_bound [of s] run_okD(7) [OF ok] by auto
        then have "si_invocation i \<noteq> identity_bytes invocation_kind m"
          using m n(2) identity_bytes_inject [of n m invocation_kind] by auto
        then show "m \<in> exited_counters ?s" using m origin unfolding exited_counters_def fields by blast
      qed
      then show ?thesis using log_ok_mono [OF unlogged [OF n]] by simp
    next
      case False
      then have "exited_counters s \<subseteq> exited_counters ?s" using origin unfolding exited_counters_def fields by blast
      then show ?thesis using log_ok_mono [OF run_okD(8) [OF ok]] by simp
    qed
  qed (rule run_okD [OF ok])+
qed

lemma evolves_new_scope:
  assumes "run_ok s"
  shows "evolves s (snd (new_scope i s))"
  by (auto simp: evolves_def new_scope_def put_scope_def)

lemma run_ok_new_attempt:
  assumes ok: "run_ok s" and a: "attempt_ok s a" and new: "\<And>t x. rr_attempts s t = Some x \<Longrightarrow> ra_id x \<noteq> ra_id a"
    and "new_attempt a s = (r, s')"
  shows "run_ok s' \<and> evolves s s'"
proof
  let ?s = s'
  have s': "?s = s\<lparr>rr_attempts := (rr_attempts s)(rr_next_cell s \<mapsto> a), rr_next_cell := rr_next_cell s + 1\<rparr>"
    using assms(4) by (auto simp: new_attempt_def put_attempt_def)
  have fields: "rr_scopes ?s = rr_scopes s" "rr_next_cell ?s = rr_next_cell s + 1" "rr_next_cursor ?s = rr_next_cursor s"
    "rr_next_attempt ?s = rr_next_attempt s" "rr_next_invocation ?s = rr_next_invocation s" "rr_limits ?s = rr_limits s"
    "rr_log ?s = rr_log s" "cell_ok ?s = cell_ok s" "attempt_ok ?s = attempt_ok s" "exited_counters ?s = exited_counters s"
    by (simp_all add: s' cell_ok_def attempt_ok_def exited_counters_def fun_eq_iff)
  have origin: "k = rr_next_cell s \<and> x = a \<or> rr_attempts s k = Some x" if "rr_attempts ?s k = Some x" for k x
    using that by (auto simp: s' split: if_splits)
  show "run_ok ?s"
    unfolding run_ok_def fields
  proof (intro conjI allI impI)
    fix k j assume "rr_scopes s k = Some j"
    then show "k < rr_next_cell s + 1" "cell_ok s j" using run_okD(1) [OF ok, of k j] by auto
  next
    fix c1 c2 i1 i2 assume "rr_scopes s c1 = Some i1" "rr_scopes s c2 = Some i2" "si_invocation i1 = si_invocation i2"
    then show "c1 = c2" by (rule run_okD(2) [OF ok])
  next
    fix t x assume "rr_attempts ?s t = Some x"
    from origin [OF this] show "t < rr_next_cell s + 1" "attempt_ok s x" using run_okD(3) [OF ok, of t x] a by auto
  next
    fix t t' x x' assume two: "rr_attempts ?s t = Some x" "rr_attempts ?s t' = Some x'" "ra_id x = ra_id x'"
    show "t = t'" using origin [OF two(1)] origin [OF two(2)] two(3) new run_okD(4) [OF ok] by metis
  qed (rule run_okD [OF ok])+
  show "evolves s ?s" by (auto simp: evolves_def s')
qed

section \<open>Commits and outcomes\<close>

lemma commit_scopes_ok:
  assumes "commit_scopes attempt cursor previews s = (r, s')" "run_ok s" "distinct (map fst previews)"
    and "cursor \<le> rr_next_cursor s" "counter_id attempt_kind (rr_next_attempt s) attempt"
    and "\<forall>c \<in> set (map fst previews). \<forall>i. rr_scopes s c = Some i \<longrightarrow> attempt \<notin> set (map pn_attempt (si_pending i))"
  shows "run_ok s' \<and> evolves s s' \<and> same_rest s s' \<and>
    (\<forall>c. rr_scopes s c \<noteq> None \<longrightarrow> rr_scopes s' c \<noteq> None) \<and>
    (\<forall>observed. r = Ok observed \<longrightarrow> (\<forall>ob \<in> set observed. \<exists>i. rr_scopes s' (ob_cell ob) = Some i \<and> ob_version ob \<le> si_version i))"
  using assms
proof (induction previews arbitrary: s r s')
  case Nil
  then show ?case by (auto simp: pret_def)
next
  case (Cons x previews)
  obtain c action deltas where x: "x = (c, action, deltas)" by (cases x)
  show ?case
  proof (cases "rr_scopes s c")
    case None
    then have "s' = s" "\<exists>e. r = Err e" using Cons.prems(1) by (auto simp: x pbind_def on_scope_def scope_at_def)
    then show ?thesis using Cons.prems(2) by auto
  next
    case (Some i)
    obtain r1 i1 where commit: "commit deltas attempt cursor action i = (r1, i1)" by (cases "commit deltas attempt cursor action i")
    let ?s = "put_scope c i1 s"
    have cell: "scope_ok (rr_next_cursor s) (rr_next_attempt s) i" using run_okD(1) [OF Cons.prems(2) Some] by (simp add: cell_ok_def)
    have fresh: "attempt \<notin> set (map pn_attempt (si_pending i))" using Cons.prems(6) Some x by auto
    have "scope_ok (rr_next_cursor s) (rr_next_attempt s) i1"
      by (rule commit_scope_ok [OF commit cell Cons.prems(4,5) fresh])
    moreover have "si_exit i1 = si_exit i" using commit_cases [OF commit] by auto
    ultimately have "continues s ?s" by (intro continues_put_scope [OF Some later_commit [OF commit]])
    then have step: "run_ok ?s" "evolves s ?s" using Cons.prems(2) by (auto simp: continues_def)
    have first: "on_scope c (commit deltas attempt cursor action) s = (r1, ?s)"
      by (simp add: on_scope_def scope_at_def Some commit)
    have alive: "\<forall>k. rr_scopes s k \<noteq> None \<longrightarrow> rr_scopes ?s k \<noteq> None" by (simp add: put_scope_def)
    show ?thesis
    proof (cases r1)
      case (Inl e)
      then have "s' = ?s" "r = Err e" using Cons.prems(1) first by (simp_all add: x pbind_def)
      then show ?thesis using step alive by simp
    next
      case (Inr version)
      obtain r2 s2 where rest: "commit_scopes attempt cursor previews ?s = (r2, s2)" by (cases "commit_scopes attempt cursor previews ?s")
      have s2: "s' = s2" "r = (case r2 of Inl e \<Rightarrow> Err e | Inr obs \<Rightarrow> Ok (\<lparr>ob_cell = c, ob_action = action, ob_version = version\<rparr> # obs))"
        using Cons.prems(1) first Inr rest by (auto simp: x pbind_def pret_def split: sum.splits)
      have other: "\<forall>k \<in> set (map fst previews). \<forall>j. rr_scopes ?s k = Some j \<longrightarrow> attempt \<notin> set (map pn_attempt (si_pending j))"
      proof (intro ballI allI impI)
        fix k j assume kj: "k \<in> set (map fst previews)" "rr_scopes ?s k = Some j"
        then have "k \<noteq> c" using Cons.prems(3) x by auto
        then show "attempt \<notin> set (map pn_attempt (si_pending j))" using Cons.prems(6) kj by (auto simp: put_scope_def)
      qed
      have IH: "run_ok s2 \<and> evolves ?s s2 \<and> same_rest ?s s2 \<and> (\<forall>k. rr_scopes ?s k \<noteq> None \<longrightarrow> rr_scopes s2 k \<noteq> None) \<and>
        (\<forall>observed. r2 = Ok observed \<longrightarrow> (\<forall>ob \<in> set observed. \<exists>i. rr_scopes s2 (ob_cell ob) = Some i \<and> ob_version ob \<le> si_version i))"
        using Cons.IH [OF rest step(1)] Cons.prems(3-5) other by (simp add: put_scope_def)
      have version: "version = si_version i1" using commit_cases [OF commit] Inr by auto
      have "rr_scopes ?s c \<noteq> None" by (simp add: put_scope_def)
      then have "rr_scopes s2 c \<noteq> None" using IH by blast
      then obtain i2 where i2: "rr_scopes s2 c = Some i2" by blast
      have "c < rr_next_cell ?s" using run_okD(1) [OF Cons.prems(2) Some] by (simp add: put_scope_def)
      then obtain j where "rr_scopes ?s c = Some j" "later j i2" using IH i2 unfolding evolves_def by blast
      then have "version \<le> si_version i2" using version by (simp add: later_def put_scope_def)
      then show ?thesis
        using IH s2 i2 step(2) alive same_rest_trans [OF same_rest_put_scope(1)] evolves_trans by (auto split: sum.splits)
    qed
  qed
qed

lemma record_outcome_exit:
  assumes "record_outcome attempt status k i = Ok i'"
  shows "si_exit i' = si_exit i"
proof (cases "si_exit i")
  case None
  from assms None show ?thesis by (rule record_outcome_cases) (simp add: None)
qed (use assms in \<open>simp add: record_outcome_def\<close>)

lemma deliver_outcome_continues:
  assumes "deliver_outcome attempt status k obs s = (r, s')" "k \<le> rr_next_cursor s"
  shows "continues s s' \<and> rr_next_cursor s' = rr_next_cursor s"
  using assms
proof (induction obs arbitrary: s)
  case Nil
  then show ?case by (simp add: pret_def)
next
  case (Cons ob obs)
  show ?case
  proof (cases "rr_scopes s (ob_cell ob)")
    case None
    then have "s' = s" using Cons.prems(1) by (simp add: pbind_def on_scope_result_def on_scope_def scope_at_def)
    then show ?thesis by simp
  next
    case (Some i)
    show ?thesis
    proof (cases "record_outcome attempt status k i")
      case (Inl e)
      then have "s' = s" using Cons.prems(1) Some
        by (simp add: pbind_def on_scope_result_def on_scope_def scope_at_def put_scope_def fun_upd_idem)
      then show ?thesis by simp
    next
      case (Inr i')
      let ?s = "put_scope (ob_cell ob) i' s"
      have rest: "deliver_outcome attempt status k obs ?s = (r, s')"
        using Cons.prems(1) Some Inr by (simp add: pbind_def on_scope_result_def on_scope_def scope_at_def)
      have "si_exit i' = si_exit i"
        by (rule record_outcome_exit [OF Inr])
      moreover have "scope_ok (rr_next_cursor s) (rr_next_attempt s) i'" if "run_ok s"
        using record_outcome_scope_ok [OF Inr _ Cons.prems(2)] run_okD(1) [OF that Some] by (simp add: cell_ok_def)
      ultimately have "continues s ?s" by (intro continues_put_scope [OF Some later_record_outcome [OF Inr]])
      moreover have "continues ?s s'" "rr_next_cursor s' = rr_next_cursor s"
        using Cons.IH [OF rest] Cons.prems(2) by (simp_all add: put_scope_def)
      ultimately show ?thesis using continues_trans by blast
    qed
  qed
qed

section \<open>The operations of a run\<close>

lemma check_activation_capacity_continues:
  "check_activation_capacity m s = (r, s') \<Longrightarrow> continues s s' \<and> rr_attempts s' = rr_attempts s \<and> rr_scopes s' = rr_scopes s"
  by (auto simp: check_activation_capacity_def Let_def continues_index) (simp_all add: set_index_def)

lemma register_continues:
  assumes "register cell m s = (r, s')"
  shows "continues s s' \<and> rr_attempts s' = rr_attempts s"
proof -
  obtain r1 s1 where 1: "check_activation_capacity m s = (r1, s1)" by (cases "check_activation_capacity m s")
  note c1 = check_activation_capacity_continues [OF 1]
  have "s' = s1 \<or> (\<exists>entries. s' = set_index entries s1)"
    using assms 1 by (auto simp: register_def pbind_def pread_def pfail_def pupd_def split: sum.splits if_splits)
  then show ?thesis
  proof
    assume "s' = s1"
    with c1 show ?thesis by simp
  next
    assume "\<exists>entries. s' = set_index entries s1"
    then obtain entries where "s' = set_index entries s1" by blast
    with c1 continues_trans [OF _ continues_index, of s s1 entries] show ?thesis by (simp add: set_index_def)
  qed
qed

lemma traverse_length: "traverse f xs = Ok ys \<Longrightarrow> length ys = length xs"
  by (induction xs arbitrary: ys) auto

lemma activate_ok:
  assumes "activate cf prepared application program invocation limits = Ok i"
  shows "scope_ok c a i" "si_invocation i = invocation" "si_limits i = limits" "si_exit i = None"
  using assms by (auto simp: activate_def scope_ok_def dest!: traverse_length)

lemma new_scope_continues:
  assumes inv: "next_invocation s = (Ok invocation, s1)" and i: "activate cf prepared application program invocation (rr_limits s) = Ok i"
  shows "continues s (snd (new_scope i s1)) \<and> (run_ok s \<longrightarrow>
    (\<forall>t a. rr_attempts s1 t = Some a \<longrightarrow> rr_next_cell s1 \<notin> ob_cell ` set (ra_scopes a)))"
proof -
  let ?n = "rr_next_invocation s + 1"
  have s1: "s1 = s\<lparr>rr_next_invocation := ?n\<rparr>" "invocation = identity_bytes invocation_kind ?n" "?n < 2 ^ 64"
    using inv by (auto simp: next_invocation_def pbind_def pread_def checked_incr_def pupd_def pret_def split: if_splits)
  have "run_ok (snd (new_scope i s1)) \<and> evolves s (snd (new_scope i s1)) \<and>
    (\<forall>t a. rr_attempts s1 t = Some a \<longrightarrow> rr_next_cell s1 \<notin> ob_cell ` set (ra_scopes a))" if ok: "run_ok s"
  proof (intro conjI)
    have ok1: "run_ok s1" "evolves s s1" using next_invocation_continues [OF inv] ok by (auto simp: continues_def)
    show "evolves s (snd (new_scope i s1))" using evolves_new_scope [OF ok1(1)] ok1(2) evolves_trans by blast
    show "\<forall>t a. rr_attempts s1 t = Some a \<longrightarrow> rr_next_cell s1 \<notin> ob_cell ` set (ra_scopes a)"
    proof clarify
      fix t a ob assume "rr_attempts s1 t = Some a" "rr_next_cell s1 = ob_cell ob" "ob \<in> set (ra_scopes a)"
      then show False using run_okD(3) [OF ok1(1)] run_okD(1) [OF ok1(1)] unfolding attempt_ok_def by (metis less_irrefl)
    qed
    show "run_ok (snd (new_scope i s1))"
    proof (rule run_ok_new_scope [OF ok1(1)])
      show "cell_ok s1 i"
        using activate_ok [OF i] s1 by (auto simp: cell_ok_def counter_id_def)
      show "si_invocation j \<noteq> si_invocation i" if j: "rr_scopes s1 c = Some j" for c j
      proof -
        have "cell_ok s j" using run_okD(1) [OF ok] j s1(1) by simp
        then obtain m where "m \<le> rr_next_invocation s" "si_invocation j = identity_bytes invocation_kind m"
          by (auto simp: cell_ok_def counter_id_def)
        then show ?thesis using activate_ok(2) [OF i] s1(2,3) identity_bytes_inject [of m ?n invocation_kind] by auto
      qed
      show "log_ok (exited_counters s1 - {m}) (sl_pending (rr_limits s1)) (rr_log s1)"
        if m: "m \<in> exited_counters s1" "si_invocation i = identity_bytes invocation_kind m" for m
      proof -
        have "m < 2 ^ 64" using m(1) exited_bound [of s1] s1(1,3) by auto
        then have "m = ?n" using m(2) activate_ok(2) [OF i] s1(2,3) identity_bytes_inject [of m ?n invocation_kind] by simp
        then have "exited_counters s \<subseteq> exited_counters s1 - {m}" using s1(1) by (auto simp: exited_counters_def)
        then show ?thesis using log_ok_mono [OF run_okD(8) [OF ok]] s1(1) by simp
      qed
    qed
  qed
  then show ?thesis by (auto simp: continues_def)
qed

lemma perr_state: "perr g m s = (r, s') \<Longrightarrow> \<exists>r'. m s = (r', s') \<and> (\<forall>x. r = Ok x \<longrightarrow> r' = Ok x)"
  by (cases "m s") (auto simp: perr_def split: sum.splits)

lemma activate_cases:
  assumes "activate_residual_scope cf inst program activation span s = (r, s')"
  obtains "s' = s"
  | r1 where "check_activation_capacity (sl_active_scopes (rr_limits s)) s = (r1, s')"
  | s1 r2 where "check_activation_capacity (sl_active_scopes (rr_limits s)) s = (Ok (), s1)" "next_invocation s1 = (r2, s')"
  | s1 invocation s2 i r4 s4 where "check_activation_capacity (sl_active_scopes (rr_limits s)) s = (Ok (), s1)"
      "next_invocation s1 = (Ok invocation, s2)"
      "activate cf (sa_scope activation) (sa_application activation) program invocation (rr_limits s) = Ok i"
      "register (rr_next_cell s2) (sl_active_scopes (rr_limits s)) (snd (new_scope i s2)) = (r4, s4)"
      "r4 = Ok () \<and> s' = s4 \<or> s' = drop_scope (rr_next_cell s2) s4"
proof (cases "in_validate inst = Ok () \<and>
    map_option fst (in_scope inst (ps_item (sa_scope activation))) = Some (sa_address activation)")
  case False
  then have "s' = s" using assms
    by (auto simp: activate_residual_scope_def perr_def pbind_def pread_def pfail_def split: sum.splits)
  then show ?thesis by (rule that(1))
next
  case True
  let ?max = "sl_active_scopes (rr_limits s)"
  obtain r1 s1 where 1: "check_activation_capacity ?max s = (r1, s1)" by (cases "check_activation_capacity ?max s")
  obtain r2 s2 where 2: "next_invocation s1 = (r2, s2)" by (cases "next_invocation s1")
  let ?act = "\<lambda>x. activate cf (sa_scope activation) (sa_application activation) program x (rr_limits s)"
  show ?thesis
  proof (cases "\<exists>invocation i. r1 = Ok () \<and> r2 = Ok invocation \<and> ?act invocation = Ok i")
    case False
    then have "s' = s1 \<or> r1 = Ok () \<and> s' = s2" using assms True 1 2
      by (auto simp: activate_residual_scope_def perr_def pbind_def pread_def pfail_def split: sum.splits)
    then show ?thesis using that(2) [of r1] that(3) [of s1 r2] 1 2 by blast
  next
    case created: True
    then obtain invocation i where i: "r1 = Ok ()" "r2 = Ok invocation" "?act invocation = Ok i" by blast
    obtain s3 where 3: "new_scope i s2 = (Ok (rr_next_cell s2), s3)" "snd (new_scope i s2) = s3" by (simp add: new_scope_def)
    obtain r4 s4 where 4: "register (rr_next_cell s2) ?max (snd (new_scope i s2)) = (r4, s4)"
      by (cases "register (rr_next_cell s2) ?max (snd (new_scope i s2))")
    have "r4 = Ok () \<and> s' = s4 \<or> s' = drop_scope (rr_next_cell s2) s4"
      using assms True 1 2 i 3(1) 4 [unfolded 3(2)]
      by (auto simp: activate_residual_scope_def perr_def pbind_def pread_def or_drop_def pret_def split: sum.splits)
    then show ?thesis using that(4) 1 2 i 4 by blast
  qed
qed

lemma activate_residual_scope_continues:
  assumes "activate_residual_scope cf inst program activation span s = (r, s')"
  shows "continues s s'"
  using assms
proof (cases rule: activate_cases)
  case 1
  then show ?thesis by simp
next
  case (2 r1)
  then show ?thesis using check_activation_capacity_continues by blast
next
  case (3 s1 r2)
  then show ?thesis using check_activation_capacity_continues next_invocation_continues continues_trans by blast
next
  case (4 s1 invocation s2 i r4 s4)
  let ?s3 = "snd (new_scope i s2)" and ?cell = "rr_next_cell s2"
  have c1: "continues s s1" using check_activation_capacity_continues [OF 4(1)] by simp
  have limits: "rr_limits s1 = rr_limits s" using 4(1) by (auto simp: check_activation_capacity_def set_index_def Let_def)
  have new: "continues s1 ?s3" "run_ok s1 \<longrightarrow> (\<forall>t a. rr_attempts s2 t = Some a \<longrightarrow> ?cell \<notin> ob_cell ` set (ra_scopes a))"
    using new_scope_continues [OF 4(2)] 4(3) limits by auto
  have c4: "continues ?s3 s4" "rr_attempts s4 = rr_attempts s2"
    using register_continues [OF 4(4)] by (simp_all add: new_scope_def put_scope_def)
  have upto: "continues s s4" using c1 new(1) c4(1) continues_trans by blast
  show ?thesis
    using 4(5)
  proof
    assume "s' = drop_scope ?cell s4"
    moreover have "continues s4 (drop_scope ?cell s4)" if "run_ok s1"
      by (rule drop_scope_continues) (use new(2) that c4(2) in simp)
    ultimately show ?thesis using upto c1 by (auto simp: continues_def intro: evolves_trans)
  qed (use upto in simp)
qed

lemma same_core_continues:
  assumes "same_core s s'"
  shows "continues s s'"
proof -
  note rest = same_restD [OF conjunct1 [OF assms [unfolded same_core_def]]]
  have origin: "\<exists>i. rr_scopes s c = Some i \<and> core i' = core i" if "rr_scopes s' c = Some i'" for c i'
    using same_core_cell [OF assms, of c] that by (cases "rr_scopes s c") auto
  have image: "\<exists>i'. rr_scopes s' c = Some i' \<and> core i' = core i" if "rr_scopes s c = Some i" for c i
    using same_core_lookup [OF assms that] by blast
  have cell: "cell_ok s' i' = cell_ok s i" if "core i' = core i" for i i'
    using that core_eqD [OF that] scope_ok_core [of _ _ i] scope_ok_core [of _ _ i'] rest by (simp add: cell_ok_def)
  have exited: "exited_counters s' = exited_counters s"
  proof -
    have "(\<exists>c i. rr_scopes s' c = Some i \<and> is_active i \<and> si_invocation i = x) \<longleftrightarrow>
        (\<exists>c i. rr_scopes s c = Some i \<and> is_active i \<and> si_invocation i = x)" for x
    proof (intro iffI; elim exE conjE)
      fix c i' assume "rr_scopes s' c = Some i'" "is_active i'" "si_invocation i' = x"
      moreover from this obtain i where "rr_scopes s c = Some i" "core i' = core i" using origin by blast
      ultimately show "\<exists>c i. rr_scopes s c = Some i \<and> is_active i \<and> si_invocation i = x"
        using core_eqD(4,11) [of i' i] by auto
    next
      fix c i assume "rr_scopes s c = Some i" "is_active i" "si_invocation i = x"
      moreover from this obtain i' where "rr_scopes s' c = Some i'" "core i' = core i" using image by blast
      ultimately show "\<exists>c i. rr_scopes s' c = Some i \<and> is_active i \<and> si_invocation i = x"
        using core_eqD(4,11) [of i' i] by auto
    qed
    then show ?thesis by (simp add: exited_counters_def rest)
  qed
  have "run_ok s'" if ok: "run_ok s"
    unfolding run_ok_def rest exited
  proof (intro conjI allI impI)
    fix c i' assume "rr_scopes s' c = Some i'"
    then obtain i where "rr_scopes s c = Some i" "core i' = core i" using origin by blast
    then show "c < rr_next_cell s" "cell_ok s' i'" using run_okD(1) [OF ok] cell by blast+
  next
    fix c c' i i' assume two: "rr_scopes s' c = Some i" "rr_scopes s' c' = Some i'" "si_invocation i = si_invocation i'"
    obtain j j' where "rr_scopes s c = Some j" "core i = core j" "rr_scopes s c' = Some j'" "core i' = core j'"
      using origin [OF two(1)] origin [OF two(2)] by blast
    then show "c = c'" using run_okD(2) [OF ok] two(3) core_eqD(4) by metis
  next
    fix t a assume a: "rr_attempts s t = Some a"
    then show "t < rr_next_cell s" using run_okD(3) [OF ok] by blast
    have "attempt_ok s a" using run_okD(3) [OF ok a] by blast
    then show "attempt_ok s' a" unfolding attempt_ok_def rest using image core_eqD(9) by metis
  next
    fix t t' a a' assume "rr_attempts s t = Some a" "rr_attempts s t' = Some a'" "ra_id a = ra_id a'"
    then show "t = t'" by (rule run_okD(4) [OF ok])
  qed (rule run_okD [OF ok])+
  moreover have "evolves s s'"
    using origin later_core rest by (auto simp: evolves_def) blast
  ultimately show ?thesis by (simp add: continues_def)
qed

lemma observe_scopes_continues:
  assumes run: "observe_scopes cf decision scopes s = (r, s')" and "distinct (map fst scopes)"
  shows "continues s s'"
proof -
  obtain r1 s1 where 1: "next_attempt s = (r1, s1)" by (cases "next_attempt s")
  obtain r2 s2 where 2: "next_cursor s1 = (r2, s2)" by (cases "next_cursor s1")
  have c1: "continues s s1" and c2: "continues s1 s2" using next_attempt_continues [OF 1] next_cursor_continues [OF 2] .
  show ?thesis
  proof (cases "\<exists>attempt cursor. r1 = Ok attempt \<and> r2 = Ok cursor")
    case False
    then have "s' = s1 \<or> s' = s2" using run 1 2 by (auto simp: observe_scopes_def pbind_def split: sum.splits)
    then show ?thesis using c1 c2 continues_trans by blast
  next
    case True
    then obtain attempt cursor where ok: "r1 = Ok attempt" "r2 = Ok cursor" by blast
    obtain r3 s3 where 3: "preview_scopes cf attempt cursor scopes s2 = (r3, s3)" by (cases "preview_scopes cf attempt cursor scopes s2")
    have same: "same_core s2 s3" using preview_scopes_spec [OF 3] by blast
    have c3: "continues s2 s3" by (rule same_core_continues [OF same])
    show ?thesis
    proof (cases r3)
      case (Inl e)
      then have "s' = s3" using run 1 2 3 ok by (simp add: observe_scopes_def pbind_def)
      then show ?thesis using c1 c2 c3 continues_trans by blast
    next
      case (Inr previews)
      obtain r4 s4 where 4: "commit_scopes attempt cursor previews s3 = (r4, s4)" by (cases "commit_scopes attempt cursor previews s3")
      let ?n = "rr_next_attempt s + 1"
      note n1 = counter_steps(1) [OF 1] and n2 = counter_steps(2) [OF 2]
      have id: "attempt = identity_bytes attempt_kind ?n" "?n < 2 ^ 64" "rr_next_attempt s2 = ?n" "cursor = rr_next_cursor s2" "0 < cursor"
        "rr_scopes s2 = rr_scopes s" "rr_attempts s2 = rr_attempts s"
      proof -
        have "same_rest (s\<lparr>rr_next_attempt := rr_next_attempt s1\<rparr>) s1" "same_rest (s1\<lparr>rr_next_cursor := rr_next_cursor s2\<rparr>) s2"
          using n1 n2 by blast+
        note fields = same_restD [OF this(1)] same_restD [OF this(2)]
        show "attempt = identity_bytes attempt_kind ?n" "?n < 2 ^ 64" "rr_next_attempt s2 = ?n" "cursor = rr_next_cursor s2" "0 < cursor"
          "rr_scopes s2 = rr_scopes s" "rr_attempts s2 = rr_attempts s"
          using n1 n2 ok fields by simp_all
      qed
      note rest3 = same_restD [OF conjunct1 [OF same [unfolded same_core_def]]]
      have fresh_id: "x \<noteq> attempt" if "counter_id attempt_kind (rr_next_attempt s) x" for x
        using that id(1,2) by (auto simp: counter_id_def identity_bytes_inject)
      have cells: "map fst previews = map fst scopes" using preview_scopes_spec [OF 3] Inr by blast
      have "run_ok s' \<and> evolves s s'" if good: "run_ok s"
      proof -
        have ok3: "run_ok s3" "evolves s s3" using good c1 c2 c3 evolves_trans unfolding continues_def by blast+
        have unused: "\<forall>c \<in> set (map fst previews). \<forall>i. rr_scopes s3 c = Some i \<longrightarrow> attempt \<notin> set (map pn_attempt (si_pending i))"
        proof (intro ballI allI impI)
          fix c i assume "rr_scopes s3 c = Some i"
          then obtain j where j: "rr_scopes s c = Some j" "core j = core i"
            using same_core_cell [OF same, of c] id(6) by (cases "rr_scopes s c") auto
          then have "scope_ok (rr_next_cursor s) (rr_next_attempt s) j" using run_okD(1) [OF good] by (auto simp: cell_ok_def)
          then show "attempt \<notin> set (map pn_attempt (si_pending i))"
            using core_eqD(8) [OF j(2)] fresh_id by (auto simp: scope_ok_def)
        qed
        have "counter_id attempt_kind (rr_next_attempt s3) attempt" using id(1,3) rest3 by (auto simp: counter_id_def)
        from commit_scopes_ok [OF 4 ok3(1) _ _ this unused] cells assms(2) rest3 id(4)
        have ok4: "run_ok s4" "evolves s3 s4" "same_rest s3 s4"
          "\<forall>observed. r4 = Ok observed \<longrightarrow> (\<forall>ob \<in> set observed. \<exists>i. rr_scopes s4 (ob_cell ob) = Some i \<and> ob_version ob \<le> si_version i)"
          by simp_all
        show ?thesis
        proof (cases r4)
          case (Inl e)
          then have "s' = s4" using run 1 2 3 4 ok \<open>r3 = Inr previews\<close> by (simp add: observe_scopes_def pbind_def)
          then show ?thesis using ok4 ok3 evolves_trans by blast
        next
          case (Inr observed)
          let ?a = "attempt_new attempt cursor observed decision"
          have 5: "new_attempt ?a s4 = (r, s')"
            using run 1 2 3 4 ok \<open>r3 = Inr previews\<close> Inr by (simp add: observe_scopes_def pbind_def)
          note rest4 = same_restD [OF ok4(3)]
          have "attempt_ok s4 ?a"
            using ok4(4) Inr id rest3 rest4 by (auto simp: attempt_ok_def attempt_new_def counter_id_def)
          moreover have "ra_id x \<noteq> ra_id ?a" if "rr_attempts s4 t = Some x" for t x
          proof -
            have "rr_attempts s t = Some x" using that rest3 rest4 id(7) by simp
            then have "counter_id attempt_kind (rr_next_attempt s) (ra_id x)" using run_okD(3) [OF good] by (simp add: attempt_ok_def)
            then show ?thesis using fresh_id by (simp add: attempt_new_def)
          qed
          ultimately have "run_ok s' \<and> evolves s4 s'" using run_ok_new_attempt [OF ok4(1) _ _ 5] by blast
          then show ?thesis using ok4(2) ok3(2) evolves_trans by blast
        qed
      qed
      then show ?thesis by (simp add: continues_def)
    qed
  qed
qed

lemma pbind_assoc: "pbind (pbind m f) g = pbind m (\<lambda>x. pbind (f x) g)"
  by (rule ext) (simp add: pbind_def split: prod.splits sum.splits)

lemma pbind_pread: "h s = Ok x \<Longrightarrow> pbind (pread h) g s = g x s"
  by (simp add: pbind_def pread_def)

lemma observe_eq:
  assumes "\<not> pp_error_type perform" "pp_residual perform = None"
    and "residual_scopes [pp_continuation perform] \<noteq> [] \<or> has_scopes s"
    and "pp_checked perform = Some p" "ca_program p = checked" "enclosing_scopes s perform p = Ok (q, scopes)"
  shows "observe_residual_attempt cf ef checked perform s =
    perr (violation (pp_span perform)) (
      pbind (observe_scopes cf (is_standard_approval ef checked (ca_effect q)) scopes) (\<lambda>tag.
      pret (perform\<lparr>pp_residual := Some tag,
        pp_continuation := compose_continuation (KResidualOutcome tag) (pp_continuation perform)\<rparr>))) s"
proof -
  have "\<not> (residual_scopes [pp_continuation perform] = [] \<and> \<not> has_scopes s)" using assms(3) by blast
  then show ?thesis
    using assms(1,2,4-6)
    by (auto simp: observe_residual_attempt_def observe_scopes_def pbind_assoc perr_def pbind_pread simp del: residual_scopes.simps)
qed

lemma observe_cases:
  assumes "observe_residual_attempt cf ef checked perform s = (r, s')"
  shows "s' = s \<or> (\<exists>scopes decision r'. observe_scopes cf decision scopes s = (r', s') \<and> distinct (map fst scopes))"
proof (cases "\<not> pp_error_type perform \<and> pp_residual perform = None \<and>
    (residual_scopes [pp_continuation perform] \<noteq> [] \<or> has_scopes s) \<and>
    (\<exists>p q scopes. pp_checked perform = Some p \<and> ca_program p = checked \<and> enclosing_scopes s perform p = Ok (q, scopes))")
  case True
  then obtain p q scopes where p: "pp_checked perform = Some p" "ca_program p = checked" "enclosing_scopes s perform p = Ok (q, scopes)"
    by blast
  let ?m = "observe_scopes cf (is_standard_approval ef checked (ca_effect q)) scopes"
  obtain r' s1 where "?m s = (r', s1)" by (cases "?m s")
  moreover from this have "s1 = s'"
    using assms True p observe_eq [of perform s p checked q scopes cf ef]
    by (auto simp: perr_def pbind_def pret_def simp del: residual_scopes.simps split: sum.splits)
  ultimately show ?thesis using enclosing_scopes_distinct [OF p(3)] by blast
next
  case False
  then have "s' = s"
    using assms
    by (auto simp: observe_residual_attempt_def perr_def pfail_def pbind_def pread_def
        simp del: residual_scopes.simps split: if_splits option.splits sum.splits)
  then show ?thesis by simp
qed

lemma observe_continues: "observe_residual_attempt cf ef checked perform s = (r, s') \<Longrightarrow> continues s s'"
  by (drule observe_cases) (auto intro: observe_scopes_continues)

lemma consume_permit_continues:
  assumes "consume_permit tag s = (r, s')"
  shows "continues s s'"
proof (cases "rr_attempts s tag")
  case None
  then show ?thesis using assms by (simp add: consume_permit_def pbind_def pread_def attempt_at_def)
next
  case (Some a)
  then have "s' = put_attempt tag (a\<lparr>ra_dispatched := True\<rparr>) s"
    using assms by (auto simp: consume_permit_def pbind_def pread_def attempt_at_def pupd_def pfail_def split: if_splits)
  then show ?thesis using continues_put_attempt [OF Some] by (simp add: later_attempt_def)
qed

lemma record_trusted_approval_continues:
  assumes "record_trusted_approval tag b s = (r, s')"
  shows "continues s s'"
proof (cases "rr_attempts s tag")
  case None
  then show ?thesis using assms by (simp add: record_trusted_approval_def pbind_def pread_def attempt_at_def)
next
  case (Some a)
  then have "s' = put_attempt tag (a\<lparr>ra_trusted := Some b\<rparr>) s"
    using assms by (auto simp: record_trusted_approval_def pbind_def pread_def attempt_at_def pupd_def)
  then show ?thesis using continues_put_attempt [OF Some] by (simp add: later_attempt_def)
qed

text \<open>Completion: the cursor advances, the attempt is marked, and the outcome is delivered once.\<close>

lemma complete_cases:
  assumes "complete_residual_attempt tag v span s = (r, s')"
  obtains "continues s s'" "rr_scopes s' = rr_scopes s" "rr_attempts s' = rr_attempts s"
  | a s1 where "rr_attempts s tag = Some a" "next_cursor s = (Ok (rr_next_cursor s1), s1)" "rr_attempts s1 = rr_attempts s"
      "rr_scopes s1 = rr_scopes s" "ra_completed a" "s' = put_attempt tag (a\<lparr>ra_completed := True\<rparr>) s1"
  | a s1 r' where "rr_attempts s tag = Some a" "next_cursor s = (Ok (rr_next_cursor s1), s1)" "rr_attempts s1 = rr_attempts s"
      "rr_scopes s1 = rr_scopes s" "\<not> ra_completed a"
      "deliver_outcome (ra_id a) (outcome_of a v) (rr_next_cursor s1) (ra_scopes a) (put_attempt tag (a\<lparr>ra_completed := True\<rparr>) s1) = (r', s')"
proof -
  obtain r1 s1 where 1: "next_cursor s = (r1, s1)" by (cases "next_cursor s")
  note n1 = counter_steps(2) [OF 1]
  then have "same_rest (s\<lparr>rr_next_cursor := rr_next_cursor s1\<rparr>) s1" by blast
  note fields = same_restD [OF this]
  show ?thesis
  proof (cases r1)
    case (Inl e)
    then have "s' = s1" using assms 1 by (simp add: complete_residual_attempt_def perr_def pbind_def)
    then show ?thesis using that(1) next_cursor_continues [OF 1] n1 fields by simp
  next
    case (Inr cursor)
    then have cursor: "cursor = rr_next_cursor s1" using n1 by simp
    obtain r2 where 2: "complete_attempt tag v cursor s1 = (r2, s')"
      using assms 1 Inr by (cases "complete_attempt tag v cursor s1") (auto simp: complete_residual_attempt_def perr_def pbind_def split: sum.splits)
    show ?thesis
    proof (cases "rr_attempts s tag")
      case None
      then have "s' = s1" using 2 fields by (simp add: complete_attempt_def pbind_def pread_def attempt_at_def)
      then show ?thesis using that(1) next_cursor_continues [OF 1] n1 fields by simp
    next
      case (Some a)
      then show ?thesis
        using 2 fields n1 1 cursor Inr that(2) [of a s1] that(3) [of a s1 r2]
        by (cases "ra_completed a") (simp_all add: complete_attempt_def pbind_def pread_def attempt_at_def pupd_def pret_def)
    qed
  qed
qed

lemma complete_continues:
  assumes "complete_residual_attempt tag v span s = (r, s')"
  shows "continues s s'"
  using assms
proof (cases rule: complete_cases)
  case (2 a s1)
  have "continues s1 s'" using 2 continues_put_attempt [of s1 tag a "a\<lparr>ra_completed := True\<rparr>"] by (simp add: later_attempt_def)
  then show ?thesis using next_cursor_continues [OF 2(2)] continues_trans by blast
next
  case (3 a s1 r')
  let ?s = "put_attempt tag (a\<lparr>ra_completed := True\<rparr>) s1"
  have "continues s1 ?s" using 3 continues_put_attempt [of s1 tag a "a\<lparr>ra_completed := True\<rparr>"] by (simp add: later_attempt_def)
  moreover have "continues ?s s'" using deliver_outcome_continues [OF 3(6)] by (simp add: put_attempt_def)
  ultimately show ?thesis using next_cursor_continues [OF 3(2)] continues_trans by blast
qed

lemma exit_continues:
  assumes "exit_residual_scope cell kind span s = (r, s')"
  shows "continues s s'"
proof -
  obtain r1 s1 where f: "finish_cell kind cell s = (r1, s1)" by (cases "finish_cell kind cell s")
  have "s' = s \<or> s' = s1"
    using assms f by (auto simp: exit_residual_scope_def perr_def pbind_def pread_def pfail_def pret_def split: sum.splits if_splits)
  then show ?thesis using finish_cell_continues [OF f] by auto
qed

section \<open>Runs\<close>

text \<open>One operation of the evaluator, the driver or the memory management. A scope is dropped only
  when no attempt refers to it: attempts hold strong references.\<close>

inductive residual_step ::
  "checked_facts \<Rightarrow> effect_facts \<Rightarrow> ('s, 'd, 't) residual_run \<Rightarrow> ('s, 'd, 't) residual_run \<Rightarrow> bool"
  for cf ef
where
  step_activate: "activate_residual_scope cf inst program activation span s = (r, s') \<Longrightarrow> residual_step cf ef s s'"
| step_observe: "observe_residual_attempt cf ef checked perform s = (r, s') \<Longrightarrow> residual_step cf ef s s'"
| step_permit: "consume_permit tag s = (r, s') \<Longrightarrow> residual_step cf ef s s'"
| step_approve: "record_trusted_approval tag b s = (r, s') \<Longrightarrow> residual_step cf ef s s'"
| step_complete: "complete_residual_attempt tag (v :: unit interp_value) span s = (r, s') \<Longrightarrow> residual_step cf ef s s'"
| step_exit: "exit_residual_scope cell kind span s = (r, s') \<Longrightarrow> residual_step cf ef s s'"
| step_drop_scope: "(\<And>t a. rr_attempts s t = Some a \<Longrightarrow> cell \<notin> ob_cell ` set (ra_scopes a)) \<Longrightarrow>
    residual_step cf ef s (drop_scope cell s)"
| step_drop_attempt: "residual_step cf ef s (drop_attempt tag s)"
| step_push: "residual_step cf ef s (s\<lparr>rr_mirror := mirror_push item (rr_mirror s)\<rparr>)"
| step_pop: "residual_step cf ef s (s\<lparr>rr_mirror := snd (mirror_pop (rr_mirror s))\<rparr>)"
| step_clear: "residual_step cf ef s (s\<lparr>rr_mirror := mirror_clear (rr_mirror s)\<rparr>)"

abbreviation residual_steps ::
  "checked_facts \<Rightarrow> effect_facts \<Rightarrow> ('s, 'd, 't) residual_run \<Rightarrow> ('s, 'd, 't) residual_run \<Rightarrow> bool"
where
  "residual_steps cf ef \<equiv> (residual_step cf ef)\<^sup>*\<^sup>*"

lemma residual_step_continues: "residual_step cf ef s s' \<Longrightarrow> continues s s'"
  by (induction rule: residual_step.induct)
    (auto intro: activate_residual_scope_continues observe_continues consume_permit_continues
      record_trusted_approval_continues complete_continues exit_continues drop_scope_continues
      continues_drop_attempt continues_mirror)

lemma residual_steps_continues: "residual_steps cf ef s s' \<Longrightarrow> continues s s'"
  by (induction rule: rtranclp_induct) (auto intro: residual_step_continues continues_trans)

lemma residual_steps_ok: "residual_steps cf ef run_default s \<Longrightarrow> run_ok s"
  using residual_steps_continues run_ok_default unfolding continues_def by blast

section \<open>The mirror\<close>

text \<open>The mirror counts its scopes correctly, because no other operation touches it.\<close>

definition mirror_ok :: "residual_mirror \<Rightarrow> bool" where
  "mirror_ok m \<longleftrightarrow> rm_scopes m = length (filter is_scope_entry (rm_entries m))"

definition keeps_mirror :: "('e, ('s, 'd, 't) residual_run, 'a) prog \<Rightarrow> bool" where
  "keeps_mirror m \<longleftrightarrow> (\<forall>s. rr_mirror (snd (m s)) = rr_mirror s)"

lemma keeps_mirrorD: "keeps_mirror m \<Longrightarrow> m s = (r, s') \<Longrightarrow> rr_mirror s' = rr_mirror s"
  unfolding keeps_mirror_def by (metis snd_conv)

lemma keeps_pbind [intro]:
  assumes "keeps_mirror m" "\<And>x. keeps_mirror (f x)"
  shows "keeps_mirror (pbind m f)"
  unfolding keeps_mirror_def
proof
  fix s
  obtain r s1 where m: "m s = (r, s1)" by (cases "m s")
  have "rr_mirror s1 = rr_mirror s" by (rule keeps_mirrorD [OF assms(1) m])
  moreover have "rr_mirror (snd (f x s1)) = rr_mirror s1" for x using assms(2) by (simp add: keeps_mirror_def)
  ultimately show "rr_mirror (snd (pbind m f s)) = rr_mirror s" by (cases r) (simp_all add: pbind_def m)
qed

lemma keeps_basic [intro]:
  "keeps_mirror (pret x)" "keeps_mirror (pfail e)" "keeps_mirror (pread h)"
  "keeps_mirror (on_scope c f)" "keeps_mirror (on_scope_result c g)" "keeps_mirror (new_scope i)" "keeps_mirror (new_attempt a)"
  "keeps_mirror (check_activation_capacity n)" "keeps_mirror (finish_cell kind c)"
  by (simp_all add: keeps_mirror_def pret_def pfail_def pread_def on_scope_def on_scope_result_def put_scope_def new_scope_def
      new_attempt_def put_attempt_def check_activation_capacity_def set_index_def finish_cell_def Let_def split: sum.splits prod.splits)

lemma keeps_pupd [intro]: "(\<And>s. rr_mirror (f s) = rr_mirror s) \<Longrightarrow> keeps_mirror (pupd f)"
  by (simp add: keeps_mirror_def pupd_def)

lemma keeps_perr [intro]: "keeps_mirror m \<Longrightarrow> keeps_mirror (perr g m)"
  by (auto simp: keeps_mirror_def perr_def split: prod.splits sum.splits) (metis snd_conv)+

lemma drop_scope_mirror [simp]: "rr_mirror (drop_scope c s) = rr_mirror s"
  by (simp add: drop_scope_def split: option.splits)

lemma keeps_or_drop [intro]: "keeps_mirror m \<Longrightarrow> keeps_mirror (or_drop c m)"
  by (auto simp: keeps_mirror_def or_drop_def split: prod.splits sum.splits) (metis snd_conv)+

lemma keeps_if: "keeps_mirror m \<Longrightarrow> keeps_mirror m' \<Longrightarrow> keeps_mirror (if b then m else m')"
  by simp

lemma keeps_counters [intro]: "keeps_mirror next_cursor" "keeps_mirror next_attempt" "keeps_mirror next_invocation"
  unfolding next_cursor_def next_attempt_def next_invocation_def by (intro keeps_pbind keeps_basic keeps_pupd; simp)+

lemma keeps_preview_scopes [intro]: "keeps_mirror (preview_scopes cf attempt cursor scopes)"
proof (induction scopes)
  case (Cons x scopes)
  obtain c e where x: "x = (c, e)" by (cases x)
  show ?case
    unfolding x preview_scopes.simps
    by (intro keeps_pbind keeps_basic) (auto split: residual_preview.split intro!: Cons.IH)
qed (simp add: keeps_basic)

lemma keeps_commit_scopes [intro]: "keeps_mirror (commit_scopes attempt cursor previews)"
proof (induction previews)
  case (Cons x previews)
  obtain c a d where x: "x = (c, a, d)" by (cases x)
  show ?case unfolding x commit_scopes.simps by (intro keeps_pbind keeps_basic Cons.IH)
qed (simp add: keeps_basic)

lemma keeps_deliver_outcome [intro]: "keeps_mirror (deliver_outcome attempt status k obs)"
proof (induction obs)
  case (Cons ob obs)
  show ?case unfolding deliver_outcome.simps by (intro keeps_pbind keeps_basic Cons.IH)
qed (simp add: keeps_basic)

lemma keeps_operations:
  "keeps_mirror (activate_residual_scope cf inst program activation span)"
  "keeps_mirror (consume_permit tag)" "keeps_mirror (record_trusted_approval tag b)"
  "keeps_mirror (complete_residual_attempt tag v span)" "keeps_mirror (exit_residual_scope cell kind span)"
proof -
  have attempt: "keeps_mirror (pupd (put_attempt tag a))" for tag a by (rule keeps_pupd) (simp add: put_attempt_def)
  have register: "keeps_mirror (register cell n)" for cell n
    unfolding register_def by (auto intro!: keeps_pbind keeps_basic keeps_pupd simp: set_index_def)
  show "keeps_mirror (activate_residual_scope cf inst program activation span)"
    unfolding activate_residual_scope_def
    by (intro keeps_perr keeps_pbind keeps_basic keeps_if keeps_or_drop keeps_counters register)
  show "keeps_mirror (consume_permit tag)" "keeps_mirror (record_trusted_approval tag b)"
    unfolding consume_permit_def record_trusted_approval_def by (auto intro!: attempt keeps_pbind keeps_basic)
  show "keeps_mirror (complete_residual_attempt tag v span)"
    unfolding complete_residual_attempt_def complete_attempt_def by (auto intro!: attempt keeps_pbind keeps_basic keeps_perr)
  show "keeps_mirror (exit_residual_scope cell kind span)"
    unfolding exit_residual_scope_def by (auto intro!: keeps_pbind keeps_basic keeps_perr)
qed

lemma observe_mirror:
  assumes "observe_residual_attempt cf ef checked perform s = (r, s')"
  shows "rr_mirror s' = rr_mirror s"
  using observe_cases [OF assms]
proof (elim disjE exE conjE)
  fix scopes decision r' assume run: "observe_scopes cf decision scopes s = (r', s')"
  have "keeps_mirror (observe_scopes cf decision scopes)"
    unfolding observe_scopes_def by (auto intro!: keeps_pbind)
  then show ?thesis using run by (rule keeps_mirrorD)
qed simp

lemma mirror_ops_ok:
  assumes "mirror_ok m"
  shows "mirror_ok (mirror_push item m)" "mirror_ok (snd (mirror_pop m))" "mirror_ok (mirror_clear m)"
proof -
  show "mirror_ok (mirror_push item m)" "mirror_ok (mirror_clear m)"
    using assms by (simp_all add: mirror_ok_def mirror_push_def mirror_clear_def)
  show "mirror_ok (snd (mirror_pop m))"
  proof (cases "rm_entries m" rule: rev_cases)
    case (snoc items item)
    then show ?thesis using assms by (simp add: mirror_ok_def mirror_pop_def Let_def)
  qed (use assms in \<open>simp add: mirror_pop_def\<close>)
qed

lemma residual_steps_mirror: "residual_steps cf ef run_default s \<Longrightarrow> mirror_ok (rr_mirror s)"
proof (induction rule: rtranclp_induct)
  case base
  then show ?case by (simp add: run_default_def mirror_ok_def)
next
  case (step s s')
  from step(2) show ?case
  proof cases
    case step_activate
    then show ?thesis using keeps_mirrorD [OF keeps_operations(1)] step(3) by metis
  next
    case step_observe
    then show ?thesis using observe_mirror step(3) by metis
  next
    case step_permit
    then show ?thesis using keeps_mirrorD [OF keeps_operations(2)] step(3) by metis
  next
    case step_approve
    then show ?thesis using keeps_mirrorD [OF keeps_operations(3)] step(3) by metis
  next
    case step_complete
    then show ?thesis using keeps_mirrorD [OF keeps_operations(4)] step(3) by metis
  next
    case step_exit
    then show ?thesis using keeps_mirrorD [OF keeps_operations(5)] step(3) by metis
  qed (use step(3) in \<open>simp_all add: mirror_ops_ok drop_attempt_def\<close>)
qed

lemma has_scopes_iff:
  assumes "residual_steps cf ef run_default s"
  shows "has_scopes s \<longleftrightarrow> (\<exists>c. MirrorScope c \<in> set (rm_entries (rr_mirror s)))"
proof -
  have "is_scope_entry e \<longleftrightarrow> (\<exists>c. e = MirrorScope c)" for e by (cases e) simp_all
  then show ?thesis
    using residual_steps_mirror [OF assms] by (auto simp: has_scopes_def mirror_ok_def filter_empty_conv)
qed

end
