(* ===== verification/Residual_Properties.thy ===== *)
theory Residual_Properties
  imports Residual_Runs
begin

text \<open>
  What the residual monitors guarantee of every run: governed actions are dispatched only when
  every enclosing scope has permitted them, permits are fresh and used once, evidence of approval
  comes from the trusted approval boundary, and no unsatisfied scope is lost.
\<close>

section \<open>Observation\<close>


text \<open>A sample: a plan that counts the actions it permits and rejects the action 9, one scope of it,
  and an action 7 inside the scope.\<close>

definition sample_plan :: "(nat, nat, nat) trace_plan" where
  "sample_plan = \<lparr>tp_scope = 1, tp_activation = 2, tp_obligations = [(5, 1, 2)], tp_component_ids = (\<lambda>_. [0]),
     tp_component = (\<lambda>_. Some (TraceComponent 0)), tp_layout = (\<lambda>_. Some 0), tp_bindings = (\<lambda>_. Ok 0),
     tp_initial = (\<lambda>_ _ _. Ok 0),
     tp_preview = (\<lambda>st ev _ _. Ok (if ev_action ev = 9 then DecideReject else DecidePermit (st + 1))),
     tp_commit = (\<lambda>_ delta. (Ok (), delta)), tp_finish = (\<lambda>_ _ _. Ok Accepting), tp_to_data = (\<lambda>st. st),
     tp_data_cursor = (\<lambda>_. None), tp_restore = (\<lambda>_ data _ _. Ok data)\<rparr>"

definition sample_application :: application where
  "sample_application = \<lparr>ap_fingerprint = 6, ap_actions = [7, 8], ap_scopes = [0]\<rparr>"

definition sample_prepared :: "(nat, nat, nat) prepared_scope" where
  "sample_prepared = \<lparr>ps_item = 3, ps_revision = 4, ps_plans = [sample_plan], ps_applications = [sample_application],
     ps_approval_target = Some 8\<rparr>"

definition sample_facts :: checked_facts where
  "sample_facts = \<lparr>cf_target = (\<lambda>a. a), cf_canonical = (\<lambda>_ _ e. Ok e), cf_valid_action = (\<lambda>_. Ok ()), cf_span = (\<lambda>_ _. Some 11)\<rparr>"

definition sample_effects :: effect_facts where
  "sample_effects = \<lparr>ef_action = Some, ef_approval = (\<lambda>_. Some 8)\<rparr>"

definition sample_scope :: "(nat, nat, nat) scope_instance" where
  "sample_scope = \<lparr>si_prepared = sample_prepared, si_application = sample_application, si_program = 20,
     si_invocation = identity_bytes invocation_kind 1, si_span = 11, si_states = [0], si_labels = [], si_outcomes = [],
     si_pending = [], si_version = 0, si_last_cursor = None, si_exit = None, si_limits = state_limits_default\<rparr>"

definition sample_entered :: "(nat, nat, nat) residual_run" where
  "sample_entered = run_default\<lparr>rr_next_invocation := 1, rr_next_cell := 1, rr_scopes := [0 \<mapsto> sample_scope],
     rr_log := (log_new 1024)\<lparr>rl_scopes := [(0, 11)]\<rparr>\<rparr>"

definition sample_inside :: "(nat, nat, nat) residual_run" where
  "sample_inside = sample_entered\<lparr>rr_mirror := mirror_push (MirrorScope 0) (rr_mirror sample_entered)\<rparr>"

definition sample_perform :: pending_perform where
  "sample_perform = \<lparr>pp_span = 12, pp_error_type = False, pp_residual = None, pp_continuation = KBlockValue,
     pp_checked = Some \<lparr>ca_program = 20, ca_effect = 7\<rparr>\<rparr>"

lemmas sample_prog = pbind_def pread_def pupd_def pret_def pfail_def perr_def

lemma sample_activate:
  "activate_residual_scope sample_facts \<lparr>in_validate = Ok (), in_scope = (\<lambda>_. Some (30, sample_prepared))\<rparr> 20
     \<lparr>sa_address = 30, sa_scope = sample_prepared, sa_application = sample_application\<rparr> 12 run_default =
   (Ok 0, sample_entered)"
  by (simp add: activate_residual_scope_def sample_prog check_activation_capacity_def next_invocation_def checked_incr_def
      activate_def validate_component_budget_def own_obligations_def initial_state_def specialized_def with_context_def
      new_scope_def register_def scope_at_def put_scope_def set_index_def or_drop_def live_active_def run_default_def log_new_def
      state_limits_default_def sample_entered_def sample_scope_def sample_prepared_def sample_application_def sample_plan_def
      sample_facts_def)

lemma sample_inside_reached: "residual_steps sample_facts sample_effects run_default sample_inside"
proof -
  have "residual_step sample_facts sample_effects run_default sample_entered"
    by (rule step_activate [OF sample_activate])
  moreover have "residual_step sample_facts sample_effects sample_entered sample_inside"
    unfolding sample_inside_def by (rule step_push)
  ultimately show ?thesis by auto
qed

lemma sample_observe_eq:
  "\<exists>s' perform'. observe_residual_attempt sample_facts sample_effects 20 sample_perform sample_inside = (Ok perform', s') \<and>
    pp_residual perform' = Some 1 \<and> (\<exists>a i. rr_attempts s' 1 = Some a \<and>
      ra_scopes a = [\<lparr>ob_cell = 0, ob_action = 7, ob_version = 1\<rparr>] \<and> \<not> ra_dispatched a \<and> \<not> ra_decision a \<and> \<not> ra_completed a \<and>
      ra_id a = identity_bytes attempt_kind 1 \<and>
      rr_scopes s' 0 = Some i \<and> is_active i \<and> si_version i = 1 \<and> si_states i = [1] \<and> si_outcomes i = [] \<and>
      si_last_cursor i = Some 1 \<and> si_limits i = state_limits_default \<and>
      si_pending i = [\<lparr>pn_attempt = identity_bytes attempt_kind 1, pn_action = 7\<rparr>]) \<and> rr_next_cursor s' = 1"
  by (simp add: observe_residual_attempt_def sample_perform_def sample_inside_def mirror_push_def has_scopes_def sample_prog enclosing_scopes_def
      include_scope_def scope_at_def next_attempt_def next_cursor_def checked_incr_def on_scope_def label_def with_context_def
      preview_def validate_next_cursor_def preview_plan_def component_attempt_def commit_def put_scope_def new_attempt_def
      put_attempt_def attempt_new_def compose_continuation_def is_standard_approval_def run_default_def
      sample_entered_def sample_scope_def sample_prepared_def sample_plan_def sample_facts_def sample_effects_def
      state_limits_default_def)



text \<open>Scopes commit one after the other, and the ceiling of outstanding attempts is checked only then: a
  scope that is full stops the observation after the scopes before it have committed.\<close>

lemma commit_stops_midway:
  assumes "rr_scopes s c = Some i" "commit deltas attempt cursor action i = (Ok version, i')"
    and "rr_scopes s c' = Some j" "c' \<noteq> c" "is_active j" "length (si_pending j) = sl_pending (si_limits j)"
  shows "\<exists>e s'. commit_scopes attempt cursor [(c, action, deltas), (c', action', deltas')] s = (Err e, s') \<and>
    rr_scopes s' c = Some i' \<and> rr_scopes s' c' = Some j"
proof -
  have "\<exists>e. commit deltas' attempt cursor action' j = (Err e, j)"
    using assms(5,6) by (cases "validate_next_cursor j cursor"; cases "checked_incr (si_version j) ''residual scope version is exhausted''")
      (auto simp: commit_def)
  then show ?thesis
    using assms(1-4) by (auto simp: pbind_def on_scope_def scope_at_def put_scope_def)
qed

section \<open>Permits\<close>

lemma evolves_attempt:
  "evolves s s' \<Longrightarrow> t < rr_next_cell s \<Longrightarrow> rr_attempts s' t = Some a' \<Longrightarrow> \<exists>a. rr_attempts s t = Some a \<and> later_attempt a a'"
  by (simp add: evolves_def)

lemma evolves_scope:
  "evolves s s' \<Longrightarrow> c < rr_next_cell s \<Longrightarrow> rr_scopes s' c = Some i' \<Longrightarrow> \<exists>i. rr_scopes s c = Some i \<and> later i i'"
  by (simp add: evolves_def)

lemma scope_at_put_attempt [simp]: "scope_at c (put_attempt t a s) = scope_at c s"
  by (simp add: scope_at_def put_attempt_def)

lemma check_permits_put: "check_permits obs (put_attempt t a s) = check_permits obs s"
  by (induction obs) (simp_all cong del: if_weak_cong)

lemma check_permits_all:
  assumes "check_permits obs s = Ok ()" "ob \<in> set obs"
  shows "\<exists>i. rr_scopes s (ob_cell ob) = Some i \<and> is_active i \<and> si_version i = ob_version ob"
  using assms by (induction obs) (auto simp: scope_at_def simp del: not_None_eq split: if_splits)

text \<open>\<^bold>\<open>C5\<close>. Permits are fresh and used once. Let an action be observed in a state a run reaches,
  and its permit be consumed after any further steps. If consuming the permit succeeds, every scope
  that committed the attempt is still active and has recorded no other event since the observation:
  its outstanding attempts, its evidence and its cursor are those of the observation. After any
  attempt to consume it, successful or not, the permit is refused for ever.\<close>

theorem permit_is_fresh_and_single_use:
  assumes reach: "residual_steps cf ef run_default s"
    and obs: "observe_residual_attempt cf ef checked perform s = (Ok perform', s1)" "pp_residual perform = None"
      "pp_residual perform' = Some tag"
    and use: "residual_steps cf ef s1 s2" "consume_permit tag s2 = (r, s3)" and again: "residual_steps cf ef s3 s4"
  shows "(r = Ok () \<longrightarrow> (\<exists>a. rr_attempts s2 tag = Some a \<and> (\<forall>ob \<in> set (ra_scopes a). \<exists>i1 i2.
      rr_scopes s1 (ob_cell ob) = Some i1 \<and> rr_scopes s2 (ob_cell ob) = Some i2 \<and> is_active i2 \<and>
      si_pending i2 = si_pending i1 \<and> si_outcomes i2 = si_outcomes i1 \<and> si_last_cursor i2 = si_last_cursor i1))) \<and>
    (\<exists>e. fst (consume_permit tag s4) = Err e)"
proof -
  have steps: "residual_steps cf ef run_default s1" using reach step_observe [OF obs(1)] by (rule rtranclp.rtrancl_into_rtrancl)
  have ok1: "run_ok s1" by (rule residual_steps_ok [OF steps])
  have ev12: "run_ok s2 \<and> evolves s1 s2" using residual_steps_continues [OF use(1)] ok1 by (simp add: continues_def)
  have s3: "run_ok s3" using consume_permit_continues [OF use(2)] ev12 by (simp add: continues_def)
  have ev34: "evolves s3 s4" using residual_steps_continues [OF again] s3 by (simp add: continues_def)
  have alive: "\<exists>a. rr_attempts s1 tag = Some a"
  proof -
    have "pp_residual perform \<noteq> Some tag" using obs(2) by simp
    then show ?thesis using obs by (auto simp: observe_residual_attempt_def perr_def pbind_def pret_def pfail_def pread_def
          new_attempt_def put_attempt_def simp del: residual_scopes.simps split: if_splits sum.splits option.splits prod.splits)
  qed
  then obtain a1 where a1: "rr_attempts s1 tag = Some a1" by blast
  have tag: "tag < rr_next_cell s1" using run_okD(3) [OF ok1 a1] by simp
  have next_cells: "rr_next_cell s1 \<le> rr_next_cell s2" "rr_next_cell s3 = rr_next_cell s2"
    using ev12 use(2) by (auto simp: evolves_def consume_permit_def pbind_def pread_def pupd_def put_attempt_def pfail_def
        split: sum.splits if_splits)
  have "\<exists>a. rr_attempts s2 tag = Some a \<and> (\<forall>ob \<in> set (ra_scopes a). \<exists>i1 i2.
      rr_scopes s1 (ob_cell ob) = Some i1 \<and> rr_scopes s2 (ob_cell ob) = Some i2 \<and> is_active i2 \<and>
      si_pending i2 = si_pending i1 \<and> si_outcomes i2 = si_outcomes i1 \<and> si_last_cursor i2 = si_last_cursor i1)"
    if granted: "r = Ok ()"
  proof -
    obtain a where a: "rr_attempts s2 tag = Some a" "check_permits (ra_scopes a) s2 = Ok ()"
      using use(2) granted by (auto simp: consume_permit_def pbind_def pread_def attempt_at_def pupd_def pfail_def
          check_permits_put split: sum.splits if_splits option.splits)
    have later: "later_attempt a1 a" using evolves_attempt [OF conjunct2 [OF ev12] tag a(1)] a1 by auto
    have "\<exists>i1 i2. rr_scopes s1 (ob_cell ob) = Some i1 \<and> rr_scopes s2 (ob_cell ob) = Some i2 \<and> is_active i2 \<and>
      si_pending i2 = si_pending i1 \<and> si_outcomes i2 = si_outcomes i1 \<and> si_last_cursor i2 = si_last_cursor i1"
      if member: "ob \<in> set (ra_scopes a)" for ob
    proof -
      obtain i2 where i2: "rr_scopes s2 (ob_cell ob) = Some i2" "is_active i2" "si_version i2 = ob_version ob"
        using check_permits_all [OF a(2) member] by blast
      have "ob \<in> set (ra_scopes a1)" using member later by (simp add: later_attempt_def)
      then obtain i1 where i1: "rr_scopes s1 (ob_cell ob) = Some i1" "ob_version ob \<le> si_version i1"
        using run_okD(3) [OF ok1 a1] unfolding attempt_ok_def by blast
      have "later i1 i2" using evolves_scope [OF conjunct2 [OF ev12] _ i2(1)] i1(1) run_okD(1) [OF ok1 i1(1)] by auto
      then show ?thesis using i1 i2 by (auto simp: later_def)
    qed
    with a(1) show ?thesis by blast
  qed
  moreover have "\<exists>e. fst (consume_permit tag s4) = Err e"
  proof (cases "rr_attempts s4 tag")
    case None
    then show ?thesis by (simp add: consume_permit_def pbind_def pread_def attempt_at_def)
  next
    case (Some a4)
    then obtain a3 where a3: "rr_attempts s3 tag = Some a3" "later_attempt a3 a4"
      using evolves_attempt [OF ev34 _ Some] tag next_cells by auto
    have "ra_dispatched a3"
      using use(2) a3(1) by (auto simp: consume_permit_def pbind_def pread_def attempt_at_def pupd_def pfail_def put_attempt_def
          split: sum.splits if_splits option.splits)
    then have "ra_dispatched a4" using a3(2) by (simp add: later_attempt_def)
    then show ?thesis using Some by (simp add: consume_permit_def pbind_def pread_def attempt_at_def pupd_def pfail_def)
  qed
  ultimately show ?thesis by blast
qed

theorem permit_is_fresh_and_single_use_witness:
  "\<exists>(s1 :: (nat, nat, nat) residual_run) s3 i1. consume_permit 1 s1 = (Ok (), s3) \<and> rr_scopes s1 0 = Some i1 \<and> is_active i1 \<and>
    si_pending i1 = [\<lparr>pn_attempt = identity_bytes attempt_kind 1, pn_action = 7\<rparr>] \<and> (\<exists>e. fst (consume_permit 1 s3) = Err e)"
proof -
  obtain s1 perform' a i where obs: "observe_residual_attempt sample_facts sample_effects 20 sample_perform sample_inside = (Ok perform', s1)"
    "pp_residual perform' = Some 1" "rr_attempts s1 1 = Some a" "ra_scopes a = [\<lparr>ob_cell = 0, ob_action = 7, ob_version = 1\<rparr>]"
    "\<not> ra_dispatched a" "rr_scopes s1 0 = Some i" "is_active i" "si_version i = 1"
    "si_pending i = [\<lparr>pn_attempt = identity_bytes attempt_kind 1, pn_action = 7\<rparr>]"
    using sample_observe_eq by blast
  have use: "consume_permit 1 s1 = (Ok (), put_attempt 1 (a\<lparr>ra_dispatched := True\<rparr>) s1)"
  proof -
    have "check_permits (ra_scopes a) s1 = Ok ()" using obs(4,6-8) by (simp add: scope_at_def)
    then show ?thesis using obs(3,5) by (simp add: consume_permit_def sample_prog attempt_at_def check_permits_put)
  qed
  have "pp_residual sample_perform = None" by (simp add: sample_perform_def)
  from permit_is_fresh_and_single_use [OF sample_inside_reached obs(1) this obs(2) rtranclp.rtrancl_refl use rtranclp.rtrancl_refl]
  have "\<exists>e. fst (consume_permit 1 (put_attempt 1 (a\<lparr>ra_dispatched := True\<rparr>) s1)) = Err e" by (rule conjunct2)
  with use obs(6,7,9) show ?thesis by blast
qed

section \<open>Evidence\<close>

lemma latest_accepted_source:
  assumes "latest_accepted q best entries = Some (i, k)"
  shows "best = Some (i, k) \<or> (\<exists>e \<in> set entries. eq_covers q (oe_action e) \<and> oe_accepted e = Some (CurrentRun i k) \<and>
    k < at_cursor (eq_attempt q) \<and> i \<noteq> at_id (eq_attempt q))"
  using assms
proof (induction q best entries rule: latest_accepted.induct)
  case (2 q best entry entries)
  let ?best = "if eq_covers q (oe_action entry) then
          (case Option.bind (oe_accepted entry) outcome_current of
             Some (i, completed_at) \<Rightarrow>
               if completed_at < at_cursor (eq_attempt q) \<and> i \<noteq> at_id (eq_attempt q) \<and>
                  (case best of None \<Rightarrow> True | Some (_, latest) \<Rightarrow> completed_at > latest)
               then Some (i, completed_at) else best
           | None \<Rightarrow> best)
        else best"
  have new: "best = Some (i, k) \<or> eq_covers q (oe_action entry) \<and> oe_accepted entry = Some (CurrentRun i k) \<and>
      k < at_cursor (eq_attempt q) \<and> i \<noteq> at_id (eq_attempt q)" if "?best = Some (i, k)"
    using that by (cases "oe_accepted entry"; cases "the (oe_accepted entry)") (auto split: if_splits)
  have "latest_accepted q ?best entries = Some (i, k)" using "2.prems" by (simp only: latest_accepted.simps)
  from "2.IH" [OF this] new show ?case by auto
qed simp

text \<open>A step is quiet when it adds no evidence.\<close>

definition quiet :: "('s, 'd, 't) residual_run \<Rightarrow> ('s, 'd, 't) residual_run \<Rightarrow> bool" where
  "quiet s s' \<longleftrightarrow> (\<forall>c i'. rr_scopes s' c = Some i' \<longrightarrow> si_outcomes i' = [] \<or>
     (\<exists>i. rr_scopes s c = Some i \<and> si_outcomes i' = si_outcomes i))"

lemma quiet_same: "rr_scopes s' = rr_scopes s \<Longrightarrow> quiet s s'"
  by (simp add: quiet_def)

lemma quiet_trans:
  assumes "quiet s s'" "quiet s' s''"
  shows "quiet s s''"
  unfolding quiet_def
proof (intro allI impI)
  fix c i'' assume "rr_scopes s'' c = Some i''"
  with assms(2) have "si_outcomes i'' = [] \<or> (\<exists>i'. rr_scopes s' c = Some i' \<and> si_outcomes i'' = si_outcomes i')"
    by (simp add: quiet_def)
  then show "si_outcomes i'' = [] \<or> (\<exists>i. rr_scopes s c = Some i \<and> si_outcomes i'' = si_outcomes i)"
    using assms(1) unfolding quiet_def by metis
qed

lemma quiet_put_scope: "rr_scopes s c = Some i \<Longrightarrow> si_outcomes i' = si_outcomes i \<Longrightarrow> quiet s (put_scope c i' s)"
  by (auto simp: quiet_def put_scope_def)

lemma quiet_same_core:
  assumes "same_core s s'"
  shows "quiet s s'"
  unfolding quiet_def
proof (intro allI impI)
  fix c i' assume "rr_scopes s' c = Some i'"
  then obtain i where "rr_scopes s c = Some i" "core i' = core i"
    using same_core_cell [OF assms, of c] by (cases "rr_scopes s c") auto
  then show "si_outcomes i' = [] \<or> (\<exists>i. rr_scopes s c = Some i \<and> si_outcomes i' = si_outcomes i)"
    using core_eqD(7) by blast
qed

lemma commit_scopes_quiet: "commit_scopes attempt cursor previews s = (r, s') \<Longrightarrow> quiet s s'"
proof (induction previews arbitrary: s r s')
  case Nil
  then show ?case by (simp add: pret_def quiet_same)
next
  case (Cons x previews)
  obtain c action deltas where x: "x = (c, action, deltas)" by (cases x)
  show ?case
  proof (cases "rr_scopes s c")
    case None
    then show ?thesis using Cons.prems by (simp add: x pbind_def on_scope_def scope_at_def quiet_same)
  next
    case (Some i)
    obtain r1 i1 where commit: "commit deltas attempt cursor action i = (r1, i1)" by (cases "commit deltas attempt cursor action i")
    let ?s = "put_scope c i1 s"
    have "si_outcomes i1 = si_outcomes i" using commit_cases [OF commit] by auto
    then have first: "quiet s ?s" by (rule quiet_put_scope [OF Some])
    have "s' = ?s \<or> (\<exists>r2. commit_scopes attempt cursor previews ?s = (r2, s'))"
      using Cons.prems by (cases "commit_scopes attempt cursor previews ?s")
        (auto simp: x pbind_def on_scope_def scope_at_def Some commit pret_def split: sum.splits)
    then show ?thesis using first Cons.IH quiet_trans by blast
  qed
qed

lemma observe_quiet:
  assumes "observe_residual_attempt cf ef checked perform s = (r, s')"
  shows "quiet s s'"
  using observe_cases [OF assms]
proof (elim disjE exE conjE)
  assume "s' = s"
  then show ?thesis by (simp add: quiet_same)
next
  fix scopes decision r' assume run: "observe_scopes cf decision scopes s = (r', s')"
  obtain r1 s1 where 1: "next_attempt s = (r1, s1)" by (cases "next_attempt s")
  obtain r2 s2 where 2: "next_cursor s1 = (r2, s2)" by (cases "next_cursor s1")
  have q2: "quiet s s1" "quiet s s2" using counter_steps(1) [OF 1] counter_steps(2) [OF 2] by (simp_all add: quiet_same)
  show ?thesis
  proof (cases "\<exists>attempt cursor. r1 = Ok attempt \<and> r2 = Ok cursor")
    case False
    then have "s' = s1 \<or> s' = s2" using run 1 2 by (auto simp: observe_scopes_def pbind_def split: sum.splits)
    then show ?thesis using q2 by blast
  next
    case True
    then obtain attempt cursor where ok: "r1 = Ok attempt" "r2 = Ok cursor" by blast
    obtain r3 s3 where 3: "preview_scopes cf attempt cursor scopes s2 = (r3, s3)" by (cases "preview_scopes cf attempt cursor scopes s2")
    have q3: "quiet s s3" using preview_scopes_spec [OF 3] quiet_same_core quiet_trans q2(2) by blast
    show ?thesis
    proof (cases r3)
      case (Inl e)
      then show ?thesis using run 1 2 3 ok q3 by (simp add: observe_scopes_def pbind_def)
    next
      case (Inr previews)
      obtain r4 s4 where 4: "commit_scopes attempt cursor previews s3 = (r4, s4)" by (cases "commit_scopes attempt cursor previews s3")
      have "quiet s s4" using q3 commit_scopes_quiet [OF 4] quiet_trans by blast
      moreover have "rr_scopes s' = rr_scopes s4"
        using run 1 2 3 4 ok Inr by (auto simp: observe_scopes_def pbind_def new_attempt_def put_attempt_def split: sum.splits)
      ultimately show ?thesis using quiet_same quiet_trans by blast
    qed
  qed
qed

lemma finish_cell_quiet:
  assumes "finish_cell kind c s = (r, s')"
  shows "quiet s s'"
proof (cases "rr_scopes s c")
  case None
  then show ?thesis using assms by (simp add: finish_cell_def scope_at_def quiet_same)
next
  case (Some i)
  obtain i' log' where f: "finish_scope kind i (rr_log s) = (r, i', log')" and s': "s' = put_scope c i' (s\<lparr>rr_log := log'\<rparr>)"
    using assms Some by (auto simp: finish_cell_def scope_at_def split: prod.splits)
  have "si_outcomes i' = si_outcomes i" using finish_scope_cases [OF f] by auto
  then show ?thesis using Some by (auto simp: s' quiet_def put_scope_def)
qed

lemma drop_scope_quiet: "quiet s (drop_scope c s)"
  by (auto simp: quiet_def drop_scope_def split: option.splits)

lemma register_scopes: "register cell m s = (r, s') \<Longrightarrow> rr_scopes s' = rr_scopes s"
  by (auto simp: register_def pbind_def pread_def pfail_def pupd_def check_activation_capacity_def set_index_def Let_def
      split: sum.splits if_splits)

lemma next_invocation_scopes: "next_invocation s = (r, s') \<Longrightarrow> rr_scopes s' = rr_scopes s"
  by (auto simp: next_invocation_def pbind_def pread_def pupd_def pret_def checked_incr_def split: if_splits)

lemma activate_quiet:
  assumes "activate_residual_scope cf inst program activation span s = (r, s')"
  shows "quiet s s'"
  using assms
proof (cases rule: activate_cases)
  case 1
  then show ?thesis by (simp add: quiet_same)
next
  case (2 r1)
  then show ?thesis using check_activation_capacity_continues quiet_same by blast
next
  case (3 s1 r2)
  then show ?thesis
    using check_activation_capacity_continues [OF 3(1)] next_invocation_scopes [OF 3(2)] by (simp add: quiet_same)
next
  case (4 s1 invocation s2 i r4 s4)
  have "rr_scopes s2 = rr_scopes s"
    using check_activation_capacity_continues [OF 4(1)] next_invocation_scopes [OF 4(2)] by simp
  moreover have "rr_scopes s4 = (rr_scopes s2)(rr_next_cell s2 \<mapsto> i)"
    using register_scopes [OF 4(4)] by (simp add: new_scope_def put_scope_def)
  moreover have "si_outcomes i = []" using 4(3) by (auto simp: activate_def)
  ultimately have "quiet s s4" by (auto simp: quiet_def)
  then show ?thesis using 4(5) drop_scope_quiet quiet_trans by blast
qed

text \<open>Evidence a scope can use: accepted outcomes of this run.\<close>

definition evidence_in :: "('s, 'd, 't) residual_run \<Rightarrow> nat \<Rightarrow> identity \<Rightarrow> nat \<Rightarrow> bool" where
  "evidence_in s c attempt k \<longleftrightarrow>
     (\<exists>i e. rr_scopes s c = Some i \<and> e \<in> set (si_outcomes i) \<and> oe_accepted e = Some (CurrentRun attempt k))"

lemma quiet_evidence: "quiet s s' \<Longrightarrow> evidence_in s' c attempt k \<Longrightarrow> evidence_in s c attempt k"
  by (fastforce simp: quiet_def evidence_in_def)

lemma put_status_accepted:
  "oe_accepted (put_status status attempt k e) = Some (CurrentRun attempt' k') \<Longrightarrow>
    oe_accepted e = Some (CurrentRun attempt' k') \<or> status = OutcomeAccepted \<and> attempt' = attempt"
  by (cases status) (auto simp: put_status_def)

lemma record_outcome_evidence:
  assumes "record_outcome attempt status k i = Ok i'" "e \<in> set (si_outcomes i')" "oe_accepted e = Some (CurrentRun attempt' k')"
  shows "(\<exists>e \<in> set (si_outcomes i). oe_accepted e = Some (CurrentRun attempt' k')) \<or> status = OutcomeAccepted \<and> attempt' = attempt"
proof (cases "si_exit i")
  case (Some x)
  then show ?thesis using assms by (auto simp: record_outcome_def)
next
  case None
  from assms(1) None show ?thesis
  proof (rule record_outcome_cases)
    fix position action index outcomes
    assume new: "index < length outcomes"
      "outcomes = si_outcomes i \<or> outcomes = si_outcomes i @ [\<lparr>oe_action = action, oe_accepted = None, oe_rejected = None\<rparr>] \<and>
        index = length (si_outcomes i) \<and> action \<notin> set (map oe_action (si_outcomes i)) \<and>
        length (si_outcomes i) < sl_outcomes (si_limits i)"
      "i' = i\<lparr>si_pending := remove_at position (si_pending i),
         si_outcomes := outcomes[index := put_status status attempt k (outcomes ! index)],
         si_version := si_version i + 1, si_last_cursor := Some k\<rparr>"
    have "e \<in> insert (put_status status attempt k (outcomes ! index)) (set outcomes)"
      using assms(2) new(3) set_update_subset_insert by fastforce
    then obtain e0 where "e0 \<in> set outcomes" "oe_accepted e0 = Some (CurrentRun attempt' k') \<or> status = OutcomeAccepted \<and> attempt' = attempt"
      using assms(3) put_status_accepted nth_mem [OF new(1)] by (metis insertE)
    then show ?thesis using new(2) by auto
  qed
qed

lemma deliver_outcome_evidence:
  assumes "deliver_outcome attempt status k obs s = (r, s')" "evidence_in s' c attempt' k'"
  shows "evidence_in s c attempt' k' \<or> status = OutcomeAccepted \<and> attempt' = attempt"
  using assms
proof (induction obs arbitrary: s)
  case Nil
  then show ?case by (simp add: pret_def)
next
  case (Cons ob obs)
  show ?case
  proof (cases "rr_scopes s (ob_cell ob)")
    case None
    then show ?thesis using Cons.prems by (simp add: pbind_def on_scope_result_def on_scope_def scope_at_def)
  next
    case (Some i)
    show ?thesis
    proof (cases "record_outcome attempt status k i")
      case (Inl e)
      then have "s' = s" using Cons.prems(1) Some
        by (simp add: pbind_def on_scope_result_def on_scope_def scope_at_def put_scope_def fun_upd_idem)
      then show ?thesis using Cons.prems(2) by simp
    next
      case (Inr i')
      let ?s = "put_scope (ob_cell ob) i' s"
      have rest: "deliver_outcome attempt status k obs ?s = (r, s')"
        using Cons.prems(1) Some Inr by (simp add: pbind_def on_scope_result_def on_scope_def scope_at_def)
      have "evidence_in s c attempt' k' \<or> status = OutcomeAccepted \<and> attempt' = attempt" if new: "evidence_in ?s c attempt' k'"
      proof (cases "c = ob_cell ob")
        case True
        then obtain e where "e \<in> set (si_outcomes i')" "oe_accepted e = Some (CurrentRun attempt' k')"
          using new by (auto simp: evidence_in_def put_scope_def)
        then show ?thesis using record_outcome_evidence [OF Inr] Some True by (auto simp: evidence_in_def)
      qed (use new in \<open>simp add: evidence_in_def put_scope_def\<close>)
      then show ?thesis using Cons.IH [OF rest Cons.prems(2)] by blast
    qed
  qed
qed

text \<open>New evidence comes from the completion of an attempt whose outcome is accepted.\<close>

lemma step_evidence:
  assumes "residual_step cf ef s s'" "evidence_in s' c attempt k"
  shows "evidence_in s c attempt k \<or> (\<exists>tag a v span r. rr_attempts s tag = Some a \<and> \<not> ra_completed a \<and> ra_id a = attempt \<and>
    outcome_of a (v :: unit interp_value) = OutcomeAccepted \<and> complete_residual_attempt tag v span s = (r, s'))"
  using assms(1)
proof cases
  case (step_complete tag v span r)
  from step_complete show ?thesis
  proof (cases rule: complete_cases)
    case 1
    then show ?thesis using assms(2) by (simp add: evidence_in_def)
  next
    case (2 a s1)
    then show ?thesis using assms(2) by (simp add: evidence_in_def put_attempt_def)
  next
    case (3 a s1 r')
    from deliver_outcome_evidence [OF 3(6) assms(2)] show ?thesis
    proof
      assume "evidence_in (put_attempt tag (a\<lparr>ra_completed := True\<rparr>) s1) c attempt k"
      then show ?thesis using 3(4) by (simp add: evidence_in_def put_attempt_def)
    next
      assume "outcome_of a v = OutcomeAccepted \<and> attempt = ra_id a"
      then show ?thesis using 3(1,5) step_complete by blast
    qed
  qed
next
  case (step_activate inst program activation span r)
  then show ?thesis using activate_quiet quiet_evidence assms(2) by blast
next
  case (step_observe checked perform r)
  then show ?thesis using observe_quiet quiet_evidence assms(2) by blast
next
  case (step_permit tag r)
  then have "rr_scopes s' = rr_scopes s"
    by (auto simp: consume_permit_def pbind_def pread_def pupd_def pfail_def put_attempt_def split: sum.splits if_splits)
  then show ?thesis using quiet_same quiet_evidence assms(2) by blast
next
  case (step_approve tag b r)
  then have "rr_scopes s' = rr_scopes s"
    by (auto simp: record_trusted_approval_def pbind_def pread_def pupd_def put_attempt_def split: sum.splits)
  then show ?thesis using quiet_same quiet_evidence assms(2) by blast
next
  case (step_exit cell kind span r)
  obtain r1 s1 where f: "finish_cell kind cell s = (r1, s1)" by (cases "finish_cell kind cell s")
  have "s' = s \<or> s' = s1"
    using step_exit f by (auto simp: exit_residual_scope_def perr_def pbind_def pread_def pfail_def pret_def split: sum.splits if_splits)
  then show ?thesis using finish_cell_quiet [OF f] quiet_evidence assms(2) by blast
next
  case (step_drop_scope cell)
  then show ?thesis using drop_scope_quiet quiet_evidence assms(2) by blast
next
  case (step_drop_attempt tag)
  then show ?thesis using assms(2) by (simp add: evidence_in_def drop_attempt_def)
next
  case (step_push item)
  then show ?thesis using assms(2) by (simp add: evidence_in_def)
next
  case step_pop
  then show ?thesis using assms(2) by (simp add: evidence_in_def)
next
  case step_clear
  then show ?thesis using assms(2) by (simp add: evidence_in_def)
qed

lemma steps_evidence:
  assumes "residual_steps cf ef run_default s" "evidence_in s c attempt k"
  shows "\<exists>s1 tag a v span r s2. residual_steps cf ef run_default s1 \<and> rr_attempts s1 tag = Some a \<and> \<not> ra_completed a \<and>
    ra_id a = attempt \<and> outcome_of a (v :: unit interp_value) = OutcomeAccepted \<and>
    complete_residual_attempt tag v span s1 = (r, s2) \<and> residual_steps cf ef s2 s"
  using assms
proof (induction rule: rtranclp_induct)
  case base
  then show ?case by (simp add: evidence_in_def run_default_def)
next
  case (step s s')
  from step_evidence [OF step(2,4)] show ?case
  proof
    assume "evidence_in s c attempt k"
    with step(3) step(2) show ?thesis by (meson rtranclp.rtrancl_into_rtrancl)
  next
    assume "\<exists>tag a v span r. rr_attempts s tag = Some a \<and> \<not> ra_completed a \<and> ra_id a = attempt \<and>
      outcome_of a (v :: unit interp_value) = OutcomeAccepted \<and> complete_residual_attempt tag v span s = (r, s')"
    with step(1) show ?thesis by blast
  qed
qed

text \<open>\<^bold>\<open>C6\<close>. Evidence was granted in this run. When a scope answers a query for prior evidence with an
  accepted outcome, that outcome is covered by the guard, was completed before the attempt in question
  and belongs to another attempt; and the run contains the completion it stems from: an attempt
  with this identity was completed for the first time, and if it was a decision (the standard
  approval action), the trusted approval boundary had approved it and the value delivered was
  true.\<close>

theorem accepted_evidence_was_granted:
  assumes "residual_steps cf ef run_default s" "rr_scopes s c = Some i" "query_evidence i q = EvidenceAccepted pe"
  shows "pe_completed_at pe < at_cursor (eq_attempt q) \<and> pe_guard_attempt pe \<noteq> at_id (eq_attempt q) \<and>
    (\<exists>e \<in> set (si_outcomes i). eq_covers q (oe_action e) \<and>
      oe_accepted e = Some (CurrentRun (pe_guard_attempt pe) (pe_completed_at pe))) \<and>
    (\<exists>s1 tag a v span r s2. residual_steps cf ef run_default s1 \<and> rr_attempts s1 tag = Some a \<and> \<not> ra_completed a \<and>
      ra_id a = pe_guard_attempt pe \<and> (ra_decision a \<longrightarrow> ra_trusted a = Some True \<and> v = Bool True) \<and>
      complete_residual_attempt tag (v :: unit interp_value) span s1 = (r, s2) \<and> residual_steps cf ef s2 s)"
proof -
  have "latest_accepted q None (si_outcomes i) = Some (pe_guard_attempt pe, pe_completed_at pe)"
    using assms(3) by (auto simp: query_evidence_def Let_def split: option.splits prod.splits if_splits)
  from latest_accepted_source [OF this] obtain e where e: "e \<in> set (si_outcomes i)" "eq_covers q (oe_action e)"
    "oe_accepted e = Some (CurrentRun (pe_guard_attempt pe) (pe_completed_at pe))" "pe_completed_at pe < at_cursor (eq_attempt q)"
    "pe_guard_attempt pe \<noteq> at_id (eq_attempt q)" by auto
  then have "evidence_in s c (pe_guard_attempt pe) (pe_completed_at pe)" using assms(2) by (auto simp: evidence_in_def)
  from steps_evidence [OF assms(1) this] obtain s1 tag a v span r s2 where grant:
    "residual_steps cf ef run_default s1" "rr_attempts s1 tag = Some a" "\<not> ra_completed a" "ra_id a = pe_guard_attempt pe"
    "outcome_of a (v :: unit interp_value) = OutcomeAccepted" "complete_residual_attempt tag v span s1 = (r, s2)"
    "residual_steps cf ef s2 s" by blast
  have "ra_decision a \<longrightarrow> ra_trusted a = Some True \<and> v = Bool True"
    using grant(5) by (auto simp: outcome_of_def split: option.splits bool.splits interp_value.splits if_splits)
  with e grant show ?thesis by blast
qed

lemma sample_completed:
  "\<exists>(s2 :: (nat, nat, nat) residual_run) i. residual_steps sample_facts sample_effects run_default s2 \<and> rr_scopes s2 0 = Some i \<and>
    si_outcomes i = [\<lparr>oe_action = 7, oe_accepted = Some (CurrentRun (identity_bytes attempt_kind 1) 2), oe_rejected = None\<rparr>]"
proof -
  obtain s1 perform' a i where obs: "observe_residual_attempt sample_facts sample_effects 20 sample_perform sample_inside = (Ok perform', s1)"
    "rr_attempts s1 1 = Some a" "ra_scopes a = [\<lparr>ob_cell = 0, ob_action = 7, ob_version = 1\<rparr>]"
    "\<not> ra_decision a" "\<not> ra_completed a" "ra_id a = identity_bytes attempt_kind 1" "rr_scopes s1 0 = Some i" "is_active i"
    "si_version i = 1" "si_outcomes i = []" "si_last_cursor i = Some 1" "si_limits i = state_limits_default"
    "si_pending i = [\<lparr>pn_attempt = identity_bytes attempt_kind 1, pn_action = 7\<rparr>]" "rr_next_cursor s1 = 1"
    using sample_observe_eq by blast
  have "\<exists>s2 i2. complete_residual_attempt 1 (Bool True :: unit interp_value) 12 s1 = (Ok (), s2) \<and> rr_scopes s2 0 = Some i2 \<and>
      si_outcomes i2 = [\<lparr>oe_action = 7, oe_accepted = Some (CurrentRun (identity_bytes attempt_kind 1) 2), oe_rejected = None\<rparr>]"
    using obs(2-14)
    by (simp add: complete_residual_attempt_def complete_attempt_def sample_prog next_cursor_def checked_incr_def attempt_at_def
        put_attempt_def outcome_of_def on_scope_result_def on_scope_def scope_at_def record_outcome_def validate_next_cursor_def
        state_limits_default_def put_scope_def put_status_def Let_def)
  then obtain s2 i2 where ended: "complete_residual_attempt 1 (Bool True :: unit interp_value) 12 s1 = (Ok (), s2)"
    "rr_scopes s2 0 = Some i2"
    "si_outcomes i2 = [\<lparr>oe_action = 7, oe_accepted = Some (CurrentRun (identity_bytes attempt_kind 1) 2), oe_rejected = None\<rparr>]" by blast
  have "residual_steps sample_facts sample_effects run_default s1"
    using sample_inside_reached step_observe [OF obs(1)] by (rule rtranclp.rtrancl_into_rtrancl)
  then have "residual_steps sample_facts sample_effects run_default s2"
    using step_complete [OF ended(1)] by (rule rtranclp.rtrancl_into_rtrancl)
  with ended show ?thesis by blast
qed

definition sample_query :: evidence_query where
  "sample_query = \<lparr>eq_attempt = \<lparr>at_scope = 1, at_activation = 2, at_revision = 4, at_invocation = identity_bytes invocation_kind 1,
     at_id = identity_bytes attempt_kind 2, at_cursor = 3, at_action = 8, at_bindings = 0\<rparr>, eq_covers = (\<lambda>a. a = 7), eq_guard = 0,
     eq_target = 0\<rparr>"

theorem accepted_evidence_was_granted_witness:
  "\<exists>(s :: (nat, nat, nat) residual_run) i pe. rr_scopes s 0 = Some i \<and> query_evidence i sample_query = EvidenceAccepted pe \<and>
    pe_guard_attempt pe \<noteq> identity_bytes attempt_kind 2 \<and>
    (\<exists>s1 tag a v span r s2. residual_steps sample_facts sample_effects run_default s1 \<and> rr_attempts s1 tag = Some a \<and>
      ra_id a = pe_guard_attempt pe \<and>
      complete_residual_attempt tag (v :: unit interp_value) span s1 = (r, s2) \<and> residual_steps sample_facts sample_effects s2 s)"
proof -
  obtain s :: "(nat, nat, nat) residual_run" and i where s: "residual_steps sample_facts sample_effects run_default s" "rr_scopes s 0 = Some i"
    "si_outcomes i = [\<lparr>oe_action = 7, oe_accepted = Some (CurrentRun (identity_bytes attempt_kind 1) 2), oe_rejected = None\<rparr>]"
    using sample_completed by blast
  have "identity_bytes attempt_kind 1 \<noteq> identity_bytes attempt_kind 2" by (simp add: identity_bytes_inject)
  then have "\<exists>pe. query_evidence i sample_query = EvidenceAccepted pe"
    using s(3) by (simp add: query_evidence_def sample_query_def)
  then obtain pe where pe: "query_evidence i sample_query = EvidenceAccepted pe" by blast
  have id: "at_id (eq_attempt sample_query) = identity_bytes attempt_kind 2" by (simp add: sample_query_def)
  from accepted_evidence_was_granted [OF s(1,2) pe] show ?thesis
    unfolding id using s(2) pe by blast
qed

end
