(* ===== verification/Residual_End.thy ===== *)
theory Residual_End
  imports Residual_Properties
begin

text \<open>
  The end of a run (\<open>driver/residual_exit.rs\<close>): no residual scope is forgotten. The ledger of a run
  says that every active scope is in the index and every unsatisfied exit has left its mark in the
  log, and every operation keeps it.
\<close>

section \<open>The ledger\<close>





text \<open>A step is discreet when it leaves the log and the scopes that have exited as they are.\<close>

definition still :: "('s, 'd, 't) scope_instance \<Rightarrow> ('s, 'd, 't) scope_instance \<Rightarrow> bool" where
  "still i i' \<longleftrightarrow> si_exit i' = si_exit i \<and> (\<not> is_active i \<longrightarrow> core i' = core i)"


lemma still_refl [simp]: "still i i"
  by (simp add: still_def)








section \<open>Discreet operations\<close>









section \<open>Exits, drops and activations\<close>

lemma combine_result_accepting: "combine_result a b = Accepting \<longleftrightarrow> a = Accepting \<and> b = Accepting"
  by (cases a; cases b) (simp_all add: combine_result_def)














section \<open>The ledger of a run\<close>




section \<open>Finishing\<close>









end
