(* ===== verification/Residual_Checkpoint.thy ===== *)
theory Residual_Checkpoint
  imports Residual_Properties
begin

text \<open>
  Checkpoints of the residual monitors: the tables of scopes and attempts that a capture builds
  (\<open>eval/machine/snapshot/capture_context.rs\<close>), the saved attempts (\<open>control/residual/permit.rs\<close>),
  the validation of a saved table (\<open>orchestration/residual.rs\<close>, \<open>eval/machine/snapshot/validator.rs\<close>)
  and restoring it into a new run (\<open>eval/machine/state.rs\<close>).
\<close>

section \<open>Saved form\<close>

record observed_snapshot =
  ov_scope :: nat
  ov_action :: nat
  ov_version :: nat

record attempt_snapshot =
  av_id :: identity
  av_cursor :: nat
  av_scopes :: "observed_snapshot list"
  av_dispatched :: bool
  av_completed :: bool

record 't machine_snapshot =
  ms_next_cursor :: nat
  ms_next_attempt :: nat
  ms_next_invocation :: nat
  ms_scopes :: "'t scope_snapshot list"
  ms_attempts :: "attempt_snapshot list"
  ms_exits :: exit_log_snapshot

definition no_exits :: exit_log_snapshot where
  "no_exits = \<lparr>ls_unsatisfied = 0, ls_omitted = 0, ls_records = []\<rparr>"

definition snapshot_is_empty :: "'t machine_snapshot \<Rightarrow> bool" where
  "snapshot_is_empty self \<longleftrightarrow> ms_scopes self = [] \<and> ms_attempts self = [] \<and> ls_unsatisfied (ms_exits self) = 0"

section \<open>Validation\<close>








section \<open>Capture\<close>













section \<open>Restoring\<close>

text \<open>One observing scope of a saved attempt; the result carries the approval identity found so far.\<close>

definition restore_observed ::
  "checked_facts \<Rightarrow> ('s, 'd, 't) residual_run \<Rightarrow> nat list \<Rightarrow> attempt_snapshot \<Rightarrow> observed_scope list \<times> bool option
    \<Rightarrow> observed_snapshot \<Rightarrow> string + observed_scope list \<times> bool option"
where
  "restore_observed cf s cells saved acc scope =
     (case acc of (observed, decision) \<Rightarrow>
        rbind (if ov_scope scope < length cells then Ok (cells ! ov_scope scope)
               else Err ''residual checkpoint attempt names an unknown scope'') (\<lambda>cell.
        if cell \<in> set (map ob_cell observed) then Err ''residual checkpoint attempt repeats an observing scope''
        else
          rbind (scope_at cell s) (\<lambda>i.
          rbind (validate_saved_action cf i (ov_action scope)) (\<lambda>_.
          let current = is_approval cf (si_prepared i) (ov_action scope) in
          if decision \<noteq> None \<and> decision \<noteq> Some current
          then Err ''checkpoint action projections disagree on approval identity''
          else
            let pending = pending_action i (av_id saved) in
            if pending \<noteq> None \<and> pending \<noteq> Some (ov_action scope)
            then Err ''residual checkpoint attempt disagrees with its pending action identity''
            else if (pending \<noteq> None) = av_completed saved
            then Err ''residual checkpoint attempt disagrees with its scope outcome''
            else if ov_version scope > si_version i
            then Err ''residual checkpoint attempt postdates its scope state''
            else Ok (observed @ [\<lparr>ob_cell = cell, ob_action = ov_action scope, ob_version = ov_version scope\<rparr>], Some current)))))"

fun restore_observing ::
  "checked_facts \<Rightarrow> ('s, 'd, 't) residual_run \<Rightarrow> nat list \<Rightarrow> attempt_snapshot \<Rightarrow> observed_scope list \<times> bool option
    \<Rightarrow> observed_snapshot list \<Rightarrow> string + observed_scope list \<times> bool option"
where
  "restore_observing cf s cells saved acc [] = Ok acc"
| "restore_observing cf s cells saved acc (scope # scopes) =
     rbind (restore_observed cf s cells saved acc scope) (\<lambda>acc. restore_observing cf s cells saved acc scopes)"

definition restore_attempt ::
  "checked_facts \<Rightarrow> nat list \<Rightarrow> attempt_snapshot \<Rightarrow> ('s, 'd, 't) residual_run \<Rightarrow> string + residual_attempt"
where
  "restore_attempt cf cells saved s =
     (if \<not> av_dispatched saved
      then Err ''checkpoint has an undispatched residual permit with no safe authorization point''
      else
        rbind (restore_observing cf s cells saved ([], None) (av_scopes saved)) (\<lambda>(observed, decision).
        rbind (ok_or decision ''checkpoint residual attempt has no observing scope'') (\<lambda>decision.
        Ok ((attempt_new (av_id saved) (av_cursor saved) observed decision)
          \<lparr>ra_dispatched := av_dispatched saved, ra_completed := av_completed saved\<rparr>))))"

text \<open>The scopes restored so far are dropped when a later one fails.\<close>

definition or_drop_all ::
  "nat list \<Rightarrow> (string, ('s, 'd, 't) residual_run, 'a) prog \<Rightarrow> (string, ('s, 'd, 't) residual_run, 'a) prog"
where
  "or_drop_all cells m s = (case m s of (Inl e, s') \<Rightarrow> (Err e, fold drop_scope cells s') | (Inr x, s') \<Rightarrow> (Ok x, s'))"

definition restore_one_scope ::
  "checked_facts \<Rightarrow> ('s, 'd, 't) prepared_plans \<Rightarrow> nat \<Rightarrow> identity list \<Rightarrow> 't scope_snapshot
    \<Rightarrow> (string, ('s, 'd, 't) residual_run, nat \<times> nat) prog"
where
  "restore_one_scope cf prepared checked invocations scope =
     pbind (pread (\<lambda>s. Ok (rr_limits s))) (\<lambda>limits.
     pbind (check_activation_capacity (sl_active_scopes limits)) (\<lambda>_.
     pbind (pread (\<lambda>_. ok_or (prepared (ss_item scope))
       ''checkpoint residual scope has no installed plan in the recompiled program'')) (\<lambda>plan.
     if ss_invocation scope \<in> set invocations
     then pfail ''checkpoint residual scopes share an invocation identity''
     else
       pbind (pread (\<lambda>_. restore_scope cf scope plan checked limits)) (\<lambda>i.
       pbind (new_scope i) (\<lambda>cell.
       pbind (or_drop cell (register cell (sl_active_scopes limits))) (\<lambda>_. pret (cell, cursor_floor i)))))))"

fun restore_scopes ::
  "checked_facts \<Rightarrow> ('s, 'd, 't) prepared_plans \<Rightarrow> nat \<Rightarrow> identity list \<Rightarrow> nat list \<Rightarrow> nat \<Rightarrow> 't scope_snapshot list
    \<Rightarrow> (string, ('s, 'd, 't) residual_run, nat list \<times> nat) prog"
where
  "restore_scopes cf prepared checked invocations cells highest [] = pret (cells, highest)"
| "restore_scopes cf prepared checked invocations cells highest (scope # scopes) =
     pbind (or_drop_all cells (restore_one_scope cf prepared checked invocations scope)) (\<lambda>(cell, floor_of).
     restore_scopes cf prepared checked (ss_invocation scope # invocations) (cells @ [cell]) (max highest floor_of) scopes)"

fun restore_attempts ::
  "checked_facts \<Rightarrow> nat list \<Rightarrow> identity list \<Rightarrow> nat list \<Rightarrow> nat \<Rightarrow> attempt_snapshot list
    \<Rightarrow> (string, ('s, 'd, 't) residual_run, nat list \<times> nat) prog"
where
  "restore_attempts cf cells seen tags highest [] = pret (tags, highest)"
| "restore_attempts cf cells seen tags highest (saved # rest) =
     (if av_id saved \<in> set seen then pfail ''checkpoint residual attempts share an identity''
      else
        pbind (pread (restore_attempt cf cells saved)) (\<lambda>a.
        pbind (new_attempt a) (\<lambda>tag.
        restore_attempts cf cells (av_id saved # seen) (tags @ [tag]) (max highest (av_cursor saved)) rest)))"

definition restore_log ::
  "checked_facts \<Rightarrow> nat \<Rightarrow> ('s, 'd, 't) prepared_plans \<Rightarrow> exit_log_snapshot \<Rightarrow> (string, ('s, 'd, 't) residual_run, unit) prog"
where
  "restore_log cf checked prepared saved =
     pbind (pread (\<lambda>s. restore_history cf checked prepared saved (rr_log s))) (\<lambda>log. pupd (\<lambda>s. s\<lparr>rr_log := log\<rparr>))"

text \<open>A failure after the scopes are restored drops the attempts, then the scopes.\<close>

definition drop_attempts_from :: "nat \<Rightarrow> ('s, 'd, 't) residual_run \<Rightarrow> ('s, 'd, 't) residual_run" where
  "drop_attempts_from first s = s\<lparr>rr_attempts := (\<lambda>t. if t < first then rr_attempts s t else None)\<rparr>"

definition restore_tables ::
  "checked_facts \<Rightarrow> 't machine_snapshot \<Rightarrow> nat list \<times> nat \<Rightarrow> (string, ('s, 'd, 't) residual_run, nat list \<times> nat list) prog"
where
  "restore_tables cf snapshot restored s =
     (case restored of (cells, highest) \<Rightarrow>
        (case pbind (restore_attempts cf cells [] [] highest (ms_attempts snapshot)) (\<lambda>(tags, highest).
              if ms_next_cursor snapshot < highest
              then pfail ''checkpoint residual cursor would reuse a recorded event''
              else pret (cells, tags)) s of
           (Inl e, s') \<Rightarrow> (Err e, fold drop_scope cells (drop_attempts_from (rr_next_cell s) s'))
         | (Inr x, s') \<Rightarrow> (Ok x, s')))"

definition restore_residual_state ::
  "checked_facts \<Rightarrow> 't machine_snapshot \<Rightarrow> nat \<Rightarrow> ('s, 'd, 't) prepared_plans option
    \<Rightarrow> (string, ('s, 'd, 't) residual_run, (nat list \<times> nat list) option) prog"
where
  "restore_residual_state cf snapshot checked input =
     (if snapshot_is_empty snapshot then pret None
      else
        pbind (pread (\<lambda>_. ok_or input ''checkpoint carries residual monitor state but no prepared plans'')) (\<lambda>prepared.
        pbind (restore_log cf checked prepared (ms_exits snapshot)) (\<lambda>_.
        pbind (restore_scopes cf prepared checked [] [] 0 (ms_scopes snapshot)) (\<lambda>restored.
        pbind (restore_tables cf snapshot restored) (\<lambda>tables. pret (Some tables))))))"

section \<open>What a restored checkpoint cannot do\<close>

text \<open>Accepted outcomes of approval actions are historical.\<close>

definition historic :: "checked_facts \<Rightarrow> ('s, 'd, 't) scope_instance \<Rightarrow> bool" where
  "historic cf i \<longleftrightarrow> (\<forall>e \<in> set (si_outcomes i). is_approval cf (si_prepared i) (oe_action e) \<longrightarrow>
     Option.bind (oe_accepted e) outcome_current = None)"

lemma pbind_Ok: "pbind m f s = (Ok y, s') \<longleftrightarrow> (\<exists>x s1. m s = (Ok x, s1) \<and> f x s1 = (Ok y, s'))"
  by (auto simp: pbind_def split: prod.splits sum.splits)

lemma restore_outcomes_historic:
  "restore_outcomes cf bound i saved = Ok i' \<Longrightarrow> historic cf i \<Longrightarrow> historic cf i' \<and> si_prepared i' = si_prepared i"
proof (induction saved arbitrary: i)
  case (Cons x saved)
  let ?i = "i\<lparr>si_outcomes := si_outcomes i @ [\<lparr>oe_action = os_action x,
    oe_accepted = map_option (restore_accepted cf (si_prepared i) (os_action x)) (os_accepted x),
    oe_rejected = map_option (\<lambda>st. case st of SnapDenied \<Rightarrow> OutcomeDenied | SnapFailed \<Rightarrow> OutcomeFailed) (os_rejected x)\<rparr>]\<rparr>"
  have rest: "restore_outcomes cf bound ?i saved = Ok i'" using Cons.prems(1) by (auto split: if_splits)
  have "historic cf ?i"
    using Cons.prems(2) by (cases "os_accepted x") (auto simp: historic_def restore_accepted_def)
  from Cons.IH [OF rest this] show ?case by simp
qed simp

lemma restore_pending_keeps:
  "restore_pending cf i saved = Ok i' \<Longrightarrow> si_outcomes i' = si_outcomes i \<and> si_prepared i' = si_prepared i"
  by (induction saved arbitrary: i) (fastforce split: if_splits)+

lemma restore_scope_historic:
  assumes "restore_scope cf saved prepared program limits = Ok i"
  shows "historic cf i"
proof -
  obtain i0 i1 i2 where i: "restore_outcomes cf (ss_last_cursor saved) i0 (ss_outcomes saved) = Ok i1" "si_outcomes i0 = []"
    "restore_pending cf i1 (ss_pending saved) = Ok i2" "i = i2\<lparr>si_exit := restore_exit (ss_exit saved)\<rparr>"
    using assms by (fastforce simp: restore_scope_def split: if_splits)
  have "historic cf i1" using restore_outcomes_historic [OF i(1)] i(2) by (simp add: historic_def)
  then show ?thesis using restore_pending_keeps [OF i(3)] i(4) by (simp add: historic_def)
qed

definition scope_restored :: "checked_facts \<Rightarrow> ('s, 'd, 't) residual_run \<Rightarrow> nat \<Rightarrow> bool" where
  "scope_restored cf s c \<longleftrightarrow> c < rr_next_cell s \<and> (\<exists>i. rr_scopes s c = Some i \<and> historic cf i)"

definition attempt_restored :: "('s, 'd, 't) residual_run \<Rightarrow> nat \<Rightarrow> bool" where
  "attempt_restored s t \<longleftrightarrow> t < rr_next_cell s \<and> (\<exists>a. rr_attempts s t = Some a \<and> ra_dispatched a \<and> ra_trusted a = None)"

lemma check_capacity_state:
  "check_activation_capacity n s = (r, s') \<Longrightarrow> rr_scopes s' = rr_scopes s \<and> rr_next_cell s' = rr_next_cell s \<and> rr_attempts s' = rr_attempts s"
  by (auto simp: check_activation_capacity_def set_index_def Let_def)

lemma register_state:
  "register c n s = (r, s') \<Longrightarrow> rr_scopes s' = rr_scopes s \<and> rr_next_cell s' = rr_next_cell s \<and> rr_attempts s' = rr_attempts s"
  by (auto simp: register_def pbind_def pread_def pfail_def pupd_def check_activation_capacity_def set_index_def Let_def
      split: sum.splits if_splits)

lemma restore_one_scope_Ok:
  assumes "restore_one_scope cf prepared checked invocations scope s = (Ok (c, k), s')"
  obtains i where "c = rr_next_cell s" "rr_next_cell s' = rr_next_cell s + 1" "rr_scopes s' = (rr_scopes s)(c \<mapsto> i)"
    "rr_attempts s' = rr_attempts s" "historic cf i" "k = cursor_floor i"
proof -
  obtain s1 plan i s2 where run: "check_activation_capacity (sl_active_scopes (rr_limits s)) s = (Ok (), s1)"
    "restore_scope cf scope plan checked (rr_limits s) = Ok i" "new_scope i s1 = (Ok c, s2)"
    "or_drop c (register c (sl_active_scopes (rr_limits s))) s2 = (Ok (), s')" "k = cursor_floor i"
    using assms by (auto simp: restore_one_scope_def pbind_Ok pread_def pfail_def pret_def split: if_splits)
  have reg: "register c (sl_active_scopes (rr_limits s)) s2 = (Ok (), s')"
    using run(4) by (auto simp: or_drop_def split: prod.splits sum.splits)
  show ?thesis
    using that [of i] check_capacity_state [OF run(1)] register_state [OF reg] restore_scope_historic [OF run(2)] run(3,5)
    by (auto simp: new_scope_def put_scope_def)
qed

lemma restore_scopes_Ok:
  assumes "restore_scopes cf prepared checked invocations cells highest scopes s = (Ok (cells', highest'), s')"
    and "\<forall>c \<in> set cells. scope_restored cf s c"
  shows "\<forall>c \<in> set cells'. scope_restored cf s' c"
  using assms
proof (induction scopes arbitrary: invocations cells highest s)
  case Nil
  then show ?case by (simp add: pret_def)
next
  case (Cons scope scopes)
  obtain c k s1 where one: "or_drop_all cells (restore_one_scope cf prepared checked invocations scope) s = (Ok (c, k), s1)"
    and rest: "restore_scopes cf prepared checked (ss_invocation scope # invocations) (cells @ [c]) (max highest k) scopes s1 =
      (Ok (cells', highest'), s')"
    using Cons.prems(1) by (auto simp: pbind_Ok)
  have "restore_one_scope cf prepared checked invocations scope s = (Ok (c, k), s1)"
    using one by (auto simp: or_drop_all_def split: prod.splits sum.splits)
  then obtain i where i: "c = rr_next_cell s" "rr_next_cell s1 = rr_next_cell s + 1" "rr_scopes s1 = (rr_scopes s)(c \<mapsto> i)"
    "historic cf i" by (rule restore_one_scope_Ok)
  have "\<forall>x \<in> set (cells @ [c]). scope_restored cf s1 x" using Cons.prems(2) i by (auto simp: scope_restored_def)
  from Cons.IH [OF rest this] show ?case .
qed

lemma restore_attempt_Ok: "restore_attempt cf cells saved s = Ok a \<Longrightarrow> ra_dispatched a \<and> ra_trusted a = None"
  by (auto simp: restore_attempt_def attempt_new_def split: if_splits)

lemma restore_attempts_Ok:
  assumes "restore_attempts cf cells seen tags highest saved s = (Ok (tags', highest'), s')"
    and "\<forall>t \<in> set tags. attempt_restored s t"
  shows "(\<forall>t \<in> set tags'. attempt_restored s' t) \<and> rr_scopes s' = rr_scopes s \<and> rr_next_cell s \<le> rr_next_cell s'"
  using assms
proof (induction saved arbitrary: seen tags highest s)
  case Nil
  then show ?case by (simp add: pret_def)
next
  case (Cons x saved)
  obtain a t s1 where one: "restore_attempt cf cells x s = Ok a" "new_attempt a s = (Ok t :: string + nat, s1)"
    and rest: "restore_attempts cf cells (av_id x # seen) (tags @ [t]) (max highest (av_cursor x)) saved s1 = (Ok (tags', highest'), s')"
    using Cons.prems(1) by (simp add: pbind_Ok pread_def pfail_def split: if_splits) blast
  have s1: "t = rr_next_cell s" "rr_next_cell s1 = rr_next_cell s + 1" "rr_attempts s1 = (rr_attempts s)(t \<mapsto> a)"
    "rr_scopes s1 = rr_scopes s" using one(2) by (auto simp: new_attempt_def put_attempt_def)
  have "\<forall>x \<in> set (tags @ [t]). attempt_restored s1 x"
    using Cons.prems(2) s1 restore_attempt_Ok [OF one(1)] by (auto simp: attempt_restored_def)
  from Cons.IH [OF rest this] s1 show ?case by auto
qed

lemma restore_tables_Ok:
  assumes "restore_tables cf snapshot restored s = (Ok (cells, tags), s')"
  shows "\<exists>highest highest'. restored = (cells, highest) \<and> highest' \<le> ms_next_cursor snapshot \<and>
    restore_attempts cf cells [] [] highest (ms_attempts snapshot) s = (Ok (tags, highest'), s')"
proof -
  obtain cells0 highest where restored: "restored = (cells0, highest)" by (cases restored)
  obtain r s1 where m: "restore_attempts cf cells0 [] [] highest (ms_attempts snapshot) s = (r, s1)"
    by (cases "restore_attempts cf cells0 [] [] highest (ms_attempts snapshot) s")
  show ?thesis
    using assms m by (auto simp: restore_tables_def restored pbind_def pret_def pfail_def split: sum.splits if_splits prod.splits)
qed

lemma restore_residual_state_Ok:
  assumes "restore_residual_state cf snapshot checked input s = (Ok (Some (cells, tags)), s')"
  shows "(\<forall>c \<in> set cells. scope_restored cf s' c) \<and> (\<forall>t \<in> set tags. attempt_restored s' t)"
proof -
  from assms have "\<not> snapshot_is_empty snapshot" by (auto simp: restore_residual_state_def pret_def)
  with assms obtain prepared s1 restored s2 where run:
    "restore_scopes cf prepared checked [] [] 0 (ms_scopes snapshot) s1 = (Ok restored, s2)"
    "restore_tables cf snapshot restored s2 = (Ok (cells, tags), s')"
    by (simp add: restore_residual_state_def pbind_Ok pret_def) blast
  obtain highest highest' where restored: "restored = (cells, highest)"
    and att: "restore_attempts cf cells [] [] highest (ms_attempts snapshot) s2 = (Ok (tags, highest'), s')"
    using restore_tables_Ok [OF run(2)] by blast
  have "\<forall>c \<in> set cells. scope_restored cf s2 c" by (rule restore_scopes_Ok [OF run(1) [unfolded restored]]) simp
  moreover have "(\<forall>t \<in> set tags. attempt_restored s' t) \<and> rr_scopes s' = rr_scopes s2 \<and> rr_next_cell s2 \<le> rr_next_cell s'"
    by (rule restore_attempts_Ok [OF att]) simp
  ultimately show ?thesis by (auto simp: scope_restored_def)
qed

text \<open>\<^bold>\<open>C7\<close>. A checkpoint grants no authority. Whatever a saved table contains, after it has been
  restored successfully: the dispatch permit of every restored attempt is refused; a restored
  attempt of a decision is not accepted by any delivered value, since no trusted approval of the
  new run stands behind it; and no restored scope answers a query whose guard covers approvals only
  with accepted evidence.\<close>

theorem restored_checkpoint_grants_nothing:
  assumes "restore_residual_state cf snapshot checked input s = (Ok (Some (cells, tags)), s')"
  shows "(\<forall>tag \<in> set tags. \<exists>a. rr_attempts s' tag = Some a \<and> (\<exists>e. fst (consume_permit tag s') = Err e) \<and>
      (ra_decision a \<longrightarrow> outcome_of a (v :: 'x interp_value) \<noteq> OutcomeAccepted)) \<and>
    (\<forall>c \<in> set cells. \<exists>i. rr_scopes s' c = Some i \<and> (\<forall>q pe. (\<forall>action. eq_covers q action \<longrightarrow> is_approval cf (si_prepared i) action) \<longrightarrow>
      query_evidence i q \<noteq> EvidenceAccepted pe))"
proof (intro conjI ballI)
  note ok = restore_residual_state_Ok [OF assms]
  fix tag assume "tag \<in> set tags"
  then obtain a where a: "rr_attempts s' tag = Some a" "ra_dispatched a" "ra_trusted a = None"
    using ok by (auto simp: attempt_restored_def)
  have "\<exists>e. fst (consume_permit tag s') = Err e"
    using a by (simp add: consume_permit_def pbind_def pread_def attempt_at_def pupd_def pfail_def)
  moreover have "outcome_of a v \<noteq> OutcomeAccepted" if "ra_decision a" using that a(3) by (simp add: outcome_of_def)
  ultimately show "\<exists>a. rr_attempts s' tag = Some a \<and> (\<exists>e. fst (consume_permit tag s') = Err e) \<and>
      (ra_decision a \<longrightarrow> outcome_of a v \<noteq> OutcomeAccepted)" using a(1) by blast
next
  note ok = restore_residual_state_Ok [OF assms]
  fix c assume "c \<in> set cells"
  then obtain i where i: "rr_scopes s' c = Some i" "historic cf i" using ok by (auto simp: scope_restored_def)
  have "query_evidence i q \<noteq> EvidenceAccepted pe" if covers: "\<forall>action. eq_covers q action \<longrightarrow> is_approval cf (si_prepared i) action" for q pe
  proof
    assume "query_evidence i q = EvidenceAccepted pe"
    then obtain x k where "latest_accepted q None (si_outcomes i) = Some (x, k)"
      by (auto simp: query_evidence_def Let_def split: option.splits prod.splits if_splits)
    from latest_accepted_source [OF this] obtain e where "e \<in> set (si_outcomes i)" "eq_covers q (oe_action e)"
      "oe_accepted e = Some (CurrentRun x k)" by blast
    then show False using covers i(2) by (auto simp: historic_def)
  qed
  then show "\<exists>i. rr_scopes s' c = Some i \<and> (\<forall>q pe. (\<forall>action. eq_covers q action \<longrightarrow> is_approval cf (si_prepared i) action) \<longrightarrow>
      query_evidence i q \<noteq> EvidenceAccepted pe)" using i(1) by blast
qed

text \<open>A saved scope with an accepted approval and one outstanding approval.\<close>

definition sample_saved :: "nat machine_snapshot" where
  "sample_saved =
     \<lparr>ms_next_cursor = 3, ms_next_attempt = 2, ms_next_invocation = 1,
      ms_scopes = [\<lparr>ss_item = 3, ss_application = 6, ss_revision = 4, ss_invocation = identity_bytes invocation_kind 1,
        ss_version = 3, ss_last_cursor = Some 3, ss_states = [2],
        ss_outcomes = [\<lparr>os_action = 8, os_accepted = Some \<lparr>vs_attempt = identity_bytes attempt_kind 1, vs_completed_at = 2\<rparr>,
          os_rejected = None\<rparr>],
        ss_pending = [\<lparr>np_attempt = identity_bytes attempt_kind 2, np_action = 8\<rparr>], ss_exit = None\<rparr>],
      ms_attempts = [\<lparr>av_id = identity_bytes attempt_kind 2, av_cursor = 3,
        av_scopes = [\<lparr>ov_scope = 0, ov_action = 8, ov_version = 3\<rparr>], av_dispatched = True, av_completed = False\<rparr>],
      ms_exits = no_exits\<rparr>"

lemma sample_restore:
  "\<exists>s'. restore_residual_state sample_facts sample_saved 20 (Some (\<lambda>_. Some sample_prepared)) run_default =
    (Ok (Some ([0], [1])), s') \<and> (\<exists>i. rr_scopes s' 0 = Some i \<and> is_approval sample_facts (si_prepared i) = (\<lambda>a. a = 8))"
  by (simp add: restore_residual_state_def snapshot_is_empty_def sample_saved_def sample_prog restore_log_def restore_history_def
      no_exits_def or_drop_all_def restore_one_scope_def check_activation_capacity_def restore_scope_def specialized_def
      validate_component_budget_def own_obligations_def restore_state_def with_context_def cursor_after_def validate_saved_action_def
      restore_accepted_def is_approval_def new_scope_def or_drop_def register_def scope_at_def put_scope_def set_index_def
      restore_tables_def restore_attempt_def restore_observed_def pending_action_def new_attempt_def put_attempt_def
      live_active_def run_default_def log_new_def state_limits_default_def sample_facts_def sample_prepared_def
      sample_application_def sample_plan_def cursor_floor_def attempt_new_def restore_exit_def fun_eq_iff)

theorem restored_checkpoint_grants_nothing_witness:
  "\<exists>(s' :: (nat, nat, nat) residual_run) a i pe. rr_attempts s' 1 = Some a \<and> (\<exists>e. fst (consume_permit 1 s') = Err e) \<and>
    rr_scopes s' 0 = Some i \<and> query_evidence i (sample_query\<lparr>eq_covers := \<lambda>action. action = 8\<rparr>) \<noteq> EvidenceAccepted pe"
proof -
  obtain s' i where restored: "restore_residual_state sample_facts sample_saved 20 (Some (\<lambda>_. Some sample_prepared)) run_default =
    (Ok (Some ([0], [1])), s')" "rr_scopes s' 0 = Some i" "is_approval sample_facts (si_prepared i) = (\<lambda>a. a = 8)"
    using sample_restore by blast
  let ?q = "sample_query\<lparr>eq_covers := \<lambda>action. action = 8\<rparr>"
  have all: "\<forall>action. eq_covers ?q action \<longrightarrow> is_approval sample_facts (si_prepared i) action"
    using fun_cong [OF restored(3)] by simp
  have "\<exists>a. rr_attempts s' 1 = Some a \<and> (\<exists>e. fst (consume_permit 1 s') = Err e)" "query_evidence i ?q \<noteq> EvidenceAccepted pe" for pe
    using restored_checkpoint_grants_nothing [OF restored(1), of "Bool True :: unit interp_value"] restored(2) all by auto
  with restored(2) show ?thesis by blast
qed

section \<open>A captured run is a valid checkpoint\<close>



















section \<open>A saved scope restores\<close>

text \<open>A resumed scope: labels are computed again, and accepted approvals have become history.\<close>

definition resumed_entry :: "checked_facts \<Rightarrow> ('s, 'd, 't) prepared_scope \<Rightarrow> outcome_entry \<Rightarrow> outcome_entry" where
  "resumed_entry cf prepared e =
     e\<lparr>oe_accepted := map_option (\<lambda>x. if is_approval cf prepared (oe_action e)
       then Historical (fst (outcome_history x)) (snd (outcome_history x))
       else CurrentRun (fst (outcome_history x)) (snd (outcome_history x))) (oe_accepted e)\<rparr>"


lemma resumed_entry_action [simp]: "oe_action (resumed_entry cf prepared e) = oe_action e"
  by (simp add: resumed_entry_def)









end
