(* ===== verification/Text_Rope.thy ===== *)
theory Text_Rope
  imports Value
begin

text \<open>
  The text of a string value, \<open>value/text.rs\<close> and \<open>value/text/\<close>: a shared rope whose concatenations
  are nodes with a cached length, a count of leaves and a cell that holds the flat text once it has
  been asked for. A \<open>String\<close> is its UTF-8 bytes.

  Whether a reference is the only one (\<open>Rc::get_mut\<close>, \<open>Rc::try_unwrap\<close>) and the capacity of a buffer
  decide only between reusing memory and copying. They are not part of a value: an operation that
  asks takes the answers as arguments, \<open>sole\<close> for the uniqueness of a reference and \<open>capacity\<close> for
  the capacity of a flat buffer, and the properties hold for every answer.
\<close>

section \<open>Representation\<close>

datatype repr =
    RepEmpty
  | RepFlat string
  | RepConcat (rc_prefix: repr) (rc_suffix: repr) (rc_length: nat) (rc_leaves: nat) (rc_materialized: "string option")

datatype text_error = TextCapacityExceeded

fun repr_leaves :: "repr \<Rightarrow> nat" where
  "repr_leaves (RepConcat _ _ _ leaves _) = leaves"
| "repr_leaves _ = 1"

fun repr_len :: "repr \<Rightarrow> nat" where
  "repr_len RepEmpty = 0"
| "repr_len (RepFlat text) = length text"
| "repr_len (RepConcat _ _ len _ _) = len"

definition text_is_empty :: "repr \<Rightarrow> bool" where
  "text_is_empty self \<longleftrightarrow> repr_len self = 0"

definition isize_max :: nat where
  "isize_max = 2 ^ 63 - 1"

definition usize_checked_add :: "nat \<Rightarrow> nat \<Rightarrow> nat option" where
  "usize_checked_add a b = (if a + b < 2 ^ 64 then Some (a + b) else None)"

section \<open>Leaves\<close>

text \<open>\<open>TextLeaves\<close>: the next node inline, the other pending ones on a stack.\<close>

record text_leaves =
  tl_next :: "repr option"
  tl_pending :: "repr list"

definition leaves_new :: "repr \<Rightarrow> text_leaves" where
  "leaves_new r = \<lparr>tl_next = Some r, tl_pending = []\<rparr>"

definition leaves_take :: "text_leaves \<Rightarrow> (repr \<times> text_leaves) option" where
  "leaves_take self =
     (case tl_next self of
        Some r \<Rightarrow> Some (r, self\<lparr>tl_next := None\<rparr>)
      | None \<Rightarrow> (case tl_pending self of [] \<Rightarrow> None | r # rest \<Rightarrow> Some (r, self\<lparr>tl_pending := rest\<rparr>)))"

definition leaves_push :: "repr \<Rightarrow> text_leaves \<Rightarrow> text_leaves" where
  "leaves_push r self =
     (case tl_next self of
        None \<Rightarrow> self\<lparr>tl_next := Some r\<rparr>
      | Some sibling \<Rightarrow> self\<lparr>tl_next := Some r, tl_pending := sibling # tl_pending self\<rparr>)"

primrec leaves_descend :: "repr \<Rightarrow> text_leaves \<Rightarrow> string \<times> text_leaves" where
  "leaves_descend RepEmpty self = ('''', self)"
| "leaves_descend (RepFlat text) self = (text, self)"
| "leaves_descend (RepConcat prefix suffix len leaves materialized) self =
     (case materialized of
        Some text \<Rightarrow> (text, self)
      | None \<Rightarrow> leaves_descend prefix (leaves_push suffix self))"

definition leaves_next :: "text_leaves \<Rightarrow> (string \<times> text_leaves) option" where
  "leaves_next self = (case leaves_take self of None \<Rightarrow> None | Some (r, self) \<Rightarrow> Some (leaves_descend r self))"

definition leaves_seq :: "text_leaves \<Rightarrow> repr list" where
  "leaves_seq self = (case tl_next self of None \<Rightarrow> tl_pending self | Some r \<Rightarrow> r # tl_pending self)"

primrec nodes :: "repr \<Rightarrow> nat" where
  "nodes RepEmpty = 1"
| "nodes (RepFlat _) = 1"
| "nodes (RepConcat prefix suffix _ _ _) = nodes prefix + nodes suffix + 1"

abbreviation nodes_size :: "repr list \<Rightarrow> nat" where
  "nodes_size rs \<equiv> sum_list (map nodes rs)"

lemma leaves_push_seq [simp]: "leaves_seq (leaves_push r self) = r # leaves_seq self"
  by (simp add: leaves_push_def leaves_seq_def split: option.splits)

lemma leaves_take_seq: "leaves_take self = Some (r, self') \<Longrightarrow> leaves_seq self = r # leaves_seq self'"
  by (auto simp: leaves_take_def leaves_seq_def split: option.splits list.splits)

lemma leaves_take_None: "leaves_take self = None \<longleftrightarrow> leaves_seq self = []"
  by (auto simp: leaves_take_def leaves_seq_def split: option.splits list.splits)

lemma leaves_descend_size:
  "leaves_descend r self = (t, self') \<Longrightarrow> nodes_size (leaves_seq self') < nodes r + nodes_size (leaves_seq self)"
proof (induction r arbitrary: self)
  case (RepConcat prefix suffix len leaves materialized)
  then show ?case using RepConcat.IH(1) [of "leaves_push suffix self"] by (auto split: option.splits)
qed auto

text \<open>Consuming an iterator of leaves: every chunk is appended to the output.\<close>

function append_leaves :: "string \<Rightarrow> text_leaves \<Rightarrow> string" where
  "append_leaves output self =
     (case leaves_next self of None \<Rightarrow> output | Some (chunk, self) \<Rightarrow> append_leaves (output @ chunk) self)"
  by pat_completeness auto
termination
proof (relation "measure (\<lambda>(_, self). nodes_size (leaves_seq self))", goal_cases)
  case (2 out self p chunk self')
  then show ?case
    using leaves_descend_size leaves_take_seq by (fastforce simp: leaves_next_def split: option.splits prod.splits)
qed simp

section \<open>Flat text\<close>

definition append_to :: "repr \<Rightarrow> string \<Rightarrow> string" where
  "append_to node output =
     (case rc_materialized node of
        Some text \<Rightarrow> output @ text
      | None \<Rightarrow> append_leaves (append_leaves output (leaves_new (rc_prefix node))) (leaves_new (rc_suffix node)))"

text \<open>\<open>Repr::text\<close> fills the cell of a node that has none; the result is the text and the node.\<close>

definition repr_text :: "repr \<Rightarrow> string \<times> repr" where
  "repr_text self =
     (case self of
        RepEmpty \<Rightarrow> ('''', self)
      | RepFlat text \<Rightarrow> (text, self)
      | RepConcat prefix suffix len leaves materialized \<Rightarrow>
          (case materialized of
             Some text \<Rightarrow> (text, self)
           | None \<Rightarrow> (let text = append_to self '''' in (text, RepConcat prefix suffix len leaves (Some text)))))"

definition contiguous :: "repr \<Rightarrow> string option" where
  "contiguous self =
     (case self of RepEmpty \<Rightarrow> Some '''' | RepFlat text \<Rightarrow> Some text | RepConcat _ _ _ _ materialized \<Rightarrow> materialized)"

definition collapse_materialized :: "repr \<Rightarrow> repr" where
  "collapse_materialized self =
     (case self of RepConcat _ _ _ _ (Some text) \<Rightarrow> RepFlat text | _ \<Rightarrow> self)"

text \<open>Taking the buffer of a uniquely owned first leaf leaves an empty leaf behind.\<close>

fun take_unique_prefix :: "(repr \<Rightarrow> bool) \<Rightarrow> repr \<Rightarrow> string option \<times> repr" where
  "take_unique_prefix sole RepEmpty = (None, RepEmpty)"
| "take_unique_prefix sole (RepFlat text) =
     (if sole (RepFlat text) then (Some text, RepFlat '''') else (None, RepFlat text))"
| "take_unique_prefix sole (RepConcat prefix suffix len leaves materialized) =
     (if \<not> sole (RepConcat prefix suffix len leaves materialized) \<or> materialized \<noteq> None
      then (None, RepConcat prefix suffix len leaves materialized)
      else
        case take_unique_prefix sole prefix of
          (taken, prefix) \<Rightarrow> (taken, RepConcat prefix suffix len leaves materialized))"

text \<open>\<open>into_string\<close>: \<open>sole\<close> for the nodes, \<open>sole_text\<close> for the cached text of the root. The capacity
  that is reserved, \<open>length - output.len()\<close>, panics when it underflows.\<close>

definition into_string :: "(repr \<Rightarrow> bool) \<Rightarrow> bool \<Rightarrow> repr \<Rightarrow> string + string" where
  "into_string sole sole_text self =
     (case self of
        RepEmpty \<Rightarrow> Ok ''''
      | RepFlat text \<Rightarrow> Ok text
      | RepConcat prefix suffix len leaves materialized \<Rightarrow>
          if sole self \<and> materialized \<noteq> None \<and> sole_text then Ok (the materialized)
          else
            let (output, node) =
              (if materialized = None \<and> sole self then
                 (case take_unique_prefix sole prefix of
                    (taken, prefix) \<Rightarrow>
                      (case taken of None \<Rightarrow> '''' | Some text \<Rightarrow> text, RepConcat prefix suffix len leaves materialized))
               else ('''', self)) in
            if length output > len then Err ''panic: attempt to subtract with overflow''
            else Ok (append_to node output))"

section \<open>Concatenation\<close>

text \<open>Appending in place, when the buffer is flat, owned and large enough.\<close>

definition append_if_spare :: "bool \<Rightarrow> nat \<Rightarrow> repr \<Rightarrow> repr \<Rightarrow> string \<Rightarrow> nat \<Rightarrow> repr option" where
  "append_if_spare sole capacity self suffix separator len =
     (case self of
        RepFlat text \<Rightarrow>
          if capacity \<ge> len \<and> sole then Some (RepFlat (append_leaves (text @ separator) (leaves_new suffix))) else None
      | _ \<Rightarrow> None)"

definition text_concat :: "bool \<Rightarrow> nat \<Rightarrow> repr \<Rightarrow> repr \<Rightarrow> text_error + repr" where
  "text_concat sole capacity self suffix =
     (case usize_checked_add (repr_len self) (repr_len suffix) of
        None \<Rightarrow> Err TextCapacityExceeded
      | Some len \<Rightarrow>
          if len > isize_max then Err TextCapacityExceeded
          else if text_is_empty suffix then Ok self
          else
            let self = collapse_materialized self; suffix = collapse_materialized suffix in
            case append_if_spare sole capacity self suffix '''' len of
              Some self \<Rightarrow> Ok self
            | None \<Rightarrow>
                if text_is_empty self then Ok suffix
                else
                  (case usize_checked_add (repr_leaves self) (repr_leaves suffix) of
                     None \<Rightarrow> Err TextCapacityExceeded
                   | Some leaves \<Rightarrow> Ok (RepConcat self suffix len leaves None)))"

text \<open>The two concatenations at the end see buffers of their own.\<close>

definition concat_separated ::
  "bool \<Rightarrow> nat \<Rightarrow> bool \<times> nat \<Rightarrow> bool \<times> nat \<Rightarrow> repr \<Rightarrow> repr \<Rightarrow> string \<Rightarrow> text_error + repr"
where
  "concat_separated sole capacity buffer1 buffer2 self suffix separator =
     (case Option.bind (usize_checked_add (repr_len self) (length separator)) (\<lambda>n. usize_checked_add n (repr_len suffix)) of
        None \<Rightarrow> Err TextCapacityExceeded
      | Some len \<Rightarrow>
          if len > isize_max then Err TextCapacityExceeded
          else
            let self = collapse_materialized self; suffix = collapse_materialized suffix in
            case append_if_spare sole capacity self suffix separator len of
              Some self \<Rightarrow> Ok self
            | None \<Rightarrow>
                rbind (text_concat (fst buffer1) (snd buffer1) self (RepFlat separator)) (\<lambda>joined.
                text_concat (fst buffer2) (snd buffer2) joined suffix))"

definition push_str :: "(repr \<Rightarrow> bool) \<Rightarrow> bool \<Rightarrow> repr \<Rightarrow> string \<Rightarrow> string + repr" where
  "push_str sole sole_text self suffix =
     (if suffix = [] then Ok self
      else
        case collapse_materialized self of
          RepFlat text \<Rightarrow> Ok (RepFlat (text @ suffix))
        | RepEmpty \<Rightarrow> Ok (RepFlat suffix)
        | node \<Rightarrow> rbind (into_string sole sole_text node) (\<lambda>text. Ok (RepFlat (text @ suffix))))"

section \<open>Specification\<close>

text \<open>The leaves of a rope and its bytes.\<close>

fun leaf_texts :: "repr \<Rightarrow> string list" where
  "leaf_texts RepEmpty = ['''']"
| "leaf_texts (RepFlat text) = [text]"
| "leaf_texts (RepConcat prefix suffix _ _ _) = leaf_texts prefix @ leaf_texts suffix"

definition bytes :: "repr \<Rightarrow> string" where
  "bytes r = concat (leaf_texts r)"

fun rope_ok :: "repr \<Rightarrow> bool" where
  "rope_ok RepEmpty = True"
| "rope_ok (RepFlat text) \<longleftrightarrow> length text \<le> isize_max"
| "rope_ok (RepConcat prefix suffix len leaves materialized) \<longleftrightarrow>
     rope_ok prefix \<and> rope_ok suffix \<and> bytes prefix \<noteq> [] \<and> bytes suffix \<noteq> [] \<and> len = length (bytes prefix @ bytes suffix) \<and> len \<le> isize_max \<and>
     leaves = repr_leaves prefix + repr_leaves suffix \<and>
     (\<forall>text. materialized = Some text \<longrightarrow> text = bytes prefix @ bytes suffix)"

text \<open>The part of it that survives when the buffer of the first leaf is taken: the cached texts.\<close>

fun cache_ok :: "repr \<Rightarrow> bool" where
  "cache_ok (RepConcat prefix suffix len leaves materialized) \<longleftrightarrow>
     cache_ok prefix \<and> cache_ok suffix \<and> (\<forall>text. materialized = Some text \<longrightarrow> text = bytes prefix @ bytes suffix)"
| "cache_ok _ = True"

lemma bytes_simps [simp]:
  "bytes RepEmpty = []" "bytes (RepFlat text) = text" "bytes (RepConcat p s n l m) = bytes p @ bytes s"
  by (simp_all add: bytes_def)

lemma rope_ok_cache: "rope_ok r \<Longrightarrow> cache_ok r"
  by (induction r) auto

lemma repr_len_bytes [simp]: "rope_ok r \<Longrightarrow> repr_len r = length (bytes r)"
  by (cases r) auto

lemma rope_ok_bound: "rope_ok r \<Longrightarrow> length (bytes r) \<le> isize_max"
  by (cases r) auto

lemma text_is_empty_bytes [simp]: "rope_ok r \<Longrightarrow> text_is_empty r \<longleftrightarrow> bytes r = []"
  by (simp add: text_is_empty_def)

text \<open>A rope has at most as many leaves as bytes, the empty text apart.\<close>

lemma leaves_bound: "rope_ok r \<Longrightarrow> bytes r \<noteq> [] \<Longrightarrow> repr_leaves r \<le> length (bytes r)"
proof (induction r)
  case (RepFlat t)
  then show ?case by (cases t) simp_all
qed auto

section \<open>Traversal\<close>

definition seq_bytes :: "text_leaves \<Rightarrow> string" where
  "seq_bytes self = concat (map bytes (leaves_seq self))"

definition seq_ok :: "text_leaves \<Rightarrow> bool" where
  "seq_ok self \<longleftrightarrow> (\<forall>r \<in> set (leaves_seq self). cache_ok r)"

lemma leaves_descend_bytes:
  "leaves_descend r self = (text, self') \<Longrightarrow> cache_ok r \<Longrightarrow> seq_ok self \<Longrightarrow>
    bytes r @ seq_bytes self = text @ seq_bytes self' \<and> seq_ok self'"
proof (induction r arbitrary: self)
  case (RepConcat prefix suffix len leaves materialized)
  show ?case
  proof (cases materialized)
    case None
    have "seq_ok (leaves_push suffix self)" using RepConcat.prems by (simp add: seq_ok_def)
    then show ?thesis
      using RepConcat.IH(1) [of "leaves_push suffix self"] RepConcat.prems None by (simp add: seq_bytes_def)
  qed (use RepConcat.prems in auto)
qed auto

lemma append_leaves_bytes: "seq_ok self \<Longrightarrow> append_leaves out self = out @ seq_bytes self"
proof (induction out self rule: append_leaves.induct)
  case (1 out self)
  show ?case
  proof (cases "leaves_next self")
    case None
    then have "leaves_seq self = []" by (simp add: leaves_next_def leaves_take_None split: option.splits prod.splits)
    then show ?thesis using None by (simp add: seq_bytes_def)
  next
    case (Some p)
    obtain chunk self' where p: "p = (chunk, self')" by (cases p)
    obtain r self1 where take: "leaves_take self = Some (r, self1)" and descend: "leaves_descend r self1 = (chunk, self')"
      using Some p by (auto simp: leaves_next_def split: option.splits)
    note seq = leaves_take_seq [OF take]
    have "cache_ok r" "seq_ok self1" using 1(2) seq by (simp_all add: seq_ok_def)
    from leaves_descend_bytes [OF descend this] have "seq_bytes self = chunk @ seq_bytes self'" "seq_ok self'"
      by (simp_all add: seq_bytes_def seq)
    then show ?thesis using 1(1) [OF Some p [symmetric]] Some p by simp
  qed
qed

lemma append_leaves_new: "cache_ok r \<Longrightarrow> append_leaves out (leaves_new r) = out @ bytes r"
  by (simp add: append_leaves_bytes seq_ok_def seq_bytes_def leaves_new_def leaves_seq_def del: append_leaves.simps)

lemma append_to_bytes: "cache_ok (RepConcat p s n l m) \<Longrightarrow> append_to (RepConcat p s n l m) out = out @ bytes p @ bytes s"
  by (cases m) (simp_all add: append_to_def append_leaves_new del: append_leaves.simps)

lemma take_unique_prefix_bytes:
  assumes "take_unique_prefix sole r = (taken, r')" "cache_ok r"
  shows "cache_ok r' \<and> bytes r = (case taken of None \<Rightarrow> [] | Some text \<Rightarrow> text) @ bytes r'"
  using assms
proof (induction r arbitrary: r')
  case (RepConcat prefix suffix len leaves materialized)
  obtain taken' prefix' where p: "take_unique_prefix sole prefix = (taken', prefix')" by (cases "take_unique_prefix sole prefix")
  show ?case
    using RepConcat.IH(1) [of prefix'] RepConcat.prems p by (auto split: if_splits)
qed (auto split: if_splits)

lemma into_string_bytes:
  assumes "rope_ok self"
  shows "into_string sole sole_text self = Ok (bytes self)"
proof (cases self)
  case (RepConcat p s n l m)
  have cache: "cache_ok self" by (rule rope_ok_cache [OF assms])
  obtain taken p' where t: "take_unique_prefix sole p = (taken, p')" by (cases "take_unique_prefix sole p")
  have "cache_ok p" using cache RepConcat by simp
  note taken = take_unique_prefix_bytes [OF t this]
  have len: "n = length (bytes p) + length (bytes s)" using assms RepConcat by simp
  have whole: "append_to self '''' = bytes self" using append_to_bytes [of p s n l m "''''"] cache RepConcat by simp
  show ?thesis
  proof (cases m)
    case (Some t)
    then show ?thesis using cache RepConcat whole by (auto simp: into_string_def)
  next
    case None
    have rest: "append_to (RepConcat p' s n l None) out = out @ bytes p' @ bytes s" for out
      using append_to_bytes taken cache RepConcat by simp
    have "(case taken of None \<Rightarrow> '''' | Some text \<Rightarrow> text) @ bytes p' @ bytes s = bytes self"
      using taken RepConcat by (simp split: option.splits)
    moreover have "length (case taken of None \<Rightarrow> '''' | Some text \<Rightarrow> text) \<le> n"
      using taken len by (simp split: option.splits)
    ultimately show ?thesis
      using whole RepConcat None t rest by (auto simp: into_string_def Let_def not_less split: option.splits)
  qed
qed (simp_all add: into_string_def)

section \<open>Concatenation refines the concatenation of bytes\<close>

lemma collapse_ok: "rope_ok r \<Longrightarrow> rope_ok (collapse_materialized r) \<and> bytes (collapse_materialized r) = bytes r"
  by (cases r) (auto simp: collapse_materialized_def split: option.splits)

lemma append_if_spare_bytes:
  assumes "append_if_spare sole capacity self suffix separator len = Some r" "cache_ok suffix"
  shows "\<exists>text. r = RepFlat text \<and> text = bytes self @ separator @ bytes suffix"
  using assms by (cases self) (auto simp: append_if_spare_def append_leaves_new simp del: append_leaves.simps split: if_splits)

lemma isize_below_usize: "n \<le> isize_max \<Longrightarrow> n < 2 ^ 64"
  by (simp add: isize_max_def)

lemma text_concat_bytes:
  assumes self: "rope_ok self" and suffix: "rope_ok suffix"
  shows "if length (bytes self @ bytes suffix) \<le> isize_max
    then \<exists>r. text_concat sole capacity self suffix = Ok r \<and> rope_ok r \<and> bytes r = bytes self @ bytes suffix
    else text_concat sole capacity self suffix = Err TextCapacityExceeded"
proof (cases "length (bytes self @ bytes suffix) \<le> isize_max")
  case False
  then show ?thesis using assms by (auto simp: text_concat_def usize_checked_add_def)
next
  case fits: True
  let ?len = "length (bytes self) + length (bytes suffix)"
  have add: "usize_checked_add (repr_len self) (repr_len suffix) = Some ?len"
    using fits isize_below_usize [of ?len] assms by (simp add: usize_checked_add_def)
  show ?thesis
  proof (cases "bytes suffix = []")
    case True
    then show ?thesis using fits add assms by (simp add: text_concat_def)
  next
    case False
    let ?self = "collapse_materialized self" and ?suffix = "collapse_materialized suffix"
    note c = collapse_ok [OF self] collapse_ok [OF suffix]
    have start: "text_concat sole capacity self suffix =
        (case append_if_spare sole capacity ?self ?suffix '''' ?len of
           Some r \<Rightarrow> Ok r
         | None \<Rightarrow>
             if text_is_empty ?self then Ok ?suffix
             else (case usize_checked_add (repr_leaves ?self) (repr_leaves ?suffix) of
                None \<Rightarrow> Err TextCapacityExceeded
              | Some leaves \<Rightarrow> Ok (RepConcat ?self ?suffix ?len leaves None)))"
      using fits add False assms by (simp add: text_concat_def Let_def)
    show ?thesis
    proof (cases "append_if_spare sole capacity ?self ?suffix '''' ?len")
      case (Some r)
      then show ?thesis using start fits c append_if_spare_bytes [OF Some rope_ok_cache] by auto
    next
      case None
      show ?thesis
      proof (cases "bytes self = []")
        case True
        then show ?thesis using start None fits c by simp
      next
        case nonempty: False
        have "repr_leaves ?self + repr_leaves ?suffix \<le> ?len"
          using leaves_bound [of ?self] leaves_bound [of ?suffix] c nonempty False by simp
        then have "usize_checked_add (repr_leaves ?self) (repr_leaves ?suffix) = Some (repr_leaves ?self + repr_leaves ?suffix)"
          using fits isize_below_usize [of ?len] by (simp add: usize_checked_add_def)
        then show ?thesis using start None fits c nonempty False by simp
      qed
    qed
  qed
qed

lemma concat_separated_bytes:
  assumes self: "rope_ok self" and suffix: "rope_ok suffix" and separator: "length separator \<le> isize_max"
  shows "if length (bytes self @ separator @ bytes suffix) \<le> isize_max
    then \<exists>r. concat_separated sole capacity buffer1 buffer2 self suffix separator = Ok r \<and> rope_ok r \<and>
      bytes r = bytes self @ separator @ bytes suffix
    else concat_separated sole capacity buffer1 buffer2 self suffix separator = Err TextCapacityExceeded"
proof -
  let ?len = "length (bytes self) + length separator + length (bytes suffix)"
  let ?self = "collapse_materialized self" and ?suffix = "collapse_materialized suffix"
  note c = collapse_ok [OF self] collapse_ok [OF suffix]
  show ?thesis
  proof (cases "?len \<le> isize_max")
    case False
    then show ?thesis using assms by (auto simp: concat_separated_def usize_checked_add_def Option.bind_def)
  next
    case True
    have small: "length (bytes self) + length separator < 2 ^ 64" "?len < 2 ^ 64"
      using True isize_below_usize [of ?len] by simp_all
    have add: "Option.bind (usize_checked_add (repr_len self) (length separator)) (\<lambda>n. usize_checked_add n (repr_len suffix)) = Some ?len"
      using small assms by (simp add: usize_checked_add_def)
    show ?thesis
    proof (cases "append_if_spare sole capacity ?self ?suffix separator ?len")
      case (Some r)
      then show ?thesis
        using add True c append_if_spare_bytes [OF Some rope_ok_cache] by (auto simp: concat_separated_def Let_def)
    next
      case None
      have flat: "rope_ok (RepFlat separator)" using separator by simp
      obtain joined where joined: "text_concat (fst buffer1) (snd buffer1) ?self (RepFlat separator) = Ok joined" "rope_ok joined"
        "bytes joined = bytes self @ separator"
        using text_concat_bytes [of ?self "RepFlat separator" "fst buffer1" "snd buffer1"] c flat True by (auto split: if_splits)
      obtain r where "text_concat (fst buffer2) (snd buffer2) joined ?suffix = Ok r" "rope_ok r" "bytes r = bytes joined @ bytes suffix"
        using text_concat_bytes [of joined ?suffix "fst buffer2" "snd buffer2"] c joined True by (auto split: if_splits)
      then show ?thesis using add True None joined by (simp add: concat_separated_def Let_def)
    qed
  qed
qed

lemma repr_text_bytes:
  assumes "rope_ok self"
  shows "fst (repr_text self) = bytes self \<and> rope_ok (snd (repr_text self)) \<and> bytes (snd (repr_text self)) = bytes self"
proof (cases self)
  case (RepConcat p s n l m)
  have "append_to self '''' = bytes self"
    using append_to_bytes [of p s n l m "''''"] rope_ok_cache [OF assms] RepConcat by simp
  then show ?thesis using assms RepConcat by (cases m) (auto simp: repr_text_def Let_def)
qed (use assms in \<open>simp_all add: repr_text_def\<close>)

lemma push_str_bytes:
  assumes "rope_ok self"
  shows "\<exists>r. push_str sole sole_text self suffix = Ok r \<and> bytes r = bytes self @ suffix \<and>
    (length (bytes self @ suffix) \<le> isize_max \<longrightarrow> rope_ok r)"
proof (cases "suffix = []")
  case True
  then show ?thesis using assms by (simp add: push_str_def)
next
  case False
  note c = collapse_ok [OF assms]
  show ?thesis
  proof (cases "collapse_materialized self")
    case (RepConcat p s n l m)
    have "into_string sole sole_text (RepConcat p s n l m) = Ok (bytes self)"
      using into_string_bytes [OF conjunct1 [OF c], of sole sole_text] conjunct2 [OF c] unfolding RepConcat by (simp only:)
    then show ?thesis using False RepConcat by (simp add: push_str_def)
  qed (use False c in \<open>auto simp: push_str_def\<close>)
qed

text \<open>\<^bold>\<open>C22\<close>. The rope refines its bytes. On well-formed ropes, whatever buffers are shared or have room:
  concatenation and concatenation with a separator give a well-formed rope of the concatenated
  bytes, and fail exactly when the result would be longer than \<open>isize::MAX\<close>; the count of leaves
  never overflows. Taking the text, converting to a string and appending to it give the same bytes,
  and the conversion does not panic.\<close>

theorem rope_refines_bytes:
  assumes "rope_ok self" "rope_ok suffix" "length separator \<le> isize_max"
  shows "(if length (bytes self @ bytes suffix) \<le> isize_max
      then \<exists>r. text_concat sole capacity self suffix = Ok r \<and> rope_ok r \<and> bytes r = bytes self @ bytes suffix
      else text_concat sole capacity self suffix = Err TextCapacityExceeded) \<and>
    (if length (bytes self @ separator @ bytes suffix) \<le> isize_max
      then \<exists>r. concat_separated sole capacity buffer1 buffer2 self suffix separator = Ok r \<and> rope_ok r \<and>
        bytes r = bytes self @ separator @ bytes suffix
      else concat_separated sole capacity buffer1 buffer2 self suffix separator = Err TextCapacityExceeded) \<and>
    into_string sole_node sole_text self = Ok (bytes self) \<and> fst (repr_text self) = bytes self \<and>
    rope_ok (snd (repr_text self)) \<and> bytes (snd (repr_text self)) = bytes self \<and>
    (\<exists>r. push_str sole_node sole_text self separator = Ok r \<and> bytes r = bytes self @ separator)"
  using text_concat_bytes [OF assms(1,2), of sole capacity] concat_separated_bytes [OF assms, of sole capacity buffer1 buffer2]
    into_string_bytes [OF assms(1), of sole_node sole_text] repr_text_bytes [OF assms(1)]
    push_str_bytes [OF assms(1), of sole_node sole_text separator] by blast

theorem rope_refines_bytes_witness:
  "\<exists>r. text_concat True 0 (RepConcat (RepFlat ''ab'') (RepFlat ''c'') 3 2 None) (RepFlat ''d'') = Ok r \<and> rope_ok r \<and> bytes r = ''abcd''"
  using rope_refines_bytes [of "RepConcat (RepFlat ''ab'') (RepFlat ''c'') 3 2 None" "RepFlat ''d''" "''''" True 0]
  by (auto simp: isize_max_def)

end
