(* ===== verification/Text_Chunks.thy ===== *)
theory Text_Chunks
  imports Text_Rope
begin

text \<open>
  Reading a rope without flattening it: the double-ended iterator of \<open>value/text/chunks.rs\<close>, and the
  comparison, equality and hashing of \<open>value/text/read.rs\<close> that consume it.
\<close>

section \<open>The double-ended iterator\<close>

record text_chunks =
  ch_flat :: "string option"
  ch_first :: "repr option"
  ch_last :: "repr option"
  ch_middle :: "repr list"
  ch_remaining :: nat

definition chunks_new :: "repr \<Rightarrow> text_chunks" where
  "chunks_new r =
     (let flat = contiguous r in
      \<lparr>ch_flat = flat, ch_first = (if flat = None then Some r else None), ch_last = None, ch_middle = [],
       ch_remaining = (if flat \<noteq> None then 1 else repr_leaves r)\<rparr>)"

definition push_front :: "repr \<Rightarrow> text_chunks \<Rightarrow> text_chunks" where
  "push_front node self =
     (case ch_first self of
        None \<Rightarrow> self\<lparr>ch_first := Some node\<rparr>
      | Some previous \<Rightarrow>
          if ch_last self = None \<and> ch_middle self = []
          then self\<lparr>ch_first := Some node, ch_last := Some previous\<rparr>
          else self\<lparr>ch_first := Some node, ch_middle := previous # ch_middle self\<rparr>)"

definition push_back :: "repr \<Rightarrow> text_chunks \<Rightarrow> text_chunks" where
  "push_back node self =
     (case ch_last self of
        None \<Rightarrow> self\<lparr>ch_last := Some node\<rparr>
      | Some previous \<Rightarrow>
          if ch_first self = None \<and> ch_middle self = []
          then self\<lparr>ch_last := Some node, ch_first := Some previous\<rparr>
          else self\<lparr>ch_last := Some node, ch_middle := ch_middle self @ [previous]\<rparr>)"

definition take_front :: "text_chunks \<Rightarrow> (repr \<times> text_chunks) option" where
  "take_front self =
     (case ch_first self of
        Some node \<Rightarrow> Some (node, self\<lparr>ch_first := None\<rparr>)
      | None \<Rightarrow>
          (case ch_middle self of
             node # rest \<Rightarrow> Some (node, self\<lparr>ch_middle := rest\<rparr>)
           | [] \<Rightarrow> (case ch_last self of Some node \<Rightarrow> Some (node, self\<lparr>ch_last := None\<rparr>) | None \<Rightarrow> None)))"

definition take_back :: "text_chunks \<Rightarrow> (repr \<times> text_chunks) option" where
  "take_back self =
     (case ch_last self of
        Some node \<Rightarrow> Some (node, self\<lparr>ch_last := None\<rparr>)
      | None \<Rightarrow>
          if ch_middle self \<noteq> [] then Some (last (ch_middle self), self\<lparr>ch_middle := butlast (ch_middle self)\<rparr>)
          else (case ch_first self of Some node \<Rightarrow> Some (node, self\<lparr>ch_first := None\<rparr>) | None \<Rightarrow> None))"

text \<open>The nodes still to be visited, in order.\<close>

definition pending :: "text_chunks \<Rightarrow> repr list" where
  "pending self = (case ch_first self of None \<Rightarrow> [] | Some r \<Rightarrow> [r]) @ ch_middle self @ (case ch_last self of None \<Rightarrow> [] | Some r \<Rightarrow> [r])"

lemma push_pending [simp]: "pending (push_front r self) = r # pending self" "pending (push_back r self) = pending self @ [r]"
  by (auto simp: pending_def push_front_def push_back_def split: option.splits)

lemma push_fields [simp]:
  "ch_remaining (push_front r self) = ch_remaining self" "ch_flat (push_front r self) = ch_flat self"
  "ch_remaining (push_back r self) = ch_remaining self" "ch_flat (push_back r self) = ch_flat self"
  by (auto simp: push_front_def push_back_def split: option.splits)

lemma pending_updates [simp]:
  "pending (self\<lparr>ch_remaining := n\<rparr>) = pending self" "pending (self\<lparr>ch_flat := t\<rparr>) = pending self"
  by (simp_all add: pending_def)

lemma take_front_Some:
  "take_front self = Some (r, self') \<Longrightarrow> pending self = r # pending self' \<and> ch_remaining self' = ch_remaining self \<and> ch_flat self' = ch_flat self"
  by (auto simp: take_front_def pending_def split: option.splits list.splits)

lemma take_back_Some:
  assumes "take_back self = Some (r, self')"
  shows "pending self = pending self' @ [r] \<and> ch_remaining self' = ch_remaining self \<and> ch_flat self' = ch_flat self"
  using assms by (auto simp: take_back_def pending_def split: option.splits if_splits)

lemma take_None: "take_front self = None \<longleftrightarrow> pending self = []" "take_back self = None \<longleftrightarrow> pending self = []"
  by (auto simp: take_front_def take_back_def pending_def split: option.splits list.splits)

text \<open>\<open>self.remaining -= 1\<close> panics on underflow.\<close>

definition yield_text :: "string \<Rightarrow> text_chunks \<Rightarrow> string + string option \<times> text_chunks" where
  "yield_text t self =
     (if ch_remaining self = 0 then Err ''panic: attempt to subtract with overflow''
      else Ok (Some t, self\<lparr>ch_remaining := ch_remaining self - 1\<rparr>))"

function next_loop :: "text_chunks \<Rightarrow> string + string option \<times> text_chunks" where
  "next_loop self =
     (case take_front self of
        None \<Rightarrow> Ok (None, self)
      | Some (node, self) \<Rightarrow>
          (case node of
             RepEmpty \<Rightarrow> yield_text '''' self
           | RepFlat t \<Rightarrow> yield_text t self
           | RepConcat prefix suffix len leaves materialized \<Rightarrow> next_loop (push_front prefix (push_front suffix self))))"
  by pat_completeness auto
termination by (relation "measure (\<lambda>self. nodes_size (pending self))") (auto dest!: take_front_Some)

function next_back_loop :: "text_chunks \<Rightarrow> string + string option \<times> text_chunks" where
  "next_back_loop self =
     (case take_back self of
        None \<Rightarrow> Ok (None, self)
      | Some (node, self) \<Rightarrow>
          (case node of
             RepEmpty \<Rightarrow> yield_text '''' self
           | RepFlat t \<Rightarrow> yield_text t self
           | RepConcat prefix suffix len leaves materialized \<Rightarrow> next_back_loop (push_back suffix (push_back prefix self))))"
  by pat_completeness auto
termination by (relation "measure (\<lambda>self. nodes_size (pending self))") (auto dest!: take_back_Some)

definition chunks_next :: "text_chunks \<Rightarrow> string + string option \<times> text_chunks" where
  "chunks_next self =
     (case ch_flat self of
        Some flat \<Rightarrow> Ok (Some flat, self\<lparr>ch_flat := None, ch_remaining := 0\<rparr>)
      | None \<Rightarrow> next_loop self)"

definition chunks_next_back :: "text_chunks \<Rightarrow> string + string option \<times> text_chunks" where
  "chunks_next_back self =
     (case ch_flat self of
        Some flat \<Rightarrow> Ok (Some flat, self\<lparr>ch_flat := None, ch_remaining := 0\<rparr>)
      | None \<Rightarrow> next_back_loop self)"

text \<open>The texts still to come, and the invariant: \<open>remaining\<close> counts them exactly.\<close>

definition texts :: "text_chunks \<Rightarrow> string list" where
  "texts self = (case ch_flat self of Some flat \<Rightarrow> [flat] | None \<Rightarrow> concat (map leaf_texts (pending self)))"

definition chunks_ok :: "text_chunks \<Rightarrow> bool" where
  "chunks_ok self \<longleftrightarrow> ch_remaining self = length (texts self) \<and> (ch_flat self \<noteq> None \<longrightarrow> pending self = [])"

lemma leaf_texts_nonempty [simp]: "leaf_texts r \<noteq> []"
  by (induction r) auto

lemmas [simp del] = next_loop.simps next_back_loop.simps

lemma next_loop_step:
  "ch_flat self = None \<Longrightarrow> ch_remaining self = length (concat (map leaf_texts (pending self))) \<Longrightarrow>
    (case concat (map leaf_texts (pending self)) of
       [] \<Rightarrow> next_loop self = Ok (None, self)
     | t # ts \<Rightarrow> \<exists>self'. next_loop self = Ok (Some t, self') \<and> ch_flat self' = None \<and>
         concat (map leaf_texts (pending self')) = ts \<and> ch_remaining self' = length ts)"
proof (induction self rule: next_loop.induct)
  case (1 self)
  show ?case
  proof (cases "take_front self")
    case None
    then show ?thesis using take_None(1) [of self] by (simp add: next_loop.simps)
  next
    case (Some p)
    obtain node self1 where p: "p = (node, self1)" by (cases p)
    note s1 = take_front_Some [OF Some [unfolded p]]
    show ?thesis
    proof (cases node)
      case (RepConcat prefix suffix len leaves materialized)
      let ?self = "push_front prefix (push_front suffix self1)"
      have same: "concat (map leaf_texts (pending ?self)) = concat (map leaf_texts (pending self))" using s1 RepConcat by simp
      have "next_loop self = next_loop ?self" using Some p RepConcat by (simp add: next_loop.simps [of self])
      moreover have "concat (map leaf_texts (pending self)) \<noteq> []" using s1 by simp
      ultimately show ?thesis
        using 1(1) [OF Some p [symmetric] RepConcat] 1(2,3) s1 same by (simp only: push_fields) (auto split: list.splits)
    qed (use 1(2,3) s1 Some p in \<open>auto simp: yield_text_def next_loop.simps [of self]\<close>)
  qed
qed

lemma next_back_loop_step:
  "ch_flat self = None \<Longrightarrow> ch_remaining self = length (concat (map leaf_texts (pending self))) \<Longrightarrow>
    (if concat (map leaf_texts (pending self)) = [] then next_back_loop self = Ok (None, self)
     else \<exists>self' t. next_back_loop self = Ok (Some t, self') \<and> ch_flat self' = None \<and>
       concat (map leaf_texts (pending self)) = concat (map leaf_texts (pending self')) @ [t] \<and>
       ch_remaining self' = length (concat (map leaf_texts (pending self'))))"
proof (induction self rule: next_back_loop.induct)
  case (1 self)
  show ?case
  proof (cases "take_back self")
    case None
    then show ?thesis using take_None(2) [of self] by (simp add: next_back_loop.simps)
  next
    case (Some p)
    obtain node self1 where p: "p = (node, self1)" by (cases p)
    note s1 = take_back_Some [OF Some [unfolded p]]
    show ?thesis
    proof (cases node)
      case (RepConcat prefix suffix len leaves materialized)
      let ?self = "push_back suffix (push_back prefix self1)"
      have same: "concat (map leaf_texts (pending ?self)) = concat (map leaf_texts (pending self))" using s1 RepConcat by simp
      have "next_back_loop self = next_back_loop ?self" using Some p RepConcat by (simp add: next_back_loop.simps [of self])
      moreover have "concat (map leaf_texts (pending self)) \<noteq> []" using s1 by simp
      ultimately show ?thesis
        using 1(1) [OF Some p [symmetric] RepConcat] 1(2,3) s1 same by (simp only: push_fields) (auto split: if_splits)
    qed (use 1(2,3) s1 Some p in \<open>auto simp: yield_text_def next_back_loop.simps [of self]\<close>)
  qed
qed

text \<open>What a double-ended iterator of exact size promises: both ends of the list it views, the count of
  what is left, and nothing once it is empty.\<close>

locale exact_iterator =
  fixes front :: "'it \<Rightarrow> string + string option \<times> 'it"
    and rear :: "'it \<Rightarrow> string + string option \<times> 'it"
    and size_hint :: "'it \<Rightarrow> nat"
    and view :: "'it \<Rightarrow> string list"
    and ok :: "'it \<Rightarrow> bool"
  assumes front_step: "ok it \<Longrightarrow> view it = t # ts \<Longrightarrow> \<exists>it'. front it = Ok (Some t, it') \<and> ok it' \<and> view it' = ts"
    and front_end: "ok it \<Longrightarrow> view it = [] \<Longrightarrow> front it = Ok (None, it)"
    and back_step: "ok it \<Longrightarrow> view it = ts @ [t] \<Longrightarrow> \<exists>it'. rear it = Ok (Some t, it') \<and> ok it' \<and> view it' = ts"
    and back_end: "ok it \<Longrightarrow> view it = [] \<Longrightarrow> rear it = Ok (None, it)"
    and size_exact: "ok it \<Longrightarrow> size_hint it = length (view it)"

text \<open>Taking items from either end in any order, from an iterator and from a list.\<close>

datatype iter_end = Front | Back

fun drive :: "('it \<Rightarrow> string + string option \<times> 'it) \<Rightarrow> ('it \<Rightarrow> string + string option \<times> 'it) \<Rightarrow> iter_end list \<Rightarrow> 'it \<Rightarrow>
  string + string option list \<times> 'it"
where
  "drive front rear [] it = Ok ([], it)"
| "drive front rear (e # es) it =
     rbind ((case e of Front \<Rightarrow> front | Back \<Rightarrow> rear) it) (\<lambda>(t, it).
     rbind (drive front rear es it) (\<lambda>(ts, it). Ok (t # ts, it)))"

fun drive_list :: "iter_end list \<Rightarrow> string list \<Rightarrow> string option list \<times> string list" where
  "drive_list [] ts = ([], ts)"
| "drive_list (e # es) [] = (None # fst (drive_list es []), [])"
| "drive_list (Front # es) (t # ts) = (case drive_list es ts of (us, rest) \<Rightarrow> (Some t # us, rest))"
| "drive_list (Back # es) (t # ts) = (case drive_list es (butlast (t # ts)) of (us, rest) \<Rightarrow> (Some (last (t # ts)) # us, rest))"

lemma drive_list_Nil [simp]: "snd (drive_list es []) = []"
  by (cases es) auto

context exact_iterator
begin

lemma drive_ok:
  "ok it \<Longrightarrow> \<exists>it'. drive front rear es it = Ok (fst (drive_list es (view it)), it') \<and> ok it' \<and>
    view it' = snd (drive_list es (view it)) \<and> size_hint it' = length (view it')"
proof (induction es arbitrary: it)
  case Nil
  then show ?case by (simp add: size_exact)
next
  case (Cons e es)
  show ?case
  proof (cases "view it" rule: rev_cases)
    case Nil
    have "(case e of Front \<Rightarrow> front | Back \<Rightarrow> rear) it = Ok (None, it)"
      using front_end [OF Cons.prems Nil] back_end [OF Cons.prems Nil] by (cases e) auto
    then show ?thesis using Cons.IH [OF Cons.prems] Nil by auto
  next
    case back_view: (snoc ts t)
    obtain t0 ts0 where view: "view it = t0 # ts0" using back_view by (metis neq_Nil_conv snoc_eq_iff_butlast)
    show ?thesis
    proof (cases e)
      case Front
      obtain it' where "front it = Ok (Some t0, it')" "ok it'" "view it' = ts0" using front_step [OF Cons.prems view] by blast
      then show ?thesis using Cons.IH [of it'] view Front by (auto split: prod.splits)
    next
      case Back
      obtain it' where "rear it = Ok (Some t, it')" "ok it'" "view it' = ts" using back_step [OF Cons.prems back_view] by blast
      moreover have "butlast (t0 # ts0) = ts" "last (t0 # ts0) = t" using view back_view by (metis butlast_snoc, metis last_snoc)
      ultimately show ?thesis using Cons.IH [of it'] view Back by (auto split: prod.splits simp del: butlast.simps last.simps)
    qed
  qed
qed

end

lemma chunks_ok_flat: "chunks_ok self \<Longrightarrow> ch_flat self = Some flat \<Longrightarrow> pending self = [] \<and> texts self = [flat]"
  by (simp add: chunks_ok_def texts_def)

interpretation rope_chunks: exact_iterator chunks_next chunks_next_back ch_remaining texts chunks_ok
proof (unfold_locales, goal_cases)
  case (1 it t ts)
  then show ?case
  proof (cases "ch_flat it")
    case None
    then show ?thesis using 1 next_loop_step [of it] by (fastforce simp: chunks_ok_def texts_def chunks_next_def)
  qed (use 1 chunks_ok_flat [of it] in \<open>auto simp: chunks_ok_def texts_def chunks_next_def\<close>)
next
  case (2 it)
  then show ?case using next_loop_step [of it] by (auto simp: chunks_ok_def texts_def chunks_next_def split: option.splits)
next
  case (3 it ts t)
  then show ?case
  proof (cases "ch_flat it")
    case None
    then show ?thesis using 3 next_back_loop_step [of it] by (fastforce simp: chunks_ok_def texts_def chunks_next_back_def split: if_splits)
  qed (use 3 chunks_ok_flat [of it] in \<open>auto simp: chunks_ok_def texts_def chunks_next_back_def\<close>)
next
  case (4 it)
  then show ?case using next_back_loop_step [of it] by (auto simp: chunks_ok_def texts_def chunks_next_back_def split: option.splits)
next
  case (5 it)
  then show ?case by (simp add: chunks_ok_def)
qed

lemma repr_leaves_texts: "rope_ok r \<Longrightarrow> repr_leaves r = length (leaf_texts r)"
  by (induction r) auto

lemma contiguous_bytes: "rope_ok r \<Longrightarrow> contiguous r = Some text \<Longrightarrow> text = bytes r"
  by (cases r) (auto simp: contiguous_def)

lemma chunks_new_ok: "rope_ok r \<Longrightarrow> chunks_ok (chunks_new r)"
  by (auto simp: chunks_ok_def chunks_new_def texts_def pending_def repr_leaves_texts Let_def)

lemma chunks_new_texts: "rope_ok r \<Longrightarrow> concat (texts (chunks_new r)) = bytes r"
  using contiguous_bytes [of r] by (auto simp: chunks_new_def texts_def pending_def Let_def bytes_def)

text \<open>The double-ended iterator over a rope is the list of its texts: whatever the order in which items are
  taken from the two ends, it yields what the list would yield, does not panic, and its size hint is
  exactly the number of texts that are left. The texts concatenate to the bytes of the rope.\<close>

theorem chunks_refine_list:
  assumes "rope_ok r"
  shows "\<exists>it. drive chunks_next chunks_next_back ends (chunks_new r) = Ok (fst (drive_list ends (texts (chunks_new r))), it) \<and>
    texts it = snd (drive_list ends (texts (chunks_new r))) \<and> ch_remaining it = length (texts it) \<and>
    concat (texts (chunks_new r)) = bytes r"
  using rope_chunks.drive_ok [OF chunks_new_ok [OF assms]] chunks_new_texts [OF assms] by blast

theorem chunks_refine_list_witness:
  "\<exists>it. drive chunks_next chunks_next_back [Front, Back, Back, Front]
      (chunks_new (RepConcat (RepConcat (RepFlat ''ab'') (RepFlat ''c'') 3 2 (Some ''abc'')) (RepFlat ''d'') 4 3 None)) =
    Ok ([Some ''ab'', Some ''d'', Some ''c'', None], it)"
  using chunks_refine_list [of "RepConcat (RepConcat (RepFlat ''ab'') (RepFlat ''c'') 3 2 (Some ''abc'')) (RepFlat ''d'') 4 3 None"
      "[Front, Back, Back, Front]"]
  by (auto simp: isize_max_def chunks_new_def contiguous_def texts_def pending_def)

section \<open>Consuming the iterator\<close>

lemma next_loop_fields: "next_loop self = Ok (Some t, self') \<Longrightarrow> ch_remaining self' < ch_remaining self \<and> ch_flat self' = ch_flat self"
proof (induction self rule: next_loop.induct)
  case (1 self)
  obtain node self1 where take: "take_front self = Some (node, self1)"
    using 1(2) by (cases "take_front self") (auto simp: next_loop.simps [of self])
  note s1 = take_front_Some [OF take]
  show ?case
  proof (cases node)
    case (RepConcat prefix suffix len leaves materialized)
    have "next_loop self = next_loop (push_front prefix (push_front suffix self1))"
      using take RepConcat by (simp add: next_loop.simps [of self])
    then show ?thesis using 1(1) [OF take refl RepConcat] 1(2) s1 by simp
  qed (use 1(2) take s1 in \<open>auto simp: next_loop.simps [of self] yield_text_def split: if_splits\<close>)
qed

definition chunks_left :: "text_chunks \<Rightarrow> nat" where
  "chunks_left self = ch_remaining self + (if ch_flat self = None then 0 else 1)"

lemma chunks_next_left: "chunks_next self = Ok (Some t, self') \<Longrightarrow> chunks_left self' < chunks_left self"
  by (auto simp: chunks_left_def chunks_next_def dest!: next_loop_fields split: option.splits)

text \<open>The items a consumer sees when it asks until there are none.\<close>

function chunk_list :: "text_chunks \<Rightarrow> string + string list" where
  "chunk_list self =
     (case chunks_next self of
        Inl e \<Rightarrow> Err e
      | Inr (item, self) \<Rightarrow> (case item of None \<Rightarrow> Ok [] | Some t \<Rightarrow> rmap (Cons t) (chunk_list self)))"
  by pat_completeness auto
termination by (relation "measure chunks_left") (auto dest: chunks_next_left)

lemmas [simp del] = chunk_list.simps

definition chunks :: "repr \<Rightarrow> string + string list" where
  "chunks r = chunk_list (chunks_new r)"

lemma chunk_list_texts: "chunks_ok self \<Longrightarrow> chunk_list self = Ok (texts self)"
proof (induction "texts self" arbitrary: self)
  case Nil
  then show ?case using rope_chunks.front_end [of self] by (simp add: chunk_list.simps [of self])
next
  case (Cons t ts)
  obtain self' where "chunks_next self = Ok (Some t, self')" "chunks_ok self'" "texts self' = ts"
    using rope_chunks.front_step [OF Cons.prems Cons.hyps(2) [symmetric]] by blast
  then show ?case using Cons.hyps by (simp add: chunk_list.simps [of self])
qed

lemma chunks_bytes: "rope_ok r \<Longrightarrow> \<exists>ts. chunks r = Ok ts \<and> concat ts = bytes r"
  by (simp add: chunks_def chunk_list_texts chunks_new_ok chunks_new_texts)

section \<open>Comparison\<close>

definition pull :: "string list \<Rightarrow> string option \<times> string list" where
  "pull parts = (case parts of [] \<Rightarrow> (None, []) | p # ps \<Rightarrow> (Some p, ps))"

definition weight :: "string option \<Rightarrow> string list \<Rightarrow> nat" where
  "weight a lefts = (case a of None \<Rightarrow> 0 | Some x \<Rightarrow> length x + 1) + sum_list (map (\<lambda>p. length p + 1) lefts)"

function compare_loop :: "string option \<Rightarrow> string list \<Rightarrow> string option \<Rightarrow> string list \<Rightarrow> ordering" where
  "compare_loop None lefts None rights = Equal"
| "compare_loop None lefts (Some y) rights = Less"
| "compare_loop (Some x) lefts None rights = Greater"
| "compare_loop (Some x) lefts (Some y) rights =
     (let n = min (length x) (length y); order = bytes_cmp (take n x) (take n y) in
      if order \<noteq> Equal then order
      else
        let (a, lefts) = (if n = length x then pull lefts else (Some (drop n x), lefts));
            (b, rights) = (if n = length y then pull rights else (Some (drop n y), rights)) in
        compare_loop a lefts b rights)"
  by pat_completeness auto
termination
  by (relation "measure (\<lambda>(a, lefts, b, rights). weight a lefts + weight b rights)")
    (auto simp: weight_def pull_def min_def split: if_splits list.splits)

definition compare_parts :: "string list \<Rightarrow> string list \<Rightarrow> ordering" where
  "compare_parts lefts rights =
     (let (a, lefts) = pull (filter (\<lambda>part. part \<noteq> []) lefts); (b, rights) = pull (filter (\<lambda>part. part \<noteq> []) rights) in
      compare_loop a lefts b rights)"

text \<open>\<open>ptr_eq\<close> is \<open>Rc::ptr_eq\<close> on the buffer or the node behind two handles.\<close>

definition same_backing :: "(repr \<Rightarrow> repr \<Rightarrow> bool) \<Rightarrow> repr \<Rightarrow> repr \<Rightarrow> bool" where
  "same_backing ptr_eq self other =
     (case (self, other) of
        (RepEmpty, RepEmpty) \<Rightarrow> True
      | (RepFlat _, RepFlat _) \<Rightarrow> ptr_eq self other
      | (RepConcat _ _ _ _ _, RepConcat _ _ _ _ _) \<Rightarrow> ptr_eq self other
      | _ \<Rightarrow> False)"

definition compare_borrowed :: "(repr \<Rightarrow> repr \<Rightarrow> bool) \<Rightarrow> repr \<Rightarrow> repr \<Rightarrow> string + ordering" where
  "compare_borrowed ptr_eq self other =
     (if same_backing ptr_eq self other then Ok Equal
      else if text_is_empty self \<or> text_is_empty other then Ok (cmp (repr_len self) (repr_len other))
      else
        case (contiguous self, contiguous other) of
          (Some lefts, Some rights) \<Rightarrow> Ok (bytes_cmp lefts rights)
        | _ \<Rightarrow> rbind (chunks self) (\<lambda>lefts. rbind (chunks other) (\<lambda>rights. Ok (compare_parts lefts rights))))"

definition text_eq :: "(repr \<Rightarrow> repr \<Rightarrow> bool) \<Rightarrow> repr \<Rightarrow> repr \<Rightarrow> string + bool" where
  "text_eq ptr_eq self other =
     (if repr_len self \<noteq> repr_len other then Ok False
      else rbind (compare_borrowed ptr_eq self other) (\<lambda>order. Ok (order = Equal)))"

definition equals_str :: "repr \<Rightarrow> string \<Rightarrow> string + bool" where
  "equals_str self other =
     (if repr_len self \<noteq> length other then Ok False
      else
        case contiguous self of
          Some text \<Rightarrow> Ok (text = other)
        | None \<Rightarrow> rbind (chunks self) (\<lambda>parts. Ok (compare_parts parts [other] = Equal)))"

lemma bytes_cmp_append:
  "length xs = length ys \<Longrightarrow> bytes_cmp (xs @ us) (ys @ vs) = (if bytes_cmp xs ys = Equal then bytes_cmp us vs else bytes_cmp xs ys)"
  by (induction xs ys rule: list_induct2) (auto split: ordering.splits simp: cmp_def)

lemma bytes_cmp_Nil [simp]: "bytes_cmp [] ys = (if ys = [] then Equal else Less)" "bytes_cmp xs [] = (if xs = [] then Equal else Greater)"
  by (cases ys; simp) (cases xs; simp)

lemma bytes_refl: "Equal = bytes_cmp xs xs"
  by (rule sym) simp

definition upcoming :: "string option \<Rightarrow> string list \<Rightarrow> string" where
  "upcoming a lefts = (case a of None \<Rightarrow> [] | Some x \<Rightarrow> x) @ concat lefts"

definition proper :: "string option \<Rightarrow> string list \<Rightarrow> bool" where
  "proper a lefts \<longleftrightarrow> a \<noteq> Some [] \<and> [] \<notin> set lefts \<and> (a = None \<longrightarrow> lefts = [])"

lemma pull_proper: "[] \<notin> set lefts \<Longrightarrow> pull lefts = (a, lefts') \<Longrightarrow> proper a lefts' \<and> upcoming a lefts' = concat lefts"
  by (cases lefts) (auto simp: pull_def proper_def upcoming_def)

lemma take_part:
  assumes "proper (Some x) lefts" "n \<le> length x" "(if n = length x then pull lefts else (Some (drop n x), lefts)) = (a, lefts')"
  shows "proper a lefts' \<and> upcoming a lefts' = drop n x @ concat lefts"
  using assms pull_proper [of lefts a lefts'] by (auto simp: proper_def upcoming_def split: if_splits)

lemma compare_loop_bytes:
  "proper a lefts \<Longrightarrow> proper b rights \<Longrightarrow> compare_loop a lefts b rights = bytes_cmp (upcoming a lefts) (upcoming b rights)"
proof (induction a lefts b rights rule: compare_loop.induct)
  case (4 x lefts y rights)
  let ?n = "min (length x) (length y)"
  obtain a lefts' where a: "(if ?n = length x then pull lefts else (Some (drop ?n x), lefts)) = (a, lefts')" by fastforce
  obtain b rights' where b: "(if ?n = length y then pull rights else (Some (drop ?n y), rights)) = (b, rights')" by fastforce
  have pa: "proper a lefts'" "upcoming a lefts' = drop ?n x @ concat lefts" using take_part [OF 4(2) _ a] by simp_all
  have pb: "proper b rights'" "upcoming b rights' = drop ?n y @ concat rights" using take_part [OF 4(3) _ b] by simp_all
  have split: "upcoming (Some x) lefts = take ?n x @ upcoming a lefts'" "upcoming (Some y) rights = take ?n y @ upcoming b rights'"
    using pa pb by (simp_all add: upcoming_def)
  have "bytes_cmp (upcoming (Some x) lefts) (upcoming (Some y) rights) =
      (if bytes_cmp (take ?n x) (take ?n y) = Equal then bytes_cmp (upcoming a lefts') (upcoming b rights') else bytes_cmp (take ?n x) (take ?n y))"
    unfolding split by (rule bytes_cmp_append) simp
  moreover have "compare_loop (Some x) lefts (Some y) rights =
      (if bytes_cmp (take ?n x) (take ?n y) \<noteq> Equal then bytes_cmp (take ?n x) (take ?n y) else compare_loop a lefts' b rights')"
    unfolding compare_loop.simps Let_def a b by simp
  ultimately show ?case using 4(1) [OF refl refl _ a [symmetric] refl b [symmetric] refl] pa pb by simp
qed (auto simp: proper_def upcoming_def)

lemma concat_filter_nonempty [simp]: "concat (filter (\<lambda>part. part \<noteq> []) parts) = concat parts"
  by (induction parts) auto

lemma compare_parts_bytes: "compare_parts lefts rights = bytes_cmp (concat lefts) (concat rights)"
proof -
  obtain a lefts' where a: "pull (filter (\<lambda>part. part \<noteq> []) lefts) = (a, lefts')" by fastforce
  obtain b rights' where b: "pull (filter (\<lambda>part. part \<noteq> []) rights) = (b, rights')" by fastforce
  show ?thesis using pull_proper [OF _ a] pull_proper [OF _ b] by (simp add: compare_parts_def a b compare_loop_bytes)
qed

lemma compare_borrowed_bytes:
  assumes "rope_ok self" "rope_ok other" "\<forall>l r. ptr_eq l r \<longrightarrow> l = r"
  shows "compare_borrowed ptr_eq self other = Ok (bytes_cmp (bytes self) (bytes other))"
proof -
  have same: "same_backing ptr_eq self other \<Longrightarrow> self = other"
    using assms(3) by (auto simp: same_backing_def split: repr.splits)
  have empty: "bytes self = [] \<or> bytes other = [] \<Longrightarrow> cmp (length (bytes self)) (length (bytes other)) = bytes_cmp (bytes self) (bytes other)"
    by (auto simp: cmp_def)
  obtain ls rs where "chunks self = Ok ls" "concat ls = bytes self" "chunks other = Ok rs" "concat rs = bytes other"
    using chunks_bytes assms(1,2) by blast
  then show ?thesis
    using same empty assms contiguous_bytes [OF assms(1)] contiguous_bytes [OF assms(2)]
    by (auto simp: compare_borrowed_def compare_parts_bytes bytes_refl split: option.splits)
qed

lemma equals_str_bytes: "rope_ok self \<Longrightarrow> equals_str self other = Ok (bytes self = other)"
  using chunks_bytes [of self] contiguous_bytes [of self]
  by (auto simp: equals_str_def compare_parts_bytes split: option.splits)

text \<open>\<^bold>\<open>C23\<close>. Comparing ropes without flattening them is comparing their bytes: the order of two ropes is the
  lexicographic order of their bytes, and equality with a rope or a string is equality of the bytes,
  however the text is cut into leaves and whichever texts are cached. The comparison does not panic.\<close>

theorem comparison_is_bytewise:
  assumes "rope_ok self" "rope_ok other" "\<forall>l r. ptr_eq l r \<longrightarrow> l = r"
  shows "compare_borrowed ptr_eq self other = Ok (bytes_cmp (bytes self) (bytes other)) \<and>
    text_eq ptr_eq self other = Ok (bytes self = bytes other) \<and> equals_str self text = Ok (bytes self = text)"
  using compare_borrowed_bytes [OF assms] equals_str_bytes [OF assms(1)] assms(1,2) by (auto simp: text_eq_def)

theorem comparison_is_bytewise_witness:
  "compare_borrowed (\<lambda>_ _. False) (RepConcat (RepFlat ''ab'') (RepFlat ''cd'') 4 2 None) (RepConcat (RepFlat ''abc'') (RepFlat ''a'') 4 2 None) =
    Ok Greater"
  using comparison_is_bytewise [of "RepConcat (RepFlat ''ab'') (RepFlat ''cd'') 4 2 None" "RepConcat (RepFlat ''abc'') (RepFlat ''a'') 4 2 None"
      "\<lambda>_ _. False" "''''"]
  by (simp add: isize_max_def cmp_def)

section \<open>Hashing\<close>

text \<open>What a \<open>Hasher\<close> is told, call by call.\<close>

datatype hash_call = WriteUsize nat | Write string

definition hash_block :: nat where
  "hash_block = 64"

lemma hash_block_pos [simp]: "hash_block > 0" "hash_block \<noteq> 0"
  by (simp_all add: hash_block_def)

definition copy_from_slice :: "string \<Rightarrow> nat \<Rightarrow> string \<Rightarrow> string" where
  "copy_from_slice buffer start source = take start buffer @ source @ drop (start + length source) buffer"

function chunks_exact :: "string \<Rightarrow> string list" where
  "chunks_exact xs = (if length xs < hash_block then [] else take hash_block xs # chunks_exact (drop hash_block xs))"
  by pat_completeness auto
termination by (relation "measure length") (auto simp: hash_block_def)

definition hash_blocks :: "hash_call list \<Rightarrow> string \<Rightarrow> string \<Rightarrow> hash_call list \<times> string \<times> nat" where
  "hash_blocks state buffer part =
     (let complete = length part div hash_block * hash_block; tail = drop complete part in
      (state @ map Write (chunks_exact (take complete part)), copy_from_slice buffer 0 tail, length tail))"

fun hash_part :: "string \<Rightarrow> hash_call list \<times> string \<times> nat \<Rightarrow> hash_call list \<times> string \<times> nat" where
  "hash_part part (state, buffer, used) =
     (if used \<noteq> 0 then
        let n = min (hash_block - used) (length part); buffer = copy_from_slice buffer used (take n part); used = used + n in
        if used \<noteq> hash_block then (state, buffer, used)
        else hash_blocks (state @ [Write buffer]) buffer (drop n part)
      else hash_blocks state buffer part)"

definition hash_parts :: "nat \<Rightarrow> string list \<Rightarrow> hash_call list" where
  "hash_parts byte_len parts =
     (case fold hash_part parts ([WriteUsize byte_len], replicate hash_block (char_of (0 :: nat)), 0) of
        (state, buffer, used) \<Rightarrow> if used \<noteq> 0 then state @ [Write (take used buffer)] else state)"

definition hash_text :: "repr \<Rightarrow> string + hash_call list" where
  "hash_text r = rbind (chunks r) (\<lambda>parts. Ok (hash_parts (repr_len r) parts))"

text \<open>The calls for a text that is one string: its length, its full blocks and the rest.\<close>

definition rest_of :: "string \<Rightarrow> string" where
  "rest_of xs = drop (length xs div hash_block * hash_block) xs"

definition hash_bytes :: "string \<Rightarrow> hash_call list" where
  "hash_bytes xs = WriteUsize (length xs) # map Write (chunks_exact xs) @ (if rest_of xs = [] then [] else [Write (rest_of xs)])"

lemmas [simp del] = chunks_exact.simps


lemma chunks_exact_short [simp]: "length xs < hash_block \<Longrightarrow> chunks_exact xs = []"
  by (simp add: chunks_exact.simps)

lemma chunks_exact_block: "length b = hash_block \<Longrightarrow> chunks_exact (b @ xs) = b # chunks_exact xs"
  by (simp add: chunks_exact.simps [of "b @ xs"])

lemma rest_of_short [simp]: "length xs < hash_block \<Longrightarrow> rest_of xs = xs"
  by (simp add: rest_of_def)

lemma whole_blocks: "(hash_block + n) div hash_block * hash_block = hash_block + n div hash_block * hash_block"
  by (simp add: div_add_self1)

lemma rest_of_block: "length b = hash_block \<Longrightarrow> rest_of (b @ xs) = rest_of xs"
  by (simp add: rest_of_def whole_blocks)

lemma rest_of_length [simp]: "length (rest_of xs) < hash_block"
  by (simp add: rest_of_def minus_div_mult_eq_mod)

lemma blocks_induct [case_names short block]:
  fixes xs :: string
  assumes "\<And>xs :: string. length xs < hash_block \<Longrightarrow> P xs" "\<And>b xs :: string. length b = hash_block \<Longrightarrow> P xs \<Longrightarrow> P (b @ xs)"
  shows "P xs"
proof (induction xs rule: chunks_exact.induct)
  case (1 xs)
  then show ?case
    using assms(1) [of xs] assms(2) [of "take hash_block xs" "drop hash_block xs"] by (cases "length xs < hash_block") auto
qed

text \<open>What has been hashed can be cut after its last full block.\<close>

lemma blocks_append: "chunks_exact (xs @ ys) = chunks_exact xs @ chunks_exact (rest_of xs @ ys) \<and> rest_of (xs @ ys) = rest_of (rest_of xs @ ys)"
  by (induction xs rule: blocks_induct) (simp_all add: chunks_exact_block rest_of_block)

lemma chunks_exact_complete: "chunks_exact (take (length xs div hash_block * hash_block) xs) = chunks_exact xs"
proof (induction xs rule: blocks_induct)
  case (block b xs)
  then have "take (length (b @ xs) div hash_block * hash_block) (b @ xs) = b @ take (length xs div hash_block * hash_block) xs" by (simp add: whole_blocks)
  then show ?case using block by (simp only: chunks_exact_block)
qed simp

definition hash_inv :: "nat \<Rightarrow> string \<Rightarrow> hash_call list \<times> string \<times> nat \<Rightarrow> bool" where
  "hash_inv n xs s \<longleftrightarrow> fst s = WriteUsize n # map Write (chunks_exact xs) \<and> length (fst (snd s)) = hash_block \<and>
     take (snd (snd s)) (fst (snd s)) = rest_of xs \<and> snd (snd s) = length (rest_of xs)"

lemma hash_blocks_inv:
  assumes "length buffer = hash_block"
  shows "hash_blocks state buffer part = (state @ map Write (chunks_exact part), rest_of part @ drop (length (rest_of part)) buffer, length (rest_of part))"
  unfolding hash_blocks_def Let_def chunks_exact_complete rest_of_def [symmetric] by (simp add: copy_from_slice_def)

lemma hash_part_inv:
  assumes "hash_inv n xs (state, buffer, used)"
  shows "hash_inv n (xs @ part) (hash_part part (state, buffer, used))"
proof -
  let ?r = "rest_of xs"
  have inv: "state = WriteUsize n # map Write (chunks_exact xs)" "length buffer = hash_block" "take used buffer = ?r" "used = length ?r"
    using assms unfolding hash_inv_def fst_conv snd_conv by blast+
  have lt: "used < hash_block" using inv by simp
  note cut = blocks_append [of xs part]
  show ?thesis
  proof (cases "used = 0")
    case True
    then show ?thesis using inv cut less_imp_le [OF rest_of_length, of part] by (simp add: hash_inv_def hash_blocks_inv)
  next
    case used: False
    show ?thesis
    proof (cases "length part < hash_block - used")
      case True
      have "length (?r @ part) < hash_block" using True inv by simp
      then show ?thesis using used True inv cut by (simp add: hash_inv_def copy_from_slice_def Let_def)
    next
      case False
      let ?n = "hash_block - used" and ?b = "?r @ take (hash_block - used) part"
      have full: "copy_from_slice buffer used (take ?n part) = ?b" "length ?b = hash_block"
        using False inv lt less_imp_le [OF rest_of_length, of xs] by (simp_all add: copy_from_slice_def)
      have "?r @ part = ?b @ drop ?n part" by simp
      then have "chunks_exact (?r @ part) = ?b # chunks_exact (drop ?n part)" "rest_of (?r @ part) = rest_of (drop ?n part)"
        using chunks_exact_block [OF full(2), of "drop ?n part"] rest_of_block [OF full(2), of "drop ?n part"] by simp_all
      moreover have "hash_part part (state, buffer, used) = hash_blocks (state @ [Write ?b]) ?b (drop ?n part)"
        using used False lt full by (simp add: Let_def)
      ultimately show ?thesis
        using inv cut full less_imp_le [OF rest_of_length, of "drop ?n part"] by (simp add: hash_inv_def hash_blocks_inv del: hash_part.simps)
    qed
  qed
qed

lemma hash_parts_inv: "hash_inv n xs s \<Longrightarrow> hash_inv n (xs @ concat parts) (fold hash_part parts s)"
proof (induction parts arbitrary: xs s)
  case (Cons p ps)
  obtain state buffer used where s: "s = (state, buffer, used)" by (cases s)
  show ?case
    using Cons.IH [OF hash_part_inv [OF Cons.prems [unfolded s], of p]] by (simp add: s del: hash_part.simps)
qed simp

lemma hash_parts_bytes: "hash_parts (length (concat parts)) parts = hash_bytes (concat parts)"
proof -
  let ?s = "fold hash_part parts ([WriteUsize (length (concat parts))], replicate hash_block (char_of (0 :: nat)), 0)"
  have "hash_inv (length (concat parts)) ([] @ concat parts) ?s"
    by (rule hash_parts_inv) (simp add: hash_inv_def)
  then show ?thesis by (cases ?s) (auto simp: hash_inv_def hash_parts_def hash_bytes_def)
qed

text \<open>The text can be read back from the calls.\<close>

primrec payload :: "hash_call \<Rightarrow> string" where
  "payload (WriteUsize n) = []"
| "payload (Write block) = block"

lemma hash_bytes_payload: "concat (map payload (hash_bytes xs)) = xs"
proof -
  have "concat (map payload (map Write bs)) = concat bs" for bs by (induction bs) auto
  moreover have "concat (chunks_exact xs) @ rest_of xs = xs"
    by (induction xs rule: blocks_induct) (simp_all add: chunks_exact_block rest_of_block)
  ultimately show ?thesis by (auto simp: hash_bytes_def simp del: map_map)
qed

lemma hash_text_bytes: "rope_ok r \<Longrightarrow> hash_text r = Ok (hash_bytes (bytes r))"
  using chunks_bytes [of r] by (auto simp: hash_text_def) (metis hash_parts_bytes)

text \<open>The hash of a text does not depend on how the rope is cut: the hasher is called with the length
  of the text, its full blocks of 64 bytes and the rest, so ropes of the same bytes make the same calls.
  Ropes of different bytes never do.\<close>

theorem hash_is_layout_independent:
  assumes "rope_ok self" "rope_ok other"
  shows "hash_text self = Ok (hash_bytes (bytes self)) \<and> (hash_text self = hash_text other \<longleftrightarrow> bytes self = bytes other)"
  using hash_text_bytes assms hash_bytes_payload by (metis sum.inject(2))

theorem hash_is_layout_independent_witness:
  "hash_text (RepConcat (RepFlat ''ab'') (RepFlat ''cd'') 4 2 None) = hash_text (RepConcat (RepFlat ''abc'') (RepFlat ''d'') 4 2 None)"
  using hash_is_layout_independent [of "RepConcat (RepFlat ''ab'') (RepFlat ''cd'') 4 2 None" "RepConcat (RepFlat ''abc'') (RepFlat ''d'') 4 2 None"]
  by (auto simp: isize_max_def)

end
