(* ===== verification/Text_Ranges.thy ===== *)
theory Text_Ranges
  imports Text_Chunks
begin

text \<open>
  Positions in a rope: the cursor that owns its source (\<open>OwnedTextCursor\<close> of \<open>value/text/chunks.rs\<close>)
  and the projection of byte ranges (\<open>value/text/ranges.rs\<close>). Both refuse positions inside a UTF-8
  sequence.
\<close>

section \<open>Scalar boundaries\<close>

text \<open>A byte that continues a UTF-8 sequence, \<open>0b10xxxxxx\<close>.\<close>

definition continuation :: "char \<Rightarrow> bool" where
  "continuation c \<longleftrightarrow> of_char c div 64 = (2 :: nat)"

text \<open>\<open>str::is_char_boundary\<close> and \<open>str::get\<close> of the standard library, on the bytes.\<close>

definition is_char_boundary :: "string \<Rightarrow> nat \<Rightarrow> bool" where
  "is_char_boundary xs i \<longleftrightarrow> i = 0 \<or> i = length xs \<or> i < length xs \<and> \<not> continuation (xs ! i)"

definition str_get :: "string \<Rightarrow> nat \<Rightarrow> nat \<Rightarrow> string option" where
  "str_get xs i j =
     (if i \<le> j \<and> j \<le> length xs \<and> is_char_boundary xs i \<and> is_char_boundary xs j then Some (take (j - i) (drop i xs)) else None)"

text \<open>A string starts with a byte that starts a sequence. That is the part of being UTF-8 the code relies on.\<close>

definition aligned :: "string \<Rightarrow> bool" where
  "aligned xs \<longleftrightarrow> (xs \<noteq> [] \<longrightarrow> \<not> continuation (hd xs))"

fun aligned_rope :: "repr \<Rightarrow> bool" where
  "aligned_rope RepEmpty = True"
| "aligned_rope (RepFlat t) = aligned t"
| "aligned_rope (RepConcat prefix suffix _ _ _) \<longleftrightarrow> aligned_rope prefix \<and> aligned_rope suffix"

lemma aligned_Nil [simp]: "aligned []"
  by (simp add: aligned_def)

lemma aligned_append [intro]: "aligned xs \<Longrightarrow> aligned ys \<Longrightarrow> aligned (xs @ ys)"
  by (auto simp: aligned_def hd_append)

lemma aligned_concat: "\<forall>t \<in> set ts. aligned t \<Longrightarrow> aligned (concat ts)"
  by (induction ts) (auto intro: aligned_append)

lemma aligned_leaf_texts: "aligned_rope r \<Longrightarrow> \<forall>t \<in> set (leaf_texts r). aligned t"
  by (induction r) auto

lemma aligned_bytes: "aligned_rope r \<Longrightarrow> aligned (bytes r)"
  by (simp add: bytes_def aligned_concat aligned_leaf_texts)

lemma boundary_le: "is_char_boundary xs i \<Longrightarrow> i \<le> length xs"
  by (auto simp: is_char_boundary_def)

lemma boundary_iff: "aligned xs \<Longrightarrow> is_char_boundary xs i \<longleftrightarrow> i \<le> length xs \<and> (i < length xs \<longrightarrow> \<not> continuation (xs ! i))"
  by (auto simp: is_char_boundary_def aligned_def hd_conv_nth)

text \<open>A boundary of a part is a boundary of the whole, since parts are cut at boundaries.\<close>

lemma boundary_part:
  assumes "aligned (pre @ cur @ suf)" "aligned cur" "aligned suf" "j \<le> length cur"
  shows "is_char_boundary (pre @ cur @ suf) (length pre + j) \<longleftrightarrow> is_char_boundary cur j"
proof (cases "j < length cur")
  case True
  then show ?thesis using assms by (simp add: boundary_iff nth_append)
next
  case False
  then have "j = length cur" using assms by simp
  then show ?thesis using assms by (auto simp: boundary_iff nth_append aligned_def hd_conv_nth)
qed

lemma aligned_drop: "aligned xs \<Longrightarrow> is_char_boundary xs i \<Longrightarrow> aligned (drop i xs)"
  by (cases "i < length xs") (auto simp: boundary_iff aligned_def hd_drop_conv_nth)

section \<open>The owning cursor\<close>

record text_piece =
  tp_text :: string
  tp_start :: nat
  tp_end :: nat

text \<open>Indexing a string with a range panics off the boundaries.\<close>

definition as_str :: "text_piece \<Rightarrow> fault + string" where
  "as_str self = ok_or (str_get (tp_text self) (tp_start self) (tp_end self)) (Panic ''byte index is not a char boundary'')"

record owned_cursor =
  oc_next :: "repr option"
  oc_pending :: "repr list"
  oc_current :: "string option"
  oc_current_offset :: nat
  oc_position :: nat
  oc_length :: nat

definition cursor_new :: "repr \<Rightarrow> owned_cursor" where
  "cursor_new r =
     \<lparr>oc_next = Some r, oc_pending = [], oc_current = None, oc_current_offset = 0, oc_position = 0, oc_length = repr_len r\<rparr>"

definition is_finished :: "owned_cursor \<Rightarrow> bool" where
  "is_finished self \<longleftrightarrow> oc_position self = oc_length self"

primrec cursor_descend :: "repr \<Rightarrow> owned_cursor \<Rightarrow> owned_cursor" where
  "cursor_descend RepEmpty self = self"
| "cursor_descend (RepFlat t) self = self\<lparr>oc_current := Some t\<rparr>"
| "cursor_descend (RepConcat prefix suffix len leaves materialized) self =
     (case materialized of
        Some t \<Rightarrow> self\<lparr>oc_current := Some t\<rparr>
      | None \<Rightarrow> cursor_descend prefix (self\<lparr>oc_pending := suffix # oc_pending self\<rparr>))"

definition cursor_take :: "owned_cursor \<Rightarrow> (repr \<times> owned_cursor) option" where
  "cursor_take self =
     (case oc_next self of
        Some r \<Rightarrow> Some (r, self\<lparr>oc_next := None\<rparr>)
      | None \<Rightarrow> (case oc_pending self of [] \<Rightarrow> None | r # rest \<Rightarrow> Some (r, self\<lparr>oc_pending := rest\<rparr>)))"

definition cursor_seq :: "owned_cursor \<Rightarrow> repr list" where
  "cursor_seq self = (case oc_next self of None \<Rightarrow> [] | Some r \<Rightarrow> [r]) @ oc_pending self"

definition current_piece :: "owned_cursor \<Rightarrow> text_piece option" where
  "current_piece self =
     (case oc_current self of
        None \<Rightarrow> None
      | Some t \<Rightarrow>
          if oc_current_offset self < length t
          then Some \<lparr>tp_text = t, tp_start = oc_current_offset self, tp_end = length t\<rparr> else None)"

lemma cursor_take_seq: "cursor_take self = Some (r, self') \<Longrightarrow> cursor_seq self = r # cursor_seq self'"
  by (auto simp: cursor_take_def cursor_seq_def split: option.splits list.splits)

lemma cursor_take_None: "cursor_take self = None \<longleftrightarrow> cursor_seq self = []"
  by (auto simp: cursor_take_def cursor_seq_def split: option.splits list.splits)

lemma cursor_descend_size: "oc_next self = None \<Longrightarrow> nodes_size (cursor_seq (cursor_descend r self)) < nodes r + nodes_size (cursor_seq self)"
proof (induction r arbitrary: self)
  case (RepConcat prefix suffix len leaves materialized)
  then show ?case
    using RepConcat.IH(1) [of "self\<lparr>oc_pending := suffix # oc_pending self\<rparr>"] by (auto simp: cursor_seq_def split: option.splits)
qed (auto simp: cursor_seq_def)

lemma cursor_take_next: "cursor_take self = Some (r, self') \<Longrightarrow> oc_next self' = None"
  by (auto simp: cursor_take_def split: option.splits list.splits)

function next_piece :: "owned_cursor \<Rightarrow> text_piece option \<times> owned_cursor" where
  "next_piece self =
     (case current_piece self of
        Some piece \<Rightarrow> (Some piece, self)
      | None \<Rightarrow>
          let self = self\<lparr>oc_current := None, oc_current_offset := 0\<rparr> in
          case cursor_take self of
            None \<Rightarrow> (None, self)
          | Some (r, self) \<Rightarrow> next_piece (cursor_descend r self))"
  by pat_completeness auto
termination
proof (relation "measure (\<lambda>self. nodes_size (cursor_seq self))", goal_cases)
  case (2 self x p r self')
  have "cursor_seq self = cursor_seq x" using 2 by (simp add: cursor_seq_def)
  moreover have "cursor_seq x = r # cursor_seq self'" using cursor_take_seq 2 by simp
  ultimately show ?case using cursor_descend_size [OF cursor_take_next, of x r self' r] 2 by simp
qed simp

lemmas [simp del] = next_piece.simps

definition advance_cursor :: "owned_cursor \<Rightarrow> nat \<Rightarrow> fault + owned_cursor" where
  "advance_cursor self n =
     (if oc_current_offset self + n \<ge> 2 ^ 64 \<or> oc_position self + n \<ge> 2 ^ 64 then Err (Panic ''attempt to add with overflow'')
      else Ok (self\<lparr>oc_current_offset := oc_current_offset self + n, oc_position := oc_position self + n\<rparr>))"

lemma cursor_descend_fields [simp]: "oc_position (cursor_descend r self) = oc_position self" "oc_length (cursor_descend r self) = oc_length self"
    "oc_current_offset (cursor_descend r self) = oc_current_offset self"
  by (induction r arbitrary: self) (auto split: option.splits)

lemma cursor_take_fields:
  "cursor_take self = Some (r, self') \<Longrightarrow> oc_position self' = oc_position self \<and> oc_length self' = oc_length self \<and>
    oc_current self' = oc_current self \<and> oc_current_offset self' = oc_current_offset self"
  by (auto simp: cursor_take_def split: option.splits list.splits)

lemma next_piece_step:
  assumes "current_piece self = None" "cursor_take (self\<lparr>oc_current := None, oc_current_offset := 0\<rparr>) = Some (r, self')"
  shows "next_piece self = next_piece (cursor_descend r self')"
  using assms by (simp add: next_piece.simps [of self] Let_def)

lemma next_piece_current:
  "next_piece self = (piece_opt, self') \<Longrightarrow> oc_position self' = oc_position self \<and> oc_length self' = oc_length self \<and> current_piece self' = piece_opt"
proof (induction self rule: next_piece.induct)
  case (1 self)
  show ?case
  proof (cases "current_piece self")
    case None
    let ?self = "self\<lparr>oc_current := None, oc_current_offset := 0\<rparr>"
    show ?thesis
    proof (cases "cursor_take ?self")
      case no: None
      then show ?thesis using 1(2) None by (auto simp: next_piece.simps [of self] Let_def current_piece_def)
    next
      case (Some p)
      obtain r self1 where p: "p = (r, self1)" by (cases p)
      have "next_piece (cursor_descend r self1) = (piece_opt, self')" using 1(2) next_piece_step [OF None] Some p by simp
      then show ?thesis using 1(1) [OF None refl Some p [symmetric]] cursor_take_fields [OF Some [unfolded p]] by simp
    qed
  qed (use 1(2) in \<open>simp add: next_piece.simps [of self]\<close>)
qed

lemma as_str_nonempty:
  "current_piece self = Some piece \<Longrightarrow> as_str piece = Ok s \<Longrightarrow> s \<noteq> [] \<and> (\<exists>t. oc_current self = Some t \<and> s = drop (oc_current_offset self) t)"
  by (auto simp: current_piece_def as_str_def str_get_def ok_or_def split: option.splits if_splits)

function at_loop :: "owned_cursor \<Rightarrow> nat \<Rightarrow> fault + owned_cursor" where
  "at_loop cursor position =
     (if oc_position cursor < position then
        case next_piece cursor of
          (None, _) \<Rightarrow> Err (Message ''text cursor position is not reachable'')
        | (Some piece, cursor) \<Rightarrow>
            (case as_str piece of
               Inl e \<Rightarrow> Err e
             | Inr s \<Rightarrow>
                 let remaining = position - oc_position cursor; consumed = min remaining (length s) in
                 if \<not> is_char_boundary s consumed then Err (Message ''text cursor position is not a scalar boundary'')
                 else (case advance_cursor cursor consumed of Inl e \<Rightarrow> Err e | Inr cursor \<Rightarrow> at_loop cursor position))
      else Ok cursor)"
  by pat_completeness auto
termination
proof (relation "measure (\<lambda>(cursor, position). position - oc_position cursor)", goal_cases)
  case (2 cursor position x1 cursor1 piece s remaining consumed cursor2)
  have "next_piece cursor = (Some piece, cursor1)" using 2 by simp
  note pf = next_piece_current [OF this]
  have "s \<noteq> []" using as_str_nonempty pf 2 by blast
  then have pos: "consumed > 0" using 2 pf by simp
  have "oc_position cursor2 = oc_position cursor + consumed" using 2 pf by (auto simp: advance_cursor_def split: if_splits)
  moreover have "oc_position cursor < position" using 2 by simp
  ultimately show ?case using pos by simp
qed simp

lemmas [simp del] = at_loop.simps

definition cursor_at :: "repr \<Rightarrow> nat \<Rightarrow> fault + owned_cursor" where
  "cursor_at r position =
     (if position > repr_len r then Err (Message ''text cursor position exceeds source length'')
      else at_loop (cursor_new r) position)"

text \<open>Reading on to the end: every piece is taken and passed over whole.\<close>

function read_pieces :: "owned_cursor \<Rightarrow> fault + string list" where
  "read_pieces cursor =
     (if is_finished cursor then Ok []
      else
        case next_piece cursor of
          (None, _) \<Rightarrow> Ok []
        | (Some piece, cursor) \<Rightarrow>
            (case as_str piece of
               Inl e \<Rightarrow> Err e
             | Inr s \<Rightarrow> (case advance_cursor cursor (length s) of Inl e \<Rightarrow> Err e | Inr cursor \<Rightarrow> rmap (Cons s) (read_pieces cursor))))"
  by pat_completeness auto
termination
proof (relation "measure (\<lambda>cursor. 2 ^ 64 - oc_position cursor)", goal_cases)
  case (2 cursor x1 cursor1 piece s cursor2)
  have "next_piece cursor = (Some piece, cursor1)" using 2 by simp
  note pf = next_piece_current [OF this]
  have "s \<noteq> []" using as_str_nonempty pf 2 by blast
  moreover have "oc_position cursor2 = oc_position cursor1 + length s" "oc_position cursor2 < 2 ^ 64"
    using 2 by (auto simp: advance_cursor_def split: if_splits)
  ultimately show ?case using pf by (simp add: diff_less_mono2)
qed simp

lemmas [simp del] = read_pieces.simps

text \<open>What the cursor has not passed, and its invariant for a source.\<close>

definition cursor_rest :: "owned_cursor \<Rightarrow> string" where
  "cursor_rest self = (case oc_current self of None \<Rightarrow> [] | Some t \<Rightarrow> drop (oc_current_offset self) t) @ concat (map bytes (cursor_seq self))"

definition cursor_ok :: "string \<Rightarrow> owned_cursor \<Rightarrow> bool" where
  "cursor_ok source self \<longleftrightarrow>
     oc_length self = length source \<and> length source \<le> isize_max \<and> oc_position self \<le> length source \<and>
     cursor_rest self = drop (oc_position self) source \<and>
     (case oc_current self of None \<Rightarrow> oc_current_offset self = 0
      | Some t \<Rightarrow> aligned t \<and> is_char_boundary t (oc_current_offset self) \<and> oc_current_offset self \<le> oc_position self) \<and>
     (\<forall>r \<in> set (cursor_seq self). cache_ok r \<and> aligned_rope r)"

lemma cursor_new_ok: "rope_ok r \<Longrightarrow> aligned_rope r \<Longrightarrow> cursor_ok (bytes r) (cursor_new r)"
  by (simp add: cursor_ok_def cursor_new_def cursor_rest_def cursor_seq_def rope_ok_cache rope_ok_bound)

lemma cursor_descend_ok:
  "oc_next self = None \<Longrightarrow> oc_current self = None \<Longrightarrow> oc_current_offset self = 0 \<Longrightarrow> cache_ok r \<Longrightarrow> aligned_rope r \<Longrightarrow>
    cursor_rest (cursor_descend r self) = bytes r @ cursor_rest self \<and>
    (\<forall>t. oc_current (cursor_descend r self) = Some t \<longrightarrow> aligned t) \<and>
    ((\<forall>r \<in> set (cursor_seq self). cache_ok r \<and> aligned_rope r) \<longrightarrow>
     (\<forall>r \<in> set (cursor_seq (cursor_descend r self)). cache_ok r \<and> aligned_rope r))"
proof (induction r arbitrary: self)
  case (RepConcat prefix suffix len leaves materialized)
  show ?case
  proof (cases materialized)
    case None
    let ?self = "self\<lparr>oc_pending := suffix # oc_pending self\<rparr>"
    have push: "cursor_rest ?self = bytes suffix @ cursor_rest self" "set (cursor_seq ?self) = insert suffix (set (cursor_seq self))"
      using RepConcat.prems by (simp_all add: cursor_rest_def cursor_seq_def)
    have down: "cursor_descend (RepConcat prefix suffix len leaves materialized) self = cursor_descend prefix ?self" using None by simp
    have "oc_next ?self = None" "oc_current ?self = None" "oc_current_offset ?self = 0" "cache_ok prefix" "aligned_rope prefix"
      "cache_ok suffix" "aligned_rope suffix" using RepConcat.prems by simp_all
    then show ?thesis
      using RepConcat.IH(1) [of ?self] unfolding down bytes_simps push append_assoc by blast
  next
    case (Some t)
    then have "aligned t" using RepConcat.prems aligned_bytes [of prefix] aligned_bytes [of suffix] by auto
    then show ?thesis using RepConcat.prems Some by (simp add: cursor_rest_def cursor_seq_def)
  qed
qed (simp_all add: cursor_rest_def cursor_seq_def)

lemma next_piece_ok:
  "cursor_ok source self \<Longrightarrow> next_piece self = (piece_opt, self') \<Longrightarrow> cursor_ok source self' \<and> (piece_opt = None \<longrightarrow> cursor_rest self' = [])"
proof (induction self rule: next_piece.induct)
  case (1 self)
  show ?case
  proof (cases "current_piece self")
    case None
    let ?self = "self\<lparr>oc_current := None, oc_current_offset := 0\<rparr>"
    have "cursor_rest ?self = cursor_rest self"
      using None by (auto simp: cursor_rest_def cursor_seq_def current_piece_def split: option.splits if_splits)
    then have ok: "cursor_ok source ?self" using 1(2) by (simp add: cursor_ok_def cursor_seq_def)
    show ?thesis
    proof (cases "cursor_take ?self")
      case no: None
      then have "cursor_rest ?self = []" by (simp add: cursor_take_None cursor_rest_def)
      then show ?thesis using 1(3) None ok no by (auto simp: next_piece.simps [of self] Let_def)
    next
      case (Some p)
      obtain r self1 where p: "p = (r, self1)" by (cases p)
      note t = cursor_take_seq [OF Some [unfolded p]] cursor_take_fields [OF Some [unfolded p]] cursor_take_next [OF Some [unfolded p]]
      have "cursor_rest ?self = bytes r @ cursor_rest self1" using t by (simp add: cursor_rest_def)
      then have "cursor_ok source (cursor_descend r self1)"
        using cursor_descend_ok [of self1 r] t ok by (auto simp: cursor_ok_def is_char_boundary_def split: option.splits)
      then show ?thesis using 1(1) [OF None refl Some p [symmetric]] 1(3) next_piece_step [OF None] Some p by simp
    qed
  qed (use 1(2,3) in \<open>auto simp: next_piece.simps [of self]\<close>)
qed

lemma current_piece_ok:
  assumes "cursor_ok source self" "current_piece self = Some piece"
  obtains s suf where "as_str piece = Ok s" "s \<noteq> []" "source = take (oc_position self) source @ s @ suf" "aligned s" "aligned suf"
    "\<exists>t. oc_current self = Some t \<and> s = drop (oc_current_offset self) t"
proof -
  obtain t where t: "oc_current self = Some t" "oc_current_offset self < length t"
    "piece = \<lparr>tp_text = t, tp_start = oc_current_offset self, tp_end = length t\<rparr>"
    using assms(2) by (auto simp: current_piece_def split: option.splits if_splits)
  have b: "aligned t" "is_char_boundary t (oc_current_offset self)" using assms(1) t(1) by (simp_all add: cursor_ok_def)
  show ?thesis
  proof (rule that)
    show "as_str piece = Ok (drop (oc_current_offset self) t)"
      using t b by (simp add: as_str_def str_get_def is_char_boundary_def)
    have "drop (oc_position self) source = drop (oc_current_offset self) t @ concat (map bytes (cursor_seq self))"
      using assms(1) t(1) by (simp add: cursor_ok_def cursor_rest_def)
    then show "source = take (oc_position self) source @ drop (oc_current_offset self) t @ concat (map bytes (cursor_seq self))"
      by (metis append_take_drop_id)
    show "aligned (concat (map bytes (cursor_seq self)))"
      using assms(1) by (auto simp: cursor_ok_def intro!: aligned_concat aligned_bytes)
  qed (use t b in \<open>simp_all add: aligned_drop\<close>)
qed

lemma advance_cursor_ok:
  assumes ok: "cursor_ok source self" and t: "oc_current self = Some t" and n: "is_char_boundary (drop (oc_current_offset self) t) n"
  shows "\<exists>self'. advance_cursor self n = Ok self' \<and> cursor_ok source self' \<and> oc_position self' = oc_position self + n"
proof -
  let ?off = "oc_current_offset self"
  have b: "aligned t" "is_char_boundary t ?off" using ok t by (simp_all add: cursor_ok_def)
  have le: "n \<le> length t - ?off" "?off \<le> length t" using boundary_le [OF n] boundary_le [OF b(2)] by simp_all
  have "is_char_boundary (take ?off t @ drop ?off t @ []) (length (take ?off t) + n)"
    using boundary_part [of "take ?off t" "drop ?off t" "[]" n] b n le aligned_drop [OF b] by simp
  then have boundary: "is_char_boundary t (?off + n)" using le by simp
  have rest: "drop ?off t @ concat (map bytes (cursor_seq self)) = drop (oc_position self) source"
    using ok t by (simp add: cursor_ok_def cursor_rest_def)
  have "length t - ?off \<le> length source - oc_position self" using arg_cong [OF rest, of length] by simp
  then have fits: "oc_position self + n \<le> length source" "?off \<le> oc_position self" "length source \<le> isize_max"
    using ok t le by (auto simp: cursor_ok_def)
  then have "?off + n < 2 ^ 64" "oc_position self + n < 2 ^ 64" using isize_below_usize [of "oc_position self + n"] by simp_all
  moreover have "drop (?off + n) t @ concat (map bytes (cursor_seq self)) = drop (oc_position self + n) source"
    using arg_cong [OF rest, of "drop n"] le by (simp add: add.commute)
  ultimately show ?thesis
    using ok t boundary fits by (auto simp: advance_cursor_def cursor_ok_def cursor_rest_def cursor_seq_def)
qed

text \<open>One step of either loop: a piece of the text ahead, or the end.\<close>

lemma cursor_step:
  assumes ok: "cursor_ok source self" and more: "oc_position self < length source"
  obtains piece self' s suf where "next_piece self = (Some piece, self')" "as_str piece = Ok s" "s \<noteq> []" "oc_position self' = oc_position self"
    "source = take (oc_position self) source @ s @ suf" "aligned s" "aligned suf"
    "\<And>n. is_char_boundary s n \<Longrightarrow> \<exists>self2. advance_cursor self' n = Ok self2 \<and> cursor_ok source self2 \<and> oc_position self2 = oc_position self + n"
proof -
  obtain piece_opt self' where step: "next_piece self = (piece_opt, self')" by (cases "next_piece self")
  note ok' = next_piece_ok [OF ok step] and cur = next_piece_current [OF step]
  obtain piece where piece: "piece_opt = Some piece" using ok' cur more by (cases piece_opt) (auto simp: cursor_ok_def)
  have "cursor_ok source self'" "current_piece self' = Some piece" using ok' cur piece by simp_all
  from current_piece_ok [OF this] obtain s suf t where s: "as_str piece = Ok s" "s \<noteq> []" "source = take (oc_position self') source @ s @ suf"
    "aligned s" "aligned suf" "oc_current self' = Some t" "s = drop (oc_current_offset self') t" by metis
  show ?thesis
    using that [of piece self' s suf] step piece s cur advance_cursor_ok [of source self' t] ok' by simp
qed

lemma at_loop_ok:
  "cursor_ok source cursor \<Longrightarrow> oc_position cursor \<le> position \<Longrightarrow> position \<le> length source \<Longrightarrow> aligned source \<Longrightarrow>
    (if is_char_boundary source position
     then \<exists>cursor'. at_loop cursor position = Ok cursor' \<and> cursor_ok source cursor' \<and> oc_position cursor' = position
     else oc_position cursor < position \<longrightarrow> at_loop cursor position = Err (Message ''text cursor position is not a scalar boundary''))"
proof (induction "position - oc_position cursor" arbitrary: cursor rule: less_induct)
  case less
  show ?case
  proof (cases "oc_position cursor < position")
    case True
    let ?at = "oc_position cursor"
    obtain piece cursor1 s suf where step: "next_piece cursor = (Some piece, cursor1)" "as_str piece = Ok s" "s \<noteq> []" "oc_position cursor1 = ?at"
      and source: "source = take ?at source @ s @ suf" "aligned s" "aligned suf"
      and advance: "\<And>n. is_char_boundary s n \<Longrightarrow>
        \<exists>self2. advance_cursor cursor1 n = Ok self2 \<and> cursor_ok source self2 \<and> oc_position self2 = ?at + n"
      by (rule cursor_step [OF less.prems(1) less_le_trans [OF True less.prems(3)]]) blast
    let ?n = "min (position - ?at) (length s)"
    have len: "length (take ?at source) = ?at" using True less.prems(3) by simp
    have whole: "is_char_boundary source (?at + ?n) \<longleftrightarrow> is_char_boundary s ?n"
      using boundary_part [of "take ?at source" s suf ?n] source(2,3) less.prems(4) unfolding source(1) [symmetric] len by simp
    show ?thesis
    proof (cases "is_char_boundary s ?n")
      case boundary: True
      obtain cursor2 where c2: "advance_cursor cursor1 ?n = Ok cursor2" "cursor_ok source cursor2" "oc_position cursor2 = ?at + ?n"
        using advance [OF boundary] by blast
      have "at_loop cursor position = at_loop cursor2 position"
        using True step boundary c2(1) by (simp add: at_loop.simps [of cursor] Let_def)
      moreover have "?n > 0" using True step(3) by simp
      then have "position - oc_position cursor2 < position - ?at" "oc_position cursor2 \<le> position" using True unfolding c2(3) by linarith+
      note ih = less.hyps [OF this(1) c2(2) this(2) less.prems(3,4)]
      moreover have "\<not> ?at + ?n < position \<Longrightarrow> is_char_boundary source position"
        using whole boundary True by (cases "position - ?at \<le> length s") simp_all
      ultimately show ?thesis using c2(3) by (auto split: if_splits)
    next
      case False
      have "?n = position - ?at" using False step(3) by (cases "position - ?at \<le> length s") (auto simp: is_char_boundary_def)
      then have "\<not> is_char_boundary source position" using whole False True by simp
      then show ?thesis using True step False by (simp add: at_loop.simps [of cursor] Let_def)
    qed
  next
    case False
    then show ?thesis using less.prems by (simp add: at_loop.simps [of cursor])
  qed
qed

lemma read_pieces_ok:
  "cursor_ok source cursor \<Longrightarrow> \<exists>ts. read_pieces cursor = Ok ts \<and> concat ts = drop (oc_position cursor) source"
proof (induction "length source - oc_position cursor" arbitrary: cursor rule: less_induct)
  case less
  show ?case
  proof (cases "oc_position cursor < length source")
    case True
    obtain piece cursor1 s suf cursor2 where step: "next_piece cursor = (Some piece, cursor1)" "as_str piece = Ok s" "s \<noteq> []"
      "source = take (oc_position cursor) source @ s @ suf"
      and c2: "advance_cursor cursor1 (length s) = Ok cursor2" "cursor_ok source cursor2" "oc_position cursor2 = oc_position cursor + length s"
      by (rule cursor_step [OF less.prems True]) (metis is_char_boundary_def)
    have unfinished: "\<not> is_finished cursor" using True less.prems by (simp add: is_finished_def cursor_ok_def)
    have "drop (oc_position cursor) source = s @ suf" using step(4) True by (metis append_eq_conv_conj length_take min.absorb4)
    then have "drop (oc_position cursor) source = s @ drop (oc_position cursor2) source"
      using c2(3) by (metis append_eq_conv_conj drop_drop add.commute)
    moreover have "length source - oc_position cursor2 < length source - oc_position cursor"
      using c2(3) step(3) True by (simp add: diff_less_mono2)
    then obtain ts where "read_pieces cursor2 = Ok ts" "concat ts = drop (oc_position cursor2) source"
      using less.hyps [OF _ c2(2)] by blast
    ultimately show ?thesis using step unfinished c2(1) by (simp add: read_pieces.simps [of cursor])
  next
    case False
    then have "is_finished cursor" "drop (oc_position cursor) source = []" using less.prems by (simp_all add: is_finished_def cursor_ok_def)
    then show ?thesis by (simp add: read_pieces.simps [of cursor])
  qed
qed

text \<open>A cursor is placed at every scalar boundary of a text and nowhere else: \<open>at\<close> reports a position past
  the end and a position inside a UTF-8 sequence as the errors they are, and otherwise returns a cursor
  at that position. The pieces read from it on, with no panic, are exactly the rest of the text.\<close>

theorem cursor_at_reads_rest:
  assumes "rope_ok r" "aligned_rope r"
  shows "if position > length (bytes r) then cursor_at r position = Err (Message ''text cursor position exceeds source length'')
    else if is_char_boundary (bytes r) position
    then \<exists>cursor ts. cursor_at r position = Ok cursor \<and> oc_position cursor = position \<and>
      read_pieces cursor = Ok ts \<and> concat ts = drop position (bytes r)
    else cursor_at r position = Err (Message ''text cursor position is not a scalar boundary'')"
proof (cases "position \<le> length (bytes r)")
  case True
  have "oc_position (cursor_new r) = 0" by (simp add: cursor_new_def)
  then have "if is_char_boundary (bytes r) position
     then \<exists>cursor'. at_loop (cursor_new r) position = Ok cursor' \<and> cursor_ok (bytes r) cursor' \<and> oc_position cursor' = position
     else 0 < position \<longrightarrow> at_loop (cursor_new r) position = Err (Message ''text cursor position is not a scalar boundary'')"
    using at_loop_ok [OF cursor_new_ok [OF assms] _ True aligned_bytes [OF assms(2)]] by simp
  moreover have "\<not> is_char_boundary (bytes r) position \<Longrightarrow> 0 < position" by (auto simp: is_char_boundary_def)
  moreover have "cursor_at r position = at_loop (cursor_new r) position" using True assms(1) by (simp add: cursor_at_def)
  ultimately show ?thesis using True read_pieces_ok by (metis not_less)
qed (use assms in \<open>simp add: cursor_at_def\<close>)

theorem cursor_at_reads_rest_witness:
  "\<exists>cursor ts. cursor_at (RepConcat (RepFlat ''ab'') (RepFlat ''cd'') 4 2 None) 3 = Ok cursor \<and> read_pieces cursor = Ok ts \<and> concat ts = ''d''"
  using cursor_at_reads_rest [of "RepConcat (RepFlat ''ab'') (RepFlat ''cd'') 4 2 None" 3]
  by (auto simp: isize_max_def aligned_def continuation_def is_char_boundary_def)

section \<open>Projecting ranges\<close>

datatype text_range_error = InvalidRange | CapacityExceeded

datatype range_failure = RangeError text_range_error | RangePanic string

record range_projector =
  rp_source :: repr
  rp_chunks :: "text_chunks option"
  rp_current :: string
  rp_start :: nat
  rp_end :: nat
  rp_previous_end :: nat

definition projector_new :: "repr \<Rightarrow> range_projector" where
  "projector_new source =
     \<lparr>rp_source = source, rp_chunks = None, rp_current = '''', rp_start = 0, rp_end = 0, rp_previous_end = 0\<rparr>"

definition get_chunks :: "range_projector \<Rightarrow> text_chunks" where
  "get_chunks self = (case rp_chunks self of Some it \<Rightarrow> it | None \<Rightarrow> chunks_new (rp_source self))"

definition projector_left :: "range_projector \<Rightarrow> nat" where
  "projector_left self = chunks_left (get_chunks self)"

text \<open>The loop of \<open>locate\<close> and the copying loop of \<open>project\<close>. The projector keeps what it has read when an
  operation fails, so both return it beside the result.\<close>

function locate_loop :: "nat \<Rightarrow> range_projector \<Rightarrow> (range_failure + unit) \<times> range_projector" where
  "locate_loop position self =
     (if position \<ge> rp_end self then
        case chunks_next (get_chunks self) of
          Inl e \<Rightarrow> (Err (RangePanic e), self)
        | Inr (item, it) \<Rightarrow>
            let self = self\<lparr>rp_chunks := Some it\<rparr> in
            (case item of
               None \<Rightarrow> (Err (RangeError InvalidRange), self)
             | Some chunk \<Rightarrow>
                 let self = self\<lparr>rp_current := chunk, rp_start := rp_end self\<rparr> in
                 (case usize_checked_add (rp_end self) (length chunk) of
                    None \<Rightarrow> (Err (RangeError InvalidRange), self)
                  | Some limit' \<Rightarrow> locate_loop position (self\<lparr>rp_end := limit'\<rparr>)))
      else (Ok (), self))"
  by pat_completeness auto
termination by (relation "measure (projector_left \<circ> snd)") (auto simp: projector_left_def get_chunks_def chunks_next_left)

lemmas [simp del] = locate_loop.simps

definition locate :: "nat \<Rightarrow> range_projector \<Rightarrow> (range_failure + unit) \<times> range_projector" where
  "locate position self =
     (if position < rp_start self then (Err (RangeError InvalidRange), self) else locate_loop position self)"

lemma locate_loop_bounds:
  "locate_loop position self = (Ok (), self') \<Longrightarrow> rp_start self \<le> position \<Longrightarrow> rp_start self' \<le> position \<and> position < rp_end self'"
proof (induction position self rule: locate_loop.induct)
  case (1 position self)
  show ?case
  proof (cases "position \<ge> rp_end self")
    case True
    then obtain chunk it limit' where "chunks_next (get_chunks self) = Ok (Some chunk, it)" "usize_checked_add (rp_end self) (length chunk) = Some limit'"
      using 1(2) by (auto simp: locate_loop.simps [of position self] Let_def split: sum.splits option.splits)
    then show ?thesis using 1(1) [OF True _ refl refl _ refl] 1(2) True by (simp add: locate_loop.simps [of position self] Let_def)
  qed (use 1(2,3) in \<open>auto simp: locate_loop.simps [of position self]\<close>)
qed

lemma locate_bounds: "locate position self = (Ok (), self') \<Longrightarrow> rp_start self' \<le> position \<and> position < rp_end self'"
  by (auto simp: locate_def dest: locate_loop_bounds split: if_splits)

function copy_loop :: "nat \<Rightarrow> nat \<Rightarrow> string \<Rightarrow> range_projector \<Rightarrow> (range_failure + string) \<times> range_projector" where
  "copy_loop stop position acc self =
     (if position < stop then
        case locate position self of
          (Inl e, self) \<Rightarrow> (Err e, self)
        | (Inr _, self) \<Rightarrow>
            let limit' = min stop (rp_end self) in
            (case str_get (rp_current self) (position - rp_start self) (limit' - rp_start self) of
               None \<Rightarrow> (Err (RangeError InvalidRange), self)
             | Some selected \<Rightarrow> copy_loop stop limit' (acc @ selected) self)
      else (Ok acc, self))"
  by pat_completeness auto
termination
proof (relation "measure (\<lambda>(stop, position, _). stop - position)", goal_cases)
  case (2 stop position acc self x1 self' u limit' selected)
  then have "position < rp_end self'" "position < stop" using locate_bounds [of position self self'] by simp_all
  then show ?case using 2 by (simp add: min_def diff_less_mono2)
qed simp

lemmas [simp del] = copy_loop.simps

text \<open>\<open>reserve n\<close> says whether \<open>String::try_reserve_exact(n)\<close> succeeds.\<close>

definition project :: "(nat \<Rightarrow> bool) \<Rightarrow> nat \<Rightarrow> nat \<Rightarrow> range_projector \<Rightarrow> (range_failure + repr) \<times> range_projector" where
  "project reserve s e self =
     (if s > e \<or> s < rp_previous_end self \<or> e > repr_len (rp_source self) then (Err (RangeError InvalidRange), self)
      else if s = 0 \<and> e = repr_len (rp_source self) then (Ok (rp_source self), self\<lparr>rp_previous_end := e\<rparr>)
      else if s = e \<and> (s = 0 \<or> s = repr_len (rp_source self)) then (Ok RepEmpty, self\<lparr>rp_previous_end := e\<rparr>)
      else
        case locate s self of
          (Inl err, self) \<Rightarrow> (Err err, self)
        | (Inr _, self) \<Rightarrow>
            if s = e then
              (case str_get (rp_current self) (s - rp_start self) (s - rp_start self) of
                 None \<Rightarrow> (Err (RangeError InvalidRange), self)
               | Some _ \<Rightarrow> (Ok RepEmpty, self\<lparr>rp_previous_end := e\<rparr>))
            else if \<not> reserve (e - s) then (Err (RangeError CapacityExceeded), self)
            else
              (case copy_loop e s '''' self of
                 (Inl err, self) \<Rightarrow> (Err err, self)
               | (Inr acc, self) \<Rightarrow> (Ok (RepFlat acc), self\<lparr>rp_previous_end := e\<rparr>)))"

text \<open>The invariant: the source is what has been passed, the current chunk and the chunks still to come.\<close>

definition projector_ok :: "range_projector \<Rightarrow> bool" where
  "projector_ok self \<longleftrightarrow>
     rope_ok (rp_source self) \<and> aligned_rope (rp_source self) \<and> chunks_ok (get_chunks self) \<and>
     take (rp_start self) (bytes (rp_source self)) @ rp_current self @ concat (texts (get_chunks self)) = bytes (rp_source self) \<and>
     rp_start self \<le> length (bytes (rp_source self)) \<and>
     rp_end self = rp_start self + length (rp_current self) \<and> aligned (rp_current self) \<and> (\<forall>t \<in> set (texts (get_chunks self)). aligned t)"

definition follows :: "range_projector \<Rightarrow> range_projector \<Rightarrow> bool" where
  "follows self self' \<longleftrightarrow> projector_ok self' \<and> rp_source self' = rp_source self \<and> rp_previous_end self' = rp_previous_end self"

lemma aligned_texts: "rope_ok r \<Longrightarrow> aligned_rope r \<Longrightarrow> \<forall>t \<in> set (texts (chunks_new r)). aligned t"
  using aligned_leaf_texts [of r] aligned_bytes [of r] contiguous_bytes [of r] by (auto simp: texts_def chunks_new_def pending_def Let_def)

lemma projector_new_ok: "rope_ok r \<Longrightarrow> aligned_rope r \<Longrightarrow> projector_ok (projector_new r)"
  by (simp add: projector_ok_def projector_new_def get_chunks_def chunks_new_ok chunks_new_texts aligned_texts)

lemma projector_end: "projector_ok self \<Longrightarrow> rp_end self \<le> length (bytes (rp_source self))"
  by (auto simp: projector_ok_def dest!: arg_cong [where f = length])

lemma locate_loop_ok:
  "projector_ok self \<Longrightarrow> rp_start self \<le> position \<Longrightarrow> position < length (bytes (rp_source self)) \<Longrightarrow>
    \<exists>self'. locate_loop position self = (Ok (), self') \<and> follows self self'"
proof (induction position self rule: locate_loop.induct)
  case (1 position self)
  show ?case
  proof (cases "position \<ge> rp_end self")
    case False
    then show ?thesis using 1 by (simp add: locate_loop.simps [of position self] follows_def)
  next
    case True
    let ?src = "bytes (rp_source self)"
    have src: "take (rp_start self) ?src @ rp_current self @ concat (texts (get_chunks self)) = ?src"
      and bound: "length ?src \<le> isize_max" and ok: "chunks_ok (get_chunks self)" and lim: "rp_end self = rp_start self + length (rp_current self)"
      using 1(2) rope_ok_bound by (simp_all add: projector_ok_def)
    have passed: "take (rp_start self) ?src @ rp_current self = take (rp_end self) ?src"
      using src 1(2) unfolding lim projector_ok_def by (metis append_assoc append_eq_conv_conj length_append length_take min.absorb2)
    obtain chunk ts where ts: "texts (get_chunks self) = chunk # ts"
    proof (cases "texts (get_chunks self)")
      case Nil
      have "?src = take (rp_end self) ?src" using src passed Nil by simp
      then have "length ?src \<le> rp_end self" by (metis length_take min.cobounded2)
      then show ?thesis using True 1(4) by simp
    qed (use that in blast)
    obtain it where it: "chunks_next (get_chunks self) = Ok (Some chunk, it)" "chunks_ok it" "texts it = ts"
      using rope_chunks.front_step [OF ok ts] by blast
    have whole: "take (rp_end self) ?src @ chunk @ concat ts = ?src" using src passed ts by (metis append_assoc concat.simps(2))
    have le: "rp_end self \<le> length ?src" by (rule projector_end [OF 1(2)])
    have "rp_end self + length chunk \<le> length ?src" using arg_cong [OF whole, of length] le by simp
    then have add: "usize_checked_add (rp_end self) (length chunk) = Some (rp_end self + length chunk)"
      using bound isize_below_usize [of "rp_end self + length chunk"] by (simp add: usize_checked_add_def)
    let ?self = "self\<lparr>rp_chunks := Some it, rp_current := chunk, rp_start := rp_end self, rp_end := rp_end self + length chunk\<rparr>"
    have ok': "projector_ok ?self" using 1(2) it whole le ts by (simp add: projector_ok_def get_chunks_def)
    have "locate_loop position self = locate_loop position ?self" using True it(1) add by (simp add: locate_loop.simps [of position self] Let_def)
    then show ?thesis using 1(1) [OF True it(1) refl refl refl refl] add ok' True 1(4) by (simp add: follows_def)
  qed
qed

lemma locate_ok:
  assumes "projector_ok self" "rp_start self \<le> position" "position < length (bytes (rp_source self))"
  obtains self' where "locate position self = (Ok (), self')" "follows self self'" "rp_start self' \<le> position" "position < rp_end self'"
proof -
  obtain self' where "locate_loop position self = (Ok (), self')" "follows self self'" using locate_loop_ok [OF assms] by blast
  then show ?thesis using that [of self'] assms(2) locate_bounds [of position self self'] by (simp add: locate_def not_less)
qed

text \<open>Reading from the current chunk is reading from the source.\<close>

lemma str_get_source:
  assumes ok: "projector_ok self" and "rp_start self \<le> i" "i \<le> j" "j \<le> rp_end self"
  shows "str_get (rp_current self) (i - rp_start self) (j - rp_start self) = str_get (bytes (rp_source self)) i j"
proof -
  let ?src = "bytes (rp_source self)" and ?pre = "take (rp_start self) (bytes (rp_source self))" and ?cur = "rp_current self"
  let ?suf = "concat (texts (get_chunks self))"
  have src: "?pre @ ?cur @ ?suf = ?src" and len: "length ?pre = rp_start self" and cur: "aligned ?cur"
    using ok by (simp_all add: projector_ok_def)
  have "aligned ?src" "aligned ?suf" using ok by (simp_all add: projector_ok_def aligned_bytes aligned_concat)
  then have boundary: "is_char_boundary ?src k \<longleftrightarrow> is_char_boundary ?cur (k - rp_start self)" if "rp_start self \<le> k" "k \<le> rp_end self" for k
    using boundary_part [of ?pre ?cur ?suf "k - rp_start self"] cur that ok unfolding src len by (simp add: projector_ok_def)
  have "drop i ?src = drop (i - rp_start self) (?cur @ ?suf)" using assms(2) len by (subst src [symmetric]) simp
  then have "take (j - i) (drop i ?src) = take (j - rp_start self - (i - rp_start self)) (drop (i - rp_start self) ?cur)"
    using assms ok by (simp add: projector_ok_def)
  moreover have "j \<le> length ?src" "j - rp_start self \<le> length ?cur" using assms projector_end [OF ok] ok by (auto simp: projector_ok_def)
  ultimately show ?thesis using boundary [of i] boundary [of j] assms by (simp add: str_get_def)
qed

lemma str_get_split:
  assumes "i \<le> j" "j \<le> k" "is_char_boundary xs j"
  shows "str_get xs i k = (case str_get xs i j of None \<Rightarrow> None | Some a \<Rightarrow> map_option ((@) a) (str_get xs j k))"
proof -
  have "take (k - i) (drop i xs) = take (j - i) (drop i xs) @ take (k - j) (drop j xs)"
    using assms take_add [of "j - i" "k - j" "drop i xs"] by (simp add: add.commute)
  then show ?thesis using assms boundary_le [OF assms(3)] by (auto simp: str_get_def)
qed

lemma copy_loop_ok:
  "projector_ok self \<Longrightarrow> rp_start self \<le> position \<Longrightarrow> position < stop \<Longrightarrow> stop \<le> length (bytes (rp_source self)) \<Longrightarrow>
    (case str_get (bytes (rp_source self)) position stop of
       None \<Rightarrow> fst (copy_loop stop position acc self) = Err (RangeError InvalidRange)
     | Some t \<Rightarrow> \<exists>self'. copy_loop stop position acc self = (Ok (acc @ t), self') \<and> follows self self' \<and> rp_start self' \<le> stop)"
proof (induction "stop - position" arbitrary: position acc self rule: less_induct)
  case less
  let ?src = "bytes (rp_source self)"
  have "position < length ?src" using less.prems by simp
  from locate_ok [OF less.prems(1,2) this] obtain self1 where s1: "locate position self = (Ok (), self1)" "follows self self1"
    "rp_start self1 \<le> position" "position < rp_end self1" by blast
  have ok1: "projector_ok self1" and same: "rp_source self1 = rp_source self" using s1(2) by (simp_all add: follows_def)
  let ?cut = "min stop (rp_end self1)"
  have within: "position \<le> ?cut" "?cut \<le> rp_end self1" using less.prems s1 by simp_all
  note here = str_get_source [OF ok1 s1(3) within, unfolded same]
  have unfold: "copy_loop stop position acc self =
      (case str_get ?src position ?cut of
         None \<Rightarrow> (Err (RangeError InvalidRange), self1) | Some t \<Rightarrow> copy_loop stop ?cut (acc @ t) self1)"
    using less.prems(3) s1(1) here by (simp add: copy_loop.simps [of stop position] Let_def)
  show ?case
  proof (cases "stop \<le> rp_end self1")
    case True
    then show ?thesis using unfold s1 less.prems(3) by (auto simp: copy_loop.simps [of stop stop] split: option.splits)
  next
    case False
    have "is_char_boundary (rp_current self1) (rp_end self1 - rp_start self1)" using ok1 by (simp add: projector_ok_def is_char_boundary_def)
    then have "str_get (rp_current self1) (rp_end self1 - rp_start self1) (rp_end self1 - rp_start self1) \<noteq> None"
      using boundary_le by (auto simp: str_get_def)
    then have "str_get ?src (rp_end self1) (rp_end self1) \<noteq> None" using str_get_source [OF ok1, of "rp_end self1" "rp_end self1"] s1(3,4) same by simp
    then have boundary: "is_char_boundary ?src (rp_end self1)" by (auto simp: str_get_def split: if_splits)
    have "rp_start self1 \<le> rp_end self1" "rp_end self1 < stop" "stop - rp_end self1 < stop - position"
      using s1 False by (simp_all add: diff_less_mono2)
    note ih = less.hyps [OF this(3) ok1 this(1,2), unfolded same, OF less.prems(4)]
    have split: "str_get ?src position stop =
        (case str_get ?src position (rp_end self1) of None \<Rightarrow> None | Some a \<Rightarrow> map_option ((@) a) (str_get ?src (rp_end self1) stop))"
      using str_get_split [OF _ _ boundary, of position stop] s1 False by simp
    show ?thesis
    proof (cases "str_get ?src position (rp_end self1)")
      case None
      then show ?thesis using unfold split False by simp
    next
      case (Some a)
      then show ?thesis using unfold split ih [of "acc @ a"] False s1(2) by (auto simp: follows_def split: option.splits)
    qed
  qed
qed

text \<open>The projections of a sequence of ranges, up to the first that fails, and their specification on the
  bytes: ranges ascend, lie in the text and start and end at scalar boundaries, and memory can be
  reserved for what is neither empty nor the whole text.\<close>

fun project_all :: "(nat \<Rightarrow> bool) \<Rightarrow> (nat \<times> nat) list \<Rightarrow> range_projector \<Rightarrow> range_failure + repr list" where
  "project_all reserve [] self = Ok []"
| "project_all reserve ((s, e) # ranges) self =
     (case project reserve s e self of
        (Inl err, _) \<Rightarrow> Err err
      | (Inr r, self) \<Rightarrow> rmap (Cons r) (project_all reserve ranges self))"

fun slices :: "(nat \<Rightarrow> bool) \<Rightarrow> string \<Rightarrow> nat \<Rightarrow> (nat \<times> nat) list \<Rightarrow> range_failure + string list" where
  "slices reserve source previous [] = Ok []"
| "slices reserve source previous ((s, e) # ranges) =
     (if s > e \<or> s < previous \<or> e > length source then Err (RangeError InvalidRange)
      else if s < e \<and> (s, e) \<noteq> (0, length source) \<and> \<not> reserve (e - s) then Err (RangeError CapacityExceeded)
      else
        case str_get source s e of
          None \<Rightarrow> Err (RangeError InvalidRange)
        | Some t \<Rightarrow> rmap (Cons t) (slices reserve source e ranges))"

lemma project_ok:
  assumes ok: "projector_ok self" and order: "rp_start self \<le> rp_previous_end self"
  shows "case slices reserve (bytes (rp_source self)) (rp_previous_end self) [(s, e)] of
      Inl err \<Rightarrow> fst (project reserve s e self) = Err err
    | Inr ts \<Rightarrow> \<exists>r self'. project reserve s e self = (Ok r, self') \<and> ts = [bytes r] \<and> projector_ok self' \<and> rp_source self' = rp_source self \<and>
        rp_previous_end self' = e \<and> rp_start self' \<le> e"
proof -
  let ?src = "bytes (rp_source self)"
  have len: "repr_len (rp_source self) = length ?src" using ok by (simp add: projector_ok_def)
  have keep: "projector_ok (self'\<lparr>rp_previous_end := n\<rparr>) = projector_ok self'" for self' n
    by (cases "rp_chunks self'") (simp_all add: projector_ok_def get_chunks_def)
  show ?thesis
  proof (cases "s > e \<or> s < rp_previous_end self \<or> e > length ?src")
    case True
    then show ?thesis using len by (auto simp: project_def)
  next
    case inside: False
    show ?thesis
    proof (cases "(s = 0 \<and> e = length ?src) \<or> (s = e \<and> (s = 0 \<or> s = length ?src))")
      case True
      then have "str_get ?src s e = Some (take (e - s) (drop s ?src))" by (auto simp: str_get_def is_char_boundary_def)
      then show ?thesis using True inside len ok order by (auto simp: project_def keep)
    next
      case False
      then have edge: "s < length ?src" "rp_start self \<le> s" using inside order by auto
      from locate_ok [OF ok edge(2,1)] obtain self1 where s1: "locate s self = (Ok (), self1)" "follows self self1"
        "rp_start self1 \<le> s" "s < rp_end self1" by blast
      have ok1: "projector_ok self1" and same: "rp_source self1 = rp_source self" using s1(2) by (simp_all add: follows_def)
      show ?thesis
      proof (cases "s = e")
        case True
        have "str_get (rp_current self1) (s - rp_start self1) (s - rp_start self1) = str_get ?src s s"
          using str_get_source [OF ok1 s1(3)] s1(4) same by simp
        moreover have "str_get ?src s s = Some t \<Longrightarrow> t = []" for t by (auto simp: str_get_def split: if_splits)
        ultimately show ?thesis
          using True False inside len s1 ok1 same by (auto simp: project_def keep split: option.splits)
      next
        case ne: False
        then have "s < e" "e \<le> length (bytes (rp_source self1))" using inside same by auto
        note copy = copy_loop_ok [OF ok1 s1(3) this, of "''''", unfolded same]
        show ?thesis
        proof (cases "str_get ?src s e")
          case None
          then show ?thesis using copy ne False inside len s1 \<open>s < e\<close> by (auto simp: project_def split: prod.splits sum.splits)
        next
          case (Some t)
          then obtain self2 where "copy_loop e s '''' self1 = (Ok t, self2)" "follows self1 self2" "rp_start self2 \<le> e" using copy by auto
          then show ?thesis using Some ne False inside len s1 same by (auto simp: project_def keep follows_def)
        qed
      qed
    qed
  qed
qed

lemma slices_Cons:
  "slices reserve source previous ((s, e) # ranges) =
    rbind (slices reserve source previous [(s, e)]) (\<lambda>ts. rmap ((@) ts) (slices reserve source e ranges))"
  by (cases "slices reserve source e ranges") (auto split: option.splits)

lemma rmap_Cons: "rmap (map f) (rmap (Cons x) m) = rmap (Cons (f x)) (rmap (map f) m)"
  by (cases m) auto

lemma project_all_ok:
  assumes "projector_ok self" "rp_start self \<le> rp_previous_end self"
  shows "rmap (map bytes) (project_all reserve ranges self) = slices reserve (bytes (rp_source self)) (rp_previous_end self) ranges"
  using assms
proof (induction ranges arbitrary: self)
  case (Cons p ranges)
  obtain s e where p: "p = (s, e)" by (cases p)
  note step = project_ok [OF Cons.prems, of reserve s e]
  note cons = slices_Cons [of reserve "bytes (rp_source self)" "rp_previous_end self" s e ranges]
  show ?case
  proof (cases "slices reserve (bytes (rp_source self)) (rp_previous_end self) [(s, e)]")
    case (Inl err)
    then have "fst (project reserve s e self) = Err err" using step by simp
    then show ?thesis unfolding p cons Inl by (cases "project reserve s e self") simp
  next
    case (Inr ts)
    then obtain r self' where r: "project reserve s e self = (Ok r, self')" "ts = [bytes r]" "projector_ok self'" "rp_source self' = rp_source self"
      "rp_previous_end self' = e" "rp_start self' \<le> e" using step by auto
    then have "rmap (map bytes) (project_all reserve ranges self') = slices reserve (bytes (rp_source self)) e ranges" using Cons.IH [of self'] by simp
    moreover have "(@) [x] = Cons x" for x :: string by (simp add: fun_eq_iff)
    ultimately show ?thesis unfolding p cons Inr using r by (simp add: rmap_Cons)
  qed
qed simp

text \<open>\<^bold>\<open>C24\<close>. Projecting ranges agrees with slicing the bytes: for any sequence of ranges, ascending or not, inside
  the text or not, the projector that walks the rope once returns the same texts and stops at the same
  range with the same error as slicing the flat text would, and does not panic.\<close>

theorem projection_is_slicing:
  assumes "rope_ok r" "aligned_rope r"
  shows "rmap (map bytes) (project_all reserve ranges (projector_new r)) = slices reserve (bytes r) 0 ranges"
  using project_all_ok [OF projector_new_ok [OF assms]] by (simp add: projector_new_def)

theorem projection_is_slicing_witness:
  "rmap (map bytes) (project_all (\<lambda>_. True) [(0, 1), (1, 3), (2, 4)] (projector_new (RepConcat (RepFlat ''ab'') (RepFlat ''cd'') 4 2 None))) =
    Err (RangeError InvalidRange)"
proof -
  let ?r = "RepConcat (RepFlat ''ab'') (RepFlat ''cd'') 4 2 None"
  have "rope_ok ?r" "aligned_rope ?r" by (simp_all add: isize_max_def aligned_def continuation_def)
  note projection_is_slicing [OF this, of "\<lambda>_. True" "[(0, 1), (1, 3), (2, 4)]"]
  also have "slices (\<lambda>_. True) (bytes ?r) 0 [(0, 1), (1, 3), (2, 4)] = Err (RangeError InvalidRange)" by code_simp
  finally show ?thesis .
qed

end
