(* ===== verification/Value_Structure.thy ===== *)
theory Value_Structure
  imports Value
begin

text \<open>
  Structural equality of runtime values, as a specification. A value has a head and fields: the head is
  what the value has of its own, the fields are its members, labelled in a record. Equality compares
  heads and fields, in order or, for sets and records, up to order. \<open>Value_Comparison\<close> shows that the
  iterative comparison computes it, \<open>Value_Membership\<close> that hashing respects it.

  What the model does not look into, \<open>Opaque\<close> members and comparators, is compared by a parameter.
\<close>

section \<open>Heads and fields\<close>

datatype shape =
    ShUnit
  | ShBool bool
  | ShNumber numeric_value
  | ShString string
  | ShBytes string
  | ShNominal nat
  | ShTrust nat
  | ShExistential nat nat
  | ShTuple
  | ShArray
  | ShList
  | ShSlice
  | ShStack
  | ShDeque
  | ShQueue
  | ShSet
  | ShMap
  | ShRecord
  | ShRange range_bounds
  | ShVariant string
  | ShNone
  | ShSome

datatype sorted_kind = OrderedMapKind | OrderedSetKind | PriorityQueueKind

datatype 'x head = HdShape shape | HdSorted sorted_kind "'x option" | HdOpaque 'x

primrec head_of :: "'x interp_value \<Rightarrow> 'x head" where
  "head_of Unit = HdShape ShUnit"
| "head_of (Bool b) = HdShape (ShBool b)"
| "head_of (Number n) = HdShape (ShNumber n)"
| "head_of (String s) = HdShape (ShString s)"
| "head_of (Bytes s) = HdShape (ShBytes s)"
| "head_of (Nominal ty v) = HdShape (ShNominal ty)"
| "head_of (Trust w v) = HdShape (ShTrust w)"
| "head_of (Existential ot ct v) = HdShape (ShExistential ot ct)"
| "head_of (Tuple vs) = HdShape ShTuple"
| "head_of (Array vs) = HdShape ShArray"
| "head_of (List vs) = HdShape ShList"
| "head_of (Slice vs) = HdShape ShSlice"
| "head_of (Stack vs) = HdShape ShStack"
| "head_of (Deque vs) = HdShape ShDeque"
| "head_of (Queue vs) = HdShape ShQueue"
| "head_of (Set vs index) = HdShape ShSet"
| "head_of (Map entries index) = HdShape ShMap"
| "head_of (Record fs) = HdShape ShRecord"
| "head_of (Range r) = HdShape (ShRange (range_bounds r))"
| "head_of (Variant name vs) = HdShape (ShVariant name)"
| "head_of OptionNone = HdShape ShNone"
| "head_of (OptionSome v) = HdShape ShSome"
| "head_of (OrderedMap t c) = HdSorted OrderedMapKind c"
| "head_of (OrderedSet t c) = HdSorted OrderedSetKind c"
| "head_of (PriorityQueue entry_slots heap_slots c ready_flag) = HdSorted PriorityQueueKind c"
| "head_of (Opaque x) = HdOpaque x"

definition unlabelled :: "'v list \<Rightarrow> (string \<times> 'v) list" where
  "unlabelled vs = map (Pair '''') vs"

fun flat_pairs :: "('v \<times> 'v) list \<Rightarrow> 'v list" where
  "flat_pairs [] = []"
| "flat_pairs ((k, v) # es) = k # v # flat_pairs es"

definition live_slots :: "('p \<times> 'v) option list \<Rightarrow> ('p \<times> 'v) list" where
  "live_slots ss = List.map_filter id ss"

primrec fields_of :: "'x interp_value \<Rightarrow> (string \<times> 'x interp_value) list" where
  "fields_of Unit = []"
| "fields_of (Bool b) = []"
| "fields_of (Number n) = []"
| "fields_of (String s) = []"
| "fields_of (Bytes s) = []"
| "fields_of (Nominal ty v) = unlabelled [v]"
| "fields_of (Trust w v) = unlabelled [v]"
| "fields_of (Existential ot ct v) = unlabelled [v]"
| "fields_of (Tuple vs) = unlabelled vs"
| "fields_of (Array vs) = unlabelled vs"
| "fields_of (List vs) = unlabelled vs"
| "fields_of (Slice vs) = unlabelled vs"
| "fields_of (Stack vs) = unlabelled vs"
| "fields_of (Deque vs) = unlabelled vs"
| "fields_of (Queue vs) = unlabelled vs"
| "fields_of (Set vs index) = unlabelled vs"
| "fields_of (Map entries index) = unlabelled (flat_pairs entries)"
| "fields_of (Record fs) = fs"
| "fields_of (Range r) = unlabelled [range_start r, range_end r]"
| "fields_of (Variant name vs) = unlabelled vs"
| "fields_of OptionNone = []"
| "fields_of (OptionSome v) = unlabelled [v]"
| "fields_of (OrderedMap t c) = unlabelled (flat_pairs (inorder t))"
| "fields_of (OrderedSet t c) = unlabelled (map fst (inorder t))"
| "fields_of (PriorityQueue entry_slots heap_slots c ready_flag) = unlabelled (flat_pairs (live_slots entry_slots))"
| "fields_of (Opaque x) = []"

fun unordered :: "'x interp_value \<Rightarrow> bool" where
  "unordered (Set _ _) = True"
| "unordered (Record _) = True"
| "unordered _ = False"

definition kids :: "'x interp_value \<Rightarrow> 'x interp_value list" where
  "kids v = map snd (fields_of v)"

lemma unlabelled_simps [simp]: "map snd (unlabelled vs) = vs" "length (unlabelled vs) = length vs" "unlabelled [] = []"
    "unlabelled (v # vs) = ('''', v) # unlabelled vs"
  by (simp_all add: unlabelled_def comp_def)

lemma length_flat_pairs [simp]: "length (flat_pairs es) = 2 * length es"
  by (induction es rule: flat_pairs.induct) auto

lemma live_slots_simps [simp]: "live_slots [] = []" "live_slots (None # ss) = live_slots ss" "live_slots (Some e # ss) = e # live_slots ss"
  by (simp_all add: live_slots_def map_filter_simps)

section \<open>The fields are smaller\<close>

abbreviation kid_sum :: "'x interp_value list \<Rightarrow> nat" where
  "kid_sum vs \<equiv> sum_list (map size vs)"

lemma kid_sum_list: "kid_sum vs \<le> size_list size vs"
  by (induction vs) auto

lemma kid_sum_pairs: "kid_sum (flat_pairs es) \<le> size_list (size_prod size size) es"
  by (induction es rule: flat_pairs.induct) auto

lemma kid_sum_record: "kid_sum (map snd fs) \<le> size_list (size_prod (\<lambda>_. 0) size) fs"
  by (induction fs) auto

lemma kid_sum_append: "kid_sum (flat_pairs (xs @ ys)) = kid_sum (flat_pairs xs) + kid_sum (flat_pairs ys)"
  by (induction xs rule: flat_pairs.induct) auto

lemma kid_sum_inorder: "kid_sum (flat_pairs (inorder t)) \<le> size_option (size_node size size) t"
proof (induction t rule: inorder.induct)
  case (2 e l r h c)
  show ?case using 2 by (cases e) (simp add: kid_sum_append)
qed simp

lemma kid_sum_keys: "kid_sum (map fst es) \<le> kid_sum (flat_pairs es)"
  by (induction es rule: flat_pairs.induct) auto

lemma kid_sum_slots: "kid_sum (flat_pairs (live_slots ss)) \<le> size_list (size_option (size_prod size size)) ss"
proof (induction ss)
  case (Cons s ss)
  then show ?case by (cases s) auto
qed simp

lemma size_kids: "kids v \<noteq> [] \<Longrightarrow> kid_sum (kids v) < size v"
proof (cases v)
  case (Range r)
  then show ?thesis by (cases r) (simp add: kids_def)
next
  case (OrderedMap t c)
  then show ?thesis using kid_sum_inorder [of t] by (simp add: kids_def)
next
  case (PriorityQueue ss heap_slots c ready_flag)
  then show ?thesis using kid_sum_slots [of ss] by (simp add: kids_def)
next
  case (OrderedSet t c)
  then show ?thesis using kid_sum_keys [of "inorder t"] kid_sum_inorder [of t] by (simp add: kids_def)
qed (use kid_sum_list kid_sum_pairs kid_sum_record kid_sum_inorder kid_sum_slots in \<open>auto simp: kids_def less_Suc_eq_le\<close>)

lemma size_kid: "w \<in> set (kids v) \<Longrightarrow> size w < size v"
proof -
  assume w: "w \<in> set (kids v)"
  then have "size w \<le> kid_sum (kids v)" by (simp add: member_le_sum_list)
  then show ?thesis using size_kids [of v] w by fastforce
qed

lemma size_field: "(n, w) \<in> set (fields_of v) \<Longrightarrow> size w < size v"
  by (rule size_kid) (force simp: kids_def)

section \<open>Equality\<close>

definition option_eq :: "('x \<Rightarrow> 'x \<Rightarrow> bool) \<Rightarrow> 'x option \<Rightarrow> 'x option \<Rightarrow> bool" where
  "option_eq oq a b = (case (a, b) of (Some x, Some y) \<Rightarrow> oq x y | (None, None) \<Rightarrow> True | _ \<Rightarrow> False)"

fun head_eq :: "('x \<Rightarrow> 'x \<Rightarrow> bool) \<Rightarrow> 'x head \<Rightarrow> 'x head \<Rightarrow> bool" where
  "head_eq oq (HdShape s) (HdShape t) \<longleftrightarrow> s = t"
| "head_eq oq (HdSorted k c) (HdSorted l d) \<longleftrightarrow> k = l \<and> option_eq oq c d"
| "head_eq oq (HdOpaque x) (HdOpaque y) = oq x y"
| "head_eq oq _ _ = False"

function veq :: "('x \<Rightarrow> 'x \<Rightarrow> bool) \<Rightarrow> 'x interp_value \<Rightarrow> 'x interp_value \<Rightarrow> bool" where
  "veq oq a b \<longleftrightarrow> head_eq oq (head_of a) (head_of b) \<and> length (fields_of a) = length (fields_of b) \<and>
     (if unordered a then \<forall>p \<in> set (fields_of a). \<exists>q \<in> set (fields_of b). fst p = fst q \<and> veq oq (snd p) (snd q)
      else \<forall>i < length (fields_of a). i < length (fields_of b) \<longrightarrow> veq oq (snd (fields_of a ! i)) (snd (fields_of b ! i)))"
  by pat_completeness auto
termination
proof (relation "measure (\<lambda>(_, a, _). size a)", goal_cases)
  case (2 oq a b p q)
  then show ?case using size_field [of "fst p" "snd p" a] by simp
next
  case (3 oq a b i)
  then show ?case using size_field [of "fst (fields_of a ! i)" "snd (fields_of a ! i)" a] by simp
qed simp

lemmas [simp del] = veq.simps

abbreviation field_eq :: "('x \<Rightarrow> 'x \<Rightarrow> bool) \<Rightarrow> string \<times> 'x interp_value \<Rightarrow> string \<times> 'x interp_value \<Rightarrow> bool" where
  "field_eq oq p q \<equiv> fst p = fst q \<and> veq oq (snd p) (snd q)"

text \<open>Well-formed values: an opaque member and a comparator can be compared, the index of a set describes
  its members, which are distinct, the labels of a record are distinct, the ends of a range are
  numbers, and the counts of trees and heaps are right.\<close>

fun counts_ok :: "('k, 'v) link \<Rightarrow> bool" where
  "counts_ok None = True"
| "counts_ok (Some (Node e l r h c)) \<longleftrightarrow> counts_ok l \<and> counts_ok r \<and> c = count l + count r + 1"

definition comparable :: "('x \<Rightarrow> 'x \<Rightarrow> bool) \<Rightarrow> 'x option \<Rightarrow> bool" where
  "comparable oq c = option_eq oq c c"

fun local_ok :: "('x \<Rightarrow> 'x \<Rightarrow> bool) \<Rightarrow> (nat \<Rightarrow> 'x interp_value \<Rightarrow> nat) \<Rightarrow> 'x interp_value \<Rightarrow> bool" where
  "local_ok oq hash (Opaque x) \<longleftrightarrow> oq x x"
| "local_ok oq hash (Set vs index) \<longleftrightarrow> index_ok hash vs index \<and> pairwise_distinct (veq oq) vs"
| "local_ok oq hash (Record fs) \<longleftrightarrow> distinct (map fst fs)"
| "local_ok oq hash (Range r) \<longleftrightarrow> as_number (range_start r) \<noteq> None \<and> as_number (range_end r) \<noteq> None"
| "local_ok oq hash (OrderedMap t c) \<longleftrightarrow> counts_ok t \<and> comparable oq c"
| "local_ok oq hash (OrderedSet t c) \<longleftrightarrow> counts_ok t \<and> comparable oq c"
| "local_ok oq hash (PriorityQueue ss heap_slots c ready_flag) \<longleftrightarrow> length heap_slots = length (live_slots ss) \<and> comparable oq c"
| "local_ok oq hash _ = True"

function value_ok :: "('x \<Rightarrow> 'x \<Rightarrow> bool) \<Rightarrow> (nat \<Rightarrow> 'x interp_value \<Rightarrow> nat) \<Rightarrow> 'x interp_value \<Rightarrow> bool" where
  "value_ok oq hash v \<longleftrightarrow> local_ok oq hash v \<and> (\<forall>w \<in> set (kids v). value_ok oq hash w)"
  by pat_completeness auto
termination by (relation "measure (\<lambda>(_, _, v). size v)") (auto simp: size_kid)

lemmas [simp del] = value_ok.simps

text \<open>The comparison of what the model does not look into is an equivalence where it is reflexive.\<close>

definition opaque_equivalence :: "('x \<Rightarrow> 'x \<Rightarrow> bool) \<Rightarrow> bool" where
  "opaque_equivalence oq \<longleftrightarrow> (\<forall>x y. oq x y \<longrightarrow> oq y x) \<and> (\<forall>x y z. oq x y \<longrightarrow> oq y z \<longrightarrow> oq x z)"

definition unordered_head :: "'x head \<Rightarrow> bool" where
  "unordered_head h \<longleftrightarrow> h = HdShape ShSet \<or> h = HdShape ShRecord"

lemma unordered_head: "unordered v = unordered_head (head_of v)"
  by (cases v) (simp_all add: unordered_head_def)

lemma head_eq_unordered: "head_eq oq (head_of a) (head_of b) \<Longrightarrow> unordered a = unordered b"
  unfolding unordered_head by (cases "head_of a"; cases "head_of b") (auto simp: unordered_head_def)

lemma opaque_laws: "opaque_equivalence oq \<Longrightarrow> oq x y \<Longrightarrow> oq y x" "opaque_equivalence oq \<Longrightarrow> oq x y \<Longrightarrow> oq y z \<Longrightarrow> oq x z"
  unfolding opaque_equivalence_def by blast+

lemma option_eq_sym: "opaque_equivalence oq \<Longrightarrow> option_eq oq a b \<Longrightarrow> option_eq oq b a"
  by (cases a; cases b) (auto simp: option_eq_def intro: opaque_laws(1))

lemma option_eq_trans: "opaque_equivalence oq \<Longrightarrow> option_eq oq a b \<Longrightarrow> option_eq oq b c \<Longrightarrow> option_eq oq a c"
  by (cases a; cases b; cases c) (auto simp: option_eq_def intro: opaque_laws(2))

lemma head_eq_sym: "opaque_equivalence oq \<Longrightarrow> head_eq oq h k \<Longrightarrow> head_eq oq k h"
  by (cases h; cases k) (auto intro: opaque_laws(1) option_eq_sym)

lemma head_eq_trans: "opaque_equivalence oq \<Longrightarrow> head_eq oq h k \<Longrightarrow> head_eq oq k l \<Longrightarrow> head_eq oq h l"
  by (cases h; cases k; cases l) (auto intro: opaque_laws(2) option_eq_trans)

lemma head_eq_shape: "head_eq oq h k \<Longrightarrow> h = HdShape s \<longleftrightarrow> k = HdShape s"
  by (cases h; cases k) auto

lemma head_eq_refl: "local_ok oq hash v \<Longrightarrow> head_eq oq (head_of v) (head_of v)"
  by (cases v) (auto simp: comparable_def)

lemma nth_all2: "length xs = length ys \<Longrightarrow> (\<forall>i < length xs. i < length ys \<longrightarrow> P (xs ! i) (ys ! i)) \<longleftrightarrow> list_all2 P xs ys"
  by (auto simp: list_all2_conv_all_nth)

lemma pairwise_distinct_Cons:
  "pairwise_distinct E (x # xs) \<longleftrightarrow> pairwise_distinct E xs \<and> (\<forall>y \<in> set xs. \<not> E x y)"
proof -
  have "pairwise_distinct E (x # xs) \<longleftrightarrow> (\<forall>j < length xs. \<not> E x (xs ! j) \<and> (\<forall>i < j. \<not> E (xs ! i) (xs ! j)))"
    unfolding pairwise_distinct_def by (simp only: length_Cons All_less_Suc2 nth_Cons_0 nth_Cons_Suc not_less0 simp_thms)
  then show ?thesis unfolding pairwise_distinct_def by (metis in_set_conv_nth)
qed

text \<open>Members that are pairwise distinct and all have a partner are matched one to one.\<close>

lemma matching:
  assumes "length xs = length ys" "\<And>x. x \<in> set xs \<Longrightarrow> \<exists>y \<in> set ys. R x y"
    and "\<And>x x' y. x \<in> set xs \<Longrightarrow> x' \<in> set xs \<Longrightarrow> y \<in> set ys \<Longrightarrow> R x y \<Longrightarrow> R x' y \<Longrightarrow> E x x'"
    and "pairwise_distinct E xs"
  shows "\<exists>zs. mset zs = mset ys \<and> list_all2 R xs zs"
  using assms
proof (induction xs arbitrary: ys)
  case (Cons x xs)
  obtain y where y: "y \<in> set ys" "R x y" using Cons.prems(2) by auto
  have apart: "\<not> E x x'" if "x' \<in> set xs" for x' using Cons.prems(4) that by (simp add: pairwise_distinct_Cons)
  have "\<exists>y' \<in> set (remove1 y ys). R x' y'" if x': "x' \<in> set xs" for x'
  proof -
    obtain y' where y': "y' \<in> set ys" "R x' y'" using Cons.prems(2) x' by auto
    then have "y' \<noteq> y" using Cons.prems(3) [of x x' y] y x' apart by auto
    then show ?thesis using y' by auto
  qed
  moreover have "pairwise_distinct E xs"
    using Cons.prems(4) by (simp add: pairwise_distinct_Cons)
  moreover have "length xs = length (remove1 y ys)" using Cons.prems(1) y(1) by (simp add: length_remove1)
  ultimately obtain zs where "mset zs = mset (remove1 y ys)" "list_all2 R xs zs"
    using Cons.IH [of "remove1 y ys"] Cons.prems(3) by (metis list.set_intros(2) notin_set_remove1)
  then show ?case using y by (intro exI [of _ "y # zs"]) simp
qed simp

lemma veq_iff:
  "veq oq a b \<longleftrightarrow> head_eq oq (head_of a) (head_of b) \<and> length (fields_of a) = length (fields_of b) \<and>
     (if unordered a then \<forall>p \<in> set (fields_of a). \<exists>q \<in> set (fields_of b). field_eq oq p q
      else list_all2 (\<lambda>p q. veq oq (snd p) (snd q)) (fields_of a) (fields_of b))"
  unfolding veq.simps [of oq a b] by (cases "length (fields_of a) = length (fields_of b)") (simp_all add: nth_all2 [symmetric])

lemma all2_unlabelled: "list_all2 (\<lambda>p q. P (snd p) (snd q)) (unlabelled vs) (unlabelled ws) \<longleftrightarrow> list_all2 P vs ws"
  by (simp add: unlabelled_def list_all2_map1 list_all2_map2)

lemma veq_plain:
  "fields_of a = unlabelled vs \<Longrightarrow> fields_of b = unlabelled ws \<Longrightarrow> \<not> unordered a \<Longrightarrow>
    veq oq a b \<longleftrightarrow> head_eq oq (head_of a) (head_of b) \<and> length vs = length ws \<and> list_all2 (veq oq) vs ws"
  by (auto simp: veq_iff [of oq a] all2_unlabelled)

lemma value_ok_field: "value_ok oq hash v \<Longrightarrow> p \<in> set (fields_of v) \<Longrightarrow> value_ok oq hash (snd p)"
  by (subst (asm) value_ok.simps) (auto simp: kids_def)

lemma value_ok_local: "value_ok oq hash v \<Longrightarrow> local_ok oq hash v"
  by (subst (asm) value_ok.simps) blast

lemma distinct_pairwise: "distinct (map fst fs) \<Longrightarrow> pairwise_distinct (\<lambda>p q. fst p = fst q \<and> P p q) fs"
  unfolding pairwise_distinct_def distinct_conv_nth by (metis length_map less_trans nat_neq_iff nth_map)

lemma fields_distinct: "local_ok oq hash v \<Longrightarrow> unordered v \<Longrightarrow> pairwise_distinct (field_eq oq) (fields_of v)"
  by (cases v) (simp_all add: distinct_pairwise, simp add: pairwise_distinct_def unlabelled_def)

lemma veq_trans: "opaque_equivalence oq \<Longrightarrow> veq oq a b \<Longrightarrow> veq oq b c \<Longrightarrow> veq oq a c"
proof (induction "size a" arbitrary: a b c rule: less_induct)
  case less
  note oq = less.prems(1)
  have ih: "veq oq (snd p) y \<Longrightarrow> veq oq y z \<Longrightarrow> veq oq (snd p) z" if "p \<in> set (fields_of a)" for p y z
    using less.hyps oq size_field [of "fst p" "snd p" a] that by simp
  have head: "head_eq oq (head_of a) (head_of b)" "head_eq oq (head_of b) (head_of c)" using less.prems(2,3) unfolding veq_iff [of oq a] veq_iff [of oq b] by blast+
  have len: "length (fields_of a) = length (fields_of c)" using less.prems(2,3) unfolding veq_iff [of oq a] veq_iff [of oq b] by simp
  show ?case
  proof (cases "unordered a")
    case True
    then have ub: "unordered b" using head_eq_unordered [OF head(1)] by simp
    have "\<exists>r \<in> set (fields_of c). field_eq oq p r" if p: "p \<in> set (fields_of a)" for p
    proof -
      obtain q where q: "q \<in> set (fields_of b)" "field_eq oq p q" using less.prems(2) True p by (auto simp: veq_iff [of oq a])
      obtain r where "r \<in> set (fields_of c)" "field_eq oq q r" using less.prems(3) ub q by (auto simp: veq_iff [of oq b])
      then show ?thesis using ih [OF p] q by auto
    qed
    then show ?thesis using True head_eq_trans [OF oq head] len by (simp add: veq_iff [of oq a])
  next
    case False
    then have ub: "\<not> unordered b" using head_eq_unordered [OF head(1)] by simp
    have "list_all2 (\<lambda>p q. veq oq (snd p) (snd q)) (fields_of a) (fields_of c)"
      using less.prems False ub ih unfolding veq_iff [of oq a] veq_iff [of oq b] list_all2_conv_all_nth by (metis nth_mem)
    then show ?thesis using False head_eq_trans [OF oq head] len by (simp add: veq_iff [of oq a])
  qed
qed

lemma all2_right: "list_all2 R xs ys \<Longrightarrow> y \<in> set ys \<Longrightarrow> \<exists>x \<in> set xs. R x y"
  by (induction rule: list_all2_induct) auto

lemma field_matching:
  assumes oq: "opaque_equivalence oq" and ok: "value_ok oq hash a" and eq: "veq oq a b" and un: "unordered a"
    and sym: "\<And>p q. p \<in> set (fields_of a) \<Longrightarrow> q \<in> set (fields_of b) \<Longrightarrow> veq oq (snd p) (snd q) \<Longrightarrow> veq oq (snd q) (snd p)"
  shows "\<exists>zs. mset zs = mset (fields_of b) \<and> list_all2 (field_eq oq) (fields_of a) zs"
proof (rule matching [where R = "field_eq oq" and E = "field_eq oq"])
  show "length (fields_of a) = length (fields_of b)" using eq by (simp add: veq_iff [of oq a])
  show "\<exists>q \<in> set (fields_of b). field_eq oq p q" if "p \<in> set (fields_of a)" for p using eq un that by (simp add: veq_iff [of oq a])
  show "field_eq oq p p'" if "p \<in> set (fields_of a)" "p' \<in> set (fields_of a)" "q \<in> set (fields_of b)" "field_eq oq p q" "field_eq oq p' q" for p p' q
    using that sym [OF that(2,3)] veq_trans [OF oq, of "snd p" "snd q" "snd p'"] by simp
  show "pairwise_distinct (field_eq oq) (fields_of a)" by (rule fields_distinct [OF value_ok_local [OF ok] un])
qed

lemma veq_sym: "opaque_equivalence oq \<Longrightarrow> value_ok oq hash a \<Longrightarrow> value_ok oq hash b \<Longrightarrow> veq oq a b \<Longrightarrow> veq oq b a"
proof (induction "size a" arbitrary: a b rule: less_induct)
  case less
  note oq = less.prems(1)
  have ih: "veq oq (snd q) (snd p)" if "p \<in> set (fields_of a)" "q \<in> set (fields_of b)" "veq oq (snd p) (snd q)" for p q
    using less.hyps [of "snd p" "snd q"] oq size_field [of "fst p" "snd p" a] value_ok_field [OF less.prems(2) that(1)]
      value_ok_field [OF less.prems(3) that(2)] that by simp
  have head: "head_eq oq (head_of b) (head_of a)" and un: "unordered b = unordered a"
    using less.prems(4) head_eq_sym [OF oq] head_eq_unordered [of oq a b] unfolding veq_iff [of oq a] by blast+
  show ?case
  proof (cases "unordered a")
    case True
    obtain zs where zs: "mset zs = mset (fields_of b)" "list_all2 (field_eq oq) (fields_of a) zs"
      using field_matching [OF oq less.prems(2,4) True ih] by blast
    have "\<exists>p \<in> set (fields_of a). field_eq oq q p" if "q \<in> set (fields_of b)" for q
    proof -
      have "q \<in> set zs" using zs(1) that by (metis set_mset_mset)
      then obtain p where "p \<in> set (fields_of a)" "field_eq oq p q" using all2_right [OF zs(2)] by blast
      then show ?thesis using ih [of p q] that by (intro bexI [of _ p]) simp_all
    qed
    then show ?thesis using True un head less.prems(4) by (simp add: veq_iff [of oq a] veq_iff [of oq b])
  next
    case False
    then show ?thesis
      using un head less.prems(4) ih unfolding veq_iff [of oq a] veq_iff [of oq b] list_all2_conv_all_nth by (metis nth_mem)
  qed
qed

lemma veq_refl: "value_ok oq hash a \<Longrightarrow> veq oq a a"
proof (induction "size a" arbitrary: a rule: less_induct)
  case less
  have "veq oq (snd p) (snd p)" if "p \<in> set (fields_of a)" for p
    using less.hyps [of "snd p"] size_field [of "fst p" "snd p" a] value_ok_field [OF less.prems that] that by simp
  then show ?case using head_eq_refl [OF value_ok_local [OF less.prems]] by (auto simp: veq_iff [of oq a] list.rel_refl_strong)
qed

end
