(* ===== verification/Value_Membership.thy ===== *)
theory Value_Membership
  imports Value_Structure Text_Chunks
begin

text \<open>
  Hashing of runtime values, \<open>value/membership/structure.rs\<close> and \<open>value/membership/runtime.rs\<close>: the
  iterative bottom-up traversal with its memo of shared parts, the reference definition by recursion,
  and the contract \<open>membership\<close> for the runtime values.

  A hasher is its key and what has been written to it; \<open>hasher key items\<close> is its \<open>finish\<close>. \<open>ident\<close> is the
  identity of the storage behind a value (\<open>value/identity.rs\<close>), which only a shared value has;
  \<open>oh\<close> is what is written for a value the model does not look into.
\<close>

section \<open>What is written\<close>

datatype hash_item =
    HashTag nat
  | HashLen nat
  | HashBool bool
  | HashNumber "numeric_value option"
  | HashText "hash_call list"
  | HashBytes string
  | HashType nat
  | HashBounds range_bounds
  | HashName string
  | HashU64 nat
  | HashOpaque nat

text \<open>\<open>start\<close>: the discriminant, then what the member has of its own.\<close>

primrec start_items :: "('x \<Rightarrow> nat) \<Rightarrow> 'x interp_value \<Rightarrow> hash_item list" where
  "start_items oh Unit = [HashTag 1]"
| "start_items oh (Bool b) = [HashTag 2, HashBool b]"
| "start_items oh (Number n) = [HashTag 3, HashNumber (Some n)]"
| "start_items oh (String s) = [HashTag 4, HashText (hash_bytes s)]"
| "start_items oh (Bytes s) = [HashTag 5, HashBytes s]"
| "start_items oh (Existential ot ct v) = [HashTag 0, HashType ot, HashType ct]"
| "start_items oh (Nominal ty v) = [HashTag 6, HashType ty]"
| "start_items oh (Trust w v) = [HashTag 7, HashType w]"
| "start_items oh (Tuple vs) = [HashTag 8, HashLen (length vs)]"
| "start_items oh (Array vs) = [HashTag 9, HashLen (length vs)]"
| "start_items oh (List vs) = [HashTag 10, HashLen (length vs)]"
| "start_items oh (Slice vs) = [HashTag 11, HashLen (length vs)]"
| "start_items oh (Map entries index) = [HashTag 12, HashLen (length entries)]"
| "start_items oh (Set vs index) = [HashTag 13, HashLen (length vs)]"
| "start_items oh (Deque vs) = [HashTag 14, HashLen (length vs)]"
| "start_items oh (Queue vs) = [HashTag 15, HashLen (length vs)]"
| "start_items oh (Stack vs) = [HashTag 16, HashLen (length vs)]"
| "start_items oh (PriorityQueue ss heap_slots c ready_flag) = [HashTag 17, HashLen (length heap_slots)]"
| "start_items oh (OrderedMap t c) = [HashTag 18, HashLen (count t)]"
| "start_items oh (OrderedSet t c) = [HashTag 19, HashLen (count t)]"
| "start_items oh (Range r) =
     [HashTag 20, HashBounds (range_bounds r), HashNumber (as_number (range_start r)), HashNumber (as_number (range_end r))]"
| "start_items oh (Record fs) = [HashTag 21, HashLen (length fs)]"
| "start_items oh (Variant name vs) = [HashTag 22, HashText (hash_bytes name), HashLen (length vs)]"
| "start_items oh OptionNone = [HashTag 23]"
| "start_items oh (OptionSome v) = [HashTag 24]"
| "start_items oh (Opaque x) = [HashOpaque (oh x)]"

text \<open>The members \<open>start\<close> returns no cursor for.\<close>

fun hash_leaf :: "'x interp_value \<Rightarrow> bool" where
  "hash_leaf Unit = True"
| "hash_leaf (Bool _) = True"
| "hash_leaf (Number _) = True"
| "hash_leaf (String _) = True"
| "hash_leaf (Bytes _) = True"
| "hash_leaf (Range _) = True"
| "hash_leaf OptionNone = True"
| "hash_leaf (Opaque _) = True"
| "hash_leaf _ = False"

fun labelled :: "'x interp_value \<Rightarrow> bool" where
  "labelled (Record _) = True"
| "labelled _ = False"

text \<open>A label is written before the field it names.\<close>

definition label_items :: "string option \<Rightarrow> hash_item list" where
  "label_items context = (case context of None \<Rightarrow> [] | Some n \<Rightarrow> [HashName n])"

section \<open>The traversal\<close>

text \<open>A frame holds the fields its cursor has still to visit, in the order of \<open>Cursor::next\<close>. The context of a
  frame is the label written before it; the code takes its address, so it may recall less often.\<close>

record ('x, 'i) hash_frame =
  hf_fields :: "(string \<times> 'x interp_value) list"
  hf_labelled :: bool
  hf_unordered :: bool
  hf_identity :: "'i option"
  hf_state :: "hash_item list"
  hf_sum :: nat
  hf_context :: "string option"

definition frame_new :: "('x interp_value \<Rightarrow> 'i option) \<Rightarrow> 'x interp_value \<Rightarrow> hash_item list \<Rightarrow> string option \<Rightarrow> ('x, 'i) hash_frame" where
  "frame_new ident v state context =
     \<lparr>hf_fields = fields_of v, hf_labelled = labelled v, hf_unordered = unordered v, hf_identity = ident v,
      hf_state = state, hf_sum = 0, hf_context = context\<rparr>"

definition append_hash :: "('x, 'i) hash_frame \<Rightarrow> nat \<Rightarrow> ('x, 'i) hash_frame" where
  "append_hash frame h =
     (if hf_unordered frame then frame\<lparr>hf_sum := (hf_sum frame + h) mod 2 ^ 64\<rparr>
      else frame\<lparr>hf_state := hf_state frame @ [HashU64 h]\<rparr>)"

definition close_frame :: "('x, 'i) hash_frame \<Rightarrow> hash_item list" where
  "close_frame frame = (if hf_unordered frame then hf_state frame @ [HashU64 (hf_sum frame)] else hf_state frame)"

definition recall :: "('i \<times> string option \<rightharpoonup> nat) \<Rightarrow> 'i option \<Rightarrow> string option \<Rightarrow> nat option" where
  "recall completed identity context = Option.bind identity (\<lambda>i. completed (i, context))"

definition complete_hash :: "('i \<times> string option \<rightharpoonup> nat) \<Rightarrow> ('x, 'i) hash_frame \<Rightarrow> nat \<Rightarrow> ('i \<times> string option \<rightharpoonup> nat)" where
  "complete_hash completed frame h = (case hf_identity frame of None \<Rightarrow> completed | Some i \<Rightarrow> completed((i, hf_context frame) \<mapsto> h))"

abbreviation unvisited :: "('x, 'i) hash_frame \<Rightarrow> nat" where
  "unvisited frame \<equiv> kid_sum (map snd (hf_fields frame))"

lemma append_hash_fields [simp]:
  "hf_fields (append_hash frame h) = hf_fields frame" "hf_labelled (append_hash frame h) = hf_labelled frame"
  "hf_identity (append_hash frame h) = hf_identity frame" "hf_context (append_hash frame h) = hf_context frame"
  "hf_unordered (append_hash frame h) = hf_unordered frame"
  by (simp_all add: append_hash_def)

lemma value_size_pos: "size (v :: 'x interp_value) > 0"
  by (cases v) simp_all

lemma frame_new_left: "unvisited (frame_new ident v state context) < size v"
  using size_kids [of v] value_size_pos [of v] by (cases "kids v = []") (auto simp: frame_new_def kids_def)

function hash_loop ::
  "(hash_item list \<Rightarrow> nat) \<Rightarrow> ('x \<Rightarrow> nat) \<Rightarrow> ('x interp_value \<Rightarrow> 'i option) \<Rightarrow>
   ('x, 'i) hash_frame \<Rightarrow> ('x, 'i) hash_frame list \<Rightarrow> ('i \<times> string option \<rightharpoonup> nat) \<Rightarrow> hash_item list"
where
  "hash_loop fin oh ident frame stack completed =
     (case hf_fields frame of
        (n, w) # rest \<Rightarrow>
          let frame = frame\<lparr>hf_fields := rest\<rparr>; context = (if hf_labelled frame then Some n else None);
              child_state = label_items context @ start_items oh w in
          if hash_leaf w then hash_loop fin oh ident (append_hash frame (fin child_state)) stack completed
          else
            (case recall completed (ident w) context of
               Some h \<Rightarrow> hash_loop fin oh ident (append_hash frame h) stack completed
             | None \<Rightarrow> hash_loop fin oh ident (frame_new ident w child_state context) (frame # stack) completed)
      | [] \<Rightarrow>
          let state = close_frame frame in
          (case stack of
             [] \<Rightarrow> state
           | parent # stack \<Rightarrow>
               let h = fin state in
               hash_loop fin oh ident (append_hash parent h) stack (complete_hash completed frame h)))"
  by pat_completeness auto
termination
proof (relation "measures [\<lambda>(_, _, _, frame, stack, _). unvisited frame + sum_list (map unvisited stack), \<lambda>(_, _, _, _, stack, _). length stack]",
    goal_cases)
  case (4 fin oh ident frame stack completed p rest n w frame' ctx child_state)
  have "snd p = w" using 4 by auto
  then show ?case using 4 frame_new_left [of ident w] by simp
qed (use value_size_pos in auto)

lemmas [simp del] = hash_loop.simps

definition hash_structure :: "(hash_item list \<Rightarrow> nat) \<Rightarrow> ('x \<Rightarrow> nat) \<Rightarrow> ('x interp_value \<Rightarrow> 'i option) \<Rightarrow> 'x interp_value \<Rightarrow> hash_item list" where
  "hash_structure fin oh ident v =
     (let state = start_items oh v in
      if hash_leaf v then state else hash_loop fin oh ident (frame_new ident v state None) [] Map.empty)"

definition value_fingerprint ::
  "(nat \<Rightarrow> hash_item list \<Rightarrow> nat) \<Rightarrow> ('x \<Rightarrow> nat) \<Rightarrow> ('x interp_value \<Rightarrow> 'i option) \<Rightarrow> nat \<Rightarrow> 'x interp_value \<Rightarrow> nat"
where
  "value_fingerprint hasher oh ident seed v = hasher seed (hash_structure (hasher seed) oh ident v)"

section \<open>The reference definition\<close>

definition context_of :: "'x interp_value \<Rightarrow> string \<Rightarrow> string option" where
  "context_of v n = (if labelled v then Some n else None)"

function items :: "(hash_item list \<Rightarrow> nat) \<Rightarrow> ('x \<Rightarrow> nat) \<Rightarrow> 'x interp_value \<Rightarrow> hash_item list" where
  "items fin oh v =
     start_items oh v @
     (if hash_leaf v then []
      else if unordered v then [HashU64 (sum_list (map (\<lambda>p. fin (label_items (context_of v (fst p)) @ items fin oh (snd p))) (fields_of v)) mod 2 ^ 64)]
      else map (\<lambda>p. HashU64 (fin (label_items (context_of v (fst p)) @ items fin oh (snd p)))) (fields_of v))"
  by pat_completeness auto
termination by (relation "measure (\<lambda>(_, _, v). size v)") (auto simp: size_field)

lemmas [simp del] = items.simps

definition field_hash :: "(hash_item list \<Rightarrow> nat) \<Rightarrow> ('x \<Rightarrow> nat) \<Rightarrow> string option \<Rightarrow> 'x interp_value \<Rightarrow> nat" where
  "field_hash fin oh context w = fin (label_items context @ items fin oh w)"

text \<open>What a frame will have written when its remaining fields have been visited.\<close>

definition settle :: "(hash_item list \<Rightarrow> nat) \<Rightarrow> ('x \<Rightarrow> nat) \<Rightarrow> ('x, 'i) hash_frame \<Rightarrow> ('x, 'i) hash_frame" where
  "settle fin oh frame =
     foldl (\<lambda>f (n, w). append_hash f (field_hash fin oh (if hf_labelled frame then Some n else None) w)) (frame\<lparr>hf_fields := []\<rparr>) (hf_fields frame)"

definition memo_sound ::
  "(hash_item list \<Rightarrow> nat) \<Rightarrow> ('x \<Rightarrow> nat) \<Rightarrow> ('x interp_value \<Rightarrow> 'i option) \<Rightarrow> ('i \<times> string option \<rightharpoonup> nat) \<Rightarrow> bool"
where
  "memo_sound fin oh ident completed \<longleftrightarrow>
     (\<forall>i context h w. completed (i, context) = Some h \<longrightarrow> ident w = Some i \<longrightarrow> h = field_hash fin oh context w)"

text \<open>Two values of one identity are the same value: an identity names the shared storage.\<close>

definition identifies :: "('x interp_value \<Rightarrow> 'i option) \<Rightarrow> bool" where
  "identifies ident \<longleftrightarrow> (\<forall>v w i. ident v = Some i \<longrightarrow> ident w = Some i \<longrightarrow> v = w)"

fun resume_hash ::
  "(hash_item list \<Rightarrow> nat) \<Rightarrow> ('x \<Rightarrow> nat) \<Rightarrow> ('x interp_value \<Rightarrow> 'i option) \<Rightarrow> hash_item list \<Rightarrow>
   ('x, 'i) hash_frame list \<Rightarrow> ('i \<times> string option \<rightharpoonup> nat) \<Rightarrow> hash_item list"
where
  "resume_hash fin oh ident state [] completed = state"
| "resume_hash fin oh ident state (parent # stack) completed = hash_loop fin oh ident (append_hash parent (fin state)) stack completed"

lemma settle_Nil: "hf_fields frame = [] \<Longrightarrow> settle fin oh frame = frame"
  by (simp add: settle_def)

lemma append_hash_clear: "append_hash (frame\<lparr>hf_fields := fs\<rparr>) h = (append_hash frame h)\<lparr>hf_fields := fs\<rparr>"
  by (simp add: append_hash_def)

lemma settle_Cons:
  assumes "hf_fields frame = (n, w) # rest"
  shows "settle fin oh frame =
    settle fin oh (append_hash (frame\<lparr>hf_fields := rest\<rparr>) (field_hash fin oh (if hf_labelled frame then Some n else None) w))"
  using assms by (simp add: settle_def append_hash_clear)

lemma foldl_append_fields:
  "hf_identity (foldl (\<lambda>f (n, w). append_hash f (g n w)) f ps) = hf_identity f \<and>
   hf_context (foldl (\<lambda>f (n, w). append_hash f (g n w)) f ps) = hf_context f"
  by (induction ps arbitrary: f) auto

lemma settle_fields [simp]: "hf_identity (settle fin oh frame) = hf_identity frame" "hf_context (settle fin oh frame) = hf_context frame"
  by (simp_all add: settle_def foldl_append_fields)

text \<open>A frame opened for a value settles to what the reference definition writes for it.\<close>

lemma append_hash_state:
  "\<not> hf_unordered f \<Longrightarrow> hf_state (append_hash f h) = hf_state f @ [HashU64 h]"
  "hf_unordered f \<Longrightarrow> hf_state (append_hash f h) = hf_state f \<and> hf_sum (append_hash f h) = (hf_sum f + h) mod 2 ^ 64"
  by (simp_all add: append_hash_def)

lemma settle_ordered:
  "\<not> hf_unordered f \<Longrightarrow> close_frame (foldl (\<lambda>f (n, w). append_hash f (g n w)) f ps) = hf_state f @ map (\<lambda>p. HashU64 (g (fst p) (snd p))) ps"
proof (induction ps arbitrary: f)
  case (Cons p ps)
  then show ?case using Cons.IH [of "append_hash f (g (fst p) (snd p))"] by (cases p) (simp add: append_hash_state)
qed (simp add: close_frame_def)

lemma settle_unordered:
  "hf_unordered f \<Longrightarrow> hf_sum f < 2 ^ 64 \<Longrightarrow> close_frame (foldl (\<lambda>f (n, w). append_hash f (g n w)) f ps) =
    hf_state f @ [HashU64 ((hf_sum f + sum_list (map (\<lambda>p. g (fst p) (snd p)) ps)) mod 2 ^ 64)]"
proof (induction ps arbitrary: f)
  case (Cons p ps)
  obtain n w where p: "p = (n, w)" by (cases p)
  have "((hf_sum f + g n w) mod 2 ^ 64 + rest) mod 2 ^ 64 = (hf_sum f + (g n w + rest)) mod 2 ^ 64" for rest :: nat
    by (simp add: mod_add_left_eq add.assoc)
  then show ?case using Cons.IH [of "append_hash f (g n w)"] Cons.prems p by (simp add: append_hash_state)
qed (simp add: close_frame_def)

lemma settle_new:
  assumes "\<not> hash_leaf w"
  shows "close_frame (settle fin oh (frame_new ident w (label_items context @ start_items oh w) context)) = label_items context @ items fin oh w"
proof -
  let ?f = "frame_new ident w (label_items context @ start_items oh w) context"
  let ?g = "\<lambda>n v. field_hash fin oh (if labelled w then Some n else None) v"
  have s: "settle fin oh ?f = foldl (\<lambda>f (n, v). append_hash f (?g n v)) (?f\<lparr>hf_fields := []\<rparr>) (fields_of w)"
    by (simp add: settle_def frame_new_def)
  show ?thesis
  proof (cases "unordered w")
    case True
    then show ?thesis
      using settle_unordered [of "?f\<lparr>hf_fields := []\<rparr>" ?g "fields_of w"] assms unfolding s
      by (simp add: items.simps [of fin oh w] frame_new_def field_hash_def context_of_def)
  next
    case False
    then show ?thesis
      using settle_ordered [of "?f\<lparr>hf_fields := []\<rparr>" ?g "fields_of w"] assms unfolding s
      by (simp add: items.simps [of fin oh w] frame_new_def field_hash_def context_of_def)
  qed
qed

lemma leaf_items: "hash_leaf w \<Longrightarrow> items fin oh w = start_items oh w"
  by (subst items.simps) simp

lemma hash_loop_fields:
  assumes "hf_fields frame = (n, w) # rest"
  shows "hash_loop fin oh ident frame stack completed =
    (let frame = frame\<lparr>hf_fields := rest\<rparr>; context = (if hf_labelled frame then Some n else None);
         child_state = label_items context @ start_items oh w in
     if hash_leaf w then hash_loop fin oh ident (append_hash frame (fin child_state)) stack completed
     else
       (case recall completed (ident w) context of
          Some h \<Rightarrow> hash_loop fin oh ident (append_hash frame h) stack completed
        | None \<Rightarrow> hash_loop fin oh ident (frame_new ident w child_state context) (frame # stack) completed))"
  by (subst hash_loop.simps) (simp add: assms)

lemma memo_sound_complete:
  assumes "identifies ident" "memo_sound fin oh ident completed" "ident w = hf_identity frame"
    "h = field_hash fin oh (hf_context frame) w"
  shows "memo_sound fin oh ident (complete_hash completed frame h)"
  using assms unfolding memo_sound_def complete_hash_def identifies_def by (auto split: option.splits if_splits) metis

lemma hash_loop_settles:
  assumes ident: "identifies ident"
  shows "memo_sound fin oh ident completed \<Longrightarrow>
    \<exists>completed'. memo_sound fin oh ident completed' \<and>
      hash_loop fin oh ident frame stack completed =
      resume_hash fin oh ident (close_frame (settle fin oh frame)) stack
        (complete_hash completed' frame (fin (close_frame (settle fin oh frame))))"
proof (induction "unvisited frame" arbitrary: frame stack completed rule: less_induct)
  case less
  show ?case
  proof (cases "hf_fields frame")
    case Nil
    then show ?thesis
      using less.prems by (intro exI [of _ completed]) (cases stack; simp add: settle_Nil hash_loop.simps [of fin oh ident frame] Let_def)
  next
    case (Cons p rest)
    obtain n w where p: "p = (n, w)" by (cases p)
    let ?c = "if hf_labelled frame then Some n else None"
    let ?frame = "frame\<lparr>hf_fields := rest\<rparr>"
    let ?next = "append_hash ?frame (field_hash fin oh ?c w)"
    have fields: "hf_fields frame = (n, w) # rest" using Cons p by simp
    have size: "unvisited ?next < unvisited frame" using fields value_size_pos [of w] by simp
    have same: "settle fin oh frame = settle fin oh ?next" by (rule settle_Cons [OF fields])
    have own: "complete_hash m ?next = complete_hash m frame" for m
      by (simp add: complete_hash_def fun_eq_iff split: option.split)
    have on: "\<exists>completed'. memo_sound fin oh ident completed' \<and> hash_loop fin oh ident ?next stack m =
        resume_hash fin oh ident (close_frame (settle fin oh frame)) stack (complete_hash completed' frame (fin (close_frame (settle fin oh frame))))"
      if "memo_sound fin oh ident m" for m using less.hyps [OF size that, of stack] unfolding same [symmetric] own .
    note step = hash_loop_fields [OF fields, of fin oh ident stack completed]
    show ?thesis
    proof (cases "hash_leaf w")
      case True
      then have "hash_loop fin oh ident frame stack completed = hash_loop fin oh ident ?next stack completed"
        using step by (simp add: Let_def field_hash_def leaf_items)
      then show ?thesis using on [OF less.prems] by simp
    next
      case False
      show ?thesis
      proof (cases "recall completed (ident w) ?c")
        case (Some h)
        then have "h = field_hash fin oh ?c w" using less.prems by (auto simp: recall_def memo_sound_def bind_eq_Some_conv)
        then have "hash_loop fin oh ident frame stack completed = hash_loop fin oh ident ?next stack completed"
          using step False Some by (simp add: Let_def)
        then show ?thesis using on [OF less.prems] by simp
      next
        case None
        let ?new = "frame_new ident w (label_items ?c @ start_items oh w) ?c"
        have "unvisited ?new < unvisited frame" using frame_new_left [of ident w "label_items ?c @ start_items oh w" ?c] fields by simp
        from less.hyps [OF this less.prems, of "?frame # stack"] obtain m where m: "memo_sound fin oh ident m"
          and loop: "hash_loop fin oh ident ?new (?frame # stack) completed = resume_hash fin oh ident (label_items ?c @ items fin oh w) (?frame # stack)
            (complete_hash m ?new (field_hash fin oh ?c w))"
          unfolding settle_new [OF False] field_hash_def by blast
        have "memo_sound fin oh ident (complete_hash m ?new (field_hash fin oh ?c w))"
          by (rule memo_sound_complete [OF ident m, of w]) (simp_all add: frame_new_def)
        moreover have "hash_loop fin oh ident frame stack completed = hash_loop fin oh ident ?next stack (complete_hash m ?new (field_hash fin oh ?c w))"
          using step False None loop by (simp add: Let_def field_hash_def)
        ultimately show ?thesis using on by simp
      qed
    qed
  qed
qed

lemma hash_structure_items:
  assumes "identifies ident"
  shows "hash_structure fin oh ident v = items fin oh v"
proof (cases "hash_leaf v")
  case False
  let ?f = "frame_new ident v (start_items oh v) None"
  have "memo_sound fin oh ident Map.empty" by (simp add: memo_sound_def)
  from hash_loop_settles [OF assms this, of ?f "[]"] have "hash_loop fin oh ident ?f [] Map.empty = close_frame (settle fin oh ?f)" by auto
  then show ?thesis using False settle_new [OF False, of fin oh ident None] by (simp add: hash_structure_def label_items_def)
qed (simp add: hash_structure_def leaf_items)

section \<open>Equal values have equal fingerprints\<close>

definition opaque_hash_ok :: "('x \<Rightarrow> 'x \<Rightarrow> bool) \<Rightarrow> ('x \<Rightarrow> nat) \<Rightarrow> bool" where
  "opaque_hash_ok oq oh \<longleftrightarrow> (\<forall>x y. oq x y \<longrightarrow> oh x = oh y)"

lemma counted_inorder: "counts_ok t \<Longrightarrow> count t = length (inorder t)"
  by (induction t rule: counts_ok.induct) (simp_all add: count_def)

lemma veq_number: "veq oq a b \<Longrightarrow> as_number a = as_number b"
proof -
  assume "veq oq a b"
  then have "head_eq oq (head_of a) (head_of b)" by (simp add: veq_iff [of oq a])
  moreover have "as_number v = Some n \<longleftrightarrow> head_of v = HdShape (ShNumber n)" for v :: "'a interp_value" and n by (cases v) auto
  ultimately show ?thesis by (metis head_eq_shape not_Some_eq)
qed

text \<open>What \<open>start\<close> writes is a function of the head, the number of fields and, for a range, its ends.\<close>

primrec shape_items :: "shape \<Rightarrow> nat \<Rightarrow> numeric_value option list \<Rightarrow> hash_item list" where
  "shape_items ShUnit n ends = [HashTag 1]"
| "shape_items (ShBool b) n ends = [HashTag 2, HashBool b]"
| "shape_items (ShNumber x) n ends = [HashTag 3, HashNumber (Some x)]"
| "shape_items (ShString s) n ends = [HashTag 4, HashText (hash_bytes s)]"
| "shape_items (ShBytes s) n ends = [HashTag 5, HashBytes s]"
| "shape_items (ShNominal ty) n ends = [HashTag 6, HashType ty]"
| "shape_items (ShTrust w) n ends = [HashTag 7, HashType w]"
| "shape_items (ShExistential ot ct) n ends = [HashTag 0, HashType ot, HashType ct]"
| "shape_items ShTuple n ends = [HashTag 8, HashLen n]"
| "shape_items ShArray n ends = [HashTag 9, HashLen n]"
| "shape_items ShList n ends = [HashTag 10, HashLen n]"
| "shape_items ShSlice n ends = [HashTag 11, HashLen n]"
| "shape_items ShStack n ends = [HashTag 16, HashLen n]"
| "shape_items ShDeque n ends = [HashTag 14, HashLen n]"
| "shape_items ShQueue n ends = [HashTag 15, HashLen n]"
| "shape_items ShSet n ends = [HashTag 13, HashLen n]"
| "shape_items ShMap n ends = [HashTag 12, HashLen (n div 2)]"
| "shape_items ShRecord n ends = [HashTag 21, HashLen n]"
| "shape_items (ShRange b) n ends = [HashTag 20, HashBounds b] @ map HashNumber ends"
| "shape_items (ShVariant name) n ends = [HashTag 22, HashText (hash_bytes name), HashLen n]"
| "shape_items ShNone n ends = [HashTag 23]"
| "shape_items ShSome n ends = [HashTag 24]"

fun head_items :: "('x \<Rightarrow> nat) \<Rightarrow> 'x head \<Rightarrow> nat \<Rightarrow> numeric_value option list \<Rightarrow> hash_item list" where
  "head_items oh (HdShape s) n ends = shape_items s n ends"
| "head_items oh (HdSorted OrderedMapKind c) n ends = [HashTag 18, HashLen (n div 2)]"
| "head_items oh (HdSorted OrderedSetKind c) n ends = [HashTag 19, HashLen n]"
| "head_items oh (HdSorted PriorityQueueKind c) n ends = [HashTag 17, HashLen (n div 2)]"
| "head_items oh (HdOpaque x) n ends = [HashOpaque (oh x)]"

definition leaf_head :: "'x head \<Rightarrow> bool" where
  "leaf_head h =
     (case h of
        HdShape s \<Rightarrow>
          (case s of
             ShUnit \<Rightarrow> True | ShBool _ \<Rightarrow> True | ShNumber _ \<Rightarrow> True | ShString _ \<Rightarrow> True | ShBytes _ \<Rightarrow> True
           | ShRange _ \<Rightarrow> True | ShNone \<Rightarrow> True | _ \<Rightarrow> False)
      | HdSorted _ _ \<Rightarrow> False
      | HdOpaque _ \<Rightarrow> True)"

lemma start_items_head:
  "local_ok oq hash v \<Longrightarrow> start_items oh v = head_items oh (head_of v) (length (fields_of v)) (map (as_number \<circ> snd) (fields_of v))"
  by (cases v) (simp_all add: counted_inorder)

lemma hash_leaf_head: "hash_leaf v = leaf_head (head_of v)" "labelled v \<longleftrightarrow> head_of v = HdShape ShRecord"
  by (cases v; simp add: leaf_head_def)+

lemma head_items_eq: "head_eq oq h k \<Longrightarrow> opaque_hash_ok oq oh \<Longrightarrow> head_items oh h n ends = head_items oh k n ends"
proof (induction oq h k rule: head_eq.induct)
  case (2 oq k c l d)
  then show ?case by (cases k) auto
qed (auto simp: opaque_hash_ok_def)

lemma leaf_head_eq: "head_eq oq h k \<Longrightarrow> leaf_head h = leaf_head k"
  by (induction oq h k rule: head_eq.induct) (auto simp: leaf_head_def)

lemma shape_items_ends: "\<not> leaf_head (HdShape s) \<Longrightarrow> shape_items s n ends = shape_items s n ends'"
  by (cases s) (simp_all add: leaf_head_def)

lemma unordered_not_leaf: "unordered v \<Longrightarrow> \<not> hash_leaf v"
  by (cases v) simp_all

lemma start_items_eq:
  assumes ok: "local_ok oq hash a" "local_ok oq hash b" and oh: "opaque_hash_ok oq oh" and eq: "veq oq a b"
  shows "start_items oh a = start_items oh b"
proof -
  have head: "head_eq oq (head_of a) (head_of b)" and len: "length (fields_of a) = length (fields_of b)" using eq by (simp_all add: veq_iff [of oq a])
  let ?ends = "\<lambda>v. map (as_number \<circ> snd) (fields_of v)"
  have "head_items oh (head_of b) n (?ends a) = head_items oh (head_of b) n (?ends b)" for n
  proof (cases "unordered a")
    case True
    then have "\<not> leaf_head (head_of b)" using unordered_not_leaf [of a] leaf_head_eq [OF head] by (simp add: hash_leaf_head)
    then show ?thesis
      by (cases "(oh, head_of b, n, ?ends a)" rule: head_items.cases) (auto intro: shape_items_ends)
  next
    case False
    then have "?ends a = ?ends b"
      using eq veq_number len unfolding veq_iff [of oq a] by (auto simp: list_eq_iff_nth_eq list_all2_conv_all_nth) 
    then show ?thesis by simp
  qed
  then show ?thesis using start_items_head ok head_items_eq [OF head oh] len by metis
qed

lemma items_eq:
  assumes oq: "opaque_equivalence oq" and oh: "opaque_hash_ok oq oh"
  shows "value_ok oq hash a \<Longrightarrow> value_ok oq hash b \<Longrightarrow> veq oq a b \<Longrightarrow> items fin oh a = items fin oh b"
proof (induction "size a" arbitrary: a b rule: less_induct)
  case less
  note ok = less.prems(1,2) and eq = less.prems(3)
  have head: "head_eq oq (head_of a) (head_of b)" using eq by (simp add: veq_iff [of oq a])
  have start: "start_items oh a = start_items oh b" by (rule start_items_eq [OF value_ok_local [OF ok(1)] value_ok_local [OF ok(2)] oh eq])
  have same: "hash_leaf a = hash_leaf b" "unordered a = unordered b" "labelled a = labelled b"
    using leaf_head_eq [OF head] head_eq_unordered [OF head] head_eq_shape [OF head] by (simp_all add: hash_leaf_head)
  let ?g = "\<lambda>p. fin (label_items (context_of b (fst p)) @ items fin oh (snd p))"
  have ctx: "context_of a = context_of b" using same(3) by (simp add: context_of_def fun_eq_iff)
  have ih: "items fin oh (snd p) = items fin oh (snd q)" if "p \<in> set (fields_of a)" "q \<in> set (fields_of b)" "veq oq (snd p) (snd q)" for p q
    using less.hyps [of "snd p" "snd q"] size_field [of "fst p" "snd p" a] value_ok_field [OF ok(1) that(1)] value_ok_field [OF ok(2) that(2)] that
    by simp
  show ?case
  proof (cases "unordered a")
    case True
    obtain zs where zs: "mset zs = mset (fields_of b)" "list_all2 (field_eq oq) (fields_of a) zs"
      using field_matching [OF oq ok(1) eq True] veq_sym [OF oq value_ok_field [OF ok(1)] value_ok_field [OF ok(2)]] by blast
    have sets: "set zs = set (fields_of b)" using zs(1) by (metis set_mset_mset)
    have "list_all2 (\<lambda>p q. ?g p = ?g q) (fields_of a) zs"
    proof (rule list.rel_mono_strong [OF zs(2)])
      fix p q assume "p \<in> set (fields_of a)" "q \<in> set zs" "field_eq oq p q"
      then show "?g p = ?g q" using ih [of p q] sets by simp
    qed
    then have "map ?g (fields_of a) = map ?g zs" by (simp add: list_all2_conv_all_nth list_eq_iff_nth_eq)
    moreover have "sum_list (map ?g zs) = sum_list (map ?g (fields_of b))"
      by (subst (1 2) sum_mset_sum_list [symmetric]) (simp only: mset_map zs(1))
    ultimately have "sum_list (map ?g (fields_of a)) = sum_list (map ?g (fields_of b))" by simp
    then show ?thesis using True same start ctx by (simp add: items.simps [of fin oh a] items.simps [of fin oh b])
  next
    case False
    have "list_all2 (\<lambda>p q. veq oq (snd p) (snd q)) (fields_of a) (fields_of b)" using eq False by (simp add: veq_iff [of oq a])
    then have kids: "map (items fin oh \<circ> snd) (fields_of a) = map (items fin oh \<circ> snd) (fields_of b)"
      using ih by (auto simp: list_all2_conv_all_nth list_eq_iff_nth_eq)
    have plain: "label_items (context_of b n) = []" for n using False same(2) by (cases b) (simp_all add: context_of_def label_items_def)
    have each: "map (\<lambda>p. HashU64 (?g p)) (fields_of v) = map (\<lambda>is. HashU64 (fin is)) (map (items fin oh \<circ> snd) (fields_of v))" for v
      using plain by (simp add: comp_def)
    have "map (\<lambda>p. HashU64 (?g p)) (fields_of a) = map (\<lambda>p. HashU64 (?g p)) (fields_of b)" unfolding each kids ..
    then show ?thesis using False same start ctx by (simp add: items.simps [of fin oh a] items.simps [of fin oh b])
  qed
qed

lemma values_membership:
  assumes oq: "opaque_equivalence oq" and oh: "opaque_hash_ok oq oh" and ident: "identifies ident"
  shows "membership (veq oq) (value_fingerprint hasher oh ident) (value_ok oq hash)"
proof
  show "veq oq a a" if "value_ok oq hash a" for a by (rule veq_refl [OF that])
  show "veq oq b a" if "value_ok oq hash a" "value_ok oq hash b" "veq oq a b" for a b by (rule veq_sym [OF oq that])
  show "veq oq a c" if "veq oq a b" "veq oq b c" for a b c by (rule veq_trans [OF oq that])
  show "value_fingerprint hasher oh ident seed a = value_fingerprint hasher oh ident seed b"
    if "value_ok oq hash a" "value_ok oq hash b" "veq oq a b" for seed a b
    using items_eq [OF oq oh that] by (simp add: value_fingerprint_def hash_structure_items [OF ident])
qed

interpretation value_members: membership "veq (=)" "value_fingerprint hasher oh (\<lambda>_. None :: unit option)" "value_ok (=) hash"
  for hasher oh hash
  by (rule values_membership) (auto simp: opaque_equivalence_def opaque_hash_ok_def identifies_def)

text \<open>\<^bold>\<open>C20\<close>. Equal values share a partition, which is what the hashed collections rely on: two well-formed
  values that are structurally equal, their sets and records up to order, have the same fingerprint
  under every hasher. The traversal that computes it, with its stack and its memo of shared storage,
  writes what the recursive definition writes.\<close>

theorem equal_values_share_a_partition:
  assumes "opaque_equivalence oq" "opaque_hash_ok oq oh" "identifies ident"
  shows "hash_structure fin oh ident a = items fin oh a \<and>
    (value_ok oq hash a \<longrightarrow> value_ok oq hash b \<longrightarrow> veq oq a b \<longrightarrow>
     value_fingerprint hasher oh ident seed a = value_fingerprint hasher oh ident seed b)"
  using hash_structure_items [OF assms(3)] items_eq [OF assms(1,2)] by (simp add: value_fingerprint_def)

definition sample_record :: "bool \<Rightarrow> unit interp_value" where
  "sample_record flip = Record (if flip then [(''b'', Unit), (''a'', Bool True)] else [(''a'', Bool True), (''b'', Unit)])"

lemma sample_record_ok: "value_ok (=) hash (sample_record flip)"
proof -
  have leaf: "value_ok (=) hash Unit" "value_ok (=) hash (Bool True)" by (subst value_ok.simps; simp add: kids_def)+
  show ?thesis by (subst value_ok.simps) (simp add: leaf sample_record_def kids_def)
qed

lemma sample_record_eq: "veq (=) (sample_record False) (sample_record True)"
proof -
  have leaf: "veq (=) Unit Unit" "veq (=) (Bool True) (Bool True)" by (subst veq.simps; simp)+
  show ?thesis by (subst veq.simps) (simp add: leaf sample_record_def)
qed

theorem equal_values_share_a_partition_witness:
  "value_fingerprint (\<lambda>seed is. length is) (\<lambda>_. 0) (\<lambda>_. None :: unit option) 7 (sample_record False) =
   value_fingerprint (\<lambda>seed is. length is) (\<lambda>_. 0) (\<lambda>_. None :: unit option) 7 (sample_record True)"
  using equal_values_share_a_partition [of "(=)" "\<lambda>_. 0" "\<lambda>_. None :: unit option" _ "sample_record False" "\<lambda>_ _. 0" "sample_record True" "\<lambda>seed is. length is" 7]
    sample_record_ok sample_record_eq by (simp add: opaque_equivalence_def opaque_hash_ok_def identifies_def)

section \<open>Sets and maps of values\<close>

datatype 'v set_op = OpInsert 'v | OpContains 'v | OpClear nat

fun set_op_step :: "('v \<Rightarrow> 'v \<Rightarrow> bool) \<Rightarrow> (nat \<Rightarrow> 'v \<Rightarrow> nat) \<Rightarrow> 'v set_op \<Rightarrow> 'v set_storage \<Rightarrow> bool \<times> 'v set_storage" where
  "set_op_step eq hash (OpInsert v) s = set_insert eq hash s v"
| "set_op_step eq hash (OpContains v) s = (set_contains eq hash s v, s)"
| "set_op_step eq hash (OpClear seed) s = (True, set_clear seed s)"

fun list_op_step :: "('v \<Rightarrow> 'v \<Rightarrow> bool) \<Rightarrow> 'v set_op \<Rightarrow> 'v list \<Rightarrow> bool \<times> 'v list" where
  "list_op_step eq (OpInsert v) vs = (if \<exists>y \<in> set vs. eq y v then (False, vs) else (True, vs @ [v]))"
| "list_op_step eq (OpContains v) vs = (\<exists>y \<in> set vs. eq y v, vs)"
| "list_op_step eq (OpClear seed) vs = (True, [])"

fun run_ops :: "('o \<Rightarrow> 's \<Rightarrow> 'r \<times> 's) \<Rightarrow> 'o list \<Rightarrow> 's \<Rightarrow> 'r list \<times> 's" where
  "run_ops f [] s = ([], s)"
| "run_ops f (x # xs) s = (case f x s of (r, s) \<Rightarrow> case run_ops f xs s of (rs, s) \<Rightarrow> (r # rs, s))"

text \<open>A simulation step by step is a simulation of runs.\<close>

lemma run_ops_simulation:
  assumes step: "\<And>x s t. x \<in> set xs \<Longrightarrow> R s t \<Longrightarrow> fst (f x s) = fst (g x t) \<and> R (snd (f x s)) (snd (g x t))"
  shows "R s t \<Longrightarrow> fst (run_ops f xs s) = fst (run_ops g xs t) \<and> R (snd (run_ops f xs s)) (snd (run_ops g xs t))"
  using step
proof (induction xs arbitrary: s t)
  case (Cons x xs)
  show ?case using Cons.prems(2) [of x s t] Cons.prems(1) Cons.IH [of "snd (f x s)" "snd (g x t)"] Cons.prems(2)
    by (simp add: split_beta)
qed simp

fun op_values :: "'v set_op \<Rightarrow> 'v list" where
  "op_values (OpInsert v) = [v]"
| "op_values (OpContains v) = [v]"
| "op_values (OpClear seed) = []"

context membership
begin

lemma set_op_simulation:
  assumes "set_ok hash eq s" "\<forall>v \<in> set (se_values s). ok v" "\<forall>v \<in> set (op_values x). ok v"
  shows "fst (set_op_step eq hash x s) = fst (list_op_step eq x (se_values s)) \<and>
    (let s' = snd (set_op_step eq hash x s) in
     set_ok hash eq s' \<and> (\<forall>v \<in> set (se_values s'). ok v) \<and> se_values s' = snd (list_op_step eq x (se_values s)))"
proof (cases x)
  case (OpInsert v)
  then have "ok v" using assms(3) by simp
  note insert = set_insert_spec [OF assms(1,2) this]
  show ?thesis
  proof (cases "\<exists>y \<in> set (se_values s). eq y v")
    case True
    then show ?thesis using insert(1) [OF True] assms(1,2) OpInsert by simp
  next
    case False
    then obtain s' where "set_insert eq hash s v = (True, s')" "se_values s' = se_values s @ [v]" "set_ok hash eq s'" using insert(2) by blast
    then show ?thesis using False assms(2,3) OpInsert by simp
  qed
next
  case (OpContains v)
  then show ?thesis using set_contains_spec [OF assms(1,2)] assms by simp
qed (simp add: set_clear_def set_ok_def pairwise_distinct_def)

lemma set_runs:
  assumes "\<forall>v \<in> set vs. ok v" "\<forall>x \<in> set xs. \<forall>v \<in> set (op_values x). ok v"
  shows "fst (run_ops (set_op_step eq hash) xs (set_new eq hash seed vs)) = fst (run_ops (list_op_step eq) xs (dedup eq [] vs)) \<and>
    se_values (snd (run_ops (set_op_step eq hash) xs (set_new eq hash seed vs))) = snd (run_ops (list_op_step eq) xs (dedup eq [] vs))"
proof -
  let ?R = "\<lambda>s t. set_ok hash eq s \<and> (\<forall>v \<in> set (se_values s). ok v) \<and> se_values s = t"
  have "?R (set_new eq hash seed vs) (dedup eq [] vs)"
    using set_new_spec [OF assms(1), of seed] dedup_set [of "[]" eq vs] assms(1) by auto
  moreover have "fst (set_op_step eq hash x s) = fst (list_op_step eq x t) \<and> ?R (snd (set_op_step eq hash x s)) (snd (list_op_step eq x t))"
    if "x \<in> set xs" "?R s t" for x s t
    using set_op_simulation [of s x] that assms(2) by (simp add: Let_def)
  ultimately show ?thesis
    using run_ops_simulation [of xs ?R "set_op_step eq hash" "list_op_step eq" "set_new eq hash seed vs" "dedup eq [] vs"] by blast
qed

end

datatype ('k, 'v) map_op = OpPut 'k 'v | OpGet 'k | OpHas 'k | OpUpdate 'k "'v \<Rightarrow> 'v"

fun map_op_key :: "('k, 'v) map_op \<Rightarrow> 'k" where
  "map_op_key (OpPut k v) = k"
| "map_op_key (OpGet k) = k"
| "map_op_key (OpHas k) = k"
| "map_op_key (OpUpdate k f) = k"

fun map_op_step ::
  "('k \<Rightarrow> 'k \<Rightarrow> bool) \<Rightarrow> (nat \<Rightarrow> 'k \<Rightarrow> nat) \<Rightarrow> nat \<Rightarrow> ('k, 'v) map_op \<Rightarrow> ('k, 'v) map_storage \<Rightarrow> (bool + 'v option) \<times> ('k, 'v) map_storage"
where
  "map_op_step eq hash seed (OpPut k v) s = (Inl True, map_insert eq hash seed s k v)"
| "map_op_step eq hash seed (OpGet k) s = map_prod Inr id (map_get eq hash seed s k)"
| "map_op_step eq hash seed (OpHas k) s = map_prod Inl id (contains_key eq hash seed s k)"
| "map_op_step eq hash seed (OpUpdate k f) s = map_prod Inl id (value_mut eq hash seed f s k)"

text \<open>The same on the entries: the first entry of a key is the one that counts.\<close>

fun entries_op_step ::
  "('k \<Rightarrow> 'k \<Rightarrow> bool) \<Rightarrow> ('k, 'v) map_op \<Rightarrow> ('k \<times> 'v) list \<Rightarrow> (bool + 'v option) \<times> ('k \<times> 'v) list"
where
  "entries_op_step eq (OpPut k v) es = (Inl True, upsert eq es k v)"
| "entries_op_step eq (OpGet k) es = (Inr (first_entry eq es k), es)"
| "entries_op_step eq (OpHas k) es = (Inl (first_entry eq es k \<noteq> None), es)"
| "entries_op_step eq (OpUpdate k f) es =
     (case first_entry eq es k of None \<Rightarrow> (Inl False, es) | Some v \<Rightarrow> (Inl True, upsert eq es k (f v)))"

lemma first_entry_find:
  "first_entry eq es k = map_option (\<lambda>i. snd (es ! i)) (find (\<lambda>i. eq (fst (es ! i)) k) [0..<length es])"
  using find_position [of "\<lambda>(k', _). eq k' k" es] by (simp add: first_entry_def case_prod_unfold option.map_comp comp_def)

lemma upsert_keys: "e \<in> set (upsert eq es k v) \<Longrightarrow> fst e = k \<or> fst e \<in> fst ` set es"
  unfolding upsert_def
  by (auto split: option.splits simp: find_upt_Some dest!: set_update_subset_insert [THEN subsetD])

context membership
begin

lemma map_op_simulation:
  assumes ok: "map_ok hash s" "\<forall>e \<in> set (ma_entries s). ok (fst e)" "ok (map_op_key x)"
  shows "fst (map_op_step eq hash seed x s) = fst (entries_op_step eq x (ma_entries s)) \<and>
    map_ok hash (snd (map_op_step eq hash seed x s)) \<and> ma_entries (snd (map_op_step eq hash seed x s)) = snd (entries_op_step eq x (ma_entries s))"
proof (cases x)
  case (OpPut k v)
  then show ?thesis using map_insert_spec [OF ok(1,2), of k seed v] ok(3) by simp
next
  case (OpGet k)
  then show ?thesis using map_get_spec [OF ok(1,2), of k seed] ok(3) by auto
next
  case (OpHas k)
  then show ?thesis using map_position_spec [OF ok(1,2), of k seed] ok(3) by (auto simp: contains_key_def first_entry_find)
next
  case (OpUpdate k f)
  obtain s' where s': "map_position eq hash seed s k = (find (\<lambda>i. eq (fst (ma_entries s ! i)) k) [0..<length (ma_entries s)], s')"
    "map_ok hash s'" "ma_entries s' = ma_entries s" using map_position_spec [OF ok(1,2), of k seed] ok(3) OpUpdate by auto
  show ?thesis
  proof (cases "find (\<lambda>i. eq (fst (ma_entries s ! i)) k) [0..<length (ma_entries s)]")
    case None
    then show ?thesis using s' OpUpdate by (simp add: value_mut_def first_entry_find)
  next
    case (Some i)
    then have "i < length (ma_entries s)" by (simp add: find_upt_Some)
    then show ?thesis using Some s' OpUpdate by (simp add: value_mut_def first_entry_find upsert_def map_ok_def map_fst_update)
  qed
qed

lemma entries_ok_step:
  assumes "\<forall>e \<in> set es. ok (fst e)" "ok (map_op_key x)"
  shows "\<forall>e \<in> set (snd (entries_op_step eq x es)). ok (fst e)"
  using assms upsert_keys by (cases x) (fastforce split: option.splits)+

lemma map_runs:
  assumes "\<forall>e \<in> set es. ok (fst e)" "\<forall>x \<in> set xs. ok (map_op_key x)"
  shows "fst (run_ops (map_op_step eq hash seed) xs (map_new es)) = fst (run_ops (entries_op_step eq) xs es) \<and>
    ma_entries (snd (run_ops (map_op_step eq hash seed) xs (map_new es))) = snd (run_ops (entries_op_step eq) xs es)"
proof -
  let ?R = "\<lambda>s t. map_ok hash s \<and> (\<forall>e \<in> set t. ok (fst e)) \<and> ma_entries s = t"
  have "?R (map_new es) es" using assms(1) by (simp add: map_ok_def map_new_def)
  moreover have "fst (map_op_step eq hash seed x s) = fst (entries_op_step eq x t) \<and> ?R (snd (map_op_step eq hash seed x s)) (snd (entries_op_step eq x t))"
    if "x \<in> set xs" "?R s t" for x s t
    using map_op_simulation [of s x seed] entries_ok_step [of t x] that assms(2) by blast
  ultimately show ?thesis using run_ops_simulation [of xs ?R "map_op_step eq hash seed" "entries_op_step eq" "map_new es" es] by blast
qed

end

text \<open>\<^bold>\<open>C18\<close>. A hashed set of values is a set. Built from any values and taken through any sequence of insertions,
  membership tests and clearings, it answers as the list of its members would, each kept once in the
  order it came, and keeps those members; restoring it from saved members succeeds exactly when
  they are distinct, and otherwise names the first that repeats an earlier one.\<close>

theorem hashed_set_refines_set:
  assumes "opaque_equivalence oq" "opaque_hash_ok oq oh" "identifies ident"
    and ok: "\<forall>v \<in> set vs. value_ok oq hash v" "\<forall>x \<in> set xs. \<forall>v \<in> set (op_values x). value_ok oq hash v"
  shows "fst (run_ops (set_op_step (veq oq) (value_fingerprint hasher oh ident)) xs (set_new (veq oq) (value_fingerprint hasher oh ident) seed vs)) =
      fst (run_ops (list_op_step (veq oq)) xs (dedup (veq oq) [] vs)) \<and>
    se_values (snd (run_ops (set_op_step (veq oq) (value_fingerprint hasher oh ident)) xs (set_new (veq oq) (value_fingerprint hasher oh ident) seed vs))) =
      snd (run_ops (list_op_step (veq oq)) xs (dedup (veq oq) [] vs)) \<and>
    (case from_unique (veq oq) (value_fingerprint hasher oh ident) seed vs of
       Inr s \<Rightarrow> pairwise_distinct (veq oq) vs \<and> se_values s = vs
     | Inl i \<Rightarrow> i < length vs \<and> pairwise_distinct (veq oq) (take i vs) \<and> (\<exists>y \<in> set (take i vs). veq oq y (vs ! i)))"
proof -
  note members = values_membership [OF assms(1-3), of hasher hash]
  have "case require_unique (veq oq) (value_fingerprint hasher oh ident) seed vs of
      Inr index \<Rightarrow> pairwise_distinct (veq oq) vs
    | Inl i \<Rightarrow> i < length vs \<and> pairwise_distinct (veq oq) (take i vs) \<and> (\<exists>y \<in> set (take i vs). veq oq y (vs ! i))"
    using membership.require_unique_loop_spec [OF members, of "[]" vs "index_new seed"] ok(1)
    by (auto simp: require_unique_def pairwise_distinct_def split: sum.splits)
  then show ?thesis
    using membership.set_runs [OF members ok, of seed] by (auto simp: from_unique_def rbind_def split: sum.splits)
qed

lemma sample_laws: "opaque_equivalence ((=) :: unit \<Rightarrow> unit \<Rightarrow> bool)" "opaque_hash_ok (=) (\<lambda>_ :: unit. 0)" "identifies (\<lambda>_. None :: unit option)"
  by (simp_all add: opaque_equivalence_def opaque_hash_ok_def identifies_def)

theorem hashed_set_refines_set_witness:
  "fst (run_ops (set_op_step (veq (=)) (value_fingerprint (\<lambda>_ is. length is) (\<lambda>_. 0) (\<lambda>_. None :: unit option))) [OpContains (sample_record True)]
     (set_new (veq (=)) (value_fingerprint (\<lambda>_ is. length is) (\<lambda>_. 0) (\<lambda>_. None :: unit option)) 0 [sample_record False])) = [True]"
  using hashed_set_refines_set [OF sample_laws, of "[sample_record False]" "\<lambda>_ _. 0" "[OpContains (sample_record True)]" "\<lambda>_ is. length is" 0]
    sample_record_ok sample_record_eq by simp

text \<open>\<^bold>\<open>C19\<close>. A hashed map of values is a map. Any sequence of insertions, lookups, tests and updates in place
  answers as the list of entries would, in which the first entry of a key counts, and leaves those
  entries, whether the index was built before, shared or rebuilt; and in that list an insertion
  changes the value of the keys equal to the inserted one and of no other.\<close>

theorem hashed_map_refines_map:
  fixes es :: "('x interp_value \<times> 'v) list"
  assumes "opaque_equivalence oq" "opaque_hash_ok oq oh" "identifies ident"
    and ok: "\<forall>e \<in> set es. value_ok oq hash (fst e)" "\<forall>x \<in> set xs. value_ok oq hash (map_op_key x)" "value_ok oq hash k" "value_ok oq hash k'"
  shows "fst (run_ops (map_op_step (veq oq) (value_fingerprint hasher oh ident) seed) xs (map_new es)) =
      fst (run_ops (entries_op_step (veq oq)) xs es) \<and>
    ma_entries (snd (run_ops (map_op_step (veq oq) (value_fingerprint hasher oh ident) seed) xs (map_new es))) =
      snd (run_ops (entries_op_step (veq oq)) xs es) \<and>
    first_entry (veq oq) (upsert (veq oq) es k v) k' = (if veq oq k k' then Some v else first_entry (veq oq) es k')"
  using membership.map_runs [OF values_membership [OF assms(1-3), of hasher hash] ok(1,2), of seed]
    membership.upsert_lookup [OF values_membership [OF assms(1-3), of hasher hash] ok(1,3,4), of v] by blast

theorem hashed_map_refines_map_witness:
  "fst (run_ops (map_op_step (veq (=)) (value_fingerprint (\<lambda>_ is. length is) (\<lambda>_. 0) (\<lambda>_. None :: unit option)) 0)
     [OpPut (sample_record False) True, OpGet (sample_record True)] (map_new [])) = [Inl True, Inr (Some True)]"
  using hashed_map_refines_map [OF sample_laws, of "[] :: (unit interp_value \<times> bool) list" "\<lambda>_ _. 0"
      "[OpPut (sample_record False) True, OpGet (sample_record True)]" "sample_record False" "sample_record True" "\<lambda>_ is. length is" 0 True]
    sample_record_ok sample_record_eq by (simp add: upsert_def first_entry_def)

end
