(* ===== verification/Record_Layout.thy ===== *)
theory Record_Layout
  imports Value
begin

text \<open>
  Records, \<open>value/record.rs\<close>: fields in the order they were given and a layout, the permutation that
  lists them by name, in which a field is looked up by binary search.
\<close>

definition layout_le :: "(string \<times> 'v) list \<Rightarrow> nat \<Rightarrow> nat \<Rightarrow> bool" where
  "layout_le fs a b =
     (case bytes_cmp (fst (fs ! a)) (fst (fs ! b)) of Less \<Rightarrow> True | Equal \<Rightarrow> a \<le> b | Greater \<Rightarrow> False)"

fun layout_insert :: "(string \<times> 'v) list \<Rightarrow> nat \<Rightarrow> nat list \<Rightarrow> nat list" where
  "layout_insert fs a [] = [a]"
| "layout_insert fs a (b # bs) = (if layout_le fs a b then a # b # bs else b # layout_insert fs a bs)"

text \<open>\<open>sort_unstable_by\<close> on the slots; no two slots compare as equal, so the result is unique.\<close>

definition from_fields :: "(string \<times> 'v) list \<Rightarrow> nat list" where
  "from_fields fs = foldr (layout_insert fs) [0..<length fs] []"

text \<open>\<open>partition_point\<close> of a list on which the predicate holds first and then no more.\<close>

definition partition_point :: "('a \<Rightarrow> bool) \<Rightarrow> 'a list \<Rightarrow> nat" where
  "partition_point P xs = length (takeWhile P xs)"

definition field_at :: "nat list \<Rightarrow> (string \<times> 'v) list \<Rightarrow> nat \<Rightarrow> (string \<times> 'v) option" where
  "field_at sorted_to_storage fs n =
     (if n < length sorted_to_storage \<and> sorted_to_storage ! n < length fs then Some (fs ! (sorted_to_storage ! n)) else None)"

record 'v record_data =
  rd_fields :: "(string \<times> 'v) list"
  rd_layout :: "nat list option"

text \<open>The layout is computed at the first use and then kept.\<close>

definition layout_of :: "'v record_data \<Rightarrow> nat list \<times> 'v record_data" where
  "layout_of self =
     (case rd_layout self of
        Some l \<Rightarrow> (l, self)
      | None \<Rightarrow> let l = from_fields (rd_fields self) in (l, self\<lparr>rd_layout := Some l\<rparr>))"

text \<open>The index into \<open>fields\<close> is in range for every layout that lists their positions.\<close>

definition field_storage :: "'v record_data \<Rightarrow> string \<Rightarrow> nat option \<times> 'v record_data" where
  "field_storage self name =
     (let (sorted, self') = layout_of self;
          fs = rd_fields self;
          n = partition_point (\<lambda>i. bytes_cmp (fst (fs ! i)) name = Less) sorted in
      (if n < length sorted \<and> fst (fs ! (sorted ! n)) = name then Some (sorted ! n) else None, self'))"

definition record_new :: "(string \<times> 'v) list \<Rightarrow> 'v record_data" where
  "record_new fs = \<lparr>rd_fields = fs, rd_layout = None\<rparr>"

definition with_layout :: "(string \<times> 'v) list \<Rightarrow> nat list \<Rightarrow> 'v record_data" where
  "with_layout fs l = \<lparr>rd_fields = fs, rd_layout = Some l\<rparr>"

definition record_get :: "'v record_data \<Rightarrow> string \<Rightarrow> 'v option \<times> 'v record_data" where
  "record_get self name =
     (let (storage, self') = field_storage self name in (map_option (\<lambda>i. snd (rd_fields self ! i)) storage, self'))"

text \<open>\<open>field_mut\<close> lends the value of a field, so it takes the update made through it; the names stay, and so does the layout.\<close>

definition field_mut :: "('v \<Rightarrow> 'v) \<Rightarrow> 'v record_data \<Rightarrow> string \<Rightarrow> bool \<times> 'v record_data" where
  "field_mut f self name =
     (case field_storage self name of
        (None, self') \<Rightarrow> (False, self')
      | (Some i, self') \<Rightarrow>
          (True, self'\<lparr>rd_fields := (rd_fields self')[i := (fst (rd_fields self' ! i), f (snd (rd_fields self' ! i)))]\<rparr>))"

definition borrow_checked_field :: "'v record_data \<Rightarrow> nat \<Rightarrow> string \<Rightarrow> nat \<Rightarrow> (string + 'v) \<times> 'v record_data" where
  "borrow_checked_field self n expected_name arity =
     (if length (rd_fields self) \<noteq> arity then (Err ''record field count differs from checked layout'', self)
      else
        let (sorted, self') = layout_of self in
        if \<not> n < length sorted then (Err ''record field slot is outside checked layout'', self')
        else
          let storage = sorted ! n in
          if \<not> storage < length (rd_fields self) \<or> fst (rd_fields self ! storage) \<noteq> expected_name
          then (Err ''record field name differs from checked layout slot'', self')
          else (Ok (snd (rd_fields self ! storage)), self'))"

text \<open>\<open>borrow_mut\<close> lends the fields themselves, so the layout is dropped first.\<close>

definition record_borrow_mut :: "((string \<times> 'v) list \<Rightarrow> (string \<times> 'v) list) \<Rightarrow> 'v record_data \<Rightarrow> 'v record_data" where
  "record_borrow_mut f self = self\<lparr>rd_layout := None, rd_fields := f (rd_fields self)\<rparr>"

text \<open>A layout that is kept is the one of the fields it is kept beside.\<close>

definition record_ok :: "'v record_data \<Rightarrow> bool" where
  "record_ok self = (case rd_layout self of None \<Rightarrow> True | Some l \<Rightarrow> l = from_fields (rd_fields self))"

section \<open>The layout\<close>

lemma bytes_cmp_same [simp]: "bytes_cmp xs xs = Equal"
  by simp

lemma bytes_cmp_less_asym: "bytes_cmp xs ys = Less \<Longrightarrow> bytes_cmp ys xs \<noteq> Less"
  using bytes_cmp_reverse [of ys xs] by auto

lemma layout_le_total: "\<not> layout_le fs a b \<Longrightarrow> layout_le fs b a"
  using bytes_cmp_reverse [of "fst (fs ! b)" "fst (fs ! a)"]
  by (cases "bytes_cmp (fst (fs ! a)) (fst (fs ! b))") (simp_all add: layout_le_def del: bytes_cmp_Equal_iff)

lemma layout_le_trans: "layout_le fs a b \<Longrightarrow> layout_le fs b c \<Longrightarrow> layout_le fs a c"
  unfolding layout_le_def by (auto split: ordering.splits dest: bytes_cmp_Less_trans bytes_cmp_less_asym)

lemma layout_insert_set [simp]: "set (layout_insert fs a bs) = insert a (set bs)"
  by (induction bs) auto

lemma layout_insert_sorted: "sorted_wrt (layout_le fs) bs \<Longrightarrow> sorted_wrt (layout_le fs) (layout_insert fs a bs)"
proof (induction bs)
  case (Cons b bs)
  then show ?case using layout_le_total [of fs a b] layout_le_trans [of fs a b] by auto
qed simp

lemma from_fields_set: "set (from_fields fs) = {..<length fs}"
proof -
  have "set (foldr (layout_insert fs) ns []) = set ns" for ns by (induction ns) auto
  then show ?thesis by (auto simp: from_fields_def)
qed

lemma from_fields_sorted: "sorted_wrt (layout_le fs) (from_fields fs)"
proof -
  have "sorted_wrt (layout_le fs) (foldr (layout_insert fs) ns [])" for ns by (induction ns) (auto intro: layout_insert_sorted)
  then show ?thesis by (simp add: from_fields_def)
qed

lemma layout_insert_length: "length (layout_insert fs a bs) = Suc (length bs)"
  by (induction bs) auto

lemma from_fields_length: "length (from_fields fs) = length fs"
proof -
  have "length (foldr (layout_insert fs) ns []) = length ns" for ns by (induction ns) (auto simp: layout_insert_length)
  then show ?thesis by (simp add: from_fields_def)
qed

lemma from_fields_first:
  fixes fs :: "(string \<times> 'v) list" and name :: string
  defines "n \<equiv> partition_point (\<lambda>i. bytes_cmp (fst (fs ! i)) name = Less) (from_fields fs)"
  shows "(if n < length (from_fields fs) \<and> fst (fs ! (from_fields fs ! n)) = name then Some (from_fields fs ! n) else None) =
    find (\<lambda>i. fst (fs ! i) = name) [0..<length fs]"
proof (cases "find (\<lambda>i. fst (fs ! i) = name) [0..<length fs]")
  case None
  have "n < length (from_fields fs) \<Longrightarrow> from_fields fs ! n < length fs" using from_fields_set [of fs] nth_mem by blast
  then show ?thesis using None None [unfolded find_upt_None] by auto
next
  case (Some i)
  then have i: "i < length fs" "fst (fs ! i) = name" "\<forall>j < i. fst (fs ! j) \<noteq> name" by (simp_all add: find_upt_Some)
  then have "i \<in> set (from_fields fs)" by (simp add: from_fields_set)
  then obtain xs ys where split: "from_fields fs = xs @ i # ys" "i \<notin> set xs" by (meson split_list_first)
  have less: "bytes_cmp (fst (fs ! j)) name = Less" if "j \<in> set xs" for j
  proof -
    have "layout_le fs j i" "j \<noteq> i" using from_fields_sorted [of fs] split that by (auto simp: sorted_wrt_append)
    then show ?thesis using i by (auto simp: layout_le_def split: ordering.splits)
  qed
  moreover have "bytes_cmp (fst (fs ! i)) name \<noteq> Less" using i bytes_cmp_same [of name] by simp
  ultimately have "takeWhile (\<lambda>i. bytes_cmp (fst (fs ! i)) name = Less) (from_fields fs) = xs" using split(1) by (simp add: takeWhile_append2)
  then show ?thesis using Some split(1) i by (simp add: n_def partition_point_def)
qed

lemma field_storage_first:
  assumes "record_ok self"
  obtains self' where "field_storage self name = (find (\<lambda>i. fst (rd_fields self ! i) = name) [0..<length (rd_fields self)], self')"
    "record_ok self'" "rd_fields self' = rd_fields self"
proof -
  obtain self' where l: "layout_of self = (from_fields (rd_fields self), self')" "record_ok self'" "rd_fields self' = rd_fields self"
    using assms by (cases "rd_layout self") (auto simp: layout_of_def record_ok_def Let_def)
  then show ?thesis using that [of self'] from_fields_first [of "rd_fields self" name] by (auto simp: field_storage_def Let_def)
qed

lemma map_of_find: "map_of fs name = map_option (\<lambda>i. snd (fs ! i)) (find (\<lambda>i. fst (fs ! i) = name) [0..<length fs])"
proof -
  have "map_of fs name = map_option snd (find (\<lambda>(n, _). n = name) fs)" by (induction fs) auto
  then show ?thesis using find_position [of "\<lambda>(n, _). n = name" fs] by (simp add: case_prod_unfold option.map_comp comp_def)
qed

lemma from_fields_names: "map fst fs = map fst gs \<Longrightarrow> from_fields fs = from_fields gs"
proof -
  assume names: "map fst fs = map fst gs"
  then have len: "length fs = length gs" by (metis length_map)
  then have at: "fst (fs ! i) = fst (gs ! i)" if "i < length gs" for i using names that by (metis nth_map)
  have le: "layout_le fs a b = layout_le gs a b" if "a < length gs" "b < length gs" for a b using at that by (simp add: layout_le_def)
  have ins: "layout_insert fs a bs = layout_insert gs a bs" if "a < length gs" "\<forall>b \<in> set bs. b < length gs" for a bs
    using that by (induction bs) (simp_all add: le)
  have set_ins: "set (foldr (layout_insert hs) ns []) = set ns" for ns and hs :: "(string \<times> 'c) list" by (induction ns) auto
  have "foldr (layout_insert fs) ns [] = foldr (layout_insert gs) ns []" if "\<forall>n \<in> set ns. n < length gs" for ns
    using that by (induction ns) (simp_all add: ins set_ins)
  then show ?thesis using len by (simp add: from_fields_def)
qed

lemma record_get_spec:
  assumes "record_ok self"
  shows "fst (record_get self name) = map_of (rd_fields self) name \<and> record_ok (snd (record_get self name)) \<and>
    rd_fields (snd (record_get self name)) = rd_fields self"
proof -
  obtain self' where "field_storage self name = (find (\<lambda>i. fst (rd_fields self ! i) = name) [0..<length (rd_fields self)], self')"
    "record_ok self'" "rd_fields self' = rd_fields self" using field_storage_first [OF assms] by blast
  then show ?thesis by (simp add: record_get_def map_of_find [of _ name])
qed

lemma field_mut_spec:
  assumes "record_ok self"
  shows "record_ok (snd (field_mut f self name)) \<and> (fst (field_mut f self name) \<longleftrightarrow> map_of (rd_fields self) name \<noteq> None) \<and>
    map_of (rd_fields (snd (field_mut f self name))) name' =
      (if name' = name then map_option f (map_of (rd_fields self) name) else map_of (rd_fields self) name')"
proof -
  obtain self' where st: "field_storage self name = (find (\<lambda>i. fst (rd_fields self ! i) = name) [0..<length (rd_fields self)], self')"
    "record_ok self'" "rd_fields self' = rd_fields self" using field_storage_first [OF assms] by blast
  show ?thesis
  proof (cases "find (\<lambda>i. fst (rd_fields self ! i) = name) [0..<length (rd_fields self)]")
    case None
    then show ?thesis using st by (auto simp: field_mut_def map_of_find [of _ name])
  next
    case (Some i)
    let ?fs = "rd_fields self" and ?e = "\<lambda>i. (fst (rd_fields self ! i), f (snd (rd_fields self ! i)))"
    have i: "i < length ?fs" "fst (?fs ! i) = name" using Some by (simp_all add: find_upt_Some)
    have names: "map fst (?fs[i := ?e i]) = map fst ?fs" by (metis fst_conv list_update_id map_update)
    have at: "fst (?fs[i := ?e i] ! j) = fst (?fs ! j)" for j by (cases "j = i") (use i in auto)
    have "snd (?fs[i := ?e i] ! j) = snd (?fs ! j)" if "j \<noteq> i" for j using that by simp
    moreover have "find (\<lambda>i. fst (?fs ! i) = name') [0..<length ?fs] = Some i \<longleftrightarrow> name' = name"
      using Some i(2) by (metis (mono_tags, lifting) find_upt_Some)
    ultimately have upd: "map_of (?fs[i := ?e i]) name' = (if name' = name then map_option f (map_of ?fs name) else map_of ?fs name')"
      using Some i unfolding map_of_find [of _ name'] map_of_find [of _ name] at length_list_update
      by (cases "find (\<lambda>i. fst (?fs ! i) = name') [0..<length ?fs]") auto
    have kept: "record_ok (self'\<lparr>rd_fields := ?fs[i := ?e i]\<rparr>)"
      using st(2,3) from_fields_names [OF names] by (auto simp: record_ok_def split: option.splits)
    have "field_mut f self name = (True, self'\<lparr>rd_fields := ?fs[i := ?e i]\<rparr>)" using Some st by (simp add: field_mut_def)
    moreover have "map_of ?fs name \<noteq> None" using Some by (simp add: map_of_find)
    ultimately show ?thesis using upd kept by simp
  qed
qed

text \<open>\<^bold>\<open>C21\<close>. A record keeps a layout only of the fields it has now, whatever is read or written through it; so binary search
  in the layout finds the first field of a name, if there is one, and a write through \<open>field_mut\<close> changes that field and no
  other. A layout made for other fields of the same names in the same order is right for these too.\<close>

theorem record_layout_is_coherent:
  assumes "record_ok self"
  shows "fst (record_get self name) = map_of (rd_fields self) name \<and> record_ok (snd (record_get self name)) \<and>
    rd_fields (snd (record_get self name)) = rd_fields self \<and>
    record_ok (snd (field_mut f self name)) \<and> (fst (field_mut f self name) \<longleftrightarrow> map_of (rd_fields self) name \<noteq> None) \<and>
    map_of (rd_fields (snd (field_mut f self name))) name' =
      (if name' = name then map_option f (map_of (rd_fields self) name) else map_of (rd_fields self) name') \<and>
    record_ok (record_borrow_mut g self) \<and> record_ok (record_new (rd_fields self)) \<and>
    (map fst fs = map fst (rd_fields self) \<longrightarrow> record_ok (with_layout fs (fst (layout_of self))))"
proof -
  have "fst (layout_of self) = from_fields (rd_fields self)"
    using assms by (cases "rd_layout self") (auto simp: layout_of_def record_ok_def Let_def)
  then have "map fst fs = map fst (rd_fields self) \<longrightarrow> record_ok (with_layout fs (fst (layout_of self)))"
    using from_fields_names [of fs "rd_fields self"] by (auto simp: record_ok_def with_layout_def)
  moreover have "record_ok (record_borrow_mut g self)" "record_ok (record_new (rd_fields self))"
    by (simp_all add: record_ok_def record_borrow_mut_def record_new_def)
  ultimately show ?thesis using record_get_spec [OF assms] field_mut_spec [OF assms] by blast
qed

theorem record_layout_is_coherent_witness:
  "fst (record_get (record_new [(''b'', 1 :: nat), (''a'', 2)]) ''a'') = Some 2"
proof -
  have "record_ok (record_new [(''b'', 1 :: nat), (''a'', 2)])" by (simp add: record_ok_def record_new_def)
  from record_layout_is_coherent [OF this]
  have "fst (record_get (record_new [(''b'', 1 :: nat), (''a'', 2)]) ''a'') = map_of (rd_fields (record_new [(''b'', 1 :: nat), (''a'', 2)])) ''a''" by blast
  then show ?thesis by (simp add: record_new_def)
qed

lemma borrow_checked_field_spec:
  assumes "record_ok self"
  shows "fst (borrow_checked_field self n expected_name (length (rd_fields self))) =
    (case field_at (from_fields (rd_fields self)) (rd_fields self) n of
       None \<Rightarrow> Err ''record field slot is outside checked layout''
     | Some (name, v) \<Rightarrow> if name = expected_name then Ok v else Err ''record field name differs from checked layout slot'')"
proof -
  have "fst (layout_of self) = from_fields (rd_fields self)"
    using assms by (cases "rd_layout self") (auto simp: layout_of_def record_ok_def Let_def)
  moreover have "n < length (from_fields (rd_fields self)) \<Longrightarrow> from_fields (rd_fields self) ! n < length (rd_fields self)"
    using from_fields_set [of "rd_fields self"] nth_mem by blast
  ultimately show ?thesis by (auto simp: borrow_checked_field_def field_at_def case_prod_unfold Let_def)
qed

end
