(* ===== verification/Comparison_Engine.thy ===== *)
theory Comparison_Engine
  imports Prelude
begin

text \<open>
  The machinery of structural comparison, \<open>value/comparison/\<close>: the engine that drives cursors with a
  stack of its own (\<open>engine.rs\<close>), the memo of pairs that are being compared or were found equal
  (\<open>runtime/memo.rs\<close>, \<open>runtime/context.rs\<close>), and the search that matches the members of two sets
  (\<open>mod.rs\<close>).
\<close>

section \<open>The engine\<close>

datatype 'c comparison = Ready bool | Pending 'c

datatype 'c cursor_step = StepComplete bool | StepChild "'c comparison"

text \<open>\<open>advance\<close> steps a cursor under a shared context. A comparison that does not end is \<open>None\<close>.\<close>

partial_function (option) engine_loop ::
  "('cx \<Rightarrow> 'c \<Rightarrow> bool option \<Rightarrow> 'c cursor_step \<times> 'c \<times> 'cx) \<Rightarrow> 'cx \<Rightarrow> 'c \<Rightarrow> 'c list \<Rightarrow> bool option \<Rightarrow> (bool \<times> 'cx) option"
where
  "engine_loop advance cx current parents previous =
     (case advance cx current previous of
        (step, current, cx) \<Rightarrow>
          (case step of
             StepChild child \<Rightarrow>
               (case child of
                  Ready result \<Rightarrow> engine_loop advance cx current parents (Some result)
                | Pending cursor \<Rightarrow> engine_loop advance cx cursor (current # parents) None)
           | StepComplete result \<Rightarrow>
               (case parents of
                  [] \<Rightarrow> Some (result, cx)
                | parent # parents \<Rightarrow> engine_loop advance cx parent parents (Some result))))"

definition engine_compare ::
  "('cx \<Rightarrow> 'c \<Rightarrow> bool option \<Rightarrow> 'c cursor_step \<times> 'c \<times> 'cx) \<Rightarrow> 'cx \<Rightarrow> 'c comparison \<Rightarrow> (bool \<times> 'cx) option"
where
  "engine_compare advance cx initial =
     (case initial of Ready result \<Rightarrow> Some (result, cx) | Pending cursor \<Rightarrow> engine_loop advance cx cursor [] None)"

text \<open>What a cursor evaluates to, by recursion into its children.\<close>

inductive evaluates ::
  "('cx \<Rightarrow> 'c \<Rightarrow> bool option \<Rightarrow> 'c cursor_step \<times> 'c \<times> 'cx) \<Rightarrow> 'cx \<Rightarrow> 'c \<Rightarrow> bool option \<Rightarrow> bool \<Rightarrow> 'cx \<Rightarrow> bool"
  for advance
where
  ev_complete: "advance cx c previous = (StepComplete result, c', cx') \<Longrightarrow> evaluates advance cx c previous result cx'"
| ev_ready: "advance cx c previous = (StepChild (Ready b), c', cx') \<Longrightarrow> evaluates advance cx' c' (Some b) result cx'' \<Longrightarrow>
    evaluates advance cx c previous result cx''"
| ev_pending: "advance cx c previous = (StepChild (Pending d), c', cx') \<Longrightarrow> evaluates advance cx' d None b cx1 \<Longrightarrow>
    evaluates advance cx1 c' (Some b) result cx'' \<Longrightarrow> evaluates advance cx c previous result cx''"

fun resume_engine ::
  "('cx \<Rightarrow> 'c \<Rightarrow> bool option \<Rightarrow> 'c cursor_step \<times> 'c \<times> 'cx) \<Rightarrow> 'cx \<Rightarrow> bool \<Rightarrow> 'c list \<Rightarrow> (bool \<times> 'cx) option"
where
  "resume_engine advance cx result [] = Some (result, cx)"
| "resume_engine advance cx result (parent # parents) = engine_loop advance cx parent parents (Some result)"

lemma engine_evaluates:
  "evaluates advance cx c previous result cx' \<Longrightarrow> engine_loop advance cx c parents previous = resume_engine advance cx' result parents"
proof (induction arbitrary: parents rule: evaluates.induct)
  case (ev_complete cx c previous result c' cx')
  then show ?case by (subst engine_loop.simps) (cases parents; simp)
next
  case (ev_ready cx c previous b c' cx' result cx'')
  then show ?case by (subst engine_loop.simps) simp
next
  case (ev_pending cx c previous d c' cx' b cx1 result cx'')
  then show ?case by (subst engine_loop.simps) simp
qed

section \<open>The memo\<close>

text \<open>A table keeps its first key apart, a list of states its first entry.\<close>

record 'k memo_table =
  mt_first :: "('k \<times> nat) option"
  mt_rest :: "'k \<rightharpoonup> nat"

definition table_get :: "'k memo_table \<Rightarrow> 'k \<Rightarrow> nat option" where
  "table_get self k =
     (case mt_first self of
        Some (first, slot) \<Rightarrow> if first = k then Some slot else mt_rest self k
      | None \<Rightarrow> mt_rest self k)"

definition table_insert :: "'k memo_table \<Rightarrow> 'k \<Rightarrow> nat \<Rightarrow> 'k memo_table" where
  "table_insert self k slot =
     (case mt_first self of
        None \<Rightarrow> self\<lparr>mt_first := Some (k, slot)\<rparr>
      | Some (first, old) \<Rightarrow>
          if first = k then self\<lparr>mt_first := Some (first, slot)\<rparr> else self\<lparr>mt_rest := (mt_rest self)(k \<mapsto> slot)\<rparr>)"

record memo_states =
  me_first :: nat
  me_count :: nat
  me_rest :: "nat list"

definition states_push :: "memo_states \<Rightarrow> nat \<Rightarrow> nat \<times> memo_states" where
  "states_push self st =
     (let slot = me_count self; self = self\<lparr>me_count := slot + 1\<rparr> in
      (slot, if slot = 0 then self\<lparr>me_first := st\<rparr> else self\<lparr>me_rest := me_rest self @ [st]\<rparr>))"

definition states_get :: "memo_states \<Rightarrow> nat \<Rightarrow> nat" where
  "states_get self slot = (if slot = 0 then me_first self else me_rest self ! (slot - 1))"

definition states_set :: "memo_states \<Rightarrow> nat \<Rightarrow> nat \<Rightarrow> memo_states" where
  "states_set self slot st = (if slot = 0 then self\<lparr>me_first := st\<rparr> else self\<lparr>me_rest := (me_rest self)[slot - 1 := st]\<rparr>)"

definition memo_active :: nat where "memo_active = 0"

definition memo_invalid :: nat where "memo_invalid = 2 ^ 32 - 1"

definition invalidate_completed :: "memo_states \<Rightarrow> nat \<Rightarrow> nat \<Rightarrow> memo_states" where
  "invalidate_completed self act inval =
     self\<lparr>me_first := (if me_count self > 0 \<and> me_first self \<noteq> act then inval else me_first self),
       me_rest := map (\<lambda>st. if st \<noteq> act then inval else st) (me_rest self)\<rparr>"

record 'k compare_context =
  cx_pairs :: "'k memo_table"
  cx_states :: memo_states
  cx_generation :: nat

definition context_default :: "'k compare_context" where
  "context_default =
     \<lparr>cx_pairs = \<lparr>mt_first = None, mt_rest = Map.empty\<rparr>, cx_states = \<lparr>me_first = 0, me_count = 0, me_rest = []\<rparr>, cx_generation = 1\<rparr>"

definition known :: "'k compare_context \<Rightarrow> 'k \<Rightarrow> bool" where
  "known cx pair =
     (case table_get (cx_pairs cx) pair of
        None \<Rightarrow> False
      | Some slot \<Rightarrow> states_get (cx_states cx) slot = memo_active \<or> states_get (cx_states cx) slot = cx_generation cx)"

text \<open>The part of \<open>memoized\<close> that marks an unknown pair as active; the slot is the ticket of its cursor.\<close>

definition memo_begin :: "'k compare_context \<Rightarrow> 'k \<Rightarrow> nat \<times> 'k compare_context" where
  "memo_begin cx pair =
     (let (slot, cx) =
        (case table_get (cx_pairs cx) pair of
           Some slot \<Rightarrow> (slot, cx)
         | None \<Rightarrow>
             (case states_push (cx_states cx) memo_invalid of
                (slot, states) \<Rightarrow> (slot, cx\<lparr>cx_states := states, cx_pairs := table_insert (cx_pairs cx) pair slot\<rparr>))) in
      (slot, cx\<lparr>cx_states := states_set (cx_states cx) slot memo_active\<rparr>))"

definition memo_finish :: "'k compare_context \<Rightarrow> nat option \<Rightarrow> bool \<Rightarrow> 'k compare_context" where
  "memo_finish cx slot equal =
     (if equal \<and> slot = None then cx
      else
        let cx = (case slot of
                    None \<Rightarrow> cx
                  | Some slot \<Rightarrow> cx\<lparr>cx_states := states_set (cx_states cx) slot (if equal then cx_generation cx else memo_invalid)\<rparr>) in
        if \<not> equal then
          if cx_generation cx < memo_invalid - 1 then cx\<lparr>cx_generation := cx_generation cx + 1\<rparr>
          else cx\<lparr>cx_states := invalidate_completed (cx_states cx) memo_active memo_invalid, cx_generation := 1\<rparr>
        else cx)"

section \<open>What the memo knows\<close>

definition states_list :: "memo_states \<Rightarrow> nat list" where
  "states_list self = (if me_count self = 0 then [] else me_first self # me_rest self)"

definition memo_active_pair :: "'k compare_context \<Rightarrow> 'k \<Rightarrow> bool" where
  "memo_active_pair cx pair \<longleftrightarrow> (\<exists>slot. table_get (cx_pairs cx) pair = Some slot \<and> states_get (cx_states cx) slot = memo_active)"

definition memo_proven_pair :: "'k compare_context \<Rightarrow> 'k \<Rightarrow> bool" where
  "memo_proven_pair cx pair \<longleftrightarrow> (\<exists>slot. table_get (cx_pairs cx) pair = Some slot \<and> states_get (cx_states cx) slot = cx_generation cx)"

definition memo_ok :: "'k compare_context \<Rightarrow> bool" where
  "memo_ok cx \<longleftrightarrow>
     (\<forall>p slot. table_get (cx_pairs cx) p = Some slot \<longrightarrow> slot < me_count (cx_states cx)) \<and>
     (\<forall>p q slot. table_get (cx_pairs cx) p = Some slot \<longrightarrow> table_get (cx_pairs cx) q = Some slot \<longrightarrow> p = q) \<and>
     length (me_rest (cx_states cx)) = me_count (cx_states cx) - 1 \<and>
     0 < cx_generation cx \<and> cx_generation cx < memo_invalid \<and>
     (\<forall>slot < me_count (cx_states cx). states_get (cx_states cx) slot = memo_invalid \<or> states_get (cx_states cx) slot \<le> cx_generation cx)"

lemma known_iff: "known cx pair \<longleftrightarrow> memo_active_pair cx pair \<or> memo_proven_pair cx pair"
  by (auto simp: known_def memo_active_pair_def memo_proven_pair_def split: option.splits)

lemma table_get_insert:
  "table_get t k = None \<Longrightarrow> table_get (table_insert t k slot) k' = (if k' = k then Some slot else table_get t k')"
  by (auto simp: table_get_def table_insert_def split: option.splits if_splits)

lemma states_get_set:
  "slot < me_count st \<Longrightarrow> length (me_rest st) = me_count st - 1 \<Longrightarrow> slot' < me_count st \<Longrightarrow>
    states_get (states_set st slot x) slot' = (if slot' = slot then x else states_get st slot')"
  by (auto simp: states_get_def states_set_def nth_list_update)

lemma states_set_fields [simp]: "me_count (states_set st slot x) = me_count st" "length (me_rest (states_set st slot x)) = length (me_rest st)"
  by (simp_all add: states_set_def)

lemma states_push_spec:
  assumes "states_push st x = (slot, st')" "length (me_rest st) = me_count st - 1"
  shows "slot = me_count st \<and> me_count st' = Suc (me_count st) \<and> length (me_rest st') = me_count st' - 1 \<and>
    states_get st' slot = x \<and> (\<forall>i < me_count st. states_get st' i = states_get st i)"
  using assms by (auto simp: states_push_def states_get_def Let_def nth_append split: if_splits)

lemma invalidate_get:
  "slot < me_count st \<Longrightarrow> length (me_rest st) = me_count st - 1 \<Longrightarrow>
    states_get (invalidate_completed st act inval) slot = (if states_get st slot = act then act else inval)"
  by (auto simp: invalidate_completed_def states_get_def)

lemma invalidate_fields [simp]:
  "me_count (invalidate_completed st act inval) = me_count st" "length (me_rest (invalidate_completed st act inval)) = length (me_rest st)"
  by (simp_all add: invalidate_completed_def)

lemma memo_default_ok: "memo_ok context_default" "\<not> known context_default pair"
  by (simp_all add: memo_ok_def context_default_def table_get_def known_def memo_invalid_def)

lemma memo_okD:
  assumes "memo_ok cx"
  shows "table_get (cx_pairs cx) p = Some slot \<Longrightarrow> slot < me_count (cx_states cx)"
    and "table_get (cx_pairs cx) p = Some slot \<Longrightarrow> table_get (cx_pairs cx) q = Some slot \<Longrightarrow> p = q"
    and "length (me_rest (cx_states cx)) = me_count (cx_states cx) - 1"
    and "0 < cx_generation cx" and "cx_generation cx < memo_invalid"
    and "slot < me_count (cx_states cx) \<Longrightarrow> states_get (cx_states cx) slot = memo_invalid \<or> states_get (cx_states cx) slot \<le> cx_generation cx"
  using assms unfolding memo_ok_def by blast+

text \<open>An update of the state of one slot, seen from the pairs.\<close>

lemma memo_set:
  assumes ok: "memo_ok cx" and p: "table_get (cx_pairs cx) p = Some slot" and x: "x = memo_invalid \<or> x \<le> cx_generation cx"
  defines "cx' \<equiv> cx\<lparr>cx_states := states_set (cx_states cx) slot x\<rparr>"
  shows "memo_ok cx'"
    and "memo_active_pair cx' q \<longleftrightarrow> (if q = p then x = memo_active else memo_active_pair cx q)"
    and "memo_proven_pair cx' q \<longleftrightarrow> (if q = p then x = cx_generation cx else memo_proven_pair cx q)"
proof -
  note d = memo_okD [OF ok]
  have get: "states_get (cx_states cx') s = (if s = slot then x else states_get (cx_states cx) s)" if "s < me_count (cx_states cx)" for s
    using states_get_set [OF d(1) [OF p] d(3) that] by (simp add: cx'_def)
  have same: "cx_pairs cx' = cx_pairs cx" "cx_generation cx' = cx_generation cx" "me_count (cx_states cx') = me_count (cx_states cx)"
    "length (me_rest (cx_states cx')) = length (me_rest (cx_states cx))" by (simp_all add: cx'_def)
  show "memo_ok cx'" unfolding memo_ok_def same using d x get by auto
  show "memo_active_pair cx' q \<longleftrightarrow> (if q = p then x = memo_active else memo_active_pair cx q)"
    unfolding memo_active_pair_def same using p get d(1,2) by (metis option.inject)
  show "memo_proven_pair cx' q \<longleftrightarrow> (if q = p then x = cx_generation cx else memo_proven_pair cx q)"
    unfolding memo_proven_pair_def same using p get d(1,2) by (metis option.inject)
qed

lemma memo_new_slot:
  assumes ok: "memo_ok cx" and none: "table_get (cx_pairs cx) p = None" and push: "states_push (cx_states cx) memo_invalid = (slot, st)"
  defines "cx' \<equiv> cx\<lparr>cx_states := st, cx_pairs := table_insert (cx_pairs cx) p slot\<rparr>"
  shows "memo_ok cx'" "table_get (cx_pairs cx') q = (if q = p then Some slot else table_get (cx_pairs cx) q)"
    and "memo_active_pair cx' q \<longleftrightarrow> memo_active_pair cx q" "memo_proven_pair cx' q \<longleftrightarrow> memo_proven_pair cx q"
    and "cx_generation cx' = cx_generation cx"
proof -
  note d = memo_okD [OF ok] and s = states_push_spec [OF push memo_okD(3) [OF ok]]
  show get: "table_get (cx_pairs cx') q = (if q = p then Some slot else table_get (cx_pairs cx) q)" for q
    by (simp add: cx'_def table_get_insert [OF none])
  have st: "cx_states cx' = st" "cx_generation cx' = cx_generation cx" by (simp_all add: cx'_def)
  show "memo_ok cx'" unfolding memo_ok_def get st using d s less_irrefl by (auto simp: less_Suc_eq dest: d(1))
  have old: "states_get st i = states_get (cx_states cx) i" if "table_get (cx_pairs cx) q = Some i" for q i
    using s d(1) [OF that] by blast
  have "memo_invalid \<noteq> memo_active" "memo_invalid \<noteq> cx_generation cx" using d(5) by (simp_all add: memo_invalid_def memo_active_def)
  then show "memo_active_pair cx' q \<longleftrightarrow> memo_active_pair cx q" "memo_proven_pair cx' q \<longleftrightarrow> memo_proven_pair cx q"
    unfolding memo_active_pair_def memo_proven_pair_def get st using s none old by auto
  show "cx_generation cx' = cx_generation cx" by (rule st(2))
qed

lemma memo_begin_spec:
  assumes ok: "memo_ok cx" and start: "memo_begin cx p = (slot, cx')"
  shows "memo_ok cx' \<and> table_get (cx_pairs cx') p = Some slot \<and>
    (\<forall>q s. table_get (cx_pairs cx) q = Some s \<longrightarrow> table_get (cx_pairs cx') q = Some s) \<and>
    (\<forall>q. memo_active_pair cx' q \<longleftrightarrow> q = p \<or> memo_active_pair cx q) \<and>
    (\<forall>q. memo_proven_pair cx' q \<longleftrightarrow> q \<noteq> p \<and> memo_proven_pair cx q)"
proof -
  have zero: "memo_active = memo_invalid \<or> memo_active \<le> cx_generation cx" "memo_active \<noteq> cx_generation cx"
    using memo_okD(4) [OF ok] by (simp_all add: memo_active_def)
  show ?thesis
  proof (cases "table_get (cx_pairs cx) p")
    case (Some s)
    then have "slot = s" "cx' = cx\<lparr>cx_states := states_set (cx_states cx) s memo_active\<rparr>" using start by (auto simp: memo_begin_def)
    then show ?thesis using memo_set [OF ok Some zero(1)] zero(2) Some by auto
  next
    case None
    obtain s st where push: "states_push (cx_states cx) memo_invalid = (s, st)" by fastforce
    let ?cx = "cx\<lparr>cx_states := st, cx_pairs := table_insert (cx_pairs cx) p s\<rparr>"
    note new = memo_new_slot [OF ok None push]
    have "slot = s" "cx' = ?cx\<lparr>cx_states := states_set (cx_states ?cx) s memo_active\<rparr>" using start None push by (auto simp: memo_begin_def)
    moreover have "table_get (cx_pairs ?cx) p = Some s" using new(2) by simp
    ultimately show ?thesis using memo_set [OF new(1), of p s memo_active] new zero None by auto
  qed
qed

lemma memo_forget:
  assumes ok: "memo_ok cx"
  defines "cx' \<equiv> (if cx_generation cx < memo_invalid - 1 then cx\<lparr>cx_generation := cx_generation cx + 1\<rparr>
    else cx\<lparr>cx_states := invalidate_completed (cx_states cx) memo_active memo_invalid, cx_generation := 1\<rparr>)"
  shows "memo_ok cx' \<and> cx_pairs cx' = cx_pairs cx \<and> (\<forall>q. memo_active_pair cx' q \<longleftrightarrow> memo_active_pair cx q) \<and> (\<forall>q. \<not> memo_proven_pair cx' q)"
proof (cases "cx_generation cx < memo_invalid - 1")
  case True
  note d = memo_okD [OF ok]
  have cx': "cx' = cx\<lparr>cx_generation := cx_generation cx + 1\<rparr>" using True by (simp add: cx'_def)
  have "memo_ok cx'" using ok True unfolding memo_ok_def cx' by (auto simp: le_Suc_eq)
  moreover have "\<not> memo_proven_pair cx' q" for q
    using d(1,6) True unfolding memo_proven_pair_def cx' by fastforce
  ultimately show ?thesis by (simp add: cx' memo_active_pair_def)
next
  case False
  note d = memo_okD [OF ok]
  have cx': "cx' = cx\<lparr>cx_states := invalidate_completed (cx_states cx) memo_active memo_invalid, cx_generation := 1\<rparr>" using False by (simp add: cx'_def)
  have get: "states_get (cx_states cx') slot = (if states_get (cx_states cx) slot = memo_active then memo_active else memo_invalid)"
    if "slot < me_count (cx_states cx)" for slot using invalidate_get [OF that d(3)] by (simp add: cx')
  have codes: "memo_invalid \<noteq> memo_active" "memo_active \<noteq> 1" "memo_invalid \<noteq> 1" "1 < memo_invalid" by (simp_all add: memo_invalid_def memo_active_def)
  have same: "cx_pairs cx' = cx_pairs cx" "cx_generation cx' = 1" "me_count (cx_states cx') = me_count (cx_states cx)"
    "length (me_rest (cx_states cx')) = length (me_rest (cx_states cx))" by (simp_all add: cx')
  have "memo_ok cx'" unfolding memo_ok_def same using d get codes by (auto simp: memo_active_def)
  moreover have "memo_active_pair cx' q \<longleftrightarrow> memo_active_pair cx q" "\<not> memo_proven_pair cx' q" for q
    unfolding memo_active_pair_def memo_proven_pair_def same using get d(1) codes by metis+
  ultimately show ?thesis using same(1) by blast
qed

lemma memo_finish_spec:
  assumes ok: "memo_ok cx" and p: "table_get (cx_pairs cx) p = Some slot"
  shows "memo_ok (memo_finish cx (Some slot) equal) \<and> cx_pairs (memo_finish cx (Some slot) equal) = cx_pairs cx \<and>
    (\<forall>q. memo_active_pair (memo_finish cx (Some slot) equal) q \<longleftrightarrow> q \<noteq> p \<and> memo_active_pair cx q) \<and>
    (\<forall>q. memo_proven_pair (memo_finish cx (Some slot) equal) q \<longleftrightarrow> equal \<and> (q = p \<or> memo_proven_pair cx q))"
proof (cases equal)
  case True
  have "cx_generation cx \<noteq> memo_active" using memo_okD(4) [OF ok] by (simp add: memo_active_def)
  then show ?thesis using True memo_set [OF ok p, of "cx_generation cx"] by (auto simp: memo_finish_def)
next
  case False
  let ?cx = "cx\<lparr>cx_states := states_set (cx_states cx) slot memo_invalid\<rparr>"
  have "memo_invalid \<noteq> memo_active" by (simp add: memo_invalid_def memo_active_def)
  then have set: "memo_ok ?cx" "memo_active_pair ?cx q \<longleftrightarrow> q \<noteq> p \<and> memo_active_pair cx q" for q
    using memo_set [OF ok p, of memo_invalid] by auto
  have "memo_finish cx (Some slot) equal = (if cx_generation ?cx < memo_invalid - 1 then ?cx\<lparr>cx_generation := cx_generation ?cx + 1\<rparr>
      else ?cx\<lparr>cx_states := invalidate_completed (cx_states ?cx) memo_active memo_invalid, cx_generation := 1\<rparr>)"
    using False by (simp add: memo_finish_def)
  then show ?thesis using memo_forget [OF set(1)] set(2) False by simp
qed

lemma memo_finish_None:
  assumes ok: "memo_ok cx"
  shows "memo_ok (memo_finish cx None equal) \<and> cx_pairs (memo_finish cx None equal) = cx_pairs cx \<and>
    (\<forall>q. memo_active_pair (memo_finish cx None equal) q \<longleftrightarrow> memo_active_pair cx q) \<and>
    (\<forall>q. memo_proven_pair (memo_finish cx None equal) q \<longleftrightarrow> equal \<and> memo_proven_pair cx q)"
  using memo_forget [OF ok] ok by (cases equal) (simp_all add: memo_finish_def)

section \<open>Matching two sets\<close>

text \<open>\<open>SetSearch\<close> in the form \<open>unique\<close>, for members that are distinct already.\<close>

record set_search =
  sr_left :: nat
  sr_candidate :: nat
  sr_last_right :: nat
  sr_len :: nat

definition search_unique :: "nat \<Rightarrow> set_search" where
  "search_unique len = \<lparr>sr_left = 0, sr_candidate = 0, sr_last_right = 0, sr_len = len\<rparr>"

definition search_after :: "set_search \<Rightarrow> bool option \<Rightarrow> set_search" where
  "search_after self previous = (if previous = Some True then self\<lparr>sr_left := sr_left self + 1, sr_candidate := 0\<rparr> else self)"

text \<open>\<open>candidate\<close> is a closure with a state of its own.\<close>

definition search_next ::
  "set_search \<Rightarrow> bool option \<Rightarrow> (nat \<Rightarrow> nat \<Rightarrow> 'h \<Rightarrow> nat option \<times> 'h) \<Rightarrow> 'h \<Rightarrow> (unit + (nat \<times> nat) option) \<times> 'h \<times> set_search"
where
  "search_next self previous candidate h =
     (let self = search_after self previous in
      if sr_left self = sr_len self then (Ok None, h, self)
      else
        case candidate (sr_left self) (sr_candidate self) h of
          (None, h) \<Rightarrow> (Err (), h, self)
        | (Some right, h) \<Rightarrow>
            (Ok (Some (sr_left self, right)), h, self\<lparr>sr_candidate := sr_candidate self + 1, sr_last_right := right\<rparr>))"

end
