(* ===== verification/Value_Comparison.thy ===== *)
theory Value_Comparison
  imports Value_Membership Record_Layout Comparison_Engine
begin

text \<open>
  Structural comparison of runtime values, \<open>value/comparison/\<close>: what there is to compare in two values
  (\<open>runtime/node.rs\<close>), the cursors over their members (\<open>runtime.rs\<close>, \<open>runtime/ordered.rs\<close>) and the
  comparison itself. It returns for all well-formed values and computes the equality of
  \<open>Value_Structure\<close>.

  \<open>oq\<close> compares what the model does not look into, comparators included, and \<open>ident\<close> is the identity of
  shared storage; a pair of identities keys the memo.
\<close>

section \<open>Members side by side\<close>

datatype 'x children =
    ChFields "'x interp_value list" "'x interp_value list"
  | ChArray "'x interp_value list" "'x interp_value list"
  | ChSlice "'x interp_value list" "'x interp_value list"
  | ChDeque "'x interp_value list" "'x interp_value list"
  | ChList "'x interp_value list" "'x interp_value list"
  | ChMap "('x interp_value \<times> 'x interp_value) list" "('x interp_value \<times> 'x interp_value) list"
  | ChOrdered bool "'x option" "'x option" "('x interp_value, 'x interp_value) cursor" "('x interp_value, 'x interp_value) cursor"
  | ChQueue "('x interp_value \<times> 'x interp_value) option list" "('x interp_value \<times> 'x interp_value) option list" "'x option" "'x option" nat nat
  | ChRecord "(string \<times> 'x interp_value) list" "(string \<times> 'x interp_value) list"
  | ChSetSequence "'x interp_value list" "'x interp_value list"
  | ChSetSearch "'x interp_value list" "'x interp_value list" membership_index set_search "(nat \<times> nat) option"

record 'x value_cursor =
  vc_pair :: "nat option"
  vc_children :: "'x children"
  vc_index :: nat

text \<open>What a cursor hands out next: two members, or an answer it has already.\<close>

datatype 'x probe = Members "'x interp_value" "'x interp_value" | Answer bool

definition both_at :: "'x interp_value list \<Rightarrow> 'x interp_value list \<Rightarrow> nat \<Rightarrow> 'x probe option" where
  "both_at xs ys i = (if i < length xs \<and> i < length ys then Some (Members (xs ! i) (ys ! i)) else None)"

definition pair_side :: "bool \<Rightarrow> 'x interp_value \<times> 'x interp_value \<Rightarrow> 'x interp_value \<times> 'x interp_value \<Rightarrow> 'x probe" where
  "pair_side is_value e f = (if is_value then Members (snd e) (snd f) else Members (fst e) (fst f))"

definition pair_at ::
  "('x interp_value \<times> 'x interp_value) list \<Rightarrow> ('x interp_value \<times> 'x interp_value) list \<Rightarrow> nat \<Rightarrow> 'x probe option"
where
  "pair_at es fs i =
     (if i div 2 < length es \<and> i div 2 < length fs then Some (pair_side (i mod 2 = 1) (es ! (i div 2)) (fs ! (i div 2))) else None)"

text \<open>\<open>OrderedComparison::next\<close>; both cursors are asked before the answers are put together.\<close>

definition ordered_next ::
  "('x \<Rightarrow> 'x \<Rightarrow> bool) \<Rightarrow> bool \<Rightarrow> 'x option \<Rightarrow> 'x option \<Rightarrow> ('x interp_value, 'x interp_value) cursor \<Rightarrow>
   ('x interp_value, 'x interp_value) cursor \<Rightarrow> nat \<Rightarrow> 'x probe option \<times> 'x children"
where
  "ordered_next oq is_map c d l r i =
     (if i = 0 then (Some (Answer (option_eq oq c d)), ChOrdered is_map c d l r)
      else
        let is_value = is_map \<and> (i - 1) mod 2 = 1; (e, l) = cursor_current l; (f, r) = cursor_current r in
        case (e, f) of
          (Some e, Some f) \<Rightarrow>
            (Some (pair_side is_value e f),
             if \<not> is_map \<or> is_value then ChOrdered is_map c d (snd (cursor_advance l)) (snd (cursor_advance r))
             else ChOrdered is_map c d l r)
        | _ \<Rightarrow> (None, ChOrdered is_map c d l r))"

function skip_vacant :: "'a option list \<Rightarrow> nat \<Rightarrow> nat" where
  "skip_vacant ss i = (if i < length ss \<and> ss ! i = None then skip_vacant ss (i + 1) else i)"
  by pat_completeness auto
termination by (relation "measure (\<lambda>(ss, i). length ss - i)") auto

lemmas [simp del] = skip_vacant.simps

definition slot_at :: "'a option list \<Rightarrow> nat \<Rightarrow> 'a option" where
  "slot_at ss i = (if i < length ss then ss ! i else None)"

definition queue_next ::
  "('x \<Rightarrow> 'x \<Rightarrow> bool) \<Rightarrow> ('x interp_value \<times> 'x interp_value) option list \<Rightarrow> ('x interp_value \<times> 'x interp_value) option list \<Rightarrow>
   'x option \<Rightarrow> 'x option \<Rightarrow> nat \<Rightarrow> nat \<Rightarrow> nat \<Rightarrow> 'x probe option \<times> 'x children"
where
  "queue_next oq ss ts c d a_slot b_slot i =
     (if i = 0 then (Some (Answer (option_eq oq c d)), ChQueue ss ts c d a_slot b_slot)
      else
        let a_slot = skip_vacant ss a_slot; b_slot = skip_vacant ts b_slot; is_value = ((i - 1) mod 2 \<noteq> 0) in
        (case (slot_at ss a_slot, slot_at ts b_slot) of (Some e, Some f) \<Rightarrow> Some (pair_side is_value e f) | _ \<Rightarrow> None,
         if is_value then ChQueue ss ts c d (a_slot + 1) (b_slot + 1) else ChQueue ss ts c d a_slot b_slot))"

text \<open>The field at the same position is taken when it has the right name; otherwise it is looked up.\<close>

definition record_next :: "(string \<times> 'x interp_value) list \<Rightarrow> (string \<times> 'x interp_value) list \<Rightarrow> nat \<Rightarrow> 'x probe option" where
  "record_next fs gs i =
     (if i < length fs then
        let name = fst (fs ! i);
            other = (if i < length gs \<and> fst (gs ! i) = name then Some (snd (gs ! i)) else fst (record_get (record_new gs) name)) in
        Some (case other of Some w \<Rightarrow> Members (snd (fs ! i)) w | None \<Rightarrow> Answer False)
      else None)"

primrec next_child :: "('x \<Rightarrow> 'x \<Rightarrow> bool) \<Rightarrow> 'x children \<Rightarrow> nat \<Rightarrow> 'x probe option \<times> 'x children" where
  "next_child oq (ChFields vs ws) i = (both_at vs ws i, ChFields vs ws)"
| "next_child oq (ChArray vs ws) i = (both_at vs ws i, ChArray vs ws)"
| "next_child oq (ChSlice vs ws) i = (both_at vs ws i, ChSlice vs ws)"
| "next_child oq (ChDeque vs ws) i = (both_at vs ws i, ChDeque vs ws)"
| "next_child oq (ChList vs ws) i = (both_at vs ws 0, ChList (tl vs) (tl ws))"
| "next_child oq (ChMap es fs) i = (pair_at es fs i, ChMap es fs)"
| "next_child oq (ChOrdered is_map c d l r) i = ordered_next oq is_map c d l r i"
| "next_child oq (ChQueue ss ts c d a_slot b_slot) i = queue_next oq ss ts c d a_slot b_slot i"
| "next_child oq (ChRecord fs gs) i = (record_next fs gs i, ChRecord fs gs)"
| "next_child oq (ChSetSequence vs ws) i = (both_at vs ws i, ChSetSequence vs ws)"
| "next_child oq (ChSetSearch vs ws index search cache) i = (None, ChSetSearch vs ws index search cache)"

section \<open>Two values\<close>

text \<open>The ends of a checked range are numbers.\<close>

definition range_equal :: "'x range_value \<Rightarrow> 'x range_value \<Rightarrow> bool" where
  "range_equal r s \<longleftrightarrow>
     as_number (range_start r) \<noteq> None \<and> as_number (range_start r) = as_number (range_start s) \<and>
     as_number (range_end r) \<noteq> None \<and> as_number (range_end r) = as_number (range_end s) \<and> range_bounds r = range_bounds s"

definition leaf_equal :: "('x \<Rightarrow> 'x \<Rightarrow> bool) \<Rightarrow> 'x interp_value \<Rightarrow> 'x interp_value \<Rightarrow> bool" where
  "leaf_equal oq a b =
     (case a of
        Unit \<Rightarrow> (case b of Unit \<Rightarrow> True | _ \<Rightarrow> False)
      | OptionNone \<Rightarrow> (case b of OptionNone \<Rightarrow> True | _ \<Rightarrow> False)
      | Bool x \<Rightarrow> (case b of Bool y \<Rightarrow> x = y | _ \<Rightarrow> False)
      | Number x \<Rightarrow> (case b of Number y \<Rightarrow> x = y | _ \<Rightarrow> False)
      | String x \<Rightarrow> (case b of String y \<Rightarrow> x = y | _ \<Rightarrow> False)
      | Bytes x \<Rightarrow> (case b of Bytes y \<Rightarrow> x = y | _ \<Rightarrow> False)
      | Range r \<Rightarrow> (case b of Range s \<Rightarrow> range_equal r s | _ \<Rightarrow> False)
      | Opaque x \<Rightarrow> (case b of Opaque y \<Rightarrow> oq x y | _ \<Rightarrow> False)
      | _ \<Rightarrow> False)"

text \<open>The branches of \<open>compare_node\<close>: an answer, a wrapper to look through, members, or two sets.\<close>

datatype 'x node_branch =
    BranchReady bool
  | BranchInto "'x interp_value" "'x interp_value"
  | BranchChildren "'x children"
  | BranchSets "'x interp_value list" "'x interp_value list" membership_index

definition into_if :: "bool \<Rightarrow> 'x interp_value \<Rightarrow> 'x interp_value \<Rightarrow> 'x node_branch" where
  "into_if same v w = (if \<not> same then BranchReady False else BranchInto v w)"

definition children_if :: "bool \<Rightarrow> 'x children \<Rightarrow> 'x node_branch" where
  "children_if same ch = (if \<not> same then BranchReady False else BranchChildren ch)"

definition node_branch :: "('x \<Rightarrow> 'x \<Rightarrow> bool) \<Rightarrow> 'x interp_value \<Rightarrow> 'x interp_value \<Rightarrow> 'x node_branch" where
  "node_branch oq a b =
     (let leaf = BranchReady (leaf_equal oq a b) in
      case a of
        Existential ot ct v \<Rightarrow> (case b of Existential ot' ct' w \<Rightarrow> into_if (ot = ot' \<and> ct = ct') v w | _ \<Rightarrow> leaf)
      | Nominal ty v \<Rightarrow> (case b of Nominal ty' w \<Rightarrow> into_if (ty = ty') v w | _ \<Rightarrow> leaf)
      | Trust t v \<Rightarrow> (case b of Trust t' w \<Rightarrow> into_if (t = t') v w | _ \<Rightarrow> leaf)
      | OptionSome v \<Rightarrow> (case b of OptionSome w \<Rightarrow> BranchInto v w | _ \<Rightarrow> leaf)
      | Tuple vs \<Rightarrow> (case b of Tuple ws \<Rightarrow> children_if (length vs = length ws) (ChFields vs ws) | _ \<Rightarrow> leaf)
      | Variant n vs \<Rightarrow> (case b of Variant n' ws \<Rightarrow> children_if (n = n' \<and> length vs = length ws) (ChFields vs ws) | _ \<Rightarrow> leaf)
      | Array vs \<Rightarrow> (case b of Array ws \<Rightarrow> children_if (length vs = length ws) (ChArray vs ws) | _ \<Rightarrow> leaf)
      | Stack vs \<Rightarrow> (case b of Stack ws \<Rightarrow> children_if (length vs = length ws) (ChArray vs ws) | _ \<Rightarrow> leaf)
      | Slice vs \<Rightarrow> (case b of Slice ws \<Rightarrow> children_if (length vs = length ws) (ChSlice vs ws) | _ \<Rightarrow> leaf)
      | Deque vs \<Rightarrow> (case b of Deque ws \<Rightarrow> children_if (length vs = length ws) (ChDeque vs ws) | _ \<Rightarrow> leaf)
      | Queue vs \<Rightarrow> (case b of Queue ws \<Rightarrow> children_if (length vs = length ws) (ChDeque vs ws) | _ \<Rightarrow> leaf)
      | List vs \<Rightarrow> (case b of List ws \<Rightarrow> children_if (length vs = length ws) (ChList vs ws) | _ \<Rightarrow> leaf)
      | PriorityQueue ss heap_a c _ \<Rightarrow>
          (case b of PriorityQueue ts heap_b d _ \<Rightarrow> children_if (length heap_a = length heap_b) (ChQueue ss ts c d 0 0) | _ \<Rightarrow> leaf)
      | Map es _ \<Rightarrow> (case b of Map fs _ \<Rightarrow> children_if (length es = length fs) (ChMap es fs) | _ \<Rightarrow> leaf)
      | OrderedMap t c \<Rightarrow>
          (case b of OrderedMap u d \<Rightarrow> children_if (count t = count u) (ChOrdered True c d (cursor_new t) (cursor_new u)) | _ \<Rightarrow> leaf)
      | Record fs \<Rightarrow> (case b of Record gs \<Rightarrow> children_if (length fs = length gs) (ChRecord fs gs) | _ \<Rightarrow> leaf)
      | Set vs _ \<Rightarrow> (case b of Set ws index \<Rightarrow> BranchSets vs ws index | _ \<Rightarrow> leaf)
      | OrderedSet t c \<Rightarrow>
          (case b of OrderedSet u d \<Rightarrow> children_if (count t = count u) (ChOrdered False c d (cursor_new t) (cursor_new u)) | _ \<Rightarrow> leaf)
      | _ \<Rightarrow> leaf)"

definition pending :: "'x children \<Rightarrow> 'x value_cursor comparison" where
  "pending ch = Pending \<lparr>vc_pair = None, vc_children = ch, vc_index = 0\<rparr>"

definition memoized :: "'k compare_context \<Rightarrow> 'k \<Rightarrow> 'x children \<Rightarrow> 'x value_cursor comparison \<times> 'k compare_context" where
  "memoized cx pair ch =
     (if known cx pair then (Ready True, cx)
      else case memo_begin cx pair of (ticket, cx) \<Rightarrow> (Pending \<lparr>vc_pair = Some ticket, vc_children = ch, vc_index = 0\<rparr>, cx))"

definition memoized_result ::
  "'k compare_context \<Rightarrow> 'k option \<Rightarrow> 'x value_cursor comparison \<Rightarrow> 'x value_cursor comparison \<times> 'k compare_context"
where
  "memoized_result cx pair result =
     (case (pair, result) of
        (Some pair, Pending cur) \<Rightarrow> if vc_pair cur = None then memoized cx pair (vc_children cur) else (result, cx)
      | _ \<Rightarrow> (result, cx))"

definition set_comparison :: "'x interp_value list \<Rightarrow> 'x interp_value list \<Rightarrow> membership_index \<Rightarrow> 'x value_cursor comparison" where
  "set_comparison vs ws index =
     (if length vs \<noteq> length ws then Ready False
      else if length vs = 0 then Ready True
      else pending (if length vs = 1 then ChSetSequence vs ws else ChSetSearch vs ws index (search_unique (length vs)) None))"

definition pair_of :: "('x interp_value \<Rightarrow> 'i option) \<Rightarrow> 'x interp_value \<Rightarrow> 'x interp_value \<Rightarrow> ('i \<times> 'i) option" where
  "pair_of ident a b = (case (ident a, ident b) of (Some i, Some j) \<Rightarrow> Some (i, j) | _ \<Rightarrow> None)"

lemma branch_into_smaller: "node_branch oq a b = BranchInto v w \<Longrightarrow> size v < size a"
  by (cases a; cases b) (simp_all add: node_branch_def into_if_def children_if_def split: if_splits)

function compare_node ::
  "('x \<Rightarrow> 'x \<Rightarrow> bool) \<Rightarrow> ('x interp_value \<Rightarrow> 'i option) \<Rightarrow> ('i \<times> 'i) compare_context \<Rightarrow> 'x interp_value \<Rightarrow> 'x interp_value \<Rightarrow>
   'x value_cursor comparison \<times> ('i \<times> 'i) compare_context"
where
  "compare_node oq ident cx a b =
     (let pair = pair_of ident a b in
      if (case pair of None \<Rightarrow> False | Some p \<Rightarrow> known cx p) then (Ready True, cx)
      else
        case node_branch oq a b of
          BranchReady result \<Rightarrow> (Ready result, cx)
        | BranchInto a b \<Rightarrow> compare_node oq ident cx a b
        | BranchSets vs ws index \<Rightarrow> memoized_result cx pair (set_comparison vs ws index)
        | BranchChildren ch \<Rightarrow> (case pair of Some p \<Rightarrow> memoized cx p ch | None \<Rightarrow> (pending ch, cx)))"
  by pat_completeness auto
termination by (relation "measure (\<lambda>(_, _, _, a, _). size a)") (auto dest: branch_into_smaller)

lemmas [simp del] = compare_node.simps

section \<open>The cursor\<close>

definition complete_cursor ::
  "'k compare_context \<Rightarrow> 'x value_cursor \<Rightarrow> bool \<Rightarrow> 'x value_cursor cursor_step \<times> 'x value_cursor \<times> 'k compare_context"
where
  "complete_cursor cx self equal = (StepComplete equal, self, memo_finish cx (vc_pair self) equal)"

text \<open>The fingerprint of the member being matched is kept until the search goes on to the next.\<close>

definition set_candidate ::
  "(nat \<Rightarrow> 'v \<Rightarrow> nat) \<Rightarrow> 'v list \<Rightarrow> membership_index \<Rightarrow> nat \<Rightarrow> nat \<Rightarrow> (nat \<times> nat) option \<Rightarrow> nat option \<times> (nat \<times> nat) option"
where
  "set_candidate hash vs index left_position candidate cache =
     (let fresh = fingerprint hash index (vs ! left_position);
          h = (case cache of None \<Rightarrow> fresh | Some (position, h) \<Rightarrow> if position \<noteq> left_position then fresh else h) in
      (index_candidate index h candidate, Some (left_position, h)))"

definition child_step ::
  "('x \<Rightarrow> 'x \<Rightarrow> bool) \<Rightarrow> ('x interp_value \<Rightarrow> 'i option) \<Rightarrow> ('i \<times> 'i) compare_context \<Rightarrow> 'x value_cursor \<Rightarrow> 'x interp_value \<Rightarrow> 'x interp_value \<Rightarrow>
   'x value_cursor cursor_step \<times> 'x value_cursor \<times> ('i \<times> 'i) compare_context"
where
  "child_step oq ident cx self a b = (case compare_node oq ident cx a b of (node_child, cx) \<Rightarrow> (StepChild node_child, self, cx))"

definition advance_cursor_step ::
  "('x \<Rightarrow> 'x \<Rightarrow> bool) \<Rightarrow> (nat \<Rightarrow> 'x interp_value \<Rightarrow> nat) \<Rightarrow> ('x interp_value \<Rightarrow> 'i option) \<Rightarrow> ('i \<times> 'i) compare_context \<Rightarrow> 'x value_cursor \<Rightarrow>
   bool option \<Rightarrow> 'x value_cursor cursor_step \<times> 'x value_cursor \<times> ('i \<times> 'i) compare_context"
where
  "advance_cursor_step oq hash ident cx self previous =
     (case vc_children self of
        ChSetSearch vs ws index search cache \<Rightarrow>
          (case search_next search previous (set_candidate hash vs index) cache of
             (next, cache, search) \<Rightarrow>
               let self = self\<lparr>vc_children := ChSetSearch vs ws index search cache\<rparr> in
               case next of
                 Inr (Some (a, b)) \<Rightarrow> child_step oq ident cx self (vs ! a) (ws ! b)
               | Inr None \<Rightarrow> complete_cursor cx self True
               | Inl _ \<Rightarrow> complete_cursor cx self False)
      | ch \<Rightarrow>
          if previous = Some False then complete_cursor cx self False
          else
            case next_child oq ch (vc_index self) of
              (probed, ch) \<Rightarrow>
                let self = self\<lparr>vc_index := vc_index self + 1, vc_children := ch\<rparr> in
                case probed of
                  Some (Members a b) \<Rightarrow> child_step oq ident cx self a b
                | Some (Answer result) \<Rightarrow> (StepChild (Ready result), self, cx)
                | None \<Rightarrow> complete_cursor cx self True)"

definition value_equal ::
  "('x \<Rightarrow> 'x \<Rightarrow> bool) \<Rightarrow> (nat \<Rightarrow> 'x interp_value \<Rightarrow> nat) \<Rightarrow> ('x interp_value \<Rightarrow> 'i option) \<Rightarrow> 'x interp_value \<Rightarrow> 'x interp_value \<Rightarrow> bool option"
where
  "value_equal oq hash ident a b =
     (case compare_node oq ident context_default a b of
        (initial, cx) \<Rightarrow> map_option fst (engine_compare (advance_cursor_step oq hash ident) cx initial))"

definition sets_equal ::
  "('x \<Rightarrow> 'x \<Rightarrow> bool) \<Rightarrow> (nat \<Rightarrow> 'x interp_value \<Rightarrow> nat) \<Rightarrow> ('x interp_value \<Rightarrow> 'i option) \<Rightarrow> 'x interp_value list \<Rightarrow> 'x interp_value list \<Rightarrow>
   membership_index \<Rightarrow> bool option"
where
  "sets_equal oq hash ident vs ws index =
     map_option fst (engine_compare (advance_cursor_step oq hash ident) context_default (set_comparison vs ws index))"

section \<open>What the cursors hand out\<close>

fun searches :: "'x children \<Rightarrow> bool" where
  "searches (ChSetSearch _ _ _ _ _) = True"
| "searches _ = False"

fun yields :: "('x \<Rightarrow> 'x \<Rightarrow> bool) \<Rightarrow> 'x children \<Rightarrow> nat \<Rightarrow> 'x probe list \<Rightarrow> bool" where
  "yields oq ch i [] \<longleftrightarrow> \<not> searches ch \<and> fst (next_child oq ch i) = None"
| "yields oq ch i (p # ps) \<longleftrightarrow>
     \<not> searches ch \<and> fst (next_child oq ch i) = Some p \<and> yields oq (snd (next_child oq ch i)) (Suc i) ps"

abbreviation members :: "'x interp_value list \<Rightarrow> 'x interp_value list \<Rightarrow> 'x probe list" where
  "members vs ws \<equiv> map2 Members vs ws"

text \<open>A cursor that only counts hands out a list.\<close>

lemma yields_static:
  assumes "\<not> searches ch" "\<And>i. snd (next_child oq ch i) = ch"
    and "\<And>i. fst (next_child oq ch i) = (if i < length ps then Some (ps ! i) else None)"
  shows "yields oq ch 0 ps"
proof -
  have "yields oq ch k (drop k ps)" if "k \<le> length ps" for k
    using that
  proof (induction "length ps - k" arbitrary: k)
    case (Suc n)
    then have "k < length ps" by simp
    then show ?case using Suc assms by (simp add: Cons_nth_drop_Suc [symmetric])
  qed (use assms in simp)
  then show ?thesis by (metis drop0 zero_le)
qed

lemma both_at_members: "both_at vs ws i = (if i < length (members vs ws) then Some (members vs ws ! i) else None)"
  by (simp add: both_at_def)

lemma yields_sequence:
  "yields oq (ChFields vs ws) 0 (members vs ws)" "yields oq (ChArray vs ws) 0 (members vs ws)" "yields oq (ChSlice vs ws) 0 (members vs ws)"
  "yields oq (ChDeque vs ws) 0 (members vs ws)" "yields oq (ChSetSequence vs ws) 0 (members vs ws)"
  by (rule yields_static; simp add: both_at_members)+

lemma yields_list: "yields oq (ChList vs ws) i (members vs ws)"
proof (induction vs arbitrary: ws i)
  case (Cons v vs)
  then show ?case by (cases ws) (simp_all add: both_at_def)
qed (simp add: both_at_def)

lemma flat_pairs_nth:
  "i < 2 * length es \<Longrightarrow> flat_pairs es ! i = (if i mod 2 = 1 then snd (es ! (i div 2)) else fst (es ! (i div 2)))"
proof (induction es arbitrary: i rule: flat_pairs.induct)
  case (2 k v es)
  then show ?case
  proof (cases i)
    case (Suc j)
    then show ?thesis
    proof (cases j)
      case (Suc n)
      then show ?thesis using 2 \<open>i = Suc j\<close> by simp
    qed simp
  qed simp
qed simp

lemma yields_map: "yields oq (ChMap es fs) 0 (members (flat_pairs es) (flat_pairs fs))"
proof (rule yields_static)
  fix i
  have "i div 2 < length es \<and> i div 2 < length fs \<longleftrightarrow> i < length (members (flat_pairs es) (flat_pairs fs))" by auto
  then show "fst (next_child oq (ChMap es fs) i) =
      (if i < length (members (flat_pairs es) (flat_pairs fs)) then Some (members (flat_pairs es) (flat_pairs fs) ! i) else None)"
    by (auto simp: pair_at_def pair_side_def flat_pairs_nth)
qed simp_all

lemma cursor_advance_entries: "cursor_entries (snd (cursor_advance cu)) = tl (cursor_entries cu)"
proof -
  obtain e cu' where cu': "cursor_current cu = (e, cu')" by fastforce
  with cursor_current_spec [of cu] have spec: "cursor_entries cu' = cursor_entries cu"
    "e = (case cursor_entries cu of [] \<Rightarrow> None | x # _ \<Rightarrow> Some x)" "e \<noteq> None \<longrightarrow> cu_current cu' \<noteq> None" by simp_all
  show ?thesis
  proof (cases e)
    case None
    then show ?thesis using cu' spec by (simp add: cursor_advance_def split: list.splits)
  next
    case (Some x)
    then obtain n where n: "cu_current cu' = Some n" using spec(3) by auto
    then have "cursor_entries cu = entry n # cursor_entries (cu'\<lparr>cu_current := None\<rparr>)" using spec(1) by (simp add: cursor_entries_def)
    then show ?thesis using cu' Some n by (simp add: cursor_advance_def cursor_entries_def)
  qed
qed

lemma cursor_current_entries:
  "fst (cursor_current cu) = (case cursor_entries cu of [] \<Rightarrow> None | x # _ \<Rightarrow> Some x)"
  "cursor_entries (snd (cursor_current cu)) = cursor_entries cu"
  using cursor_current_spec [of cu] by (simp_all add: split_beta)

lemma cursor_new_entries: "cursor_entries (cursor_new t) = inorder t"
  by (simp add: cursor_entries_def cursor_new_def)

lemmas cursor_walk = cursor_current_entries cursor_advance_entries

lemma yields_ordered_set:
  "yields oq (ChOrdered False c d l r) (Suc k) (members (map fst (cursor_entries l)) (map fst (cursor_entries r)))"
proof (induction "cursor_entries l" arbitrary: l r k)
  case Nil
  then show ?case using cursor_walk [of l] by (simp add: ordered_next_def Let_def split_beta flip: Nil)
next
  case (Cons e es)
  show ?case
  proof (cases "cursor_entries r")
    case Nil
    then show ?thesis using cursor_walk [of l] cursor_walk [of r] by (simp add: ordered_next_def Let_def split_beta flip: Cons.hyps(2))
  next
    case rest: (Cons f fs)
    let ?l = "snd (cursor_advance (snd (cursor_current l)))" and ?r = "snd (cursor_advance (snd (cursor_current r)))"
    have "es = cursor_entries ?l" "fs = cursor_entries ?r" using Cons.hyps(2) rest by (simp_all add: cursor_walk flip: Cons.hyps(2))
    then show ?thesis using Cons.hyps(1) [of ?l ?r "Suc k"] rest
      by (simp add: ordered_next_def Let_def split_beta cursor_walk pair_side_def flip: Cons.hyps(2))
  qed
qed

lemma yields_ordered_map:
  "length (cursor_entries l) = length (cursor_entries r) \<Longrightarrow>
    yields oq (ChOrdered True c d l r) (Suc (2 * k)) (members (flat_pairs (cursor_entries l)) (flat_pairs (cursor_entries r)))"
proof (induction "cursor_entries l" arbitrary: l r k)
  case Nil
  then show ?case using cursor_walk [of l] by (simp add: ordered_next_def Let_def split_beta flip: Nil)
next
  case (Cons e es)
  then obtain f fs where r: "cursor_entries r = f # fs" by (metis length_Suc_conv)
  let ?l1 = "snd (cursor_current l)" and ?r1 = "snd (cursor_current r)"
  let ?l = "snd (cursor_advance (snd (cursor_current ?l1)))" and ?r = "snd (cursor_advance (snd (cursor_current ?r1)))"
  have rest: "es = cursor_entries ?l" "fs = cursor_entries ?r" using Cons.hyps(2) r by (simp_all add: cursor_walk flip: Cons.hyps(2))
  then have "yields oq (ChOrdered True c d ?l ?r) (Suc (2 * Suc k)) (members (flat_pairs (cursor_entries ?l)) (flat_pairs (cursor_entries ?r)))"
    using Cons.hyps(1) [of ?l ?r "Suc k"] Cons.prems r by (simp flip: Cons.hyps(2))
  then have tail: "yields oq (ChOrdered True c d ?l ?r) (Suc (Suc (Suc (2 * k)))) (members (flat_pairs es) (flat_pairs fs))" by (simp flip: rest)
  have "ordered_next oq True c d l r (Suc (2 * k)) = (Some (Members (fst e) (fst f)), ChOrdered True c d ?l1 ?r1)"
    using r by (simp add: ordered_next_def Let_def split_beta cursor_walk pair_side_def flip: Cons.hyps(2))
  moreover have "ordered_next oq True c d ?l1 ?r1 (Suc (Suc (2 * k))) = (Some (Members (snd e) (snd f)), ChOrdered True c d ?l ?r)"
    using r by (simp add: ordered_next_def Let_def split_beta cursor_walk pair_side_def flip: Cons.hyps(2))
  ultimately show ?case using tail r by (cases e; cases f) (simp flip: Cons.hyps(2))
qed

lemma skip_vacant_live:
  "slot_at ss (skip_vacant ss i) = (case live_slots (drop i ss) of [] \<Rightarrow> None | e # _ \<Rightarrow> Some e) \<and>
   live_slots (drop (skip_vacant ss i) ss) = live_slots (drop i ss) \<and>
   live_slots (drop (Suc (skip_vacant ss i)) ss) = tl (live_slots (drop i ss)) \<and> skip_vacant ss (skip_vacant ss i) = skip_vacant ss i"
proof (induction ss i rule: skip_vacant.induct)
  case (1 ss i)
  show ?case
  proof (cases "i < length ss \<and> ss ! i = None")
    case True
    then show ?thesis using 1 Cons_nth_drop_Suc [of i ss] by (simp add: skip_vacant.simps [of ss i]) (metis live_slots_simps(2))
  next
    case False
    then have stop: "skip_vacant ss i = i" by (subst skip_vacant.simps) (simp only: if_False)
    show ?thesis
    proof (cases "i < length ss")
      case True
      then obtain e where "ss ! i = Some e" using False by auto
      then show ?thesis using stop True Cons_nth_drop_Suc [of i ss] by (simp add: slot_at_def) (metis list.sel(3) list.simps(5) live_slots_simps(3))
    qed (simp add: stop slot_at_def)
  qed
qed

lemma yields_queue:
  "length (live_slots (drop i ss)) = length (live_slots (drop j ts)) \<Longrightarrow>
    yields oq (ChQueue ss ts c d i j) (Suc (2 * k)) (members (flat_pairs (live_slots (drop i ss))) (flat_pairs (live_slots (drop j ts))))"
proof (induction "live_slots (drop i ss)" arbitrary: i j k)
  case Nil
  then show ?case using skip_vacant_live [of ss i] by (simp add: queue_next_def Let_def flip: Nil)
next
  case (Cons e es)
  then obtain f fs where r: "live_slots (drop j ts) = f # fs" by (metis length_Suc_conv)
  note a = skip_vacant_live [of ss i, folded Cons.hyps(2)] and b = skip_vacant_live [of ts j, unfolded r]
  let ?i = "Suc (skip_vacant ss i)" and ?j = "Suc (skip_vacant ts j)"
  have "yields oq (ChQueue ss ts c d ?i ?j) (Suc (2 * Suc k)) (members (flat_pairs es) (flat_pairs fs))"
    using Cons.hyps(1) [of ?i ?j "Suc k"] a b Cons.prems r by (simp flip: Cons.hyps(2))
  then show ?case using r a b
    by (cases e; cases f) (simp add: queue_next_def Let_def pair_side_def flip: Cons.hyps(2))
qed

section \<open>The branches of two values\<close>

fun holds :: "('x \<Rightarrow> 'x \<Rightarrow> bool) \<Rightarrow> 'x probe \<Rightarrow> bool" where
  "holds oq (Members v w) = veq oq v w"
| "holds oq (Answer r) = r"

definition all_hold :: "('x \<Rightarrow> 'x \<Rightarrow> bool) \<Rightarrow> 'x probe list \<Rightarrow> bool" where
  "all_hold oq ps \<longleftrightarrow> (\<forall>p \<in> set ps. holds oq p)"

definition among :: "'x interp_value \<Rightarrow> 'x interp_value \<Rightarrow> 'x probe list \<Rightarrow> bool" where
  "among a b ps \<longleftrightarrow> (\<forall>v w. Members v w \<in> set ps \<longrightarrow> v \<in> set (kids a) \<and> w \<in> set (kids b))"

fun branch_spec :: "('x \<Rightarrow> 'x \<Rightarrow> bool) \<Rightarrow> 'x interp_value \<Rightarrow> 'x interp_value \<Rightarrow> 'x node_branch \<Rightarrow> bool" where
  "branch_spec oq a b (BranchReady r) \<longleftrightarrow> r = veq oq a b"
| "branch_spec oq a b (BranchInto v w) \<longleftrightarrow> veq oq a b = veq oq v w \<and> v \<in> set (kids a) \<and> w \<in> set (kids b)"
| "branch_spec oq a b (BranchChildren ch) \<longleftrightarrow> (\<exists>ps. yields oq ch 0 ps \<and> veq oq a b = all_hold oq ps \<and> among a b ps)"
| "branch_spec oq a b (BranchSets vs ws index) \<longleftrightarrow> (\<exists>i. a = Set vs i) \<and> b = Set ws index"

lemma members_hold: "length vs = length ws \<Longrightarrow> all_hold oq (members vs ws) \<longleftrightarrow> list_all2 (veq oq) vs ws"
  by (induction vs ws rule: list_induct2) (auto simp: all_hold_def)

lemma members_among: "set vs \<subseteq> set (kids a) \<Longrightarrow> set ws \<subseteq> set (kids b) \<Longrightarrow> among a b (members vs ws)"
  unfolding among_def by (auto dest: set_zip_leftD set_zip_rightD)

lemma all_hold_Cons [simp]: "all_hold oq (p # ps) \<longleftrightarrow> holds oq p \<and> all_hold oq ps" "all_hold oq []"
  by (auto simp: all_hold_def)

lemma among_Answer [simp]: "among a b (Answer r # ps) = among a b ps"
  by (auto simp: among_def)

lemma veq_leaf: "fields_of a = [] \<Longrightarrow> fields_of b = [] \<Longrightarrow> veq oq a b \<longleftrightarrow> head_eq oq (head_of a) (head_of b)"
  by (simp add: veq_iff [of oq a])

lemma kids_plain: "fields_of a = unlabelled vs \<Longrightarrow> kids a = vs"
  by (simp add: kids_def)

lemma children_sequence:
  assumes "fields_of a = unlabelled vs" "fields_of b = unlabelled ws" "\<not> unordered a"
    and "head_eq oq (head_of a) (head_of b) \<longleftrightarrow> same" "n = length vs" "m = length ws" "yields oq ch 0 (members vs ws)"
  shows "branch_spec oq a b (children_if (same \<and> n = m) ch)"
proof (cases "same \<and> n = m")
  case True
  have "among a b (members vs ws)" using assms(1,2) by (intro members_among) (simp_all add: kids_plain)
  then show ?thesis
    using True assms veq_plain [OF assms(1-3), of oq] members_hold [of vs ws oq] by (auto simp: children_if_def)
qed (use assms veq_plain [OF assms(1-3), of oq] in \<open>auto simp: children_if_def\<close>)

text \<open>Storage with a comparator: the comparators are compared first.\<close>

lemma children_sorted:
  assumes "fields_of a = unlabelled vs" "fields_of b = unlabelled ws" "\<not> unordered a"
    and "head_eq oq (head_of a) (head_of b) \<longleftrightarrow> option_eq oq c d" "n = m \<longleftrightarrow> length vs = length ws"
    and "length vs = length ws \<Longrightarrow> yields oq ch 0 (Answer (option_eq oq c d) # members vs ws)"
  shows "branch_spec oq a b (children_if (n = m) ch)"
proof (cases "n = m")
  case True
  have "among a b (members vs ws)" using assms(1,2) by (intro members_among) (simp_all add: kids_plain)
  then show ?thesis
    using True assms veq_plain [OF assms(1-3), of oq] members_hold [of vs ws oq]
    by (auto simp: children_if_def intro!: exI [of _ "Answer (option_eq oq c d) # members vs ws"])
qed (use assms veq_plain [OF assms(1-3), of oq] in \<open>auto simp: children_if_def\<close>)

lemma veq_wrapper:
  "fields_of a = unlabelled [v] \<Longrightarrow> fields_of b = unlabelled [w] \<Longrightarrow> \<not> unordered a \<Longrightarrow> head_eq oq (head_of a) (head_of b) \<longleftrightarrow> same \<Longrightarrow>
    branch_spec oq a b (into_if same v w)"
  using veq_plain [of a "[v]" b "[w]" oq] by (auto simp: into_if_def kids_def)

lemma record_probe:
  assumes "distinct (map fst gs)" "i < length fs"
  shows "record_next fs gs i =
    Some (case map_of gs (fst (fs ! i)) of Some w \<Rightarrow> Members (snd (fs ! i)) w | None \<Rightarrow> Answer False)"
proof -
  have get: "fst (record_get (record_new gs) n) = map_of gs n" for n using record_get_spec [of "record_new gs" n] by (simp add: record_new_def record_ok_def)
  have "map_of gs (fst (gs ! i)) = Some (snd (gs ! i))" if "i < length gs" using assms(1) that by (simp add: map_of_eq_Some_iff)
  then show ?thesis using assms(2) by (auto simp: record_next_def get Let_def)
qed

lemma children_record:
  assumes "distinct (map fst gs)"
  shows "branch_spec oq (Record fs) (Record gs) (children_if (length fs = length gs) (ChRecord fs gs))"
proof (cases "length fs = length gs")
  case True
  let ?probe = "\<lambda>p. case map_of gs (fst p) of Some w \<Rightarrow> Members (snd p) w | None \<Rightarrow> Answer False"
  have "yields oq (ChRecord fs gs) 0 (map ?probe fs)"
  proof (rule yields_static)
    show "fst (next_child oq (ChRecord fs gs) i) = (if i < length (map ?probe fs) then Some (map ?probe fs ! i) else None)" for i
      by (cases "i < length fs") (simp add: record_probe [OF assms], simp add: record_next_def)
  qed simp_all
  moreover have hold: "holds oq (?probe p) \<longleftrightarrow> (\<exists>q \<in> set gs. field_eq oq p q)" for p
  proof (cases "map_of gs (fst p)")
    case None
    then show ?thesis using None [unfolded map_of_eq_None_iff] by force
  next
    case (Some w)
    then have only: "(fst p, w') \<in> set gs \<longleftrightarrow> w' = w" for w' using assms by (metis map_of_eq_Some_iff option.inject)
    have "(\<exists>q \<in> set gs. field_eq oq p q) \<longleftrightarrow> (\<exists>w'. (fst p, w') \<in> set gs \<and> veq oq (snd p) w')" by (metis fst_conv prod.collapse snd_conv)
    then show ?thesis using Some only by simp
  qed
  moreover have "among (Record fs) (Record gs) (map ?probe fs)"
    unfolding among_def by (force simp: kids_def split: option.splits dest: map_of_SomeD)
  moreover have "veq oq (Record fs) (Record gs) = all_hold oq (map ?probe fs)"
    using True by (simp add: veq_iff [of oq "Record fs"] all_hold_def hold)
  ultimately show ?thesis using True by (simp add: children_if_def) blast
qed (simp add: children_if_def veq_iff [of oq "Record fs"])

lemma range_leaf:
  assumes "local_ok oq hash (Range r)" "local_ok oq hash (Range s)"
  shows "range_equal r s = veq oq (Range r) (Range s)"
proof -
  have num: "veq oq a b \<longleftrightarrow> as_number a = as_number b" if "as_number a \<noteq> None" "as_number b \<noteq> None" for a b :: "'a interp_value"
    using that by (cases a; cases b) (simp_all add: veq_iff [of oq])
  show ?thesis using assms veq_plain [of "Range r" "[range_start r, range_end r]" "Range s" "[range_start s, range_end s]" oq]
    by (auto simp: range_equal_def num)
qed

text \<open>Values of different kinds are different.\<close>

definition kind_of :: "'x interp_value \<Rightarrow> nat" where
  "kind_of v =
     (case v of Unit \<Rightarrow> 0 | Bool _ \<Rightarrow> 1 | Number _ \<Rightarrow> 2 | String _ \<Rightarrow> 3 | Bytes _ \<Rightarrow> 4 | Nominal _ _ \<Rightarrow> 5 | Trust _ _ \<Rightarrow> 6
      | Existential _ _ _ \<Rightarrow> 7 | Tuple _ \<Rightarrow> 8 | Array _ \<Rightarrow> 9 | List _ \<Rightarrow> 10 | Slice _ \<Rightarrow> 11 | Stack _ \<Rightarrow> 12 | Deque _ \<Rightarrow> 13 | Queue _ \<Rightarrow> 14
      | Set _ _ \<Rightarrow> 15 | Map _ _ \<Rightarrow> 16 | Record _ \<Rightarrow> 17 | Range _ \<Rightarrow> 18 | Variant _ _ \<Rightarrow> 19 | OptionNone \<Rightarrow> 20 | OptionSome _ \<Rightarrow> 21
      | OrderedMap _ _ \<Rightarrow> 22 | OrderedSet _ _ \<Rightarrow> 23 | PriorityQueue _ _ _ _ \<Rightarrow> 24 | Opaque _ \<Rightarrow> 25)"

lemma head_eq_kind: "head_eq oq (head_of a) (head_of b) \<Longrightarrow> kind_of a = kind_of b"
  by (cases a; cases b) (simp_all add: kind_of_def)

lemma node_branch_mismatch: "kind_of a \<noteq> kind_of b \<Longrightarrow> node_branch oq a b = BranchReady False"
  by (cases a; cases b) (simp_all add: kind_of_def node_branch_def leaf_equal_def)

lemma node_branch_leaf:
  assumes kind: "kind_of b = kind_of a" and ok: "local_ok oq hash a" "local_ok oq hash b" and leaf: "hash_leaf a"
  shows "branch_spec oq a b (node_branch oq a b)"
proof (cases a)
  case (Range r)
  then obtain s where "b = Range s" using kind by (cases b) (simp_all add: kind_of_def)
  then show ?thesis using Range ok range_leaf [of oq hash r s] by (simp add: node_branch_def leaf_equal_def)
next
  case Unit
  then have "b = Unit" using kind by (cases b) (simp_all add: kind_of_def)
  then show ?thesis using Unit by (simp add: node_branch_def leaf_equal_def veq_leaf)
next
  case OptionNone
  then have "b = OptionNone" using kind by (cases b) (simp_all add: kind_of_def)
  then show ?thesis using OptionNone by (simp add: node_branch_def leaf_equal_def veq_leaf)
next
  case (Bool x)
  then obtain y where "b = Bool y" using kind by (cases b) (simp_all add: kind_of_def)
  then show ?thesis using Bool by (simp add: node_branch_def leaf_equal_def veq_leaf)
next
  case (Number x)
  then obtain y where "b = Number y" using kind by (cases b) (simp_all add: kind_of_def)
  then show ?thesis using Number by (simp add: node_branch_def leaf_equal_def veq_leaf)
next
  case (String x)
  then obtain y where "b = String y" using kind by (cases b) (simp_all add: kind_of_def)
  then show ?thesis using String by (simp add: node_branch_def leaf_equal_def veq_leaf)
next
  case (Bytes x)
  then obtain y where "b = Bytes y" using kind by (cases b) (simp_all add: kind_of_def)
  then show ?thesis using Bytes by (simp add: node_branch_def leaf_equal_def veq_leaf)
next
  case (Opaque x)
  then obtain y where "b = Opaque y" using kind by (cases b) (simp_all add: kind_of_def)
  then show ?thesis using Opaque by (simp add: node_branch_def leaf_equal_def veq_leaf)
qed (use leaf in simp_all)

lemma node_branch_match:
  assumes kind: "kind_of b = kind_of a" and ok: "local_ok oq hash a" "local_ok oq hash b"
  shows "branch_spec oq a b (node_branch oq a b)"
proof (cases a)
  case (Nominal ty v)
  then obtain ty' w where "b = Nominal ty' w" using kind by (cases b) (simp_all add: kind_of_def)
  then show ?thesis using Nominal by (simp add: node_branch_def veq_wrapper del: branch_spec.simps)
next
  case (Trust t v)
  then obtain t' w where "b = Trust t' w" using kind by (cases b) (simp_all add: kind_of_def)
  then show ?thesis using Trust by (simp add: node_branch_def veq_wrapper del: branch_spec.simps)
next
  case (Existential ot ct v)
  then obtain ot' ct' w where "b = Existential ot' ct' w" using kind by (cases b) (simp_all add: kind_of_def)
  then show ?thesis using Existential by (simp add: node_branch_def veq_wrapper del: branch_spec.simps)
next
  case (OptionSome v)
  then obtain w where "b = OptionSome w" using kind by (cases b) (simp_all add: kind_of_def)
  then show ?thesis using OptionSome veq_wrapper [of a v b w oq True] by (simp add: node_branch_def into_if_def del: branch_spec.simps)
next
  case (Tuple vs)
  then obtain ws where "b = Tuple ws" using kind by (cases b) (simp_all add: kind_of_def)
  then show ?thesis using Tuple children_sequence [of a vs b ws oq True, OF _ _ _ _ refl refl yields_sequence(1)] by (simp add: node_branch_def del: branch_spec.simps)
next
  case (Variant n vs)
  then obtain n' ws where "b = Variant n' ws" using kind by (cases b) (simp_all add: kind_of_def)
  then show ?thesis using Variant children_sequence [of a vs b ws oq "n = n'", OF _ _ _ _ refl refl yields_sequence(1)] by (simp add: node_branch_def del: branch_spec.simps)
next
  case (Array vs)
  then obtain ws where "b = Array ws" using kind by (cases b) (simp_all add: kind_of_def)
  then show ?thesis using Array children_sequence [of a vs b ws oq True, OF _ _ _ _ refl refl yields_sequence(2)] by (simp add: node_branch_def del: branch_spec.simps)
next
  case (Stack vs)
  then obtain ws where "b = Stack ws" using kind by (cases b) (simp_all add: kind_of_def)
  then show ?thesis using Stack children_sequence [of a vs b ws oq True, OF _ _ _ _ refl refl yields_sequence(2)] by (simp add: node_branch_def del: branch_spec.simps)
next
  case (Slice vs)
  then obtain ws where "b = Slice ws" using kind by (cases b) (simp_all add: kind_of_def)
  then show ?thesis using Slice children_sequence [of a vs b ws oq True, OF _ _ _ _ refl refl yields_sequence(3)] by (simp add: node_branch_def del: branch_spec.simps)
next
  case (Deque vs)
  then obtain ws where "b = Deque ws" using kind by (cases b) (simp_all add: kind_of_def)
  then show ?thesis using Deque children_sequence [of a vs b ws oq True, OF _ _ _ _ refl refl yields_sequence(4)] by (simp add: node_branch_def del: branch_spec.simps)
next
  case (Queue vs)
  then obtain ws where "b = Queue ws" using kind by (cases b) (simp_all add: kind_of_def)
  then show ?thesis using Queue children_sequence [of a vs b ws oq True, OF _ _ _ _ refl refl yields_sequence(4)] by (simp add: node_branch_def del: branch_spec.simps)
next
  case (List vs)
  then obtain ws where "b = List ws" using kind by (cases b) (simp_all add: kind_of_def)
  then show ?thesis using List children_sequence [of a vs b ws oq True, OF _ _ _ _ refl refl yields_list] by (simp add: node_branch_def del: branch_spec.simps)
next
  case (Map es i)
  then obtain fs j where "b = Map fs j" using kind by (cases b) (simp_all add: kind_of_def)
  then show ?thesis using Map children_sequence [of a "flat_pairs es" b "flat_pairs fs" oq True "2 * length es" "2 * length fs", OF _ _ _ _ _ _ yields_map]
    by (simp add: node_branch_def del: branch_spec.simps)
next
  case (Record fs)
  then obtain gs where "b = Record gs" using kind by (cases b) (simp_all add: kind_of_def)
  then show ?thesis using Record ok(2) children_record [of gs oq fs] by (simp add: node_branch_def del: branch_spec.simps)
next
  case (Set vs i)
  then obtain ws j where "b = Set ws j" using kind by (cases b) (simp_all add: kind_of_def)
  then show ?thesis using Set by (simp add: node_branch_def)
next
  case (OrderedMap t c)
  then obtain u d where b: "b = OrderedMap u d" using kind by (cases b) (simp_all add: kind_of_def)
  have "yields oq (ChOrdered True c d (cursor_new t) (cursor_new u)) 0 (Answer (option_eq oq c d) # members (flat_pairs (inorder t)) (flat_pairs (inorder u)))"
    if "length (inorder t) = length (inorder u)"
    using yields_ordered_map [of "cursor_new t" "cursor_new u" oq c d 0] that by (simp add: cursor_new_entries) (simp add: ordered_next_def)
  then show ?thesis using OrderedMap b ok children_sorted [of a "flat_pairs (inorder t)" b "flat_pairs (inorder u)" oq c d "count t" "count u"]
    by (simp add: node_branch_def counted_inorder del: branch_spec.simps)
next
  case (OrderedSet t c)
  then obtain u d where b: "b = OrderedSet u d" using kind by (cases b) (simp_all add: kind_of_def)
  have "yields oq (ChOrdered False c d (cursor_new t) (cursor_new u)) 0 (Answer (option_eq oq c d) # members (map fst (inorder t)) (map fst (inorder u)))"
    using yields_ordered_set [of oq c d "cursor_new t" "cursor_new u" 0] by (simp add: cursor_new_entries) (simp add: ordered_next_def)
  then show ?thesis using OrderedSet b ok children_sorted [of a "map fst (inorder t)" b "map fst (inorder u)" oq c d "count t" "count u"]
    by (simp add: node_branch_def counted_inorder del: branch_spec.simps)
next
  case (PriorityQueue ss heap_a c ready_a)
  then obtain ts heap_b d ready_b where b: "b = PriorityQueue ts heap_b d ready_b" using kind by (cases b) (simp_all add: kind_of_def)
  have "yields oq (ChQueue ss ts c d 0 0) 0 (Answer (option_eq oq c d) # members (flat_pairs (live_slots ss)) (flat_pairs (live_slots ts)))"
    if "length (live_slots ss) = length (live_slots ts)"
    using yields_queue [of 0 ss 0 ts oq c d 0] that by simp (simp add: queue_next_def)
  then show ?thesis using PriorityQueue b ok children_sorted [of a "flat_pairs (live_slots ss)" b "flat_pairs (live_slots ts)" oq c d "length heap_a" "length heap_b"]
    by (simp add: node_branch_def del: branch_spec.simps)
qed (rule node_branch_leaf [OF kind ok], simp)+

lemma node_branch_spec: "local_ok oq hash a \<Longrightarrow> local_ok oq hash b \<Longrightarrow> branch_spec oq a b (node_branch oq a b)"
  using node_branch_match [of b a oq hash] node_branch_mismatch [of a b oq] head_eq_kind [of oq a b]
  by (cases "kind_of a = kind_of b") (auto simp: veq_iff [of oq a])

section \<open>The memo during a comparison\<close>

text \<open>Pairs the memo knows as equal are equal; nothing is claimed of those that are being compared.\<close>

definition memo_truth :: "('x \<Rightarrow> 'x \<Rightarrow> bool) \<Rightarrow> ('x interp_value \<Rightarrow> 'i option) \<Rightarrow> ('i \<times> 'i) compare_context \<Rightarrow> bool" where
  "memo_truth oq ident cx \<longleftrightarrow> memo_ok cx \<and>
     (\<forall>v w i j. ident v = Some i \<longrightarrow> ident w = Some j \<longrightarrow> memo_proven_pair cx (i, j) \<longrightarrow> veq oq v w)"

text \<open>The values being compared are ancestors, so at least of a given size.\<close>

definition active_from :: "('x interp_value \<Rightarrow> 'i option) \<Rightarrow> nat \<Rightarrow> ('i \<times> 'i) compare_context \<Rightarrow> bool" where
  "active_from ident n cx \<longleftrightarrow>
     (\<forall>v w i j. ident v = Some i \<longrightarrow> ident w = Some j \<longrightarrow> memo_active_pair cx (i, j) \<longrightarrow> n \<le> size v)"

definition keeps :: "('x \<Rightarrow> 'x \<Rightarrow> bool) \<Rightarrow> ('x interp_value \<Rightarrow> 'i option) \<Rightarrow> ('i \<times> 'i) compare_context \<Rightarrow> ('i \<times> 'i) compare_context \<Rightarrow> bool" where
  "keeps oq ident cx cx' \<longleftrightarrow> memo_truth oq ident cx' \<and> (\<forall>q. memo_active_pair cx' q = memo_active_pair cx q) \<and>
     (\<forall>q s. table_get (cx_pairs cx) q = Some s \<longrightarrow> table_get (cx_pairs cx') q = Some s)"

definition finishes ::
  "('x \<Rightarrow> 'x \<Rightarrow> bool) \<Rightarrow> ('x interp_value \<Rightarrow> 'i option) \<Rightarrow> ('i \<times> 'i) compare_context \<Rightarrow> nat option \<Rightarrow> bool \<Rightarrow> ('i \<times> 'i) compare_context \<Rightarrow> bool"
where
  "finishes oq ident cx pair equal cx' \<longleftrightarrow> (\<exists>cx1. keeps oq ident cx cx1 \<and> cx' = memo_finish cx1 pair equal)"

definition settles ::
  "('x \<Rightarrow> 'x \<Rightarrow> bool) \<Rightarrow> (nat \<Rightarrow> 'x interp_value \<Rightarrow> nat) \<Rightarrow> ('x interp_value \<Rightarrow> 'i option) \<Rightarrow> ('i \<times> 'i) compare_context \<Rightarrow>
   'x interp_value \<Rightarrow> 'x interp_value \<Rightarrow> bool"
where
  "settles oq hash ident cx a b \<longleftrightarrow>
     (case compare_node oq ident cx a b of
        (Ready r, cx1) \<Rightarrow> r = veq oq a b \<and> cx1 = cx
      | (Pending d, cx1) \<Rightarrow> \<exists>cx2. evaluates (advance_cursor_step oq hash ident) cx1 d None (veq oq a b) cx2 \<and> keeps oq ident cx cx2)"

lemma keeps_refl: "memo_truth oq ident cx \<Longrightarrow> keeps oq ident cx cx"
  by (simp add: keeps_def)

lemma keeps_trans: "keeps oq ident cx cx1 \<Longrightarrow> keeps oq ident cx1 cx2 \<Longrightarrow> keeps oq ident cx cx2"
  by (simp add: keeps_def)

lemma keeps_truth: "keeps oq ident cx cx' \<Longrightarrow> memo_truth oq ident cx'"
  by (simp add: keeps_def)

lemma keeps_active: "keeps oq ident cx cx' \<Longrightarrow> active_from ident n cx \<Longrightarrow> active_from ident n cx'"
  unfolding keeps_def active_from_def by blast

lemma active_from_mono: "active_from ident n cx \<Longrightarrow> m \<le> n \<Longrightarrow> active_from ident m cx"
  unfolding active_from_def using le_trans by blast

lemma finishes_keeps: "keeps oq ident cx cx1 \<Longrightarrow> finishes oq ident cx pair r (memo_finish cx1 pair r)"
  unfolding finishes_def by blast

lemma finishes_None:
  assumes "finishes oq ident cx None r cx'"
  shows "keeps oq ident cx cx'"
proof -
  obtain cx1 where cx1: "keeps oq ident cx cx1" "cx' = memo_finish cx1 None r" using assms unfolding finishes_def by blast
  then have "memo_ok cx1" by (simp add: keeps_def memo_truth_def)
  note f = memo_finish_None [OF this, of r, folded cx1(2)]
  then show ?thesis using cx1(1) unfolding keeps_def memo_truth_def by metis
qed

lemma finishes_Some:
  assumes truth: "memo_truth oq ident cx" and ids: "ident a = Some i" "ident b = Some j" and unknown: "\<not> known cx (i, j)"
    and start: "memo_begin cx (i, j) = (ticket, cx0)" and fin: "finishes oq ident cx0 (Some ticket) (veq oq a b) cx'" and one: "identifies ident"
  shows "keeps oq ident cx cx'"
proof -
  obtain cx1 where cx1: "keeps oq ident cx0 cx1" "cx' = memo_finish cx1 (Some ticket) (veq oq a b)" using fin unfolding finishes_def by blast
  have ok: "memo_ok cx" using truth by (simp add: memo_truth_def)
  note s = memo_begin_spec [OF ok start]
  have ok1: "memo_ok cx1" "table_get (cx_pairs cx1) (i, j) = Some ticket" using cx1(1) s by (simp_all add: keeps_def memo_truth_def)
  note f = memo_finish_spec [OF ok1, of "veq oq a b", folded cx1(2)]
  have "memo_active_pair cx' q = memo_active_pair cx q" for q
  proof -
    have "\<not> memo_active_pair cx (i, j)" using unknown by (simp add: known_iff)
    then show ?thesis using f s cx1(1) unfolding keeps_def by metis
  qed
  moreover have "veq oq v w" if "ident v = Some k" "ident w = Some l" "memo_proven_pair cx' (k, l)" for v w k l
  proof (cases "(k, l) = (i, j)")
    case True
    then have "v = a" "w = b" using one ids that unfolding identifies_def by auto
    then show ?thesis using f that(3) by blast
  next
    case False
    then have "memo_proven_pair cx1 (k, l)" using f that(3) by blast
    then show ?thesis using cx1(1) that unfolding keeps_def memo_truth_def by blast
  qed
  moreover have "table_get (cx_pairs cx') q = Some t" if "table_get (cx_pairs cx) q = Some t" for q t
    using that f s cx1(1) unfolding keeps_def by metis
  ultimately show ?thesis using f unfolding keeps_def memo_truth_def by blast
qed

lemma memo_begin_truth:
  assumes truth: "memo_truth oq ident cx" and ids: "ident a = Some i" and start: "memo_begin cx (i, j) = (ticket, cx0)" and one: "identifies ident"
    and act: "active_from ident (Suc (size a)) cx"
  shows "memo_truth oq ident cx0 \<and> active_from ident (size a) cx0"
proof -
  have "memo_ok cx" using truth by (simp add: memo_truth_def)
  note s = memo_begin_spec [OF this start]
  have "size a \<le> size v" if "ident v = Some k" "ident w = Some l" "memo_active_pair cx0 (k, l)" for v w k l
  proof (cases "(k, l) = (i, j)")
    case True
    then have "v = a" using one ids that unfolding identifies_def by auto
    then show ?thesis by simp
  next
    case False
    then have "memo_active_pair cx (k, l)" using s that(3) by blast
    then show ?thesis using act that unfolding active_from_def by (meson Suc_leD)
  qed
  then have "active_from ident (size a) cx0" unfolding active_from_def by blast
  moreover have "veq oq v w" if "ident v = Some k" "ident w = Some l" "memo_proven_pair cx0 (k, l)" for v w k l
  proof -
    have "memo_proven_pair cx (k, l)" using s that(3) by blast
    then show ?thesis using truth that(1,2) unfolding memo_truth_def by blast
  qed
  ultimately show ?thesis using s unfolding memo_truth_def by blast
qed

section \<open>Cursors run to their end\<close>

lemma evaluates_child:
  assumes child: "settles oq hash ident cx a b" and truth: "memo_truth oq ident cx"
    and step: "advance_cursor_step oq hash ident cx c previous = child_step oq ident cx c' a b"
    and rest: "\<And>cx2. keeps oq ident cx cx2 \<Longrightarrow> \<exists>cx3. evaluates (advance_cursor_step oq hash ident) cx2 c' (Some (veq oq a b)) r cx3 \<and> Q cx3"
  shows "\<exists>cx3. evaluates (advance_cursor_step oq hash ident) cx c previous r cx3 \<and> Q cx3"
proof -
  obtain res cx1 where node: "compare_node oq ident cx a b = (res, cx1)" by fastforce
  then have adv: "advance_cursor_step oq hash ident cx c previous = (StepChild res, c', cx1)" using step by (simp add: child_step_def)
  show ?thesis
  proof (cases res)
    case (Ready t)
    then have "t = veq oq a b" "cx1 = cx" using child node by (simp_all add: settles_def)
    moreover obtain cx3 where "evaluates (advance_cursor_step oq hash ident) cx c' (Some (veq oq a b)) r cx3" "Q cx3"
      using rest [OF keeps_refl [OF truth]] by blast
    ultimately show ?thesis using ev_ready [of "advance_cursor_step oq hash ident" cx c previous t c' cx] adv Ready by blast
  next
    case (Pending d)
    then obtain cx2 where d: "evaluates (advance_cursor_step oq hash ident) cx1 d None (veq oq a b) cx2" "keeps oq ident cx cx2"
      using child node by (auto simp: settles_def)
    then obtain cx3 where "evaluates (advance_cursor_step oq hash ident) cx2 c' (Some (veq oq a b)) r cx3" "Q cx3" using rest by blast
    then show ?thesis using ev_pending [of "advance_cursor_step oq hash ident" cx c previous d c' cx1] adv Pending d(1) by blast
  qed
qed

lemma advance_sequence:
  "\<not> searches (vc_children self) \<Longrightarrow> advance_cursor_step oq hash ident cx self previous =
     (if previous = Some False then complete_cursor cx self False
      else
        case next_child oq (vc_children self) (vc_index self) of
          (probed, ch) \<Rightarrow>
            let self = self\<lparr>vc_index := vc_index self + 1, vc_children := ch\<rparr> in
            case probed of
              Some (Members a b) \<Rightarrow> child_step oq ident cx self a b
            | Some (Answer result) \<Rightarrow> (StepChild (Ready result), self, cx)
            | None \<Rightarrow> complete_cursor cx self True)"
  by (cases "vc_children self") (simp_all add: advance_cursor_step_def)

lemma complete_evaluates:
  "advance_cursor_step oq hash ident cx c previous = complete_cursor cx c' r \<Longrightarrow> vc_pair c' = pair \<Longrightarrow> keeps oq ident cx0 cx \<Longrightarrow>
    \<exists>cx3. evaluates (advance_cursor_step oq hash ident) cx c previous r cx3 \<and> finishes oq ident cx0 pair r cx3"
  using ev_complete [of "advance_cursor_step oq hash ident" cx c previous r c'] finishes_keeps [of oq ident cx0 cx pair r]
  by (auto simp: complete_cursor_def)

lemma yields_not_search: "yields oq ch i ps \<Longrightarrow> \<not> searches ch"
  by (cases ps) simp_all

lemma sequence_evaluates:
  "yields oq ch i ps \<Longrightarrow> previous \<noteq> Some False \<Longrightarrow> keeps oq ident cx0 cx \<Longrightarrow>
    (\<And>v w cx1. Members v w \<in> set ps \<Longrightarrow> keeps oq ident cx0 cx1 \<Longrightarrow> settles oq hash ident cx1 v w) \<Longrightarrow>
    \<exists>cx3. evaluates (advance_cursor_step oq hash ident) cx \<lparr>vc_pair = pair, vc_children = ch, vc_index = i\<rparr> previous (all_hold oq ps) cx3 \<and>
      finishes oq ident cx0 pair (all_hold oq ps) cx3"
proof (induction ps arbitrary: ch i previous cx)
  case Nil
  then show ?case
    using complete_evaluates [OF _ _ Nil.prems(3), of hash "\<lparr>vc_pair = pair, vc_children = ch, vc_index = i\<rparr>" previous
        "\<lparr>vc_pair = pair, vc_children = snd (next_child oq ch i), vc_index = Suc i\<rparr>" True pair]
    by (simp add: advance_sequence split_beta)
next
  case (Cons p ps)
  let ?c = "\<lparr>vc_pair = pair, vc_children = ch, vc_index = i\<rparr>"
  let ?c' = "\<lparr>vc_pair = pair, vc_children = snd (next_child oq ch i), vc_index = Suc i\<rparr>"
  have here: "\<not> searches ch" "fst (next_child oq ch i) = Some p" "yields oq (vc_children ?c') (Suc i) ps" using Cons.prems(1) by simp_all
  have rest: "\<exists>cx3. evaluates (advance_cursor_step oq hash ident) cx2 ?c' (Some r) (r \<and> all_hold oq ps) cx3 \<and> finishes oq ident cx0 pair (r \<and> all_hold oq ps) cx3"
    if "keeps oq ident cx0 cx2" for r cx2
  proof (cases r)
    case True
    have "\<exists>cx3. evaluates (advance_cursor_step oq hash ident) cx2 ?c' (Some True) (all_hold oq ps) cx3 \<and> finishes oq ident cx0 pair (all_hold oq ps) cx3"
    proof (rule Cons.IH [where i = "Suc i"])
      show "yields oq (snd (next_child oq ch i)) (Suc i) ps" using here(3) by simp
      show "settles oq hash ident cx1 v w" if "Members v w \<in> set ps" "keeps oq ident cx0 cx1" for v w cx1 using Cons.prems(4) that by simp
    qed (simp_all add: that)
    then show ?thesis using True by simp
  next
    case False
    then show ?thesis using complete_evaluates [OF _ _ that, of hash ?c' "Some False" ?c' False pair] yields_not_search [OF here(3)]
      by (simp add: advance_sequence)
  qed
  show ?case
  proof (cases p)
    case (Members v w)
    have "settles oq hash ident cx v w" using Cons.prems(3,4) Members by simp
    moreover have "advance_cursor_step oq hash ident cx ?c previous = child_step oq ident cx ?c' v w"
      using here Members Cons.prems(2) by (simp add: advance_sequence split_beta)
    ultimately show ?thesis
      using evaluates_child [OF _ keeps_truth [OF Cons.prems(3)], of hash v w ?c previous ?c' "all_hold oq (p # ps)" "finishes oq ident cx0 pair (all_hold oq (p # ps))"]
        rest keeps_trans [OF Cons.prems(3)] Members by simp
  next
    case (Answer r)
    have "advance_cursor_step oq hash ident cx ?c previous = (StepChild (Ready r), ?c', cx)"
      using here Answer Cons.prems(2) by (simp add: advance_sequence split_beta)
    then show ?thesis using rest [OF Cons.prems(3), of r] Answer by (auto intro: ev_ready)
  qed
qed

text \<open>The search ends: with every failed candidate fewer are left, with every match fewer members.\<close>

lemma set_candidate_fresh:
  "(\<And>p h. cache = Some (p, h) \<Longrightarrow> h = fingerprint hash index (vs ! p)) \<Longrightarrow>
    set_candidate hash vs index left_position n cache =
      (index_candidate index (fingerprint hash index (vs ! left_position)) n, Some (left_position, fingerprint hash index (vs ! left_position)))"
  by (cases cache) (auto simp: set_candidate_def Let_def)

lemma advance_search:
  "vc_children self = ChSetSearch vs ws index search cache \<Longrightarrow> advance_cursor_step oq hash ident cx self previous =
    (case search_next search previous (set_candidate hash vs index) cache of
       (next, cache, search) \<Rightarrow>
         let self = self\<lparr>vc_children := ChSetSearch vs ws index search cache\<rparr> in
         case next of
           Inr (Some (a, b)) \<Rightarrow> child_step oq ident cx self (vs ! a) (ws ! b)
         | Inr None \<Rightarrow> complete_cursor cx self True
         | Inl _ \<Rightarrow> complete_cursor cx self False)"
  by (simp add: advance_cursor_step_def)

definition matched_from :: "('x \<Rightarrow> 'x \<Rightarrow> bool) \<Rightarrow> 'x interp_value list \<Rightarrow> 'x interp_value list \<Rightarrow> nat \<Rightarrow> bool" where
  "matched_from oq vs ws n \<longleftrightarrow> (\<forall>i. n \<le> i \<longrightarrow> i < length vs \<longrightarrow> (\<exists>w \<in> set ws. veq oq (vs ! i) w))"

lemma matched_from_Suc: "n < length vs \<Longrightarrow> matched_from oq vs ws n \<longleftrightarrow> (\<exists>w \<in> set ws. veq oq (vs ! n) w) \<and> matched_from oq vs ws (Suc n)"
  unfolding matched_from_def by (metis Suc_le_eq le_eq_less_or_eq order_refl)

lemma search_evaluates:
  assumes law: "membership (veq oq) hash (value_ok oq hash)" and index: "index_ok hash ws index"
    and ok: "\<forall>v \<in> set vs. value_ok oq hash v" "\<forall>w \<in> set ws. value_ok oq hash w"
    and kids: "\<And>v w cx1. v \<in> set vs \<Longrightarrow> w \<in> set ws \<Longrightarrow> keeps oq ident cx0 cx1 \<Longrightarrow> settles oq hash ident cx1 v w"
  shows "search_after search previous = s \<Longrightarrow> sr_len s = length vs \<Longrightarrow> sr_left s \<le> length vs \<Longrightarrow> sr_candidate s \<le> length ws \<Longrightarrow>
    (\<And>p h. cache = Some (p, h) \<Longrightarrow> h = fingerprint hash index (vs ! p)) \<Longrightarrow>
    (sr_left s < length vs \<Longrightarrow>
      \<forall>j \<in> set (take (sr_candidate s) (index_slots index (fingerprint hash index (vs ! sr_left s)))). \<not> veq oq (vs ! sr_left s) (ws ! j)) \<Longrightarrow>
    keeps oq ident cx0 cx \<Longrightarrow>
    \<exists>cx3. evaluates (advance_cursor_step oq hash ident) cx \<lparr>vc_pair = pair, vc_children = ChSetSearch vs ws index search cache, vc_index = k\<rparr>
        previous (matched_from oq vs ws (sr_left s)) cx3 \<and> finishes oq ident cx0 pair (matched_from oq vs ws (sr_left s)) cx3"
proof (induction "(length vs - sr_left s) * Suc (length ws) + (length ws - sr_candidate s)" arbitrary: s search previous cache cx rule: less_induct)
  case less
  note s = less.prems(1)
  let ?c = "\<lparr>vc_pair = pair, vc_children = ChSetSearch vs ws index search cache, vc_index = k\<rparr>"
  let ?h = "fingerprint hash index (vs ! sr_left s)"
  let ?slots = "index_slots index ?h"
  note step = advance_search [of ?c vs ws index search cache oq hash ident cx previous] set_candidate_fresh [OF less.prems(5)]
  have bucket: "?slots = filter (\<lambda>i. fingerprint hash index (ws ! i) = ?h) [0..<length ws]" using index by (simp add: index_ok_def)
  consider (finished) "sr_left s = length vs" | (none) "sr_left s < length vs" "\<not> sr_candidate s < length ?slots"
    | (more) "sr_left s < length vs" "sr_candidate s < length ?slots" using less.prems(3) by linarith
  then show ?case
  proof cases
    case finished
    then have "matched_from oq vs ws (sr_left s)" by (simp add: matched_from_def)
    then show ?thesis using complete_evaluates [OF _ _ less.prems(7), of hash ?c previous _ True pair] step(1) finished less.prems(2)
      by (simp add: search_next_def s)
  next
    case none
    have "\<not> veq oq (vs ! sr_left s) w" if w: "w \<in> set ws" for w
    proof
      assume eq: "veq oq (vs ! sr_left s) w"
      obtain j where j: "j < length ws" "w = ws ! j" using w unfolding in_set_conv_nth by blast
      have "fingerprint hash index w = ?h" using membership.hash_eq [OF law _ _ eq] ok none(1) w by (simp add: fingerprint_def)
      then have "j \<in> set ?slots" using j bucket by simp
      then show False using less.prems(6) none eq j(2) by simp
    qed
    then have "\<not> matched_from oq vs ws (sr_left s)" using none(1) unfolding matched_from_def by blast
    then show ?thesis using complete_evaluates [OF _ _ less.prems(7), of hash ?c previous _ False pair] step none less.prems(2)
      by (simp add: search_next_def s index_candidate_slots)
  next
    case more
    let ?j = "?slots ! sr_candidate s" and ?v = "vs ! sr_left s"
    let ?s = "s\<lparr>sr_candidate := Suc (sr_candidate s), sr_last_right := ?j\<rparr>"
    let ?c' = "\<lparr>vc_pair = pair, vc_children = ChSetSearch vs ws index ?s (Some (sr_left s, ?h)), vc_index = k\<rparr>"
    have j: "?j < length ws" using nth_mem [OF more(2)] bucket by simp
    have few: "length ?slots \<le> length ws" unfolding bucket by (metis diff_zero length_filter_le length_upt)
    have adv: "advance_cursor_step oq hash ident cx ?c previous = child_step oq ident cx ?c' ?v (ws ! ?j)"
      using step more less.prems(2) by (simp add: search_next_def s index_candidate_slots)
    show ?thesis
    proof (rule evaluates_child [OF _ keeps_truth [OF less.prems(7)] adv])
      show "settles oq hash ident cx ?v (ws ! ?j)" using kids more(1) j less.prems(7) by simp
      fix cx2 assume "keeps oq ident cx cx2"
      then have cx2: "keeps oq ident cx0 cx2" by (rule keeps_trans [OF less.prems(7)])
      let ?s' = "search_after ?s (Some (veq oq ?v (ws ! ?j)))"
      have smaller: "(length vs - sr_left ?s') * Suc (length ws) + (length ws - sr_candidate ?s') <
          (length vs - sr_left s) * Suc (length ws) + (length ws - sr_candidate s)"
      proof (cases "veq oq ?v (ws ! ?j)")
        case True
        have "length vs - sr_left s = Suc (length vs - Suc (sr_left s))" using more(1) by simp
        then show ?thesis using True by (simp add: search_after_def)
      next
        case False
        then show ?thesis using more(2) few by (simp add: search_after_def)
      qed
      have res: "matched_from oq vs ws (sr_left ?s') = matched_from oq vs ws (sr_left s)"
        using matched_from_Suc [OF more(1), of oq ws] j by (auto simp: search_after_def)
      have failed: "\<forall>i \<in> set (take (sr_candidate ?s') (index_slots index (fingerprint hash index (vs ! sr_left ?s')))). \<not> veq oq (vs ! sr_left ?s') (ws ! i)"
        using less.prems(6) [OF more(1)] more(2) by (auto simp: search_after_def take_Suc_conv_app_nth)
      show "\<exists>cx3. evaluates (advance_cursor_step oq hash ident) cx2 ?c' (Some (veq oq ?v (ws ! ?j))) (matched_from oq vs ws (sr_left s)) cx3 \<and>
          finishes oq ident cx0 pair (matched_from oq vs ws (sr_left s)) cx3"
        unfolding res [symmetric]
      proof (rule less.hyps [OF smaller refl])
        show "sr_len ?s' = length vs" "sr_left ?s' \<le> length vs" "sr_candidate ?s' \<le> length ws"
          using less.prems(2) more few by (simp_all add: search_after_def)
      qed (use failed cx2 in auto)
    qed
  qed
qed

section \<open>Comparison computes equality\<close>

lemma set_veq:
  "veq oq (Set vs i) (Set ws j) \<longleftrightarrow> length vs = length ws \<and> matched_from oq vs ws 0"
  by (auto simp: veq_iff [of oq "Set vs i"] unlabelled_def matched_from_def all_set_conv_all_nth)

text \<open>What is entered under its pair of identities.\<close>

lemma enter_settles:
  assumes truth: "memo_truth oq ident cx" and act: "active_from ident (Suc (size a)) cx" and one: "identifies ident"
    and unknown: "\<And>p. pair_of ident a b = Some p \<Longrightarrow> \<not> known cx p"
    and run: "\<And>cx0 pair. memo_truth oq ident cx0 \<Longrightarrow> active_from ident (size a) cx0 \<Longrightarrow>
      \<exists>cx3. evaluates (advance_cursor_step oq hash ident) cx0 \<lparr>vc_pair = pair, vc_children = ch, vc_index = 0\<rparr> None (veq oq a b) cx3 \<and>
        finishes oq ident cx0 pair (veq oq a b) cx3"
    and node: "compare_node oq ident cx a b = (case pair_of ident a b of Some p \<Rightarrow> memoized cx p ch | None \<Rightarrow> (pending ch, cx))"
  shows "settles oq hash ident cx a b"
proof (cases "pair_of ident a b")
  case None
  have "\<exists>cx3. evaluates (advance_cursor_step oq hash ident) cx \<lparr>vc_pair = None, vc_children = ch, vc_index = 0\<rparr> None (veq oq a b) cx3 \<and>
      finishes oq ident cx None (veq oq a b) cx3"
    using run [OF truth active_from_mono [OF act]] by simp
  then show ?thesis using None node finishes_None by (fastforce simp: settles_def pending_def)
next
  case (Some p)
  then obtain i j where ids: "ident a = Some i" "ident b = Some j" "p = (i, j)" by (auto simp: pair_of_def split: option.splits)
  obtain ticket cx0 where start: "memo_begin cx (i, j) = (ticket, cx0)" by fastforce
  note m = memo_begin_truth [OF truth ids(1) start one act]
  obtain cx3 where "evaluates (advance_cursor_step oq hash ident) cx0 \<lparr>vc_pair = Some ticket, vc_children = ch, vc_index = 0\<rparr> None (veq oq a b) cx3"
    "finishes oq ident cx0 (Some ticket) (veq oq a b) cx3" using run m by blast
  moreover have "\<not> known cx (i, j)" using unknown Some ids(3) by blast
  ultimately show ?thesis
    using Some ids start node finishes_Some [OF truth ids(1,2) _ start _ one, of cx3] by (auto simp: settles_def memoized_def)
qed

lemma context_default_true: "memo_truth oq ident context_default" "active_from ident n context_default"
  by (simp_all add: memo_truth_def active_from_def memo_default_ok memo_default_ok(2) [unfolded known_iff de_Morgan_disj])

lemma set_node:
  assumes "\<not> (case pair_of ident a b of None \<Rightarrow> False | Some p \<Rightarrow> known cx p)" "node_branch oq a b = BranchSets vs ws index"
    and "length vs = length ws" "vs \<noteq> []"
  shows "compare_node oq ident cx a b = (case pair_of ident a b of
      Some p \<Rightarrow> memoized cx p (if length vs = 1 then ChSetSequence vs ws else ChSetSearch vs ws index (search_unique (length vs)) None)
    | None \<Rightarrow> (pending (if length vs = 1 then ChSetSequence vs ws else ChSetSearch vs ws index (search_unique (length vs)) None), cx))"
  using assms by (auto simp: compare_node.simps [of oq ident cx a b] set_comparison_def memoized_result_def pending_def split: option.splits)

lemma one_matched: "length vs = 1 \<Longrightarrow> length ws = 1 \<Longrightarrow> matched_from oq vs ws 0 \<longleftrightarrow> all_hold oq (members vs ws)"
  by (auto simp: length_Suc_conv matched_from_def all_hold_def)

lemma value_ok_kid: "value_ok oq hash v \<Longrightarrow> w \<in> set (kids v) \<Longrightarrow> value_ok oq hash w"
  by (subst (asm) value_ok.simps) blast

lemma sets_run:
  fixes vs ws :: "'x interp_value list"
  defines "ch index \<equiv> if length vs = 1 then ChSetSequence vs ws else ChSetSearch vs ws index (search_unique (length vs)) None"
  assumes law: "membership (veq oq) hash (value_ok oq hash)" and ok: "value_ok oq hash (Set vs i)" "value_ok oq hash (Set ws index)"
    and len: "length vs = length ws" and cx0: "memo_truth oq ident cx0"
    and kid: "\<And>v w cx1. v \<in> set vs \<Longrightarrow> w \<in> set ws \<Longrightarrow> keeps oq ident cx0 cx1 \<Longrightarrow> settles oq hash ident cx1 v w"
  shows "\<exists>cx3. evaluates (advance_cursor_step oq hash ident) cx0 \<lparr>vc_pair = pair, vc_children = ch index, vc_index = 0\<rparr> None
      (veq oq (Set vs i) (Set ws index)) cx3 \<and> finishes oq ident cx0 pair (veq oq (Set vs i) (Set ws index)) cx3"
proof (cases "length vs = 1")
  case True
  have held: "veq oq (Set vs i) (Set ws index) = all_hold oq (members vs ws)" using one_matched [of vs ws oq] True len by (simp add: set_veq)
  have "ch index = ChSetSequence vs ws" using True by (simp add: ch_def)
  then show ?thesis unfolding held
  proof (simp only:, intro sequence_evaluates [OF yields_sequence(5) _ keeps_refl [OF cx0]])
    show "settles oq hash ident cx1 v w" if "Members v w \<in> set (members vs ws)" "keeps oq ident cx0 cx1" for v w cx1
      using kid [OF _ _ that(2)] that(1) by (auto dest: set_zip_leftD set_zip_rightD)
  qed simp
next
  case False
  have "index_ok hash ws index" using value_ok_local [OF ok(2)] by simp
  moreover have "\<forall>v \<in> set vs. value_ok oq hash v" "\<forall>w \<in> set ws. value_ok oq hash w"
    using value_ok_kid [OF ok(1)] value_ok_kid [OF ok(2)] by (simp_all add: kids_def)
  ultimately show ?thesis
    using False search_evaluates [OF law, of ws index vs ident cx0 "search_unique (length vs)" None "search_unique (length vs)" None cx0 pair 0]
      kid keeps_refl [OF cx0] len by (simp add: search_after_def search_unique_def ch_def set_veq)
qed

lemma compare_settles:
  assumes law: "membership (veq oq) hash (value_ok oq hash)" and one: "identifies ident"
  shows "value_ok oq hash a \<Longrightarrow> value_ok oq hash b \<Longrightarrow> memo_truth oq ident cx \<Longrightarrow> active_from ident (Suc (size a)) cx \<Longrightarrow>
    settles oq hash ident cx a b"
proof (induction "size a" arbitrary: a b cx rule: less_induct)
  case less
  note ok = less.prems(1,2) and truth = less.prems(3) and act = less.prems(4)
  have ih: "settles oq hash ident cx1 v w" if "v \<in> set (kids a)" "w \<in> set (kids b)" "memo_truth oq ident cx1" "active_from ident (size a) cx1" for v w cx1
    using less.hyps [OF size_kid [OF that(1)] value_ok_kid [OF ok(1) that(1)] value_ok_kid [OF ok(2) that(2)] that(3)] that(4) size_kid [OF that(1)] active_from_mono
    by (metis Suc_leI)
  show ?case
  proof (cases "case pair_of ident a b of None \<Rightarrow> False | Some p \<Rightarrow> known cx p")
    case True
    then obtain i j where "ident a = Some i" "ident b = Some j" "known cx (i, j)" by (auto simp: pair_of_def split: option.splits)
    then have "veq oq a b" using truth act unfolding memo_truth_def active_from_def known_iff by (metis Suc_n_not_le_n)
    then show ?thesis using True by (simp add: settles_def compare_node.simps)
  next
    case False
    note node = compare_node.simps [of oq ident cx a b, unfolded Let_def if_not_P [OF False]]
    have unknown: "\<not> known cx p" if "pair_of ident a b = Some p" for p using False that by simp
    have spec: "branch_spec oq a b (node_branch oq a b)" using node_branch_spec value_ok_local ok by blast
    show ?thesis
    proof (cases "node_branch oq a b")
      case (BranchReady r)
      then show ?thesis using node spec by (simp add: settles_def)
    next
      case (BranchInto v w)
      then have vw: "veq oq a b = veq oq v w" "v \<in> set (kids a)" "w \<in> set (kids b)" using spec by simp_all
      have "settles oq hash ident cx v w" using ih [OF vw(2,3) truth active_from_mono [OF act]] by simp
      moreover have "compare_node oq ident cx a b = compare_node oq ident cx v w" using node BranchInto by simp
      ultimately show ?thesis unfolding settles_def vw(1) by simp
    next
      case (BranchChildren ch)
      then obtain ps where ps: "yields oq ch 0 ps" "veq oq a b = all_hold oq ps" "among a b ps" using spec by auto
      show ?thesis
      proof (rule enter_settles [OF truth act one unknown])
        show "compare_node oq ident cx a b = (case pair_of ident a b of Some p \<Rightarrow> memoized cx p ch | None \<Rightarrow> (pending ch, cx))"
          using node BranchChildren by simp
        fix cx0 pair assume cx0: "memo_truth oq ident cx0" "active_from ident (size a) cx0"
        show "\<exists>cx3. evaluates (advance_cursor_step oq hash ident) cx0 \<lparr>vc_pair = pair, vc_children = ch, vc_index = 0\<rparr> None (veq oq a b) cx3 \<and>
            finishes oq ident cx0 pair (veq oq a b) cx3"
          unfolding ps(2)
        proof (rule sequence_evaluates [OF ps(1) _ keeps_refl [OF cx0(1)]])
          show "settles oq hash ident cx1 v w" if "Members v w \<in> set ps" "keeps oq ident cx0 cx1" for v w cx1
            using ih [of v w cx1] ps(3) that keeps_truth keeps_active [OF that(2) cx0(2)] unfolding among_def by blast
        qed simp
      qed
    next
      case (BranchSets vs ws index)
      then obtain i where sets: "a = Set vs i" "b = Set ws index" using spec by auto
      then have in_kids: "kids a = vs" "kids b = ws" by (simp_all add: kids_def)
      show ?thesis
      proof (cases "length vs = length ws \<and> vs \<noteq> []")
        case trivial: False
        then have "compare_node oq ident cx a b = (Ready (length vs = length ws), cx)" using node BranchSets by (auto simp: set_comparison_def memoized_result_def split: option.splits)
        moreover have "veq oq a b \<longleftrightarrow> length vs = length ws" using trivial sets by (auto simp: set_veq matched_from_def)
        ultimately show ?thesis by (simp add: settles_def)
      next
        case deep: True
        have kid: "settles oq hash ident cx1 v w" if "v \<in> set vs" "w \<in> set ws" "keeps oq ident cx0 cx1" "active_from ident (size a) cx0" for v w cx0 cx1
          using ih [of v w cx1] that keeps_truth [OF that(3)] keeps_active [OF that(3,4)] in_kids by simp
        show ?thesis
        proof (rule enter_settles [OF truth act one unknown _ set_node [OF False BranchSets]])
          fix cx0 pair assume cx0: "memo_truth oq ident cx0" "active_from ident (size a) cx0"
          show "\<exists>cx3. evaluates (advance_cursor_step oq hash ident) cx0
              \<lparr>vc_pair = pair, vc_children = if length vs = 1 then ChSetSequence vs ws else ChSetSearch vs ws index (search_unique (length vs)) None, vc_index = 0\<rparr>
              None (veq oq a b) cx3 \<and> finishes oq ident cx0 pair (veq oq a b) cx3"
            using sets_run [OF law, of vs i ws index ident cx0 pair] ok kid [OF _ _ _ cx0(2)] cx0(1) deep unfolding sets by blast
        qed (use deep in simp_all)
      qed
    qed
  qed
qed

text \<open>Two sets compared on their own, as \<open>SetValue\<close> does.\<close>

lemma sets_equal_veq:
  assumes laws: "opaque_equivalence oq" "opaque_hash_ok oq oh" "identifies ident"
    and ok: "value_ok oq (value_fingerprint hasher oh ident) (Set vs i)" "value_ok oq (value_fingerprint hasher oh ident) (Set ws index)"
  shows "sets_equal oq (value_fingerprint hasher oh ident) ident vs ws index = Some (veq oq (Set vs i) (Set ws index))"
proof (cases "length vs = length ws \<and> vs \<noteq> []")
  case False
  then show ?thesis by (auto simp: sets_equal_def set_comparison_def engine_compare_def set_veq matched_from_def)
next
  case True
  let ?hash = "value_fingerprint hasher oh ident"
  note law = values_membership [OF laws, of hasher ?hash]
  have kid: "settles oq ?hash ident cx v w" if "v \<in> set vs" "w \<in> set ws" "keeps oq ident context_default cx" for v w cx
  proof (rule compare_settles [OF law laws(3)])
    show "value_ok oq ?hash v" "value_ok oq ?hash w" using that value_ok_kid [OF ok(1)] value_ok_kid [OF ok(2)] by (simp_all add: kids_def)
    show "active_from ident (Suc (size v)) cx" by (rule keeps_active [OF that(3) context_default_true(2)])
  qed (rule keeps_truth [OF that(3)])
  show ?thesis
    using sets_run [OF law ok _ context_default_true(1) kid, of None] True
      engine_evaluates [of "advance_cursor_step oq ?hash ident" context_default _ None _ _ "[]"]
    by (auto simp: sets_equal_def set_comparison_def engine_compare_def pending_def)
qed

text \<open>\<^bold>\<open>C14\<close>. Comparing two values always ends, with the right answer: for well-formed values of any depth and sharing
  the loop of cursors returns, and what it returns is structural equality. The memo of pairs, the
  generations that invalidate it after a failed candidate, the search in the buckets of a set and the
  lookup of record fields by name change nothing of that.\<close>

theorem comparison_decides_equality:
  assumes "opaque_equivalence oq" "opaque_hash_ok oq oh" "identifies ident"
    and "value_ok oq (value_fingerprint hasher oh ident) a" "value_ok oq (value_fingerprint hasher oh ident) b"
  shows "value_equal oq (value_fingerprint hasher oh ident) ident a b = Some (veq oq a b)"
proof -
  let ?hash = "value_fingerprint hasher oh ident"
  have "settles oq ?hash ident context_default a b"
    by (rule compare_settles [OF values_membership [OF assms(1-3)] assms(3-5) context_default_true])
  moreover obtain res cx where "compare_node oq ident context_default a b = (res, cx)" by fastforce
  ultimately show ?thesis
    using engine_evaluates [of "advance_cursor_step oq ?hash ident" cx _ None _ _ "[]"]
    by (cases res) (auto simp: settles_def value_equal_def engine_compare_def)
qed

text \<open>Two records of one shared field, written in different orders; the identity of a value is its storage.\<close>

theorem comparison_decides_equality_witness:
  "value_equal (=) (value_fingerprint (\<lambda>_ is. length is) (\<lambda>_. 0) Some) Some (sample_record False) (sample_record True) = Some True"
  using comparison_decides_equality [of "(=)" "\<lambda>_. 0" Some "\<lambda>_ is. length is" "sample_record False" "sample_record True"]
    sample_laws(1,2) sample_record_ok sample_record_eq by (simp add: identifies_def)

end
