(* ===== verification/Value_Encode.thy ===== *)
theory Value_Encode
  imports Value_Structure
begin

text \<open>
  Writing a runtime value as a JSON document, \<open>api/codec/value/encode_runtime.rs\<close>, with the helpers of
  \<open>api/codec/json_helpers.rs\<close> and \<open>value/codec.rs\<close>. A document is written for one of two purposes: to be
  read back, or as a report, in which what a secret wrapper holds is replaced by a mark.

  An object of \<open>serde_json\<close> is a map, here a list of its fields whose order has no meaning. The work list
  of the encoder takes the last child first; the recursion below visits the children in that order,
  which shows only in which of several errors is reported. Callables, messages and the other members
  the model does not look into are written by the functions of \<open>codec_ops\<close>.
\<close>

section \<open>Documents\<close>

datatype json =
    JNull
  | JBool bool
  | JNum nat
  | JString string
  | JArray "json list"
  | JObject "(string \<times> json) list"

definition json_get :: "json \<Rightarrow> string \<Rightarrow> json option" where
  "json_get j name = (case j of JObject fs \<Rightarrow> map_of fs name | _ \<Rightarrow> None)"

fun as_bool :: "json \<Rightarrow> bool option" where
  "as_bool (JBool b) = Some b"
| "as_bool _ = None"

fun as_json_u64 :: "json \<Rightarrow> nat option" where
  "as_json_u64 (JNum n) = (if n < 2 ^ 64 then Some n else None)"
| "as_json_u64 _ = None"

fun as_string :: "json \<Rightarrow> string option" where
  "as_string (JString s) = Some s"
| "as_string _ = None"

fun as_array :: "json \<Rightarrow> json list option" where
  "as_array (JArray js) = Some js"
| "as_array _ = None"

definition required_obj :: "json \<Rightarrow> string \<Rightarrow> string + json" where
  "required_obj j name = ok_or (json_get j name) (''missing `'' @ name @ ''`'')"

definition required_array :: "json \<Rightarrow> string \<Rightarrow> string + json list" where
  "required_array j name = ok_or (Option.bind (json_get j name) as_array) (''missing array `'' @ name @ ''`'')"

definition required_str :: "json \<Rightarrow> string \<Rightarrow> string + string" where
  "required_str j name = ok_or (Option.bind (json_get j name) as_string) (''missing string `'' @ name @ ''`'')"

definition required_bool :: "json \<Rightarrow> string \<Rightarrow> string + bool" where
  "required_bool j name = ok_or (Option.bind (json_get j name) as_bool) (''missing bool `'' @ name @ ''`'')"

definition required_u32 :: "json \<Rightarrow> string \<Rightarrow> string + nat" where
  "required_u32 j name =
     ok_or (Option.bind (Option.bind (json_get j name) as_json_u64) (\<lambda>n. if n < 2 ^ 32 then Some n else None))
       (''missing u32 `'' @ name @ ''`'')"

fun bytes_from :: "string \<Rightarrow> json list \<Rightarrow> string + string" where
  "bytes_from name [] = Ok []"
| "bytes_from name (j # js) =
     rbind (ok_or (Option.bind (as_json_u64 j) (\<lambda>n. if n < 256 then Some (char_of n) else None)) (''`'' @ name @ ''` contains an invalid byte value''))
       (\<lambda>c. rbind (bytes_from name js) (\<lambda>cs. Ok (c # cs)))"

definition byte_array :: "json \<Rightarrow> string \<Rightarrow> string + string" where
  "byte_array j name =
     rbind (ok_or (Option.bind (json_get j name) as_array) (''`'' @ name @ ''` must be a byte array'')) (bytes_from name)"

section \<open>Names\<close>

text \<open>The wrappers in the order of \<open>TrustWrapper\<close>: trusted, untrusted, secret, public, sanitized.\<close>

definition secret_wrapper :: nat where "secret_wrapper = 2"

definition trust_wrapper_json :: "nat \<Rightarrow> string" where
  "trust_wrapper_json w =
     (if w = 0 then ''trusted'' else if w = 1 then ''untrusted'' else if w = 2 then ''secret'' else if w = 3 then ''public'' else ''sanitized'')"

definition trust_wrapper_from_json :: "string \<Rightarrow> string + nat" where
  "trust_wrapper_from_json s =
     (if s = ''trusted'' then Ok 0 else if s = ''untrusted'' then Ok 1 else if s = ''secret'' then Ok 2 else if s = ''public'' then Ok 3
      else if s = ''sanitized'' then Ok 4 else Err (''unsupported trust wrapper `'' @ s @ ''`''))"

fun range_bounds_json :: "range_bounds \<Rightarrow> string" where
  "range_bounds_json ClosedClosed = ''closed_closed''"
| "range_bounds_json ClosedOpen = ''closed_open''"
| "range_bounds_json OpenOpen = ''open_open''"
| "range_bounds_json OpenClosed = ''open_closed''"

definition range_bounds_from_json :: "string \<Rightarrow> string + range_bounds" where
  "range_bounds_from_json s =
     (if s = ''closed_closed'' then Ok ClosedClosed else if s = ''closed_open'' then Ok ClosedOpen else if s = ''open_open'' then Ok OpenOpen
      else if s = ''open_closed'' then Ok OpenClosed else Err (''unsupported range bounds `'' @ s @ ''`''))"

datatype value_purpose = Lossless | Report

definition redacts_wrapper :: "value_purpose \<Rightarrow> nat \<Rightarrow> bool" where
  "redacts_wrapper purpose w \<longleftrightarrow> purpose = Report \<and> w = secret_wrapper"

fun redacts :: "value_purpose \<Rightarrow> 'x interp_value \<Rightarrow> bool" where
  "redacts purpose (Trust w _) = redacts_wrapper purpose w"
| "redacts purpose _ = False"

text \<open>What the encoder calls: the writers of opaque members and of call targets, the header of an
  existential package, the name of a primitive type (\<open>PrimitiveType::source_name\<close>) and the printer of
  numbers' floats; and for reading, their counterparts.\<close>

record 'x codec_ops =
  co_floats :: float_ops
  co_source_name :: "primitive_type \<Rightarrow> string"
  co_header :: "nat \<Rightarrow> nat \<Rightarrow> json"
  co_opaque_json :: "value_purpose \<Rightarrow> 'x \<Rightarrow> string + json"
  co_target_json :: "value_purpose \<Rightarrow> 'x \<Rightarrow> string + json"
  co_opaque_from_json :: "json \<Rightarrow> string + 'x"
  co_callable_from_json :: "json \<Rightarrow> string + 'x"
  co_callable_target :: "'x \<Rightarrow> 'x option"

section \<open>The encoder\<close>

definition numeric_value_json :: "'x codec_ops \<Rightarrow> numeric_value \<Rightarrow> json" where
  "numeric_value_json ops v =
     (let name = JString (co_source_name ops (primitive v)) in
      case v of
        F32 bits \<Rightarrow> JObject [(''kind'', JString ''number''), (''type'', name), (''bits'', JString (show_nat (unat bits)))]
      | F64 bits \<Rightarrow> JObject [(''kind'', JString ''number''), (''type'', name), (''bits'', JString (show_nat (unat bits)))]
      | _ \<Rightarrow> JObject [(''kind'', JString ''number''), (''type'', name), (''value'', JString (display_value (co_floats ops) v))])"

definition redacted_json :: json where
  "redacted_json = JObject [(''kind'', JString ''redacted''), (''sensitivity'', JString ''secret'')]"

definition tagged_text :: "string \<Rightarrow> string \<Rightarrow> json" where
  "tagged_text kind s = JObject [(''kind'', JString kind), (''value'', JString s)]"

text \<open>The children of a node, the last one first.\<close>

fun encode_all :: "('a \<Rightarrow> string + json) \<Rightarrow> 'a list \<Rightarrow> string + json list" where
  "encode_all f [] = Ok []"
| "encode_all f (x # xs) = rbind (encode_all f xs) (\<lambda>js. rbind (f x) (\<lambda>j. Ok (j # js)))"

lemma encode_all_cong [fundef_cong]:
  "xs = ys \<Longrightarrow> (\<And>x. x \<in> set ys \<Longrightarrow> f x = g x) \<Longrightarrow> encode_all f xs = encode_all g ys"
  by (induction ys arbitrary: xs) (auto simp: rbind_def split: sum.splits)

text \<open>\<open>array\<close> makes as many slots as the storage announces members; the writer stops at the shorter.\<close>

definition slot_values :: "('a \<Rightarrow> string + json) \<Rightarrow> 'a list \<Rightarrow> nat \<Rightarrow> string + json" where
  "slot_values f xs n = rmap (\<lambda>js. JArray (js @ replicate (n - length js) JNull)) (encode_all f (take n xs))"

lemma slot_values_cong [fundef_cong]:
  "xs = ys \<Longrightarrow> n = m \<Longrightarrow> (\<And>x. x \<in> set ys \<Longrightarrow> f x = g x) \<Longrightarrow> slot_values f xs n = slot_values g ys m"
proof -
  assume same: "xs = ys" "n = m" "\<And>x. x \<in> set ys \<Longrightarrow> f x = g x"
  have "encode_all f (take m ys) = encode_all g (take m ys)" by (rule encode_all_cong [OF refl]) (auto intro: same(3) dest: in_set_takeD)
  then show ?thesis by (simp add: slot_values_def same(1,2))
qed

definition entry_json :: "string \<Rightarrow> (string + json) \<Rightarrow> (string + json) \<Rightarrow> string + json" where
  "entry_json key_name k v = rbind v (\<lambda>v. rbind k (\<lambda>k. Ok (JObject [(key_name, k), (''value'', v)])))"

definition comparator_json :: "'x codec_ops \<Rightarrow> value_purpose \<Rightarrow> 'x option \<Rightarrow> string + json" where
  "comparator_json ops purpose c =
     (case c of
        None \<Rightarrow> Ok JNull
      | Some target \<Rightarrow> rmap (\<lambda>j. JObject [(''kind'', JString ''callable''), (''target'', j)]) (co_target_json ops purpose target))"

definition with_value :: "(string \<times> json) list \<Rightarrow> (string + json) \<Rightarrow> string + json" where
  "with_value fs v = rmap (\<lambda>j. JObject (fs @ [(''value'', j)])) v"

definition sequence_json :: "string \<Rightarrow> (string + json) \<Rightarrow> string + json" where
  "sequence_json kind vs = rmap (\<lambda>js. JObject [(''kind'', JString kind), (''values'', js)]) vs"

definition sorted_json :: "string \<Rightarrow> string \<Rightarrow> (string + json) \<Rightarrow> (string + json) \<Rightarrow> string + json" where
  "sorted_json kind name vs c =
     rbind vs (\<lambda>js. rbind c (\<lambda>cj. Ok (JObject [(''kind'', JString kind), (name, js), (''comparator'', cj)])))"

text \<open>The members of a value are smaller than it is.\<close>

lemma list_kid: "(x :: 'x interp_value) \<in> set xs \<Longrightarrow> size x \<le> size_list size xs"
  by (induction xs) auto

lemma pair_kid: "(a :: 'x interp_value, b :: 'x interp_value) \<in> set es \<Longrightarrow> size a \<le> size_list (size_prod size size) es \<and> size b \<le> size_list (size_prod size size) es"
  by (induction es) auto

lemma field_kid: "(n, x :: 'x interp_value) \<in> set fs \<Longrightarrow> size x \<le> size_list (size_prod (\<lambda>_. 0) size) fs"
  by (induction fs) auto

lemma inorder_kid:
  "(a :: 'x interp_value, b :: 'x interp_value) \<in> set (inorder t) \<Longrightarrow> size a \<le> size_option (size_node size size) t \<and> size b \<le> size_option (size_node size size) t"
  by (induction t rule: inorder.induct) auto

lemma live_kid:
  "(a :: 'x interp_value, b :: 'x interp_value) \<in> set (live_slots ss) \<Longrightarrow>
    size a \<le> size_list (size_option (size_prod size size)) ss \<and> size b \<le> size_list (size_option (size_prod size size)) ss"
proof (induction ss)
  case (Cons s ss)
  then show ?case by (cases s) auto
qed simp

lemma range_kid: "size (range_start r) < size (r :: 'x range_value)" "size (range_end r) < size r"
  by (cases r; simp)+

function encode_value :: "'x codec_ops \<Rightarrow> value_purpose \<Rightarrow> 'x interp_value \<Rightarrow> string + json" where
  "encode_value ops purpose v =
     (if redacts purpose v then Ok redacted_json
      else
        case v of
          Existential ot ct w \<Rightarrow>
            if purpose = Lossless then Err ''existential evidence requires checked checkpoint persistence''
            else with_value [(''kind'', JString ''existential''), (''header'', co_header ops ot ct)] (encode_value ops purpose w)
        | Unit \<Rightarrow> Ok (JObject [(''kind'', JString ''unit'')])
        | Bool b \<Rightarrow> Ok (JObject [(''kind'', JString ''bool''), (''value'', JBool b)])
        | Number n \<Rightarrow> Ok (numeric_value_json ops n)
        | String s \<Rightarrow> Ok (tagged_text ''string'' s)
        | Bytes s \<Rightarrow> Ok (JObject [(''kind'', JString ''bytes''), (''value'', JArray (map (\<lambda>c. JNum (of_char c)) s))])
        | Nominal ty w \<Rightarrow> with_value [(''kind'', JString ''nominal''), (''ty'', JNum ty)] (encode_value ops purpose w)
        | Trust t w \<Rightarrow> with_value [(''kind'', JString ''trust''), (''wrapper'', JString (trust_wrapper_json t))] (encode_value ops purpose w)
        | OptionNone \<Rightarrow> Ok (JObject [(''kind'', JString ''option_none'')])
        | OptionSome w \<Rightarrow> with_value [(''kind'', JString ''option_some'')] (encode_value ops purpose w)
        | Tuple ws \<Rightarrow> sequence_json ''tuple'' (slot_values (encode_value ops purpose) ws (length ws))
        | Array ws \<Rightarrow> sequence_json ''array'' (slot_values (encode_value ops purpose) ws (length ws))
        | List ws \<Rightarrow> sequence_json ''list'' (slot_values (encode_value ops purpose) ws (length ws))
        | Slice ws \<Rightarrow> sequence_json ''slice'' (slot_values (encode_value ops purpose) ws (length ws))
        | Set ws _ \<Rightarrow> sequence_json ''set'' (slot_values (encode_value ops purpose) ws (length ws))
        | Deque ws \<Rightarrow> sequence_json ''deque'' (slot_values (encode_value ops purpose) ws (length ws))
        | Queue ws \<Rightarrow> sequence_json ''queue'' (slot_values (encode_value ops purpose) ws (length ws))
        | Stack ws \<Rightarrow> sequence_json ''stack'' (slot_values (encode_value ops purpose) ws (length ws))
        | OrderedSet t c \<Rightarrow>
            sorted_json ''ordered_set'' ''values'' (slot_values (\<lambda>e. encode_value ops purpose (fst e)) (inorder t) (count t)) (comparator_json ops purpose c)
        | Map es _ \<Rightarrow>
            rmap (\<lambda>js. JObject [(''kind'', JString ''map''), (''entries'', js)])
              (slot_values (\<lambda>e. entry_json ''key'' (encode_value ops purpose (fst e)) (encode_value ops purpose (snd e))) es (length es))
        | OrderedMap t c \<Rightarrow>
            sorted_json ''ordered_map'' ''entries'' (slot_values (\<lambda>e. entry_json ''key'' (encode_value ops purpose (fst e)) (encode_value ops purpose (snd e))) (inorder t) (count t))
              (comparator_json ops purpose c)
        | PriorityQueue ss heap_slots c _ \<Rightarrow>
            sorted_json ''priority_queue'' ''entries''
              (slot_values (\<lambda>e. entry_json ''priority'' (encode_value ops purpose (fst e)) (encode_value ops purpose (snd e))) (live_slots ss) (length heap_slots)) (comparator_json ops purpose c)
        | Range r \<Rightarrow>
            rbind (encode_value ops purpose (range_start r)) (\<lambda>s. rbind (encode_value ops purpose (range_end r)) (\<lambda>e.
              Ok (JObject [(''kind'', JString ''range''), (''start'', s), (''end'', e), (''bounds'', JString (range_bounds_json (range_bounds r)))])))
        | Record fs \<Rightarrow>
            rmap (\<lambda>js. JObject [(''kind'', JString ''record''), (''fields'', js)])
              (slot_values (\<lambda>f. with_value [(''name'', JString (fst f))] (encode_value ops purpose (snd f))) fs (length fs))
        | Variant name ws \<Rightarrow>
            rmap (\<lambda>js. JObject [(''kind'', JString ''variant''), (''name'', JString name), (''fields'', js)]) (slot_values (encode_value ops purpose) ws (length ws))
        | Opaque x \<Rightarrow> co_opaque_json ops purpose x)"
  by pat_completeness auto
termination
  by (relation "measure (\<lambda>(_, _, v). size v)")
    (auto simp: less_Suc_eq_le less_imp_le [OF range_kid(1)] less_imp_le [OF range_kid(2)] dest: list_kid pair_kid field_kid inorder_kid live_kid)

lemmas [simp del] = encode_value.simps

lemma encode_value_equations:
  "encode_value ops purpose (Existential ot ct w) =
     (if purpose = Lossless then Err ''existential evidence requires checked checkpoint persistence''
      else with_value [(''kind'', JString ''existential''), (''header'', co_header ops ot ct)] (encode_value ops purpose w))"
  "encode_value ops purpose Unit = Ok (JObject [(''kind'', JString ''unit'')])"
  "encode_value ops purpose (Bool b) = Ok (JObject [(''kind'', JString ''bool''), (''value'', JBool b)])"
  "encode_value ops purpose (Number n) = Ok (numeric_value_json ops n)"
  "encode_value ops purpose (String s) = Ok (tagged_text ''string'' s)"
  "encode_value ops purpose (Bytes s) = Ok (JObject [(''kind'', JString ''bytes''), (''value'', JArray (map (\<lambda>c. JNum (of_char c)) s))])"
  "encode_value ops purpose (Nominal ty w) = with_value [(''kind'', JString ''nominal''), (''ty'', JNum ty)] (encode_value ops purpose w)"
  "encode_value ops purpose (Trust tw w) =
     (if redacts_wrapper purpose tw then Ok redacted_json
      else with_value [(''kind'', JString ''trust''), (''wrapper'', JString (trust_wrapper_json tw))] (encode_value ops purpose w))"
  "encode_value ops purpose OptionNone = Ok (JObject [(''kind'', JString ''option_none'')])"
  "encode_value ops purpose (OptionSome w) = with_value [(''kind'', JString ''option_some'')] (encode_value ops purpose w)"
  "encode_value ops purpose (Tuple ws) = sequence_json ''tuple'' (slot_values (encode_value ops purpose) ws (length ws))"
  "encode_value ops purpose (Array ws) = sequence_json ''array'' (slot_values (encode_value ops purpose) ws (length ws))"
  "encode_value ops purpose (List ws) = sequence_json ''list'' (slot_values (encode_value ops purpose) ws (length ws))"
  "encode_value ops purpose (Slice ws) = sequence_json ''slice'' (slot_values (encode_value ops purpose) ws (length ws))"
  "encode_value ops purpose (Set ws i) = sequence_json ''set'' (slot_values (encode_value ops purpose) ws (length ws))"
  "encode_value ops purpose (Deque ws) = sequence_json ''deque'' (slot_values (encode_value ops purpose) ws (length ws))"
  "encode_value ops purpose (Queue ws) = sequence_json ''queue'' (slot_values (encode_value ops purpose) ws (length ws))"
  "encode_value ops purpose (Stack ws) = sequence_json ''stack'' (slot_values (encode_value ops purpose) ws (length ws))"
  "encode_value ops purpose (OrderedSet t c) =
     sorted_json ''ordered_set'' ''values'' (slot_values (\<lambda>e. encode_value ops purpose (fst e)) (inorder t) (count t)) (comparator_json ops purpose c)"
  "encode_value ops purpose (Map es mi) =
     rmap (\<lambda>js. JObject [(''kind'', JString ''map''), (''entries'', js)])
       (slot_values (\<lambda>e. entry_json ''key'' (encode_value ops purpose (fst e)) (encode_value ops purpose (snd e))) es (length es))"
  "encode_value ops purpose (OrderedMap t c) =
     sorted_json ''ordered_map'' ''entries''
       (slot_values (\<lambda>e. entry_json ''key'' (encode_value ops purpose (fst e)) (encode_value ops purpose (snd e))) (inorder t) (count t))
       (comparator_json ops purpose c)"
  "encode_value ops purpose (PriorityQueue ss heap_slots c ready_flag) =
     sorted_json ''priority_queue'' ''entries''
       (slot_values (\<lambda>e. entry_json ''priority'' (encode_value ops purpose (fst e)) (encode_value ops purpose (snd e))) (live_slots ss) (length heap_slots))
       (comparator_json ops purpose c)"
  "encode_value ops purpose (Range r) =
     rbind (encode_value ops purpose (range_start r)) (\<lambda>s. rbind (encode_value ops purpose (range_end r)) (\<lambda>e.
       Ok (JObject [(''kind'', JString ''range''), (''start'', s), (''end'', e), (''bounds'', JString (range_bounds_json (range_bounds r)))])))"
  "encode_value ops purpose (Record fs) =
     rmap (\<lambda>js. JObject [(''kind'', JString ''record''), (''fields'', js)])
       (slot_values (\<lambda>f. with_value [(''name'', JString (fst f))] (encode_value ops purpose (snd f))) fs (length fs))"
  "encode_value ops purpose (Variant name ws) =
     rmap (\<lambda>js. JObject [(''kind'', JString ''variant''), (''name'', JString name), (''fields'', js)])
       (slot_values (encode_value ops purpose) ws (length ws))"
  "encode_value ops purpose (Opaque x) = co_opaque_json ops purpose x"
  by (subst encode_value.simps, simp)+

section \<open>Reports keep secrets\<close>

text \<open>Two values an observer without access to secrets cannot tell apart: the same but for what secret
  wrappers hold. \<open>width\<close> is the number of members the storage announces.\<close>

fun secret :: "'x interp_value \<Rightarrow> bool" where
  "secret (Trust w _) \<longleftrightarrow> w = secret_wrapper"
| "secret _ \<longleftrightarrow> False"

fun width :: "'x interp_value \<Rightarrow> nat" where
  "width (OrderedMap t _) = count t"
| "width (OrderedSet t _) = count t"
| "width (PriorityQueue _ heap_slots _ _) = length heap_slots"
| "width _ = 0"

function public_same :: "'x interp_value \<Rightarrow> 'x interp_value \<Rightarrow> bool" where
  "public_same v w \<longleftrightarrow>
     secret v \<and> secret w \<or>
     \<not> secret v \<and> \<not> secret w \<and> head_of v = head_of w \<and> width v = width w \<and>
       map fst (fields_of v) = map fst (fields_of w) \<and>
       (\<forall>i < length (fields_of v). i < length (fields_of w) \<longrightarrow> public_same (snd (fields_of v ! i)) (snd (fields_of w ! i)))"
  by pat_completeness auto
termination
proof (relation "measure (\<lambda>(v, _). size v)", goal_cases)
  case (2 v w i)
  then show ?case using size_field [of "fst (fields_of v ! i)" "snd (fields_of v ! i)" v] by simp
qed simp

lemmas [simp del] = public_same.simps

lemma redacts_secret [simp]: "redacts Report v = secret v"
  by (cases v) (simp_all add: redacts_wrapper_def)

lemma encode_all_map: "encode_all f xs = encode_all id (map f xs)"
  by (induction xs) simp_all

lemma slot_values_map: "slot_values f xs n = slot_values id (map f xs) n"
  unfolding slot_values_def take_map by (subst encode_all_map) (rule refl)

fun pair_up :: "('a \<Rightarrow> 'a \<Rightarrow> 'b) \<Rightarrow> 'a list \<Rightarrow> 'b list" where
  "pair_up g (x # y # zs) = g x y # pair_up g zs"
| "pair_up g _ = []"

lemma pair_up_flat: "map (\<lambda>e. g (f (fst e)) (f (snd e))) es = pair_up g (map f (flat_pairs es))"
  by (induction es rule: flat_pairs.induct) simp_all

lemma slot_pairs: "slot_values (\<lambda>e. g (f (fst e)) (f (snd e))) es n = slot_values id (pair_up g (map f (flat_pairs es))) n"
  using slot_values_map [of "\<lambda>e. g (f (fst e)) (f (snd e))"] by (simp only: pair_up_flat)

lemma slot_firsts: "slot_values (\<lambda>e. f (fst e)) es n = slot_values id (map f (map fst es)) n"
  using slot_values_map [of "\<lambda>e. f (fst e)"] by (simp only: map_map comp_def)

lemma slot_fields:
  "slot_values (\<lambda>p. with_value [(''name'', JString (fst p))] (f (snd p))) fs n =
    slot_values id (map (\<lambda>(m, j). with_value [(''name'', JString m)] j) (map (\<lambda>(m, x). (m, f x)) fs)) n"
proof -
  have "map (\<lambda>p. with_value [(''name'', JString (fst p))] (f (snd p))) fs = map (\<lambda>(m, j). with_value [(''name'', JString m)] j) (map (\<lambda>(m, x). (m, f x)) fs)"
    by (simp add: case_prod_unfold)
  then show ?thesis using slot_values_map [of "\<lambda>p. with_value [(''name'', JString (fst p))] (f (snd p))"] by (simp only:)
qed

text \<open>What is written depends on the head of a value, its width and what is written for its fields.\<close>

lemma encode_value_head:
  assumes head: "head_of v = head_of w" and width: "width v = width w" and open_value: "\<not> redacts purpose v" "\<not> redacts purpose w"
    and fields: "map (\<lambda>(n, x). (n, encode_value ops purpose x)) (fields_of v) = map (\<lambda>(n, x). (n, encode_value ops purpose x)) (fields_of w)"
  shows "encode_value ops purpose v = encode_value ops purpose w"
proof -
  let ?enc = "encode_value ops purpose"
  have kids: "map ?enc (kids v) = map ?enc (kids w)"
    using arg_cong [OF fields, of "map snd"] by (simp add: kids_def comp_def case_prod_unfold)
  have len: "length (fields_of v) = length (fields_of w)" using arg_cong [OF fields, of length] by simp
  note enc = encode_value_equations slot_values_map [of ?enc] slot_pairs [of _ ?enc] slot_firsts [of ?enc] slot_fields [of ?enc]
  show ?thesis using head width open_value kids len fields by (cases v; cases w) (simp_all add: enc kids_def)
qed

text \<open>\<^bold>\<open>C16\<close>. A report reveals nothing of a secret: two values that differ only in what secret wrappers hold, at any
  depth and in any container, are written as the same report, or fail with the same error. A secret on its own is written as
  the mark alone.\<close>

theorem report_hides_secrets:
  assumes "public_same v w"
  shows "encode_value ops Report v = encode_value ops Report w \<and>
    (secret v \<longrightarrow> encode_value ops Report v = Ok redacted_json)"
  using assms
proof (induction "size v" arbitrary: v w rule: less_induct)
  case less
  have mark: "encode_value ops Report u = Ok redacted_json" if "secret u" for u :: "'a interp_value" using that by (subst encode_value.simps) simp
  show ?case
  proof (cases "secret v")
    case True
    then show ?thesis using less.prems mark by (simp add: public_same.simps [of v])
  next
    case False
    then have same: "\<not> secret w" "head_of v = head_of w" "width v = width w" "map fst (fields_of v) = map fst (fields_of w)"
      and fields: "\<And>i. i < length (fields_of v) \<Longrightarrow> public_same (snd (fields_of v ! i)) (snd (fields_of w ! i))"
      using less.prems by (auto simp: public_same.simps [of v] dest: map_eq_imp_length_eq)
    have len: "length (fields_of v) = length (fields_of w)" using same(4) by (rule map_eq_imp_length_eq)
    have "map (\<lambda>(n, x). (n, encode_value ops Report x)) (fields_of v) = map (\<lambda>(n, x). (n, encode_value ops Report x)) (fields_of w)"
    proof (rule nth_equalityI)
      fix i assume "i < length (map (\<lambda>(n, x). (n, encode_value ops Report x)) (fields_of v))"
      then have i: "i < length (fields_of v)" by simp
      then have "fst (fields_of v ! i) = fst (fields_of w ! i)" using arg_cong [OF same(4), of "\<lambda>xs. xs ! i"] len by simp
      moreover have "encode_value ops Report (snd (fields_of v ! i)) = encode_value ops Report (snd (fields_of w ! i))"
        using less.hyps [OF _ fields [OF i]] size_field [of "fst (fields_of v ! i)" "snd (fields_of v ! i)" v] i by simp
      ultimately show "map (\<lambda>(n, x). (n, encode_value ops Report x)) (fields_of v) ! i = map (\<lambda>(n, x). (n, encode_value ops Report x)) (fields_of w) ! i"
        using i len by (simp add: case_prod_unfold)
    qed (use len in simp)
    then show ?thesis using encode_value_head [OF same(2,3), of Report] same(1) False by simp
  qed
qed

definition sample_codec :: "unit codec_ops" where
  "sample_codec =
     \<lparr>co_floats = sample_float_ops,
      co_source_name = (\<lambda>p. case p of PI8 \<Rightarrow> ''i8'' | PI16 \<Rightarrow> ''i16'' | PI32 \<Rightarrow> ''i32'' | PI64 \<Rightarrow> ''i64'' | PI128 \<Rightarrow> ''i128'' | PISize \<Rightarrow> ''isize''
        | PU8 \<Rightarrow> ''u8'' | PU16 \<Rightarrow> ''u16'' | PU32 \<Rightarrow> ''u32'' | PU64 \<Rightarrow> ''u64'' | PU128 \<Rightarrow> ''u128'' | PUSize \<Rightarrow> ''usize'' | PF32 \<Rightarrow> ''f32'' | PF64 \<Rightarrow> ''f64'' | OtherPrim _ \<Rightarrow> ''other''),
      co_header = (\<lambda>ot ct. JArray [JNum ot, JNum ct]),
      co_opaque_json = (\<lambda>_ _. Err ''live task, scheduler, and continuation values require a runtime checkpoint''), co_target_json = (\<lambda>_ _. Ok JNull),
      co_opaque_from_json = (\<lambda>_. Err ''opaque''), co_callable_from_json = (\<lambda>_. Ok ()), co_callable_target = Some\<rparr>"

theorem report_hides_secrets_witness:
  "encode_value sample_codec Report (Tuple [Trust secret_wrapper (Bool True), Bool False]) =
   encode_value sample_codec Report (Tuple [Trust secret_wrapper (String ''key''), Bool False])"
proof -
  have leaf: "public_same (Bool False :: unit interp_value) (Bool False)" by (subst public_same.simps) simp
  have "public_same (Trust secret_wrapper (Bool True) :: unit interp_value) (Trust secret_wrapper (String ''key''))"
    by (subst public_same.simps) simp
  then have "public_same (Tuple [Trust secret_wrapper (Bool True), Bool False] :: unit interp_value) (Tuple [Trust secret_wrapper (String ''key''), Bool False])"
    using leaf by (subst public_same.simps) (simp add: less_Suc_eq)
  then show ?thesis using report_hides_secrets by blast
qed

end
