(* ===== verification/Value_Decode.thy ===== *)
theory Value_Decode
  imports Value_Encode Value_Membership Ordered_Collection
begin

text \<open>
  Reading a runtime value back from a JSON document, \<open>api/codec/value/decode.rs\<close> and
  \<open>api/codec/value/decode/runtime.rs\<close>, with the scalars of \<open>api/codec/value/scalar.rs\<close> and the numbers of
  \<open>api/codec/value.rs\<close>. The decoder keeps a stack of frames of its own, one for every aggregate it has
  entered. It returns for every document.

  The table of captured frames a document may share is resolved by \<open>co_callable_from_json\<close>. The members
  the model does not look into are read by \<open>co_opaque_from_json\<close>.
\<close>

section \<open>Numbers\<close>

definition primitive_type_from_abi_name :: "string \<Rightarrow> primitive_type option" where
  "primitive_type_from_abi_name name =
     (if name = ''i8'' then Some PI8 else if name = ''i16'' then Some PI16 else if name = ''i32'' then Some PI32
      else if name = ''i64'' then Some PI64 else if name = ''i128'' then Some PI128 else if name = ''isize'' then Some PISize
      else if name = ''u8'' then Some PU8 else if name = ''u16'' then Some PU16 else if name = ''u32'' then Some PU32
      else if name = ''u64'' then Some PU64 else if name = ''u128'' then Some PU128 else if name = ''usize'' then Some PUSize
      else None)"

text \<open>\<open>str::parse\<close> at an unsigned width.\<close>

definition parse_unsigned :: "string \<Rightarrow> 'a::len word option" where
  "parse_unsigned src =
     (let digits = (case src of [] \<Rightarrow> [] | c # cs \<Rightarrow> if c = CHR ''+'' then cs else src)
      in if digits = [] then None
         else Option.bind (radix_value 10 0 digits) (\<lambda>n. u_try (int n)))"

definition numeric_value_from_json :: "json \<Rightarrow> string + numeric_value" where
  "numeric_value_from_json j =
     rbind (required_str j ''type'') (\<lambda>name.
       if name = ''f32'' then rbind (required_str j ''bits'') (\<lambda>s. ok_or (map_option F32 (parse_unsigned s)) ''numeric f32 bits are invalid'')
       else if name = ''f64'' then rbind (required_str j ''bits'') (\<lambda>s. ok_or (map_option F64 (parse_unsigned s)) ''numeric f64 bits are invalid'')
       else
         rbind (ok_or (primitive_type_from_abi_name name) (''unknown numeric ABI type `'' @ name @ ''`'')) (\<lambda>prim.
         rbind (required_str j ''value'') (\<lambda>s.
           case parse_integer s prim of
             Inl _ \<Rightarrow> Err (''numeric value is invalid for ABI type `'' @ name @ ''`'')
           | Inr v \<Rightarrow> Ok v)))"

section \<open>Scalars\<close>

text \<open>The kinds of the members the model does not look into.\<close>

definition opaque_kinds :: "string list" where
  "opaque_kinds =
     [''message'', ''conversation'', ''memory_selection'', ''json'', ''type_schema'', ''std_constant'', ''prompt'', ''provenance'',
      ''model_response'', ''command'', ''command_result'', ''memory_write_intent'', ''handler'', ''resource_handle'', ''workspace_path'',
      ''memory_store'']"

definition scalar_from_json :: "'x codec_ops \<Rightarrow> json \<Rightarrow> string + 'x interp_value" where
  "scalar_from_json ops j =
     rbind (required_str j ''kind'') (\<lambda>kind.
       if kind = ''unit'' then Ok Unit
       else if kind = ''bool'' then rmap Bool (required_bool j ''value'')
       else if kind = ''number'' then rmap Number (numeric_value_from_json j)
       else if kind = ''string'' then rmap String (required_str j ''value'')
       else if kind = ''bytes'' then rmap Bytes (byte_array j ''value'')
       else if kind = ''option_none'' then Ok OptionNone
       else if kind = ''syntax_block'' then
         Err ''structured syntax must be parsed from source; a runtime rendering is not a restorable syntax object''
       else if kind = ''host_handle'' then Err ''serialized host handles cannot be restored without a live host capability''
       else if kind \<in> set opaque_kinds then rmap Opaque (co_opaque_from_json ops j)
       else Err (''unsupported serialized interpreter value `'' @ kind @ ''`''))"

section \<open>Frames\<close>

datatype unary_kind = UnaryNominal nat | UnaryTrust nat | UnarySome

datatype sequence_kind =
    SequenceTuple | SequenceArray | SequenceList | SequenceSlice | SequenceSet | SequenceDeque | SequenceQueue | SequenceStack
  | SequenceOrderedSet | SequenceVariant string

datatype pairs_kind = PairsMap | PairsOrderedMap | PairsPriorityQueue

datatype 'x decode_frame =
    FrameUnary unary_kind json "'x interp_value option"
  | FrameSequence sequence_kind "json list" "'x interp_value list" "json option" "'x interp_value option"
  | FrameRecord "json list" "(string \<times> 'x interp_value) list"
  | FramePairs pairs_kind "json list" "('x interp_value \<times> 'x interp_value) list" "'x interp_value option" "json option" "'x interp_value option"
  | FrameRange json "'x interp_value option" "'x interp_value option"

definition unary_of :: "json \<Rightarrow> string \<Rightarrow> string + unary_kind option" where
  "unary_of j kind =
     (if kind = ''existential'' then Err ''existential evidence requires checked checkpoint restoration''
      else if kind = ''nominal'' then rmap (\<lambda>ty. Some (UnaryNominal ty)) (required_u32 j ''ty'')
      else if kind = ''trust'' then rbind (required_str j ''wrapper'') (\<lambda>s. rmap (\<lambda>w. Some (UnaryTrust w)) (trust_wrapper_from_json s))
      else if kind = ''option_some'' then Ok (Some UnarySome)
      else Ok None)"

definition sequence_of :: "json \<Rightarrow> string \<Rightarrow> string + sequence_kind option" where
  "sequence_of j kind =
     (if kind = ''tuple'' then Ok (Some SequenceTuple) else if kind = ''array'' then Ok (Some SequenceArray)
      else if kind = ''list'' then Ok (Some SequenceList) else if kind = ''slice'' then Ok (Some SequenceSlice)
      else if kind = ''set'' then Ok (Some SequenceSet) else if kind = ''deque'' then Ok (Some SequenceDeque)
      else if kind = ''queue'' then Ok (Some SequenceQueue) else if kind = ''stack'' then Ok (Some SequenceStack)
      else if kind = ''ordered_set'' then Ok (Some SequenceOrderedSet)
      else if kind = ''variant'' then rmap (\<lambda>n. Some (SequenceVariant n)) (required_str j ''name'')
      else Ok None)"

fun is_variant :: "sequence_kind \<Rightarrow> bool" where
  "is_variant (SequenceVariant _) = True"
| "is_variant _ = False"

definition pairs_of :: "string \<Rightarrow> pairs_kind option" where
  "pairs_of kind =
     (if kind = ''map'' then Some PairsMap else if kind = ''ordered_map'' then Some PairsOrderedMap
      else if kind = ''priority_queue'' then Some PairsPriorityQueue else None)"

definition comparison_input :: "json \<Rightarrow> string + json option" where
  "comparison_input j =
     (case json_get j ''comparator'' of
        None \<Rightarrow> Err ''ordered collection is missing its comparator field''
      | Some JNull \<Rightarrow> Ok None
      | Some c \<Rightarrow> Ok (Some c))"

definition frame_for_value :: "json \<Rightarrow> string + 'x decode_frame option" where
  "frame_for_value j =
     rbind (required_str j ''kind'') (\<lambda>kind.
     rbind (unary_of j kind) (\<lambda>u.
       case u of
         Some k \<Rightarrow> rmap (\<lambda>input. Some (FrameUnary k input None)) (required_obj j ''value'')
       | None \<Rightarrow>
     rbind (sequence_of j kind) (\<lambda>s.
       case s of
         Some k \<Rightarrow>
           rbind (required_array j (if is_variant k then ''fields'' else ''values'')) (\<lambda>input.
             if k = SequenceTuple \<and> input = [] then Err ''empty tuple must use the canonical unit value encoding''
             else
               rmap (\<lambda>c. Some (FrameSequence k input [] c None)) (if k = SequenceOrderedSet then comparison_input j else Ok None))
       | None \<Rightarrow>
           (case pairs_of kind of
              Some k \<Rightarrow>
                rbind (required_array j ''entries'') (\<lambda>input.
                  rmap (\<lambda>c. Some (FramePairs k input [] None c None)) (if k = PairsMap then Ok None else comparison_input j))
            | None \<Rightarrow>
                if kind = ''record'' then rmap (\<lambda>input. Some (FrameRecord input [])) (required_array j ''fields'')
                else if kind = ''range'' then Ok (Some (FrameRange j None None))
                else Ok None))))"

definition invalid_builder :: string where
  "invalid_builder = ''invalid aggregate value decoder state''"

definition input_at :: "json list \<Rightarrow> nat \<Rightarrow> json option" where
  "input_at input i = (if i < length input then Some (input ! i) else None)"

fun next_input :: "'x decode_frame \<Rightarrow> string + json option" where
  "next_input (FrameUnary kind input out) = Ok (if out = None then Some input else None)"
| "next_input (FrameSequence kind input out comparator_input comparator) =
     Ok (case input_at input (length out) of
           Some j \<Rightarrow> Some j
         | None \<Rightarrow> if comparator = None then comparator_input else None)"
| "next_input (FrameRecord input out) =
     (case input_at input (length out) of
        None \<Rightarrow> Ok None
      | Some field \<Rightarrow> rbind (required_str field ''name'') (\<lambda>_. rmap Some (required_obj field ''value'')))"
| "next_input (FramePairs kind input out k comparator_input comparator) =
     (if length out = length input \<and> k = None then Ok (if comparator = None then comparator_input else None)
      else
        case input_at input (length out) of
          None \<Rightarrow> Ok None
        | Some e \<Rightarrow>
            rmap Some (required_obj e
              (if k \<noteq> None then ''value'' else if kind = PairsPriorityQueue then ''priority'' else ''key'')))"
| "next_input (FrameRange input s e) =
     (if s = None then rmap Some (required_obj input ''start'')
      else if e = None then rmap Some (required_obj input ''end'')
      else Ok None)"

fun accept :: "'x decode_frame \<Rightarrow> 'x interp_value \<Rightarrow> string + 'x decode_frame" where
  "accept (FrameUnary kind input out) v = Ok (FrameUnary kind input (Some v))"
| "accept (FrameSequence kind input out comparator_input comparator) v =
     Ok (if length out < length input then FrameSequence kind input (out @ [v]) comparator_input comparator
         else FrameSequence kind input out comparator_input (Some v))"
| "accept (FrameRecord input out) v =
     rbind (ok_or (input_at input (length out)) invalid_builder) (\<lambda>field.
     rbind (required_str field ''name'') (\<lambda>name. Ok (FrameRecord input (out @ [(name, v)]))))"
| "accept (FramePairs kind input out k comparator_input comparator) v =
     Ok (if length out = length input \<and> k = None then FramePairs kind input out k comparator_input (Some v)
         else
           case k of
             Some k \<Rightarrow> FramePairs kind input (out @ [(k, v)]) None comparator_input comparator
           | None \<Rightarrow> FramePairs kind input out (Some v) comparator_input comparator)"
| "accept (FrameRange input s e) v =
     Ok (if s = None then FrameRange input (Some v) e else FrameRange input s (Some v))"

section \<open>Building runtime values\<close>

text \<open>\<open>eq\<close>, \<open>hash\<close> and \<open>seed\<close> are what a new set compares and hashes its members with.\<close>

record 'x set_ops =
  so_eq :: "'x interp_value \<Rightarrow> 'x interp_value \<Rightarrow> bool"
  so_hash :: "nat \<Rightarrow> 'x interp_value \<Rightarrow> nat"
  so_seed :: nat

fun unary_value :: "unary_kind \<Rightarrow> 'x interp_value \<Rightarrow> 'x interp_value" where
  "unary_value (UnaryNominal ty) v = Nominal ty v"
| "unary_value (UnaryTrust w) v = Trust w v"
| "unary_value UnarySome v = OptionSome v"

definition decoded_set :: "'x set_ops \<Rightarrow> 'x interp_value list \<Rightarrow> string + 'x interp_value" where
  "decoded_set so vs =
     (case from_unique (so_eq so) (so_hash so) (so_seed so) vs of
        Inl position \<Rightarrow> Err (''duplicate set element at index '' @ show_nat position)
      | Inr s \<Rightarrow> Ok (Set (se_values s) (se_index s)))"

definition executable_order :: string where
  "executable_order = ''restoring executable key comparisons requires a checked checkpoint context''"

definition sequence_value ::
  "'x set_ops \<Rightarrow> sequence_kind \<Rightarrow> 'x interp_value list \<Rightarrow> 'x interp_value option \<Rightarrow> string + 'x interp_value"
where
  "sequence_value so kind vs comparator =
     (if comparator \<noteq> None then Err executable_order
      else
        case kind of
          SequenceTuple \<Rightarrow> Ok (Tuple vs)
        | SequenceArray \<Rightarrow> Ok (Array vs)
        | SequenceList \<Rightarrow> Ok (List vs)
        | SequenceSlice \<Rightarrow> Ok (Slice vs)
        | SequenceSet \<Rightarrow> decoded_set so vs
        | SequenceDeque \<Rightarrow> Ok (Deque vs)
        | SequenceQueue \<Rightarrow> Ok (Queue vs)
        | SequenceStack \<Rightarrow> Ok (Stack vs)
        | SequenceOrderedSet \<Rightarrow> rmap (\<lambda>s. OrderedSet (st_tree s) (st_comparator s)) (try_from_values vs)
        | SequenceVariant name \<Rightarrow> Ok (Variant name vs))"

definition queue_comparator :: "'x codec_ops \<Rightarrow> 'x interp_value option \<Rightarrow> string + 'x option" where
  "queue_comparator ops comparator =
     (case comparator of
        None \<Rightarrow> Ok None
      | Some v \<Rightarrow>
          rmap Some (ok_or (case v of Opaque x \<Rightarrow> co_callable_target ops x | _ \<Rightarrow> None) ''priority comparison must be a callable''))"

definition pairs_value ::
  "'x codec_ops \<Rightarrow> pairs_kind \<Rightarrow> ('x interp_value \<times> 'x interp_value) list \<Rightarrow> 'x interp_value option \<Rightarrow> string + 'x interp_value"
where
  "pairs_value ops kind es comparator =
     (if kind = PairsOrderedMap \<and> comparator \<noteq> None then Err executable_order
      else
        case kind of
          PairsMap \<Rightarrow> Ok (Map (ma_entries (map_new es)) (ma_index (map_new es)))
        | PairsOrderedMap \<Rightarrow> rmap (\<lambda>s. OrderedMap (st_tree s) (st_comparator s)) (try_from_entries es)
        | PairsPriorityQueue \<Rightarrow>
            rmap (\<lambda>c. let q = from_entries es c in PriorityQueue (slots q) (heap q) (pq_comparator q) (ready q)) (queue_comparator ops comparator))"

fun finish_frame :: "'x codec_ops \<Rightarrow> 'x set_ops \<Rightarrow> 'x decode_frame \<Rightarrow> string + 'x interp_value" where
  "finish_frame ops so (FrameUnary kind input out) = rmap (unary_value kind) (ok_or out invalid_builder)"
| "finish_frame ops so (FrameSequence kind input out comparator_input comparator) = sequence_value so kind out comparator"
| "finish_frame ops so (FrameRecord input out) = Ok (Record out)"
| "finish_frame ops so (FramePairs kind input out k comparator_input comparator) =
     (if k \<noteq> None then Err invalid_builder else pairs_value ops kind out comparator)"
| "finish_frame ops so (FrameRange input s e) =
     rbind (ok_or s invalid_builder) (\<lambda>s. rbind (ok_or e invalid_builder) (\<lambda>e.
     rbind (required_str input ''bounds'') (\<lambda>b. rbind (range_bounds_from_json b) (\<lambda>b. Ok (Range (RangeValue s e b))))))"

section \<open>The loop\<close>

text \<open>The decoder is at a document it has still to read, or holds a value for the innermost frame.\<close>

datatype 'x decode_state = Reading json | Holding "'x interp_value"

definition leaf_value :: "'x codec_ops \<Rightarrow> json \<Rightarrow> string + 'x interp_value" where
  "leaf_value ops j =
     rbind (required_str j ''kind'') (\<lambda>kind.
       if kind = ''callable'' then rbind (required_obj j ''target'') (\<lambda>t. rmap Opaque (co_callable_from_json ops t))
       else scalar_from_json ops j)"

text \<open>A document that does not end the loop is \<open>None\<close>.\<close>

partial_function (option) decode_loop ::
  "'x codec_ops \<Rightarrow> 'x set_ops \<Rightarrow> 'x decode_state \<Rightarrow> 'x decode_frame list \<Rightarrow> (string + 'x interp_value) option"
where
  "decode_loop ops so st frames =
     (case st of
        Reading j \<Rightarrow>
          (case frame_for_value j of
             Inl e \<Rightarrow> Some (Err e)
           | Inr (Some frame) \<Rightarrow>
               (case next_input frame of
                  Inl e \<Rightarrow> Some (Err e)
                | Inr (Some c) \<Rightarrow> decode_loop ops so (Reading c) (frame # frames)
                | Inr None \<Rightarrow>
                    (case finish_frame ops so frame of
                       Inl e \<Rightarrow> Some (Err e)
                     | Inr v \<Rightarrow> decode_loop ops so (Holding v) frames))
           | Inr None \<Rightarrow>
               (case leaf_value ops j of
                  Inl e \<Rightarrow> Some (Err e)
                | Inr v \<Rightarrow> decode_loop ops so (Holding v) frames))
      | Holding v \<Rightarrow>
          (case frames of
             [] \<Rightarrow> Some (Ok v)
           | frame # frames \<Rightarrow>
               (case accept frame v of
                  Inl e \<Rightarrow> Some (Err e)
                | Inr frame \<Rightarrow>
                    (case next_input frame of
                       Inl e \<Rightarrow> Some (Err e)
                     | Inr (Some c) \<Rightarrow> decode_loop ops so (Reading c) (frame # frames)
                     | Inr None \<Rightarrow>
                         (case finish_frame ops so frame of
                            Inl e \<Rightarrow> Some (Err e)
                          | Inr v \<Rightarrow> decode_loop ops so (Holding v) frames)))))"

definition decode_with_frames :: "'x codec_ops \<Rightarrow> 'x set_ops \<Rightarrow> json \<Rightarrow> (string + 'x interp_value) option" where
  "decode_with_frames ops so root = decode_loop ops so (Reading root) []"

section \<open>The decoder always returns\<close>

definition resume ::
  "'x codec_ops \<Rightarrow> 'x set_ops \<Rightarrow> string + 'x interp_value \<Rightarrow> 'x decode_frame list \<Rightarrow> (string + 'x interp_value) option"
where
  "resume ops so r frames = (case r of Inl e \<Rightarrow> Some (Err e) | Inr v \<Rightarrow> decode_loop ops so (Holding v) frames)"

definition proceed ::
  "'x codec_ops \<Rightarrow> 'x set_ops \<Rightarrow> 'x decode_frame \<Rightarrow> 'x decode_frame list \<Rightarrow> (string + 'x interp_value) option"
where
  "proceed ops so f frames =
     (case next_input f of
        Inl e \<Rightarrow> Some (Err e)
      | Inr (Some c) \<Rightarrow> decode_loop ops so (Reading c) (f # frames)
      | Inr None \<Rightarrow> resume ops so (finish_frame ops so f) frames)"

text \<open>What a document reads as, and what a frame ends with, whatever frames are below.\<close>

definition reads :: "'x codec_ops \<Rightarrow> 'x set_ops \<Rightarrow> json \<Rightarrow> string + 'x interp_value \<Rightarrow> bool" where
  "reads ops so j r \<longleftrightarrow> (\<forall>frames. decode_loop ops so (Reading j) frames = resume ops so r frames)"

definition runs :: "'x codec_ops \<Rightarrow> 'x set_ops \<Rightarrow> 'x decode_frame \<Rightarrow> string + 'x interp_value \<Rightarrow> bool" where
  "runs ops so f r \<longleftrightarrow> (\<forall>frames. proceed ops so f frames = resume ops so r frames)"

lemma reading:
  "decode_loop ops so (Reading j) frames =
     (case frame_for_value j of
        Inl e \<Rightarrow> Some (Err e)
      | Inr (Some f) \<Rightarrow> proceed ops so f frames
      | Inr None \<Rightarrow> resume ops so (leaf_value ops j) frames)"
  by (subst decode_loop.simps) (auto simp: proceed_def resume_def split: sum.splits option.splits)

lemma holding:
  "decode_loop ops so (Holding v) [] = Some (Ok v)"
  "decode_loop ops so (Holding v) (f # frames) = (case accept f v of Inl e \<Rightarrow> Some (Err e) | Inr f \<Rightarrow> proceed ops so f frames)"
  by (subst decode_loop.simps; auto simp: proceed_def resume_def split: sum.splits option.splits)+

lemma reads_leaf: "frame_for_value j = (Ok None :: string + 'x decode_frame option) \<Longrightarrow> reads ops so j (leaf_value ops j)" for ops :: "'x codec_ops"
  by (simp add: reads_def reading)

lemma reads_frame: "frame_for_value j = Ok (Some f) \<Longrightarrow> runs ops so f r \<Longrightarrow> reads ops so j r"
  by (simp add: reads_def reading runs_def)

lemma runs_finish: "next_input f = Ok None \<Longrightarrow> runs ops so f (finish_frame ops so f)"
  by (simp add: runs_def proceed_def)

lemma runs_step:
  "next_input f = Ok (Some c) \<Longrightarrow> reads ops so c (Ok v) \<Longrightarrow> accept f v = Ok f' \<Longrightarrow> runs ops so f' r \<Longrightarrow> runs ops so f r"
  by (simp add: runs_def proceed_def reads_def resume_def holding)

lemma runs_fail:
  "next_input f = Err e \<Longrightarrow> runs ops so f (Err e)"
  "next_input f = Ok (Some c) \<Longrightarrow> reads ops so c (Err e) \<Longrightarrow> runs ops so f (Err e)"
  "next_input f = Ok (Some c) \<Longrightarrow> reads ops so c (Ok v) \<Longrightarrow> accept f v = Err e \<Longrightarrow> runs ops so f (Err e)"
  by (simp_all add: runs_def proceed_def reads_def resume_def holding)

text \<open>A frame only reads documents below the one it was opened for, each once.\<close>

fun below :: "nat \<Rightarrow> 'x decode_frame \<Rightarrow> bool" where
  "below n (FrameUnary kind input out) \<longleftrightarrow> size input < n"
| "below n (FrameSequence kind input out comparator_input comparator) \<longleftrightarrow> (\<forall>j \<in> set input. size j < n) \<and> (\<forall>c. comparator_input = Some c \<longrightarrow> size c < n)"
| "below n (FrameRecord input out) \<longleftrightarrow> (\<forall>j \<in> set input. size j < n)"
| "below n (FramePairs kind input out k comparator_input comparator) \<longleftrightarrow> (\<forall>j \<in> set input. size j < n) \<and> (\<forall>c. comparator_input = Some c \<longrightarrow> size c < n)"
| "below n (FrameRange input s e) \<longleftrightarrow> size input \<le> n"

fun todo :: "'x decode_frame \<Rightarrow> nat" where
  "todo (FrameUnary kind input out) = (if out = None then 1 else 0)"
| "todo (FrameSequence kind input out comparator_input comparator) = length input - length out + (if comparator = None then 1 else 0)"
| "todo (FrameRecord input out) = length input - length out"
| "todo (FramePairs kind input out k comparator_input comparator) =
     2 * (length input - length out) - (if k = None then 0 else 1) + (if comparator = None then 1 else 0)"
| "todo (FrameRange input s e) = (if s = None then 1 else 0) + (if e = None then 1 else 0)"

lemma json_get_size: "json_get j n = Some c \<Longrightarrow> size c < size j"
proof (cases j)
  case (JObject fs)
  assume "json_get j n = Some c"
  then have "(n, c) \<in> set fs" using JObject by (simp add: json_get_def map_of_SomeD)
  then have "size c \<le> size_list (size_prod (\<lambda>_. 0) size) fs" by (induction fs) auto
  then show ?thesis using JObject by simp
qed (simp_all add: json_get_def)

lemma required_obj_size: "required_obj j n = Ok c \<Longrightarrow> size c < size j"
  by (auto simp: required_obj_def json_get_size)

lemma required_array_size: "required_array j n = Ok cs \<Longrightarrow> c \<in> set cs \<Longrightarrow> size c < size j"
proof -
  assume "required_array j n = Ok cs" "c \<in> set cs"
  then have "json_get j n = Some (JArray cs)" by (cases "json_get j n") (auto simp: required_array_def elim!: as_array.elims)
  moreover have "size c < size (JArray cs)" using \<open>c \<in> set cs\<close> by (induction cs) auto
  ultimately show ?thesis using json_get_size less_trans by blast
qed

lemma comparison_input_size: "comparison_input j = Ok (Some c) \<Longrightarrow> size c < size j"
  by (auto simp: comparison_input_def json_get_size split: option.splits json.splits)

lemma frame_below: "frame_for_value j = Ok (Some f) \<Longrightarrow> below (size j) f"
  unfolding frame_for_value_def
  by (auto simp: rbind_def rmap_def split: sum.splits option.splits if_splits
      dest: required_obj_size required_array_size comparison_input_size)

lemma input_at_mem: "input_at input i = Some j \<Longrightarrow> j \<in> set input \<and> i < length input"
  by (auto simp: input_at_def split: if_splits)

lemma next_below: "below n f \<Longrightarrow> next_input f = Ok (Some c) \<Longrightarrow> size c < n"
  by (cases f) (fastforce simp: rmap_def rbind_def split: if_splits option.splits sum.splits dest: input_at_mem required_obj_size)+

lemma accept_below: "below n f \<Longrightarrow> accept f v = Ok f' \<Longrightarrow> below n f'"
  by (cases f) (auto simp: rbind_def split: if_splits option.splits sum.splits)

lemma accept_todo: "next_input f = Ok (Some c) \<Longrightarrow> accept f v = Ok f' \<Longrightarrow> todo f' < todo f"
  by (cases f) (auto simp: rbind_def rmap_def split: if_splits option.splits sum.splits dest!: input_at_mem)

lemma frame_total:
  assumes "\<And>c. size c < n \<Longrightarrow> \<exists>r. reads ops so c r"
  shows "below n f \<Longrightarrow> \<exists>r. runs ops so f r"
proof (induction "todo f" arbitrary: f rule: less_induct)
  case less
  show ?case
  proof (cases "next_input f")
    case (Inl e)
    then show ?thesis using runs_fail(1) by blast
  next
    case (Inr i)
    show ?thesis
    proof (cases i)
      case None
      then show ?thesis using Inr runs_finish by blast
    next
      case (Some c)
      then obtain r where r: "reads ops so c r" using assms next_below [OF less.prems] Inr by blast
      show ?thesis
      proof (cases r)
        case (Inl e)
        then show ?thesis using runs_fail(2) r Inr Some \<open>next_input f = Inr i\<close> by blast
      next
        case res: (Inr v)
        then show ?thesis
          using r Some \<open>next_input f = Inr i\<close> runs_fail(3) [of f c ops so v] runs_step [of f c ops so v]
            less.hyps accept_todo [of f c v] accept_below [OF less.prems, of v] by (cases "accept f v") blast+
      qed
    qed
  qed
qed

lemma reads_total: "\<exists>r. reads ops so j r"
proof (induction "size j" arbitrary: j rule: less_induct)
  case less
  show ?case
  proof (cases "frame_for_value j :: string + 'a decode_frame option")
    case (Inl e)
    then have "reads ops so j (Err e)" by (simp add: reads_def reading resume_def)
    then show ?thesis by blast
  next
    case (Inr f)
    then show ?thesis using frame_total [OF less.hyps] frame_below [of j] reads_leaf [of j] reads_frame [of j] by (cases f) blast+
  qed
qed

text \<open>\<^bold>\<open>C17\<close>. Reading a document always returns: for every document, of any shape and nesting, the loop of frames
  ends with a value or with an error.\<close>

theorem decoder_always_returns: "\<exists>r. decode_with_frames ops so root = Some r"
proof -
  obtain r where "reads ops so root r" using reads_total by blast
  then show ?thesis by (cases r) (simp_all add: decode_with_frames_def reads_def resume_def holding)
qed

end
