(* ===== verification/Value_Codec.thy ===== *)
theory Value_Codec
  imports Value_Decode
begin

text \<open>
  The value codec as a whole: what \<open>Value_Encode\<close> writes to be read back, \<open>Value_Decode\<close> reads, as an equal
  and well-formed value. A frame of the decoder is followed over the documents of the members it was
  opened for, and the builders are shown to give back what was written.
\<close>

section \<open>What is written can be read\<close>

text \<open>The values the codec keeps: data without members the model does not look into and without
  executable orders, type numbers of 32 bits, tuples with members, and ordered collections in the default
  order.\<close>

definition ascending :: "('x interp_value \<times> 'x interp_value) list \<Rightarrow> bool" where
  "ascending es \<longleftrightarrow> (\<forall>e \<in> set es. sortable (fst e)) \<and> sorted_wrt (\<lambda>a b. default_order (fst a) (fst b) = Ok Less) es"

fun codec_local :: "'x interp_value \<Rightarrow> bool" where
  "codec_local (Nominal ty _) \<longleftrightarrow> ty < 2 ^ 32"
| "codec_local (Trust w _) \<longleftrightarrow> w < 5"
| "codec_local (Existential _ _ _) \<longleftrightarrow> False"
| "codec_local (Tuple vs) \<longleftrightarrow> vs \<noteq> []"
| "codec_local (OrderedMap t c) \<longleftrightarrow> c = None \<and> ascending (inorder t)"
| "codec_local (OrderedSet t c) \<longleftrightarrow> c = None \<and> ascending (inorder t)"
| "codec_local (PriorityQueue _ _ c _) \<longleftrightarrow> c = None"
| "codec_local (Opaque _) \<longleftrightarrow> False"
| "codec_local _ \<longleftrightarrow> True"

function codec_ok :: "'x interp_value \<Rightarrow> bool" where
  "codec_ok v \<longleftrightarrow> codec_local v \<and> (\<forall>w \<in> set (kids v). codec_ok w)"
  by pat_completeness auto
termination by (relation "measure size") (auto simp: size_kid)

lemmas [simp del] = codec_ok.simps

text \<open>The primitive types have the names \<open>primitive_type_from_abi_name\<close> reads.\<close>

definition names_ok :: "'x codec_ops \<Rightarrow> bool" where
  "names_ok ops \<longleftrightarrow> co_source_name ops PF32 = ''f32'' \<and> co_source_name ops PF64 = ''f64'' \<and>
     (\<forall>p \<in> {PI8, PI16, PI32, PI64, PI128, PISize, PU8, PU16, PU32, PU64, PU128, PUSize}.
        primitive_type_from_abi_name (co_source_name ops p) = Some p)"

subsection \<open>Numbers and bytes\<close>

lemma parse_unsigned_show: "parse_unsigned (show_nat (unat w)) = Some w"
proof -
  obtain c cs where shown: "show_nat (unat w) = c # cs" by (cases "show_nat (unat w)") simp_all
  have "decimal c" using decimal_show_nat [of c "unat w"] shown by simp
  then have "c \<noteq> CHR ''+''" by (auto simp: decimal_def char_digit_def split: if_splits)
  then show ?thesis
    using shown radix_value_show_nat [of "unat w"] by (simp add: parse_unsigned_def u_try_def u_fits_def)
qed

lemma json_get_Cons [simp]: "json_get (JObject ((n, c) # fs)) m = (if m = n then Some c else json_get (JObject fs) m)"
  by (simp add: json_get_def)

lemma json_get_Nil [simp]: "json_get (JObject []) m = None"
  by (simp add: json_get_def)

lemma abi_name_not_float: "primitive_type_from_abi_name s = Some p \<Longrightarrow> s \<noteq> ''f32'' \<and> s \<noteq> ''f64''"
  by (auto simp: primitive_type_from_abi_name_def)

lemma numeric_roundtrip:
  assumes "names_ok ops"
  shows "numeric_value_from_json (numeric_value_json ops n) = Ok n"
proof (cases "int_value n")
  case None
  then show ?thesis
    using assms by (cases n) (simp_all add: names_ok_def numeric_value_json_def numeric_value_from_json_def required_str_def parse_unsigned_show)
next
  case (Some x)
  let ?name = "co_source_name ops (primitive n)"
  have abi: "primitive_type_from_abi_name ?name = Some (primitive n)" using assms Some by (cases n) (simp_all add: names_ok_def)
  have json: "numeric_value_json ops n = JObject [(''kind'', JString ''number''), (''type'', JString ?name), (''value'', JString (show_int x))]"
    using Some display_value_int [OF Some, of "co_floats ops"] by (cases n) (simp_all add: numeric_value_json_def)
  have "parse_integer (show_int x) (primitive n) = Ok n"
    using parse_show_int [OF int_value_fits [OF Some]] of_int_value_int_value [OF Some] by simp
  then show ?thesis using abi abi_name_not_float [OF abi] by (simp add: json numeric_value_from_json_def required_str_def)
qed

lemma bytes_roundtrip: "bytes_from name (map (\<lambda>c. JNum (of_char c)) s) = Ok s"
proof (induction s)
  case (Cons c s)
  have "(of_char c :: nat) < 256" by simp
  then have "(of_char c :: nat) < 2 ^ 64" by (rule less_trans) simp
  then show ?case using Cons by simp
qed simp

subsection \<open>Frames over what is written\<close>

abbreviation reads_all :: "'x codec_ops \<Rightarrow> 'x set_ops \<Rightarrow> json list \<Rightarrow> 'x interp_value list \<Rightarrow> bool" where
  "reads_all ops so \<equiv> list_all2 (\<lambda>j w. reads ops so j (Ok w))"

lemma input_at_append [simp]: "input_at (pre @ j # js) (length pre) = Some j" "input_at pre (length pre) = None"
  by (simp_all add: input_at_def)

lemma sequence_runs:
  assumes "reads_all ops so js ws" "length pre = length out"
  shows "runs ops so (FrameSequence k (pre @ js) out None None) (sequence_value so k (out @ ws) None)"
  using assms
proof (induction arbitrary: pre out rule: list_all2_induct)
  case Nil
  then show ?case using runs_finish [of "FrameSequence k pre out None None" ops so] by (simp add: input_at_def)
next
  case (Cons j js w ws)
  have "runs ops so (FrameSequence k ((pre @ [j]) @ js) (out @ [w]) None None) (sequence_value so k ((out @ [w]) @ ws) None)"
    by (rule Cons.IH) (simp add: Cons.prems)
  then show ?case
    using runs_step [of "FrameSequence k (pre @ j # js) out None None" j ops so w] Cons.hyps(1) by (simp flip: Cons.prems)
qed

definition field_json :: "string \<times> json \<Rightarrow> json" where
  "field_json f = JObject [(''name'', JString (fst f)), (''value'', snd f)]"

lemma field_json_reads: "required_str (field_json (n, j)) ''name'' = Ok n" "required_obj (field_json (n, j)) ''value'' = Ok j"
  by (simp_all add: field_json_def required_str_def required_obj_def)

lemma record_runs:
  assumes "reads_all ops so js ws" "length names = length js" "length pre = length out"
  shows "runs ops so (FrameRecord (pre @ map field_json (zip names js)) out) (Ok (Record (out @ zip names ws)))"
  using assms
proof (induction arbitrary: names pre out rule: list_all2_induct)
  case Nil
  then show ?case using runs_finish [of "FrameRecord pre out" ops so] by (simp add: input_at_def)
next
  case (Cons j js w ws)
  obtain n ns where names: "names = n # ns" using Cons.prems(1) by (cases names) simp_all
  let ?f = "field_json (n, j)" and ?fs = "map field_json (zip ns js)"
  have "runs ops so (FrameRecord ((pre @ [?f]) @ ?fs) (out @ [(n, w)])) (Ok (Record ((out @ [(n, w)]) @ zip ns ws)))"
    by (rule Cons.IH) (use Cons.prems names in simp_all)
  then show ?case
    using runs_step [of "FrameRecord (pre @ ?f # ?fs) out" j ops so w] Cons.hyps(1) names
    by (simp add: field_json_reads rmap_def flip: Cons.prems(2))
qed

definition pair_json :: "string \<Rightarrow> json \<times> json \<Rightarrow> json" where
  "pair_json key_name e = JObject [(key_name, fst e), (''value'', snd e)]"

definition key_name :: "pairs_kind \<Rightarrow> string" where
  "key_name k = (if k = PairsPriorityQueue then ''priority'' else ''key'')"

lemma pair_json_reads: "required_obj (pair_json name p) name = Ok (fst p)" "required_obj (pair_json (key_name k) p) ''value'' = Ok (snd p)"
  by (simp_all add: pair_json_def required_obj_def key_name_def)

lemma pairs_runs:
  assumes "list_all2 (\<lambda>p e. reads ops so (fst p) (Ok (fst e)) \<and> reads ops so (snd p) (Ok (snd e))) ps es" "length pre = length out"
  shows "runs ops so (FramePairs k (pre @ map (pair_json (key_name k)) ps) out None None None) (pairs_value ops k (out @ es) None)"
  using assms
proof (induction arbitrary: pre out rule: list_all2_induct)
  case Nil
  then show ?case using runs_finish [of "FramePairs k pre out None None None" ops so] by simp
next
  case (Cons p ps e es)
  let ?f = "pair_json (key_name k) p" and ?fs = "map (pair_json (key_name k)) ps"
  have rest: "runs ops so (FramePairs k ((pre @ [?f]) @ ?fs) (out @ [e]) None None None) (pairs_value ops k ((out @ [e]) @ es) None)"
    by (rule Cons.IH) (simp add: Cons.prems)
  have "runs ops so (FramePairs k (pre @ ?f # ?fs) out (Some (fst e)) None None) (pairs_value ops k (out @ e # es) None)"
    using runs_step [of "FramePairs k (pre @ ?f # ?fs) out (Some (fst e)) None None" "snd p" ops so "snd e"] rest Cons.hyps(1)
    by (simp add: pair_json_reads rmap_def flip: Cons.prems key_name_def)
  then show ?case
    using runs_step [of "FramePairs k (pre @ ?f # ?fs) out None None None" "fst p" ops so "fst e"] Cons.hyps(1)
    by (simp add: pair_json_reads rmap_def flip: Cons.prems key_name_def)
qed

subsection \<open>Building what was written\<close>

lemma build_ascending: "ascending es \<Longrightarrow> \<exists>t. build es = Ok t \<and> avl t \<and> inorder t = es"
  using insert_entries_ascending [of None es] by (auto simp: build_def check_keys_iff [symmetric] check_ascending_iff ascending_def)

lemma duplicates_ascending: "sorted_wrt (\<lambda>a b. default_order a b = Ok Less) ks \<Longrightarrow> check_duplicates ks = Ok ()"
  by (induction ks rule: check_duplicates.induct) auto

lemma avl_counts: "avl t \<Longrightarrow> counts_ok t"
  by (induction t rule: counts_ok.induct) auto

lemma ascending_keys: "map fst es = map fst fs \<Longrightarrow> ascending es \<longleftrightarrow> ascending fs"
proof -
  have "ascending es \<longleftrightarrow> (\<forall>k \<in> set (map fst es). sortable k) \<and> sorted_wrt (\<lambda>a b. default_order a b = Ok Less) (map fst es)" for es :: "('a interp_value \<times> 'a interp_value) list"
    by (simp add: ascending_def sorted_wrt_map)
  then show "map fst es = map fst fs \<Longrightarrow> ascending es \<longleftrightarrow> ascending fs" by (simp only:)
qed

text \<open>A key with a default order is read as itself.\<close>

lemma sortable_same: "sortable v \<Longrightarrow> veq oq v w \<Longrightarrow> w = v"
proof -
  assume "sortable v" "veq oq v w"
  then have "head_eq oq (head_of v) (head_of w)" by (simp add: veq_iff [of oq v])
  then show ?thesis using \<open>sortable v\<close> by (cases v; cases w) auto
qed

lemma live_slots_Some [simp]: "live_slots (map Some es) = es"
  by (induction es) auto

text \<open>Members equal to distinct members are distinct.\<close>

lemma distinct_transfer:
  assumes "list_all2 (\<lambda>v w. veq (=) v w \<and> value_ok (=) hash v \<and> value_ok (=) hash w) vs ws" "pairwise_distinct (veq (=)) vs"
  shows "pairwise_distinct (veq (=)) ws"
  using assms
proof (induction rule: list_all2_induct)
  case (Cons v vs w ws)
  have oq: "opaque_equivalence ((=) :: 'a \<Rightarrow> 'a \<Rightarrow> bool)" by (simp add: opaque_equivalence_def)
  have "\<not> veq (=) w y" if y: "y \<in> set ws" for y
  proof
    assume eq: "veq (=) w y"
    obtain x where x: "x \<in> set vs" "veq (=) x y" "value_ok (=) hash x" "value_ok (=) hash y" using all2_right [OF Cons.hyps(2) y] by blast
    have "veq (=) v y" using veq_trans [OF oq] eq Cons.hyps(1) by blast
    moreover have "veq (=) y x" using veq_sym [OF oq x(3,4,2)] .
    ultimately have "veq (=) v x" using veq_trans [OF oq] by blast
    then show False using Cons.prems x(1) by (simp add: pairwise_distinct_Cons)
  qed
  then show ?case using Cons by (simp add: pairwise_distinct_Cons)
qed (simp add: pairwise_distinct_def)

context membership
begin

lemma from_unique_distinct:
  assumes "\<forall>v \<in> set vals. ok v" "pairwise_distinct eq vals"
  shows "\<exists>index. from_unique eq hash seed vals = Ok \<lparr>se_values = vals, se_index = index\<rparr> \<and> index_ok hash vals index"
proof -
  have "(case require_unique eq hash seed vals of
      Inr index \<Rightarrow> index_ok hash vals index
    | Inl i \<Rightarrow> i < length vals \<and> (\<exists>y \<in> set (take i vals). eq y (vals ! i)))"
    using require_unique_loop_spec [of "[]" vals "index_new seed"] assms(1)
    by (auto simp: require_unique_def pairwise_distinct_def split: sum.splits)
  moreover have "\<not> (i < length vals \<and> (\<exists>y \<in> set (take i vals). eq y (vals ! i)))" for i
    using assms(2) by (auto simp: pairwise_distinct_def in_set_conv_nth)
  ultimately show ?thesis by (cases "require_unique eq hash seed vals") (auto simp: from_unique_def)
qed

end

subsection \<open>Writing the members\<close>

text \<open>A document that is read as a value equal to \<open>v\<close>.\<close>

definition restores ::
  "'x codec_ops \<Rightarrow> 'x set_ops \<Rightarrow> 'x interp_value \<Rightarrow> json \<Rightarrow> 'x interp_value \<Rightarrow> bool"
where
  "restores ops so v j w \<longleftrightarrow> reads ops so j (Ok w) \<and> veq (=) v w \<and> value_ok (=) (so_hash so) w"

definition persists :: "'x codec_ops \<Rightarrow> 'x set_ops \<Rightarrow> 'x interp_value \<Rightarrow> bool" where
  "persists ops so v \<longleftrightarrow> (\<exists>j w. encode_value ops Lossless v = Ok j \<and> restores ops so v j w)"

lemma encode_all_choice:
  "\<forall>x \<in> set xs. \<exists>j. f x = Ok j \<and> P x j \<Longrightarrow> \<exists>js. encode_all f xs = Ok js \<and> list_all2 P xs js"
  by (induction xs) auto

lemma slots_choice:
  assumes "\<forall>x \<in> set xs. \<exists>j. f x = Ok j \<and> P x j" "n = length xs"
  shows "\<exists>js. slot_values f xs n = Ok (JArray js) \<and> list_all2 P xs js"
proof -
  obtain js where "encode_all f xs = Ok js" "list_all2 P xs js" using encode_all_choice [OF assms(1)] by blast
  then show ?thesis using assms(2) list_all2_lengthD [of P xs js] by (simp add: slot_values_def)
qed

lemma all2_choice: "list_all2 (\<lambda>x j. \<exists>w. P x j w) xs js \<Longrightarrow> \<exists>ws. length ws = length xs \<and> (\<forall>i < length xs. P (xs ! i) (js ! i) (ws ! i))"
proof -
  assume "list_all2 (\<lambda>x j. \<exists>w. P x j w) xs js"
  then have "\<forall>i < length xs. \<exists>w. P (xs ! i) (js ! i) w" by (simp add: list_all2_conv_all_nth)
  then obtain g where "\<forall>i < length xs. P (xs ! i) (js ! i) (g i)" by metis
  then show ?thesis by (intro exI [of _ "map g [0..<length xs]"]) simp
qed

lemma slots_persist:
  assumes "\<forall>x \<in> set xs. persists ops so x" "n = length xs"
  shows "\<exists>js ws. slot_values (encode_value ops Lossless) xs n = Ok (JArray js) \<and> reads_all ops so js ws \<and>
    list_all2 (veq (=)) xs ws \<and> (\<forall>w \<in> set ws. value_ok (=) (so_hash so) w)"
proof -
  obtain js where js: "slot_values (encode_value ops Lossless) xs n = Ok (JArray js)" "list_all2 (\<lambda>x j. \<exists>w. restores ops so x j w) xs js"
    using slots_choice [of xs "encode_value ops Lossless" "\<lambda>x j. \<exists>w. restores ops so x j w" n] assms unfolding persists_def by blast
  obtain ws where "length ws = length xs" "\<forall>i < length xs. restores ops so (xs ! i) (js ! i) (ws ! i)" using all2_choice [OF js(2)] by blast
  then have "reads_all ops so js ws" "list_all2 (veq (=)) xs ws" "\<forall>w \<in> set ws. value_ok (=) (so_hash so) w"
    using list_all2_lengthD [OF js(2)] by (auto simp: restores_def list_all2_conv_all_nth in_set_conv_nth)
  then show ?thesis using js(1) by blast
qed

lemma pair_slots_persist:
  assumes "\<forall>e \<in> set es. persists ops so (fst e) \<and> persists ops so (snd e)" "n = length es"
  shows "\<exists>ps fs. slot_values (\<lambda>e. entry_json name (encode_value ops Lossless (fst e)) (encode_value ops Lossless (snd e))) es n = Ok (JArray (map (pair_json name) ps)) \<and>
    list_all2 (\<lambda>p e. reads ops so (fst p) (Ok (fst e)) \<and> reads ops so (snd p) (Ok (snd e))) ps fs \<and>
    list_all2 (\<lambda>e f. veq (=) (fst e) (fst f) \<and> veq (=) (snd e) (snd f)) es fs \<and>
    (\<forall>f \<in> set fs. value_ok (=) (so_hash so) (fst f) \<and> value_ok (=) (so_hash so) (snd f))"
proof -
  let ?P = "\<lambda>e j w. j = pair_json name (fst w) \<and> restores ops so (fst e) (fst (fst w)) (fst (snd w)) \<and> restores ops so (snd e) (snd (fst w)) (snd (snd w))"
  let ?f = "\<lambda>e. entry_json name (encode_value ops Lossless (fst e)) (encode_value ops Lossless (snd e))"
  have "\<exists>j. ?f e = Ok j \<and> (\<exists>w. ?P e j w)" if e: "e \<in> set es" for e
  proof -
    obtain a x b y where "encode_value ops Lossless (fst e) = Ok a" "restores ops so (fst e) a x" "encode_value ops Lossless (snd e) = Ok b" "restores ops so (snd e) b y"
      using assms(1) e unfolding persists_def by blast
    then show ?thesis by (intro exI [of _ "pair_json name (a, b)"] conjI exI [of _ "((a, b), (x, y))"]) (simp_all add: entry_json_def pair_json_def)
  qed
  then obtain js where js: "slot_values ?f es n = Ok (JArray js)" "list_all2 (\<lambda>e j. \<exists>w. ?P e j w) es js"
    using slots_choice [of es ?f "\<lambda>e j. \<exists>w. ?P e j w" n] assms(2) by blast
  obtain ws where ws: "length ws = length es" "\<forall>i < length es. ?P (es ! i) (js ! i) (ws ! i)" using all2_choice [OF js(2)] by blast
  have "js = map (pair_json name) (map fst ws)" using ws list_all2_lengthD [OF js(2)] by (intro nth_equalityI) simp_all
  then show ?thesis
    using js(1) ws by (intro exI [of _ "map fst ws"] exI [of _ "map snd ws"]) (simp_all add: restores_def list_all2_conv_all_nth all_set_conv_all_nth del: set_map)
qed

lemma field_slots_persist:
  assumes "\<forall>f \<in> set fs. persists ops so (snd f)"
  shows "\<exists>js ws. slot_values (\<lambda>f. with_value [(''name'', JString (fst f))] (encode_value ops Lossless (snd f))) fs (length fs) =
      Ok (JArray (map field_json (zip (map fst fs) js))) \<and> reads_all ops so js ws \<and>
    list_all2 (\<lambda>f w. veq (=) (snd f) w) fs ws \<and> (\<forall>w \<in> set ws. value_ok (=) (so_hash so) w)"
proof -
  let ?P = "\<lambda>f j w. j = field_json (fst f, fst w) \<and> restores ops so (snd f) (fst w) (snd w)"
  let ?f = "\<lambda>f. with_value [(''name'', JString (fst f))] (encode_value ops Lossless (snd f))"
  have "\<exists>j. ?f f = Ok j \<and> (\<exists>w. ?P f j w)" if f: "f \<in> set fs" for f
  proof -
    obtain a x where "encode_value ops Lossless (snd f) = Ok a" "restores ops so (snd f) a x" using assms(1) f unfolding persists_def by blast
    then show ?thesis by (intro exI [of _ "field_json (fst f, a)"] conjI exI [of _ "(a, x)"]) (simp_all add: with_value_def field_json_def)
  qed
  then obtain js where js: "slot_values ?f fs (length fs) = Ok (JArray js)" "list_all2 (\<lambda>e j. \<exists>w. ?P e j w) fs js"
    using slots_choice [of fs ?f "\<lambda>e j. \<exists>w. ?P e j w" "length fs"] by blast
  obtain ws where ws: "length ws = length fs" "\<forall>i < length fs. ?P (fs ! i) (js ! i) (ws ! i)" using all2_choice [OF js(2)] by blast
  have "js = map field_json (zip (map fst fs) (map fst ws))" using ws list_all2_lengthD [OF js(2)] by (intro nth_equalityI) simp_all
  then show ?thesis
    using js(1) ws by (intro exI [of _ "map fst ws"] exI [of _ "map snd ws"]) (simp_all add: restores_def list_all2_conv_all_nth all_set_conv_all_nth del: set_map)
qed

subsection \<open>One node\<close>

lemma persistsI: "encode_value ops Lossless v = Ok j \<Longrightarrow> reads ops so j (Ok w) \<Longrightarrow> veq (=) v w \<Longrightarrow> value_ok (=) (so_hash so) w \<Longrightarrow> persists ops so v"
  unfolding persists_def restores_def by blast

lemma leaf_persists:
  assumes "encode_value ops Lossless v = Ok j" "frame_for_value j = (Ok None :: string + 'x decode_frame option)" "leaf_value ops j = Ok v"
    and "value_ok (=) (so_hash so) v"
  shows "persists ops so (v :: 'x interp_value)"
  by (rule persistsI [OF assms(1) _ veq_refl [OF assms(4)] assms(4)]) (use reads_leaf [OF assms(2), of ops so] assms(3) in simp)

lemma unary_persists:
  fixes v w :: "'x interp_value"
  assumes enc: "\<And>j. encode_value ops Lossless w = Ok j \<Longrightarrow> encode_value ops Lossless v = Ok (F j)"
    and frame: "\<And>j. frame_for_value (F j) = Ok (Some (FrameUnary k j None :: 'x decode_frame))"
    and w: "persists ops so w"
    and built: "\<And>u. veq (=) w u \<Longrightarrow> value_ok (=) (so_hash so) u \<Longrightarrow> veq (=) v (unary_value k u) \<and> value_ok (=) (so_hash so) (unary_value k u)"
  shows "persists ops so v"
proof -
  obtain j u where j: "encode_value ops Lossless w = Ok j" "reads ops so j (Ok u)" "veq (=) w u" "value_ok (=) (so_hash so) u"
    using w unfolding persists_def restores_def by blast
  have "runs ops so (FrameUnary k j None) (Ok (unary_value k u))"
    using runs_step [of "FrameUnary k j None" j ops so u] j(2) runs_finish [of "FrameUnary k j (Some u)" ops so] by simp
  then show ?thesis using persistsI [OF enc [OF j(1)] reads_frame [OF frame]] built [OF j(3,4)] by blast
qed

lemma sequence_persists:
  fixes v :: "'x interp_value"
  assumes enc: "encode_value ops Lossless v = rmap F (slot_values (encode_value ops Lossless) vs n)" "n = length vs"
    and frame: "\<And>js. length js = length vs \<Longrightarrow> frame_for_value (F (JArray js)) = Ok (Some (FrameSequence k js [] None None :: 'x decode_frame))"
    and vs: "\<forall>x \<in> set vs. persists ops so x"
    and built: "\<And>ws. list_all2 (veq (=)) vs ws \<Longrightarrow> \<forall>w \<in> set ws. value_ok (=) (so_hash so) w \<Longrightarrow>
      \<exists>u. sequence_value so k ws None = Ok u \<and> veq (=) v u \<and> value_ok (=) (so_hash so) u"
  shows "persists ops so v"
proof -
  obtain js ws where js: "slot_values (encode_value ops Lossless) vs n = Ok (JArray js)" "reads_all ops so js ws" "list_all2 (veq (=)) vs ws"
    "\<forall>w \<in> set ws. value_ok (=) (so_hash so) w" using slots_persist [OF vs enc(2)] by blast
  obtain u where u: "sequence_value so k ws None = Ok u" "veq (=) v u" "value_ok (=) (so_hash so) u" using built [OF js(3,4)] by blast
  have len: "length js = length vs" using js(2,3) by (simp add: list_all2_lengthD)
  have "reads ops so (F (JArray js)) (Ok u)"
    using reads_frame [OF frame [OF len]] sequence_runs [OF js(2), of "[]" "[]" k] u(1) by simp
  then show ?thesis using persistsI [of ops v "F (JArray js)" so u] enc(1) js(1) u(2,3) by simp
qed

lemma pairs_persists:
  fixes v :: "'x interp_value"
  assumes enc: "encode_value ops Lossless v = rmap F (slot_values (\<lambda>e. entry_json (key_name k) (encode_value ops Lossless (fst e)) (encode_value ops Lossless (snd e))) es n)"
      "n = length es"
    and frame: "\<And>js. frame_for_value (F (JArray js)) = Ok (Some (FramePairs k js [] None None None :: 'x decode_frame))"
    and es: "\<forall>e \<in> set es. persists ops so (fst e) \<and> persists ops so (snd e)"
    and built: "\<And>fs. list_all2 (\<lambda>e f. veq (=) (fst e) (fst f) \<and> veq (=) (snd e) (snd f)) es fs \<Longrightarrow>
      \<forall>f \<in> set fs. value_ok (=) (so_hash so) (fst f) \<and> value_ok (=) (so_hash so) (snd f) \<Longrightarrow>
      \<exists>u. pairs_value ops k fs None = Ok u \<and> veq (=) v u \<and> value_ok (=) (so_hash so) u"
  shows "persists ops so v"
proof -
  obtain ps fs where ps: "slot_values (\<lambda>e. entry_json (key_name k) (encode_value ops Lossless (fst e)) (encode_value ops Lossless (snd e))) es n =
      Ok (JArray (map (pair_json (key_name k)) ps))"
    "list_all2 (\<lambda>p e. reads ops so (fst p) (Ok (fst e)) \<and> reads ops so (snd p) (Ok (snd e))) ps fs"
    "list_all2 (\<lambda>e f. veq (=) (fst e) (fst f) \<and> veq (=) (snd e) (snd f)) es fs"
    "\<forall>f \<in> set fs. value_ok (=) (so_hash so) (fst f) \<and> value_ok (=) (so_hash so) (snd f)"
    using pair_slots_persist [OF es enc(2), of "key_name k"] by blast
  obtain u where u: "pairs_value ops k fs None = Ok u" "veq (=) v u" "value_ok (=) (so_hash so) u" using built [OF ps(3,4)] by blast
  have "reads ops so (F (JArray (map (pair_json (key_name k)) ps))) (Ok u)"
    using reads_frame [OF frame] pairs_runs [OF ps(2), of "[]" "[]" k] u(1) by simp
  then show ?thesis using persistsI [of ops v _ so u] enc(1) ps(1) u(2,3) by simp
qed

subsection \<open>All values\<close>

lemmas frame_defs = frame_for_value_def unary_of_def sequence_of_def pairs_of_def required_str_def required_obj_def required_array_def comparison_input_def

lemma value_okI: "local_ok oq hash v \<Longrightarrow> \<forall>w \<in> set (kids v). value_ok oq hash w \<Longrightarrow> value_ok oq hash v"
  by (subst value_ok.simps) blast

lemma trust_wrapper_roundtrip: "w < 5 \<Longrightarrow> trust_wrapper_from_json (trust_wrapper_json w) = Ok w"
proof -
  assume "w < 5"
  then have "w = 0 \<or> w = 1 \<or> w = 2 \<or> w = 3 \<or> w = 4" by linarith
  then show ?thesis by (auto simp: trust_wrapper_json_def trust_wrapper_from_json_def)
qed

lemma range_bounds_roundtrip: "range_bounds_from_json (range_bounds_json b) = Ok b"
  by (cases b) (simp_all add: range_bounds_from_json_def)

lemma veq_unary:
  "veq (=) w u \<Longrightarrow> veq (=) (Nominal ty w) (Nominal ty u)"
  "veq (=) w u \<Longrightarrow> veq (=) (Trust t w) (Trust t u)"
  "veq (=) w u \<Longrightarrow> veq (=) (OptionSome w) (OptionSome u)"
  by (subst veq_plain [of _ "[w]" _ "[u]"]; simp)+

lemma flat_pairs_all2:
  "list_all2 (\<lambda>e f. veq oq (fst e) (fst f) \<and> veq oq (snd e) (snd f)) es fs \<Longrightarrow> list_all2 (veq oq) (flat_pairs es) (flat_pairs fs)"
proof (induction rule: list_all2_induct)
  case (Cons e es f fs)
  then show ?case by (cases e; cases f) simp
qed simp

lemma flat_pairs_mem: "w \<in> set (flat_pairs es) \<longleftrightarrow> (\<exists>e \<in> set es. w = fst e \<or> w = snd e)"
  by (induction es rule: flat_pairs.induct) auto

lemma leaf_ok: "fields_of v = [] \<Longrightarrow> local_ok oq hash v \<Longrightarrow> value_ok oq hash v"
  by (rule value_okI) (simp_all add: kids_def)

text \<open>A new sequence of members equal to those of another one.\<close>

lemma sequence_built:
  assumes "\<And>ws. sequence_value so k ws None = Ok (C ws)" "\<And>ws. fields_of (C ws) = unlabelled ws" "\<And>ws. \<not> unordered (C ws)"
    "\<And>ws. local_ok (=) (so_hash so) (C ws)" "\<And>ws. head_of (C ws) = HdShape s"
    and "list_all2 (veq (=)) vs ws" "\<forall>w \<in> set ws. value_ok (=) (so_hash so) w"
  shows "\<exists>u. sequence_value so k ws None = Ok u \<and> veq (=) (C vs) u \<and> value_ok (=) (so_hash so) u"
proof -
  have "veq (=) (C vs) (C ws)" using veq_plain [of "C vs" vs "C ws" ws "(=)"] assms by (simp add: list_all2_lengthD)
  moreover have "value_ok (=) (so_hash so) (C ws)" by (rule value_okI) (use assms in \<open>simp_all add: kids_def\<close>)
  ultimately show ?thesis using assms(1) by blast
qed

lemma set_built:
  assumes laws: "membership (veq (=)) (so_hash so) (value_ok (=) (so_hash so))" and so: "so_eq so = veq (=)"
    and vs: "value_ok (=) (so_hash so) (Set vs index)"
    and ws: "list_all2 (veq (=)) vs ws" "\<forall>w \<in> set ws. value_ok (=) (so_hash so) w"
  shows "\<exists>u. sequence_value so SequenceSet ws None = Ok u \<and> veq (=) (Set vs index) u \<and> value_ok (=) (so_hash so) u"
proof -
  have "\<forall>v \<in> set vs. value_ok (=) (so_hash so) v" using vs by (subst (asm) value_ok.simps) (simp add: kids_def)
  then have "list_all2 (\<lambda>v w. veq (=) v w \<and> value_ok (=) (so_hash so) v \<and> value_ok (=) (so_hash so) w) vs ws"
    using ws by (auto simp: list_all2_conv_all_nth)
  then have distinct: "pairwise_distinct (veq (=)) ws" by (rule distinct_transfer) (use value_ok_local [OF vs] in simp)
  obtain idx where idx: "from_unique (veq (=)) (so_hash so) (so_seed so) ws = Ok \<lparr>se_values = ws, se_index = idx\<rparr>" "index_ok (so_hash so) ws idx"
    using membership.from_unique_distinct [OF laws ws(2) distinct] by blast
  have "\<exists>q \<in> set (unlabelled ws). field_eq (=) p q" if "p \<in> set (unlabelled vs)" for p
    using that ws(1) by (fastforce simp: unlabelled_def list_all2_conv_all_nth in_set_conv_nth)
  then have "veq (=) (Set vs index) (Set ws idx)" using list_all2_lengthD [OF ws(1)] by (simp add: veq_iff [of "(=)" "Set vs index"])
  moreover have "value_ok (=) (so_hash so) (Set ws idx)" by (rule value_okI) (use idx(2) distinct ws(2) in \<open>simp_all add: kids_def\<close>)
  ultimately show ?thesis using idx(1) by (simp add: sequence_value_def decoded_set_def so)
qed

lemma ordered_keys_same:
  assumes "list_all2 (veq oq) ks ls" "\<forall>k \<in> set ks. sortable k"
  shows "ls = ks"
  using assms by (intro nth_equalityI) (auto simp: list_all2_conv_all_nth all_set_conv_all_nth sortable_same)

lemma ordered_set_built:
  assumes t: "ascending (inorder t)" and ws: "list_all2 (veq (=)) (map fst (inorder t)) ws" "\<forall>w \<in> set ws. value_ok (=) (so_hash so) w"
  shows "\<exists>u. sequence_value so SequenceOrderedSet ws None = Ok u \<and> veq (=) (OrderedSet t None) u \<and> value_ok (=) (so_hash so) u"
proof -
  have same: "ws = map fst (inorder t)" by (rule ordered_keys_same [OF ws(1)]) (use t in \<open>simp add: ascending_def\<close>)
  have "ascending (map (\<lambda>k. (k, Unit)) ws)" using t ascending_keys [of "map (\<lambda>k. (k, Unit)) ws" "inorder t"] by (simp add: same comp_def)
  then obtain t' where t': "build (map (\<lambda>k. (k, Unit)) ws) = Ok t'" "avl t'" "inorder t' = map (\<lambda>k. (k, Unit)) ws" using build_ascending by blast
  have "check_duplicates ws = Ok ()" by (rule duplicates_ascending) (use t in \<open>simp add: same ascending_def sorted_wrt_map\<close>)
  then have built: "sequence_value so SequenceOrderedSet ws None = Ok (OrderedSet t' None)"
    using t'(1) by (simp add: sequence_value_def try_from_values_def from_tree_def)
  have keys: "map fst (inorder t') = ws" by (simp add: t'(3) comp_def)
  have "veq (=) (OrderedSet t None) (OrderedSet t' None)"
    using veq_plain [of "OrderedSet t None" "map fst (inorder t)" "OrderedSet t' None" ws "(=)"] ws(1) keys by (simp add: option_eq_def list_all2_lengthD same)
  moreover have "value_ok (=) (so_hash so) (OrderedSet t' None)"
    by (rule value_okI) (use ws(2) keys avl_counts [OF t'(2)] in \<open>simp_all add: kids_def comparable_def option_eq_def\<close>)
  ultimately show ?thesis using built by blast
qed

lemma ordered_map_built:
  assumes t: "ascending (inorder t)" and fs: "list_all2 (\<lambda>e f. veq (=) (fst e) (fst f) \<and> veq (=) (snd e) (snd f)) (inorder t) fs"
    "\<forall>f \<in> set fs. value_ok (=) hash (fst f) \<and> value_ok (=) hash (snd f)"
  shows "\<exists>u. pairs_value ops PairsOrderedMap fs None = Ok u \<and> veq (=) (OrderedMap t None) u \<and> value_ok (=) hash u"
proof -
  have "list_all2 (veq (=)) (map fst (inorder t)) (map fst fs)" using fs(1) by (auto simp: list_all2_conv_all_nth)
  then have "map fst fs = map fst (inorder t)" by (rule ordered_keys_same) (use t in \<open>simp add: ascending_def\<close>)
  then have "ascending fs" using t ascending_keys by blast
  then obtain t' where t': "build fs = Ok t'" "avl t'" "inorder t' = fs" using build_ascending by blast
  have "veq (=) (OrderedMap t None) (OrderedMap t' None)"
    using veq_plain [of "OrderedMap t None" _ "OrderedMap t' None" _ "(=)"] flat_pairs_all2 [OF fs(1)] list_all2_lengthD [OF fs(1)] t'(3) by (simp add: option_eq_def)
  moreover have "value_ok (=) hash (OrderedMap t' None)"
    by (rule value_okI) (use fs(2) t'(3) avl_counts [OF t'(2)] in \<open>auto simp: kids_def comparable_def option_eq_def flat_pairs_mem\<close>)
  moreover have "pairs_value ops PairsOrderedMap fs None = Ok (OrderedMap t' None)"
    using t'(1) by (simp add: pairs_value_def try_from_entries_def from_tree_def)
  ultimately show ?thesis by blast
qed

lemma map_built:
  assumes "list_all2 (\<lambda>e f. veq (=) (fst e) (fst f) \<and> veq (=) (snd e) (snd f)) es fs"
    "\<forall>f \<in> set fs. value_ok (=) hash (fst f) \<and> value_ok (=) hash (snd f)"
  shows "\<exists>u. pairs_value ops PairsMap fs None = Ok u \<and> veq (=) (Map es mi) u \<and> value_ok (=) hash u"
proof -
  have "veq (=) (Map es mi) (Map fs None)"
    using veq_plain [of "Map es mi" _ "Map fs None" _ "(=)"] flat_pairs_all2 [OF assms(1)] list_all2_lengthD [OF assms(1)] by simp
  moreover have "value_ok (=) hash (Map fs None)" by (rule value_okI) (use assms(2) in \<open>auto simp: kids_def flat_pairs_mem\<close>)
  ultimately show ?thesis by (simp add: pairs_value_def map_new_def)
qed

lemma queue_built:
  assumes "list_all2 (\<lambda>e f. veq (=) (fst e) (fst f) \<and> veq (=) (snd e) (snd f)) (live_slots ss) fs"
    "\<forall>f \<in> set fs. value_ok (=) hash (fst f) \<and> value_ok (=) hash (snd f)"
  shows "\<exists>u. pairs_value ops PairsPriorityQueue fs None = Ok u \<and> veq (=) (PriorityQueue ss hs None rf) u \<and> value_ok (=) hash u"
proof -
  let ?q = "PriorityQueue (map Some fs) [0..<length fs] None (length fs < 2)"
  have "veq (=) (PriorityQueue ss hs None rf) ?q"
    using veq_plain [of "PriorityQueue ss hs None rf" _ ?q _ "(=)"] flat_pairs_all2 [OF assms(1)] list_all2_lengthD [OF assms(1)] by (simp add: option_eq_def)
  moreover have "value_ok (=) hash ?q" by (rule value_okI) (use assms(2) in \<open>auto simp: kids_def flat_pairs_mem comparable_def option_eq_def\<close>)
  ultimately show ?thesis by (simp add: pairs_value_def queue_comparator_def from_entries_def Let_def)
qed

lemma record_persists:
  assumes ok: "value_ok (=) (so_hash so) (Record fs)" and fs: "\<forall>f \<in> set fs. persists ops so (snd f)"
  shows "persists ops so (Record fs)"
proof -
  obtain js ws where js: "slot_values (\<lambda>f. with_value [(''name'', JString (fst f))] (encode_value ops Lossless (snd f))) fs (length fs) =
      Ok (JArray (map field_json (zip (map fst fs) js)))" "reads_all ops so js ws"
    "list_all2 (\<lambda>f w. veq (=) (snd f) w) fs ws" "\<forall>w \<in> set ws. value_ok (=) (so_hash so) w" using field_slots_persist [OF fs] by blast
  have len: "length ws = length fs" "length js = length fs" using js(2,3) by (simp_all add: list_all2_lengthD)
  let ?w = "Record (zip (map fst fs) ws)" and ?j = "JObject [(''kind'', JString ''record''), (''fields'', JArray (map field_json (zip (map fst fs) js)))]"
  have "frame_for_value ?j = Ok (Some (FrameRecord (map field_json (zip (map fst fs) js)) [] :: 'a decode_frame))" by (simp add: frame_defs)
  then have "reads ops so ?j (Ok ?w)" using reads_frame [of ?j] record_runs [OF js(2), of "map fst fs" "[]" "[]"] len by simp
  moreover have "encode_value ops Lossless (Record fs) = Ok ?j" using js(1) by (simp add: encode_value_equations)
  moreover have "\<exists>q \<in> set (zip (map fst fs) ws). field_eq (=) p q" if p: "p \<in> set fs" for p
  proof -
    obtain i where i: "i < length fs" "p = fs ! i" using p by (auto simp: in_set_conv_nth)
    then have "zip (map fst fs) ws ! i \<in> set (zip (map fst fs) ws)" using len by (intro nth_mem) simp
    moreover have "veq (=) (snd p) (ws ! i)" using js(3) i by (simp add: list_all2_conv_all_nth)
    ultimately show ?thesis using i len by (intro bexI [of _ "zip (map fst fs) ws ! i"]) simp_all
  qed
  then have "veq (=) (Record fs) ?w" using len by (simp add: veq_iff [of "(=)" "Record fs"])
  moreover have "value_ok (=) (so_hash so) ?w"
    by (rule value_okI) (use value_ok_local [OF ok] js(4) len in \<open>auto simp: kids_def dest: set_zip_rightD\<close>)
  ultimately show ?thesis using persistsI by blast
qed

lemma range_persists:
  assumes ok: "value_ok (=) (so_hash so) (Range r)" and ends: "persists ops so (range_start r)" "persists ops so (range_end r)"
  shows "persists ops so (Range r)"
proof -
  obtain a x b y where a: "encode_value ops Lossless (range_start r) = Ok a" "reads ops so a (Ok x)" "veq (=) (range_start r) x" "value_ok (=) (so_hash so) x"
    and b: "encode_value ops Lossless (range_end r) = Ok b" "reads ops so b (Ok y)" "veq (=) (range_end r) y" "value_ok (=) (so_hash so) y"
    using ends unfolding persists_def restores_def by blast
  let ?j = "JObject [(''kind'', JString ''range''), (''start'', a), (''end'', b), (''bounds'', JString (range_bounds_json (range_bounds r)))]"
  let ?w = "Range (RangeValue x y (range_bounds r))"
  have bounds: "required_str ?j ''bounds'' = Ok (range_bounds_json (range_bounds r))" "required_obj ?j ''start'' = Ok a" "required_obj ?j ''end'' = Ok b"
    by (simp_all add: required_str_def required_obj_def)
  have "runs ops so (FrameRange ?j (Some x) (Some y)) (Ok ?w)"
    using runs_finish [of "FrameRange ?j (Some x) (Some y)" ops so] bounds by (simp add: range_bounds_roundtrip del: json_get_Cons)
  then have "runs ops so (FrameRange ?j (Some x) None) (Ok ?w)"
    using runs_step [of "FrameRange ?j (Some x) None" b ops so y] b(2) bounds by simp
  then have "runs ops so (FrameRange ?j None None) (Ok ?w)"
    using runs_step [of "FrameRange ?j None None" a ops so x] a(2) bounds by simp
  then have "reads ops so ?j (Ok ?w)" using reads_frame [of ?j "FrameRange ?j None None"] by (simp add: frame_defs)
  moreover have "encode_value ops Lossless (Range r) = Ok ?j" using a(1) b(1) by (simp add: encode_value_equations)
  moreover have "veq (=) (Range r) ?w" using veq_plain [of "Range r" "[range_start r, range_end r]" ?w "[x, y]" "(=)"] a(3) b(3) by simp
  moreover have "value_ok (=) (so_hash so) ?w"
    by (rule value_okI) (use value_ok_local [OF ok] a(4) b(4) veq_number [OF a(3)] veq_number [OF b(3)] in \<open>simp_all add: kids_def\<close>)
  ultimately show ?thesis using persistsI by blast
qed

lemma slot_keys: "slot_values (\<lambda>e. f (fst e)) es n = slot_values f (map fst es) n"
  using slot_firsts [of f es n] slot_values_map [of f "map fst es" n] by simp

text \<open>The sequences without an index of their own.\<close>

lemma sequence_kind_persists:
  fixes vs :: "'x interp_value list"
  assumes "\<forall>x \<in> set vs. persists ops so x"
  shows "persists ops so (Array vs)"
    "persists ops so (List vs)"
    "persists ops so (Slice vs)"
    "persists ops so (Stack vs)"
    "persists ops so (Deque vs)"
    "persists ops so (Queue vs)"
proof -
  show "persists ops so (Array vs)"
    by (rule sequence_persists [where F = "\<lambda>js. JObject [(''kind'', JString ''array''), (''values'', js)]" and k = SequenceArray, OF _ refl _ assms
          sequence_built [where C = Array and s = ShArray]])
      (simp_all add: encode_value_equations sequence_json_def frame_defs sequence_value_def)
  show "persists ops so (List vs)"
    by (rule sequence_persists [where F = "\<lambda>js. JObject [(''kind'', JString ''list''), (''values'', js)]" and k = SequenceList, OF _ refl _ assms
          sequence_built [where C = List and s = ShList]])
      (simp_all add: encode_value_equations sequence_json_def frame_defs sequence_value_def)
  show "persists ops so (Slice vs)"
    by (rule sequence_persists [where F = "\<lambda>js. JObject [(''kind'', JString ''slice''), (''values'', js)]" and k = SequenceSlice, OF _ refl _ assms
          sequence_built [where C = Slice and s = ShSlice]])
      (simp_all add: encode_value_equations sequence_json_def frame_defs sequence_value_def)
  show "persists ops so (Stack vs)"
    by (rule sequence_persists [where F = "\<lambda>js. JObject [(''kind'', JString ''stack''), (''values'', js)]" and k = SequenceStack, OF _ refl _ assms
          sequence_built [where C = Stack and s = ShStack]])
      (simp_all add: encode_value_equations sequence_json_def frame_defs sequence_value_def)
  show "persists ops so (Deque vs)"
    by (rule sequence_persists [where F = "\<lambda>js. JObject [(''kind'', JString ''deque''), (''values'', js)]" and k = SequenceDeque, OF _ refl _ assms
          sequence_built [where C = Deque and s = ShDeque]])
      (simp_all add: encode_value_equations sequence_json_def frame_defs sequence_value_def)
  show "persists ops so (Queue vs)"
    by (rule sequence_persists [where F = "\<lambda>js. JObject [(''kind'', JString ''queue''), (''values'', js)]" and k = SequenceQueue, OF _ refl _ assms
          sequence_built [where C = Queue and s = ShQueue]])
      (simp_all add: encode_value_equations sequence_json_def frame_defs sequence_value_def)
qed

text \<open>The scalars are read as themselves.\<close>

lemma scalar_persists:
  assumes "names_ok ops" "value_ok (=) (so_hash so) v" "hash_leaf v" "codec_local v" "\<nexists>r. v = Range r"
  shows "persists ops so v"
proof -
  have kind: "required_str (numeric_value_json ops n) ''kind'' = Ok ''number''" for n by (cases n) (simp_all add: numeric_value_json_def required_str_def)
  note scalar = encode_value_equations frame_defs leaf_value_def scalar_from_json_def tagged_text_def required_bool_def byte_array_def bytes_roundtrip
  have number: "frame_for_value (numeric_value_json ops n) = (Ok None :: string + 'a decode_frame option)" "leaf_value ops (numeric_value_json ops n) = Ok (Number n)" for n
    by (simp_all add: frame_for_value_def unary_of_def sequence_of_def pairs_of_def leaf_value_def scalar_from_json_def kind numeric_roundtrip [OF assms(1)])
  note leaf = leaf_persists [OF _ _ _ assms(2)]
  show ?thesis
  proof (cases v)
    case Unit
    then show ?thesis using leaf [of ops "JObject [(''kind'', JString ''unit'')]"] by (simp add: scalar)
  next
    case (Bool b)
    then show ?thesis using leaf [of ops "JObject [(''kind'', JString ''bool''), (''value'', JBool b)]"] by (simp add: scalar)
  next
    case (Number n)
    then show ?thesis using leaf [of ops "numeric_value_json ops n"] number by (simp add: encode_value_equations)
  next
    case (String s)
    then show ?thesis using leaf [of ops "JObject [(''kind'', JString ''string''), (''value'', JString s)]"] by (simp add: scalar)
  next
    case (Bytes s)
    then show ?thesis using leaf [of ops "JObject [(''kind'', JString ''bytes''), (''value'', JArray (map (\<lambda>c. JNum (of_char c)) s))]"] by (simp add: scalar)
  next
    case OptionNone
    then show ?thesis using leaf [of ops "JObject [(''kind'', JString ''option_none'')]"] by (simp add: scalar)
  qed (use assms in simp_all)
qed

lemma wrapper_persists:
  assumes w: "persists ops so w"
  shows "ty < 2 ^ 32 \<Longrightarrow> persists ops so (Nominal ty w)" "t < 5 \<Longrightarrow> persists ops so (Trust t w)" "persists ops so (OptionSome w)"
proof -
  note wrapper = encode_value_equations redacts_wrapper_def with_value_def frame_defs required_u32_def trust_wrapper_roundtrip veq_unary value_okI kids_def
  show "persists ops so (Nominal ty w)" if "ty < 2 ^ 32"
    by (rule unary_persists [where F = "\<lambda>j. JObject [(''kind'', JString ''nominal''), (''ty'', JNum ty), (''value'', j)]" and k = "UnaryNominal ty", OF _ _ w])
      (use that in \<open>simp_all add: wrapper\<close>)
  show "persists ops so (Trust t w)" if "t < 5"
    by (rule unary_persists [where F = "\<lambda>j. JObject [(''kind'', JString ''trust''), (''wrapper'', JString (trust_wrapper_json t)), (''value'', j)]" and k = "UnaryTrust t", OF _ _ w])
      (use that in \<open>simp_all add: wrapper\<close>)
  show "persists ops so (OptionSome w)"
    by (rule unary_persists [where F = "\<lambda>j. JObject [(''kind'', JString ''option_some''), (''value'', j)]" and k = UnarySome, OF _ _ w]) (simp_all add: wrapper)
qed

lemma entries_persist:
  assumes es: "\<forall>e \<in> set es. persists ops so (fst e) \<and> persists ops so (snd e)"
  shows "persists ops so (Map es mi)"
    "inorder t = es \<Longrightarrow> counts_ok t \<Longrightarrow> ascending es \<Longrightarrow> persists ops so (OrderedMap t None)"
    "live_slots ss = es \<Longrightarrow> length hs = length es \<Longrightarrow> persists ops so (PriorityQueue ss hs None rf)"
proof -
  note entries = encode_value_equations sorted_json_def comparator_json_def rmap_def rbind_def key_name_def frame_defs
  show "persists ops so (Map es mi)"
    by (rule pairs_persists [where F = "\<lambda>js. JObject [(''kind'', JString ''map''), (''entries'', js)]" and k = PairsMap and n = "length es", OF _ refl _ es map_built])
      (simp_all add: entries)
  show "persists ops so (OrderedMap t None)" if t: "inorder t = es" "counts_ok t" "ascending es"
    by (rule pairs_persists [where F = "\<lambda>js. JObject [(''kind'', JString ''ordered_map''), (''entries'', js), (''comparator'', JNull)]" and k = PairsOrderedMap
          and es = es and n = "count t", OF _ _ _ es ordered_map_built])
      (use t in \<open>simp_all add: entries counted_inorder\<close>)
  show "persists ops so (PriorityQueue ss hs None rf)" if q: "live_slots ss = es" "length hs = length es"
    by (rule pairs_persists [where F = "\<lambda>js. JObject [(''kind'', JString ''priority_queue''), (''entries'', js), (''comparator'', JNull)]" and k = PairsPriorityQueue
          and es = es and n = "length hs", OF _ q(2) _ es queue_built])
      (use q in \<open>simp_all add: entries\<close>)
qed

lemma members_persist:
  assumes vs: "\<forall>x \<in> set vs. persists ops so x"
  shows "persists ops so (Variant name vs)" "vs \<noteq> [] \<Longrightarrow> persists ops so (Tuple vs)"
    "map fst (inorder t) = vs \<Longrightarrow> counts_ok t \<Longrightarrow> ascending (inorder t) \<Longrightarrow> persists ops so (OrderedSet t None)"
proof -
  note members = encode_value_equations sequence_json_def sorted_json_def comparator_json_def rmap_def rbind_def frame_defs sequence_value_def
  show "persists ops so (Variant name vs)"
    by (rule sequence_persists [where F = "\<lambda>js. JObject [(''kind'', JString ''variant''), (''name'', JString name), (''fields'', js)]" and k = "SequenceVariant name",
          OF _ refl _ vs sequence_built [where C = "Variant name" and s = "ShVariant name"]])
      (simp_all add: members)
  show "persists ops so (Tuple vs)" if "vs \<noteq> []"
    by (rule sequence_persists [where F = "\<lambda>js. JObject [(''kind'', JString ''tuple''), (''values'', js)]" and k = SequenceTuple, OF _ refl _ vs
          sequence_built [where C = Tuple and s = ShTuple]])
      (use that in \<open>auto simp: members\<close>)
  show "persists ops so (OrderedSet t None)" if t: "map fst (inorder t) = vs" "counts_ok t" "ascending (inorder t)"
  proof -
    have count: "count t = length vs" using t(1) counted_inorder [OF t(2)] by (metis length_map)
    show ?thesis
      by (rule sequence_persists [where F = "\<lambda>js. JObject [(''kind'', JString ''ordered_set''), (''values'', js), (''comparator'', JNull)]" and k = SequenceOrderedSet
            and n = "count t", OF _ count _ vs ordered_set_built [OF t(3)]])
        (use t(1) in \<open>simp_all add: members slot_keys [of "encode_value ops Lossless"]\<close>)
  qed
qed

lemma set_persists:
  assumes "membership (veq (=)) (so_hash so) (value_ok (=) (so_hash so))" "so_eq so = veq (=)" "value_ok (=) (so_hash so) (Set vs index)"
    and vs: "\<forall>x \<in> set vs. persists ops so x"
  shows "persists ops so (Set vs index)"
  by (rule sequence_persists [where F = "\<lambda>js. JObject [(''kind'', JString ''set''), (''values'', js)]" and k = SequenceSet, OF _ refl _ vs set_built [OF assms(1-3)]])
    (simp_all add: encode_value_equations sequence_json_def frame_defs)

text \<open>A value whose members persist does itself.\<close>

lemma node_persists:
  assumes names: "names_ok ops" and laws: "membership (veq (=)) (so_hash so) (value_ok (=) (so_hash so))" "so_eq so = veq (=)"
    and ok: "value_ok (=) (so_hash so) v" and own: "codec_local v" and kids: "\<And>w. w \<in> set (kids v) \<Longrightarrow> persists ops so w"
  shows "persists ops so v"
proof -
  have pairs: "\<forall>e \<in> set es. persists ops so (fst e) \<and> persists ops so (snd e)" if "kids v = flat_pairs es" for es
    using kids that by (auto simp: flat_pairs_mem)
  note here = value_ok_local [OF ok] kids_def
  show ?thesis
  proof (cases v)
    case (Map es mi)
    then show ?thesis using entries_persist(1) pairs [of es] by (simp add: kids_def)
  next
    case (OrderedMap t c)
    then show ?thesis using entries_persist(2) [OF _ refl] pairs [of "inorder t"] own here by (simp add: kids_def) blast
  next
    case (PriorityQueue ss hs c rf)
    then show ?thesis using entries_persist(3) [OF _ refl] pairs [of "live_slots ss"] own here by (simp add: kids_def) blast
  next
    case (OrderedSet t c)
    then show ?thesis using members_persist(3) [OF _ refl] kids own here by (simp add: kids_def) blast
  next
    case (Set vs index)
    then show ?thesis using set_persists [OF laws] ok kids by (simp add: kids_def)
  next
    case (Record fs)
    then show ?thesis using record_persists [of so fs ops] ok kids by (force simp: kids_def)
  next
    case (Range r)
    then show ?thesis using range_persists [of so r ops] ok kids by (simp add: kids_def)
  qed (use own kids scalar_persists [OF names ok] in \<open>simp_all add: kids_def sequence_kind_persists wrapper_persists members_persist\<close>)
qed

lemma value_persists:
  assumes "names_ok ops" "membership (veq (=)) (so_hash so) (value_ok (=) (so_hash so))" "so_eq so = veq (=)"
  shows "value_ok (=) (so_hash so) v \<Longrightarrow> codec_ok v \<Longrightarrow> persists ops so v"
proof (induction "size v" arbitrary: v rule: less_induct)
  case less
  have own: "codec_local v" "\<forall>w \<in> set (kids v). codec_ok w" using less.prems(2) by (subst (asm) codec_ok.simps, blast)+
  have "\<forall>w \<in> set (kids v). value_ok (=) (so_hash so) w" using less.prems(1) by (subst (asm) value_ok.simps) blast
  then have "persists ops so w" if "w \<in> set (kids v)" for w using less.hyps [OF size_kid] own(2) that by blast
  then show ?case using node_persists [OF assms less.prems(1) own(1)] by blast
qed

text \<open>\<^bold>\<open>C15\<close>. What is written can be read back: a well-formed value of data, of any shape and nesting, is written without
  an error, the document is read without an error, and the value read is structurally equal to the one written and well
  formed, its sets with a new index that describes their members and its ordered collections balanced anew.\<close>

theorem written_values_are_read_back:
  fixes v :: "'x interp_value"
  assumes "hash = value_fingerprint hasher oh ident" "names_ok ops" "identifies ident" "value_ok (=) hash v" "codec_ok v"
  shows "\<exists>j w. encode_value ops Lossless v = Ok j \<and>
    decode_with_frames ops \<lparr>so_eq = veq (=), so_hash = hash, so_seed = seed\<rparr> j = Some (Ok w) \<and> veq (=) v w \<and> value_ok (=) hash w"
proof -
  let ?so = "\<lparr>so_eq = veq (=), so_hash = hash, so_seed = seed\<rparr> :: 'x set_ops"
  have "membership (veq (=)) (so_hash ?so) (value_ok (=) (so_hash ?so))"
    using values_membership [of "(=)" oh ident hasher hash] assms(3) by (simp add: assms(1) opaque_equivalence_def opaque_hash_ok_def)
  from value_persists [OF assms(2) this, of v] assms(4,5) have "persists ops ?so v" by simp
  then show ?thesis unfolding persists_def restores_def
    by (fastforce simp: reads_def decode_with_frames_def resume_def holding)
qed

definition sample_data :: "unit interp_value" where
  "sample_data = Record [(''flag'', Bool True), (''level'', OptionSome (Number (I8 5)))]"

theorem written_values_are_read_back_witness:
  "\<exists>j w. encode_value sample_codec Lossless sample_data = Ok j \<and>
     decode_with_frames sample_codec \<lparr>so_eq = veq (=), so_hash = value_fingerprint (\<lambda>_ _. 0) (\<lambda>_. 0) (\<lambda>_. None :: unit option), so_seed = 7\<rparr> j = Some (Ok w) \<and>
     veq (=) sample_data w"
proof -
  have names: "names_ok sample_codec" by (simp add: names_ok_def sample_codec_def primitive_type_from_abi_name_def)
  have ok: "value_ok (=) hash (Number (I8 5))" "value_ok (=) hash (Bool True)" for hash :: "nat \<Rightarrow> unit interp_value \<Rightarrow> nat" by (rule value_okI; simp add: kids_def)+
  have some: "value_ok (=) hash (OptionSome (Number (I8 5)))" for hash :: "nat \<Rightarrow> unit interp_value \<Rightarrow> nat" by (rule value_okI) (simp_all add: kids_def ok)
  have "value_ok (=) hash sample_data" for hash unfolding sample_data_def by (rule value_okI) (simp_all add: kids_def ok some)
  moreover have "codec_ok sample_data"
    by (simp add: sample_data_def kids_def codec_ok.simps [of "Record x" for x] codec_ok.simps [of "OptionSome x" for x] codec_ok.simps [of "Bool x" for x] codec_ok.simps [of "Number x" for x])
  ultimately show ?thesis using written_values_are_read_back [OF refl names, of "\<lambda>_. None :: unit option"] by (simp add: identifies_def) blast
qed

end
