(* ===== verification/Spec2Isabelle.thy ===== *)
theory Spec2Isabelle
  imports Numeric Integer_Range Priority_Queue_Eval Scheduler_Progress Scheduler_Outcomes Residual_End Residual_Checkpoint Text_Ranges
    Value_Comparison Value_Codec
begin

text \<open>
  A verification development of the Etas interpreter, the crate \<open>src/crates/etas_interpreter\<close>.
  Paths below are relative to its \<open>src/\<close>.

  \<^bold>\<open>The program.\<close> The interpreter evaluates checked Etas programs over runtime values
  (\<open>value/\<close>), with an evaluator that suspends at every call (\<open>eval/\<close>) and a cooperative scheduler
  that runs structured tasks under concurrency limits, resource permits and one-shot
  continuations (\<open>driver/scheduler/\<close>). The ordered collections and the priority queue live on the
  boundary: their operations need comparisons that the program's own flows compute, so they are
  written as searches that stop at every comparison and continue with its answer.

  \<^bold>\<open>Conventions.\<close> \<open>Result<T, E>\<close> is a sum (\<open>Inl\<close> the error); a panic is an error value of its own,
  so that a property can exclude it. Methods on \<open>&mut self\<close> return the new state, also on an error.
  Machine integers are words where they wrap or overflow is reported; \<open>usize\<close> identifiers and
  counters are natural numbers, with the checked increment written out where the source has one.

  \<^bold>\<open>Values.\<close>
  \<^item> \<open>Prelude\<close>: results, orderings, checked counters. \<open>Comparator\<close>: the contract of a comparator,
    \<open>total_comparator\<close>, and the reference model of an ordered map, a strictly ascending list.
  \<^item> \<open>Numeric\<close> (\<open>value/numeric.rs\<close>): the numbers of every width, checked arithmetic,
    conversions, literals and printing. The rounded IEEE operations are the parameter \<open>float_ops\<close>.
  \<^item> \<open>Value\<close> (\<open>value/primitive.rs\<close>, \<open>value/support.rs\<close>): the value type. What the modelled
    components only pass along is the type parameter \<open>'x\<close>.
  \<^item> \<open>Integer_Range\<close> (\<open>value/range.rs\<close>): normalised ranges, positional access, slices.
  \<^item> \<open>Text_Rope\<close> (\<open>value/text.rs\<close>, \<open>value/text/concat.rs\<close>): the shared rope behind a string and its
    operations, which refine those on the bytes. \<open>Text_Chunks\<close> (\<open>value/text/chunks.rs\<close>,
    \<open>value/text/read.rs\<close>): the double-ended iterator, and comparison, equality and hashing that do
    not depend on how the text is cut. \<open>Text_Ranges\<close> (\<open>value/text/chunks.rs\<close>,
    \<open>value/text/ranges.rs\<close>): the owning cursor and the projection of ranges, with the UTF-8
    boundaries they respect. The other components take a string as its bytes.

  \<^item> \<open>Record_Layout\<close> (\<open>value/record.rs\<close>): the fields of a record and the cached permutation that sorts
    them, for lookup by binary search.
  \<^item> \<open>Value_Structure\<close>: structural equality of values as a specification, sets and records up to order.
    \<open>Comparison_Engine\<close> (\<open>value/comparison/engine.rs\<close>, \<open>runtime/memo.rs\<close>, \<open>runtime/context.rs\<close>, \<open>mod.rs\<close>): the
    loop that drives cursors with a stack of its own, as a partial function whose value \<open>None\<close> is not
    to return, and the memo of pairs of shared values with its generations. \<open>Value_Comparison\<close>
    (\<open>value/comparison/runtime.rs\<close>, \<open>runtime/node.rs\<close>, \<open>runtime/ordered.rs\<close>): the comparison of values.
    It returns for all well-formed values and decides the specification. The identity of shared
    storage is the parameter \<open>ident\<close>, the comparison of callables and opaque members the parameter \<open>oq\<close>.

  \<^bold>\<open>Collections.\<close>
  \<^item> \<open>Membership\<close> (\<open>value/membership.rs\<close>, \<open>value/set.rs\<close>, \<open>value/map.rs\<close>): the index from fingerprints to
    positions, and sets and maps over it, for members with the contract \<open>membership\<close>.
    \<open>Value_Membership\<close> (\<open>value/membership/structure.rs\<close>, \<open>value/membership/runtime.rs\<close>): the iterative hash of
    a value; equal values have equal fingerprints, so values meet the contract, and hashed sets and
    maps refine lists of members and entries. The hasher is a parameter.
  \<^item> \<open>Ordered_Tree\<close> (\<open>value/ordered.rs\<close>): the balanced tree, its bulk builder, iterator, cursor and
    the resumable search. The search implements lookup and insertion of the reference model.
  \<^item> \<open>Ordered_Collection\<close> (\<open>value/ordered/order.rs\<close>, \<open>value/ordered/collection.rs\<close>,
    \<open>eval/ordered_collection.rs\<close>, \<open>eval/method/local.rs\<close>): the default key order, restoring, and
    the methods as the evaluator runs them, suspended at every comparison.
  \<^item> \<open>Priority_Queue\<close> and \<open>Priority_Queue_Eval\<close> (\<open>value/priority_queue.rs\<close>,
    \<open>eval/priority_queue.rs\<close>): slots in insertion order, a heap of slot numbers, and the resumable
    update with its compaction.

  \<^bold>\<open>Codec.\<close>
  \<^item> \<open>Value_Encode\<close> (\<open>api/codec/value/encode_runtime.rs\<close>, \<open>api/codec/value/purpose.rs\<close>,
    \<open>api/codec/json_helpers.rs\<close>, \<open>value/codec.rs\<close>): a value as a JSON document, to be read back or as a
    report. A report reveals nothing of what secret wrappers hold.
  \<^item> \<open>Value_Decode\<close> (\<open>api/codec/value/decode.rs\<close>, \<open>api/codec/value/decode/runtime.rs\<close>,
    \<open>api/codec/value/scalar.rs\<close>): the decoder with its stack of frames, as a partial function whose value
    \<open>None\<close> is not to return. It returns for every document.
  \<^item> \<open>Value_Codec\<close>: a well-formed value of data is read back as an equal, well-formed value. The codecs
    of callables, messages and the other opaque members are the parameter \<open>codec_ops\<close>.

  \<^bold>\<open>Scheduling.\<close>
  \<^item> \<open>Resource_Guards\<close> (\<open>driver/scheduler/resource.rs\<close>): permits over memory selectors.
  \<^item> \<open>Continuation_Arena\<close> (\<open>driver/scheduler/continuation.rs\<close>): one-shot continuation tokens.
  \<^item> \<open>Scheduler\<close> (\<open>driver/scheduler/mod.rs\<close>, \<open>task.rs\<close>, \<open>group.rs\<close>, \<open>eval/run_state.rs\<close>): every
    method of \<open>TaskScheduler\<close>, in a state and error monad. The execution scopes and cancellation
    records of the host crate are the parameter \<open>host_ops\<close> over an arbitrary world. Walks along
    the parents of a scope take \<open>scope_fuel\<close>, the number of groups plus one; \<open>Scheduler_Refinement\<close>
    shows that in every reachable state the walk ends within it.
  \<^item> \<open>Task_System\<close>: the abstract specification, scopes, tasks and permits without queues and
    counters, as a step relation. \<open>Scheduler_Refinement\<close> and \<open>Scheduler_Simulation\<close> show method by
    method that the scheduler implements it; \<open>Scheduler_Runs\<close> lifts this to runs of a driver that
    takes tasks out while it executes them.
  \<^item> \<open>Scheduler_Waits\<close>: no waiting task is forgotten. \<open>Scheduler_Progress\<close>: dispatch and wake-ups.
    \<open>Scheduler_Outcomes\<close>: the result of a scope under its policy.

  \<^bold>\<open>Residual monitors.\<close> What a trace specification demands and the checker could not discharge is
  monitored: a callable with residual obligations runs under a scope, every governed action inside
  is previewed and committed by all enclosing scopes before it is dispatched, and every scope is
  checked when it is left.
  \<^item> \<open>Residual_Plan\<close> (\<open>plan/residual/mod.rs\<close>, \<open>eval/residual/mod.rs\<close>): identities and prepared plans.
    The monitor kernel of the crate \<open>etas_code\<close> is the parameter \<open>trace_plan\<close>, the checked program the
    parameters \<open>checked_facts\<close> and \<open>effect_facts\<close>.
  \<^item> \<open>Residual_Log\<close> (\<open>control/residual/lifecycle.rs\<close>, \<open>orchestration/residual.rs\<close>): the exit log.
  \<^item> \<open>Residual_State\<close> (\<open>control/residual/state.rs\<close>): one scope, with its checkpoint form.
  \<^item> \<open>Residual_Run\<close> (\<open>eval/residual/\<close>, \<open>control/residual/permit.rs\<close>, \<open>driver/residual_exit.rs\<close>): the
    scopes and attempts of a run as a store of cells, since they are shared; observation, permits,
    outcomes, exits and the end of a run. The faults of a cell that is borrowed twice are left out:
    no operation holds a borrow while it calls another.
  \<^item> \<open>Residual_Observe\<close>, \<open>Residual_Scope\<close> and \<open>Residual_Runs\<close>: what the operations do to a scope and to
    the store, the step relation of a run and its invariant. \<open>Residual_Properties\<close>: unanimity,
    permits and evidence. \<open>Residual_End\<close>: no unsatisfied scope is lost.
  \<^item> \<open>Residual_Checkpoint\<close> (\<open>orchestration/residual.rs\<close>, \<open>eval/machine/snapshot/capture_context.rs\<close>,
    \<open>control/residual/permit.rs\<close>, \<open>eval/machine/state.rs\<close>): capture, validation and restoring of the
    monitors of a run. A captured run is valid, a scope comes back, and no authority does.

  \<^bold>\<open>Not modelled.\<close> The expression, statement and call evaluator and the plan read the checked
  program of other crates; the host adapters, the public entry points and the diagnostics are
  input and output. Callables, their captured frames and messages are compared and hashed as opaque
  members, and their codecs are parameters. The checkpoint codecs, the validators of the machine
  snapshot and the pure intrinsics are left out: their data are the saved forms of the evaluator's
  own state, which the model does not have.
\<close>

end
